(* ===== verification/Prelude.thy ===== *)
theory Prelude
  imports Main "HOL-Library.Word" "HOL-Library.Monad_Syntax"
begin

text \<open>
  Shared vocabulary of the development: the machine types of the C sources, memory
  accesses that are checked against the extent of the object they go to, the byte
  orders the sources write out by hand, and a total-correctness reading of
  computations in the option monad.

  Every operation of the program that can loop or that indexes memory is a function
  into \<open>('a \<times> 's) option\<close>: \<open>Some (r, s)\<close> is a return with value \<open>r\<close> in state \<open>s\<close>;
  \<open>None\<close> is a run that never returns or that reads or writes outside an object.
  A theorem of the form \<open>returns m P\<close> therefore states termination, memory safety and
  the postcondition \<open>P\<close> together.
\<close>

unbundle bit_operations_syntax

section \<open>Machine types\<close>

type_synonym u8 = "8 word"
type_synonym u16 = "16 word"
type_synonym u32 = "32 word"
type_synonym u64 = "64 word"
type_synonym bytes = "u8 list"

named_theorems mem_simps \<comment> \<open>checked accesses that are in range\<close>
named_theorems codec_simps \<comment> \<open>decoding what was encoded\<close>
named_theorems ok_intros \<comment> \<open>introduction rules for \<open>returns\<close>\<close>

section \<open>Checked memory accesses\<close>

definition get_at :: "nat \<Rightarrow> 'a list \<Rightarrow> 'a option" where
  "get_at i xs = (if i < length xs then Some (xs ! i) else None)"

definition put_at :: "nat \<Rightarrow> 'a \<Rightarrow> 'a list \<Rightarrow> 'a list option" where
  "put_at i v xs = (if i < length xs then Some (xs[i := v]) else None)"

definition get_range :: "nat \<Rightarrow> nat \<Rightarrow> 'a list \<Rightarrow> 'a list option" where
  "get_range off n xs = (if off + n \<le> length xs then Some (take n (drop off xs)) else None)"

definition overlay :: "nat \<Rightarrow> 'a list \<Rightarrow> 'a list \<Rightarrow> 'a list" where
  "overlay off ys xs = take off xs @ ys @ drop (off + length ys) xs"

definition put_range :: "nat \<Rightarrow> 'a list \<Rightarrow> 'a list \<Rightarrow> 'a list option" where
  "put_range off ys xs = (if off + length ys \<le> length xs then Some (overlay off ys xs) else None)"

lemma get_at_in [mem_simps]: "i < length xs \<Longrightarrow> get_at i xs = Some (xs ! i)"
  by (simp add: get_at_def)

lemma put_at_in [mem_simps]: "i < length xs \<Longrightarrow> put_at i v xs = Some (xs[i := v])"
  by (simp add: put_at_def)

lemma get_range_in [mem_simps]:
  "off + n \<le> length xs \<Longrightarrow> get_range off n xs = Some (take n (drop off xs))"
  by (simp add: get_range_def)

lemma put_range_in [mem_simps]:
  "off + length ys \<le> length xs \<Longrightarrow> put_range off ys xs = Some (overlay off ys xs)"
  by (simp add: put_range_def)

lemma get_at_SomeD: "get_at i xs = Some v \<Longrightarrow> i < length xs \<and> v = xs ! i"
  by (simp add: get_at_def split: if_splits)

lemma put_at_SomeD: "put_at i v xs = Some ys \<Longrightarrow> i < length xs \<and> ys = xs[i := v]"
  by (simp add: put_at_def split: if_splits)

lemma get_range_SomeD:
  "get_range off n xs = Some ys \<Longrightarrow> off + n \<le> length xs \<and> ys = take n (drop off xs)"
  by (simp add: get_range_def split: if_splits)

lemma put_range_SomeD:
  "put_range off ys xs = Some zs \<Longrightarrow> off + length ys \<le> length xs \<and> zs = overlay off ys xs"
  by (simp add: put_range_def split: if_splits)

lemma length_overlay [simp]: "off + length ys \<le> length xs \<Longrightarrow> length (overlay off ys xs) = length xs"
  by (simp add: overlay_def)

lemma nth_overlay:
  assumes "off + length ys \<le> length xs"
  shows "overlay off ys xs ! i =
    (if i < off then xs ! i else if i < off + length ys then ys ! (i - off) else xs ! i)"
  using assms by (auto simp: overlay_def nth_append)

lemma overlay_Nil [simp]: "overlay off [] xs = xs"
  by (simp add: overlay_def)

lemma overlay_overlay_adjacent:
  assumes "off + length ys + length zs \<le> length xs"
  shows "overlay (off + length ys) zs (overlay off ys xs) = overlay off (ys @ zs) xs"
  using assms by (intro nth_equalityI) (auto simp: nth_overlay nth_append)

lemma take_drop_overlay:
  assumes "off + length ys \<le> length xs"
  shows "take (length ys) (drop off (overlay off ys xs)) = ys"
  using assms by (simp add: overlay_def)

lemma take_overlay_prefix: "off \<le> length xs \<Longrightarrow> take off (overlay off ys xs) = take off xs"
  by (simp add: overlay_def)

lemma take_overlay_full:
  "off + length ys \<le> length xs \<Longrightarrow> take (off + length ys) (overlay off ys xs) = take off xs @ ys"
  by (simp add: overlay_def)

section \<open>Total correctness in the option monad\<close>

definition returns :: "('a \<times> 's) option \<Rightarrow> ('a \<Rightarrow> 's \<Rightarrow> bool) \<Rightarrow> bool" where
  "returns m P = (case m of None \<Rightarrow> False | Some (r, s) \<Rightarrow> P r s)"

lemma returns_Some [simp]: "returns (Some (r, s)) P = P r s"
  by (simp add: returns_def)

lemma returns_None [simp]: "\<not> returns None P"
  by (simp add: returns_def)

lemma returns_iff: "returns m P \<longleftrightarrow> (\<exists>r s. m = Some (r, s) \<and> P r s)"
  by (auto simp: returns_def split: option.splits)

lemma returnsE:
  assumes "returns m P"
  obtains r s where "m = Some (r, s)" and "P r s"
  using assms by (auto simp: returns_iff)

lemma returns_bind [simp]:
  "returns (Option.bind m f) P \<longleftrightarrow> returns m (\<lambda>r s. returns (f (r, s)) P)"
  by (cases m) (auto simp: returns_def split: option.splits)

lemma returns_mono [ok_intros]:
  "returns m P \<Longrightarrow> (\<And>r s. P r s \<Longrightarrow> Q r s) \<Longrightarrow> returns m Q"
  by (auto simp: returns_iff)

lemma returns_conj: "returns m P \<Longrightarrow> returns m Q \<Longrightarrow> returns m (\<lambda>r s. P r s \<and> Q r s)"
  by (auto simp: returns_iff)

lemma returns_if [simp]:
  "returns (if b then m else n) P \<longleftrightarrow> (if b then returns m P else returns n P)"
  by simp

lemma returns_ifI: "(b \<Longrightarrow> returns m P) \<Longrightarrow> (\<not> b \<Longrightarrow> returns n P) \<Longrightarrow> returns (if b then m else n) P"
  by simp

lemmas bind_SomeD = bind_eq_Some_conv [THEN iffD1]

section \<open>Byte orders\<close>

text \<open>Little-endian loads and stores, as the sources and the host write multi-byte values.\<close>

definition le16 :: "u8 \<Rightarrow> u8 \<Rightarrow> u16" where
  "le16 b0 b1 = push_bit 8 (ucast b1) OR ucast b0"

definition le32 :: "u8 \<Rightarrow> u8 \<Rightarrow> u8 \<Rightarrow> u8 \<Rightarrow> u32" where
  "le32 b0 b1 b2 b3 = push_bit 24 (ucast b3) OR push_bit 16 (ucast b2) OR push_bit 8 (ucast b1) OR ucast b0"

definition bytes_le16 :: "u16 \<Rightarrow> bytes" where
  "bytes_le16 v = [ucast v, ucast (drop_bit 8 v)]"

definition bytes_le32 :: "u32 \<Rightarrow> bytes" where
  "bytes_le32 v = [ucast v, ucast (drop_bit 8 v), ucast (drop_bit 16 v), ucast (drop_bit 24 v)]"

definition bytes_be32 :: "u32 \<Rightarrow> bytes" where
  "bytes_be32 v = [ucast (drop_bit 24 v), ucast (drop_bit 16 v), ucast (drop_bit 8 v), ucast v]"

definition bytes_le64 :: "u64 \<Rightarrow> bytes" where
  "bytes_le64 v = bytes_le32 (ucast v) @ bytes_le32 (ucast (drop_bit 32 v))"

definition le64 :: "bytes \<Rightarrow> u64" where
  "le64 b = push_bit 32 (ucast (le32 (b ! 4) (b ! 5) (b ! 6) (b ! 7))) OR
     ucast (le32 (b ! 0) (b ! 1) (b ! 2) (b ! 3))"

lemma length_bytes_le16 [simp]: "length (bytes_le16 v) = 2"
  by (simp add: bytes_le16_def)

lemma length_bytes_le32 [simp]: "length (bytes_le32 v) = 4"
  by (simp add: bytes_le32_def)

lemma length_bytes_be32 [simp]: "length (bytes_be32 v) = 4"
  by (simp add: bytes_be32_def)

lemma length_bytes_le64 [simp]: "length (bytes_le64 v) = 8"
  by (simp add: bytes_le64_def)

lemma le16_bytes [codec_simps]: "le16 (ucast v) (ucast (drop_bit 8 v)) = v"
  unfolding le16_def by (rule bit_word_eqI) (auto simp: bit_simps)

lemma le32_bytes [codec_simps]:
  "le32 (ucast v) (ucast (drop_bit 8 v)) (ucast (drop_bit 16 v)) (ucast (drop_bit 24 v)) = v"
  unfolding le32_def
proof (rule bit_word_eqI)
  fix n assume "n < LENGTH(32)"
  then consider "n < 8" | "8 \<le> n" "n < 16" | "16 \<le> n" "n < 24" | "24 \<le> n" "n < 32"
    by force
  then show "bit (push_bit 24 (ucast (ucast (drop_bit 24 v) :: u8)) OR
      push_bit 16 (ucast (ucast (drop_bit 16 v) :: u8)) OR
      push_bit 8 (ucast (ucast (drop_bit 8 v) :: u8)) OR ucast (ucast v :: u8) :: u32) n = bit v n"
    by cases (auto simp: bit_simps)
qed

lemma ucast_halves: "push_bit 32 (ucast (ucast (drop_bit 32 v) :: u32)) OR ucast (ucast v :: u32) = (v :: u64)"
  by (rule bit_word_eqI) (auto simp: bit_simps)

lemma le64_bytes [codec_simps]: "le64 (bytes_le64 v) = v"
proof -
  have "le64 ([a, b, c, d] @ [e, f, g, h]) = push_bit 32 (ucast (le32 e f g h)) OR ucast (le32 a b c d)" for a b c d e f g h
    by (simp add: le64_def nth_append)
  then show ?thesis
    unfolding bytes_le64_def bytes_le32_def by (simp only: le32_bytes ucast_halves)
qed

lemma le16_bytes_of:
  "(ucast (le16 b0 b1) :: u8) = b0" "(ucast (drop_bit 8 (le16 b0 b1)) :: u8) = b1"
  unfolding le16_def by (rule bit_word_eqI; auto simp: bit_simps dest: bit_imp_le_length)+

lemma le16_inject: "le16 a b = le16 c d \<longleftrightarrow> a = c \<and> b = d"
  by (metis le16_bytes_of)

section \<open>Narrowing casts and one-bit flags\<close>

lemma ucast_down_add: "LENGTH('b) \<le> LENGTH('a) \<Longrightarrow> (ucast (a + b :: 'a::len word) :: 'b::len word) = ucast a + ucast b"
  by transfer (metis min.absorb1 take_bit_add take_bit_take_bit)

lemma ucast_down_1: "LENGTH('b) \<le> LENGTH('a) \<Longrightarrow> (ucast (1 :: 'a::len word) :: 'b::len word) = 1"
  by transfer (simp add: min_def)

lemma ucast_down_of_int:
  "LENGTH('b) \<le> LENGTH('a) \<Longrightarrow> (ucast (of_int k :: 'a::len word) :: 'b::len word) = of_int k"
  by transfer (simp add: min_def)

lemma ucast_down_of_nat:
  "LENGTH('b) \<le> LENGTH('a) \<Longrightarrow> (ucast (of_nat k :: 'a::len word) :: 'b::len word) = of_nat k"
  by transfer (simp add: min_def)

lemma ucast_up_down [simp]:
  "LENGTH('a) \<le> LENGTH('b) \<Longrightarrow> (ucast (ucast (x :: 'a::len word) :: 'b::len word) :: 'a word) = x"
  by (rule bit_word_eqI) (auto simp: bit_simps)

lemma unat_of_int_small:
  "0 \<le> k \<Longrightarrow> k < 2 ^ LENGTH('a) \<Longrightarrow> unat (of_int k :: 'a::len word) = nat k"
  by (simp add: unat_eq_nat_uint uint_word_of_int take_bit_int_eq_self)

lemma sint_small_nat: "unat (x :: u32) < 2 ^ 31 \<Longrightarrow> sint x = int (unat x)"
proof -
  assume "unat x < 2 ^ 31"
  then have "int (unat x) < int (2 ^ 31)" by (simp only: of_nat_less_iff)
  then have "uint x < 2 ^ 31" by simp
  moreover have "- (2 ^ 31) \<le> uint x" by (rule order_trans [OF _ unsigned_greater_eq]) simp
  ultimately show ?thesis by (simp add: sint_uint signed_take_bit_int_eq_self)
qed

lemma unat_of_sint: "0 \<le> sint (d :: u32) \<Longrightarrow> unat d = nat (sint d)"
proof -
  assume d: "0 \<le> sint d"
  have "sint d < 2 ^ LENGTH(32)" using sint_less [of d] by simp
  then have "unat (of_int (sint d) :: u32) = nat (sint d)" by (rule unat_of_int_small [OF d])
  then show ?thesis by simp
qed

lemma word1_cases: "(f :: 1 word) = 0 \<or> f = 1"
  by (cases "bit f 0") (auto intro!: bit_word_eqI simp: bit_simps)

end
