(* ===== verification/Edcl.thy ===== *)
theory Edcl
  imports Prelude
begin

text \<open>
  The EDCL transport of \<open>edcl.cpp\<close> (packets of at most 32 payload bytes, a 14-bit
  sequence number, resynchronisation on a NAK) over the datagram calls of
  \<open>udp.cpp\<close>. The socket is a parameter: \<open>netops\<close> holds what \<open>sendto\<close>,
  \<open>recvfrom\<close> and \<open>getsockopt(SO_ERROR)\<close> do to a world of type \<open>'w\<close>.
\<close>

section \<open>State\<close>

record 'w netops =
  net_open :: "'w \<Rightarrow> 'w"
  net_sendto :: "bytes \<Rightarrow> 'w \<Rightarrow> int \<times> 'w"
  net_recvfrom :: "'w \<Rightarrow> bytes option \<times> 'w"
  net_soerror :: "'w \<Rightarrow> int \<times> 'w"

text \<open>
  The globals of the two files: \<open>tx_buf_\<close>, \<open>rx_buf_\<close>, \<open>rcvbuf\<close> (4096 bytes each),
  \<open>seq_cnt_\<close> and the flag \<open>first\<close>.
\<close>

record 'w edcl =
  tx_buf :: bytes
  rx_buf :: bytes
  rcvbuf :: bytes
  seq_cnt :: u64
  first :: bool
  net :: 'w

definition edcl_bufs :: "'w edcl \<Rightarrow> bool" where
  "edcl_bufs st \<longleftrightarrow> length (tx_buf st) = 4096 \<and> length (rx_buf st) = 4096 \<and> length (rcvbuf st) = 4096"

section \<open>Packet fields\<close>

text \<open>
  \<open>EdclControlRequestType\<close> and \<open>EdclControlResponseType\<close> share one layout: 7 unused
  bits, 10 bits of length, the write (request) or NAK (response) bit, 14 bits of
  sequence index, allocated from the least significant bit.
\<close>

record edcl_ctrl =
  c_unused :: "7 word"
  c_len :: "10 word"
  c_flag :: "1 word"
  c_seqidx :: "14 word"

definition ctrl_word :: "edcl_ctrl \<Rightarrow> u32" where
  "ctrl_word c = ucast (c_unused c) OR push_bit 7 (ucast (c_len c)) OR
     push_bit 17 (ucast (c_flag c)) OR push_bit 18 (ucast (c_seqidx c))"

definition word_ctrl :: "u32 \<Rightarrow> edcl_ctrl" where
  "word_ctrl w = \<lparr>c_unused = ucast w, c_len = ucast (drop_bit 7 w),
     c_flag = ucast (drop_bit 17 w), c_seqidx = ucast (drop_bit 18 w)\<rparr>"

definition EdclService_write16 :: "bytes \<Rightarrow> nat \<Rightarrow> u16 \<Rightarrow> (nat \<times> bytes) option" where
  "EdclService_write16 buf off v = do {
     buf \<leftarrow> put_at off (ucast (drop_bit 8 v AND 0xFF)) buf;
     buf \<leftarrow> put_at (off + 1) (ucast (v AND 0xFF)) buf;
     Some (off + 2, buf) }"

definition EdclService_write32 :: "bytes \<Rightarrow> nat \<Rightarrow> u32 \<Rightarrow> (nat \<times> bytes) option" where
  "EdclService_write32 buf off v = do {
     buf \<leftarrow> put_at off (ucast (drop_bit 24 v AND 0xFF)) buf;
     buf \<leftarrow> put_at (off + 1) (ucast (drop_bit 16 v AND 0xFF)) buf;
     buf \<leftarrow> put_at (off + 2) (ucast (drop_bit 8 v AND 0xFF)) buf;
     buf \<leftarrow> put_at (off + 3) (ucast (v AND 0xFF)) buf;
     Some (off + 4, buf) }"

definition EdclService_read32 :: "bytes \<Rightarrow> nat \<Rightarrow> u32 option" where
  "EdclService_read32 buf off = do {
     b0 \<leftarrow> get_at off buf;
     b1 \<leftarrow> get_at (off + 1) buf;
     b2 \<leftarrow> get_at (off + 2) buf;
     b3 \<leftarrow> get_at (off + 3) buf;
     Some (push_bit 24 (ucast b0) OR push_bit 16 (ucast b1) OR push_bit 8 (ucast b2) OR ucast b3) }"

section \<open>Datagrams\<close>

definition UdpService_sendData :: "'w netops \<Rightarrow> bytes \<Rightarrow> 'w edcl \<Rightarrow> int \<times> 'w edcl" where
  "UdpService_sendData ops msg st =
     (let (tx_bytes, w) = net_sendto ops msg (net st)
      in (if tx_bytes < 0 then 1 else tx_bytes, st\<lparr>net := w\<rparr>))"

text \<open>
  \<open>recvfrom\<close> fails (\<open>None\<close>, C result -1) or stores a datagram, truncated to the
  4096 bytes of \<open>rcvbuf\<close>.
\<close>

definition UdpService_readData :: "'w netops \<Rightarrow> nat \<Rightarrow> 'w edcl \<Rightarrow> (int \<times> 'w edcl) option" where
  "UdpService_readData ops maxlen st =
     (let (dg, w1) = net_recvfrom ops (net st);
          (sockerr, w2) = net_soerror ops w1;
          st1 = st\<lparr>net := w2\<rparr>
      in case dg of
           None \<Rightarrow> if sockerr < 0 then Some (-1, st1)
                   else if sockerr = 0 then Some (0, st1)
                   else Some (-1, st1)
         | Some d \<Rightarrow>
             (let d = take 4096 d; res = min maxlen (length d);
                  st2 = st1\<lparr>rcvbuf := overlay 0 d (rcvbuf st1)\<rparr>
              in if d = [] then Some (0, st2)
                 else do { rx \<leftarrow> put_range 0 (take res d) (rx_buf st2);
                           Some (int res, st2\<lparr>rx_buf := rx\<rparr>) }))"

definition EdclService_EdclService :: "'w netops \<Rightarrow> 'w edcl \<Rightarrow> 'w edcl" where
  "EdclService_EdclService ops st = st\<lparr>seq_cnt := 0, net := net_open ops (net st), first := True\<rparr>"

section \<open>Read transactions\<close>

definition EDCL_PAYLOAD_MAX_BYTES :: int where
  "EDCL_PAYLOAD_MAX_BYTES = 4 * 8"

definition edcl_request :: "u64 \<Rightarrow> 1 word \<Rightarrow> int \<Rightarrow> edcl_ctrl" where
  "edcl_request seq wr left = \<lparr>c_unused = 0,
     c_len = (if left > EDCL_PAYLOAD_MAX_BYTES then of_int EDCL_PAYLOAD_MAX_BYTES else of_int left),
     c_flag = wr, c_seqidx = ucast seq\<rparr>"

definition edcl_header :: "edcl_ctrl \<Rightarrow> u32 \<Rightarrow> 'w edcl \<Rightarrow> (nat \<times> 'w edcl) option" where
  "edcl_header c a st = do {
     (off, tx) \<leftarrow> EdclService_write16 (tx_buf st) 0 0;
     (off, tx) \<leftarrow> EdclService_write32 tx off (ctrl_word c);
     (off, tx) \<leftarrow> EdclService_write32 tx off a;
     Some (off, st\<lparr>tx_buf := tx\<rparr>) }"

text \<open>One pass of the loop of \<open>EdclService_read\<close>: the new \<open>rd_bytes\<close> and buffer.\<close>

definition edcl_read_body ::
  "'w netops \<Rightarrow> u64 \<Rightarrow> int \<Rightarrow> int \<Rightarrow> bytes \<Rightarrow> 'w edcl \<Rightarrow> ((int \<times> bytes) \<times> 'w edcl) option" where
  "edcl_read_body ops addr n rd obuf st = do {
     let c = edcl_request (seq_cnt st) 0 (n - rd);
     (off, st) \<leftarrow> edcl_header c (ucast (addr + of_int rd)) st;
     let (sent, st) = UdpService_sendData ops (take off (tx_buf st)) st;
     if sent = -1 then Some ((-1, obuf), st)
     else do {
       (got, st) \<leftarrow> UdpService_readData ops 4096 st;
       if got = -1 then Some ((-1, obuf), st)
       else if got = 0 then Some ((-1, obuf), st)
       else do {
         w \<leftarrow> EdclService_read32 (rx_buf st) 2;
         let rsp = word_ctrl w;
         if c_flag rsp \<noteq> 0 then Some ((rd, obuf), st\<lparr>seq_cnt := ucast (c_seqidx rsp)\<rparr>)
         else do {
           d \<leftarrow> get_range 10 (unat (c_len rsp)) (rx_buf st);
           obuf \<leftarrow> put_range (nat rd) d obuf;
           Some ((rd + int (unat (c_len rsp)), obuf), st\<lparr>seq_cnt := seq_cnt st + 1\<rparr>) } } } }"

partial_function (option) edcl_read_loop ::
  "'w netops \<Rightarrow> u64 \<Rightarrow> int \<Rightarrow> int \<Rightarrow> bytes \<Rightarrow> 'w edcl \<Rightarrow> ((int \<times> bytes) \<times> 'w edcl) option" where
  "edcl_read_loop ops addr n rd obuf st =
     (if rd < n \<and> rd \<noteq> -1
      then do { ((rd, obuf), st) \<leftarrow> edcl_read_body ops addr n rd obuf st;
                edcl_read_loop ops addr n rd obuf st }
      else Some ((rd, obuf), st))"

definition EdclService_read ::
  "'w netops \<Rightarrow> u64 \<Rightarrow> int \<Rightarrow> bytes \<Rightarrow> 'w edcl \<Rightarrow> ((int \<times> bytes) \<times> 'w edcl) option" where
  "EdclService_read ops addr n obuf st =
     edcl_read_loop ops addr n 0 obuf (if first st then st else EdclService_EdclService ops st)"

section \<open>Write transactions\<close>

definition edcl_write_body ::
  "'w netops \<Rightarrow> u64 \<Rightarrow> int \<Rightarrow> bytes \<Rightarrow> int \<Rightarrow> 'w edcl \<Rightarrow> (int \<times> 'w edcl) option" where
  "edcl_write_body ops addr n ibuf wr st = do {
     let c = edcl_request (seq_cnt st) 1 (n - wr);
     (off, st) \<leftarrow> edcl_header c (ucast (addr + of_int wr)) st;
     d \<leftarrow> get_range (nat wr) (unat (c_len c)) ibuf;
     tx \<leftarrow> put_range off d (tx_buf st);
     let (sent, st) = UdpService_sendData ops (take (off + unat (c_len c)) tx) (st\<lparr>tx_buf := tx\<rparr>);
     if sent = -1 then Some (-1, st)
     else do {
       (got, st) \<leftarrow> UdpService_readData ops 4096 st;
       if got = -1 then Some (-1, st)
       else if got = 0 then Some (-1, st)
       else do {
         w \<leftarrow> EdclService_read32 (rx_buf st) 2;
         let rsp = word_ctrl w;
         if c_flag rsp \<noteq> 0 then Some (wr, st\<lparr>seq_cnt := ucast (c_seqidx rsp)\<rparr>)
         else Some (wr + int (unat (c_len c)), st\<lparr>seq_cnt := seq_cnt st + 1\<rparr>) } } }"

partial_function (option) edcl_write_loop ::
  "'w netops \<Rightarrow> u64 \<Rightarrow> int \<Rightarrow> bytes \<Rightarrow> int \<Rightarrow> 'w edcl \<Rightarrow> (int \<times> 'w edcl) option" where
  "edcl_write_loop ops addr n ibuf wr st =
     (if wr < n \<and> wr \<noteq> -1
      then do { (wr, st) \<leftarrow> edcl_write_body ops addr n ibuf wr st;
                edcl_write_loop ops addr n ibuf wr st }
      else Some (wr, st))"

definition EdclService_write ::
  "'w netops \<Rightarrow> u64 \<Rightarrow> int \<Rightarrow> bytes \<Rightarrow> 'w edcl \<Rightarrow> (int \<times> 'w edcl) option" where
  "EdclService_write ops addr n ibuf st =
     edcl_write_loop ops addr n ibuf 0 (if first st then st else EdclService_EdclService ops st)"


section \<open>The wire format\<close>

lemma word_ctrl_ctrl_word [codec_simps]: "word_ctrl (ctrl_word c) = c"
proof -
  have 1: "(ucast (ctrl_word c) :: 7 word) = c_unused c"
    unfolding ctrl_word_def by (rule bit_word_eqI) (auto simp: bit_simps dest: bit_imp_le_length)
  have 2: "(ucast (drop_bit 7 (ctrl_word c)) :: 10 word) = c_len c"
    unfolding ctrl_word_def by (rule bit_word_eqI) (auto simp: bit_simps dest: bit_imp_le_length)
  have 3: "(ucast (drop_bit 17 (ctrl_word c)) :: 1 word) = c_flag c"
    unfolding ctrl_word_def by (rule bit_word_eqI) (auto simp: bit_simps dest: bit_imp_le_length)
  have 4: "(ucast (drop_bit 18 (ctrl_word c)) :: 14 word) = c_seqidx c"
    unfolding ctrl_word_def by (rule bit_word_eqI) (auto simp: bit_simps dest: bit_imp_le_length)
  show ?thesis by (simp add: word_ctrl_def 1 2 3 4)
qed

lemma ucast_ff_mask: "(ucast (v AND 0xFF :: u32) :: u8) = ucast v" "(ucast (h AND 0xFF :: u16) :: u8) = ucast h"
proof -
  have "v AND 0xFF = take_bit 8 v" "h AND 0xFF = take_bit 8 h"
    by (simp_all add: take_bit_eq_mask mask_eq_exp_minus_1)
  then show "(ucast (v AND 0xFF :: u32) :: u8) = ucast v" "(ucast (h AND 0xFF :: u16) :: u8) = ucast h"
    by (simp_all only:) (auto intro!: bit_word_eqI simp: bit_simps)
qed

lemma EdclService_write32_eq:
  assumes "off + 4 \<le> length buf"
  shows "EdclService_write32 buf off v = Some (off + 4, overlay off (bytes_be32 v) buf)"
proof -
  have "buf[off := a, off + 1 := b, off + 2 := c, off + 3 := d] = overlay off [a, b, c, d] buf" for a b c d
    using assms by (intro nth_equalityI) (auto simp: nth_overlay nth_list_update nth_Cons split: nat.splits)
  with assms show ?thesis
    by (simp add: EdclService_write32_def mem_simps bytes_be32_def ucast_ff_mask)
qed

lemma EdclService_write16_eq:
  assumes "off + 2 \<le> length buf"
  shows "EdclService_write16 buf off v = Some (off + 2, overlay off [ucast (drop_bit 8 v), ucast v] buf)"
proof -
  have "buf[off := a, Suc off := b] = overlay off [a, b] buf" for a b
    using assms by (intro nth_equalityI) (auto simp: nth_overlay nth_list_update nth_Cons split: nat.splits)
  with assms show ?thesis
    by (simp add: EdclService_write16_def mem_simps ucast_ff_mask)
qed

lemma be32_bytes:
  "push_bit 24 (ucast (ucast (drop_bit 24 v) :: u8)) OR push_bit 16 (ucast (ucast (drop_bit 16 v) :: u8)) OR
   push_bit 8 (ucast (ucast (drop_bit 8 v) :: u8)) OR ucast (ucast v :: u8) = (v :: u32)"
  using le32_bytes [of v] by (simp add: le32_def ac_simps)

lemma EdclService_read32_bytes [codec_simps]:
  assumes "off + 4 \<le> length buf" and "take 4 (drop off buf) = bytes_be32 v"
  shows "EdclService_read32 buf off = Some v"
proof -
  have "buf ! (off + i) = bytes_be32 v ! i" if "i < 4" for i
    using assms that by (metis add_leD1 nth_drop nth_take)
  from this [of 0] this [of 1] this [of 2] this [of 3] show ?thesis
    using assms by (simp add: EdclService_read32_def mem_simps bytes_be32_def be32_bytes)
qed

text \<open>The ten header bytes of a request: offset 0, the control word, the address.\<close>

definition edcl_packet :: "edcl_ctrl \<Rightarrow> u32 \<Rightarrow> bytes" where
  "edcl_packet c a = [0, 0] @ bytes_be32 (ctrl_word c) @ bytes_be32 a"

lemma length_edcl_packet [simp]: "length (edcl_packet c a) = 10"
  by (simp add: edcl_packet_def)

lemma edcl_header_eq:
  assumes "10 \<le> length (tx_buf st)"
  shows "edcl_header c a st = Some (10, st\<lparr>tx_buf := overlay 0 (edcl_packet c a) (tx_buf st)\<rparr>)"
  using assms overlay_overlay_adjacent [of 0 "[0, 0]" "bytes_be32 (ctrl_word c)" "tx_buf st"]
    overlay_overlay_adjacent [of 0 "[0, 0] @ bytes_be32 (ctrl_word c)" "bytes_be32 a" "tx_buf st"]
  by (simp add: edcl_header_def EdclService_write16_eq EdclService_write32_eq edcl_packet_def)

section \<open>What an EDCL device does with a request\<close>

definition edcl_exchange :: "'w netops \<Rightarrow> bytes \<Rightarrow> 'w \<Rightarrow> int \<times> bytes option \<times> 'w" where
  "edcl_exchange ops p w =
     (let (n, w1) = net_sendto ops p w; (r, w2) = net_recvfrom ops w1; (e, w3) = net_soerror ops w2
      in (n, r, w3))"

primrec mem_store :: "(u32 \<Rightarrow> u8) \<Rightarrow> u32 \<Rightarrow> bytes \<Rightarrow> u32 \<Rightarrow> u8" where
  "mem_store m a [] = m"
| "mem_store m a (d # ds) = mem_store (m(a := d)) (a + 1) ds"

definition mem_load :: "(u32 \<Rightarrow> u8) \<Rightarrow> u32 \<Rightarrow> nat \<Rightarrow> bytes" where
  "mem_load m a n = map (\<lambda>i. m (a + of_nat i)) [0..<n]"

text \<open>
  The device contract: a request with the expected sequence index is carried out and
  acknowledged, and the index advances; any other request is answered by a NAK that
  carries the expected index, and changes nothing. \<open>mem\<close> is the memory the device gives
  access to and \<open>dev\<close> whatever else the far side holds, which no exchange changes.
\<close>

definition edcl_ack :: "('w \<Rightarrow> u32 \<Rightarrow> u8) \<Rightarrow> edcl_ctrl \<Rightarrow> u32 \<Rightarrow> bytes \<Rightarrow> 'w \<Rightarrow> edcl_ctrl \<Rightarrow> bytes \<Rightarrow> 'w \<Rightarrow> bool" where
  "edcl_ack mem c a d w r reply w' \<longleftrightarrow> c_flag r = 0 \<and>
     (if c_flag c = 0
      then c_len r = c_len c \<and> 10 + unat (c_len c) \<le> length reply \<and>
        take (unat (c_len c)) (drop 10 reply) = mem_load (mem w) a (unat (c_len c)) \<and> mem w' = mem w
      else mem w' = mem_store (mem w) a d)"

definition edcl_device :: "'w netops \<Rightarrow> ('w \<Rightarrow> u32 \<Rightarrow> u8) \<Rightarrow> ('w \<Rightarrow> 'd) \<Rightarrow> ('w \<Rightarrow> 14 word) \<Rightarrow> bool" where
  "edcl_device ops mem dev expect \<longleftrightarrow>
     (\<forall>w c a d. length d = (if c_flag c = 0 then 0 else unat (c_len c)) \<longrightarrow>
       (\<exists>r reply w'. edcl_exchange ops (edcl_packet c a @ d) w = (int (10 + length d), Some reply, w') \<and>
          6 \<le> length reply \<and> length reply \<le> 4096 \<and> take 4 (drop 2 reply) = bytes_be32 (ctrl_word r) \<and>
          dev w' = dev w \<and>
          (if c_seqidx c = expect w then edcl_ack mem c a d w r reply w' \<and> expect w' = expect w + 1
           else c_flag r = 1 \<and> c_seqidx r = expect w \<and> mem w' = mem w \<and> expect w' = expect w)))"

lemma edcl_deviceE:
  assumes "edcl_device ops mem dev expect" and "length d = (if c_flag c = 0 then 0 else unat (c_len c))"
  obtains r reply w' where "edcl_exchange ops (edcl_packet c a @ d) w = (int (10 + length d), Some reply, w')"
    "6 \<le> length reply" "length reply \<le> 4096" "take 4 (drop 2 reply) = bytes_be32 (ctrl_word r)"
    "dev w' = dev w"
    "c_seqidx c = expect w \<Longrightarrow> edcl_ack mem c a d w r reply w' \<and> expect w' = expect w + 1"
    "c_seqidx c \<noteq> expect w \<Longrightarrow> c_flag r = 1 \<and> c_seqidx r = expect w \<and> mem w' = mem w \<and> expect w' = expect w"
  using assms(1) [unfolded edcl_device_def, rule_format, OF assms(2), of a w] that
  by (elim exE conjE) (auto split: if_splits)

text \<open>A send followed by a receive, as the two loops use them, is one exchange.\<close>

lemma edcl_exchange_run:
  assumes "edcl_exchange ops p (net st) = (int k, Some reply, w')" and "edcl_bufs st"
    and "6 \<le> length reply" "length reply \<le> 4096"
  shows "\<exists>w1 rcv. UdpService_sendData ops p st = (int k, st\<lparr>net := w1\<rparr>) \<and> length rcv = 4096 \<and>
    UdpService_readData ops 4096 (st\<lparr>net := w1\<rparr>) =
      Some (int (length reply), st\<lparr>rx_buf := overlay 0 reply (rx_buf st), rcvbuf := rcv, net := w'\<rparr>)"
proof -
  obtain n w1 where s: "net_sendto ops p (net st) = (n, w1)" by force
  obtain r w2 where rv: "net_recvfrom ops w1 = (r, w2)" by force
  obtain e w3 where se: "net_soerror ops w2 = (e, w3)" by force
  from assms(1) s rv se have eq: "n = int k" "r = Some reply" "w3 = w'"
    by (simp_all add: edcl_exchange_def)
  have "reply \<noteq> []" using assms(3) by auto
  with s rv se eq assms(2-4) show ?thesis
    by (intro exI [of _ w1] exI [of _ "overlay 0 reply (rcvbuf st)"])
      (auto simp: UdpService_sendData_def UdpService_readData_def edcl_bufs_def mem_simps Let_def)
qed

lemma take_drop_overlay_inside:
  assumes "i + n \<le> length ys" and "length ys \<le> length xs"
  shows "take n (drop i (overlay 0 ys xs)) = take n (drop i ys)"
  using assms by (simp add: overlay_def)

lemma mem_load_append: "mem_load m a n @ mem_load m (a + of_nat n) k = mem_load m a (n + k)"
  by (rule nth_equalityI) (auto simp: mem_load_def nth_append algebra_simps simp flip: of_nat_add)

lemma length_mem_load [simp]: "length (mem_load m a n) = n"
  by (simp add: mem_load_def)

lemma mem_store_append: "mem_store m a (xs @ ys) = mem_store (mem_store m a xs) (a + of_nat (length xs)) ys"
  by (induction xs arbitrary: m a) (simp_all add: algebra_simps)

text \<open>The length a pass asks for.\<close>

definition edcl_chunk :: "int \<Rightarrow> nat" where
  "edcl_chunk left = nat (min 32 left)"

lemma edcl_request_len:
  assumes "0 < left"
  shows "unat (c_len (edcl_request seq wr left)) = edcl_chunk left"
proof (cases "left > 32")
  case True
  then show ?thesis by (simp add: edcl_request_def EDCL_PAYLOAD_MAX_BYTES_def edcl_chunk_def)
next
  case False
  with assms have "unat (of_int left :: 10 word) = nat left"
    by (simp add: unat_eq_nat_uint uint_word_of_int take_bit_int_eq_self)
  with False show ?thesis
    by (simp add: edcl_request_def EDCL_PAYLOAD_MAX_BYTES_def edcl_chunk_def)
qed

lemma edcl_request_simps [simp]:
  "c_flag (edcl_request seq wr left) = wr" "c_seqidx (edcl_request seq wr left) = ucast seq"
  by (simp_all add: edcl_request_def)

lemma edcl_chunk_bounds: "0 < left \<Longrightarrow> 0 < edcl_chunk left \<and> edcl_chunk left \<le> 32 \<and> int (edcl_chunk left) \<le> left"
  by (auto simp: edcl_chunk_def)

text \<open>
  One pass of the read loop against a device: in step, a chunk is delivered and both
  sides advance; out of step, the host adopts the device's index and nothing else
  changes.
\<close>

lemma edcl_read_body_spec:
  fixes addr :: u64
  assumes dev: "edcl_device ops mem dev expect" and bufs: "edcl_bufs st"
    and rd: "0 \<le> rd" "rd < n" and room: "n \<le> int (length obuf)"
  defines "k \<equiv> edcl_chunk (n - rd)" and "a \<equiv> ucast addr + of_int rd"
  shows "returns (edcl_read_body ops addr n rd obuf st) (\<lambda>(rd', obuf') st'.
    edcl_bufs st' \<and> first st' = first st \<and> mem (net st') = mem (net st) \<and>
    (ucast (seq_cnt st') :: 14 word) = expect (net st') \<and> dev (net st') = dev (net st) \<and>
    (if (ucast (seq_cnt st) :: 14 word) = expect (net st)
     then rd' = rd + int k \<and> obuf' = overlay (nat rd) (mem_load (mem (net st)) a k) obuf
     else rd' = rd \<and> obuf' = obuf))"
proof -
  let ?c = "edcl_request (seq_cnt st) 0 (n - rd)"
  let ?st = "st\<lparr>tx_buf := overlay 0 (edcl_packet ?c a) (tx_buf st)\<rparr>"
  have k: "unat (c_len ?c) = k" "k \<le> 32" "int k \<le> n - rd" "0 < k"
    using edcl_request_len [of "n - rd"] edcl_chunk_bounds [of "n - rd"] rd by (auto simp: k_def)
  have a: "ucast (addr + of_int rd) = a"
    by (simp add: a_def ucast_down_add ucast_down_of_int)
  have hdr: "edcl_header ?c a st = Some (10, ?st)"
    by (rule edcl_header_eq) (use bufs in \<open>simp add: edcl_bufs_def\<close>)
  have tk: "take 10 (overlay 0 (edcl_packet ?c a) (tx_buf st)) = edcl_packet ?c a"
    using bufs by (simp add: overlay_def edcl_bufs_def)
  have b: "edcl_bufs ?st" using bufs by (simp add: edcl_bufs_def)
  obtain r reply w' where ex: "edcl_exchange ops (edcl_packet ?c a) (net ?st) = (10, Some reply, w')"
    and len: "6 \<le> length reply" "length reply \<le> 4096"
    and rsp: "take 4 (drop 2 reply) = bytes_be32 (ctrl_word r)" and dv: "dev w' = dev (net st)"
    and yes: "c_seqidx ?c = expect (net st) \<Longrightarrow> edcl_ack mem ?c a [] (net st) r reply w' \<and> expect w' = expect (net st) + 1"
    and no: "c_seqidx ?c \<noteq> expect (net st) \<Longrightarrow> c_flag r = 1 \<and> c_seqidx r = expect (net st) \<and> mem w' = mem (net st) \<and> expect w' = expect (net st)"
    by (rule edcl_deviceE [OF dev, of "[]" ?c a "net st"]) auto
  obtain w1 rcv where rcv: "length rcv = 4096"
    and send: "UdpService_sendData ops (edcl_packet ?c a) ?st = (10, ?st\<lparr>net := w1\<rparr>)"
    and recv: "UdpService_readData ops 4096 (?st\<lparr>net := w1\<rparr>) =
      Some (int (length reply), ?st\<lparr>rx_buf := overlay 0 reply (rx_buf ?st), rcvbuf := rcv, net := w'\<rparr>)"
    using edcl_exchange_run [OF _ b len, of ops "edcl_packet ?c a" 10 w'] ex by auto
  let ?st3 = "?st\<lparr>rx_buf := overlay 0 reply (rx_buf ?st), rcvbuf := rcv, net := w'\<rparr>"
  have rx: "length (overlay 0 reply (rx_buf st)) = 4096" "length (rx_buf st) = 4096"
    using bufs len by (auto simp: edcl_bufs_def)
  have word: "EdclService_read32 (rx_buf ?st3) 2 = Some (ctrl_word r)"
    by (rule EdclService_read32_bytes) (use rx len rsp in \<open>auto simp: take_drop_overlay_inside\<close>)
  have b3: "edcl_bufs (?st3\<lparr>seq_cnt := q\<rparr>)" for q using rx rcv b by (simp add: edcl_bufs_def)
  have got: "int (length reply) \<noteq> -1" "int (length reply) \<noteq> 0" using len by auto
  show ?thesis
  proof (cases "c_seqidx ?c = expect (net st)")
    case True
    with yes have ack: "c_flag r = 0" "c_len r = c_len ?c" "10 + k \<le> length reply"
      "take k (drop 10 reply) = mem_load (mem (net st)) a k" "mem w' = mem (net st)" "expect w' = expect (net st) + 1"
      by (auto simp: edcl_ack_def k)
    have data: "get_range 10 k (rx_buf ?st3) = Some (mem_load (mem (net st)) a k)"
      using ack rx len by (simp add: mem_simps take_drop_overlay_inside)
    have put: "put_range (nat rd) (mem_load (mem (net st)) a k) obuf =
        Some (overlay (nat rd) (mem_load (mem (net st)) a k) obuf)"
      using rd room k by (simp add: mem_simps)
    have seq: "(ucast (seq_cnt st + 1) :: 14 word) = expect w'"
      using True ack by (simp add: ucast_down_add ucast_down_1)
    have "edcl_read_body ops addr n rd obuf st =
      Some ((rd + int k, overlay (nat rd) (mem_load (mem (net st)) a k) obuf), ?st3\<lparr>seq_cnt := seq_cnt st + 1\<rparr>)"
      unfolding edcl_read_body_def Let_def a hdr using ack(1,2) got put data word
      by (simp add: tk send recv word_ctrl_ctrl_word k(1))
    with True ack b3 seq dv show ?thesis by simp
  next
    case False
    with no have nak: "c_flag r = 1" "c_seqidx r = expect (net st)" "mem w' = mem (net st)" "expect w' = expect (net st)"
      by auto
    have "(ucast (ucast (c_seqidx r) :: u64) :: 14 word) = c_seqidx r"
      by (rule bit_word_eqI) (auto simp: bit_simps)
    moreover have "edcl_read_body ops addr n rd obuf st = Some ((rd, obuf), ?st3\<lparr>seq_cnt := ucast (c_seqidx r)\<rparr>)"
      unfolding edcl_read_body_def Let_def a hdr using nak(1) got word
      by (simp add: tk send recv word_ctrl_ctrl_word)
    ultimately show ?thesis using False nak b3 dv by simp
  qed
qed

definition edcl_read_post ::
  "('w \<Rightarrow> u32 \<Rightarrow> u8) \<Rightarrow> ('w \<Rightarrow> 'd) \<Rightarrow> ('w \<Rightarrow> 14 word) \<Rightarrow> u64 \<Rightarrow> int \<Rightarrow> int \<Rightarrow> bytes \<Rightarrow> 'w edcl \<Rightarrow> int \<times> bytes \<Rightarrow> 'w edcl \<Rightarrow> bool" where
  "edcl_read_post mem dev expect addr rd n obuf st = (\<lambda>(r, ob) st'.
     r = n \<and> ob = overlay (nat rd) (mem_load (mem (net st)) (ucast addr + of_int rd) (nat (n - rd))) obuf \<and>
     mem (net st') = mem (net st) \<and> edcl_bufs st' \<and> first st' = first st \<and> dev (net st') = dev (net st) \<and>
     (0 < n \<longrightarrow> (ucast (seq_cnt st') :: 14 word) = expect (net st')))"

lemma mem_load_0 [simp]: "mem_load m a 0 = []"
  by (simp add: mem_load_def)

lemma edcl_read_loop_sync:
  fixes addr :: u64
  assumes dev: "edcl_device ops mem dev expect" and "edcl_bufs st" and "0 \<le> rd" "rd \<le> n"
    and "n \<le> int (length obuf)" and "(ucast (seq_cnt st) :: 14 word) = expect (net st)"
  shows "returns (edcl_read_loop ops addr n rd obuf st) (edcl_read_post mem dev expect addr rd n obuf st)"
  using assms(2-)
proof (induction "nat (n - rd)" arbitrary: rd obuf st rule: less_induct)
  case less
  show ?case
  proof (cases "rd < n")
    case False
    with less.prems show ?thesis by (simp add: edcl_read_loop.simps edcl_read_post_def)
  next
    case True
    let ?k = "edcl_chunk (n - rd)" and ?a = "ucast addr + of_int rd :: u32"
    let ?m = "mem (net st)" and ?ob = "overlay (nat rd) (mem_load (mem (net st)) (ucast addr + of_int rd) (edcl_chunk (n - rd))) obuf"
    have k: "0 < ?k" "int ?k \<le> n - rd" using edcl_chunk_bounds [of "n - rd"] True by auto
    obtain st1 where body: "edcl_read_body ops addr n rd obuf st = Some ((rd + int ?k, ?ob), st1)"
      and st1: "edcl_bufs st1" "first st1 = first st" "mem (net st1) = ?m" "dev (net st1) = dev (net st)" "(ucast (seq_cnt st1) :: 14 word) = expect (net st1)"
      using edcl_read_body_spec [OF dev less.prems(1,2) True less.prems(4), of addr] less.prems(5)
      by (auto simp: returns_iff)
    have len: "length ?ob = length obuf" using k less.prems True by simp
    have "returns (edcl_read_loop ops addr n (rd + int ?k) ?ob st1)
        (edcl_read_post mem dev expect addr (rd + int ?k) n ?ob st1)"
      using k less.prems True st1 len by (intro less.hyps) auto
    moreover have "overlay (nat (rd + int ?k)) (mem_load ?m (ucast addr + of_int (rd + int ?k)) (nat (n - (rd + int ?k)))) ?ob
        = overlay (nat rd) (mem_load ?m ?a (nat (n - rd))) obuf"
    proof -
      have nat_eq: "nat (rd + int ?k) = nat rd + ?k" "?k + nat (n - (rd + int ?k)) = nat (n - rd)"
        using k less.prems(2) True by auto
      show ?thesis
        using overlay_overlay_adjacent [of "nat rd" "mem_load ?m ?a ?k" "mem_load ?m (?a + of_nat ?k) (nat (n - (rd + int ?k)))" obuf]
          k less.prems(2-4) mem_load_append [of ?m ?a ?k "nat (n - (rd + int ?k))"]
        by (simp add: nat_eq algebra_simps)
    qed
    ultimately show ?thesis
      using body st1 True less.prems(2)
      by (subst edcl_read_loop.simps) (auto simp: edcl_read_post_def elim!: returns_mono split: prod.splits)
  qed
qed

text \<open>Whatever sequence number the host starts with, one NAK puts it in step.\<close>

lemma edcl_read_loop_spec:
  fixes addr :: u64
  assumes dev: "edcl_device ops mem dev expect" and bufs: "edcl_bufs st" and n: "0 \<le> n" "n \<le> int (length obuf)"
  shows "returns (edcl_read_loop ops addr n 0 obuf st) (edcl_read_post mem dev expect addr 0 n obuf st)"
proof (cases "n = 0 \<or> (ucast (seq_cnt st) :: 14 word) = expect (net st)")
  case True
  then show ?thesis
    using edcl_read_loop_sync [OF dev bufs, of 0 n obuf addr] n bufs
    by (auto simp: edcl_read_loop.simps [of _ _ 0] edcl_read_post_def)
next
  case False
  with n obtain st1 where body: "edcl_read_body ops addr n 0 obuf st = Some ((0, obuf), st1)"
    and st1: "edcl_bufs st1" "first st1 = first st" "mem (net st1) = mem (net st)" "dev (net st1) = dev (net st)" "(ucast (seq_cnt st1) :: 14 word) = expect (net st1)"
    using edcl_read_body_spec [OF dev bufs, of 0 n obuf addr] by (auto simp: returns_iff)
  have "returns (edcl_read_loop ops addr n 0 obuf st1) (edcl_read_post mem dev expect addr 0 n obuf st1)"
    by (rule edcl_read_loop_sync [OF dev]) (use st1 n in auto)
  with body st1 False n show ?thesis
    by (subst edcl_read_loop.simps) (auto simp: edcl_read_post_def elim!: returns_mono split: prod.splits)
qed

section \<open>The write loop against a device\<close>

lemma edcl_write_body_spec:
  fixes addr :: u64
  assumes dev: "edcl_device ops mem dev expect" and bufs: "edcl_bufs st"
    and wr: "0 \<le> wr" "wr < n" and room: "n \<le> int (length ibuf)"
  defines "k \<equiv> edcl_chunk (n - wr)" and "a \<equiv> ucast addr + of_int wr"
  shows "returns (edcl_write_body ops addr n ibuf wr st) (\<lambda>wr' st'.
    edcl_bufs st' \<and> first st' = first st \<and> (ucast (seq_cnt st') :: 14 word) = expect (net st') \<and>
    dev (net st') = dev (net st) \<and>
    (if (ucast (seq_cnt st) :: 14 word) = expect (net st)
     then wr' = wr + int k \<and> mem (net st') = mem_store (mem (net st)) a (take k (drop (nat wr) ibuf))
     else wr' = wr \<and> mem (net st') = mem (net st)))"
proof -
  let ?c = "edcl_request (seq_cnt st) 1 (n - wr)" and ?d = "take k (drop (nat wr) ibuf)"
  let ?tx = "overlay 10 ?d (overlay 0 (edcl_packet ?c a) (tx_buf st))"
  let ?st = "st\<lparr>tx_buf := ?tx\<rparr>"
  have k: "unat (c_len ?c) = k" "k \<le> 32" "int k \<le> n - wr" "0 < k"
    using edcl_request_len [of "n - wr"] edcl_chunk_bounds [of "n - wr"] wr by (auto simp: k_def)
  have a: "ucast (addr + of_int wr) = a"
    by (simp add: a_def ucast_down_add ucast_down_of_int)
  have hdr: "edcl_header ?c a st = Some (10, st\<lparr>tx_buf := overlay 0 (edcl_packet ?c a) (tx_buf st)\<rparr>)"
    by (rule edcl_header_eq) (use bufs in \<open>simp add: edcl_bufs_def\<close>)
  have d: "get_range (nat wr) k ibuf = Some ?d" "length ?d = k"
    using wr room k by (auto simp: mem_simps)
  have tx: "put_range 10 ?d (overlay 0 (edcl_packet ?c a) (tx_buf st)) = Some ?tx" "length ?tx = 4096"
    using d(2) k bufs by (auto simp: mem_simps edcl_bufs_def)
  have tk: "take (10 + k) ?tx = edcl_packet ?c a @ ?d"
    using take_overlay_full [of 10 ?d "overlay 0 (edcl_packet ?c a) (tx_buf st)"] d(2) k bufs
    by (simp add: edcl_bufs_def) (simp add: overlay_def)
  have b: "edcl_bufs ?st" using bufs tx by (simp add: edcl_bufs_def)
  obtain r reply w' where ex: "edcl_exchange ops (edcl_packet ?c a @ ?d) (net ?st) = (int (10 + k), Some reply, w')"
    and len: "6 \<le> length reply" "length reply \<le> 4096"
    and rsp: "take 4 (drop 2 reply) = bytes_be32 (ctrl_word r)" and dv: "dev w' = dev (net st)"
    and yes: "c_seqidx ?c = expect (net st) \<Longrightarrow> edcl_ack mem ?c a ?d (net st) r reply w' \<and> expect w' = expect (net st) + 1"
    and no: "c_seqidx ?c \<noteq> expect (net st) \<Longrightarrow> c_flag r = 1 \<and> c_seqidx r = expect (net st) \<and> mem w' = mem (net st) \<and> expect w' = expect (net st)"
    by (rule edcl_deviceE [OF dev, of ?d ?c a "net st"]) (use d(2) k in auto)
  obtain w1 rcv where rcv: "length rcv = 4096"
    and send: "UdpService_sendData ops (edcl_packet ?c a @ ?d) ?st = (int (10 + k), ?st\<lparr>net := w1\<rparr>)"
    and recv: "UdpService_readData ops 4096 (?st\<lparr>net := w1\<rparr>) =
      Some (int (length reply), ?st\<lparr>rx_buf := overlay 0 reply (rx_buf ?st), rcvbuf := rcv, net := w'\<rparr>)"
    using edcl_exchange_run [OF ex b len] by auto
  let ?st3 = "?st\<lparr>rx_buf := overlay 0 reply (rx_buf ?st), rcvbuf := rcv, net := w'\<rparr>"
  have rx: "length (overlay 0 reply (rx_buf st)) = 4096" "length (rx_buf st) = 4096"
    using bufs len by (auto simp: edcl_bufs_def)
  have word: "EdclService_read32 (rx_buf ?st3) 2 = Some (ctrl_word r)"
    by (rule EdclService_read32_bytes) (use rx len rsp in \<open>auto simp: take_drop_overlay_inside\<close>)
  have b3: "edcl_bufs (?st3\<lparr>seq_cnt := q\<rparr>)" for q using rx rcv b by (simp add: edcl_bufs_def)
  have got: "int (length reply) \<noteq> -1" "int (length reply) \<noteq> 0" "int (10 + k) \<noteq> -1" using len by auto
  show ?thesis
  proof (cases "c_seqidx ?c = expect (net st)")
    case True
    with yes have ack: "c_flag r = 0" "mem w' = mem_store (mem (net st)) a ?d" "expect w' = expect (net st) + 1"
      by (auto simp: edcl_ack_def)
    have seq: "(ucast (seq_cnt st + 1) :: 14 word) = expect w'"
      using True ack by (simp add: ucast_down_add ucast_down_1)
    have "edcl_write_body ops addr n ibuf wr st = Some (wr + int k, ?st3\<lparr>seq_cnt := seq_cnt st + 1\<rparr>)"
      unfolding edcl_write_body_def Let_def a hdr using ack(1) got word send recv
      by (simp add: tk tx d word_ctrl_ctrl_word k(1))
    with True ack b3 seq dv show ?thesis by simp
  next
    case False
    with no have nak: "c_flag r = 1" "c_seqidx r = expect (net st)" "mem w' = mem (net st)" "expect w' = expect (net st)"
      by auto
    have "(ucast (ucast (c_seqidx r) :: u64) :: 14 word) = c_seqidx r"
      by (rule bit_word_eqI) (auto simp: bit_simps)
    moreover have "edcl_write_body ops addr n ibuf wr st = Some (wr, ?st3\<lparr>seq_cnt := ucast (c_seqidx r)\<rparr>)"
      unfolding edcl_write_body_def Let_def a hdr using nak(1) got word send recv
      by (simp add: tk tx d word_ctrl_ctrl_word k(1))
    ultimately show ?thesis using False nak b3 dv by simp
  qed
qed

definition edcl_write_post ::
  "('w \<Rightarrow> u32 \<Rightarrow> u8) \<Rightarrow> ('w \<Rightarrow> 'd) \<Rightarrow> ('w \<Rightarrow> 14 word) \<Rightarrow> u64 \<Rightarrow> int \<Rightarrow> int \<Rightarrow> bytes \<Rightarrow> 'w edcl \<Rightarrow> int \<Rightarrow> 'w edcl \<Rightarrow> bool" where
  "edcl_write_post mem dev expect addr wr n ibuf st = (\<lambda>r st'.
     r = n \<and> mem (net st') = mem_store (mem (net st)) (ucast addr + of_int wr) (take (nat (n - wr)) (drop (nat wr) ibuf)) \<and>
     edcl_bufs st' \<and> first st' = first st \<and> dev (net st') = dev (net st) \<and>
     (0 < n \<longrightarrow> (ucast (seq_cnt st') :: 14 word) = expect (net st')))"

lemma edcl_write_loop_sync:
  fixes addr :: u64
  assumes dev: "edcl_device ops mem dev expect" and "edcl_bufs st" and "0 \<le> wr" "wr \<le> n"
    and room: "n \<le> int (length ibuf)" and "(ucast (seq_cnt st) :: 14 word) = expect (net st)"
  shows "returns (edcl_write_loop ops addr n ibuf wr st) (edcl_write_post mem dev expect addr wr n ibuf st)"
  using assms(2-4,6)
proof (induction "nat (n - wr)" arbitrary: wr st rule: less_induct)
  case less
  show ?case
  proof (cases "wr < n")
    case False
    with less.prems show ?thesis by (simp add: edcl_write_loop.simps edcl_write_post_def)
  next
    case True
    let ?k = "edcl_chunk (n - wr)" and ?a = "ucast addr + of_int wr :: u32" and ?m = "mem (net st)"
    have k: "0 < ?k" "int ?k \<le> n - wr" using edcl_chunk_bounds [of "n - wr"] True by auto
    obtain st1 where body: "edcl_write_body ops addr n ibuf wr st = Some (wr + int ?k, st1)"
      and st1: "edcl_bufs st1" "first st1 = first st" "(ucast (seq_cnt st1) :: 14 word) = expect (net st1)"
        "dev (net st1) = dev (net st)"
        "mem (net st1) = mem_store ?m ?a (take ?k (drop (nat wr) ibuf))"
      using edcl_write_body_spec [OF dev less.prems(1,2) True room, of addr] less.prems(4)
      by (auto simp: returns_iff)
    have "returns (edcl_write_loop ops addr n ibuf (wr + int ?k) st1)
        (edcl_write_post mem dev expect addr (wr + int ?k) n ibuf st1)"
      using k less.prems True st1 by (intro less.hyps) auto
    moreover have "mem_store (mem_store ?m ?a (take ?k (drop (nat wr) ibuf))) (ucast addr + of_int (wr + int ?k))
          (take (nat (n - (wr + int ?k))) (drop (nat (wr + int ?k)) ibuf))
        = mem_store ?m ?a (take (nat (n - wr)) (drop (nat wr) ibuf))"
    proof -
      have nat_eq: "nat (wr + int ?k) = nat wr + ?k" "nat (n - wr) = ?k + nat (n - (wr + int ?k))"
        using k less.prems(2) True by auto
      have "length (take ?k (drop (nat wr) ibuf)) = ?k"
        using k room less.prems(2) True by simp
      moreover have "take (nat (n - wr)) (drop (nat wr) ibuf) =
          take ?k (drop (nat wr) ibuf) @ take (nat (n - (wr + int ?k))) (drop (nat (wr + int ?k)) ibuf)"
        by (simp add: nat_eq(1) take_add add.commute nat_eq(2))
      ultimately show ?thesis by (simp add: mem_store_append algebra_simps)
    qed
    ultimately show ?thesis
      using body st1 True less.prems(2)
      by (subst edcl_write_loop.simps) (auto simp: edcl_write_post_def elim!: returns_mono)
  qed
qed

lemma edcl_write_loop_spec:
  fixes addr :: u64
  assumes dev: "edcl_device ops mem dev expect" and bufs: "edcl_bufs st" and n: "0 \<le> n" "n \<le> int (length ibuf)"
  shows "returns (edcl_write_loop ops addr n ibuf 0 st) (edcl_write_post mem dev expect addr 0 n ibuf st)"
proof (cases "n = 0 \<or> (ucast (seq_cnt st) :: 14 word) = expect (net st)")
  case True
  then show ?thesis
    using edcl_write_loop_sync [OF dev bufs, of 0 n ibuf addr] n bufs
    by (auto simp: edcl_write_loop.simps [of _ _ 0] edcl_write_post_def)
next
  case False
  with n obtain st1 where body: "edcl_write_body ops addr n ibuf 0 st = Some (0, st1)"
    and st1: "edcl_bufs st1" "first st1 = first st" "mem (net st1) = mem (net st)" "dev (net st1) = dev (net st)" "(ucast (seq_cnt st1) :: 14 word) = expect (net st1)"
    using edcl_write_body_spec [OF dev bufs, of 0 n ibuf addr] by (auto simp: returns_iff)
  have "returns (edcl_write_loop ops addr n ibuf 0 st1) (edcl_write_post mem dev expect addr 0 n ibuf st1)"
    by (rule edcl_write_loop_sync [OF dev]) (use st1 n in auto)
  with body st1 False n show ?thesis
    by (subst edcl_write_loop.simps) (auto simp: edcl_write_post_def elim!: returns_mono)
qed

section \<open>Correctness of the transport\<close>

definition edcl_start :: "'w netops \<Rightarrow> 'w edcl \<Rightarrow> 'w edcl" where
  "edcl_start ops st = (if first st then st else EdclService_EdclService ops st)"

lemma edcl_start_simps [simp]:
  "edcl_bufs (edcl_start ops st) = edcl_bufs st" "first (edcl_start ops st)"
  by (simp_all add: edcl_start_def edcl_bufs_def EdclService_EdclService_def)

lemma overlay_0_full: "n = length ys \<Longrightarrow> overlay 0 ys xs = ys @ drop n xs"
  by (simp add: overlay_def)

text \<open>
  C21: Against any device that honours the EDCL contract, \<open>EdclService_read\<close> terminates,
  stays inside its buffers, returns the number of bytes asked for, fills exactly that
  prefix of the caller's buffer with the device's memory and leaves the device's memory
  alone, whatever sequence number the host holds when it starts.
\<close>

theorem EdclService_read_correct:
  assumes "edcl_device ops mem dev expect" and "edcl_bufs st" and "0 \<le> n" and "n \<le> int (length obuf)"
  shows "returns (EdclService_read ops addr n obuf st) (\<lambda>(r, ob) st'.
    r = n \<and> ob = mem_load (mem (net (edcl_start ops st))) (ucast addr) (nat n) @ drop (nat n) obuf \<and>
    mem (net st') = mem (net (edcl_start ops st)) \<and> dev (net st') = dev (net (edcl_start ops st)) \<and>
    edcl_bufs st' \<and> first st')"
proof -
  have "returns (edcl_read_loop ops addr n 0 obuf (edcl_start ops st))
      (edcl_read_post mem dev expect addr 0 n obuf (edcl_start ops st))"
    by (rule edcl_read_loop_spec) (use assms in auto)
  then show ?thesis
    unfolding EdclService_read_def edcl_start_def [symmetric]
    by (rule returns_mono) (auto simp: edcl_read_post_def overlay_0_full)
qed

text \<open>
  C23: \<open>EdclService_write\<close> against such a device terminates, returns the number of bytes
  given and stores exactly them at consecutive 32-bit addresses.
\<close>

theorem EdclService_write_correct:
  assumes "edcl_device ops mem dev expect" and "edcl_bufs st" and "0 \<le> n" and "n \<le> int (length ibuf)"
  shows "returns (EdclService_write ops addr n ibuf st) (\<lambda>r st'.
    r = n \<and> mem (net st') = mem_store (mem (net (edcl_start ops st))) (ucast addr) (take (nat n) ibuf) \<and>
    dev (net st') = dev (net (edcl_start ops st)) \<and> edcl_bufs st' \<and> first st')"
proof -
  have "returns (edcl_write_loop ops addr n ibuf 0 (edcl_start ops st))
      (edcl_write_post mem dev expect addr 0 n ibuf (edcl_start ops st))"
    by (rule edcl_write_loop_spec) (use assms in auto)
  then show ?thesis
    unfolding EdclService_write_def edcl_start_def [symmetric]
    by (rule returns_mono) (auto simp: edcl_write_post_def)
qed

text \<open>
  The control word is a faithful encoding of its four bit fields, and every field
  can be read back.
\<close>

theorem edcl_control_roundtrip:
  "word_ctrl (ctrl_word c) = c \<and> ctrl_word (word_ctrl w) = w"
proof -
  have "ctrl_word (word_ctrl w) = w"
    unfolding ctrl_word_def word_ctrl_def edcl_ctrl.simps
  proof (rule bit_word_eqI)
    fix n assume "n < LENGTH(32)"
    then consider "n < 7" | "7 \<le> n" "n < 17" | "n = 17" | "18 \<le> n" "n < 32" by force
    then show "bit (ucast (ucast w :: 7 word) OR push_bit 7 (ucast (ucast (drop_bit 7 w) :: 10 word)) OR
        push_bit 17 (ucast (ucast (drop_bit 17 w) :: 1 word)) OR
        push_bit 18 (ucast (ucast (drop_bit 18 w) :: 14 word)) :: u32) n = bit w n"
      by cases (auto simp: bit_simps)
  qed
  then show ?thesis by (simp add: word_ctrl_ctrl_word)
qed

text \<open>
  The loops test the result of \<open>UdpService_sendData\<close> for -1, but that function
  never returns -1: a failed \<open>sendto\<close> is reported as 1, so a pass whose request was
  not sent goes on to wait for the reply and takes any datagram it gets for one.
\<close>

theorem edcl_send_failure_not_seen:
  assumes "net_sendto ops (take 10 (overlay 0 (edcl_packet c a) (tx_buf st))) (net st) = (e, w1)" and "e < 0"
    and "c = edcl_request (seq_cnt st) 0 (n - rd)" and "a = ucast addr + of_int rd"
    and "net_recvfrom ops w1 = (None, w2)" and "net_soerror ops w2 = (0, w3)" and "edcl_bufs st"
  shows "fst (UdpService_sendData ops msg st0) \<noteq> -1 \<and>
    edcl_read_body ops addr n rd obuf st =
      Some ((-1, obuf), st\<lparr>tx_buf := overlay 0 (edcl_packet c a) (tx_buf st), net := w3\<rparr>)"
proof -
  have a: "ucast (addr + of_int rd) = a"
    using assms(4) by (simp add: ucast_down_add ucast_down_of_int)
  have hdr: "edcl_header c a st = Some (10, st\<lparr>tx_buf := overlay 0 (edcl_packet c a) (tx_buf st)\<rparr>)"
    by (rule edcl_header_eq) (use assms(7) in \<open>simp add: edcl_bufs_def\<close>)
  show ?thesis
    using assms(1,2,5,6)
    by (auto simp: edcl_read_body_def a hdr simp flip: assms(3)
        simp: UdpService_sendData_def UdpService_readData_def split: prod.splits)
qed

section \<open>A concrete device\<close>

text \<open>
  A device that keeps a memory, the expected index and the pending reply. It is used
  to show that the contract can be met.
\<close>

record demo =
  d_mem :: "u32 \<Rightarrow> u8"
  d_seq :: "14 word"
  d_dev :: "u64 \<Rightarrow> u32"
  d_reply :: bytes

definition demo_send :: "bytes \<Rightarrow> demo \<Rightarrow> int \<times> demo" where
  "demo_send p w =
     (let c = word_ctrl (the (EdclService_read32 p 2)); a = the (EdclService_read32 p 6); d = drop 10 p;
          hdr = (\<lambda>r. [0, 0] @ bytes_be32 (ctrl_word r) @ bytes_be32 a)
      in (int (length p),
          if c_seqidx c \<noteq> d_seq w then w\<lparr>d_reply := hdr (c\<lparr>c_flag := 1, c_seqidx := d_seq w\<rparr>)\<rparr>
          else if c_flag c = 0
          then w\<lparr>d_seq := d_seq w + 1, d_reply := hdr c @ mem_load (d_mem w) a (unat (c_len c))\<rparr>
          else w\<lparr>d_seq := d_seq w + 1, d_mem := mem_store (d_mem w) a d, d_reply := hdr (c\<lparr>c_flag := 0\<rparr>)\<rparr>))"

definition demo_ops :: "demo netops" where
  "demo_ops = \<lparr>net_open = (\<lambda>w. w), net_sendto = demo_send,
     net_recvfrom = (\<lambda>w. (Some (d_reply w), w)), net_soerror = (\<lambda>w. (0, w))\<rparr>"

lemma demo_device: "edcl_device demo_ops d_mem d_dev d_seq"
  unfolding edcl_device_def
proof (intro allI impI)
  fix w :: demo and c :: edcl_ctrl and a :: u32 and d :: bytes
  assume d: "length d = (if c_flag c = 0 then 0 else unat (c_len c))"
  have c: "EdclService_read32 (edcl_packet c a @ d) 2 = Some (ctrl_word c)"
    by (rule EdclService_read32_bytes) (simp_all add: edcl_packet_def)
  have a: "EdclService_read32 (edcl_packet c a @ d) 6 = Some a"
    by (rule EdclService_read32_bytes) (simp_all add: edcl_packet_def)
  have len: "unat (c_len c) < 1024" using unsigned_less [of "c_len c"] by simp
  have dr: "drop 10 (edcl_packet c a @ d) = d" by simp
  let ?r = "if c_seqidx c \<noteq> d_seq w then c\<lparr>c_flag := 1, c_seqidx := d_seq w\<rparr> else c\<lparr>c_flag := 0\<rparr>"
  let ?x = "edcl_exchange demo_ops (edcl_packet c a @ d) w"
  have send: "snd (snd ?x) = snd (demo_send (edcl_packet c a @ d) w)" "fst ?x = int (10 + length d)"
    "fst (snd ?x) = Some (d_reply (snd (demo_send (edcl_packet c a @ d) w)))"
    by (simp_all add: edcl_exchange_def demo_ops_def demo_send_def Let_def)
  have self: "c\<lparr>c_flag := 0\<rparr> = c" if "c_flag c = 0" using that by (cases c) simp
  show "\<exists>r reply w'. ?x = (int (10 + length d), Some reply, w') \<and>
       6 \<le> length reply \<and> length reply \<le> 4096 \<and> take 4 (drop 2 reply) = bytes_be32 (ctrl_word r) \<and>
       d_dev w' = d_dev w \<and>
       (if c_seqidx c = d_seq w then edcl_ack d_mem c a d w r reply w' \<and> d_seq w' = d_seq w + 1
        else c_flag r = 1 \<and> c_seqidx r = d_seq w \<and> d_mem w' = d_mem w \<and> d_seq w' = d_seq w)"
    by (rule exI [of _ ?r], rule exI [of _ "the (fst (snd ?x))"], rule exI [of _ "snd (snd ?x)"])
      (use send len in \<open>auto simp: self demo_send_def c a dr word_ctrl_ctrl_word Let_def edcl_ack_def prod_eq_iff\<close>)
qed

definition demo_state :: "14 word \<Rightarrow> u64 \<Rightarrow> demo edcl" where
  "demo_state expected host = \<lparr>tx_buf = replicate 4096 0, rx_buf = replicate 4096 0, rcvbuf = replicate 4096 0,
     seq_cnt = host, first = True, net = \<lparr>d_mem = (\<lambda>a. ucast a), d_seq = expected, d_dev = (\<lambda>p. 0), d_reply = []\<rparr>\<rparr>"

text \<open>Reading 40 bytes (two packets) from address 16, host and device out of step.\<close>

theorem EdclService_read_correct_witness:
  "returns (EdclService_read demo_ops 16 40 (replicate 50 7) (demo_state 5 9)) (\<lambda>(r, ob) st'.
     r = 40 \<and> ob = map (\<lambda>i. 16 + of_nat i) [0..<40] @ replicate 10 7)"
proof -
  have "edcl_bufs (demo_state 5 9)" by (simp add: demo_state_def edcl_bufs_def)
  from EdclService_read_correct [OF demo_device this, of 40 "replicate 50 7" 16]
  have "returns (EdclService_read demo_ops 16 40 (replicate 50 7) (demo_state 5 9)) (\<lambda>(r, ob) st'.
     r = 40 \<and> ob = mem_load (\<lambda>a. ucast a) 16 40 @ replicate 10 7)"
    by (auto simp: demo_state_def edcl_start_def elim!: returns_mono)
  moreover have "mem_load (\<lambda>a. ucast a) 16 40 = (map (\<lambda>i. 16 + of_nat i) [0..<40] :: bytes)"
    by (simp add: mem_load_def ucast_down_add ucast_down_of_nat)
  ultimately show ?thesis by simp
qed

theorem EdclService_write_correct_witness:
  "returns (EdclService_write demo_ops 16 2 [1, 2, 3] (demo_state 5 9)) (\<lambda>r st'.
     r = 2 \<and> d_mem (net st') 16 = 1 \<and> d_mem (net st') 17 = 2 \<and> d_mem (net st') 18 = 18)"
proof -
  have "edcl_bufs (demo_state 5 9)" by (simp add: demo_state_def edcl_bufs_def)
  from EdclService_write_correct [OF demo_device this, of 2 "[1, 2, 3]" 16] show ?thesis
    by (rule returns_mono) (auto simp: demo_state_def edcl_start_def)
qed

definition deaf_ops :: "unit netops" where
  "deaf_ops = \<lparr>net_open = (\<lambda>w. w), net_sendto = (\<lambda>p w. (-1, w)),
     net_recvfrom = (\<lambda>w. (None, w)), net_soerror = (\<lambda>w. (0, w))\<rparr>"

definition deaf_state :: "unit edcl" where
  "deaf_state = \<lparr>tx_buf = replicate 4096 0, rx_buf = replicate 4096 0, rcvbuf = replicate 4096 0,
     seq_cnt = 0, first = True, net = ()\<rparr>"

theorem edcl_send_failure_not_seen_witness:
  "fst (UdpService_sendData deaf_ops [1] deaf_state) \<noteq> -1 \<and>
   edcl_read_body deaf_ops 0 4 0 [9, 9, 9, 9] deaf_state = Some ((-1, [9, 9, 9, 9]),
     deaf_state\<lparr>tx_buf := overlay 0 (edcl_packet (edcl_request 0 0 4) 0) (replicate 4096 0)\<rparr>)"
proof -
  let ?c = "edcl_request 0 0 4"
  have 1: "net_sendto deaf_ops p w = (-1, ())" "net_recvfrom deaf_ops w = (None, ())"
    "net_soerror deaf_ops w = (0, ())" for p w by (simp_all add: deaf_ops_def)
  have 2: "edcl_bufs deaf_state" "seq_cnt deaf_state = 0" "tx_buf deaf_state = replicate 4096 0"
    by (simp_all add: deaf_state_def edcl_bufs_def)
  have 3: "deaf_state\<lparr>tx_buf := b, net := ()\<rparr> = deaf_state\<lparr>tx_buf := b\<rparr>" for b by simp
  from edcl_send_failure_not_seen [of deaf_ops ?c 0 deaf_state "-1" "()" 4 0 0 "()" "()" "[1]" deaf_state "[9, 9, 9, 9]",
      unfolded 1 2 3]
  show ?thesis by (simp add: 2)
qed

end
