(* ===== verification/Wire.thy ===== *)
theory Wire
  imports Edcl
begin

text \<open>
  The datagram protocol between the bare-metal programs (\<open>client.c\<close>) and the server
  (\<open>serve.c\<close>): binary requests \<open>rw_struct_t\<close> of \<open>main.h\<close> for memory reads and writes,
  and the text requests of \<open>simple_write\<close> and \<open>simple_read\<close>. The sockets and the
  functions the server hands requests to are parameters.
\<close>

section \<open>The request structure\<close>

text \<open>
  \<open>rw_struct_t\<close> as laid out by the compiler: \<open>cmd\<close> at 0, \<open>addr\<close> at 8, \<open>bytes\<close> at 16,
  \<open>iobuf\<close> at 20, 8216 bytes in all; padding is zero after the \<open>memset\<close>.
\<close>

record rw_struct =
  rw_cmd :: u8
  rw_addr :: u64
  rw_bytes :: u32
  rw_iobuf :: bytes

definition rw_image :: "rw_struct \<Rightarrow> bytes" where
  "rw_image s = [rw_cmd s] @ replicate 7 0 @ bytes_le64 (rw_addr s) @ bytes_le32 (rw_bytes s) @
     rw_iobuf s @ replicate 4 0"

definition rw_load :: "bytes \<Rightarrow> rw_struct" where
  "rw_load b = \<lparr>rw_cmd = b ! 0, rw_addr = le64 (take 8 (drop 8 b)),
     rw_bytes = le32 (b ! 16) (b ! 17) (b ! 18) (b ! 19), rw_iobuf = take 8192 (drop 20 b)\<rparr>"

section \<open>The client\<close>

text \<open>
  \<open>sk_write\<close> is \<open>write(sfd, ...)\<close>, \<open>sk_read n\<close> is \<open>read(sfd, ..., n)\<close>: \<open>None\<close> for -1, else
  the bytes read.
\<close>

record 'w sock_ops =
  sk_write :: "bytes \<Rightarrow> 'w \<Rightarrow> int \<times> 'w"
  sk_read :: "nat \<Rightarrow> 'w \<Rightarrow> bytes option \<times> 'w"

definition client_write :: "'w sock_ops \<Rightarrow> u64 \<Rightarrow> int \<Rightarrow> bytes \<Rightarrow> 'w \<Rightarrow> (int \<times> 'w) option" where
  "client_write ops addr n ibuf w =
     (if n < 0 then None
      else do {
        d \<leftarrow> get_range 0 (nat n) ibuf;
        iobuf \<leftarrow> put_range 0 d (replicate 8192 0);
        let s = \<lparr>rw_cmd = 119, rw_addr = addr, rw_bytes = of_int n, rw_iobuf = iobuf\<rparr>;
        let (sent, w) = sk_write ops (take (nat n + 20) (rw_image s)) w;
        if sent \<noteq> n + 20 then Some (-1, w)
        else (let (r, w) = sk_read ops 0 w
              in if r = None then Some (-1, w) else Some (0, w)) })"

text \<open>The loop of \<open>client_read\<close>; the third argument of \<open>read\<close> is converted to \<open>size_t\<close>.\<close>

partial_function (option) client_read_loop ::
  "'w sock_ops \<Rightarrow> int \<Rightarrow> int \<Rightarrow> bytes \<Rightarrow> 'w \<Rightarrow> ((int \<times> bytes) \<times> 'w) option" where
  "client_read_loop ops n cnt obuf w =
     (let (r, w) = sk_read ops (unat (of_int (n - cnt) :: u64)) w
      in case r of
           None \<Rightarrow> Some ((-1, obuf), w)
         | Some d \<Rightarrow> do {
             obuf \<leftarrow> put_range (nat cnt) d obuf;
             let cnt = cnt + int (length d);
             if cnt < n then client_read_loop ops n cnt obuf w else Some ((0, obuf), w) })"

definition client_read :: "'w sock_ops \<Rightarrow> u64 \<Rightarrow> int \<Rightarrow> bytes \<Rightarrow> 'w \<Rightarrow> ((int \<times> bytes) \<times> 'w) option" where
  "client_read ops addr n obuf w =
     (let s = \<lparr>rw_cmd = 114, rw_addr = addr, rw_bytes = of_int n, rw_iobuf = replicate 8192 0\<rparr>;
          (sent, w) = sk_write ops (take 20 (rw_image s)) w
      in if sent \<noteq> 20 then Some ((-1, obuf), w) else client_read_loop ops n 0 obuf w)"

section \<open>Hexadecimal text\<close>

text \<open>What \<open>sprintf\<close> and \<open>sscanf\<close> do for the directives \<open>%p\<close>, \<open>%.8X\<close>, \<open>%lX\<close> and \<open>%X\<close>.\<close>

definition hex_digit :: "bool \<Rightarrow> nat \<Rightarrow> u8" where
  "hex_digit upper d = (if d < 10 then of_nat (48 + d) else if upper then of_nat (55 + d) else of_nat (87 + d))"

fun hex_digits :: "bool \<Rightarrow> nat \<Rightarrow> bytes" where
  "hex_digits upper n =
     (if n < 16 then [hex_digit upper n] else hex_digits upper (n div 16) @ [hex_digit upper (n mod 16)])"

declare hex_digits.simps [simp del]

definition print_ptr :: "u64 \<Rightarrow> bytes" where
  "print_ptr p = (if p = 0 then [40, 110, 105, 108, 41] else [48, 120] @ hex_digits False (unat p))"

definition print_08X :: "u32 \<Rightarrow> bytes" where
  "print_08X v = (let ds = hex_digits True (unat v) in replicate (8 - length ds) 48 @ ds)"

definition hex_value :: "u8 \<Rightarrow> nat option" where
  "hex_value c = (if 48 \<le> c \<and> c \<le> 57 then Some (unat (c - 48))
     else if 65 \<le> c \<and> c \<le> 70 then Some (unat (c - 55))
     else if 97 \<le> c \<and> c \<le> 102 then Some (unat (c - 87)) else None)"

fun scan_digits :: "nat \<Rightarrow> bytes \<Rightarrow> nat \<times> bytes" where
  "scan_digits acc [] = (acc, [])"
| "scan_digits acc (c # cs) =
     (case hex_value c of None \<Rightarrow> (acc, c # cs) | Some d \<Rightarrow> scan_digits (16 * acc + d) cs)"

definition is_space :: "u8 \<Rightarrow> bool" where
  "is_space c \<longleftrightarrow> c = 32 \<or> (9 \<le> c \<and> c \<le> 13)"

text \<open>
  One \<open>%lX\<close> conversion: white space, an optional sign, an optional \<open>0x\<close>, at least one
  digit; a value over 64 bits saturates.
\<close>

definition scan_hex :: "bytes \<Rightarrow> (u64 \<times> bytes) option" where
  "scan_hex s0 =
     (let s1 = dropWhile is_space s0;
          neg = (s1 \<noteq> [] \<and> hd s1 = 45);
          s2 = (if s1 \<noteq> [] \<and> (hd s1 = 45 \<or> hd s1 = 43) then tl s1 else s1);
          s3 = (if 2 \<le> length s2 \<and> s2 ! 0 = 48 \<and> (s2 ! 1 = 120 \<or> s2 ! 1 = 88) then drop 2 s2 else s2);
          (v, rest) = scan_digits 0 s3
      in if s3 = [] \<or> hex_value (hd s3) = None then None
         else if v \<ge> 2 ^ 64 then Some (- 1, rest)
         else Some (if neg then - of_nat v else of_nat v, rest))"

definition scan_comma :: "bytes \<Rightarrow> bytes option" where
  "scan_comma s = (if s \<noteq> [] \<and> hd s = 44 then Some (tl s) else None)"

text \<open>\<open>sscanf(s, "%lX,%X,%X", ...)\<close> and \<open>sscanf(s, "%lX", ...)\<close>, when every item is assigned.\<close>

definition scan_write :: "bytes \<Rightarrow> (u64 \<times> u32 \<times> u32) option" where
  "scan_write s = do {
     (p, s) \<leftarrow> scan_hex s;
     s \<leftarrow> scan_comma s;
     (d, s) \<leftarrow> scan_hex s;
     s \<leftarrow> scan_comma s;
     (f, s) \<leftarrow> scan_hex s;
     Some (p, ucast d, ucast f) }"

definition scan_read :: "bytes \<Rightarrow> u64 option" where
  "scan_read s = map_option fst (scan_hex s)"

definition cstring :: "bytes \<Rightarrow> bytes option" where
  "cstring b = (if 0 \<in> set b then Some (takeWhile (\<lambda>c. c \<noteq> 0) b) else None)"

section \<open>The text requests of the client\<close>

definition simple_write :: "'w sock_ops \<Rightarrow> u64 \<Rightarrow> u32 \<Rightarrow> 'w \<Rightarrow> 'w option" where
  "simple_write ops addr data w = do {
     buf \<leftarrow> put_range 0 ([87] @ print_ptr addr @ [44] @ print_08X data @ [44, 49] @ [0]) (replicate 30 0);
     s \<leftarrow> cstring buf;
     Some (snd (sk_write ops (take (length s + 1) buf) w)) }"

partial_function (option) simple_read_loop ::
  "'w sock_ops \<Rightarrow> nat \<Rightarrow> bytes \<Rightarrow> 'w \<Rightarrow> (u32 \<times> 'w) option" where
  "simple_read_loop ops cnt buf w =
     (let (r, w) = sk_read ops (4 - cnt) w
      in case r of
           None \<Rightarrow> Some (- 1, w)
         | Some d \<Rightarrow> do {
             buf \<leftarrow> put_range cnt d buf;
             let cnt = cnt + length d;
             if cnt < 4 then simple_read_loop ops cnt buf w
             else Some (le32 (buf ! 0) (buf ! 1) (buf ! 2) (buf ! 3), w) })"

definition simple_read :: "'w sock_ops \<Rightarrow> u64 \<Rightarrow> 'w \<Rightarrow> (u32 \<times> 'w) option" where
  "simple_read ops addr w = do {
     buf \<leftarrow> put_range 0 ([82] @ print_ptr addr @ [0]) (replicate 30 0);
     s \<leftarrow> cstring buf;
     simple_read_loop ops 0 buf (snd (sk_write ops (take (length s + 1) buf) w)) }"

section \<open>The server\<close>

text \<open>
  The functions the server calls: \<open>queue_flush_cond\<close>, \<open>log_edcl_write\<close>, \<open>log_edcl_read\<close>,
  \<open>queue_write\<close> and \<open>queue_read\<close>, over a state of type \<open>'q\<close>.
\<close>

record 'q serve_ops =
  sv_flush_cond :: "'q \<Rightarrow> 'q option"
  sv_edcl_write :: "u64 \<Rightarrow> int \<Rightarrow> bytes \<Rightarrow> 'q \<Rightarrow> 'q option"
  sv_edcl_read :: "u64 \<Rightarrow> int \<Rightarrow> bytes \<Rightarrow> 'q \<Rightarrow> (bytes \<times> 'q) option"
  sv_queue_write :: "u64 \<Rightarrow> u32 \<Rightarrow> u32 \<Rightarrow> 'q \<Rightarrow> 'q option"
  sv_queue_read :: "u64 \<Rightarrow> 'q \<Rightarrow> (u32 \<times> 'q) option"

text \<open>
  One pass of the server loop on a datagram \<open>dg\<close> (\<open>None\<close>: \<open>recvfrom\<close> failed); \<open>named\<close> is
  whether \<open>getnameinfo\<close> succeeded. The value is the datagram sent back, if any.
\<close>

definition serve_step :: "'q serve_ops \<Rightarrow> bool \<Rightarrow> bytes option \<Rightarrow> 'q \<Rightarrow> (bytes option \<times> 'q) option" where
  "serve_step sv named dg q =
     (case dg of
        None \<Rightarrow> Some (None, q)
      | Some d \<Rightarrow>
          let img = overlay 0 (take 8216 d) (replicate 8216 0); s = rw_load img
          in if \<not> named then Some (None, q)
             else if rw_cmd s = 119 then do {
               q \<leftarrow> sv_flush_cond sv q;
               q \<leftarrow> sv_edcl_write sv (rw_addr s) (sint (rw_bytes s)) (rw_iobuf s) q;
               Some (Some [], q) }
             else if rw_cmd s = 114 then do {
               q \<leftarrow> sv_flush_cond sv q;
               (iobuf, q) \<leftarrow> sv_edcl_read sv (rw_addr s) (sint (rw_bytes s)) (rw_iobuf s) q;
               out \<leftarrow> get_range 0 (unat (scast (rw_bytes s) :: u64)) iobuf;
               Some (Some out, q) }
             else if rw_cmd s = 87 then do {
               str \<leftarrow> cstring (drop 1 img);
               case scan_write str of
                 Some (p, data, flush) \<Rightarrow> do {
                   q \<leftarrow> sv_queue_write sv p data flush q;
                   Some (Some [], q) }
               | None \<Rightarrow> Some (None, q) }
             else if rw_cmd s = 82 then do {
               str \<leftarrow> cstring (drop 1 img);
               case scan_read str of
                 Some p \<Rightarrow> do {
                   (data, q) \<leftarrow> sv_queue_read sv p q;
                   Some (Some (bytes_le32 data), q) }
               | None \<Rightarrow> Some (None, q) }
             else Some (None, q))"

text \<open>The server loop over the datagrams that arrive, with the replies it sends.\<close>

primrec serve_run :: "'q serve_ops \<Rightarrow> (bool \<times> bytes option) list \<Rightarrow> 'q \<Rightarrow> (bytes list \<times> 'q) option" where
  "serve_run sv [] q = Some ([], q)"
| "serve_run sv (x # xs) q = do {
     (r, q) \<leftarrow> serve_step sv (fst x) (snd x) q;
     (rs, q) \<leftarrow> serve_run sv xs q;
     Some ((case r of None \<Rightarrow> rs | Some d \<Rightarrow> d # rs), q) }"

section \<open>The layout of a request\<close>

lemma length_rw_image: "length (rw_iobuf s) = 8192 \<Longrightarrow> length (rw_image s) = 8216"
  by (simp add: rw_image_def)

lemma rw_load_image [codec_simps]:
  assumes "length (rw_iobuf s) = 8192"
  shows "rw_load (rw_image s) = s"
proof -
  let ?n = "bytes_le32 (rw_bytes s)" and ?io = "rw_iobuf s @ replicate 4 0"
  have img: "rw_image s = ([rw_cmd s] @ replicate 7 0) @ bytes_le64 (rw_addr s) @ ?n @ ?io"
    by (simp add: rw_image_def)
  have "rw_image s ! 0 = rw_cmd s" by (simp add: rw_image_def)
  moreover have "take 8 (drop 8 (rw_image s)) = bytes_le64 (rw_addr s)"
    unfolding img by simp
  moreover have "drop 16 (rw_image s) = ?n @ ?io" unfolding img by simp
  then have "rw_image s ! (16 + i) = ?n ! i" if "i < 4" for i
    using that nth_drop [of 16 "rw_image s" i] length_rw_image [OF assms] by (simp add: nth_append)
  from this [of 0] this [of 1] this [of 2] this [of 3]
  have "le32 (rw_image s ! 16) (rw_image s ! 17) (rw_image s ! 18) (rw_image s ! 19) = rw_bytes s"
    by (simp add: bytes_le32_def le32_bytes)
  moreover have "drop 20 (rw_image s) = ?io" unfolding img by simp
  then have "take 8192 (drop 20 (rw_image s)) = rw_iobuf s" using assms by simp
  ultimately show ?thesis by (simp add: rw_load_def le64_bytes)
qed

text \<open>Sending a prefix that covers all but zero bytes loses nothing.\<close>

lemma rw_image_prefix:
  assumes len: "length (rw_iobuf s) = 8192" and k: "k \<le> 8192"
    and zeros: "drop k (rw_iobuf s) = replicate (8192 - k) 0"
  shows "overlay 0 (take 8216 (take (k + 20) (rw_image s))) (replicate 8216 0) = rw_image s"
proof -
  have "drop 20 (rw_image s) = rw_iobuf s @ replicate 4 0"
    by (simp add: rw_image_def)
  then have "drop (k + 20) (rw_image s) = drop k (rw_iobuf s @ replicate 4 0)"
    by (metis drop_drop)
  also have "\<dots> = replicate (8192 - k) 0 @ replicate 4 0" using assms by simp
  finally have "drop (k + 20) (rw_image s) = replicate (8192 - k + 4) 0"
    by (simp only: replicate_add)
  then have "rw_image s = take (k + 20) (rw_image s) @ replicate (8192 - k + 4) 0"
    by (metis append_take_drop_id)
  then show ?thesis
    using k length_rw_image [OF len] by (simp add: overlay_def min_def)
qed

section \<open>Hexadecimal text round trips\<close>

lemma hex_value_digit: "d < 16 \<Longrightarrow> hex_value (hex_digit u d) = Some d"
proof -
  assume "d < 16"
  then have "d \<in> set [0..<16]" by simp
  moreover have "\<forall>d \<in> set [0..<16]. hex_value (hex_digit u d) = Some d" for u
    by (cases u) (simp_all add: upt_rec hex_value_def hex_digit_def)
  ultimately show ?thesis by blast
qed

lemma scan_digits_append:
  assumes "\<forall>c \<in> set ds. hex_value c \<noteq> None"
  shows "scan_digits acc (ds @ rest) =
    scan_digits (foldl (\<lambda>a c. 16 * a + the (hex_value c)) acc ds) rest"
  using assms by (induction ds arbitrary: acc) (auto split: option.splits)

lemma hex_digits_values: "\<forall>c \<in> set (hex_digits u n). hex_value c \<noteq> None"
  by (induction u n rule: hex_digits.induct) (subst hex_digits.simps, auto simp: hex_value_digit)

lemma hex_digits_fold: "foldl (\<lambda>a c. 16 * a + the (hex_value c)) 0 (hex_digits u n) = n"
  by (induction u n rule: hex_digits.induct) (subst hex_digits.simps, auto simp: hex_value_digit)

lemma hex_digits_nonempty: "hex_digits u n \<noteq> []"
  by (subst hex_digits.simps) simp

lemma scan_digits_hex [codec_simps]:
  assumes "rest = [] \<or> hex_value (hd rest) = None"
  shows "scan_digits 0 (replicate k 48 @ hex_digits u n @ rest) = (n, rest)"
proof -
  have "scan_digits 0 (replicate k 48 @ xs) = scan_digits 0 xs" for xs
    by (induction k) (simp_all add: hex_value_def)
  then have "scan_digits 0 (replicate k 48 @ hex_digits u n @ rest) = scan_digits n rest"
    by (simp add: scan_digits_append hex_digits_values hex_digits_fold)
  also have "\<dots> = (n, rest)" using assms by (cases rest) auto
  finally show ?thesis .
qed

lemma hex_value_SomeD: "hex_value c = Some d \<Longrightarrow> c \<noteq> 0 \<and> \<not> is_space c \<and> c \<noteq> 45 \<and> c \<noteq> 43 \<and> c \<noteq> 120 \<and> c \<noteq> 88"
  by (auto simp: hex_value_def is_space_def word_le_nat_alt split: if_splits)

lemma hex_digits_chars: "\<forall>c \<in> set (hex_digits u n). c \<noteq> 0"
  using hex_digits_values hex_value_SomeD by blast

lemma hd_hex: "\<exists>d. hex_value (hd (replicate k 48 @ hex_digits u n @ rest)) = Some d"
proof (cases k)
  case 0
  have "hd (hex_digits u n) \<in> set (hex_digits u n)" using hex_digits_nonempty by simp
  with 0 show ?thesis using hex_digits_values [of u n] hex_digits_nonempty [of u n] by auto
qed (simp add: hex_value_def)

lemma hex_value_consts [simp]: "hex_value 48 = Some 0" "hex_value 49 = Some 1" "hex_value 44 = None"
  by (simp_all add: hex_value_def)

lemma scan_hex_ptr [codec_simps]:
  assumes "p \<noteq> 0" and "rest = [] \<or> hex_value (hd rest) = None"
  shows "scan_hex (print_ptr p @ rest) = Some (p, rest)"
proof -
  have "unat p < 2 ^ 64" using unsigned_less [of p] by simp
  moreover have "scan_digits 0 (hex_digits False (unat p) @ rest) = (unat p, rest)"
    using scan_digits_hex [of rest 0] assms(2) by simp
  moreover obtain d where "hex_value (hd (hex_digits False (unat p) @ rest)) = Some d"
    using hd_hex [of 0 False "unat p" rest] by auto
  moreover have "hex_digits False (unat p) @ rest \<noteq> []" using hex_digits_nonempty by simp
  ultimately show ?thesis
    using assms(1) by (simp add: scan_hex_def print_ptr_def Let_def is_space_def)
qed

lemma scan_hex_08X [codec_simps]:
  assumes "rest = [] \<or> hex_value (hd rest) = None"
  shows "scan_hex (print_08X v @ rest) = Some (ucast v, rest)"
proof -
  let ?ds = "hex_digits True (unat v)"
  let ?k = "8 - length ?ds" and ?s = "print_08X v @ rest"
  have s: "?s = replicate ?k 48 @ ?ds @ rest" by (simp add: print_08X_def Let_def)
  have "unat v < 2 ^ LENGTH(32)" by (rule unsigned_less)
  then have v: "unat v < 2 ^ 64" by simp
  have sd: "scan_digits 0 ?s = (unat v, rest)" unfolding s by (rule scan_digits_hex [OF assms])
  obtain d where d: "hex_value (hd ?s) = Some d" using hd_hex [of ?k True "unat v" rest] unfolding s by (elim exE)
  have "?s ! 1 = print_08X v ! 1" and "print_08X v ! 1 \<in> set (print_08X v)"
    by (auto simp: print_08X_def Let_def nth_append intro!: nth_mem)
  moreover have "\<forall>c \<in> set (print_08X v). hex_value c \<noteq> None"
    using hex_digits_values by (auto simp: print_08X_def Let_def)
  ultimately have "?s ! 1 \<noteq> 120" "?s ! 1 \<noteq> 88" using hex_value_SomeD by fastforce+
  moreover have "?s \<noteq> []" unfolding s using hex_digits_nonempty by simp
  moreover have "\<not> is_space (hd ?s)" "hd ?s \<noteq> 45" "hd ?s \<noteq> 43" using hex_value_SomeD [OF d] by auto
  moreover have "dropWhile is_space ?s = ?s"
    using calculation(3,4) by (metis dropWhile.simps(2) list.exhaust_sel)
  ultimately show ?thesis
    using v sd d by (simp add: scan_hex_def Let_def unsigned_ucast_eq)
qed

text \<open>The text a client writes is read back by the server.\<close>

lemma scan_write_text [codec_simps]:
  assumes "p \<noteq> 0"
  shows "scan_write (print_ptr p @ [44] @ print_08X data @ [44, 49]) = Some (p, data, 1)"
proof -
  have "scan_hex [49] = Some (1, [])" by (simp add: scan_hex_def is_space_def)
  then show ?thesis
    by (simp add: scan_write_def scan_hex_ptr assms scan_comma_def scan_hex_08X)
qed

lemma print_ptr_chars: "\<forall>c \<in> set (print_ptr p). c \<noteq> 0"
  using hex_digits_chars by (auto simp: print_ptr_def)

lemma print_08X_chars: "\<forall>c \<in> set (print_08X v). c \<noteq> 0"
  using hex_digits_chars by (auto simp: print_08X_def Let_def)

lemma length_hex_digits: "n < 16 ^ k \<Longrightarrow> 0 < k \<Longrightarrow> length (hex_digits u n) \<le> k"
proof (induction k arbitrary: n)
  case (Suc k)
  then show ?case
  proof (cases "n < 16")
    case True then show ?thesis by (simp add: hex_digits.simps)
  next
    case False
    with Suc.prems have "n div 16 < 16 ^ k" "0 < k" by (auto intro: gr0I)
    with Suc.IH [of "n div 16"] False show ?thesis by (subst hex_digits.simps) simp
  qed
qed simp

lemma length_hex_digits_ge: "16 ^ k \<le> n \<Longrightarrow> k < length (hex_digits u n)"
proof (induction k arbitrary: n)
  case 0 then show ?case using hex_digits_nonempty by simp
next
  case (Suc k)
  then have k: "16 * 16 ^ k \<le> n" by simp
  have "(1::nat) \<le> 16 ^ k" by simp
  with k have "16 ^ k \<le> n div 16" "16 \<le> n" by linarith+
  with Suc.IH [of "n div 16"] show ?case by (subst hex_digits.simps) simp
qed

section \<open>Client and server together\<close>

text \<open>
  The two ends over a loss-free datagram socket: a request is served when it is sent,
  and its reply waits in the client's receive queue. Reading takes one datagram and
  drops what does not fit.
\<close>

record 'q wire =
  w_srv :: 'q
  w_inbox :: "bytes list"

definition loop_write :: "'q serve_ops \<Rightarrow> bytes \<Rightarrow> 'q wire \<Rightarrow> int \<times> 'q wire" where
  "loop_write sv p w = (int (length p),
     case serve_step sv True (Some p) (w_srv w) of
       None \<Rightarrow> w
     | Some (r, q) \<Rightarrow> w\<lparr>w_srv := q, w_inbox := w_inbox w @ (case r of None \<Rightarrow> [] | Some d \<Rightarrow> [d])\<rparr>)"

definition loop_read :: "nat \<Rightarrow> 'q wire \<Rightarrow> bytes option \<times> 'q wire" where
  "loop_read n w = (case w_inbox w of
     [] \<Rightarrow> (None, w) | d # ds \<Rightarrow> (Some (take n d), w\<lparr>w_inbox := ds\<rparr>))"

definition wire_ops :: "'q serve_ops \<Rightarrow> 'q wire sock_ops" where
  "wire_ops sv = \<lparr>sk_write = loop_write sv, sk_read = loop_read\<rparr>"

lemma wire_ops_simps [simp]: "sk_write (wire_ops sv) = loop_write sv" "sk_read (wire_ops sv) = loop_read"
  by (simp_all add: wire_ops_def)

lemma serve_image:
  assumes "length (rw_iobuf s) = 8192" "k \<le> 8192" "drop k (rw_iobuf s) = replicate (8192 - k) 0"
  defines "d \<equiv> take (k + 20) (rw_image s)"
  shows "rw_load (overlay 0 (take 8216 d) (replicate 8216 0)) = s" "length d = k + 20"
  unfolding d_def rw_image_prefix [OF assms(1-3)] rw_load_image [OF assms(1)]
  using length_rw_image [OF assms(1)] assms(2) by (simp_all only: length_take)

lemma sint_small: "0 \<le> n \<Longrightarrow> n \<le> 8192 \<Longrightarrow> sint (of_int n :: u32) = n"
  by (simp add: signed_of_int signed_take_bit_int_eq_self)

lemma scast_small: "0 \<le> n \<Longrightarrow> n \<le> 8192 \<Longrightarrow> unat (scast (of_int n :: u32) :: u64) = nat n"
  by (simp add: signed_of_int signed_take_bit_int_eq_self unat_eq_nat_uint uint_word_of_int take_bit_int_eq_self)

text \<open>Zero-length acknowledgements that are still queued do not confuse the read loops.\<close>

lemma client_read_loop_acks:
  assumes "0 \<le> n" "n \<le> 8192" "n \<le> int (length obuf)" "length d = nat n"
    and "w_inbox w = replicate k [] @ [d]"
  shows "client_read_loop (wire_ops sv) n 0 obuf w =
    (if n = 0 then Some ((0, obuf), w\<lparr>w_inbox := tl (w_inbox w)\<rparr>)
     else Some ((0, d @ drop (nat n) obuf), w\<lparr>w_inbox := []\<rparr>))"
  using assms(5)
proof (induction k arbitrary: w)
  case 0
  have sz: "unat (of_int n :: u64) = nat n"
    using assms(1,2) by (simp add: unat_eq_nat_uint uint_word_of_int take_bit_int_eq_self)
  from 0 assms(1-4) show ?case
    by (subst client_read_loop.simps) (auto simp add: loop_read_def Let_def mem_simps overlay_0_full sz)
next
  case (Suc k)
  then have "client_read_loop (wire_ops sv) n 0 obuf (w\<lparr>w_inbox := replicate k [] @ [d]\<rparr>) =
    (if n = 0 then Some ((0, obuf), w\<lparr>w_inbox := tl (replicate k [] @ [d])\<rparr>)
     else Some ((0, d @ drop (nat n) obuf), w\<lparr>w_inbox := []\<rparr>))" by simp
  with Suc.prems assms(1) show ?case
    by (subst client_read_loop.simps) (simp add: loop_read_def Let_def mem_simps)
qed

lemma simple_read_loop_acks:
  assumes "w_inbox w = replicate k [] @ [bytes_le32 v]" and "length buf = 30"
  shows "simple_read_loop (wire_ops sv) 0 buf w = Some (v, w\<lparr>w_inbox := []\<rparr>)"
  using assms(1)
proof (induction k arbitrary: w)
  case 0
  have "overlay 0 (bytes_le32 v) buf ! i = bytes_le32 v ! i" if "i < 4" for i
    using that assms(2) by (simp add: nth_overlay)
  from this [of 0] this [of 1] this [of 2] this [of 3]
  have "le32 (overlay 0 (bytes_le32 v) buf ! 0) (overlay 0 (bytes_le32 v) buf ! 1)
      (overlay 0 (bytes_le32 v) buf ! 2) (overlay 0 (bytes_le32 v) buf ! 3) = v"
    by (simp add: bytes_le32_def le32_bytes)
  with 0 assms(2) show ?case
    by (subst simple_read_loop.simps) (simp add: loop_read_def Let_def mem_simps)
next
  case (Suc k)
  then have "simple_read_loop (wire_ops sv) 0 buf (w\<lparr>w_inbox := replicate k [] @ [bytes_le32 v]\<rparr>) =
    Some (v, w\<lparr>w_inbox := []\<rparr>)" by simp
  with Suc.prems show ?case
    by (subst simple_read_loop.simps) (simp add: loop_read_def Let_def mem_simps)
qed

text \<open>
  A binary write request of up to 8192 bytes reaches the server's memory write with
  the same address, length and data (zero-padded to the buffer), after the queue was
  flushed, and the client returns 0.
\<close>

theorem client_write_served:
  assumes "w_inbox w = replicate k []" and n: "0 \<le> n" "n \<le> 8192" "n \<le> int (length ibuf)"
    and flush: "sv_flush_cond sv (w_srv w) = Some q1"
    and wr: "sv_edcl_write sv addr n (take (nat n) ibuf @ replicate (8192 - nat n) 0) q1 = Some q2"
  shows "client_write (wire_ops sv) addr n ibuf w = Some (0, w\<lparr>w_srv := q2\<rparr>)"
proof -
  let ?io = "take (nat n) ibuf @ replicate (8192 - nat n) 0"
  define s where "s = \<lparr>rw_cmd = 119, rw_addr = addr, rw_bytes = of_int n, rw_iobuf = ?io\<rparr>"
  have io: "length ?io = 8192" "drop (nat n) ?io = replicate (8192 - nat n) 0" "nat n \<le> 8192"
    using n by auto
  have put: "put_range 0 (take (nat n) ibuf) (replicate 8192 0) = Some ?io"
    using n by (auto simp: put_range_def overlay_def)
  have img: "rw_load (overlay 0 (take 8216 (take (nat n + 20) (rw_image s))) (replicate 8216 0)) = s"
    "length (take (nat n + 20) (rw_image s)) = nat n + 20"
    using serve_image [of s "nat n"] io by (simp_all add: s_def)
  have step: "serve_step sv True (Some (take (nat n + 20) (rw_image s))) (w_srv w) = Some (Some [], q2)"
    unfolding serve_step_def option.case Let_def img(1) using n flush wr by (simp add: s_def sint_small)
  have sent: "loop_write sv (take (nat n + 20) (rw_image s)) w =
      (n + 20, w\<lparr>w_srv := q2, w_inbox := replicate k [] @ [[]]\<rparr>)"
    unfolding loop_write_def step img(2) using n assms(1) by simp
  have rest: "loop_read 0 (w\<lparr>w_srv := q2, w_inbox := replicate k [] @ [[]]\<rparr>) =
      (Some [], w\<lparr>w_srv := q2, w_inbox := replicate k []\<rparr>)"
    by (cases k) (simp_all add: loop_read_def replicate_append_same)
  have "w\<lparr>w_srv := q2, w_inbox := replicate k []\<rparr> = w\<lparr>w_srv := q2\<rparr>"
    using assms(1) by (cases w) simp
  with n put sent rest show ?thesis
    by (simp add: client_write_def mem_simps Let_def flip: s_def)
qed

text \<open>
  A binary read request returns exactly the bytes the server read, and consumes
  whatever acknowledgements were still queued.
\<close>

theorem client_read_served:
  assumes "w_inbox w = replicate k []" and n: "0 < n" "n \<le> 8192" "n \<le> int (length obuf)"
    and flush: "sv_flush_cond sv (w_srv w) = Some q1"
    and rd: "sv_edcl_read sv addr n (replicate 8192 0) q1 = Some (iobuf, q2)" and io: "length iobuf = 8192"
  shows "client_read (wire_ops sv) addr n obuf w =
    Some ((0, take (nat n) iobuf @ drop (nat n) obuf), \<lparr>w_srv = q2, w_inbox = []\<rparr>)"
proof -
  define s where "s = \<lparr>rw_cmd = 114, rw_addr = addr, rw_bytes = of_int n, rw_iobuf = replicate 8192 0\<rparr>"
  have img: "rw_load (overlay 0 (take 8216 (take 20 (rw_image s))) (replicate 8216 0)) = s"
    "length (take 20 (rw_image s)) = 20"
    using serve_image [of s 0] by (simp_all add: s_def)
  have step: "serve_step sv True (Some (take 20 (rw_image s))) (w_srv w) = Some (Some (take (nat n) iobuf), q2)"
    unfolding serve_step_def option.case Let_def img(1) using n flush rd io
    by (simp add: s_def sint_small scast_small mem_simps)
  have sent: "loop_write sv (take 20 (rw_image s)) w =
      (20, w\<lparr>w_srv := q2, w_inbox := replicate k [] @ [take (nat n) iobuf]\<rparr>)"
    unfolding loop_write_def step img(2) using assms(1) by simp
  have "client_read_loop (wire_ops sv) n 0 obuf (w\<lparr>w_srv := q2, w_inbox := replicate k [] @ [take (nat n) iobuf]\<rparr>) =
    Some ((0, take (nat n) iobuf @ drop (nat n) obuf), w\<lparr>w_srv := q2, w_inbox := []\<rparr>)"
    using client_read_loop_acks [of n obuf "take (nat n) iobuf" _ k sv] n io by auto
  with sent show ?thesis
    by (simp add: client_read_def Let_def flip: s_def)
qed

lemma cstring_text:
  assumes "\<forall>c \<in> set s. c \<noteq> 0"
  shows "cstring (s @ 0 # rest) = Some s"
  using assms by (simp add: cstring_def takeWhile_tail)

lemma serve_text:
  fixes c :: u8
  assumes "\<forall>c \<in> set s. c \<noteq> 0" and "length s \<le> 28"
  defines "img \<equiv> overlay 0 (take 8216 (c # s @ [0])) (replicate 8216 0)"
  shows "rw_cmd (rw_load img) = c" "cstring (drop 1 img) = Some s"
proof -
  have "img = c # s @ 0 # replicate (8214 - length s) 0"
    using assms(2) by (simp add: img_def overlay_def)
  with cstring_text [OF assms(1)] show "rw_cmd (rw_load img) = c" "cstring (drop 1 img) = Some s"
    by (simp_all add: rw_load_def)
qed

text \<open>
  The text protocol: an address below 2^60 (not the null pointer) and a value
  written by \<open>simple_write\<close> reach the server's \<open>queue_write\<close> unchanged, with flush 1.
\<close>

theorem simple_write_served:
  assumes "p \<noteq> 0" and "unat p < 2 ^ 60" and wr: "sv_queue_write sv p data 1 (w_srv w) = Some q"
  shows "simple_write (wire_ops sv) p data w = Some (w\<lparr>w_srv := q, w_inbox := w_inbox w @ [[]]\<rparr>)"
proof -
  define s where "s = print_ptr p @ [44] @ print_08X data @ [44, 49]"
  have "length (hex_digits False (unat p)) \<le> 15" by (rule length_hex_digits) (use assms(2) in auto)
  moreover have "unat data < 2 ^ LENGTH(32)" by (rule unsigned_less)
  then have "length (hex_digits True (unat data)) \<le> 8" by (intro length_hex_digits) auto
  ultimately have len: "length s \<le> 28" by (simp add: s_def print_ptr_def print_08X_def Let_def assms(1))
  have chars: "\<forall>c \<in> set s. c \<noteq> 0"
    using print_ptr_chars print_08X_chars by (auto simp: s_def)
  have step: "serve_step sv True (Some (87 # s @ [0])) (w_srv w) = Some (Some [], q)"
    unfolding serve_step_def option.case Let_def serve_text [OF chars len]
    using scan_write_text [OF assms(1), of data] wr by (simp add: s_def)
  have buf: "put_range 0 (87 # s @ [0]) (replicate 30 0) = Some (87 # s @ 0 # replicate (28 - length s) 0)"
    using len by (simp add: mem_simps overlay_def)
  have cs: "cstring (87 # s @ 0 # rest) = Some (87 # s)" for rest
    using cstring_text [of "87 # s" rest] chars by simp
  have req: "[87] @ print_ptr p @ [44] @ print_08X data @ [44, 49] @ [0] = 87 # s @ [0]"
    by (simp add: s_def)
  show ?thesis
    unfolding simple_write_def req buf using step by (simp add: cs loop_write_def)
qed

text \<open>
  \<open>simple_read\<close> hands the server's \<open>queue_read\<close> the same address and returns its
  value, whatever acknowledgements of earlier writes are still queued.
\<close>

theorem simple_read_served:
  assumes "p \<noteq> 0" and rd: "sv_queue_read sv p (w_srv w) = Some (v, q)" and "w_inbox w = replicate k []"
  shows "simple_read (wire_ops sv) p w = Some (v, \<lparr>w_srv = q, w_inbox = []\<rparr>)"
proof -
  define s where "s = print_ptr p"
  have "unat p < 2 ^ LENGTH(64)" by (rule unsigned_less)
  then have "length (hex_digits False (unat p)) \<le> 16" by (intro length_hex_digits) auto
  then have len: "length s \<le> 28" by (simp add: s_def print_ptr_def assms(1))
  have chars: "\<forall>c \<in> set s. c \<noteq> 0" using print_ptr_chars by (simp add: s_def)
  have step: "serve_step sv True (Some (82 # s @ [0])) (w_srv w) = Some (Some (bytes_le32 v), q)"
    unfolding serve_step_def option.case Let_def serve_text [OF chars len]
    using scan_hex_ptr [OF assms(1), of "[]"] rd by (simp add: s_def scan_read_def)
  define buf where "buf = 82 # s @ 0 # replicate (28 - length s) 0"
  have put: "put_range 0 (82 # s @ [0]) (replicate 30 0) = Some buf"
    using len by (simp add: mem_simps overlay_def buf_def)
  have cs: "cstring buf = Some (82 # s)"
    using cstring_text [of "82 # s"] chars by (simp add: buf_def)
  have tk: "take (length (82 # s) + 1) buf = 82 # s @ [0]" "length buf = 30"
    using len by (simp_all add: buf_def)
  let ?w = "w\<lparr>w_srv := q, w_inbox := replicate k [] @ [bytes_le32 v]\<rparr>"
  have sent: "snd (loop_write sv (82 # s @ [0]) w) = ?w"
    using step assms(3) by (simp add: loop_write_def)
  have "simple_read_loop (wire_ops sv) 0 buf ?w = Some (v, ?w\<lparr>w_inbox := []\<rparr>)"
    by (rule simple_read_loop_acks) (simp_all add: tk)
  moreover have req: "[82] @ print_ptr p @ [0] = 82 # s @ [0]" by (simp add: s_def)
  ultimately show ?thesis
    unfolding simple_read_def req put by (simp add: cs tk [simplified] sent)
qed

section \<open>Limits of the protocol\<close>

text \<open>
  The 30-byte buffer of \<open>simple_write\<close> is too small exactly for the addresses that
  print as 16 hexadecimal digits: those overrun it by one byte, every other request
  fits.
\<close>

theorem simple_write_overrun:
  "simple_write ops p data w = None \<longleftrightarrow> 2 ^ 60 \<le> unat p"
proof -
  let ?hp = "hex_digits False (unat p)"
  have "unat data < 2 ^ LENGTH(32)" by (rule unsigned_less)
  then have "length (hex_digits True (unat data)) \<le> 8" by (intro length_hex_digits) auto
  then have X: "length (print_08X data) = 8" by (simp add: print_08X_def Let_def)
  have short: "length ?hp \<le> 15" if "unat p < 2 ^ 60" by (rule length_hex_digits) (use that in auto)
  have long: "15 < length ?hp" if "2 ^ 60 \<le> unat p" by (rule length_hex_digits_ge) (use that in auto)
  let ?s = "[87] @ print_ptr p @ [44] @ print_08X data @ [44, 49] @ [0]"
  have "length ?s \<le> 30 \<longleftrightarrow> unat p < 2 ^ 60"
    using X short long by (cases "2 ^ 60 \<le> unat p"; cases "p = 0") (simp_all add: print_ptr_def)
  moreover have "0 \<in> set (overlay 0 ?s (replicate 30 0))" by (simp add: overlay_def)
  ultimately show ?thesis
    by (auto simp: simple_write_def put_range_def cstring_def not_less)
qed

text \<open>
  The server does not compare the length in a read request with the size of its
  buffer: with a \<open>log_edcl_read\<close> that fills a buffer of 8192 bytes without changing its
  length, a request for more makes the reply run past that buffer.
\<close>

theorem serve_read_overrun:
  assumes "length d \<le> 8216" and "s = rw_load (overlay 0 d (replicate 8216 0))"
    and "rw_cmd s = 114" and "8192 < sint (rw_bytes s)"
    and "\<And>a n b q b' q'. sv_edcl_read sv a n b q = Some (b', q') \<Longrightarrow> length b' = length b"
  shows "serve_step sv True (Some d) q = None"
proof -
  have "length (rw_iobuf s) \<le> 8192" by (simp add: assms(2) rw_load_def)
  moreover have "unat (scast (rw_bytes s) :: u64) = nat (sint (rw_bytes s))"
    unfolding scast_eq by (rule unat_of_int_small) (use assms(4) sint_less [of "rw_bytes s"] in simp_all)
  ultimately have "get_range 0 (unat (scast (rw_bytes s) :: u64)) b' = None"
    if "length b' = length (rw_iobuf s)" for b' :: bytes
    using that assms(4) by (simp add: get_range_def)
  then show ?thesis
    using assms(1,3) assms(5)
    by (auto simp: serve_step_def Let_def simp flip: assms(2) split: bind_splits)
qed

section \<open>A server that keeps a log\<close>

text \<open>Requests of a concrete session, for a server whose functions record their arguments.\<close>

datatype log_entry = LFlush | LWrite u64 int bytes | LRead u64 int | LQWrite u64 u32 u32 | LQRead u64

definition log_ops :: "log_entry list serve_ops" where
  "log_ops = \<lparr>sv_flush_cond = (\<lambda>q. Some (q @ [LFlush])),
     sv_edcl_write = (\<lambda>a n d q. Some (q @ [LWrite a n (take (nat n) d)])),
     sv_edcl_read = (\<lambda>a n b q. map_option (\<lambda>b. (b, q @ [LRead a n])) (put_range 0 [1, 2, 3] b)),
     sv_queue_write = (\<lambda>a d f q. Some (q @ [LQWrite a d f])),
     sv_queue_read = (\<lambda>a q. Some (ucast a + 1, q @ [LQRead a]))\<rparr>"

theorem client_write_served_witness:
  "client_write (wire_ops log_ops) 64 2 [7, 8, 9] \<lparr>w_srv = [], w_inbox = []\<rparr> =
     Some (0, \<lparr>w_srv = [LFlush, LWrite 64 2 [7, 8]], w_inbox = []\<rparr>)"
  using client_write_served [of "\<lparr>w_srv = [], w_inbox = []\<rparr>" 0 2 "[7, 8, 9]" log_ops "[LFlush]" 64
      "[LFlush, LWrite 64 2 [7, 8]]"]
  by (simp add: log_ops_def)

theorem client_read_served_witness:
  "client_read (wire_ops log_ops) 64 2 [9, 9, 9] \<lparr>w_srv = [], w_inbox = [[]]\<rparr> =
     Some ((0, [1, 2, 9]), \<lparr>w_srv = [LFlush, LRead 64 2], w_inbox = []\<rparr>)"
proof -
  have "length (overlay 0 [1, 2, 3] (replicate 8192 0) :: bytes) = 8192" by simp
  moreover have "take 2 (overlay 0 [1, 2, 3] (replicate 8192 0) :: bytes) = [1, 2]" by (simp add: overlay_def)
  ultimately show ?thesis
    using client_read_served [of "\<lparr>w_srv = [], w_inbox = [[]]\<rparr>" 1 2 "[9, 9, 9]" log_ops "[LFlush]" 64
        "overlay 0 [1, 2, 3] (replicate 8192 0)" "[LFlush, LRead 64 2]"]
    by (simp add: log_ops_def mem_simps)
qed

theorem simple_write_served_witness:
  "simple_write (wire_ops log_ops) 0x700000 0x55 \<lparr>w_srv = [], w_inbox = []\<rparr> =
     Some \<lparr>w_srv = [LQWrite 0x700000 0x55 1], w_inbox = [[]]\<rparr>"
  using simple_write_served [of "0x700000" log_ops "0x55" "\<lparr>w_srv = [], w_inbox = []\<rparr>" "[LQWrite 0x700000 0x55 1]"]
  by (simp add: log_ops_def)

theorem simple_read_served_witness:
  "simple_read (wire_ops log_ops) 0x600014 \<lparr>w_srv = [], w_inbox = [[], []]\<rparr> =
     Some (0x600015, \<lparr>w_srv = [LQRead 0x600014], w_inbox = []\<rparr>)"
  using simple_read_served [of "0x600014" log_ops "\<lparr>w_srv = [], w_inbox = [[], []]\<rparr>" "0x600015" "[LQRead 0x600014]" "Suc (Suc 0)"]
  by (simp add: log_ops_def)

text \<open>A read request whose length field is 0x2001, 8193 bytes.\<close>

theorem serve_read_overrun_witness:
  "serve_step log_ops True (Some ([114] @ replicate 15 0 @ [1, 0x20, 0, 0])) [] = None"
proof -
  let ?d = "[114] @ replicate 15 0 @ [1, 0x20, 0, 0] :: bytes"
  have img: "overlay 0 ?d (replicate 8216 0) = ?d @ replicate 8196 0" by (simp add: overlay_def)
  have "rw_bytes (rw_load (?d @ replicate 8196 0)) = 0x2001" "rw_cmd (rw_load (?d @ replicate 8196 0)) = 114"
    by (simp_all add: rw_load_def nth_append le32_def)
  moreover have "sv_edcl_read log_ops a n b q = Some (b', q') \<Longrightarrow> length b' = length b" for a n b q b' q'
    by (auto simp: log_ops_def dest: put_range_SomeD)
  ultimately show ?thesis
    using serve_read_overrun [OF _ refl, of ?d log_ops "[]"] unfolding img by auto
qed

end
