(* ===== verification/Port.thy ===== *)
theory Port
  imports Wire
begin

text \<open>
  The contract between the transports (\<open>EdclService_read\<close>/\<open>EdclService_write\<close>, or
  \<open>client_read\<close>/\<open>client_write\<close> through the server) and the code that uses them as
  \<open>edcl_read\<close>/\<open>edcl_write\<close>: a remote byte memory. Both transports are shown to keep it.
\<close>

section \<open>Stores and loads\<close>

lemma mem_store_apply:
  assumes "length d \<le> 2 ^ 32"
  shows "mem_store m a d x = (if unat (x - a) < length d then d ! unat (x - a) else m x)"
  using assms
proof (induction d arbitrary: m a)
  case (Cons b d)
  show ?case
  proof (cases "x = a")
    case True
    have "unat (- 1 :: u32) = 2 ^ 32 - 1" by (simp add: unsigned_minus_1_eq_mask mask_eq_exp_minus_1)
    then have "\<not> unat (x - (a + 1)) < length d" using True Cons.prems by simp
    with True Cons show ?thesis by simp
  next
    case False
    then have "x - a \<noteq> 0" by simp
    then have "unat (x - a) = Suc (unat (x - a - 1))" by (metis Suc_diff_1 unat_gt_0 unat_minus_one)
    with False Cons show ?thesis by (simp add: diff_diff_eq add.commute)
  qed
qed simp

lemma mem_load_store_same [mem_simps]:
  assumes "length d \<le> 2 ^ 32"
  shows "mem_load (mem_store m a d) a (length d) = d"
  using assms
  by (intro nth_equalityI) (auto simp: mem_load_def mem_store_apply unat_of_nat take_bit_nat_eq_self)

section \<open>The interface\<close>

locale remote_memory =
  fixes rd :: "u64 \<Rightarrow> int \<Rightarrow> bytes \<Rightarrow> 'w \<Rightarrow> ((int \<times> bytes) \<times> 'w) option"
    and wr :: "u64 \<Rightarrow> int \<Rightarrow> bytes \<Rightarrow> 'w \<Rightarrow> (int \<times> 'w) option"
    and mem :: "'w \<Rightarrow> u32 \<Rightarrow> u8"
    and dev :: "'w \<Rightarrow> 'd"
    and ok :: "'w \<Rightarrow> bool"
  assumes rd_law: "ok w \<Longrightarrow> 0 < n \<Longrightarrow> n \<le> 8192 \<Longrightarrow> n \<le> int (length b) \<Longrightarrow>
      returns (rd a n b w) (\<lambda>(r, b') w'. b' = mem_load (mem w) (ucast a) (nat n) @ drop (nat n) b \<and>
        mem w' = mem w \<and> dev w' = dev w \<and> ok w')"
    and wr_law: "ok w \<Longrightarrow> 0 < n \<Longrightarrow> n \<le> 8192 \<Longrightarrow> n \<le> int (length b) \<Longrightarrow>
      returns (wr a n b w) (\<lambda>r w'. mem w' = mem_store (mem w) (ucast a) (take (nat n) b) \<and>
        dev w' = dev w \<and> ok w')"
begin

lemma write_then_load:
  assumes "ok w" "0 < n" "n \<le> 8192" "n \<le> int (length b)" "0 < m" "m \<le> 8192" "m \<le> int (length b2)"
  shows "returns (wr a n b w) (\<lambda>_ w1. returns (rd a2 m b2 w1) (\<lambda>(r, b') w2.
    b' = mem_load (mem_store (mem w) (ucast a) (take (nat n) b)) (ucast a2) (nat m) @ drop (nat m) b2 \<and>
    mem w2 = mem_store (mem w) (ucast a) (take (nat n) b) \<and> dev w2 = dev w \<and> ok w2))"
proof (rule returns_mono [OF wr_law [OF assms(1-4)]])
  fix r w1
  assume w1: "mem w1 = mem_store (mem w) (ucast a) (take (nat n) b) \<and> dev w1 = dev w \<and> ok w1"
  then have "ok w1" by simp
  from rd_law [OF this assms(5-7), of a2] show "returns (rd a2 m b2 w1) (\<lambda>(r, b') w2.
      b' = mem_load (mem_store (mem w) (ucast a) (take (nat n) b)) (ucast a2) (nat m) @ drop (nat m) b2 \<and>
      mem w2 = mem_store (mem w) (ucast a) (take (nat n) b) \<and> dev w2 = dev w \<and> ok w2)"
    by (rule returns_mono) (use w1 in auto)
qed

end

section \<open>The EDCL service keeps the contract\<close>

definition edcl_ok :: "'w edcl \<Rightarrow> bool" where
  "edcl_ok st \<longleftrightarrow> edcl_bufs st \<and> first st"

lemma edcl_remote_memory:
  assumes "edcl_device ops mem dev expect"
  shows "remote_memory (EdclService_read ops) (EdclService_write ops)
    (\<lambda>st. mem (net st)) (\<lambda>st. dev (net st)) edcl_ok"
proof
  fix st :: "'a edcl" and n :: int and b :: bytes and a :: u64
  assume "edcl_ok st" "0 < n" "n \<le> 8192" "n \<le> int (length b)"
  then have st: "edcl_bufs st" "edcl_start ops st = st" "first st" "0 \<le> n" "n \<le> int (length b)"
    by (auto simp: edcl_ok_def edcl_start_def)
  show "returns (EdclService_read ops a n b st) (\<lambda>(r, b') st'.
      b' = mem_load (mem (net st)) (ucast a) (nat n) @ drop (nat n) b \<and>
      mem (net st') = mem (net st) \<and> dev (net st') = dev (net st) \<and> edcl_ok st')"
    unfolding EdclService_read_def edcl_start_def [symmetric] st(2)
    by (rule returns_mono [OF edcl_read_loop_spec [OF assms st(1,4,5)]])
      (auto simp: edcl_read_post_def overlay_0_full edcl_ok_def st)
  show "returns (EdclService_write ops a n b st) (\<lambda>r st'.
      mem (net st') = mem_store (mem (net st)) (ucast a) (take (nat n) b) \<and>
      dev (net st') = dev (net st) \<and> edcl_ok st')"
    unfolding EdclService_write_def edcl_start_def [symmetric] st(2)
    by (rule returns_mono [OF edcl_write_loop_spec [OF assms st(1,4,5)]])
      (auto simp: edcl_write_post_def edcl_ok_def st)
qed

interpretation edcl_demo: remote_memory "EdclService_read demo_ops" "EdclService_write demo_ops"
  "\<lambda>st. d_mem (net st)" "\<lambda>st. d_dev (net st)" edcl_ok
  by (rule edcl_remote_memory [OF demo_device])

section \<open>The client and the server keep it too\<close>

text \<open>
  What the server needs of the functions it calls: the flush changes nothing the client
  can see, reads and writes are those of a remote memory.
\<close>

locale serve_backend =
  fixes sv :: "'q serve_ops" and mem :: "'q \<Rightarrow> u32 \<Rightarrow> u8" and dev :: "'q \<Rightarrow> 'd" and ok :: "'q \<Rightarrow> bool"
  assumes flush_law: "ok q \<Longrightarrow> \<exists>q'. sv_flush_cond sv q = Some q' \<and> mem q' = mem q \<and> dev q' = dev q \<and> ok q'"
    and read_law: "ok q \<Longrightarrow> 0 < n \<Longrightarrow> n \<le> 8192 \<Longrightarrow> n \<le> int (length b) \<Longrightarrow>
      \<exists>q'. sv_edcl_read sv a n b q = Some (mem_load (mem q) (ucast a) (nat n) @ drop (nat n) b, q') \<and>
        mem q' = mem q \<and> dev q' = dev q \<and> ok q'"
    and write_law: "ok q \<Longrightarrow> 0 < n \<Longrightarrow> n \<le> 8192 \<Longrightarrow> n \<le> int (length b) \<Longrightarrow>
      \<exists>q'. sv_edcl_write sv a n b q = Some q' \<and> mem q' = mem_store (mem q) (ucast a) (take (nat n) b) \<and>
        dev q' = dev q \<and> ok q'"

definition wire_ok :: "('q \<Rightarrow> bool) \<Rightarrow> 'q wire \<Rightarrow> bool" where
  "wire_ok ok w \<longleftrightarrow> w_inbox w = [] \<and> ok (w_srv w)"

sublocale serve_backend \<subseteq> client: remote_memory "client_read (wire_ops sv)" "client_write (wire_ops sv)"
  "\<lambda>w. mem (w_srv w)" "\<lambda>w. dev (w_srv w)" "wire_ok ok"
proof
  fix w :: "'q wire" and n :: int and b :: bytes and a :: u64
  assume "wire_ok ok w" and n: "0 < n" "n \<le> 8192" "n \<le> int (length b)"
  then have w: "w_inbox w = replicate 0 []" "ok (w_srv w)" by (simp_all add: wire_ok_def)
  obtain q1 where q1: "sv_flush_cond sv (w_srv w) = Some q1" "mem q1 = mem (w_srv w)" "dev q1 = dev (w_srv w)" "ok q1"
    using flush_law [OF w(2)] by auto
  have len: "n \<le> int (length (replicate 8192 0 :: bytes))" using n by simp
  obtain q2 where q2: "sv_edcl_read sv a n (replicate 8192 0) q1 =
      Some (mem_load (mem q1) (ucast a) (nat n) @ drop (nat n) (replicate 8192 0), q2)"
      "mem q2 = mem q1" "dev q2 = dev q1" "ok q2"
    using read_law [OF q1(4) n(1,2) len, of a] by auto
  have "client_read (wire_ops sv) a n b w =
      Some ((0, mem_load (mem q1) (ucast a) (nat n) @ drop (nat n) b), \<lparr>w_srv = q2, w_inbox = []\<rparr>)"
    using client_read_served [OF w(1) n q1(1) q2(1)] n by simp
  then show "returns (client_read (wire_ops sv) a n b w) (\<lambda>(r, b') w'.
      b' = mem_load (mem (w_srv w)) (ucast a) (nat n) @ drop (nat n) b \<and>
      mem (w_srv w') = mem (w_srv w) \<and> dev (w_srv w') = dev (w_srv w) \<and> wire_ok ok w')"
    using q1 q2 by (simp add: wire_ok_def)
  let ?d = "take (nat n) b @ replicate (8192 - nat n) 0"
  have len2: "n \<le> int (length ?d)" using n by simp
  obtain q3 where q3: "sv_edcl_write sv a n ?d q1 = Some q3"
      "mem q3 = mem_store (mem q1) (ucast a) (take (nat n) b)" "dev q3 = dev q1" "ok q3"
    using write_law [OF q1(4) n(1,2) len2, of a] n by auto
  have "client_write (wire_ops sv) a n b w = Some (0, w\<lparr>w_srv := q3\<rparr>)"
    using client_write_served [OF w(1) _ n(2,3) q1(1) q3(1)] n by simp
  then show "returns (client_write (wire_ops sv) a n b w) (\<lambda>r w'.
      mem (w_srv w') = mem_store (mem (w_srv w)) (ucast a) (take (nat n) b) \<and>
      dev (w_srv w') = dev (w_srv w) \<and> wire_ok ok w')"
    using q1 q3 w by (simp add: wire_ok_def)
qed

context serve_backend begin

lemmas client_write_then_load = client.write_then_load

end

text \<open>
  \<open>queue_flush_cond\<close>, \<open>log_edcl_read\<close> and \<open>log_edcl_write\<close> are declared in \<open>main.h\<close> and defined
  nowhere in the repository: they stay parameters, and \<open>serve_backend\<close> is what is asked of them.
  The instance below, on which the contract is discharged, hands every request to the EDCL service on
  the device of the examples; it is no model of those functions.
\<close>

definition demo_backend :: "demo edcl serve_ops" where
  "demo_backend = \<lparr>sv_flush_cond = Some,
     sv_edcl_write = (\<lambda>a n d st. map_option snd (EdclService_write demo_ops a n d st)),
     sv_edcl_read = (\<lambda>a n b st. map_option (\<lambda>((r, b), st). (b, st)) (EdclService_read demo_ops a n b st)),
     sv_queue_write = (\<lambda>p d f st. None), sv_queue_read = (\<lambda>p st. None)\<rparr>"

interpretation backend_demo: serve_backend demo_backend "\<lambda>st. d_mem (net st)" "\<lambda>st. d_dev (net st)" edcl_ok
proof
  fix st :: "demo edcl" and n :: int and b :: bytes and a :: u64
  assume st: "edcl_ok st"
  then show "\<exists>q'. sv_flush_cond demo_backend st = Some q' \<and> d_mem (net q') = d_mem (net st) \<and>
      d_dev (net q') = d_dev (net st) \<and> edcl_ok q'"
    by (simp add: demo_backend_def)
  assume n: "0 < n" "n \<le> 8192" "n \<le> int (length b)"
  show "\<exists>q'. sv_edcl_read demo_backend a n b st =
      Some (mem_load (d_mem (net st)) (ucast a) (nat n) @ drop (nat n) b, q') \<and>
      d_mem (net q') = d_mem (net st) \<and> d_dev (net q') = d_dev (net st) \<and> edcl_ok q'"
    using edcl_demo.rd_law [OF st n, of a] by (auto simp: demo_backend_def returns_iff)
  show "\<exists>q'. sv_edcl_write demo_backend a n b st = Some q' \<and>
      d_mem (net q') = mem_store (d_mem (net st)) (ucast a) (take (nat n) b) \<and>
      d_dev (net q') = d_dev (net st) \<and> edcl_ok q'"
    using edcl_demo.wr_law [OF st n, of a] by (auto simp: demo_backend_def returns_iff)
qed

text \<open>
  C26: Over a link that loses no datagram, what a bare-metal program writes through the client and
  the binary requests of the server is what any later read, of these or of other bytes, of the same or of another length, gets back: the
  bytes written where the ranges meet, the old contents elsewhere, and no byte of its buffer behind
  the length is touched.  The functions the server calls and the repository does not define
  (\<open>queue_flush_cond\<close>, \<open>log_edcl_read\<close>, \<open>log_edcl_write\<close>) are parameters, of which
  \<open>serve_backend\<close> asks that the flush is invisible and the other two read and write a memory.
\<close>

theorem client_write_read_back:
  assumes "serve_backend sv mem dev ok" and "wire_ok ok w"
    and "0 < n" "n \<le> 8192" "n \<le> int (length ibuf)" and "0 < m" "m \<le> 8192" "m \<le> int (length obuf)"
  shows "returns (client_write (wire_ops sv) addr n ibuf w) (\<lambda>_ w1.
    returns (client_read (wire_ops sv) addr2 m obuf w1) (\<lambda>(r, ob) w2.
      ob = mem_load (mem_store (mem (w_srv w)) (ucast addr) (take (nat n) ibuf)) (ucast addr2) (nat m) @ drop (nat m) obuf \<and>
      (addr2 = addr \<and> m = n \<longrightarrow> take (nat n) ob = take (nat n) ibuf) \<and>
      mem (w_srv w2) = mem_store (mem (w_srv w)) (ucast addr) (take (nat n) ibuf) \<and>
      dev (w_srv w2) = dev (w_srv w) \<and> wire_ok ok w2))"
proof -
  have "length (take (nat n) ibuf) = nat n" "nat n \<le> 2 ^ 32" using assms(4,5) by auto
  then have same: "mem_load (mem_store M x (take (nat n) ibuf)) x (nat n) = take (nat n) ibuf" for M x
    using mem_load_store_same [of "take (nat n) ibuf" M x] by simp
  show ?thesis
    by (rule returns_mono [OF serve_backend.client_write_then_load [OF assms, of addr addr2]])
      (use assms(5) in \<open>auto elim!: returns_mono simp: same\<close>)
qed

theorem client_write_read_back_witness:
  "returns (client_write (wire_ops demo_backend) 64 3 [5, 6, 7] \<lparr>w_srv = demo_state 5 9, w_inbox = []\<rparr>)
     (\<lambda>_ w1. returns (client_read (wire_ops demo_backend) 65 2 [0, 0, 9] w1) (\<lambda>(r, ob) w2. ob = [6, 7, 9])) \<and>
   returns (client_write (wire_ops demo_backend) 64 3 [5, 6, 7] \<lparr>w_srv = demo_state 5 9, w_inbox = []\<rparr>)
     (\<lambda>_ w1. returns (client_read (wire_ops demo_backend) 64 3 [0, 0, 0] w1) (\<lambda>(r, ob) w2. take 3 ob = [5, 6, 7]))"
proof -
  have ok: "wire_ok edcl_ok \<lparr>w_srv = demo_state 5 9, w_inbox = []\<rparr>"
    by (simp add: wire_ok_def edcl_ok_def edcl_bufs_def demo_state_def)
  note law = client_write_read_back [OF backend_demo.serve_backend_axioms ok, of 3 "[5, 6, 7]"]
  show ?thesis
  proof
    show "returns (client_write (wire_ops demo_backend) 64 3 [5, 6, 7] \<lparr>w_srv = demo_state 5 9, w_inbox = []\<rparr>)
        (\<lambda>_ w1. returns (client_read (wire_ops demo_backend) 65 2 [0, 0, 9] w1) (\<lambda>(r, ob) w2. ob = [6, 7, 9]))"
      by (rule returns_mono [OF law [of 2 "[0, 0, 9]" 64 65]]) (auto elim!: returns_mono simp: mem_load_def upt_rec)
    show "returns (client_write (wire_ops demo_backend) 64 3 [5, 6, 7] \<lparr>w_srv = demo_state 5 9, w_inbox = []\<rparr>)
        (\<lambda>_ w1. returns (client_read (wire_ops demo_backend) 64 3 [0, 0, 0] w1) (\<lambda>(r, ob) w2. take 3 ob = [5, 6, 7]))"
      by (rule returns_mono [OF law [of 3 "[0, 0, 0]" 64 64]]) (auto elim!: returns_mono)
  qed
qed

end
