(* ===== verification/Queue.thy ===== *)
theory Queue
  imports Port
begin

text \<open>
  The command queue of \<open>minion_lib.c\<close> (and \<open>queue.c\<close>, the same code over the EDCL service
  instead of the client): bus accesses of the minion processor are collected in
  \<open>edcl_trans\<close>, written to shared memory as one batch, started by a doorbell word behind
  the last entry and finished when the minion clears the pointer of the first entry.
\<close>

section \<open>Entries\<close>

record etrans =
  t_mode :: u32
  t_ptr :: u64
  t_val :: u32

definition edcl_mode_unknown :: u32 where "edcl_mode_unknown = 0"
definition edcl_mode_read :: u32 where "edcl_mode_read = 1"
definition edcl_mode_write :: u32 where "edcl_mode_write = 2"
definition edcl_mode_block_read :: u32 where "edcl_mode_block_read = 3"
definition edcl_mode_bootstrap :: u32 where "edcl_mode_bootstrap = 4"
definition edcl_max :: nat where "edcl_max = 256"

text \<open>The 16 bytes of an entry, packed to 4.\<close>

definition etrans_bytes :: "etrans \<Rightarrow> bytes" where
  "etrans_bytes t = bytes_le32 (t_mode t) @ bytes_le64 (t_ptr t) @ bytes_le32 (t_val t)"

definition bytes_etrans :: "bytes \<Rightarrow> etrans" where
  "bytes_etrans b = \<lparr>t_mode = le32 (b ! 0) (b ! 1) (b ! 2) (b ! 3), t_ptr = le64 (take 8 (drop 4 b)),
     t_val = le32 (b ! 12) (b ! 13) (b ! 14) (b ! 15)\<rparr>"

definition array_bytes :: "etrans list \<Rightarrow> bytes" where
  "array_bytes ts = concat (map etrans_bytes ts)"

fun bytes_array :: "bytes \<Rightarrow> etrans list" where
  "bytes_array b = (if length b < 16 then [] else bytes_etrans (take 16 b) # bytes_array (drop 16 b))"

declare bytes_array.simps [simp del]

section \<open>The transport below the queue\<close>

record 'w port_ops =
  edcl_read :: "u64 \<Rightarrow> int \<Rightarrow> bytes \<Rightarrow> 'w \<Rightarrow> ((int \<times> bytes) \<times> 'w) option"
  edcl_write :: "u64 \<Rightarrow> int \<Rightarrow> bytes \<Rightarrow> 'w \<Rightarrow> (int \<times> 'w) option"

text \<open>
  \<open>edcl_read\<close> and \<open>edcl_write\<close> of \<open>minion_lib.c\<close>: the client, connected on first use.
  \<open>connect\<close> stands for the name resolution and \<open>connect(2)\<close> of \<open>client_main\<close>, which then
  blinks the LEDs and reads a register of the SD controller.
\<close>

record 'w link =
  sfd :: bool
  l_net :: 'w

definition led_base :: u64 where "led_base = push_bit 20 7"
definition rxfifo_base :: u64 where "rxfifo_base = push_bit 20 4"
definition txfifo_base :: u64 where "txfifo_base = push_bit 20 5"
definition sd_base :: u64 where "sd_base = push_bit 20 6"
definition shared_base :: u64 where "shared_base = 0"

definition client_main :: "'w sock_ops \<Rightarrow> ('w \<Rightarrow> 'w) \<Rightarrow> 'w \<Rightarrow> 'w option" where
  "client_main ops connect w = do {
     w \<leftarrow> simple_write ops led_base 0x55 (connect w);
     w \<leftarrow> simple_write ops led_base 0xAA w;
     w \<leftarrow> simple_write ops led_base 0x00 w;
     (_, w) \<leftarrow> simple_read ops (sd_base + 4 * 5) w;
     Some w }"

definition link_open :: "'w sock_ops \<Rightarrow> ('w \<Rightarrow> 'w) \<Rightarrow> 'w link \<Rightarrow> 'w link option" where
  "link_open ops connect l =
     (if sfd l then Some l
      else do { w \<leftarrow> client_main ops connect (l_net l); Some (l\<lparr>sfd := True, l_net := w\<rparr>) })"

definition minion_edcl_read ::
  "'w sock_ops \<Rightarrow> ('w \<Rightarrow> 'w) \<Rightarrow> u64 \<Rightarrow> int \<Rightarrow> bytes \<Rightarrow> 'w link \<Rightarrow> ((int \<times> bytes) \<times> 'w link) option" where
  "minion_edcl_read ops connect addr n obuf l = do {
     l \<leftarrow> link_open ops connect l;
     (r, w) \<leftarrow> client_read ops addr n obuf (l_net l);
     Some (r, l\<lparr>l_net := w\<rparr>) }"

definition minion_edcl_write ::
  "'w sock_ops \<Rightarrow> ('w \<Rightarrow> 'w) \<Rightarrow> u64 \<Rightarrow> int \<Rightarrow> bytes \<Rightarrow> 'w link \<Rightarrow> (int \<times> 'w link) option" where
  "minion_edcl_write ops connect addr n ibuf l = do {
     l \<leftarrow> link_open ops connect l;
     (r, w) \<leftarrow> client_write ops addr n ibuf (l_net l);
     Some (r, l\<lparr>l_net := w\<rparr>) }"

definition minion_port :: "'w sock_ops \<Rightarrow> ('w \<Rightarrow> 'w) \<Rightarrow> 'w link port_ops" where
  "minion_port ops connect = \<lparr>edcl_read = minion_edcl_read ops connect, edcl_write = minion_edcl_write ops connect\<rparr>"

definition queue_port :: "'w netops \<Rightarrow> 'w edcl port_ops" where
  "queue_port ops = \<lparr>edcl_read = EdclService_read ops, edcl_write = EdclService_write ops\<rparr>"

section \<open>The queue\<close>

record 'w queue =
  edcl_trans :: "etrans list"
  edcl_cnt :: nat
  port :: 'w

definition queue_init :: "'w \<Rightarrow> 'w queue" where
  "queue_init w = \<lparr>edcl_trans = replicate 257 \<lparr>t_mode = 0, t_ptr = 0, t_val = 0\<rparr>, edcl_cnt = 0, port = w\<rparr>"

text \<open>\<open>buf\<close> is the array (or single structure) the C pointer argument leads to.\<close>

definition shared_read ::
  "'w port_ops \<Rightarrow> u64 \<Rightarrow> int \<Rightarrow> etrans list \<Rightarrow> 'w \<Rightarrow> ((int \<times> etrans list) \<times> 'w) option" where
  "shared_read ops addr cnt buf w = do {
     ((r, b), w) \<leftarrow> edcl_read ops addr (cnt * 16) (array_bytes buf) w;
     Some ((r, bytes_array b), w) }"

definition shared_write :: "'w port_ops \<Rightarrow> u64 \<Rightarrow> int \<Rightarrow> etrans list \<Rightarrow> 'w \<Rightarrow> (int \<times> 'w) option" where
  "shared_write ops addr cnt buf w = edcl_write ops addr (cnt * 16) (array_bytes buf) w"

definition shared_entry :: "nat \<Rightarrow> u64" where
  "shared_entry k = shared_base + 16 * of_nat k"

text \<open>The wait loop; \<open>tmp\<close> keeps its value when a read fails.\<close>

partial_function (option) queue_poll :: "'w port_ops \<Rightarrow> etrans \<Rightarrow> 'w \<Rightarrow> (etrans \<times> 'w) option" where
  "queue_poll ops tmp w = do {
     ((_, ts), w) \<leftarrow> shared_read ops shared_base 1 [tmp] w;
     tmp \<leftarrow> get_at 0 ts;
     if t_ptr tmp \<noteq> 0 then queue_poll ops tmp w else Some (tmp, w) }"

text \<open>
  \<open>junk\<close> is the indeterminate content of the local \<open>tmp\<close>, of which only \<open>val\<close> is set
  before it is written to the doorbell.
\<close>

definition queue_flush :: "etrans \<Rightarrow> 'w port_ops \<Rightarrow> 'w queue \<Rightarrow> (nat \<times> 'w queue) option" where
  "queue_flush junk ops st = do {
     let tmp = junk\<lparr>t_val := 0xDEADBEEF\<rparr>;
     t \<leftarrow> get_at (edcl_cnt st) (edcl_trans st);
     trans \<leftarrow> put_at (edcl_cnt st) (t\<lparr>t_mode := edcl_mode_unknown\<rparr>) (edcl_trans st);
     let cnt = edcl_cnt st + 1;
     (_, w) \<leftarrow> shared_write ops shared_base (int cnt) trans (port st);
     (_, w) \<leftarrow> shared_write ops (shared_entry edcl_max) 1 [tmp] w;
     (tmp, w) \<leftarrow> queue_poll ops tmp w;
     (_, w) \<leftarrow> shared_write ops (shared_entry edcl_max) 1 [tmp\<lparr>t_val := 0\<rparr>] w;
     t \<leftarrow> get_at 0 trans;
     trans \<leftarrow> put_at 0 (t\<lparr>t_mode := edcl_mode_read, t_ptr := push_bit 20 8\<rparr>) trans;
     Some (cnt, \<lparr>edcl_trans = trans, edcl_cnt = 1, port = w\<rparr>) }"

definition queue_push :: "etrans \<Rightarrow> 'w queue \<Rightarrow> 'w queue option" where
  "queue_push t st = do {
     trans \<leftarrow> put_at (edcl_cnt st) t (edcl_trans st);
     Some (st\<lparr>edcl_trans := trans, edcl_cnt := edcl_cnt st + 1\<rparr>) }"

definition queue_write ::
  "etrans \<Rightarrow> 'w port_ops \<Rightarrow> u64 \<Rightarrow> u32 \<Rightarrow> bool \<Rightarrow> 'w queue \<Rightarrow> (unit \<times> 'w queue) option" where
  "queue_write junk ops sd_ptr val flush st = do {
     st \<leftarrow> queue_push \<lparr>t_mode = edcl_mode_write, t_ptr = sd_ptr, t_val = val\<rparr> st;
     if flush \<or> edcl_cnt st = edcl_max - 1
     then do { (_, st) \<leftarrow> queue_flush junk ops st; Some ((), st) }
     else Some ((), st) }"

definition queue_read :: "etrans \<Rightarrow> 'w port_ops \<Rightarrow> u64 \<Rightarrow> 'w queue \<Rightarrow> (u32 \<times> 'w queue) option" where
  "queue_read junk ops sd_ptr st = do {
     let tmp = \<lparr>t_mode = edcl_mode_read, t_ptr = sd_ptr, t_val = 0xDEADBEEF\<rparr>;
     st \<leftarrow> queue_push tmp st;
     (cnt, st) \<leftarrow> queue_flush junk ops st;
     ((_, ts), w) \<leftarrow> shared_read ops (shared_entry (cnt - 2)) 1 [tmp] (port st);
     tmp \<leftarrow> get_at 0 ts;
     Some (t_val tmp, st\<lparr>port := w\<rparr>) }"

primrec queue_push_reads :: "u64 \<Rightarrow> nat \<Rightarrow> 'w queue \<Rightarrow> 'w queue option" where
  "queue_push_reads sd_ptr 0 st = Some st"
| "queue_push_reads sd_ptr (Suc n) st = do {
     st \<leftarrow> queue_push \<lparr>t_mode = edcl_mode_read, t_ptr = sd_ptr, t_val = 0xDEADBEEF\<rparr> st;
     queue_push_reads (sd_ptr + 4) n st }"

definition queue_read_array ::
  "etrans \<Rightarrow> 'w port_ops \<Rightarrow> u64 \<Rightarrow> u32 \<Rightarrow> u32 list \<Rightarrow> 'w queue \<Rightarrow> (u32 list \<times> 'w queue) option" where
  "queue_read_array junk ops sd_ptr cnt iobuf st = do {
     st \<leftarrow> (if of_nat (edcl_cnt st) + cnt \<ge> of_nat edcl_max
            then map_option snd (queue_flush junk ops st) else Some st);
     st \<leftarrow> queue_push_reads sd_ptr (unat cnt) st;
     (cnt2, st) \<leftarrow> queue_flush junk ops st;
     let n = unat (of_nat cnt2 - 1 - cnt :: u32);
     ((_, ts), w) \<leftarrow> shared_read ops (shared_entry n) (sint cnt) (drop n (edcl_trans st)) (port st);
     let trans = take n (edcl_trans st) @ ts;
     vals \<leftarrow> get_range n (unat cnt) trans;
     iobuf \<leftarrow> put_range 0 (map t_val vals) iobuf;
     Some (iobuf, st\<lparr>edcl_trans := trans, port := w\<rparr>) }"

definition words_bytes :: "u32 list \<Rightarrow> bytes" where
  "words_bytes ws = concat (map bytes_le32 ws)"

fun bytes_words :: "bytes \<Rightarrow> u32 list" where
  "bytes_words (a # b # c # d # bs) = le32 a b c d # bytes_words bs"
| "bytes_words _ = []"

definition queue_block_read1 ::
  "etrans \<Rightarrow> 'w port_ops \<Rightarrow> u32 list \<Rightarrow> int \<Rightarrow> 'w queue \<Rightarrow> ((int \<times> u32 list) \<times> 'w queue) option" where
  "queue_block_read1 junk ops tmpbuf maxcnt st = do {
     (_, st) \<leftarrow> queue_flush junk ops st;
     let tmp = \<lparr>t_mode = edcl_mode_block_read, t_ptr = rxfifo_base, t_val = 1\<rparr>;
     (_, w) \<leftarrow> shared_write ops shared_base 1 [tmp] (port st);
     let tmp = tmp\<lparr>t_val := 0xDEADBEEF\<rparr>;
     (_, w) \<leftarrow> shared_write ops (shared_entry edcl_max) 1 [tmp] w;
     (tmp, w) \<leftarrow> queue_poll ops tmp w;
     let cnt = (if of_int maxcnt > t_mode tmp then sint (t_mode tmp) else maxcnt);
     ((_, b), w) \<leftarrow> edcl_read ops (shared_entry 1) (cnt * 4) (words_bytes tmpbuf) w;
     Some ((cnt, bytes_words b), st\<lparr>port := w\<rparr>) }"

definition edcl_bootstrap :: "etrans \<Rightarrow> 'w port_ops \<Rightarrow> u32 \<Rightarrow> 'w \<Rightarrow> 'w option" where
  "edcl_bootstrap junk2 ops entry w = do {
     let tmp = \<lparr>t_mode = edcl_mode_bootstrap, t_ptr = scast entry, t_val = 0xDEADBEEF\<rparr>;
     (_, w) \<leftarrow> edcl_write ops 0 16 (etrans_bytes tmp) w;
     (_, w) \<leftarrow> edcl_read ops 0 16 (etrans_bytes junk2) w;
     (_, w) \<leftarrow> edcl_write ops (of_nat edcl_max * 16) 16 (etrans_bytes tmp) w;
     Some w }"

definition write_led :: "etrans \<Rightarrow> 'w port_ops \<Rightarrow> u32 \<Rightarrow> 'w queue \<Rightarrow> (unit \<times> 'w queue) option" where
  "write_led junk ops data st = queue_write junk ops led_base data True st"

section \<open>Encoding of entries\<close>

lemma length_etrans_bytes [simp]: "length (etrans_bytes t) = 16"
  by (simp add: etrans_bytes_def)

lemma bytes_etrans_bytes [codec_simps]: "bytes_etrans (etrans_bytes t) = t"
proof -
  have b: "etrans_bytes t = bytes_le32 (t_mode t) @ bytes_le64 (t_ptr t) @ bytes_le32 (t_val t)"
    by (simp add: etrans_bytes_def)
  have "take 8 (drop 4 (etrans_bytes t)) = bytes_le64 (t_ptr t)" unfolding b by simp
  moreover have "le32 (etrans_bytes t ! 0) (etrans_bytes t ! 1) (etrans_bytes t ! 2) (etrans_bytes t ! 3) = t_mode t"
    by (simp add: b nth_append) (simp add: bytes_le32_def le32_bytes)
  moreover have "le32 (etrans_bytes t ! 12) (etrans_bytes t ! 13) (etrans_bytes t ! 14) (etrans_bytes t ! 15) = t_val t"
    by (simp add: b nth_append) (simp add: bytes_le32_def le32_bytes)
  ultimately show ?thesis by (simp add: bytes_etrans_def le64_bytes)
qed

lemma array_bytes_simps [simp]:
  "array_bytes [] = []" "array_bytes (t # ts) = etrans_bytes t @ array_bytes ts"
  "array_bytes (ts @ us) = array_bytes ts @ array_bytes us"
  by (simp_all add: array_bytes_def)

lemma length_array_bytes [simp]: "length (array_bytes ts) = 16 * length ts"
  by (induction ts) auto

lemma bytes_array_Nil [simp]: "bytes_array [] = []"
  by (simp add: bytes_array.simps)

lemma bytes_array_Cons: "length b = 16 \<Longrightarrow> bytes_array (b @ c) = bytes_etrans b # bytes_array c"
  by (subst bytes_array.simps) simp

lemma bytes_array_append: "length a = 16 * n \<Longrightarrow> bytes_array (a @ b) = bytes_array a @ bytes_array b"
proof (induction n arbitrary: a)
  case (Suc n)
  then obtain a1 a2 where a: "a = a1 @ a2" "length a1 = 16" "length a2 = 16 * n"
    by (metis add_diff_cancel_left' append_take_drop_id le_add1 length_drop length_take min.absorb2 mult_Suc_right)
  with Suc show ?case by (simp add: bytes_array_Cons)
qed simp

lemma bytes_array_bytes [codec_simps]: "bytes_array (array_bytes ts) = ts"
  by (induction ts) (simp_all add: bytes_array_Cons bytes_etrans_bytes)

lemma length_bytes_array: "length b = 16 * n \<Longrightarrow> length (bytes_array b) = n"
proof (induction n arbitrary: b)
  case (Suc n)
  then show ?case by (subst bytes_array.simps) simp
qed simp

lemma array_split:
  assumes "length b = 16 * N" and "k + n \<le> N"
  shows "take n (drop k (bytes_array b)) = bytes_array (take (16 * n) (drop (16 * k) b))"
    "take k (bytes_array b) = bytes_array (take (16 * k) b)"
    "drop k (bytes_array b) = bytes_array (drop (16 * k) b)"
proof -
  have parts: "bytes_array b = bytes_array (take (16 * k) b) @ bytes_array (take (16 * n) (drop (16 * k) b)) @
      bytes_array (drop (16 * n) (drop (16 * k) b))"
    using bytes_array_append [of "take (16 * k) b" k "drop (16 * k) b"]
      bytes_array_append [of "take (16 * n) (drop (16 * k) b)" n "drop (16 * n) (drop (16 * k) b)"] assms
    by (simp only: append_take_drop_id length_take length_drop)
  have len: "length (bytes_array (take (16 * k) b)) = k" "length (bytes_array (take (16 * n) (drop (16 * k) b))) = n"
    using assms by (auto intro: length_bytes_array)
  show "take n (drop k (bytes_array b)) = bytes_array (take (16 * n) (drop (16 * k) b))"
    "take k (bytes_array b) = bytes_array (take (16 * k) b)"
    "drop k (bytes_array b) = bytes_array (drop (16 * k) b)"
    using len bytes_array_append [of "take (16 * n) (drop (16 * k) b)" n "drop (16 * n) (drop (16 * k) b)"] assms
    by (simp_all add: parts del: drop_drop take_take)
qed

lemma array_overlay [codec_simps]:
  assumes "length b = 16 * N" and "k + length ts \<le> N"
  shows "bytes_array (overlay (16 * k) (array_bytes ts) b) = overlay k ts (bytes_array b)"
proof -
  have 1: "length (take (16 * k) b) = 16 * k" using assms by simp
  have 2: "16 * k + 16 * length ts = 16 * (k + length ts)" by simp
  show ?thesis
    using array_split(2) [OF assms(1), of k 0] array_split(3) [OF assms(1), of "k + length ts" 0] assms(2)
    by (simp add: overlay_def bytes_array_append [OF 1] bytes_array_append [of "array_bytes ts" "length ts"]
        bytes_array_bytes 2 del: distrib_left_numeral)
qed

section \<open>The shared memory as a list of entries\<close>

lemma mem_load_part:
  assumes "k + n \<le> N"
  shows "mem_load m (of_nat k) n = take n (drop k (mem_load m 0 N))"
  using assms by (intro nth_equalityI) (auto simp: mem_load_def)

lemma mem_load_overlay:
  assumes "k + length d \<le> N" and "N \<le> 2 ^ 32"
  shows "mem_load (mem_store m (of_nat k) d) 0 N = overlay k d (mem_load m 0 N)"
proof (rule nth_equalityI)
  fix i assume "i < length (mem_load (mem_store m (of_nat k) d) 0 N)"
  then have i: "i < N" by simp
  have len: "length d \<le> 2 ^ 32" using assms by simp
  have ge: "unat (of_nat i - of_nat k :: u32) = i - k" if "k \<le> i"
    using that i assms(2) by (simp flip: of_nat_diff add: unat_of_nat take_bit_nat_eq_self)
  have lt: "\<not> unat (of_nat i - of_nat k :: u32) < length d" if "i < k"
  proof -
    have "(of_nat i - of_nat k :: u32) = of_nat (2 ^ 32 - (k - i))"
      using that assms by (simp add: of_nat_diff)
    moreover have "k - i \<le> 2 ^ 32" "0 < k - i" using that assms by auto
    ultimately have "unat (of_nat i - of_nat k :: u32) = 2 ^ 32 - (k - i)"
      by (simp only: unat_of_nat) (simp add: take_bit_nat_eq_self)
    then show ?thesis using that assms by simp
  qed
  show "mem_load (mem_store m (of_nat k) d) 0 N ! i = overlay k d (mem_load m 0 N) ! i"
    using i assms(1) ge lt by (auto simp: mem_load_def nth_overlay mem_store_apply [OF len] not_less)
qed (use assms in simp)

section \<open>What the minion does with a batch\<close>

text \<open>
  The bus of the minion processor, and the execution of a batch in order up to the
  first entry that is neither a read nor a write; reads leave their value in the entry.
\<close>

record 'x bus =
  bus_read :: "u64 \<Rightarrow> 'x \<Rightarrow> u32 \<times> 'x"
  bus_write :: "u64 \<Rightarrow> u32 \<Rightarrow> 'x \<Rightarrow> 'x"

fun exec_batch :: "'x bus \<Rightarrow> etrans list \<Rightarrow> 'x \<Rightarrow> etrans list \<times> 'x" where
  "exec_batch bus [] x = ([], x)"
| "exec_batch bus (t # ts) x =
     (if t_mode t = edcl_mode_read
      then (let (v, x) = bus_read bus (t_ptr t) x; (ts, x) = exec_batch bus ts x in (t\<lparr>t_val := v\<rparr> # ts, x))
      else if t_mode t = edcl_mode_write
      then (let (ts, x) = exec_batch bus ts (bus_write bus (t_ptr t) (t_val t) x) in (t # ts, x))
      else (t # ts, x))"

definition clear_first :: "etrans list \<Rightarrow> etrans list" where
  "clear_first ts = (case ts of [] \<Rightarrow> [] | t # ts \<Rightarrow> t\<lparr>t_ptr := 0\<rparr> # ts)"

definition access :: "etrans \<Rightarrow> bool" where
  "access t \<longleftrightarrow> t_mode t = edcl_mode_read \<or> t_mode t = edcl_mode_write"

definition shared_of :: "(u32 \<Rightarrow> u8) \<Rightarrow> etrans list" where
  "shared_of m = bytes_array (mem_load m 0 4112)"

definition ringing :: "etrans list \<Rightarrow> bool" where
  "ringing sh \<longleftrightarrow> t_val (sh ! 256) = 0xDEADBEEF"

text \<open>A batch: accesses followed by the end mark, in front of the doorbell.\<close>

definition batch :: "etrans list \<Rightarrow> etrans list \<Rightarrow> bool" where
  "batch pre sh \<longleftrightarrow> length pre < 256 \<and> length sh = 257 \<and> take (length pre) sh = pre \<and> (\<forall>t \<in> set pre. access t) \<and>
     t_mode (sh ! length pre) = edcl_mode_unknown"

lemma take_array_bytes: "take (16 * n) (array_bytes ts) = array_bytes (take n ts)"
proof (induction ts arbitrary: n)
  case (Cons t ts)
  then show ?case by (cases n) simp_all
qed simp

lemma drop_array_bytes: "drop (16 * n) (array_bytes ts) = array_bytes (drop n ts)"
proof (induction ts arbitrary: n)
  case (Cons t ts)
  then show ?case by (cases n) simp_all
qed simp

lemma length_shared_of [simp]: "length (shared_of m) = 257"
  unfolding shared_of_def by (rule length_bytes_array) simp

lemma exec_batch_append:
  assumes "\<forall>t \<in> set pre. access t"
  shows "exec_batch bus (pre @ ts) x =
    (let (pre', x') = exec_batch bus pre x; (ts', x'') = exec_batch bus ts x' in (pre' @ ts', x''))"
  using assms by (induction bus pre x rule: exec_batch.induct) (auto simp: access_def split: prod.splits)

lemma length_exec_batch [simp]: "length (fst (exec_batch bus ts x)) = length ts"
  by (induction bus ts x rule: exec_batch.induct) (auto split: prod.splits)

lemma exec_batch_stop: "t_mode (hd ts) = edcl_mode_unknown \<Longrightarrow> exec_batch bus ts x = (ts, x)"
  by (cases ts) (auto simp: edcl_mode_unknown_def edcl_mode_read_def edcl_mode_write_def)

lemma exec_batch_shared:
  assumes "batch pre sh"
  shows "exec_batch bus sh x = (fst (exec_batch bus pre x) @ drop (length pre) sh, snd (exec_batch bus pre x))"
proof -
  have sh: "sh = pre @ drop (length pre) sh" using assms by (metis append_take_drop_id batch_def)
  have "drop (length pre) sh \<noteq> []" using assms by (simp add: batch_def)
  then have "t_mode (hd (drop (length pre) sh)) = edcl_mode_unknown"
    using assms by (simp add: batch_def hd_drop_conv_nth)
  then show ?thesis
    using exec_batch_append [of pre bus "drop (length pre) sh" x] assms sh
    by (simp add: batch_def exec_batch_stop split: prod.splits)
qed

lemma length_clear_first [simp]: "length (clear_first ts) = length ts"
  by (cases ts) (simp_all add: clear_first_def)

lemma nth_clear_first: "i < length ts \<Longrightarrow> clear_first ts ! i = (if i = 0 then (ts ! 0)\<lparr>t_ptr := 0\<rparr> else ts ! i)"
  by (cases ts; cases i) (simp_all add: clear_first_def)

section \<open>The queue over a minion\<close>

text \<open>
  \<open>between env\<close> lets the minion act before each transaction of the host reaches its
  memory.
\<close>

definition between ::
  "('w \<Rightarrow> 'w) \<Rightarrow> (u64 \<Rightarrow> int \<Rightarrow> bytes \<Rightarrow> 'w \<Rightarrow> ((int \<times> bytes) \<times> 'w) option) \<Rightarrow>
   (u64 \<Rightarrow> int \<Rightarrow> bytes \<Rightarrow> 'w \<Rightarrow> (int \<times> 'w) option) \<Rightarrow> 'w port_ops" where
  "between env rd wr = \<lparr>edcl_read = (\<lambda>a n b w. rd a n b (env w)), edcl_write = (\<lambda>a n b w. wr a n b (env w))\<rparr>"

text \<open>
  The firmware's side of the protocol: nothing happens unless the doorbell rings; then,
  after finitely many polls, the batch has been executed and the pointer of its first
  entry cleared. Reading the shared memory through the bus has no effect.
\<close>

locale minion = remote_memory rd wr mem dev ok
  for rd :: "u64 \<Rightarrow> int \<Rightarrow> bytes \<Rightarrow> 'w \<Rightarrow> ((int \<times> bytes) \<times> 'w) option"
    and wr :: "u64 \<Rightarrow> int \<Rightarrow> bytes \<Rightarrow> 'w \<Rightarrow> (int \<times> 'w) option"
    and mem :: "'w \<Rightarrow> u32 \<Rightarrow> u8" and dev :: "'w \<Rightarrow> 'd" and ok :: "'w \<Rightarrow> bool" +
  fixes env :: "'w \<Rightarrow> 'w" and io :: "'d \<Rightarrow> 'x" and delay :: "'d \<Rightarrow> nat" and bus :: "'x bus"
  assumes env_ok: "ok w \<Longrightarrow> ok (env w)"
    and env_quiet: "ok w \<Longrightarrow> \<not> ringing (shared_of (mem w)) \<or> t_ptr (shared_of (mem w) ! 0) = 0 \<Longrightarrow>
      shared_of (mem (env w)) = shared_of (mem w) \<and> io (dev (env w)) = io (dev w)"
    and env_busy: "ok w \<Longrightarrow> ringing (shared_of (mem w)) \<Longrightarrow> t_ptr (shared_of (mem w) ! 0) \<noteq> 0 \<Longrightarrow>
      batch pre (shared_of (mem w)) \<Longrightarrow>
      shared_of (mem (env w)) = shared_of (mem w) \<and> io (dev (env w)) = io (dev w) \<and> delay (dev (env w)) < delay (dev w) \<or>
      shared_of (mem (env w)) = clear_first (fst (exec_batch bus (shared_of (mem w)) (io (dev w)))) \<and>
      io (dev (env w)) = snd (exec_batch bus (shared_of (mem w)) (io (dev w)))"
    and shared_read_quiet: "snd (bus_read bus 0x800000 x) = x"
begin

abbreviation sh :: "'w \<Rightarrow> etrans list" where "sh w \<equiv> shared_of (mem w)"

abbreviation st_io :: "'w \<Rightarrow> 'x" where "st_io w \<equiv> io (dev w)"

lemma entry_address: "(ucast (shared_entry k) :: u32) = of_nat (16 * k)"
proof -
  have "shared_entry k = of_nat (16 * k)" by (simp add: shared_entry_def shared_base_def)
  then show ?thesis by (simp only:) (rule ucast_down_of_nat, simp)
qed

lemma shared_write_law:
  assumes "ok w" and "0 < n" "n \<le> length ts" "k + n \<le> 257"
  shows "returns (shared_write (between env rd wr) (shared_entry k) (int n) ts w) (\<lambda>_ w'.
    sh w' = overlay k (take n ts) (sh (env w)) \<and> dev w' = dev (env w) \<and> ok w')"
proof -
  have n: "0 < int n * 16" "int n * 16 \<le> 8192" "int n * 16 \<le> int (length (array_bytes ts))"
    using assms by auto
  have tk: "take (nat (int n * 16)) (array_bytes ts) = array_bytes (take n ts)"
    using take_array_bytes [of n ts] by (simp add: nat_mult_distrib mult.commute)
  have ov: "shared_of (mem_store m (of_nat (16 * k)) (array_bytes (take n ts))) = overlay k (take n ts) (shared_of m)" for m
    unfolding shared_of_def using assms
    by (subst mem_load_overlay) (auto intro!: array_overlay [of _ 257])
  show ?thesis
    unfolding shared_write_def between_def port_ops.simps
    by (rule returns_mono [OF wr_law [OF env_ok [OF assms(1)] n]])
      (simp add: entry_address tk ov [simplified])
qed

lemma shared_read_law:
  assumes "ok w" and "0 < n" "n \<le> length ts" "k + n \<le> 257"
  shows "returns (shared_read (between env rd wr) (shared_entry k) (int n) ts w) (\<lambda>(r, ts') w'.
    ts' = take n (drop k (sh (env w))) @ drop n ts \<and> mem w' = mem (env w) \<and> dev w' = dev (env w) \<and> ok w')"
proof -
  have n: "0 < int n * 16" "int n * 16 \<le> 8192" "int n * 16 \<le> int (length (array_bytes ts))"
    using assms by auto
  have nat_n: "nat (int n * 16) = 16 * n" by simp
  have dr: "drop (16 * n) (array_bytes ts) = array_bytes (drop n ts)"
    by (rule drop_array_bytes)
  have part: "bytes_array (mem_load m (of_nat (16 * k)) (16 * n) @ b) = take n (drop k (shared_of m)) @ bytes_array b" for m b
    using array_split(1) [of "mem_load m 0 4112" 257 k n] mem_load_part [of "16 * k" "16 * n" 4112 m] assms(4)
    by (subst bytes_array_append [of _ n]) (auto simp: shared_of_def)
  show ?thesis
    unfolding shared_read_def between_def port_ops.simps returns_bind
    by (rule returns_mono [OF rd_law [OF env_ok [OF assms(1)] n]])
      (auto simp: entry_address nat_n dr part [simplified] bytes_array_bytes)
qed

end

text \<open>
  The queue's invariant and the state of the bus it stands for: the accesses still
  pending are as good as done.
\<close>

definition queue_inv :: "('w \<Rightarrow> bool) \<Rightarrow> ('w \<Rightarrow> u32 \<Rightarrow> u8) \<Rightarrow> nat \<Rightarrow> 'w queue \<Rightarrow> bool" where
  "queue_inv ok mem lim st \<longleftrightarrow> length (edcl_trans st) = 257 \<and> edcl_cnt st \<le> lim \<and>
     (\<forall>t \<in> set (take (edcl_cnt st) (edcl_trans st)). access t) \<and>
     (0 < edcl_cnt st \<longrightarrow> t_ptr (edcl_trans st ! 0) \<noteq> 0) \<and>
     ok (port st) \<and> \<not> ringing (shared_of (mem (port st)))"

definition queue_abs :: "'x bus \<Rightarrow> ('w \<Rightarrow> 'd) \<Rightarrow> ('d \<Rightarrow> 'x) \<Rightarrow> 'w queue \<Rightarrow> 'x" where
  "queue_abs bus dev io st = snd (exec_batch bus (take (edcl_cnt st) (edcl_trans st)) (io (dev (port st))))"

lemma shared_entry_0: "shared_base = shared_entry 0"
  by (simp add: shared_entry_def)

lemma queue_inv_mono: "queue_inv ok mem l st \<Longrightarrow> l \<le> l' \<Longrightarrow> queue_inv ok mem l' st"
  by (simp add: queue_inv_def)

lemma take_shared_of [simp]: "take (Suc 0) (shared_of m) = [shared_of m ! 0]"
  using length_shared_of [of m] by (cases "shared_of m") auto

context minion begin

lemma poll_done:
  assumes "ok w" and "ringing (sh w)" and ptr: "t_ptr (sh (env w) ! 0) = 0"
  shows "returns (queue_poll (between env rd wr) tmp w) (\<lambda>tmp' w'.
    ok w' \<and> mem w' = mem (env w) \<and> dev w' = dev (env w) \<and> tmp' = sh (env w) ! 0)"
  unfolding queue_poll.simps [of _ tmp w] shared_entry_0 returns_bind
  by (rule returns_mono [OF shared_read_law [of w 1 "[tmp]" 0, simplified, OF assms(1)]])
    (auto simp: get_at_def ptr)

lemma poll_law:
  assumes "ok w" and "ringing (sh w)" and "batch pre (sh w)"
  shows "returns (queue_poll (between env rd wr) tmp w) (\<lambda>tmp' w'.
    ok w' \<and> tmp' = sh w' ! 0 \<and> t_ptr (sh w' ! 0) = 0 \<and>
    (if t_ptr (sh w ! 0) = 0 then sh w' = sh w \<and> st_io w' = st_io w
     else sh w' = clear_first (fst (exec_batch bus pre (st_io w)) @ drop (length pre) (sh w)) \<and>
       st_io w' = snd (exec_batch bus pre (st_io w))))"
  using assms
proof (induction "delay (dev w)" arbitrary: w tmp rule: less_induct)
  case less
  show ?case
  proof (cases "t_ptr (sh w ! 0) = 0")
    case True
    with env_quiet [OF less.prems(1)] have "sh (env w) = sh w" "st_io (env w) = st_io w" by auto
    with True show ?thesis
      by (intro returns_mono [OF poll_done [OF less.prems(1,2)]]) auto
  next
    case False
    note ex = exec_batch_shared [OF less.prems(3)]
    from env_busy [OF less.prems(1,2) False less.prems(3)] show ?thesis
    proof
      assume e: "sh (env w) = sh w \<and> st_io (env w) = st_io w \<and> delay (dev (env w)) < delay (dev w)"
      obtain ts w' where rd1: "shared_read (between env rd wr) (shared_entry 0) 1 [tmp] w = Some (ts, w')"
        and w': "snd ts = [sh w ! 0]" "mem w' = mem (env w)" "dev w' = dev (env w)" "ok w'"
        using shared_read_law [of w 1 "[tmp]" 0, simplified, OF less.prems(1)] e
        by (auto simp: returns_iff)
      have same: "sh w' = sh w" "st_io w' = st_io w" "delay (dev w') < delay (dev w)" using w' e by auto
      have ih: "returns (queue_poll (between env rd wr) (sh w ! 0) w') (\<lambda>tmp' w''.
          ok w'' \<and> tmp' = sh w'' ! 0 \<and> t_ptr (sh w'' ! 0) = 0 \<and>
          (if t_ptr (sh w' ! 0) = 0 then sh w'' = sh w' \<and> st_io w'' = st_io w'
           else sh w'' = clear_first (fst (exec_batch bus pre (st_io w')) @ drop (length pre) (sh w')) \<and>
             st_io w'' = snd (exec_batch bus pre (st_io w'))))"
        using less.hyps [OF same(3) w'(4)] less.prems same by auto
      show ?thesis
        unfolding queue_poll.simps [of _ tmp w] shared_entry_0 rd1 using ih False w'(1) same
        by (cases ts) (simp add: get_at_def)
    next
      assume e: "sh (env w) = clear_first (fst (exec_batch bus (sh w) (st_io w))) \<and>
        st_io (env w) = snd (exec_batch bus (sh w) (st_io w))"
      have len: "0 < length (fst (exec_batch bus (sh w) (st_io w)))" by simp
      have "t_ptr (sh (env w) ! 0) = 0" using e nth_clear_first [OF len] by simp
      with False e show ?thesis
        by (intro returns_mono [OF poll_done [OF less.prems(1,2)]]) (auto simp: ex)
    qed
  qed
qed

end

lemma overlay_single: "k < length xs \<Longrightarrow> overlay k [x] xs = xs[k := x]"
  by (simp add: overlay_def upd_conv_take_nth_drop)

lemma batch_in_shared:
  fixes bell :: etrans
  assumes "length tr = 257" "c \<le> 255" "\<forall>t \<in> set (take c tr). access t" "length old = 257"
    and "t_mode u = edcl_mode_unknown"
  defines "s \<equiv> (overlay 0 (take (Suc c) (tr[c := u])) old)[256 := bell]"
  shows "batch (take c tr) s" and "length s = 257" and "s ! 256 = bell"
    and "0 < c \<Longrightarrow> s ! 0 = tr ! 0" and "c = 0 \<Longrightarrow> s ! 0 = u"
proof -
  have eq: "take (Suc c) (tr[c := u]) = take c tr @ [u]"
    using assms(1,2) by (simp add: take_Suc_conv_app_nth)
  have s: "s = (take c tr @ u # drop (Suc c) old)[256 := bell]"
    unfolding s_def eq using assms(1,2,4) by (simp add: overlay_def)
  have len: "length (take c tr) = c" using assms(1,2) by simp
  show "length s = 257" unfolding s using assms(1,2,4) by simp
  moreover have "take c s = take c tr" unfolding s using len assms(2) by (simp add: take_update_swap nth_append list_update_append)
  moreover have "s ! c = u" unfolding s using len assms(2) by (simp add: nth_append)
  ultimately show "batch (take c tr) s" using assms(2,3,5) len by (simp add: batch_def)
  show "s ! 256 = bell" unfolding s using assms(1,2,4) by simp
  show "0 < c \<Longrightarrow> s ! 0 = tr ! 0" unfolding s using len by (simp add: nth_append)
  show "c = 0 \<Longrightarrow> s ! 0 = u" unfolding s by simp
qed

lemma exec_batch_placeholder:
  "t_mode t = edcl_mode_read \<Longrightarrow> snd (exec_batch bus [t] x) = snd (bus_read bus (t_ptr t) x)"
  by (simp split: prod.splits)

context minion begin

lemma flush_law:
  assumes inv: "queue_inv ok mem 255 st"
  defines "c \<equiv> edcl_cnt st" and "pre \<equiv> take (edcl_cnt st) (edcl_trans st)"
  shows "returns (queue_flush junk (between env rd wr) st) (\<lambda>cnt st'.
    cnt = Suc c \<and> queue_inv ok mem 1 st' \<and> edcl_cnt st' = 1 \<and>
    st_io (port st') = queue_abs bus dev io st \<and> queue_abs bus dev io st' = queue_abs bus dev io st \<and>
    length (edcl_trans st') = 257 \<and>
    map t_val (take c (sh (port st'))) = map t_val (fst (exec_batch bus pre (st_io (port st)))))"
proof -
  let ?ops = "between env rd wr" and ?w = "port st"
  define u where "u = (edcl_trans st ! c)\<lparr>t_mode := edcl_mode_unknown\<rparr>"
  define tr where "tr = (edcl_trans st)[c := u]"
  define bell where "bell = junk\<lparr>t_val := 0xDEADBEEF\<rparr>"
  define s where "s = (overlay 0 (take (Suc c) tr) (sh ?w))[256 := bell]"
  have st: "length (edcl_trans st) = 257" "c \<le> 255" "\<forall>t \<in> set pre. access t" "0 < c \<Longrightarrow> t_ptr (edcl_trans st ! 0) \<noteq> 0"
    "ok ?w" "\<not> ringing (sh ?w)"
    using inv by (auto simp: queue_inv_def c_def pre_def)
  have len: "length tr = 257" "length pre = c" using st by (simp_all add: tr_def pre_def c_def)
  note bs = batch_in_shared [of "edcl_trans st" c "sh ?w" u bell, folded tr_def, folded s_def,
      OF st(1,2) _ length_shared_of]
  have bs': "batch pre s" "length s = 257" "s ! 256 = bell" "0 < c \<Longrightarrow> s ! 0 = edcl_trans st ! 0" "c = 0 \<Longrightarrow> s ! 0 = u"
    using bs st(3) by (auto simp: u_def pre_def c_def)
  have quiet1: "sh (env ?w) = sh ?w" "st_io (env ?w) = st_io ?w" using env_quiet [OF st(5)] st(6) by auto
  obtain r1 w1 where wr1: "shared_write ?ops shared_base (int (Suc c)) tr ?w = Some (r1, w1)"
    and w1: "sh w1 = overlay 0 (take (Suc c) tr) (sh ?w)" "st_io w1 = st_io ?w" "ok w1"
    using shared_write_law [of ?w "Suc c" tr 0] st len quiet1 unfolding shared_entry_0 by (auto simp: returns_iff)
  have "sh w1 ! 256 = sh ?w ! 256"
    unfolding w1(1) using st(2) len by (subst nth_overlay) auto
  then have "\<not> ringing (sh w1)" using st(6) by (simp add: ringing_def)
  then have quiet2: "sh (env w1) = sh w1" "st_io (env w1) = st_io w1" using env_quiet [OF w1(3)] by auto
  have ov: "overlay 256 [bell] (sh w1) = s" by (simp add: s_def overlay_single flip: w1(1))
  obtain r2 w2 where wr2: "shared_write ?ops (shared_entry edcl_max) 1 [bell] w1 = Some (r2, w2)"
    and w2: "sh w2 = s" "st_io w2 = st_io ?w" "ok w2"
    using shared_write_law [of w1 1 "[bell]" 256] w1(2,3) quiet2 ov
    by (auto simp: returns_iff edcl_max_def)
  have "ringing (sh w2)" using bs'(3) by (simp add: w2 ringing_def bell_def)
  then obtain tmp w3 where poll: "queue_poll ?ops bell w2 = Some (tmp, w3)"
    and w3: "ok w3" "tmp = sh w3 ! 0" "t_ptr (sh w3 ! 0) = 0"
      "if t_ptr (s ! 0) = 0 then sh w3 = s \<and> st_io w3 = st_io ?w
       else sh w3 = clear_first (fst (exec_batch bus pre (st_io ?w)) @ drop (length pre) s) \<and>
         st_io w3 = snd (exec_batch bus pre (st_io ?w))"
    using poll_law [OF w2(3), of pre bell] bs'(1) w2 by (auto simp: returns_iff)
  have quiet3: "sh (env w3) = sh w3" "st_io (env w3) = st_io w3" using env_quiet [OF w3(1)] w3(3) by auto
  obtain r4 w4 where wr4: "shared_write ?ops (shared_entry edcl_max) 1 [tmp\<lparr>t_val := 0\<rparr>] w3 = Some (r4, w4)"
    and w4: "sh w4 = (sh w3)[256 := tmp\<lparr>t_val := 0\<rparr>]" "st_io w4 = st_io w3" "ok w4"
    using shared_write_law [of w3 1 "[tmp\<lparr>t_val := 0\<rparr>]" 256] w3 quiet3
    by (auto simp: returns_iff edcl_max_def overlay_single)
  define pl where "pl = (tr ! 0)\<lparr>t_mode := edcl_mode_read, t_ptr := push_bit 20 8\<rparr>"
  let ?st' = "\<lparr>edcl_trans = tr[0 := pl], edcl_cnt = 1, port = w4\<rparr>"
  have run: "queue_flush junk ?ops st = Some (Suc c, ?st')"
    using st(1,2) len wr1 wr2 poll wr4
    by (simp add: queue_flush_def mem_simps Let_def pl_def flip: c_def u_def tr_def bell_def)
  have not_ring: "\<not> ringing (sh w4)" using w4 by (simp add: ringing_def)
  have tk: "take 1 (tr[0 := pl]) = [pl]" using len by (cases tr) auto
  have pl: "t_mode pl = edcl_mode_read" "t_ptr pl = 0x800000" by (simp_all add: pl_def)
  have fin: "st_io w4 = snd (exec_batch bus pre (st_io ?w)) \<and>
      map t_val (take c (sh w4)) = map t_val (fst (exec_batch bus pre (st_io ?w)))"
  proof (cases "c = 0")
    case True
    then have "pre = []" using len by simp
    with w3(4) w4(2) True show ?thesis by (auto split: if_splits)
  next
    case False
    with bs'(4) st(4) have "t_ptr (s ! 0) \<noteq> 0" by simp
    with w3(4) have e: "sh w3 = clear_first (fst (exec_batch bus pre (st_io ?w)) @ drop (length pre) s)"
      "st_io w3 = snd (exec_batch bus pre (st_io ?w))" by auto
    have "map t_val (clear_first ts) = map t_val ts" for ts by (cases ts) (simp_all add: clear_first_def)
    then have "map t_val (sh w3) = map t_val (fst (exec_batch bus pre (st_io ?w)) @ drop (length pre) s)" by (simp add: e)
    then have "take c (map t_val (sh w3)) = map t_val (fst (exec_batch bus pre (st_io ?w)))"
      using len by simp
    with e w4 st(2) show ?thesis by (simp add: take_map)
  qed
  have ph: "snd (exec_batch bus [pl] x) = x" for x
    by (simp only: exec_batch_placeholder [OF pl(1)] pl(2) shared_read_quiet)
  show ?thesis
    unfolding run using fin w4 not_ring len pl tk
    by (auto simp: queue_inv_def queue_abs_def pre_def access_def ph simp flip: c_def simp del: exec_batch.simps)
qed

end

text \<open>A run of reads of consecutive words, as the bus sees it.\<close>

primrec bus_reads :: "'x bus \<Rightarrow> u64 \<Rightarrow> nat \<Rightarrow> 'x \<Rightarrow> u32 list \<times> 'x" where
  "bus_reads bus p 0 x = ([], x)"
| "bus_reads bus p (Suc n) x =
     (let (v, x) = bus_read bus p x; (vs, x) = bus_reads bus (p + 4) n x in (v # vs, x))"

primrec read_entries :: "u64 \<Rightarrow> nat \<Rightarrow> etrans list" where
  "read_entries p 0 = []"
| "read_entries p (Suc n) = \<lparr>t_mode = edcl_mode_read, t_ptr = p, t_val = 0xDEADBEEF\<rparr> # read_entries (p + 4) n"

lemma length_read_entries [simp]: "length (read_entries p n) = n"
  by (induction n arbitrary: p) simp_all

lemma read_entries_access: "\<forall>t \<in> set (read_entries p n). access t"
  by (induction n arbitrary: p) (simp_all add: access_def)

lemma exec_read_entries:
  "map t_val (fst (exec_batch bus (read_entries p n) x)) = fst (bus_reads bus p n x)"
  "snd (exec_batch bus (read_entries p n) x) = snd (bus_reads bus p n x)"
  by (induction n arbitrary: p x) (simp_all add: case_prod_beta)

text \<open>Pushing accesses: the pending list grows, the transport is not used.\<close>

definition pending :: "'w queue \<Rightarrow> etrans list" where
  "pending st = take (edcl_cnt st) (edcl_trans st)"

lemma queue_abs_pending: "queue_abs bus dev io st = snd (exec_batch bus (pending st) (io (dev (port st))))"
  by (simp add: queue_abs_def pending_def)

lemma queue_push_law:
  assumes inv: "queue_inv ok mem lim st" and "lim \<le> 256" and "access t" and "t_ptr t \<noteq> 0"
  shows "\<exists>st'. queue_push t st = Some st' \<and> queue_inv ok mem (Suc lim) st' \<and> pending st' = pending st @ [t] \<and>
    edcl_cnt st' = Suc (edcl_cnt st) \<and> port st' = port st"
proof -
  let ?c = "edcl_cnt st" and ?tr = "edcl_trans st"
  have c: "?c < length ?tr" using inv assms(2) by (simp add: queue_inv_def)
  have eq: "take (Suc ?c) (?tr[?c := t]) = take ?c ?tr @ [t]"
    using c by (simp add: take_Suc_conv_app_nth)
  have "t_ptr (?tr[?c := t] ! 0) \<noteq> 0" using inv assms(4) c by (cases "?c = 0") (auto simp: queue_inv_def)
  then show ?thesis
    using inv assms(3) c eq by (auto simp: queue_push_def mem_simps queue_inv_def pending_def)
qed

lemma queue_push_reads_law:
  assumes "queue_inv ok mem lim st" and "lim + n \<le> 257" and "0 < unat p" "unat p + 4 * n \<le> 2 ^ 64"
  shows "\<exists>st'. queue_push_reads p n st = Some st' \<and> queue_inv ok mem (lim + n) st' \<and>
    pending st' = pending st @ read_entries p n \<and> edcl_cnt st' = edcl_cnt st + n \<and> port st' = port st"
  using assms
proof (induction n arbitrary: p st lim)
  case 0
  then show ?case by simp
next
  case (Suc n)
  let ?t = "\<lparr>t_mode = edcl_mode_read, t_ptr = p, t_val = 0xDEADBEEF\<rparr>"
  obtain st1 where st1: "queue_push ?t st = Some st1" "queue_inv ok mem (Suc lim) st1"
    "pending st1 = pending st @ [?t]" "edcl_cnt st1 = Suc (edcl_cnt st)" "port st1 = port st"
    using queue_push_law [OF Suc.prems(1), of ?t] Suc.prems(2,3) by (auto simp: access_def unat_gt_0)
  show ?case
  proof (cases n)
    case 0
    with st1 show ?thesis by simp
  next
    case (Suc m)
    have "unat (p + 4) = unat p + 4"
      using Suc.prems(4) Suc by (simp add: unat_add_lem [symmetric] unat_word_ariths(1))
    with Suc.IH [OF st1(2), of "p + 4"] Suc.prems st1 show ?thesis by auto
  qed
qed

context minion begin

lemma queue_write_law:
  assumes inv: "queue_inv ok mem 254 st" and p: "p \<noteq> 0"
  shows "returns (queue_write junk (between env rd wr) p v flush st) (\<lambda>_ st'.
    queue_inv ok mem 254 st' \<and> 0 < edcl_cnt st' \<and> queue_abs bus dev io st' = bus_write bus p v (queue_abs bus dev io st))"
proof -
  let ?t = "\<lparr>t_mode = edcl_mode_write, t_ptr = p, t_val = v\<rparr>"
  obtain st1 where st1: "queue_push ?t st = Some st1" "queue_inv ok mem 255 st1" "pending st1 = pending st @ [?t]"
    "edcl_cnt st1 = Suc (edcl_cnt st)" "port st1 = port st"
    using queue_push_law [OF inv, of ?t] p by (auto simp: access_def)
  have acc: "\<forall>t \<in> set (pending st). access t" using inv by (simp add: queue_inv_def pending_def)
  have abs: "queue_abs bus dev io st1 = bus_write bus p v (queue_abs bus dev io st)"
    by (simp add: queue_abs_pending st1 exec_batch_append [OF acc] edcl_mode_write_def edcl_mode_read_def case_prod_beta)
  show ?thesis
  proof (cases "flush \<or> edcl_cnt st1 = edcl_max - 1")
    case True
    have "returns (queue_flush junk (between env rd wr) st1) (\<lambda>_ st'.
        queue_inv ok mem 254 st' \<and> 0 < edcl_cnt st' \<and> queue_abs bus dev io st' = queue_abs bus dev io st1)"
      by (rule returns_mono [OF flush_law [OF st1(2)]]) (auto elim: queue_inv_mono)
    with True st1(1) abs show ?thesis by (simp add: queue_write_def split: prod.splits)
  next
    case False
    with st1 abs show ?thesis by (simp add: queue_write_def queue_inv_def edcl_max_def)
  qed
qed

lemma read_back_law:
  assumes "queue_inv ok mem 1 st" and "0 < n" "n \<le> length ts" "k + n \<le> 257"
  shows "returns (shared_read (between env rd wr) (shared_entry k) (int n) ts (port st)) (\<lambda>(r, ts') w'.
    ts' = take n (drop k (sh (port st))) @ drop n ts \<and> queue_inv ok mem 1 (st\<lparr>port := w'\<rparr>) \<and> st_io w' = st_io (port st))"
proof -
  have ok: "ok (port st)" and nr: "\<not> ringing (sh (port st))" using assms(1) by (simp_all add: queue_inv_def)
  have quiet: "sh (env (port st)) = sh (port st)" "st_io (env (port st)) = st_io (port st)"
    using env_quiet [OF ok] nr by auto
  show ?thesis
    by (rule returns_mono [OF shared_read_law [OF ok assms(2-4)]])
      (use assms(1) quiet in \<open>auto simp: queue_inv_def\<close>)
qed

lemma queue_read_law:
  assumes inv: "queue_inv ok mem 254 st" and p: "p \<noteq> 0"
  shows "returns (queue_read junk (between env rd wr) p st) (\<lambda>v st'.
    queue_inv ok mem 254 st' \<and> 0 < edcl_cnt st' \<and> (v, queue_abs bus dev io st') = bus_read bus p (queue_abs bus dev io st))"
proof -
  let ?t = "\<lparr>t_mode = edcl_mode_read, t_ptr = p, t_val = 0xDEADBEEF\<rparr>"
  obtain st1 where st1: "queue_push ?t st = Some st1" "queue_inv ok mem 255 st1" "pending st1 = pending st @ [?t]"
    "edcl_cnt st1 = Suc (edcl_cnt st)" "port st1 = port st"
    using queue_push_law [OF inv, of ?t] p by (auto simp: access_def)
  have acc: "\<forall>t \<in> set (pending st). access t" using inv by (simp add: queue_inv_def pending_def)
  obtain v x where b: "bus_read bus p (queue_abs bus dev io st) = (v, x)" by force
  have len: "length (pending st) = edcl_cnt st" using inv by (simp add: queue_inv_def pending_def)
  have ex: "exec_batch bus (pending st @ [?t]) (st_io (port st)) =
      (fst (exec_batch bus (pending st) (st_io (port st))) @ [?t\<lparr>t_val := v\<rparr>], x)"
    using b by (simp add: queue_abs_pending exec_batch_append [OF acc] case_prod_beta)
  obtain st2 where fl: "queue_flush junk (between env rd wr) st1 = Some (Suc (Suc (edcl_cnt st)), st2)"
    and st2: "queue_inv ok mem 1 st2" "queue_abs bus dev io st2 = x"
      "map t_val (take (Suc (edcl_cnt st)) (sh (port st2))) =
       map t_val (fst (exec_batch bus (pending st) (st_io (port st))) @ [?t\<lparr>t_val := v\<rparr>])"
    using flush_law [OF st1(2), of junk, folded pending_def] ex
    by (auto simp: returns_iff st1 queue_abs_pending)
  have c: "edcl_cnt st \<le> 254" using inv by (simp add: queue_inv_def)
  have "map t_val (take (Suc (edcl_cnt st)) (sh (port st2))) ! edcl_cnt st = v"
    unfolding st2(3) using len by (simp add: nth_append)
  then have val: "t_val (sh (port st2) ! edcl_cnt st) = v" using c by simp
  have tk: "take (Suc 0) (drop (edcl_cnt st) (sh (port st2))) = [sh (port st2) ! edcl_cnt st]"
    using c by (simp add: take_Suc_conv_app_nth)
  have "returns (shared_read (between env rd wr) (shared_entry (edcl_cnt st)) 1 [?t] (port st2)) (\<lambda>(r, ts') w'.
    ts' = [sh (port st2) ! edcl_cnt st] \<and> queue_inv ok mem 1 (st2\<lparr>port := w'\<rparr>) \<and> st_io w' = st_io (port st2))"
    using read_back_law [OF st2(1), of 1 "[?t]" "edcl_cnt st"] c by (simp add: tk)
  then obtain r w' where rd: "shared_read (between env rd wr) (shared_entry (edcl_cnt st)) 1 [?t] (port st2) =
      Some ((r, [sh (port st2) ! edcl_cnt st]), w')"
    and w': "queue_inv ok mem 1 (st2\<lparr>port := w'\<rparr>)" "st_io w' = st_io (port st2)"
    by (auto simp: returns_iff)
  have one: "edcl_cnt st2 = 1" if "queue_flush junk (between env rd wr) st1 = Some (n, st2)" for n
    using flush_law [OF st1(2), of junk] that by (auto simp: returns_iff)
  have "queue_abs bus dev io (st2\<lparr>port := w'\<rparr>) = x" using st2(2) w'(2) by (simp add: queue_abs_def)
  then show ?thesis
    using w' b val one [OF fl] by (simp add: queue_read_def st1(1) fl rd get_at_def queue_inv_mono)
qed

lemma queue_read_array_law:
  assumes inv: "queue_inv ok mem 254 st" and used: "0 < edcl_cnt st" and cnt: "0 < unat cnt" "unat cnt \<le> 254" "unat cnt \<le> length iobuf"
    and p: "0 < unat p" "unat p + 4 * unat cnt \<le> 2 ^ 64"
  shows "returns (queue_read_array junk (between env rd wr) p cnt iobuf st) (\<lambda>iobuf' st'.
    queue_inv ok mem 254 st' \<and> 0 < edcl_cnt st' \<and>
    (\<exists>vs. (vs, queue_abs bus dev io st') = bus_reads bus p (unat cnt) (queue_abs bus dev io st) \<and>
      iobuf' = vs @ drop (unat cnt) iobuf))"
proof -
  let ?n = "unat cnt" and ?ops = "between env rd wr"
  let ?m = "if of_nat (edcl_cnt st) + cnt \<ge> of_nat edcl_max
            then map_option snd (queue_flush junk ?ops st) else Some st"
  have c: "edcl_cnt st \<le> 254" using inv by (simp add: queue_inv_def)
  have small: "unat (of_nat (edcl_cnt st) + cnt) = edcl_cnt st + ?n"
    using c cnt by (simp add: unat_word_ariths unat_of_nat take_bit_nat_eq_self)
  obtain st0 where st0: "?m = Some st0" "queue_inv ok mem 255 st0" "edcl_cnt st0 + ?n \<le> 255"
    "0 < edcl_cnt st0" "queue_abs bus dev io st0 = queue_abs bus dev io st"
  proof (cases "of_nat (edcl_cnt st) + cnt \<ge> of_nat edcl_max")
    case True
    obtain s where "queue_flush junk ?ops st = Some s" "queue_inv ok mem 255 (snd s)" "edcl_cnt (snd s) = 1"
      "queue_abs bus dev io (snd s) = queue_abs bus dev io st"
      using flush_law [OF queue_inv_mono [OF inv], of junk] by (auto simp: returns_iff queue_inv_mono)
    with True cnt that [of "snd s"] show ?thesis by simp
  next
    case False
    then have "unat (of_nat (edcl_cnt st) + cnt) < 256" by (simp add: word_le_nat_alt edcl_max_def)
    with False small inv used that [of st] show ?thesis by (simp add: queue_inv_mono)
  qed
  have inv0: "queue_inv ok mem (edcl_cnt st0) st0" using st0(2) by (simp add: queue_inv_def)
  obtain st1 where st1: "queue_push_reads p ?n st0 = Some st1" "queue_inv ok mem 255 st1"
    "pending st1 = pending st0 @ read_entries p ?n" "edcl_cnt st1 = edcl_cnt st0 + ?n" "port st1 = port st0"
    using queue_push_reads_law [OF inv0 _ p] st0(3) queue_inv_mono [of ok mem "edcl_cnt st0 + ?n" _ 255] by auto
  let ?c = "edcl_cnt st0"
  have acc: "\<forall>t \<in> set (pending st0). access t" using inv0 by (simp add: queue_inv_def pending_def)
  have len0: "length (pending st0) = ?c" using inv0 st0(3) by (simp add: queue_inv_def pending_def)
  obtain vs x where b: "bus_reads bus p ?n (queue_abs bus dev io st) = (vs, x)" by force
  have b': "bus_reads bus p ?n (snd (exec_batch bus (pending st0) (st_io (port st0)))) = (vs, x)"
    using b st0(5) by (simp add: queue_abs_pending)
  have ex: "snd (exec_batch bus (pending st1) (st_io (port st1))) = x"
    "map t_val (fst (exec_batch bus (pending st1) (st_io (port st1)))) =
      map t_val (fst (exec_batch bus (pending st0) (st_io (port st0)))) @ vs"
    using b' by (simp_all add: st1 exec_batch_append [OF acc] case_prod_beta exec_read_entries)
  obtain st2 where fl: "queue_flush junk ?ops st1 = Some (Suc (?c + ?n), st2)"
    and st2: "queue_inv ok mem 1 st2" "queue_abs bus dev io st2 = x" "length (edcl_trans st2) = 257"
      "edcl_cnt st2 = 1" "map t_val (take (?c + ?n) (sh (port st2))) =
         map t_val (fst (exec_batch bus (pending st0) (st_io (port st0)))) @ vs"
    using flush_law [OF st1(2), of junk, folded pending_def] ex
    by (auto simp: returns_iff st1(4) queue_abs_pending)
  have lenb: "length (map t_val (fst (exec_batch bus (pending st0) (st_io (port st0))))) = ?c" using len0 by simp
  have lv: "length vs = ?n"
    using arg_cong [OF st2(5), of length] lenb st0(3) by simp
  have "map t_val (take ?n (drop ?c (sh (port st2)))) = drop ?c (map t_val (take (?c + ?n) (sh (port st2))))"
    by (simp add: drop_map drop_take)
  then have vals: "map t_val (take ?n (drop ?c (sh (port st2)))) = vs" unfolding st2(5) using lenb by simp
  have idx: "unat (of_nat (Suc (?c + ?n)) - 1 - cnt :: u32) = ?c"
  proof -
    have "(of_nat (Suc (?c + ?n)) - 1 - cnt :: u32) = of_nat ?c" by simp
    then show ?thesis using st0(3) by (simp only: unat_of_nat) (simp add: take_bit_nat_eq_self)
  qed
  have scnt: "sint cnt = int ?n"
    by (rule sint_small_nat) (use cnt(2) in simp)
  have room: "?n \<le> length (drop ?c (edcl_trans st2))" "?c + ?n \<le> 257" using st0(3) st2(3) by auto
  obtain r w' where rd: "shared_read ?ops (shared_entry ?c) (int ?n) (drop ?c (edcl_trans st2)) (port st2) =
      Some ((r, take ?n (drop ?c (sh (port st2))) @ drop ?n (drop ?c (edcl_trans st2))), w')"
    and w': "queue_inv ok mem 1 (st2\<lparr>port := w'\<rparr>)" "st_io w' = st_io (port st2)"
    using read_back_law [OF st2(1) cnt(1) room] by (auto simp: returns_iff)
  let ?tr = "take ?c (edcl_trans st2) @ take ?n (drop ?c (sh (port st2))) @ drop ?n (drop ?c (edcl_trans st2))"
  have gr: "get_range ?c ?n ?tr = Some (take ?n (drop ?c (sh (port st2))))"
    using st0(3) st2(3) by (simp add: mem_simps)
  have run: "queue_read_array junk ?ops p cnt iobuf st = Some (vs @ drop ?n iobuf, st2\<lparr>edcl_trans := ?tr, port := w'\<rparr>)"
    unfolding queue_read_array_def st0(1) Let_def using st1(1) fl rd gr vals lv cnt(3)
    by (simp add: idx [simplified] scnt mem_simps overlay_0_full)
  obtain c1 where c1: "?c = Suc c1" using st0(4) by (cases ?c) auto
  have tr0: "take (Suc 0) ?tr = take (Suc 0) (edcl_trans st2)" "?tr ! 0 = edcl_trans st2 ! 0" "length ?tr = 257"
    using st0(3) st2(3) by (cases "edcl_trans st2"; simp add: c1)+
  have "queue_abs bus dev io (st2\<lparr>edcl_trans := ?tr, port := w'\<rparr>) = x"
    using st2(2,4) w'(2) tr0(1) by (simp add: queue_abs_def)
  moreover have "queue_inv ok mem 254 (st2\<lparr>edcl_trans := ?tr, port := w'\<rparr>)"
    using w'(1) st2(4) tr0 by (simp add: queue_inv_def)
  ultimately show ?thesis
    unfolding run using b st2(4) by simp
qed

end

section \<open>The queue refines direct bus accesses\<close>

text \<open>
  C2: A queued write is as good as done: seen through the pending accesses, the bus state
  after \<open>queue_write\<close> is that of a direct bus write, whether or not the queue was
  flushed; the call terminates, keeps the queue's invariant and never indexes outside
  \<open>edcl_trans\<close>.
\<close>

theorem queue_write_refines:
  assumes "minion rd wr mem dev ok env io delay bus" and "queue_inv ok mem 254 st" and "p \<noteq> 0"
  shows "returns (queue_write junk (between env rd wr) p v flush st) (\<lambda>_ st'.
    queue_inv ok mem 254 st' \<and> 0 < edcl_cnt st' \<and> queue_abs bus dev io st' = bus_write bus p v (queue_abs bus dev io st))"
  by (rule minion.queue_write_law [OF assms])

text \<open>
  C1: \<open>queue_read\<close> returns what a direct bus read returns after all pending accesses in
  program order, and leaves the bus in that state.
\<close>

theorem queue_read_refines:
  assumes "minion rd wr mem dev ok env io delay bus" and "queue_inv ok mem 254 st" and "p \<noteq> 0"
  shows "returns (queue_read junk (between env rd wr) p st) (\<lambda>v st'.
    queue_inv ok mem 254 st' \<and> 0 < edcl_cnt st' \<and> (v, queue_abs bus dev io st') = bus_read bus p (queue_abs bus dev io st))"
  by (rule minion.queue_read_law [OF assms])

text \<open>
  C4: \<open>queue_read_array\<close> of up to 254 words returns the values of that many direct reads
  of consecutive words, in order, and leaves the rest of the caller's array alone.
\<close>

theorem queue_read_array_refines:
  assumes "minion rd wr mem dev ok env io delay bus" and "queue_inv ok mem 254 st" and "0 < edcl_cnt st"
    and "0 < unat cnt" "unat cnt \<le> 254" "unat cnt \<le> length iobuf"
    and "0 < unat p" "unat p + 4 * unat cnt \<le> 2 ^ 64"
  shows "returns (queue_read_array junk (between env rd wr) p cnt iobuf st) (\<lambda>iobuf' st'.
    queue_inv ok mem 254 st' \<and> 0 < edcl_cnt st' \<and>
    (\<exists>vs. (vs, queue_abs bus dev io st') = bus_reads bus p (unat cnt) (queue_abs bus dev io st) \<and>
      iobuf' = vs @ drop (unat cnt) iobuf))"
  by (rule minion.queue_read_array_law [OF assms])

lemma queue_push_reads_cnt:
  "queue_push_reads p n st = Some st' \<Longrightarrow> edcl_cnt st' = edcl_cnt st + n \<and> length (edcl_trans st') = length (edcl_trans st)"
proof (induction n arbitrary: p st)
  case (Suc n)
  then obtain s where s: "queue_push \<lparr>t_mode = edcl_mode_read, t_ptr = p, t_val = 0xDEADBEEF\<rparr> st = Some s"
    and "queue_push_reads (p + 4) n s = Some st'" by (auto dest!: bind_SomeD)
  then have "edcl_cnt st' = edcl_cnt s + n \<and> length (edcl_trans st') = length (edcl_trans s)" using Suc.IH by blast
  with s show ?case by (auto simp: queue_push_def dest!: bind_SomeD put_at_SomeD)
qed simp

text \<open>
  A read of 256 words or more does not fit in \<open>edcl_trans\<close>, even after the flush that
  \<open>queue_read_array\<close> starts with: the call writes past the end of the array.
\<close>

theorem queue_read_array_overrun:
  assumes "minion rd wr mem dev ok env io delay bus" and inv: "queue_inv ok mem 254 st"
    and cnt: "256 \<le> unat cnt" "unat cnt < 2 ^ 31"
  shows "queue_read_array junk (between env rd wr) p cnt iobuf st = None"
proof -
  have c: "edcl_cnt st \<le> 254" using inv by (simp add: queue_inv_def)
  have small: "unat (of_nat (edcl_cnt st) + cnt) = edcl_cnt st + unat cnt"
    using c cnt by (simp add: unat_word_ariths unat_of_nat take_bit_nat_eq_self)
  then have "of_nat (edcl_cnt st) + cnt \<ge> of_nat edcl_max"
    using cnt by (simp add: word_le_nat_alt edcl_max_def)
  moreover obtain n st0 where "queue_flush junk (between env rd wr) st = Some (n, st0)"
    and st0: "edcl_cnt st0 = 1" "length (edcl_trans st0) = 257"
    using minion.flush_law [OF assms(1) queue_inv_mono [OF inv], of junk] by (auto simp: returns_iff)
  moreover have "(do { st \<leftarrow> queue_push_reads p (unat cnt) st0; (cnt2, st) \<leftarrow> queue_flush junk (between env rd wr) st; K cnt2 st }) = None" for K :: "nat \<Rightarrow> 'a queue \<Rightarrow> (u32 list \<times> 'a queue) option"
  proof (cases "queue_push_reads p (unat cnt) st0")
    case (Some s)
    with queue_push_reads_cnt [OF Some] st0 cnt(1) have "get_at (edcl_cnt s) (edcl_trans s) = None"
      by (simp add: get_at_def)
    with Some show ?thesis by (simp add: queue_flush_def Let_def)
  qed simp
  ultimately show ?thesis by (simp add: queue_read_array_def)
qed

section \<open>A minion on the demonstration device\<close>

definition demo_bus :: "(u64 \<Rightarrow> u32) bus" where
  "demo_bus = \<lparr>bus_read = (\<lambda>p x. (x p, x)), bus_write = (\<lambda>p v x. x(p := v))\<rparr>"

definition demo_serve :: "demo \<Rightarrow> demo" where
  "demo_serve w = (let sh = shared_of (d_mem w); (ts, x) = exec_batch demo_bus sh (d_dev w)
     in if ringing sh \<and> t_ptr (sh ! 0) \<noteq> 0
        then w\<lparr>d_mem := mem_store (d_mem w) 0 (array_bytes (clear_first ts)), d_dev := x\<rparr> else w)"

definition demo_env :: "demo edcl \<Rightarrow> demo edcl" where
  "demo_env st = st\<lparr>net := demo_serve (net st)\<rparr>"

lemma shared_of_store: "length ts = 257 \<Longrightarrow> shared_of (mem_store m 0 (array_bytes ts)) = ts"
proof -
  assume len: "length ts = 257"
  have "mem_load (mem_store m (of_nat 0) (array_bytes ts)) 0 4112 = overlay 0 (array_bytes ts) (mem_load m 0 4112)"
    by (rule mem_load_overlay) (use len in simp_all)
  then show ?thesis using len by (simp add: shared_of_def overlay_def bytes_array_bytes)
qed

interpretation demo_minion: minion "EdclService_read demo_ops" "EdclService_write demo_ops"
  "\<lambda>st. d_mem (net st)" "\<lambda>st. d_dev (net st)" edcl_ok demo_env "\<lambda>x. x" "\<lambda>x. 0" demo_bus
  by unfold_locales
    (auto simp: demo_env_def demo_serve_def edcl_ok_def edcl_bufs_def demo_bus_def shared_of_store Let_def case_prod_beta)

lemma demo_is_minion: "minion (EdclService_read demo_ops) (EdclService_write demo_ops)
  (\<lambda>st. d_mem (net st)) (\<lambda>st. d_dev (net st)) edcl_ok demo_env (\<lambda>x. x) (\<lambda>x. 0) demo_bus"
  by (rule demo_minion.minion_axioms)

lemma shared_of_nth: "k < 257 \<Longrightarrow> shared_of m ! k = bytes_etrans (mem_load m (of_nat (16 * k)) 16)"
proof -
  assume k: "k < 257"
  have "take 1 (drop k (shared_of m)) = bytes_array (mem_load m (of_nat (16 * k)) 16)"
    using array_split(1) [of "mem_load m 0 4112" 257 k 1] mem_load_part [of "16 * k" 16 4112 m] k
    by (simp add: shared_of_def)
  also have "\<dots> = [bytes_etrans (mem_load m (of_nat (16 * k)) 16)]"
    using bytes_array_Cons [of "mem_load m (of_nat (16 * k)) 16" "[]"] by simp
  finally show ?thesis using k by (simp add: take_Suc_conv_app_nth)
qed

definition demo_queue :: "demo edcl queue" where
  "demo_queue = \<lparr>edcl_trans = \<lparr>t_mode = 2, t_ptr = 0x700000, t_val = 3\<rparr> # replicate 256 \<lparr>t_mode = 0, t_ptr = 0, t_val = 0\<rparr>,
     edcl_cnt = 1, port = demo_state 5 9\<rparr>"

lemma demo_bus_simps: "bus_read demo_bus p x = (x p, x)" "bus_write demo_bus p v x = x(p := v)"
  by (simp_all add: demo_bus_def)

lemma demo_queue_simps:
  "queue_inv edcl_ok (\<lambda>st. d_mem (net st)) 254 demo_queue" "edcl_cnt demo_queue = 1"
  "queue_abs demo_bus (\<lambda>st. d_dev (net st)) (\<lambda>x. x) demo_queue = (\<lambda>p. 0)(0x700000 := 3)"
proof -
  have load: "mem_load ucast 4096 16 = map (\<lambda>i. of_nat i) [0..<16]"
    by (simp add: mem_load_def ucast_down_add ucast_down_of_nat)
  have "t_val (shared_of ucast ! 256) = 0x0F0E0D0C"
    by (simp add: shared_of_nth load bytes_etrans_def le32_def)
  then have ring: "\<not> ringing (shared_of ucast)" by (simp add: ringing_def)
  then show "queue_inv edcl_ok (\<lambda>st. d_mem (net st)) 254 demo_queue"
    by (simp add: queue_inv_def demo_queue_def demo_state_def edcl_ok_def edcl_bufs_def access_def edcl_mode_write_def)
  show "edcl_cnt demo_queue = 1" by (simp add: demo_queue_def)
  show "queue_abs demo_bus (\<lambda>st. d_dev (net st)) (\<lambda>x. x) demo_queue = (\<lambda>p. 0)(0x700000 := 3)"
    by (simp add: queue_abs_def demo_queue_def demo_state_def demo_bus_def edcl_mode_write_def edcl_mode_read_def)
qed

theorem queue_write_refines_witness:
  "returns (queue_write \<lparr>t_mode = 7, t_ptr = 7, t_val = 7\<rparr> (between demo_env (EdclService_read demo_ops) (EdclService_write demo_ops))
      0x600000 4 True demo_queue) (\<lambda>_ st'.
    queue_abs demo_bus (\<lambda>st. d_dev (net st)) (\<lambda>x. x) st' = (\<lambda>p. 0)(0x700000 := 3, 0x600000 := 4))"
proof -
  have "(0x600000 :: u64) \<noteq> 0" by simp
  from queue_write_refines [OF demo_is_minion demo_queue_simps(1) this] show ?thesis
    by (rule returns_mono) (simp add: demo_queue_simps demo_bus_simps)
qed

theorem queue_read_refines_witness:
  "returns (queue_read \<lparr>t_mode = 7, t_ptr = 7, t_val = 7\<rparr> (between demo_env (EdclService_read demo_ops) (EdclService_write demo_ops))
      0x700000 demo_queue) (\<lambda>v st'. v = 3)"
proof -
  have "(0x700000 :: u64) \<noteq> 0" by simp
  from queue_read_refines [OF demo_is_minion demo_queue_simps(1) this] show ?thesis
    by (rule returns_mono) (simp add: demo_queue_simps demo_bus_simps)
qed

theorem queue_read_array_refines_witness:
  "returns (queue_read_array \<lparr>t_mode = 7, t_ptr = 7, t_val = 7\<rparr> (between demo_env (EdclService_read demo_ops) (EdclService_write demo_ops))
      0x6FFFFC 2 [9, 9, 9] demo_queue) (\<lambda>buf st'. buf = [0, 3, 9])"
proof -
  have "bus_reads demo_bus p 2 x = ([x p, x (p + 4)], x)" for p x
    by (simp add: eval_nat_numeral demo_bus_simps)
  then show ?thesis
    by (intro returns_mono [OF queue_read_array_refines [OF demo_is_minion demo_queue_simps(1)]])
      (auto simp: demo_queue_simps)
qed

theorem queue_read_array_overrun_witness:
  "queue_read_array \<lparr>t_mode = 7, t_ptr = 7, t_val = 7\<rparr> (between demo_env (EdclService_read demo_ops) (EdclService_write demo_ops))
      0x700000 256 (replicate 300 0) demo_queue = None"
  by (rule queue_read_array_overrun [OF demo_is_minion demo_queue_simps(1)]) simp_all

section \<open>The program's own transports below the queue\<close>

lemma queue_init_inv:
  "ok w \<Longrightarrow> \<not> ringing (shared_of (mem w)) \<Longrightarrow> queue_inv ok mem 254 (queue_init w)"
  by (simp add: queue_inv_def queue_init_def)

text \<open>Once connected, \<open>edcl_read\<close> and \<open>edcl_write\<close> of \<open>minion_lib.c\<close> are the client's.\<close>

lemma link_remote_memory:
  assumes "remote_memory (client_read ops) (client_write ops) mem dev ok"
  shows "remote_memory (minion_edcl_read ops connect) (minion_edcl_write ops connect)
    (\<lambda>l. mem (l_net l)) (\<lambda>l. dev (l_net l)) (\<lambda>l. sfd l \<and> ok (l_net l))"
proof
  fix l :: "'a link" and n :: int and b :: bytes and a :: u64
  assume l: "sfd l \<and> ok (l_net l)" and n: "0 < n" "n \<le> 8192" "n \<le> int (length b)"
  from l have ok: "ok (l_net l)" by simp
  show "returns (minion_edcl_read ops connect a n b l) (\<lambda>(r, b') l'.
      b' = mem_load (mem (l_net l)) (ucast a) (nat n) @ drop (nat n) b \<and>
      mem (l_net l') = mem (l_net l) \<and> dev (l_net l') = dev (l_net l) \<and> sfd l' \<and> ok (l_net l'))"
    using remote_memory.rd_law [OF assms ok n, of a] l
    by (auto simp: minion_edcl_read_def link_open_def returns_iff)
  show "returns (minion_edcl_write ops connect a n b l) (\<lambda>r l'.
      mem (l_net l') = mem_store (mem (l_net l)) (ucast a) (take (nat n) b) \<and>
      dev (l_net l') = dev (l_net l) \<and> sfd l' \<and> ok (l_net l'))"
    using remote_memory.wr_law [OF assms ok n, of a] l
    by (auto simp: minion_edcl_write_def link_open_def returns_iff)
qed

interpretation demo_link: remote_memory
  "minion_edcl_read (wire_ops demo_backend) (\<lambda>w. w)" "minion_edcl_write (wire_ops demo_backend) (\<lambda>w. w)"
  "\<lambda>l. d_mem (net (w_srv (l_net l)))" "\<lambda>l. d_dev (net (w_srv (l_net l)))" "\<lambda>l. sfd l \<and> wire_ok edcl_ok (l_net l)"
  by (rule link_remote_memory [OF backend_demo.client.remote_memory_axioms])

end
