(* ===== verification/Sockets.thy ===== *)
theory Sockets
  imports Queue "HOL-Library.Signed_Division"
begin

unbundle bit_operations_syntax

text \<open>
  Setting up the sockets: the client (\<open>client.c\<close>) connects to, and the server
  (\<open>serve.c\<close>) binds, the first address of the resolver that works; the EDCL service
  (\<open>udp.cpp\<close>) binds the socket of one fixed address.  The calls of the operating system
  are parameters; what the code relies on is how they change the set of open descriptors.
\<close>

section \<open>Client and server\<close>

text \<open>
  The calls, with their results as C integers.  The third argument of \<open>getaddrinfo\<close> is the
  flag AI_PASSIVE; its list of addresses is \<open>result\<close> with the \<open>ai_next\<close> behind it.
\<close>

record ('a, 'w) sys_calls =
  getaddrinfo :: "string option \<Rightarrow> string \<Rightarrow> bool \<Rightarrow> 'w \<Rightarrow> (int \<times> 'a list) \<times> 'w"
  gai_strerror :: "int \<Rightarrow> string"
  socket :: "'a \<Rightarrow> 'w \<Rightarrow> int \<times> 'w"
  connect_fd :: "int \<Rightarrow> 'a \<Rightarrow> 'w \<Rightarrow> int \<times> 'w"
  bind_fd :: "int \<Rightarrow> 'a \<Rightarrow> 'w \<Rightarrow> int \<times> 'w"
  close_fd :: "int \<Rightarrow> 'w \<Rightarrow> 'w"
  freeaddrinfo :: "'a list \<Rightarrow> 'w \<Rightarrow> 'w"
  err_print :: "string \<Rightarrow> 'w \<Rightarrow> 'w"

text \<open>
  The loop over the addresses, the same in both programs but for the call \<open>use\<close> and the test
  \<open>good\<close> of its result: the descriptor, and whether the loop was left by \<open>break\<close>.
\<close>

fun try_addresses :: "('a, 'w) sys_calls \<Rightarrow> (int \<Rightarrow> 'a \<Rightarrow> 'w \<Rightarrow> int \<times> 'w) \<Rightarrow> (int \<Rightarrow> bool) \<Rightarrow> 'a list \<Rightarrow> int \<Rightarrow> 'w \<Rightarrow> (int \<times> bool) \<times> 'w" where
  "try_addresses os use good [] fd w = ((fd, False), w)"
| "try_addresses os use good (rp # rps) _ w =
     (let (fd, w) = socket os rp w in
      if fd = -1 then try_addresses os use good rps fd w
      else let (r, w) = use fd rp w in
        if good r then ((fd, True), w)
        else try_addresses os use good rps fd (close_fd os fd w))"

definition connect_first :: "('a, 'w) sys_calls \<Rightarrow> 'a list \<Rightarrow> int \<Rightarrow> 'w \<Rightarrow> (int \<times> bool) \<times> 'w" where
  "connect_first os = try_addresses os (connect_fd os) (\<lambda>r. r \<noteq> -1)"

definition bind_first :: "('a, 'w) sys_calls \<Rightarrow> 'a list \<Rightarrow> int \<Rightarrow> 'w \<Rightarrow> (int \<times> bool) \<times> 'w" where
  "bind_first os = try_addresses os (bind_fd os) (\<lambda>r. r = 0)"

definition EXIT_FAILURE :: int where
  "EXIT_FAILURE = 1"

abbreviation newline :: string where
  "newline \<equiv> [CHR 0x0A]"

text \<open>\<open>Inl\<close> is \<open>exit\<close> with that status, \<open>Inr\<close> the descriptor.\<close>

definition client_socket :: "('a, 'w) sys_calls \<Rightarrow> string \<Rightarrow> string \<Rightarrow> int \<Rightarrow> 'w \<Rightarrow> (int + int) \<times> 'w" where
  "client_socket os host service fd w =
     (let ((s, result), w) = getaddrinfo os (Some host) service False w in
      if s \<noteq> 0 then (Inl EXIT_FAILURE, err_print os (''getaddrinfo: '' @ gai_strerror os s @ newline) w)
      else
        let ((fd, found), w) = connect_first os result fd w in
        if \<not> found then (Inl EXIT_FAILURE, err_print os (''Could not connect'' @ newline) w)
        else (Inr fd, freeaddrinfo os result w))"

definition server_socket :: "('a, 'w) sys_calls \<Rightarrow> string list \<Rightarrow> int \<Rightarrow> 'w \<Rightarrow> (int + int) \<times> 'w" where
  "server_socket os argv fd w =
     (if length argv \<noteq> 2 then (Inl EXIT_FAILURE, err_print os (''Usage: '' @ concat (take 1 argv) @ '' port'' @ newline) w)
      else
        let ((s, result), w) = getaddrinfo os None (argv ! 1) True w in
        if s \<noteq> 0 then (Inl EXIT_FAILURE, err_print os (''getaddrinfo: '' @ gai_strerror os s @ newline) w)
        else
          let ((fd, found), w) = bind_first os result fd w in
          if \<not> found then (Inl EXIT_FAILURE, err_print os (''Could not bind'' @ newline) w)
          else (Inr fd, freeaddrinfo os result w))"

text \<open>\<open>client_main\<close> from its start: the socket, then the requests sent over it.\<close>

definition client_session :: "('a, 'w) sys_calls \<Rightarrow> (int \<Rightarrow> 'w sock_ops) \<Rightarrow> string \<Rightarrow> string \<Rightarrow> int \<Rightarrow> 'w \<Rightarrow> ((int + int) \<times> 'w) option" where
  "client_session os sk host service fd w =
     (case client_socket os host service fd w of
        (Inl s, w) \<Rightarrow> Some (Inl s, w)
      | (Inr fd, w) \<Rightarrow> do { w \<leftarrow> client_main (sk fd) (\<lambda>w. w) w; Some (Inr fd, w) })"

text \<open>The text \<open>dump\<close> prints: a byte per column, 16 in a row.\<close>

definition print_hex :: "nat \<Rightarrow> nat \<Rightarrow> bytes" where
  "print_hex width v = (let ds = hex_digits False v in replicate (width - length ds) 48 @ ds)"

definition dump :: "int \<Rightarrow> bytes \<Rightarrow> bytes option" where
  "dump nread buf =
     (if nread > int (length buf) then None
      else Some (concat (map (\<lambda>i. (if i AND 15 = 0 then [10] @ print_hex 3 i @ [58] else []) @ [32] @ print_hex 2 (unat (buf ! i)))
        [0..<nat nread]) @ [10]))"

section \<open>The socket of the EDCL service\<close>

text \<open>
  The calls of \<open>udp.cpp\<close> on a system that is not Windows; \<open>u_getsockname\<close> gives
  \<open>sin_port\<close> in host order.
\<close>

record 'w udp_calls =
  u_gethostname :: "'w \<Rightarrow> int \<times> 'w"
  u_socket :: "'w \<Rightarrow> int \<times> 'w"
  u_bind :: "int \<Rightarrow> string \<Rightarrow> 'w \<Rightarrow> int \<times> 'w"
  u_getsockname :: "int \<Rightarrow> 'w \<Rightarrow> u16 \<times> 'w"
  u_rcvtimeo :: "int \<Rightarrow> int \<Rightarrow> int \<Rightarrow> 'w \<Rightarrow> 'w"
  u_getfl :: "int \<Rightarrow> 'w \<Rightarrow> int \<times> 'w"
  u_setfl :: "int \<Rightarrow> int \<Rightarrow> 'w \<Rightarrow> int \<times> 'w"
  u_shutdown :: "int \<Rightarrow> 'w \<Rightarrow> 'w"
  u_close :: "int \<Rightarrow> 'w \<Rightarrow> 'w"
  u_print :: "string \<Rightarrow> 'w \<Rightarrow> 'w"

record udp =
  hsock :: int
  timeout :: int
  blockmode :: bool
  ipv4_port :: u16

definition hostIP :: string where "hostIP = ''192.168.0.53''"

definition O_NONBLOCK :: int where "O_NONBLOCK = 2048"

text \<open>The statics before the constructor: the descriptor is 0.\<close>

definition udp_static :: udp where
  "udp_static = \<lparr>hsock = 0, timeout = 0, blockmode = False, ipv4_port = 0\<rparr>"

definition UdpService_UdpService :: "udp \<Rightarrow> udp" where
  "UdpService_UdpService u = u\<lparr>timeout := 0, blockmode := True\<rparr>"

definition UdpService_createDatagramSocket :: "'w udp_calls \<Rightarrow> udp \<Rightarrow> 'w \<Rightarrow> int \<times> udp \<times> 'w" where
  "UdpService_createDatagramSocket uc u w =
     (let (r, w) = u_gethostname uc w in
      if r < 0 then (-1, u, w)
      else
        let (h, w) = u_socket uc w; u = u\<lparr>hsock := h\<rparr> in
        if h < 0 then (-1, u, u_print uc ''Fatal error: socket(PF_INET, SOCK_DGRAM, IPPROTO_UDP)'' w)
        else
          let (res, w) = u_bind uc h hostIP w in
          if res \<noteq> 0 then (-1, u, u_print uc (''Fatal error: bind(hsock_, '' @ [CHR 0x22] @ hostIP @ [CHR 0x22] @ '', ...)'') w)
          else let (service, w) = u_getsockname uc h w in (0, u\<lparr>ipv4_port := service\<rparr>, w))"

definition UdpService_setBlockingMode :: "'w udp_calls \<Rightarrow> int \<Rightarrow> bool \<Rightarrow> udp \<Rightarrow> 'w \<Rightarrow> bool \<times> udp \<times> 'w" where
  "UdpService_setBlockingMode uc h mode u w =
     (let (flags, w) = u_getfl uc h w in
      if flags < 0 then (False, u, w)
      else
        let flags = (if mode then flags AND NOT O_NONBLOCK else flags OR O_NONBLOCK); (ret, w) = u_setfl uc h flags w in
        if ret = 0 then (True, u\<lparr>blockmode := mode\<rparr>, w) else (False, u, w))"

definition UdpService_postinitService :: "'w udp_calls \<Rightarrow> udp \<Rightarrow> 'w \<Rightarrow> udp \<times> 'w" where
  "UdpService_postinitService uc u w =
     (let (_, u, w) = UdpService_createDatagramSocket uc u w;
          w = (if timeout u \<noteq> 0 then u_rcvtimeo uc (hsock u) (timeout u sdiv 1000) ((timeout u smod 1000) * 1000) w else w)
      in if \<not> blockmode u then (let (_, u, w) = UdpService_setBlockingMode uc (hsock u) False u w in (u, w)) else (u, w))"

definition UdpService_closeDatagramSocket :: "'w udp_calls \<Rightarrow> udp \<Rightarrow> 'w \<Rightarrow> udp \<times> 'w" where
  "UdpService_closeDatagramSocket uc u w =
     (if hsock u < 0 then (u, w) else (u\<lparr>hsock := -1\<rparr>, u_close uc (hsock u) (u_shutdown uc (hsock u) w)))"

section \<open>Open descriptors\<close>

text \<open>
  What the system promises: \<open>socket\<close> opens a descriptor that was not open, \<open>close\<close>
  closes one, and no other call changes the set of open descriptors.
\<close>

definition opens :: "('w \<Rightarrow> int set) \<Rightarrow> 'w \<Rightarrow> int \<Rightarrow> 'w \<Rightarrow> bool" where
  "opens fds w fd w' \<longleftrightarrow> (if fd < 0 then fd = -1 \<and> fds w' = fds w else fd \<notin> fds w \<and> fds w' = insert fd (fds w))"

definition descriptors :: "('a, 'w) sys_calls \<Rightarrow> ('w \<Rightarrow> int set) \<Rightarrow> bool" where
  "descriptors os fds \<longleftrightarrow>
     (\<forall>a w. opens fds w (fst (socket os a w)) (snd (socket os a w))) \<and>
     (\<forall>fd w. fds (close_fd os fd w) = fds w - {fd}) \<and>
     (\<forall>host service p w. fds (snd (getaddrinfo os host service p w)) = fds w) \<and>
     (\<forall>fd a w. fds (snd (connect_fd os fd a w)) = fds w) \<and> (\<forall>fd a w. fds (snd (bind_fd os fd a w)) = fds w) \<and>
     (\<forall>as w. fds (freeaddrinfo os as w) = fds w) \<and> (\<forall>t w. fds (err_print os t w) = fds w)"

definition udp_descriptors :: "'w udp_calls \<Rightarrow> ('w \<Rightarrow> int set) \<Rightarrow> bool" where
  "udp_descriptors uc fds \<longleftrightarrow>
     (\<forall>w. opens fds w (fst (u_socket uc w)) (snd (u_socket uc w))) \<and> (\<forall>fd w. fds (u_close uc fd w) = fds w - {fd}) \<and>
     (\<forall>w. fds (snd (u_gethostname uc w)) = fds w) \<and> (\<forall>fd ip w. fds (snd (u_bind uc fd ip w)) = fds w) \<and>
     (\<forall>fd w. fds (snd (u_getsockname uc fd w)) = fds w) \<and> (\<forall>fd s us w. fds (u_rcvtimeo uc fd s us w) = fds w) \<and>
     (\<forall>fd w. fds (snd (u_getfl uc fd w)) = fds w) \<and> (\<forall>fd fl w. fds (snd (u_setfl uc fd fl w)) = fds w) \<and>
     (\<forall>fd w. fds (u_shutdown uc fd w) = fds w) \<and> (\<forall>t w. fds (u_print uc t w) = fds w)"

text \<open>What the loop leaves: one new descriptor, for an address that worked, or none.\<close>

definition attempts :: "('w \<Rightarrow> int set) \<Rightarrow> ('a, 'w) sys_calls \<Rightarrow> (int \<Rightarrow> 'a \<Rightarrow> 'w \<Rightarrow> int \<times> 'w) \<Rightarrow> (int \<Rightarrow> bool) \<Rightarrow>
    'a list \<Rightarrow> 'w \<Rightarrow> (int \<times> bool) \<times> 'w \<Rightarrow> bool" where
  "attempts fds os use good as w = (\<lambda>((fd, found), w').
     if found then 0 \<le> fd \<and> fd \<notin> fds w \<and> fds w' = insert fd (fds w) \<and> (\<exists>a \<in> set as. \<exists>v. good (fst (use fd a v)))
     else fds w' = fds w \<and> (\<forall>a \<in> set as. \<exists>v. fst (socket os a v) = -1 \<or> (\<exists>fd. \<not> good (fst (use fd a v)))))"

lemma try_addresses_law:
  assumes d: "descriptors os fds" and u: "\<And>fd a w. fds (snd (use fd a w)) = fds w"
  shows "attempts fds os use good as w (try_addresses os use good as fd0 w)"
proof (induction as arbitrary: fd0 w)
  case Nil
  then show ?case by (simp add: attempts_def)
next
  case (Cons a as)
  obtain fd w1 where s: "socket os a w = (fd, w1)" by (cases "socket os a w")
  obtain r w2 where c: "use fd a w1 = (r, w2)" by (cases "use fd a w1")
  have "opens fds w (fst (socket os a w)) (snd (socket os a w))" using d by (simp add: descriptors_def)
  then have o: "opens fds w fd w1" using s by simp
  have same: "fds w2 = fds w1" using u [of fd a w1] c by simp
  have cl: "fds (close_fd os fd w2) = fds w2 - {fd}" using d by (simp add: descriptors_def)
  have f: "\<exists>v. fst (socket os a v) = fd" "\<exists>v. fst (use fd a v) = r"
  proof -
    show "\<exists>v. fst (socket os a v) = fd" by (rule exI [of _ w]) (simp add: s)
    show "\<exists>v. fst (use fd a v) = r" by (rule exI [of _ w1]) (simp add: c)
  qed
  have "fd = -1 \<or> 0 \<le> fd" using o by (simp add: opens_def linorder_not_less split: if_split_asm)
  then consider "fd = -1" | "0 \<le> fd" "good r" | "0 \<le> fd" "\<not> good r" by blast
  then show ?case
  proof cases
    case 1
    then show ?thesis using Cons.IH [of w1 fd] s o f(1) by (auto simp: attempts_def opens_def split: prod.splits if_splits)
  next
    case 2
    then show ?thesis using s c o same f(2) by (auto simp: attempts_def opens_def)
  next
    case 3
    then show ?thesis
      using Cons.IH [of "close_fd os fd w2" fd] s c o same cl f(2)
      by (auto simp: attempts_def opens_def split: prod.splits if_splits)
  qed
qed

lemma socket_loops:
  assumes "descriptors os fds"
  shows "attempts fds os (connect_fd os) (\<lambda>r. r \<noteq> -1) as w (connect_first os as fd w)"
    and "attempts fds os (bind_fd os) (\<lambda>r. r = 0) as w (bind_first os as fd w)"
  unfolding connect_first_def bind_first_def
  by (rule try_addresses_law; use assms in \<open>auto simp: descriptors_def\<close>)+

section \<open>Properties\<close>

text \<open>
  C29: No descriptor is lost.  Whatever the resolver and the addresses do, the client and the server
  either go on with exactly one more open descriptor than before, on which \<open>connect\<close> or
  \<open>bind\<close> has succeeded, or leave with EXIT_FAILURE and every descriptor they opened closed
  again; and they leave only when the resolver failed or every address did (or, for the server,
  when it is not called with one argument).
\<close>

theorem sockets_not_lost:
  assumes "descriptors os fds"
  shows "(case client_socket os host service fd0 w of
      (Inr fd, w') \<Rightarrow> 0 \<le> fd \<and> fd \<notin> fds w \<and> fds w' = insert fd (fds w) \<and> (\<exists>a v. fst (connect_fd os fd a v) \<noteq> -1)
    | (Inl s, w') \<Rightarrow> s = EXIT_FAILURE \<and> fds w' = fds w \<and> (case fst (getaddrinfo os (Some host) service False w) of (r, as) \<Rightarrow>
        r = 0 \<longrightarrow> (\<forall>a \<in> set as. \<exists>v. fst (socket os a v) = -1 \<or> (\<exists>fd. fst (connect_fd os fd a v) = -1)))) \<and>
    (case server_socket os argv fd0 w of
      (Inr fd, w') \<Rightarrow> 0 \<le> fd \<and> fd \<notin> fds w \<and> fds w' = insert fd (fds w) \<and> (\<exists>a v. fst (bind_fd os fd a v) = 0)
    | (Inl s, w') \<Rightarrow> s = EXIT_FAILURE \<and> fds w' = fds w \<and> (case fst (getaddrinfo os None (argv ! 1) True w) of (r, as) \<Rightarrow>
        length argv = 2 \<longrightarrow> r = 0 \<longrightarrow> (\<forall>a \<in> set as. \<exists>v. fst (socket os a v) = -1 \<or> (\<exists>fd. fst (bind_fd os fd a v) \<noteq> 0))))"
proof (rule conjI)
  have k: "fds (err_print os t v) = fds v" "fds (freeaddrinfo os as v) = fds v" "fds (snd (getaddrinfo os h p b v)) = fds v" for t v as h p b
    using assms by (simp_all add: descriptors_def)
  obtain r as w1 where g: "getaddrinfo os (Some host) service False w = ((r, as), w1)" by (metis surj_pair)
  obtain fd found w2 where c: "connect_first os as fd0 w1 = ((fd, found), w2)" by (metis surj_pair)
  have w1: "fds w1 = fds w" using k(3) [of "Some host" service False w] g by simp
  show "case client_socket os host service fd0 w of
      (Inr fd, w') \<Rightarrow> 0 \<le> fd \<and> fd \<notin> fds w \<and> fds w' = insert fd (fds w) \<and> (\<exists>a v. fst (connect_fd os fd a v) \<noteq> -1)
    | (Inl s, w') \<Rightarrow> s = EXIT_FAILURE \<and> fds w' = fds w \<and> (case fst (getaddrinfo os (Some host) service False w) of (r, as) \<Rightarrow>
        r = 0 \<longrightarrow> (\<forall>a \<in> set as. \<exists>v. fst (socket os a v) = -1 \<or> (\<exists>fd. fst (connect_fd os fd a v) = -1)))"
    using socket_loops(1) [OF assms, of as w1 fd0] g c w1 k(1,2) by (auto simp: client_socket_def attempts_def split: if_splits)
  obtain r' bs w3 where g': "getaddrinfo os None (argv ! 1) True w = ((r', bs), w3)" by (metis surj_pair)
  obtain fd' found' w4 where c': "bind_first os bs fd0 w3 = ((fd', found'), w4)" by (metis surj_pair)
  have w3: "fds w3 = fds w" using k(3) [of None "argv ! 1" True w] g' by simp
  show "case server_socket os argv fd0 w of
      (Inr fd, w') \<Rightarrow> 0 \<le> fd \<and> fd \<notin> fds w \<and> fds w' = insert fd (fds w) \<and> (\<exists>a v. fst (bind_fd os fd a v) = 0)
    | (Inl s, w') \<Rightarrow> s = EXIT_FAILURE \<and> fds w' = fds w \<and> (case fst (getaddrinfo os None (argv ! 1) True w) of (r, as) \<Rightarrow>
        length argv = 2 \<longrightarrow> r = 0 \<longrightarrow> (\<forall>a \<in> set as. \<exists>v. fst (socket os a v) = -1 \<or> (\<exists>fd. fst (bind_fd os fd a v) \<noteq> 0)))"
    using socket_loops(2) [OF assms, of bs w3 fd0] g' c' w3 k(1,2) by (auto simp: server_socket_def attempts_def split: if_splits)
qed

text \<open>The theorem where the first address has no socket, the second cannot be connected, and the third works.\<close>

definition demo_sys :: "(nat, int set \<times> int) sys_calls" where
  "demo_sys = \<lparr>getaddrinfo = (\<lambda>_ _ _ w. ((0, [0, 1, 2]), w)), gai_strerror = (\<lambda>_. []),
     socket = (\<lambda>a (S, n). if a = 0 \<or> n < 0 \<or> n \<in> S then (-1, (S, n)) else (n, (insert n S, n + 1))),
     connect_fd = (\<lambda>_ a w. (if a = 1 then -1 else 0, w)), bind_fd = (\<lambda>_ a w. (if a = 1 then -1 else 0, w)),
     close_fd = (\<lambda>fd (S, n). (S - {fd}, n)), freeaddrinfo = (\<lambda>_ w. w), err_print = (\<lambda>_ w. w)\<rparr>"

lemma demo_sys_descriptors: "descriptors demo_sys fst"
  by (auto simp: descriptors_def demo_sys_def opens_def)

theorem sockets_not_lost_witness:
  "\<exists>w'. client_socket demo_sys ''localhost'' ''1234'' 0 ({0, 1, 2}, 3) = (Inr 4, w') \<and> fst w' = {0, 1, 2, 4}"
proof -
  have "\<exists>w'. client_socket demo_sys ''localhost'' ''1234'' 0 ({0, 1, 2}, 3) = (Inr 4, w')"
    by (simp add: client_socket_def connect_first_def demo_sys_def)
  then obtain w' where w: "client_socket demo_sys ''localhost'' ''1234'' 0 ({0, 1, 2}, 3) = (Inr 4, w')" by blast
  have "fst w' = insert 4 {0, 1, 2}"
    using sockets_not_lost [OF demo_sys_descriptors, where host = "''localhost''" and service = "''1234''" and ?fd0.0 = 0 and w = "({0, 1, 2}, 3)"] w by simp
  then show ?thesis using w by auto
qed

text \<open>
  The socket of the EDCL service.  After the service was set up and its socket closed again, every
  descriptor opened is closed, also when the set-up failed half way, and closing again does
  nothing.  When not even the host name could be read, no socket was opened, but
  \<open>hsock_\<close> still has its static value 0, so that standard input is closed instead.
\<close>

theorem udp_socket_closed:
  assumes "udp_descriptors uc fds"
  shows "case UdpService_postinitService uc (UdpService_UdpService u) w of (u1, w1) \<Rightarrow>
    case UdpService_closeDatagramSocket uc u1 w1 of (u2, w2) \<Rightarrow> hsock u2 < 0 \<and>
      fds w2 = (if fst (u_gethostname uc w) < 0 \<and> 0 \<le> hsock u then fds w - {hsock u} else fds w) \<and>
      UdpService_closeDatagramSocket uc u2 w2 = (u2, w2)"
proof -
  obtain r w1 where h: "u_gethostname uc w = (r, w1)" by (metis surj_pair)
  obtain fd w2 where s: "u_socket uc w1 = (fd, w2)" by (metis surj_pair)
  obtain b w3 where b: "u_bind uc fd hostIP w2 = (b, w3)" by (metis surj_pair)
  obtain p w4 where n: "u_getsockname uc fd w3 = (p, w4)" by (metis surj_pair)
  have "opens fds w1 (fst (u_socket uc w1)) (snd (u_socket uc w1))" "fds (snd (u_gethostname uc w)) = fds w"
      "fds (snd (u_bind uc fd hostIP w2)) = fds w2" "fds (snd (u_getsockname uc fd w3)) = fds w3"
    using assms by (simp_all add: udp_descriptors_def)
  then have d: "opens fds w1 fd w2" "fds w1 = fds w" "fds w3 = fds w2" "fds w4 = fds w3" using h s b n by simp_all
  have k: "fds (u_print uc t v) = fds v" "fds (u_close uc x v) = fds v - {x}" "fds (u_shutdown uc x v) = fds v" for t v x
    using assms by (simp_all add: udp_descriptors_def)
  show ?thesis
    using h s b n d k
    by (auto simp: UdpService_postinitService_def UdpService_UdpService_def UdpService_createDatagramSocket_def
        UdpService_closeDatagramSocket_def Let_def opens_def split: if_splits)
qed

text \<open>The theorem on a system that gives out descriptor 3 but cannot bind it.\<close>

definition demo_udp :: "int set udp_calls" where
  "demo_udp = \<lparr>u_gethostname = (\<lambda>w. (0, w)), u_socket = (\<lambda>S. if 3 \<in> S then (-1, S) else (3, insert 3 S)),
     u_bind = (\<lambda>_ _ w. (-1, w)), u_getsockname = (\<lambda>_ w. (0, w)), u_rcvtimeo = (\<lambda>_ _ _ w. w), u_getfl = (\<lambda>_ w. (0, w)),
     u_setfl = (\<lambda>_ _ w. (0, w)), u_shutdown = (\<lambda>_ w. w), u_close = (\<lambda>fd S. S - {fd}), u_print = (\<lambda>_ w. w)\<rparr>"

theorem udp_socket_closed_witness:
  "case UdpService_postinitService demo_udp (UdpService_UdpService udp_static) {0, 1, 2} of (u1, w1) \<Rightarrow>
    snd (UdpService_closeDatagramSocket demo_udp u1 w1) = {0, 1, 2}"
proof -
  have "udp_descriptors demo_udp (\<lambda>S. S)" by (auto simp: udp_descriptors_def demo_udp_def opens_def)
  moreover have "\<not> fst (u_gethostname demo_udp {0, 1, 2}) < 0" by (simp add: demo_udp_def)
  ultimately show ?thesis
    using udp_socket_closed [where uc = demo_udp and fds = "\<lambda>S. S" and u = udp_static and w = "{0, 1, 2}"] by (auto split: prod.splits)
qed

end
