(* ===== verification/Server.thy ===== *)
theory Server
  imports Sockets
begin

text \<open>
  The server as it is linked: the requests of \<open>serve.c\<close> on the command queue of
  \<open>queue.c\<close> over the EDCL service of \<open>edcl.cpp\<close>.  A request of the client acts on the bus
  of the device as a direct access would.
\<close>

section \<open>The command queue over the EDCL service\<close>

text \<open>
  \<open>queue.c\<close> is \<open>minion_lib.c\<close> with \<open>EdclService_read\<close> and \<open>EdclService_write\<close> below
  \<open>edcl_read\<close> and \<open>edcl_write\<close>.  \<open>env\<close> is what the device does between two transfers;
  with the identity for it the port is \<open>queue_port\<close>.
\<close>

definition service_port :: "('w edcl \<Rightarrow> 'w edcl) \<Rightarrow> 'w netops \<Rightarrow> 'w edcl port_ops" where
  "service_port env ops = between env (EdclService_read ops) (EdclService_write ops)"

lemma service_port_quiet: "service_port (\<lambda>w. w) ops = queue_port ops"
  by (simp add: service_port_def queue_port_def between_def)

definition srv_shared_read where "srv_shared_read env ops = shared_read (service_port env ops)"
definition srv_shared_write where "srv_shared_write env ops = shared_write (service_port env ops)"
definition srv_queue_flush where "srv_queue_flush env ops junk = queue_flush junk (service_port env ops)"
definition srv_queue_write where "srv_queue_write env ops junk = queue_write junk (service_port env ops)"
definition srv_queue_read where "srv_queue_read env ops junk = queue_read junk (service_port env ops)"
definition srv_queue_read_array where "srv_queue_read_array env ops junk = queue_read_array junk (service_port env ops)"
definition srv_queue_block_read1 where "srv_queue_block_read1 env ops junk = queue_block_read1 junk (service_port env ops)"
definition srv_edcl_bootstrap where "srv_edcl_bootstrap env ops junk = edcl_bootstrap junk (service_port env ops)"
definition srv_write_led where "srv_write_led env ops junk = write_led junk (service_port env ops)"

section \<open>The server\<close>

text \<open>
  The functions \<open>serve.c\<close> calls.  \<open>queue_flush_cond\<close>, \<open>log_edcl_write\<close> and
  \<open>log_edcl_read\<close> are not in the repository: they stay parameters.
\<close>

definition server_ops ::
  "('w edcl \<Rightarrow> 'w edcl) \<Rightarrow> 'w netops \<Rightarrow> etrans \<Rightarrow> ('w edcl queue \<Rightarrow> 'w edcl queue option) \<Rightarrow>
   (u64 \<Rightarrow> int \<Rightarrow> bytes \<Rightarrow> 'w edcl queue \<Rightarrow> 'w edcl queue option) \<Rightarrow>
   (u64 \<Rightarrow> int \<Rightarrow> bytes \<Rightarrow> 'w edcl queue \<Rightarrow> (bytes \<times> 'w edcl queue) option) \<Rightarrow> 'w edcl queue serve_ops" where
  "server_ops env ops junk queue_flush_cond log_edcl_write log_edcl_read =
     \<lparr>sv_flush_cond = queue_flush_cond, sv_edcl_write = log_edcl_write, sv_edcl_read = log_edcl_read,
      sv_queue_write = (\<lambda>base data flush st. map_option snd (srv_queue_write env ops junk base data (flush \<noteq> 0) st)),
      sv_queue_read = srv_queue_read env ops junk\<rparr>"

text \<open>\<open>main\<close>: the socket, then the loop over the datagrams that arrive: the replies, or the exit status.\<close>

definition serve_main ::
  "('a, 'n) sys_calls \<Rightarrow> 'q serve_ops \<Rightarrow> string list \<Rightarrow> int \<Rightarrow> (bool \<times> bytes option) list \<Rightarrow> 'n \<Rightarrow> 'q \<Rightarrow> ((int + bytes list) \<times> 'n \<times> 'q) option" where
  "serve_main os sv argv fd arriving w q =
     (case server_socket os argv fd w of
        (Inl s, w) \<Rightarrow> Some (Inl s, w, q)
      | (Inr fd, w) \<Rightarrow> do {
          q \<leftarrow> sv_flush_cond sv q;
          (replies, q) \<leftarrow> serve_run sv arriving q;
          Some (Inr replies, w, q) })"

section \<open>Properties\<close>

text \<open>
  C24: A register written and read from the client.  The text request of \<open>simple_write\<close>,
  followed by that of \<open>simple_read\<close>, goes through the parser of the server, the command queue
  and the EDCL packets, and acts on the bus of the device as a direct write followed by a direct
  read: the value \<open>simple_read\<close> returns is the one the direct read would give, and the
  queue stays in order.  The acknowledgement of the write is not taken for the answer.
\<close>

theorem request_reaches_bus:
  assumes "minion (EdclService_read ops) (EdclService_write ops) mem dev ok env io delay bus"
    and "queue_inv ok mem 254 (w_srv w)" and "p \<noteq> 0" and "unat p < 2 ^ 60" and "w_inbox w = replicate k []"
  shows "returns (do {
      w \<leftarrow> simple_write (wire_ops (server_ops env ops junk fc lw lr)) p v w;
      simple_read (wire_ops (server_ops env ops junk fc lw lr)) p w })
    (\<lambda>r w'. queue_inv ok mem 254 (w_srv w') \<and> w_inbox w' = [] \<and>
       (r, queue_abs bus dev io (w_srv w')) = bus_read bus p (bus_write bus p v (queue_abs bus dev io (w_srv w))))"
proof -
  let ?sv = "server_ops env ops junk fc lw lr"
  obtain q1 where q1: "sv_queue_write ?sv p v 1 (w_srv w) = Some q1" "queue_inv ok mem 254 q1"
      "queue_abs bus dev io q1 = bus_write bus p v (queue_abs bus dev io (w_srv w))"
    using minion.queue_write_law [OF assms(1-3), of junk v True]
    by (auto simp: returns_iff server_ops_def srv_queue_write_def service_port_def)
  let ?w = "w\<lparr>w_srv := q1, w_inbox := w_inbox w @ [[]]\<rparr>"
  have w: "simple_write (wire_ops ?sv) p v w = Some ?w"
    by (rule simple_write_served [OF assms(3,4) q1(1)])
  obtain r q2 where q2: "sv_queue_read ?sv p q1 = Some (r, q2)" "queue_inv ok mem 254 q2"
      "(r, queue_abs bus dev io q2) = bus_read bus p (queue_abs bus dev io q1)"
    using minion.queue_read_law [OF assms(1) q1(2) assms(3), of junk]
    by (auto simp: returns_iff server_ops_def srv_queue_read_def service_port_def)
  have "w_inbox ?w = replicate (Suc k) []" using assms(5) by (simp add: replicate_append_same)
  then have "simple_read (wire_ops ?sv) p ?w = Some (r, \<lparr>w_srv = q2, w_inbox = []\<rparr>)"
    using simple_read_served [OF assms(3), of ?sv ?w r q2 "Suc k"] q2(1) by simp
  then show ?thesis using w q1 q2 by simp
qed

theorem request_reaches_bus_witness:
  "returns (do {
      w \<leftarrow> simple_write (wire_ops (server_ops demo_env demo_ops \<lparr>t_mode = 7, t_ptr = 7, t_val = 7\<rparr> Some (\<lambda>_ _ _. Some) (\<lambda>_ _ b q. Some (b, q))))
        0x600000 4 \<lparr>w_srv = demo_queue, w_inbox = []\<rparr>;
      simple_read (wire_ops (server_ops demo_env demo_ops \<lparr>t_mode = 7, t_ptr = 7, t_val = 7\<rparr> Some (\<lambda>_ _ _. Some) (\<lambda>_ _ b q. Some (b, q)))) 0x600000 w })
    (\<lambda>r w'. r = 4)"
proof -
  have p: "(0x600000 :: u64) \<noteq> 0" "unat (0x600000 :: u64) < 2 ^ 60" by simp_all
  show ?thesis
    by (rule returns_mono [OF request_reaches_bus [OF demo_is_minion _ p, of "\<lparr>w_srv = demo_queue, w_inbox = []\<rparr>" 0]])
      (simp_all add: demo_queue_simps demo_bus_simps)
qed

end
