(* ===== verification/Sdhost.thy ===== *)
theory Sdhost
  imports Queue
begin

text \<open>
  The SD host controller of \<open>minion_helper.c\<close>: an SDHCI register file kept in globals, in
  front of the command, setting, reset and FIFO registers of the minion's SD port, which
  are reached through the command queue. What the functions print is not modelled.
\<close>

section \<open>State\<close>

text \<open>The queue calls, over a queue state of type \<open>'q\<close>.\<close>

record 'q queue_ops =
  q_write :: "u64 \<Rightarrow> u32 \<Rightarrow> bool \<Rightarrow> 'q \<Rightarrow> (unit \<times> 'q) option"
  q_read :: "u64 \<Rightarrow> 'q \<Rightarrow> (u32 \<times> 'q) option"
  q_read_array :: "u64 \<Rightarrow> u32 \<Rightarrow> u32 list \<Rightarrow> 'q \<Rightarrow> (u32 list \<times> 'q) option"
  q_block_read1 :: "u32 list \<Rightarrow> int \<Rightarrow> 'q \<Rightarrow> ((int \<times> u32 list) \<times> 'q) option"
  q_flush :: "'q \<Rightarrow> (nat \<times> 'q) option"

definition minion_queue :: "etrans \<Rightarrow> 'w port_ops \<Rightarrow> 'w queue queue_ops" where
  "minion_queue junk ops = \<lparr>q_write = queue_write junk ops, q_read = queue_read junk ops,
     q_read_array = queue_read_array junk ops, q_block_read1 = queue_block_read1 junk ops,
     q_flush = queue_flush junk ops\<rparr>"

text \<open>
  The globals \<open>sdhci_*\<close>, \<open>card_status\<close> (32 words), \<open>minion_iobuf\<close> (2048 bytes) and the
  counters of \<open>sd_transaction_finish2\<close>.
\<close>

record 'q sdhost =
  sdhci_host_control :: u32
  sdhci_power_control :: u32
  sdhci_block_gap :: u32
  sdhci_wake_up :: u32
  sdhci_timeout_control :: u32
  sdhci_software_reset :: u32
  sdhci_clock_div :: u32
  sdhci_int_status :: u32
  sdhci_int_enable :: u32
  sdhci_signal_enable :: u32
  sdhci_present_state :: u32
  sdhci_max_current :: u32
  sdhci_set_acmd12_error :: u32
  sdhci_acmd12_err :: u32
  sdhci_set_int :: u32
  sdhci_slot_int_status :: u32
  sdhci_host_version :: u32
  sdhci_transfer_mode :: u32
  sdhci_dma_address :: u32
  sdhci_block_count :: u32
  sdhci_block_size :: u32
  sdhci_command :: u32
  sdhci_argument :: u32
  sdhci_host_control2 :: u32
  card_status :: "u32 list"
  minion_iobuf :: bytes
  good :: u32
  bad :: u32
  sd_queue :: 'q

definition with_queue :: "('q \<Rightarrow> ('a \<times> 'q) option) \<Rightarrow> 'q sdhost \<Rightarrow> ('a \<times> 'q sdhost) option" where
  "with_queue f st = do { (r, q) \<leftarrow> f (sd_queue st); Some (r, st\<lparr>sd_queue := q\<rparr>) }"

section \<open>Registers of the SD port\<close>

definition tx_write_fifo :: "'q queue_ops \<Rightarrow> u32 \<Rightarrow> 'q sdhost \<Rightarrow> (unit \<times> 'q sdhost) option" where
  "tx_write_fifo qo data = with_queue (q_write qo txfifo_base data True)"

definition rx_write_fifo :: "'q queue_ops \<Rightarrow> u32 \<Rightarrow> 'q sdhost \<Rightarrow> (unit \<times> 'q sdhost) option" where
  "rx_write_fifo qo data = with_queue (q_write qo rxfifo_base data False)"

definition rx_read_fifo :: "'q queue_ops \<Rightarrow> 'q sdhost \<Rightarrow> (u32 \<times> 'q sdhost) option" where
  "rx_read_fifo qo = with_queue (q_read qo rxfifo_base)"

definition sd_resp :: "'q queue_ops \<Rightarrow> nat \<Rightarrow> 'q sdhost \<Rightarrow> (u32 \<times> 'q sdhost) option" where
  "sd_resp qo sel = with_queue (q_read qo (sd_base + 4 * of_nat sel))"

definition sd_reg :: "'q queue_ops \<Rightarrow> nat \<Rightarrow> u32 \<Rightarrow> bool \<Rightarrow> 'q sdhost \<Rightarrow> (unit \<times> 'q sdhost) option" where
  "sd_reg qo r v flush = with_queue (q_write qo (sd_base + 4 * of_nat r) v flush)"

definition sd_align :: "'q queue_ops \<Rightarrow> u32 \<Rightarrow> 'q sdhost \<Rightarrow> (unit \<times> 'q sdhost) option" where
  "sd_align qo d_align = sd_reg qo 0 d_align False"

definition clk_clip :: "u32 \<Rightarrow> u32" where
  "clk_clip d = (let d = (if sint d < 16 then 16 else d) in if sint d > 255 then 255 else d)"

definition sd_clk_div :: "'q queue_ops \<Rightarrow> u32 \<Rightarrow> 'q sdhost \<Rightarrow> (unit \<times> 'q sdhost) option" where
  "sd_clk_div qo clk_div = sd_reg qo 1 (clk_clip clk_div) True"

definition sd_arg :: "'q queue_ops \<Rightarrow> u32 \<Rightarrow> 'q sdhost \<Rightarrow> (unit \<times> 'q sdhost) option" where
  "sd_arg qo arg = sd_reg qo 2 arg False"

definition sd_cmd :: "'q queue_ops \<Rightarrow> u32 \<Rightarrow> 'q sdhost \<Rightarrow> (unit \<times> 'q sdhost) option" where
  "sd_cmd qo cmd = sd_reg qo 3 cmd False"

definition sd_setting :: "'q queue_ops \<Rightarrow> u32 \<Rightarrow> 'q sdhost \<Rightarrow> (unit \<times> 'q sdhost) option" where
  "sd_setting qo setting = sd_reg qo 4 setting True"

definition sd_cmd_start :: "'q queue_ops \<Rightarrow> u32 \<Rightarrow> 'q sdhost \<Rightarrow> (unit \<times> 'q sdhost) option" where
  "sd_cmd_start qo v = sd_reg qo 5 v True"

definition sd_reset :: "'q queue_ops \<Rightarrow> u32 \<Rightarrow> u32 \<Rightarrow> u32 \<Rightarrow> u32 \<Rightarrow> 'q sdhost \<Rightarrow> (unit \<times> 'q sdhost) option" where
  "sd_reset qo sd_rst clk_rst data_rst cmd_rst = sd_reg qo 6
     (push_bit 3 (sd_rst AND 1) OR push_bit 2 (clk_rst AND 1) OR push_bit 1 (data_rst AND 1) OR (cmd_rst AND 1)) True"

definition sd_blkcnt :: "'q queue_ops \<Rightarrow> u32 \<Rightarrow> 'q sdhost \<Rightarrow> (unit \<times> 'q sdhost) option" where
  "sd_blkcnt qo d_blkcnt = sd_reg qo 7 (d_blkcnt AND 0xFFFF) False"

definition sd_blksize :: "'q queue_ops \<Rightarrow> u32 \<Rightarrow> 'q sdhost \<Rightarrow> (unit \<times> 'q sdhost) option" where
  "sd_blksize qo d_blksize = sd_reg qo 8 (d_blksize AND 0xFFF) False"

definition sd_timeout :: "'q queue_ops \<Rightarrow> u32 \<Rightarrow> 'q sdhost \<Rightarrow> (unit \<times> 'q sdhost) option" where
  "sd_timeout qo d_timeout = sd_reg qo 9 d_timeout False"

definition get_card_status :: "'q queue_ops \<Rightarrow> 'q sdhost \<Rightarrow> (unit \<times> 'q sdhost) option" where
  "get_card_status qo st = do {
     (cs, q) \<leftarrow> q_read_array qo sd_base 32 (card_status st) (sd_queue st);
     Some ((), st\<lparr>card_status := cs, sd_queue := q\<rparr>) }"

definition sd_write_led :: "'q queue_ops \<Rightarrow> u32 \<Rightarrow> 'q sdhost \<Rightarrow> (unit \<times> 'q sdhost) option" where
  "sd_write_led qo v = with_queue (q_write qo led_base v True)"

definition board_mmc_power_init :: "'q queue_ops \<Rightarrow> 'q sdhost \<Rightarrow> (unit \<times> 'q sdhost) option" where
  "board_mmc_power_init qo st = do {
     (_, st) \<leftarrow> with_queue (q_flush qo) st;
     (_, st) \<leftarrow> get_card_status qo st;
     (_, st) \<leftarrow> sd_write_led qo 0x55 st;
     (_, st) \<leftarrow> sd_write_led qo 0xAA st;
     (_, st) \<leftarrow> sd_clk_div qo 0x10 st;
     (_, st) \<leftarrow> with_queue (q_read qo (sd_base + 4 * 17)) st;
     (_, st) \<leftarrow> get_card_status qo st;
     (_, st) \<leftarrow> sd_reset qo 1 1 0 0 st;
     (_, st) \<leftarrow> sd_blkcnt qo 1 st;
     (_, st) \<leftarrow> sd_blksize qo 1 st;
     (_, st) \<leftarrow> sd_align qo 0 st;
     (_, st) \<leftarrow> sd_timeout qo 1000 st;
     (_, st) \<leftarrow> get_card_status qo st;
     (_, st) \<leftarrow> sd_reset qo 0 1 1 1 st;
     get_card_status qo st }"

section \<open>Sector buffers\<close>

definition be32_to_cpu :: "u32 \<Rightarrow> u32" where
  "be32_to_cpu x = push_bit 24 (x AND 0x000000FF) OR push_bit 8 (x AND 0x0000FF00) OR
     drop_bit 8 (x AND 0x00FF0000) OR drop_bit 24 (x AND 0xFF000000)"

definition queue_block_read2 :: "u32 list \<Rightarrow> nat \<Rightarrow> u32 option" where
  "queue_block_read2 buf2 i = map_option be32_to_cpu (get_at i buf2)"

text \<open>The inner loop of \<open>minion_sdhci_read_block_pio\<close>: \<open>len\<close> bytes still to come.
  \<open>scratch\<close> has no value at first; it is loaded before it is used.\<close>

primrec read_pio_loop :: "u32 list \<Rightarrow> nat \<Rightarrow> nat \<Rightarrow> nat \<Rightarrow> nat \<Rightarrow> u32 \<Rightarrow> bytes \<Rightarrow> bytes option" where
  "read_pio_loop tmp 0 idx i chunk scratch buf = Some buf"
| "read_pio_loop tmp (Suc len) idx i chunk scratch buf = do {
     (scratch, i, chunk) \<leftarrow> (if chunk = 0 then do { s \<leftarrow> queue_block_read2 tmp i; Some (s, i + 1, 4) }
                             else Some (scratch, i, chunk));
     buf \<leftarrow> put_at idx (ucast (scratch AND 0xFF)) buf;
     read_pio_loop tmp len (idx + 1) i (chunk - 1) (drop_bit 8 scratch) buf }"

definition minion_sdhci_read_block_pio :: "u32 list \<Rightarrow> 'q sdhost \<Rightarrow> (unit \<times> 'q sdhost) option" where
  "minion_sdhci_read_block_pio tmp st = do {
     buf \<leftarrow> read_pio_loop tmp 512 0 0 0 0 (minion_iobuf st);
     Some ((), st\<lparr>minion_iobuf := buf\<rparr>) }"

primrec write_pio_loop :: "'q queue_ops \<Rightarrow> nat \<Rightarrow> nat \<Rightarrow> nat \<Rightarrow> u32 \<Rightarrow> 'q sdhost \<Rightarrow> (unit \<times> 'q sdhost) option" where
  "write_pio_loop qo 0 idx chunk scratch st = Some ((), st)"
| "write_pio_loop qo (Suc len) idx chunk scratch st = do {
     b \<leftarrow> get_at idx (minion_iobuf st);
     let scratch = scratch OR push_bit (chunk * 8) (ucast b);
     let chunk = chunk + 1;
     if chunk = 4 \<or> len = 0
     then do { (_, st) \<leftarrow> tx_write_fifo qo scratch st; write_pio_loop qo len (idx + 1) 0 0 st }
     else write_pio_loop qo len (idx + 1) chunk scratch st }"

definition minion_sdhci_write_block_pio :: "'q queue_ops \<Rightarrow> 'q sdhost \<Rightarrow> (unit \<times> 'q sdhost) option" where
  "minion_sdhci_write_block_pio qo st = write_pio_loop qo 512 0 0 0 st"

section \<open>Transactions\<close>

text \<open>The wait for the end of a command, at most 1000001 polls.\<close>

function sd_wait_cmd :: "'q queue_ops \<Rightarrow> nat \<Rightarrow> 'q sdhost \<Rightarrow> (unit \<times> 'q sdhost) option" where
  "sd_wait_cmd qo timeout st = do {
     (_, st) \<leftarrow> get_card_status qo st;
     stat \<leftarrow> get_at 5 (card_status st);
     cs4 \<leftarrow> get_at 4 (card_status st);
     cs25 \<leftarrow> get_at 25 (card_status st);
     if stat AND 0x100 \<noteq> 0x100 \<and> cs4 < cs25 \<and> timeout < 1000000
     then sd_wait_cmd qo (timeout + 1) st
     else Some ((), st) }"
  by pat_completeness auto
termination by (relation "measure (\<lambda>(qo, timeout, st). 1000000 - timeout)") auto

declare sd_wait_cmd.simps [simp del]

partial_function (option) sd_wait_data :: "'q queue_ops \<Rightarrow> 'q sdhost \<Rightarrow> (unit \<times> 'q sdhost) option" where
  "sd_wait_data qo st = do {
     (_, st) \<leftarrow> get_card_status qo st;
     stat \<leftarrow> get_at 5 (card_status st);
     cs8 \<leftarrow> get_at 8 (card_status st);
     cs25 \<leftarrow> get_at 25 (card_status st);
     if stat AND 0x400 \<noteq> 0x400 \<and> cs8 < cs25 then sd_wait_data qo st else Some ((), st) }"

text \<open>
  One pass of the retry loop; \<open>tmp0\<close> is the indeterminate content of the local array
  \<open>tmp[512]\<close> and \<open>rslt\<close> the value left by the passes before.
\<close>

definition sd_attempt :: "'q queue_ops \<Rightarrow> u32 list \<Rightarrow> u32 \<Rightarrow> 'q sdhost \<Rightarrow> (u32 \<times> 'q sdhost) option" where
  "sd_attempt qo tmp0 rslt st = do {
     (_, st) \<leftarrow> sd_align qo 0 st;
     (_, st) \<leftarrow> sd_cmd_start qo 1 st;
     (_, st) \<leftarrow> get_card_status qo st;
     (_, st) \<leftarrow> sd_wait_cmd qo 0 st;
     (_, st) \<leftarrow> get_card_status qo st;
     cs4 \<leftarrow> get_at 4 (card_status st);
     cs25 \<leftarrow> get_at 25 (card_status st);
     (rslt, st) \<leftarrow> (if cs4 \<ge> cs25
       then do { (_, st) \<leftarrow> sd_cmd_start qo 0 st; (_, st) \<leftarrow> sd_setting qo 0 st; Some (- 1, st) }
       else Some (rslt, st));
     cs20 \<leftarrow> get_at 20 (card_status st);
     if cs20 AND 0x4 = 0 then Some (rslt, st)
     else do {
       (_, st) \<leftarrow> (if cs20 AND 0x10 = 0 then minion_sdhci_write_block_pio qo st else Some ((), st));
       (_, st) \<leftarrow> sd_wait_data qo st;
       cs8 \<leftarrow> get_at 8 (card_status st);
       cs25 \<leftarrow> get_at 25 (card_status st);
       cs9 \<leftarrow> get_at 9 (card_status st);
       cs20 \<leftarrow> get_at 20 (card_status st);
       if cs8 < cs25 \<and> cs9 \<noteq> 0
       then (if cs20 AND 0x10 \<noteq> 0
             then do {
               ((cnt, tmp), st) \<leftarrow> with_queue (q_block_read1 qo tmp0 512) st;
               (_, st) \<leftarrow> minion_sdhci_read_block_pio tmp st;
               Some (rslt, st) }
             else Some (rslt, st))
       else Some (- 1, st) } }"

function sd_attempts :: "'q queue_ops \<Rightarrow> u32 list \<Rightarrow> nat \<Rightarrow> u32 \<Rightarrow> 'q sdhost \<Rightarrow> (u32 \<times> 'q sdhost) option" where
  "sd_attempts qo tmp0 retry rslt st = do {
     (rslt, st) \<leftarrow> sd_attempt qo tmp0 rslt st;
     if rslt = - 1 \<and> retry + 1 < 3 then sd_attempts qo tmp0 (retry + 1) rslt st else Some (rslt, st) }"
  by pat_completeness auto
termination by (relation "measure (\<lambda>(qo, tmp0, retry, rslt, st). 3 - retry)") auto

declare sd_attempts.simps [simp del]

definition sd_transaction_finish2 :: "'q queue_ops \<Rightarrow> u32 list \<Rightarrow> 'q sdhost \<Rightarrow> (u32 \<times> 'q sdhost) option" where
  "sd_transaction_finish2 qo tmp0 st = do {
     (rslt, st) \<leftarrow> sd_attempts qo tmp0 0 0 st;
     cs20 \<leftarrow> get_at 20 (card_status st);
     let st = (if cs20 AND 0x10 \<noteq> 0
               then (if rslt = - 1 then st\<lparr>bad := bad st + 1\<rparr> else st\<lparr>good := good st + 1\<rparr>) else st);
     (_, st) \<leftarrow> sd_cmd_start qo 0 st;
     (_, st) \<leftarrow> sd_setting qo 0 st;
     Some (rslt, st) }"

section \<open>The SDHCI register file\<close>

named_theorems sdhci_regs \<comment> \<open>the register offsets of \<open>sdhci.h\<close>\<close>

definition SDHCI_DMA_ADDRESS :: nat where [sdhci_regs]: "SDHCI_DMA_ADDRESS = 0x00"
definition SDHCI_BLOCK_SIZE :: nat where [sdhci_regs]: "SDHCI_BLOCK_SIZE = 0x04"
definition SDHCI_BLOCK_COUNT :: nat where [sdhci_regs]: "SDHCI_BLOCK_COUNT = 0x06"
definition SDHCI_ARGUMENT :: nat where [sdhci_regs]: "SDHCI_ARGUMENT = 0x08"
definition SDHCI_TRANSFER_MODE :: nat where [sdhci_regs]: "SDHCI_TRANSFER_MODE = 0x0C"
definition SDHCI_COMMAND :: nat where [sdhci_regs]: "SDHCI_COMMAND = 0x0E"
definition SDHCI_RESPONSE :: nat where [sdhci_regs]: "SDHCI_RESPONSE = 0x10"
definition SDHCI_BUFFER :: nat where [sdhci_regs]: "SDHCI_BUFFER = 0x20"
definition SDHCI_PRESENT_STATE :: nat where [sdhci_regs]: "SDHCI_PRESENT_STATE = 0x24"
definition SDHCI_HOST_CONTROL :: nat where [sdhci_regs]: "SDHCI_HOST_CONTROL = 0x28"
definition SDHCI_POWER_CONTROL :: nat where [sdhci_regs]: "SDHCI_POWER_CONTROL = 0x29"
definition SDHCI_BLOCK_GAP_CONTROL :: nat where [sdhci_regs]: "SDHCI_BLOCK_GAP_CONTROL = 0x2A"
definition SDHCI_WAKE_UP_CONTROL :: nat where [sdhci_regs]: "SDHCI_WAKE_UP_CONTROL = 0x2B"
definition SDHCI_CLOCK_CONTROL :: nat where [sdhci_regs]: "SDHCI_CLOCK_CONTROL = 0x2C"
definition SDHCI_TIMEOUT_CONTROL :: nat where [sdhci_regs]: "SDHCI_TIMEOUT_CONTROL = 0x2E"
definition SDHCI_SOFTWARE_RESET :: nat where [sdhci_regs]: "SDHCI_SOFTWARE_RESET = 0x2F"
definition SDHCI_INT_STATUS :: nat where [sdhci_regs]: "SDHCI_INT_STATUS = 0x30"
definition SDHCI_INT_ENABLE :: nat where [sdhci_regs]: "SDHCI_INT_ENABLE = 0x34"
definition SDHCI_SIGNAL_ENABLE :: nat where [sdhci_regs]: "SDHCI_SIGNAL_ENABLE = 0x38"
definition SDHCI_ACMD12_ERR :: nat where [sdhci_regs]: "SDHCI_ACMD12_ERR = 0x3C"
definition SDHCI_HOST_CONTROL2 :: nat where [sdhci_regs]: "SDHCI_HOST_CONTROL2 = 0x3E"
definition SDHCI_CAPABILITIES :: nat where [sdhci_regs]: "SDHCI_CAPABILITIES = 0x40"
definition SDHCI_CAPABILITIES_1 :: nat where [sdhci_regs]: "SDHCI_CAPABILITIES_1 = 0x44"
definition SDHCI_MAX_CURRENT :: nat where [sdhci_regs]: "SDHCI_MAX_CURRENT = 0x48"
definition SDHCI_SET_ACMD12_ERROR :: nat where [sdhci_regs]: "SDHCI_SET_ACMD12_ERROR = 0x50"
definition SDHCI_SET_INT_ERROR :: nat where [sdhci_regs]: "SDHCI_SET_INT_ERROR = 0x52"
definition SDHCI_SLOT_INT_STATUS :: nat where [sdhci_regs]: "SDHCI_SLOT_INT_STATUS = 0xFC"
definition SDHCI_HOST_VERSION :: nat where [sdhci_regs]: "SDHCI_HOST_VERSION = 0xFE"

definition transaction_setting :: "'q sdhost \<Rightarrow> u32" where
  "transaction_setting st =
     (let resp = sdhci_command st AND 0x03;
          setting = (if resp = 0 then 0 else if resp = 2 then 1 else if resp = 3 then 1 else 3);
          setting = (if sdhci_host_control st AND 0x02 \<noteq> 0 then setting OR 0x20 else setting)
      in if sdhci_command st AND 0x20 \<noteq> 0
         then setting OR ((if sdhci_transfer_mode st AND 0x10 \<noteq> 0 then 0x10 else 0x8) OR 0x4) else setting)"

definition sd_transaction_finish :: "'q queue_ops \<Rightarrow> u32 list \<Rightarrow> u32 \<Rightarrow> 'q sdhost \<Rightarrow> (u32 \<times> 'q sdhost) option" where
  "sd_transaction_finish qo tmp0 cmd_flags st = do {
     let setting = transaction_setting st;
     (_, st) \<leftarrow> get_card_status qo st;
     (_, st) \<leftarrow> sd_align qo 0 st;
     (_, st) \<leftarrow> sd_arg qo (sdhci_argument st) st;
     (_, st) \<leftarrow> sd_cmd qo (signed_drop_bit 8 cmd_flags) st;
     (_, st) \<leftarrow> sd_setting qo setting st;
     (_, st) \<leftarrow> sd_cmd_start qo 0 st;
     (_, st) \<leftarrow> sd_reset qo 0 1 1 1 st;
     (_, st) \<leftarrow> sd_blkcnt qo (sdhci_block_count st) st;
     (_, st) \<leftarrow> sd_blksize qo (sdhci_block_size st AND 0xFFF) st;
     (_, st) \<leftarrow> sd_timeout qo (sdhci_timeout_control st) st;
     (_, st) \<leftarrow> get_card_status qo st;
     (_, st) \<leftarrow> with_queue (q_block_read1 qo [] 0) st;
     sd_transaction_finish2 qo tmp0 st }"

definition clock_timeout :: "u32 \<Rightarrow> u32" where
  "clock_timeout d = of_int (1250000 div sint d)"

definition sdhci_write_power :: "'q queue_ops \<Rightarrow> u32 \<Rightarrow> 'q sdhost \<Rightarrow> (u32 \<times> 'q sdhost) option" where
  "sdhci_write_power qo val st = do {
     (_, st) \<leftarrow> (if val AND 0x01 \<noteq> 0
       then do {
         (_, st) \<leftarrow> sd_reset qo 0 1 0 0 st;
         (_, st) \<leftarrow> get_card_status qo st;
         (_, st) \<leftarrow> sd_align qo 0 st;
         sd_reset qo 0 1 1 1 st }
       else sd_reset qo 1 0 0 0 st);
     Some (0, st\<lparr>sdhci_power_control := val\<rparr>) }"

definition sdhci_write_clock :: "'q queue_ops \<Rightarrow> u32 \<Rightarrow> 'q sdhost \<Rightarrow> (u32 \<times> 'q sdhost) option" where
  "sdhci_write_clock qo val st = do {
     let st = st\<lparr>sdhci_clock_div := drop_bit 8 val\<rparr>;
     (_, st) \<leftarrow> (if sdhci_clock_div st \<noteq> 0
       then do {
         let d = (if sint (sdhci_clock_div st) < 5 then 5 else sdhci_clock_div st);
         let d = (if sint d > 255 then 255 else d);
         (_, st) \<leftarrow> sd_clk_div qo d (st\<lparr>sdhci_clock_div := d\<rparr>);
         get_card_status qo (st\<lparr>sdhci_timeout_control := clock_timeout d\<rparr>) }
       else Some ((), st));
     (_, st) \<leftarrow> (if val AND 0x0004 \<noteq> 0
       then do { (_, st) \<leftarrow> sd_reset qo 0 1 1 1 st; get_card_status qo st }
       else do { (_, st) \<leftarrow> sd_reset qo 0 0 1 1 st; get_card_status qo st });
     Some (0, st) }"

definition sdhci_write_timeout :: "u32 \<Rightarrow> 'q sdhost \<Rightarrow> 'q sdhost" where
  "sdhci_write_timeout val st =
     (let d = (if sint (sdhci_clock_div st) < 5 then 5 else sdhci_clock_div st);
          t = clock_timeout d
      in st\<lparr>sdhci_clock_div := d, sdhci_timeout_control := (if t < val then val else t)\<rparr>)"

definition sdhci_write :: "'q queue_ops \<Rightarrow> u32 list \<Rightarrow> u32 \<Rightarrow> nat \<Rightarrow> 'q sdhost \<Rightarrow> (u32 \<times> 'q sdhost) option" where
  "sdhci_write qo tmp0 val reg st =
     (if reg = SDHCI_DMA_ADDRESS then Some (0, st\<lparr>sdhci_dma_address := val\<rparr>)
      else if reg = SDHCI_BLOCK_COUNT then Some (0, st\<lparr>sdhci_block_count := val\<rparr>)
      else if reg = SDHCI_BLOCK_SIZE then Some (0, st\<lparr>sdhci_block_size := val\<rparr>)
      else if reg = SDHCI_HOST_CONTROL then do {
        (_, st) \<leftarrow> (if sdhci_host_control st \<noteq> val then sd_write_led qo (sdhci_host_control st) st else Some ((), st));
        Some (0, st\<lparr>sdhci_host_control := val\<rparr>) }
      else if reg = SDHCI_ARGUMENT then Some (0, st\<lparr>sdhci_argument := val\<rparr>)
      else if reg = SDHCI_TRANSFER_MODE then Some (0, st\<lparr>sdhci_transfer_mode := val\<rparr>)
      else if reg = SDHCI_POWER_CONTROL then sdhci_write_power qo val st
      else if reg = SDHCI_COMMAND then sd_transaction_finish qo tmp0 val (st\<lparr>sdhci_command := val\<rparr>)
      else if reg = SDHCI_BLOCK_GAP_CONTROL then Some (0, st\<lparr>sdhci_block_gap := val\<rparr>)
      else if reg = SDHCI_WAKE_UP_CONTROL then Some (0, st\<lparr>sdhci_wake_up := val\<rparr>)
      else if reg = SDHCI_TIMEOUT_CONTROL then Some (0, sdhci_write_timeout val st)
      else if reg = SDHCI_SOFTWARE_RESET then do {
        (_, st) \<leftarrow> get_card_status qo (st\<lparr>sdhci_software_reset := val, sdhci_transfer_mode := 0\<rparr>);
        Some (0, st) }
      else if reg = SDHCI_CLOCK_CONTROL then sdhci_write_clock qo val st
      else if reg = SDHCI_INT_STATUS then Some (0, st\<lparr>sdhci_int_status := val\<rparr>)
      else if reg = SDHCI_INT_ENABLE then Some (0, st\<lparr>sdhci_int_enable := val\<rparr>)
      else if reg = SDHCI_SIGNAL_ENABLE then Some (0, st\<lparr>sdhci_signal_enable := val\<rparr>)
      else if reg = SDHCI_PRESENT_STATE then Some (0, st\<lparr>sdhci_present_state := val\<rparr>)
      else if reg = SDHCI_MAX_CURRENT then Some (0, st\<lparr>sdhci_max_current := val\<rparr>)
      else if reg = SDHCI_BUFFER then do { (_, st) \<leftarrow> tx_write_fifo qo val st; Some (0, st) }
      else if reg = SDHCI_SET_ACMD12_ERROR then Some (0, st\<lparr>sdhci_set_acmd12_error := val\<rparr>)
      else if reg = SDHCI_SET_INT_ERROR then Some (0, st\<lparr>sdhci_set_int := val\<rparr>)
      else if reg = SDHCI_HOST_VERSION then Some (0, st\<lparr>sdhci_host_version := val\<rparr>)
      else if reg = SDHCI_HOST_CONTROL2 then Some (0, st\<lparr>sdhci_host_control2 := val\<rparr>)
      else if reg = SDHCI_ACMD12_ERR then Some (0, st\<lparr>sdhci_acmd12_err := val\<rparr>)
      else if reg = SDHCI_SLOT_INT_STATUS then Some (0, st\<lparr>sdhci_slot_int_status := val\<rparr>)
      else Some (- 1, st))"

definition sdhci_read :: "nat \<Rightarrow> 'q sdhost \<Rightarrow> (u32 \<times> 'q sdhost) option" where
  "sdhci_read reg st =
     (if reg = SDHCI_DMA_ADDRESS then Some (sdhci_dma_address st, st)
      else if reg = SDHCI_BLOCK_COUNT then Some (sdhci_block_count st, st)
      else if reg = SDHCI_BLOCK_SIZE then Some (sdhci_block_size st, st)
      else if reg = SDHCI_HOST_CONTROL then Some (sdhci_host_control st, st)
      else if reg = SDHCI_ARGUMENT then Some (sdhci_argument st, st)
      else if reg = SDHCI_TRANSFER_MODE then Some (sdhci_transfer_mode st, st)
      else if reg = SDHCI_COMMAND then Some (sdhci_command st, st)
      else if reg = SDHCI_RESPONSE then do { r \<leftarrow> get_at 0 (card_status st); Some (r, st) }
      else if reg = SDHCI_RESPONSE + 4 then do { r \<leftarrow> get_at 1 (card_status st); Some (r, st) }
      else if reg = SDHCI_RESPONSE + 8 then do { r \<leftarrow> get_at 2 (card_status st); Some (r, st) }
      else if reg = SDHCI_RESPONSE + 12 then do { r \<leftarrow> get_at 3 (card_status st); Some (r, st) }
      else if reg = SDHCI_INT_STATUS then Some (sdhci_int_status st, st)
      else if reg = SDHCI_INT_ENABLE then Some (sdhci_int_enable st, st)
      else if reg = SDHCI_PRESENT_STATE then do {
        cs12 \<leftarrow> get_at 12 (card_status st);
        let p = (if cs12 \<noteq> 0 then 0 else 0x00010000);
        Some (p, st\<lparr>sdhci_present_state := p\<rparr>) }
      else if reg = SDHCI_HOST_VERSION then Some (2, st)
      else if reg = SDHCI_CAPABILITIES then Some (0x01000000 OR push_bit 8 25 OR 0x00200000, st)
      else if reg = SDHCI_SOFTWARE_RESET then Some (0, st)
      else if reg = SDHCI_BLOCK_GAP_CONTROL then Some (sdhci_block_gap st, st)
      else if reg = SDHCI_CLOCK_CONTROL then Some (push_bit 8 (sdhci_clock_div st) OR 0x0002, st)
      else if reg = SDHCI_BUFFER then Some (0, st)
      else if reg = SDHCI_MAX_CURRENT then Some (0, st)
      else if reg = SDHCI_POWER_CONTROL then Some (sdhci_power_control st, st)
      else if reg = SDHCI_WAKE_UP_CONTROL then Some (sdhci_wake_up st, st)
      else if reg = SDHCI_TIMEOUT_CONTROL then Some (sdhci_timeout_control st, st)
      else if reg = SDHCI_SIGNAL_ENABLE then Some (sdhci_signal_enable st, st)
      else if reg = SDHCI_SET_ACMD12_ERROR then Some (sdhci_set_acmd12_error st, st)
      else if reg = SDHCI_HOST_CONTROL2 then Some (sdhci_host_control2 st, st)
      else if reg = SDHCI_ACMD12_ERR then Some (sdhci_acmd12_err st, st)
      else if reg = SDHCI_CAPABILITIES_1 then Some (push_bit 19 1, st)
      else if reg = SDHCI_SLOT_INT_STATUS then Some (1, st)
      else Some (0, st))"

section \<open>Card initialisation and sector reads\<close>

text \<open>The straight-line register programs, as lists of accesses whose results are not used.\<close>

datatype sd_step = SW u32 nat | SR nat

fun sd_steps :: "'q queue_ops \<Rightarrow> u32 list \<Rightarrow> sd_step list \<Rightarrow> 'q sdhost \<Rightarrow> (unit \<times> 'q sdhost) option" where
  "sd_steps qo tmp0 [] st = Some ((), st)"
| "sd_steps qo tmp0 (SW v r # ss) st = do { (_, st) \<leftarrow> sdhci_write qo tmp0 v r st; sd_steps qo tmp0 ss st }"
| "sd_steps qo tmp0 (SR r # ss) st = do { (_, st) \<leftarrow> sdhci_read r st; sd_steps qo tmp0 ss st }"

definition cmd_issue :: "u32 \<Rightarrow> u32 \<Rightarrow> sd_step list" where
  "cmd_issue arg cmd = [SW 0xFFFFFFFF SDHCI_INT_STATUS, SR SDHCI_PRESENT_STATE,
     SW arg SDHCI_ARGUMENT, SW cmd SDHCI_COMMAND]"

definition data_issue :: "u32 \<Rightarrow> u32 \<Rightarrow> u32 \<Rightarrow> sd_step list" where
  "data_issue blksize arg cmd = [SW 0xFFFFFFFF SDHCI_INT_STATUS, SR SDHCI_PRESENT_STATE,
     SW 0x000001F4 SDHCI_TIMEOUT_CONTROL, SW blksize SDHCI_BLOCK_SIZE, SW 0x00000001 SDHCI_BLOCK_COUNT,
     SW 0x00000012 SDHCI_TRANSFER_MODE, SW arg SDHCI_ARGUMENT, SW cmd SDHCI_COMMAND]"

definition int_ack :: "sd_step list" where
  "int_ack = [SW 0x00000001 SDHCI_INT_STATUS, SR SDHCI_INT_STATUS, SW 0xFFFFFFFF SDHCI_INT_STATUS]"

definition init_power_steps :: "sd_step list" where
  "init_power_steps = [SR SDHCI_CAPABILITIES, SR SDHCI_HOST_VERSION, SW 0x00000001 SDHCI_SOFTWARE_RESET,
     SR SDHCI_SOFTWARE_RESET, SW 0x0000000F SDHCI_POWER_CONTROL, SW 0x027F003B SDHCI_INT_ENABLE,
     SW 0x00000000 SDHCI_SIGNAL_ENABLE, SR SDHCI_HOST_CONTROL, SW 0x00000000 SDHCI_HOST_CONTROL,
     SR SDHCI_PRESENT_STATE, SR SDHCI_CLOCK_CONTROL, SW 0x00000002 SDHCI_CLOCK_CONTROL,
     SW (push_bit 8 255 OR 0x001) SDHCI_CLOCK_CONTROL, SR SDHCI_CLOCK_CONTROL,
     SW (push_bit 8 255 OR 0x006) SDHCI_CLOCK_CONTROL, SR SDHCI_HOST_CONTROL, SW 0x00000000 SDHCI_HOST_CONTROL] @
     cmd_issue 0 0 @ int_ack @
     cmd_issue 0x1AA 0x081A @ [SR SDHCI_INT_STATUS] @ int_ack"

definition op_cond_steps :: "sd_step list" where
  "op_cond_steps = cmd_issue 0 0x371A @ [SR SDHCI_INT_STATUS] @ int_ack @
     cmd_issue 0x40300000 0x2903 @ [SR SDHCI_INT_STATUS] @ int_ack"

function sd_op_cond :: "'q queue_ops \<Rightarrow> u32 list \<Rightarrow> nat \<Rightarrow> 'q sdhost \<Rightarrow> (unit \<times> 'q sdhost) option" where
  "sd_op_cond qo tmp0 timeout st = do {
     (_, st) \<leftarrow> sd_steps qo tmp0 op_cond_steps st;
     (r, st) \<leftarrow> sd_resp qo 0 st;
     let busy = r AND 0xFFFF0000;
     if 0x80000000 AND NOT busy \<noteq> 0 \<and> timeout < 100 then sd_op_cond qo tmp0 (timeout + 1) st
     else Some ((), st) }"
  by pat_completeness auto
termination by (relation "measure (\<lambda>(qo, tmp0, timeout, st). 100 - timeout)") auto

declare sd_op_cond.simps [simp del]

definition ident_steps :: "sd_step list" where
  "ident_steps = cmd_issue 0 0x0209 @ [SR SDHCI_INT_STATUS] @ int_ack @
     cmd_issue 0 0x031A @ [SR SDHCI_INT_STATUS] @ int_ack"

definition select_steps :: "u32 \<Rightarrow> sd_step list" where
  "select_steps rca = cmd_issue rca 0x0909 @ [SR SDHCI_INT_STATUS] @ int_ack @
     cmd_issue rca 0x0D1A @ [SR SDHCI_INT_STATUS] @ int_ack @
     cmd_issue rca 0x071A @ [SR SDHCI_INT_STATUS] @ int_ack @
     cmd_issue rca 0x371A @ [SR SDHCI_INT_STATUS] @ int_ack @
     data_issue 8 0 0x333A @ [SR SDHCI_INT_STATUS] @ int_ack @
     data_issue 0x40 0x00FFFFF1 0x063A @ int_ack @
     data_issue 0x40 0x80FFFFF1 0x063A @ [SR SDHCI_INT_STATUS] @ int_ack"

definition bus_width_steps :: "u32 \<Rightarrow> sd_step list" where
  "bus_width_steps rca = cmd_issue rca 0x371A @ [SR SDHCI_INT_STATUS] @ int_ack @
     cmd_issue 2 0x061A @ [SR SDHCI_INT_STATUS] @ int_ack @
     [SR SDHCI_HOST_CONTROL, SW 2 SDHCI_HOST_CONTROL] @
     cmd_issue rca 0x371A @ [SR SDHCI_INT_STATUS] @ int_ack @
     data_issue 0x40 0 0x0D3A @ [SR SDHCI_INT_STATUS] @ int_ack @
     [SR SDHCI_PRESENT_STATE, SR SDHCI_CLOCK_CONTROL, SW (push_bit 8 12 OR 0x002) SDHCI_CLOCK_CONTROL,
      SW (push_bit 8 12 OR 0x001) SDHCI_CLOCK_CONTROL, SR SDHCI_CLOCK_CONTROL,
      SW (push_bit 8 12 OR 0x006) SDHCI_CLOCK_CONTROL, SR SDHCI_HOST_CONTROL, SW 2 SDHCI_HOST_CONTROL]"

definition init_sd :: "'q queue_ops \<Rightarrow> u32 list \<Rightarrow> 'q sdhost \<Rightarrow> (int \<times> 'q sdhost) option" where
  "init_sd qo tmp0 st = do {
     (_, st) \<leftarrow> get_card_status qo st;
     cs12 \<leftarrow> get_at 12 (card_status st);
     if cs12 \<noteq> 0 then Some (-1, st)
     else do {
       (_, st) \<leftarrow> sd_steps qo tmp0 init_power_steps st;
       (_, st) \<leftarrow> sd_op_cond qo tmp0 0 st;
       (_, st) \<leftarrow> sd_steps qo tmp0 ident_steps st;
       (r, st) \<leftarrow> sd_resp qo 0 st;
       let rca = r AND 0xFFFF0000;
       (_, st) \<leftarrow> sd_steps qo tmp0 (select_steps rca) st;
       (_, st) \<leftarrow> sd_steps qo tmp0 (bus_width_steps rca) st;
       Some (0, st) } }"

definition sd_transaction_v :: "'q queue_ops \<Rightarrow> u32 list \<Rightarrow> u32 \<Rightarrow> u32 \<Rightarrow> u32 \<Rightarrow> 'q sdhost \<Rightarrow> (u32 \<times> 'q sdhost) option" where
  "sd_transaction_v qo tmp0 sdcmd arg setting st = do {
     (_, st) \<leftarrow> sd_cmd_start qo 0 st;
     (_, st) \<leftarrow> sd_setting qo 0 st;
     (_, st) \<leftarrow> sd_arg qo arg st;
     (_, st) \<leftarrow> sd_cmd qo sdcmd st;
     (_, st) \<leftarrow> sd_setting qo setting st;
     (_, st) \<leftarrow> get_card_status qo st;
     (_, st) \<leftarrow> sd_cmd_start qo 1 st;
     (_, st) \<leftarrow> sd_transaction_finish2 qo tmp0 st;
     (_, st) \<leftarrow> get_card_status qo st;
     cs0 \<leftarrow> get_at 0 (card_status st);
     Some (cs0 AND 0xFFFF0000, st) }"

definition read_sector_issue :: "u32 \<Rightarrow> sd_step list" where
  "read_sector_issue sect = cmd_issue 0x200 0x101A @ [SR SDHCI_INT_STATUS] @ int_ack @
     [SW 0xFFFFFFFF SDHCI_INT_STATUS, SR SDHCI_PRESENT_STATE, SW 0x1F4 SDHCI_TIMEOUT_CONTROL,
      SW 0x200 SDHCI_BLOCK_SIZE, SW 1 SDHCI_BLOCK_COUNT, SW 0x12 SDHCI_TRANSFER_MODE, SW sect SDHCI_ARGUMENT]"

definition sd_read_sector1 :: "'q queue_ops \<Rightarrow> u32 list \<Rightarrow> u32 \<Rightarrow> 'q sdhost \<Rightarrow> (u32 \<times> 'q sdhost) option" where
  "sd_read_sector1 qo tmp0 sect st = do {
     (_, st) \<leftarrow> sd_steps qo tmp0 (read_sector_issue sect) st;
     (rslt, st) \<leftarrow> sdhci_write qo tmp0 0x113A SDHCI_COMMAND st;
     (_, st) \<leftarrow> sd_steps qo tmp0 ([SR SDHCI_INT_STATUS] @ int_ack) st;
     Some (rslt, st) }"

function sd_read_tries :: "'q queue_ops \<Rightarrow> u32 list \<Rightarrow> u32 \<Rightarrow> nat \<Rightarrow> 'q sdhost \<Rightarrow> (u32 \<times> 'q sdhost) option" where
  "sd_read_tries qo tmp0 sect i st = do {
     (rslt, st) \<leftarrow> sd_read_sector1 qo tmp0 sect st;
     if i < 3 \<and> rslt \<noteq> 0 then sd_read_tries qo tmp0 sect (i + 1) st else Some (rslt, st) }"
  by pat_completeness auto
termination by (relation "measure (\<lambda>(qo, tmp0, sect, i, st). 3 - i)") auto

declare sd_read_tries.simps [simp del]

text \<open>\<open>buf\<close> is the memory at the destination; \<open>max\<close> is converted to \<open>size_t\<close> by \<open>memcpy\<close>.\<close>

definition sd_read_sector ::
  "'q queue_ops \<Rightarrow> u32 list \<Rightarrow> u32 \<Rightarrow> bytes \<Rightarrow> int \<Rightarrow> 'q sdhost \<Rightarrow> ((u32 \<times> bytes) \<times> 'q sdhost) option" where
  "sd_read_sector qo tmp0 sect buf maxlen st = do {
     (rslt, st) \<leftarrow> sd_read_tries qo tmp0 sect 0 st;
     if rslt \<noteq> 0 then Some ((rslt, buf), st)
     else do {
       d \<leftarrow> get_range 0 (unat (of_int maxlen :: u64)) (minion_iobuf st);
       buf \<leftarrow> put_range 0 d buf;
       Some ((0, buf), st) } }"

section \<open>Moving sectors\<close>

lemma be32_to_cpu_bytes:
  "(ucast (be32_to_cpu x AND 0xFF) :: u8) = ucast (drop_bit 24 x)"
  "(ucast (drop_bit 8 (be32_to_cpu x) AND 0xFF) :: u8) = ucast (drop_bit 16 x)"
  "(ucast (drop_bit 8 (drop_bit 8 (be32_to_cpu x)) AND 0xFF) :: u8) = ucast (drop_bit 8 x)"
  "(ucast (drop_bit 8 (drop_bit 8 (drop_bit 8 (be32_to_cpu x))) AND 0xFF) :: u8) = ucast x"
proof -
  have m: "0x000000FF = (mask 8 :: u32)" "0x0000FF00 = (push_bit 8 (mask 8) :: u32)"
    "0x00FF0000 = (push_bit 16 (mask 8) :: u32)" "0xFF000000 = (push_bit 24 (mask 8) :: u32)"
    by (simp_all add: mask_eq_exp_minus_1)
  show "(ucast (be32_to_cpu x AND 0xFF) :: u8) = ucast (drop_bit 24 x)"
    "(ucast (drop_bit 8 (be32_to_cpu x) AND 0xFF) :: u8) = ucast (drop_bit 16 x)"
    "(ucast (drop_bit 8 (drop_bit 8 (be32_to_cpu x)) AND 0xFF) :: u8) = ucast (drop_bit 8 x)"
    "(ucast (drop_bit 8 (drop_bit 8 (drop_bit 8 (be32_to_cpu x))) AND 0xFF) :: u8) = ucast x"
    unfolding be32_to_cpu_def m by (rule bit_word_eqI; auto simp: bit_simps)+
qed

lemma read_pio_words:
  assumes "i + m \<le> length tmp" and "4 * (i + m) \<le> length buf"
  shows "read_pio_loop tmp (4 * m) (4 * i) i 0 scratch buf =
    Some (overlay (4 * i) (concat (map bytes_be32 (take m (drop i tmp)))) buf)"
  using assms
proof (induction m arbitrary: i scratch buf)
  case (Suc m)
  let ?x = "tmp ! i"
  have four: "4 * Suc n = Suc (Suc (Suc (Suc (4 * n))))" for n by simp
  have i: "i < length tmp" "4 * i + 4 \<le> length buf" using Suc.prems by auto
  have upd: "buf[4 * i := a, Suc (4 * i) := b, Suc (Suc (4 * i)) := c, Suc (Suc (Suc (4 * i))) := d] =
      overlay (4 * i) [a, b, c, d] buf" for a b c d
    using i(2) by (intro nth_equalityI) (auto simp: nth_overlay nth_list_update nth_Cons split: nat.splits)
  have step: "read_pio_loop tmp (4 * Suc m) (4 * i) i 0 scratch buf =
      read_pio_loop tmp (4 * m) (4 * Suc i) (Suc i) 0 (drop_bit 8 (drop_bit 8 (drop_bit 8 (drop_bit 8 (be32_to_cpu ?x)))))
        (overlay (4 * i) (bytes_be32 ?x) buf)"
    unfolding four using i
    by (simp add: queue_block_read2_def mem_simps bytes_be32_def upd be32_to_cpu_bytes del: drop_bit_drop_bit)
  have "concat (map bytes_be32 (take (Suc m) (drop i tmp))) = bytes_be32 ?x @ concat (map bytes_be32 (take m (drop (Suc i) tmp)))"
    using i(1) by (simp flip: Cons_nth_drop_Suc)
  moreover have len: "length (concat (map bytes_be32 (take m (drop (Suc i) tmp)))) = 4 * m"
    using Suc.prems(1) by (simp add: length_concat comp_def sum_list_triv)
  moreover have "overlay (4 * Suc i) (concat (map bytes_be32 (take m (drop (Suc i) tmp)))) (overlay (4 * i) (bytes_be32 ?x) buf) =
      overlay (4 * i) (bytes_be32 ?x @ concat (map bytes_be32 (take m (drop (Suc i) tmp)))) buf"
    using overlay_overlay_adjacent [of "4 * i" "bytes_be32 ?x" "concat (map bytes_be32 (take m (drop (Suc i) tmp)))" buf]
      Suc.prems len by (simp add: add.commute)
  moreover have "read_pio_loop tmp (4 * m) (4 * Suc i) (Suc i) 0 s (overlay (4 * i) (bytes_be32 ?x) buf) =
      Some (overlay (4 * Suc i) (concat (map bytes_be32 (take m (drop (Suc i) tmp)))) (overlay (4 * i) (bytes_be32 ?x) buf))" for s
    by (rule Suc.IH) (use Suc.prems i in auto)
  ultimately show ?case
    unfolding step by (simp only:)
qed simp

text \<open>
  C6: Reading a block by PIO stores the first 128 words of the FIFO data, most
  significant byte first, in the first 512 bytes of \<open>minion_iobuf\<close> and changes nothing
  else.
\<close>

theorem minion_sdhci_read_block_pio_spec:
  assumes "128 \<le> length tmp" and "512 \<le> length (minion_iobuf st)"
  shows "minion_sdhci_read_block_pio tmp st =
    Some ((), st\<lparr>minion_iobuf := concat (map bytes_be32 (take 128 tmp)) @ drop 512 (minion_iobuf st)\<rparr>)"
proof -
  have "length (concat (map bytes_be32 (take 128 tmp))) = 512"
    using assms(1) by (simp add: length_concat comp_def sum_list_triv)
  then show ?thesis
    using read_pio_words [of 0 128 tmp "minion_iobuf st" 0] assms
    by (simp add: minion_sdhci_read_block_pio_def overlay_0_full)
qed

theorem minion_sdhci_read_block_pio_spec_witness:
  "\<exists>st :: nat sdhost. minion_sdhci_read_block_pio (replicate 128 0x01020304) st =
    Some ((), st\<lparr>minion_iobuf := concat (replicate 128 [1, 2, 3, 4]) @ replicate 1536 0\<rparr>)"
proof -
  obtain st :: "nat sdhost" where st: "minion_iobuf st = replicate 2048 0"
    by (metis (no_types) sdhost.select_convs(26))
  have "map bytes_be32 (take 128 (replicate 128 0x01020304)) = replicate 128 [1, 2, 3, 4]"
    by (simp add: bytes_be32_def)
  moreover have "128 \<le> length (replicate 128 (0x01020304 :: u32))" "512 \<le> length (minion_iobuf st)" by (simp_all add: st)
  moreover have "drop 512 (minion_iobuf st) = replicate 1536 0" by (simp add: st)
  ultimately show ?thesis
    using minion_sdhci_read_block_pio_spec [of "replicate 128 0x01020304" st] by metis
qed

section \<open>The result of a retried transaction\<close>

lemma sd_attempt_sticky: "sd_attempt qo tmp0 (- 1) st = Some (r, st') \<Longrightarrow> r = - 1"
  by (auto simp: sd_attempt_def Let_def dest!: bind_SomeD split: if_splits prod.splits)

lemma sd_attempts_sticky: "sd_attempts qo tmp0 retry (- 1) st = Some (r, st') \<Longrightarrow> r = - 1"
proof (induction "3 - retry" arbitrary: retry st rule: less_induct)
  case less
  obtain r1 st1 where a: "sd_attempt qo tmp0 (- 1) st = Some (r1, st1)"
    using less.prems by (auto simp: sd_attempts.simps [of qo tmp0 retry "- 1" st] dest!: bind_SomeD)
  then have "r1 = - 1" by (rule sd_attempt_sticky)
  with a less.prems have "(if retry + 1 < 3 then sd_attempts qo tmp0 (retry + 1) (- 1) st1 else Some (- 1, st1)) = Some (r, st')"
    by (simp add: sd_attempts.simps [of qo tmp0 retry "- 1" st])
  then show ?case using less.hyps [of "retry + 1" st1] by (auto split: if_splits)
qed

text \<open>
  C38: The result of \<open>sd_transaction_finish2\<close> is not cleared between its attempts: once
  the first attempt has failed, the call reports failure, also when a later attempt
  succeeds.
\<close>

theorem sd_retry_result_sticky:
  assumes "sd_attempt qo tmp0 0 st = Some (- 1, st1)"
    and "sd_transaction_finish2 qo tmp0 st = Some (r, st')"
  shows "r = - 1"
proof -
  obtain r2 st2 where "sd_attempts qo tmp0 0 0 st = Some (r2, st2)" and r: "r = r2"
    using assms(2) by (auto simp: sd_transaction_finish2_def Let_def dest!: bind_SomeD)
  with assms(1) have "sd_attempts qo tmp0 1 (- 1) st1 = Some (r2, st2)"
    by (simp add: sd_attempts.simps [of qo tmp0 0])
  with r show ?thesis by (simp add: sd_attempts_sticky)
qed

section \<open>The contract of the queue\<close>

text \<open>What the SD code relies on: queued accesses act on the bus in program order.\<close>

locale bus_queue =
  fixes qo :: "'q queue_ops" and qok :: "'q \<Rightarrow> bool" and qbus :: "'q \<Rightarrow> 'x" and bus :: "'x bus"
  assumes write_law: "qok q \<Longrightarrow> p \<noteq> 0 \<Longrightarrow>
      returns (q_write qo p v f q) (\<lambda>_ q'. qok q' \<and> qbus q' = bus_write bus p v (qbus q))"
    and read_law: "qok q \<Longrightarrow> p \<noteq> 0 \<Longrightarrow>
      returns (q_read qo p q) (\<lambda>v q'. qok q' \<and> (v, qbus q') = bus_read bus p (qbus q))"
    and array_law: "qok q \<Longrightarrow> 0 < unat cnt \<Longrightarrow> unat cnt \<le> 254 \<Longrightarrow> unat cnt \<le> length buf \<Longrightarrow>
      0 < unat p \<Longrightarrow> unat p + 4 * unat cnt \<le> 2 ^ 64 \<Longrightarrow>
      returns (q_read_array qo p cnt buf q) (\<lambda>buf' q'. qok q' \<and>
        (\<exists>vs. (vs, qbus q') = bus_reads bus p (unat cnt) (qbus q) \<and> buf' = vs @ drop (unat cnt) buf))"
    and flush_law: "qok q \<Longrightarrow> returns (q_flush qo q) (\<lambda>_ q'. qok q' \<and> qbus q' = qbus q)"

definition queue_ready :: "('w \<Rightarrow> bool) \<Rightarrow> ('w \<Rightarrow> u32 \<Rightarrow> u8) \<Rightarrow> 'w queue \<Rightarrow> bool" where
  "queue_ready ok mem q \<longleftrightarrow> queue_inv ok mem 254 q \<and> 0 < edcl_cnt q"

lemma minion_bus_queue:
  assumes m: "minion rd wr mem dev ok env io delay bus"
  shows "bus_queue (minion_queue junk (between env rd wr)) (queue_ready ok mem) (queue_abs bus dev io) bus"
proof
  fix q :: "'a queue" and p :: u64 and v cnt :: u32 and f :: bool and buf :: "u32 list"
  assume ok: "queue_ready ok mem q"
  then have inv: "queue_inv ok mem 254 q" "0 < edcl_cnt q" by (simp_all add: queue_ready_def)
  show "p \<noteq> 0 \<Longrightarrow> returns (q_write (minion_queue junk (between env rd wr)) p v f q)
      (\<lambda>_ q'. queue_ready ok mem q' \<and> queue_abs bus dev io q' = bus_write bus p v (queue_abs bus dev io q))"
    using minion.queue_write_law [OF m inv(1), of p junk v f]
    by (auto simp: minion_queue_def queue_ready_def)
  show "p \<noteq> 0 \<Longrightarrow> returns (q_read (minion_queue junk (between env rd wr)) p q)
      (\<lambda>v q'. queue_ready ok mem q' \<and> (v, queue_abs bus dev io q') = bus_read bus p (queue_abs bus dev io q))"
    using minion.queue_read_law [OF m inv(1), of p junk]
    by (auto simp: minion_queue_def queue_ready_def)
  show "returns (q_flush (minion_queue junk (between env rd wr)) q)
      (\<lambda>_ q'. queue_ready ok mem q' \<and> queue_abs bus dev io q' = queue_abs bus dev io q)"
    unfolding minion_queue_def queue_ops.simps
    by (rule returns_mono [OF minion.flush_law [OF m queue_inv_mono [OF inv(1)]]])
      (auto simp: queue_ready_def elim: queue_inv_mono)
  assume "0 < unat cnt" "unat cnt \<le> 254" "unat cnt \<le> length buf" "0 < unat p" "unat p + 4 * unat cnt \<le> 2 ^ 64"
  from minion.queue_read_array_law [OF m inv this, of junk]
  show "returns (q_read_array (minion_queue junk (between env rd wr)) p cnt buf q) (\<lambda>buf' q'. queue_ready ok mem q' \<and>
      (\<exists>vs. (vs, queue_abs bus dev io q') = bus_reads bus p (unat cnt) (queue_abs bus dev io q) \<and>
        buf' = vs @ drop (unat cnt) buf))"
    by (auto simp: minion_queue_def queue_ready_def elim!: returns_mono)
qed

abbreviation demo_junk :: etrans where "demo_junk \<equiv> \<lparr>t_mode = 7, t_ptr = 7, t_val = 7\<rparr>"

abbreviation demo_queue_ops :: "demo edcl queue queue_ops" where
  "demo_queue_ops \<equiv> minion_queue demo_junk (between demo_env (EdclService_read demo_ops) (EdclService_write demo_ops))"

interpretation demo_bus_queue: bus_queue demo_queue_ops
  "queue_ready edcl_ok (\<lambda>st. d_mem (net st))" "queue_abs demo_bus (\<lambda>st. d_dev (net st)) (\<lambda>x. x)" demo_bus
  by (rule minion_bus_queue [OF demo_is_minion])

section \<open>Register accesses keep the host well formed\<close>

definition sd_ok :: "('q \<Rightarrow> bool) \<Rightarrow> 'q sdhost \<Rightarrow> bool" where
  "sd_ok qok st \<longleftrightarrow> length (card_status st) = 32 \<and> length (minion_iobuf st) = 2048 \<and>
     unat (sdhci_clock_div st) \<le> 255 \<and> qok (sd_queue st)"

lemma length_bus_reads: "length (fst (bus_reads bus p n x)) = n"
  by (induction n arbitrary: p x) (simp_all add: case_prod_beta)

lemma sd_base_bounds: "sd_base = 0x600000" "txfifo_base = 0x500000" "led_base = 0x700000" "rxfifo_base = 0x400000"
  by (simp_all add: sd_base_def txfifo_base_def led_base_def rxfifo_base_def)

lemma sd_register_address: "r < 32 \<Longrightarrow> sd_base + 4 * of_nat r \<noteq> 0"
proof -
  assume "r < 32"
  have "(sd_base + 4 * of_nat r :: u64) = of_nat (0x600000 + 4 * r)" by (simp add: sd_base_bounds)
  moreover have "unat (of_nat (0x600000 + 4 * r) :: u64) = 0x600000 + 4 * r"
    using \<open>r < 32\<close> by (simp only: unat_of_nat) (simp add: take_bit_nat_eq_self)
  ultimately show ?thesis by (metis add_is_0 unat_0 zero_neq_numeral)
qed

lemma le_255_word: "unat (x :: u32) \<le> 255 \<longleftrightarrow> x \<le> 255"
  by (simp add: word_le_nat_alt)

lemma clip_255:
  fixes x :: u32
  assumes "x \<noteq> 0"
  defines "d \<equiv> (if sint x < 5 then 5 else x)"
  shows "unat (if sint d > 255 then 255 else d) \<le> 255"
proof (cases "sint d > 255")
  case False
  then have "sint d \<le> 255" by simp
  moreover have "5 \<le> sint d" by (simp add: d_def)
  ultimately show ?thesis using False unat_of_sint [of d] by simp
qed simp

context bus_queue begin

lemma reg_law:
  assumes "sd_ok qok st" and "r < 32"
  shows "returns (sd_reg qo r v f st) (\<lambda>_ st'. sd_ok qok st' \<and> st' = st\<lparr>sd_queue := sd_queue st'\<rparr> \<and>
    qbus (sd_queue st') = bus_write bus (sd_base + 4 * of_nat r) v (qbus (sd_queue st)))"
  using write_law [of "sd_queue st" "sd_base + 4 * of_nat r" v f] assms sd_register_address
  by (auto simp: sd_reg_def with_queue_def sd_ok_def returns_iff)

lemma fifo_law:
  assumes "sd_ok qok st"
  shows "returns (tx_write_fifo qo v st) (\<lambda>_ st'. sd_ok qok st' \<and> st' = st\<lparr>sd_queue := sd_queue st'\<rparr> \<and>
    qbus (sd_queue st') = bus_write bus txfifo_base v (qbus (sd_queue st)))"
  using write_law [of "sd_queue st" txfifo_base v True] assms
  by (auto simp: tx_write_fifo_def with_queue_def sd_ok_def returns_iff sd_base_bounds)

lemma status_law:
  assumes "sd_ok qok st"
  shows "returns (get_card_status qo st) (\<lambda>_ st'. sd_ok qok st' \<and>
    st' = st\<lparr>card_status := card_status st', sd_queue := sd_queue st'\<rparr> \<and>
    (card_status st', qbus (sd_queue st')) = bus_reads bus sd_base 32 (qbus (sd_queue st)))"
proof -
  have "returns (q_read_array qo sd_base 32 (card_status st) (sd_queue st)) (\<lambda>cs q'. qok q' \<and>
      (\<exists>vs. (vs, qbus q') = bus_reads bus sd_base 32 (qbus (sd_queue st)) \<and> cs = vs @ drop 32 (card_status st)))"
    using array_law [of "sd_queue st" 32 "card_status st" sd_base] assms by (simp add: sd_ok_def sd_base_bounds)
  then show ?thesis
    using assms length_bus_reads [of bus sd_base 32 "qbus (sd_queue st)"]
    by (auto simp: get_card_status_def returns_iff sd_ok_def) (metis fst_conv)
qed

end

lemma sd_ok_updates [simp]:
  "sd_ok qok (st\<lparr>sdhci_host_control := a\<rparr>) = sd_ok qok st" "sd_ok qok (st\<lparr>sdhci_power_control := a\<rparr>) = sd_ok qok st"
  "sd_ok qok (st\<lparr>sdhci_block_gap := a\<rparr>) = sd_ok qok st" "sd_ok qok (st\<lparr>sdhci_wake_up := a\<rparr>) = sd_ok qok st"
  "sd_ok qok (st\<lparr>sdhci_timeout_control := a\<rparr>) = sd_ok qok st" "sd_ok qok (st\<lparr>sdhci_software_reset := a\<rparr>) = sd_ok qok st"
  "sd_ok qok (st\<lparr>sdhci_int_status := a\<rparr>) = sd_ok qok st" "sd_ok qok (st\<lparr>sdhci_int_enable := a\<rparr>) = sd_ok qok st"
  "sd_ok qok (st\<lparr>sdhci_signal_enable := a\<rparr>) = sd_ok qok st" "sd_ok qok (st\<lparr>sdhci_present_state := a\<rparr>) = sd_ok qok st"
  "sd_ok qok (st\<lparr>sdhci_max_current := a\<rparr>) = sd_ok qok st" "sd_ok qok (st\<lparr>sdhci_set_acmd12_error := a\<rparr>) = sd_ok qok st"
  "sd_ok qok (st\<lparr>sdhci_acmd12_err := a\<rparr>) = sd_ok qok st" "sd_ok qok (st\<lparr>sdhci_set_int := a\<rparr>) = sd_ok qok st"
  "sd_ok qok (st\<lparr>sdhci_slot_int_status := a\<rparr>) = sd_ok qok st" "sd_ok qok (st\<lparr>sdhci_host_version := a\<rparr>) = sd_ok qok st"
  "sd_ok qok (st\<lparr>sdhci_transfer_mode := a\<rparr>) = sd_ok qok st" "sd_ok qok (st\<lparr>sdhci_dma_address := a\<rparr>) = sd_ok qok st"
  "sd_ok qok (st\<lparr>sdhci_block_count := a\<rparr>) = sd_ok qok st" "sd_ok qok (st\<lparr>sdhci_block_size := a\<rparr>) = sd_ok qok st"
  "sd_ok qok (st\<lparr>sdhci_command := a\<rparr>) = sd_ok qok st" "sd_ok qok (st\<lparr>sdhci_argument := a\<rparr>) = sd_ok qok st"
  "sd_ok qok (st\<lparr>sdhci_host_control2 := a\<rparr>) = sd_ok qok st" "sd_ok qok (st\<lparr>good := g\<rparr>) = sd_ok qok st"
  "sd_ok qok (st\<lparr>bad := g\<rparr>) = sd_ok qok st"
  by (auto simp: sd_ok_def)

lemma sd_ok_clockI: "sd_ok qok st \<Longrightarrow> unat d \<le> 255 \<Longrightarrow> sd_ok qok (st\<lparr>sdhci_clock_div := d\<rparr>)"
  by (simp add: sd_ok_def)

lemma sd_ok_clock: "sd_ok qok st \<Longrightarrow> unat (sdhci_clock_div st) \<le> 255"
  by (simp add: sd_ok_def)

lemmas sd_regs_defs = sd_align_def sd_clk_div_def sd_arg_def sd_cmd_def sd_setting_def sd_cmd_start_def
  sd_reset_def sd_blkcnt_def sd_blksize_def sd_timeout_def

lemma clip_between: "\<not> sint x < 5 \<Longrightarrow> \<not> 255 < sint (x :: u32) \<Longrightarrow> unat x \<le> 255"
  using unat_of_sint [of x] by simp

context bus_queue begin

lemma reg_okI:
  assumes "sd_ok qok st" and "r < 32" and "\<And>u s. sd_ok qok s \<Longrightarrow> P u s"
  shows "returns (sd_reg qo r v f st) P"
  by (rule returns_mono [OF reg_law [OF assms(1,2)]]) (use assms(3) in auto)

lemma fifo_okI:
  assumes "sd_ok qok st" and "\<And>u s. sd_ok qok s \<Longrightarrow> P u s"
  shows "returns (tx_write_fifo qo v st) P"
  by (rule returns_mono [OF fifo_law [OF assms(1)]]) (use assms(2) in auto)

lemma status_okI:
  assumes "sd_ok qok st" and "\<And>u s. sd_ok qok s \<Longrightarrow> P u s"
  shows "returns (get_card_status qo st) P"
  by (rule returns_mono [OF status_law [OF assms(1)]]) (use assms(2) in auto)

lemma led_okI:
  assumes "sd_ok qok st" and "\<And>u s. sd_ok qok s \<Longrightarrow> P u s"
  shows "returns (sd_write_led qo v st) P"
  using write_law [of "sd_queue st" led_base v True] assms
  by (auto simp: sd_write_led_def with_queue_def sd_ok_def returns_iff sd_base_bounds)

lemma read_okI:
  assumes "sd_ok qok st" and "p \<noteq> 0" and "\<And>u s. sd_ok qok s \<Longrightarrow> P u s"
  shows "returns (with_queue (q_read qo p) st) P"
  using read_law [of "sd_queue st" p] assms by (auto simp: with_queue_def sd_ok_def returns_iff)

lemma flush_okI:
  assumes "sd_ok qok st" and "\<And>u s. sd_ok qok s \<Longrightarrow> P u s"
  shows "returns (with_queue (q_flush qo) st) P"
  using flush_law [of "sd_queue st"] assms by (auto simp: with_queue_def sd_ok_def returns_iff)

lemmas sd_okI = reg_okI fifo_okI status_okI led_okI

lemma board_init_ok:
  assumes "sd_ok qok st"
  shows "returns (board_mmc_power_init qo st) (\<lambda>_ st'. sd_ok qok st')"
  unfolding board_mmc_power_init_def sd_regs_defs returns_bind using assms
  by (intro flush_okI sd_okI read_okI | simp add: sd_base_bounds)+

lemma power_ok:
  assumes "sd_ok qok st"
  shows "returns (sdhci_write_power qo val st) (\<lambda>_ st'. sd_ok qok st')"
  unfolding sdhci_write_power_def sd_regs_defs returns_bind returns_if using assms
  by (auto intro!: sd_okI)

lemma clock_ok:
  assumes "sd_ok qok st"
  shows "returns (sdhci_write_clock qo val st) (\<lambda>_ st'. sd_ok qok st')"
  using assms unfolding sdhci_write_clock_def sd_regs_defs
  by (auto simp: Let_def intro!: sd_okI sd_ok_clockI intro: clip_between)

lemma sdhci_write_ok:
  assumes "sd_ok qok st" and "reg \<noteq> SDHCI_COMMAND"
  shows "returns (sdhci_write qo tmp0 val reg st) (\<lambda>_ st'. sd_ok qok st')"
proof -
  have t: "sd_ok qok (sdhci_write_timeout val st)"
    using sd_ok_clock [OF assms(1)] assms(1) by (auto simp: sdhci_write_timeout_def Let_def intro!: sd_ok_clockI)
  have h: "returns (do { (_, st) \<leftarrow> (if sdhci_host_control st \<noteq> val then sd_write_led qo (sdhci_host_control st) st else Some ((), st));
        Some (0 :: u32, st\<lparr>sdhci_host_control := val\<rparr>) }) (\<lambda>_ st'. sd_ok qok st')"
    using assms(1) by (auto intro!: sd_okI)
  have r: "returns (do { (_, st) \<leftarrow> get_card_status qo (st\<lparr>sdhci_software_reset := val, sdhci_transfer_mode := 0\<rparr>); Some (0 :: u32, st) })
      (\<lambda>_ st'. sd_ok qok st')" using assms(1) by (auto intro!: sd_okI)
  have b: "returns (do { (_, st) \<leftarrow> tx_write_fifo qo val st; Some (0 :: u32, st) }) (\<lambda>_ st'. sd_ok qok st')"
    using assms(1) by (auto intro!: sd_okI)
  show ?thesis
    unfolding sdhci_write_def if_not_P [OF assms(2)]
    by (intro returns_ifI) (simp_all only: returns_Some sd_ok_updates assms(1) power_ok clock_ok h r b t)
qed

end

section \<open>Writing a block and waiting for a command\<close>

definition bus_writes :: "'x bus \<Rightarrow> u64 \<Rightarrow> u32 list \<Rightarrow> 'x \<Rightarrow> 'x" where
  "bus_writes bus p ws x = foldl (\<lambda>x w. bus_write bus p w x) x ws"

lemma scratch_word:
  "(((0 OR push_bit 0 (ucast b0)) OR push_bit 8 (ucast b1)) OR push_bit 16 (ucast b2)) OR push_bit 24 (ucast b3) = le32 b0 b1 b2 b3"
  by (simp add: le32_def ac_simps)

lemma bytes_words_step:
  assumes "4 * Suc i \<le> length buf"
  shows "bytes_words (take (4 * Suc m) (drop (4 * i) buf)) =
    le32 (buf ! (4 * i)) (buf ! (4 * i + 1)) (buf ! (4 * i + 2)) (buf ! (4 * i + 3)) #
      bytes_words (take (4 * m) (drop (4 * Suc i) buf))"
proof -
  have "drop (4 * i) buf = buf ! (4 * i) # buf ! (4 * i + 1) # buf ! (4 * i + 2) # buf ! (4 * i + 3) # drop (4 * Suc i) buf"
  proof -
    have n: "4 * i + 1 = Suc (4 * i)" "4 * i + 2 = Suc (Suc (4 * i))" "4 * i + 3 = Suc (Suc (Suc (4 * i)))"
      "4 * Suc i = Suc (Suc (Suc (Suc (4 * i))))" by simp_all
    have "4 * i < length buf" "Suc (4 * i) < length buf" "Suc (Suc (4 * i)) < length buf" "Suc (Suc (Suc (4 * i))) < length buf"
      using assms by auto
    then show ?thesis unfolding n by (simp only: Cons_nth_drop_Suc)
  qed
  moreover have "take (4 * Suc m) (a # b # c # d # xs) = a # b # c # d # take (4 * m) xs" for a b c d and xs :: bytes
  proof -
    have "4 * Suc m = Suc (Suc (Suc (Suc (4 * m))))" by simp
    then show ?thesis by (simp only: take_Suc_Cons)
  qed
  ultimately show ?thesis by (simp only: bytes_words.simps)
qed

context bus_queue begin

lemma write_pio_words:
  assumes "sd_ok qok st" and "4 * (i + m) \<le> 2048"
  shows "returns (write_pio_loop qo (4 * m) (4 * i) 0 0 st) (\<lambda>_ st'. sd_ok qok st' \<and> st' = st\<lparr>sd_queue := sd_queue st'\<rparr> \<and>
    qbus (sd_queue st') = bus_writes bus txfifo_base (bytes_words (take (4 * m) (drop (4 * i) (minion_iobuf st)))) (qbus (sd_queue st)))"
  using assms
proof (induction m arbitrary: i st)
  case 0
  then show ?case by (simp add: bus_writes_def)
next
  case (Suc m)
  let ?buf = "minion_iobuf st"
  let ?w = "le32 (?buf ! (4 * i)) (?buf ! (4 * i + 1)) (?buf ! (4 * i + 2)) (?buf ! (4 * i + 3))"
  have len: "length ?buf = 2048" using Suc.prems by (simp add: sd_ok_def)
  have four: "4 * Suc n = Suc (Suc (Suc (Suc (4 * n))))" for n by simp
  have idx: "4 * i < 2048" "Suc (4 * i) < 2048" "Suc (Suc (4 * i)) < 2048" "Suc (Suc (Suc (4 * i))) < 2048"
    using Suc.prems(2) by auto
  have step: "write_pio_loop qo (4 * Suc m) (4 * i) 0 0 st =
      do { (_, st) \<leftarrow> tx_write_fifo qo ?w st; write_pio_loop qo (4 * m) (4 * Suc i) 0 0 st }"
    unfolding four using len idx scratch_word [of "?buf ! (4 * i)" "?buf ! (4 * i + 1)" "?buf ! (4 * i + 2)" "?buf ! (4 * i + 3)"]
    by (simp add: mem_simps Let_def numeral_3_eq_3)
  obtain st1 where st1: "tx_write_fifo qo ?w st = Some ((), st1)" "sd_ok qok st1" "st1 = st\<lparr>sd_queue := sd_queue st1\<rparr>"
    "qbus (sd_queue st1) = bus_write bus txfifo_base ?w (qbus (sd_queue st))"
    using fifo_law [OF Suc.prems(1), of ?w] by (auto simp: returns_iff)
  have buf1: "minion_iobuf st1 = ?buf" by (subst st1(3)) simp
  have "bytes_words (take (4 * Suc m) (drop (4 * i) ?buf)) = ?w # bytes_words (take (4 * m) (drop (4 * Suc i) ?buf))"
    by (rule bytes_words_step) (use len Suc.prems(2) in simp)
  then have words: "bus_writes bus txfifo_base (bytes_words (take (4 * Suc m) (drop (4 * i) ?buf))) (qbus (sd_queue st)) =
      bus_writes bus txfifo_base (bytes_words (take (4 * m) (drop (4 * Suc i) ?buf))) (qbus (sd_queue st1))"
    by (simp add: bus_writes_def st1(4))
  have "returns (write_pio_loop qo (4 * m) (4 * Suc i) 0 0 st1) (\<lambda>_ st'. sd_ok qok st' \<and> st' = st1\<lparr>sd_queue := sd_queue st'\<rparr> \<and>
    qbus (sd_queue st') = bus_writes bus txfifo_base (bytes_words (take (4 * m) (drop (4 * Suc i) (minion_iobuf st1)))) (qbus (sd_queue st1)))"
    by (rule Suc.IH) (use st1 Suc.prems in auto)
  then show ?case
    unfolding step words st1(1) buf1 Option.bind.simps prod.case
    by (rule returns_mono) (use st1(3) in \<open>metis sdhost.surjective sdhost.update_convs(29)\<close>)
qed

lemma write_block_law:
  assumes "sd_ok qok st"
  shows "returns (minion_sdhci_write_block_pio qo st) (\<lambda>_ st'. sd_ok qok st' \<and> st' = st\<lparr>sd_queue := sd_queue st'\<rparr> \<and>
    qbus (sd_queue st') = bus_writes bus txfifo_base (bytes_words (take 512 (minion_iobuf st))) (qbus (sd_queue st)))"
  using write_pio_words [OF assms, of 0 128] by (simp add: minion_sdhci_write_block_pio_def)

lemma wait_cmd_law:
  assumes "sd_ok qok st"
  shows "returns (sd_wait_cmd qo timeout st) (\<lambda>_ st'. sd_ok qok st')"
  using assms
proof (induction "1000000 - timeout" arbitrary: timeout st rule: less_induct)
  case less
  show ?case
    unfolding sd_wait_cmd.simps [of qo timeout st] returns_bind
  proof (rule status_okI [OF less.prems], unfold prod.case returns_bind)
    fix u and s :: "'q sdhost" assume s: "sd_ok qok s"
    then have "length (card_status s) = 32" by (simp add: sd_ok_def)
    then show "returns (do { stat \<leftarrow> get_at 5 (card_status s); cs4 \<leftarrow> get_at 4 (card_status s); cs25 \<leftarrow> get_at 25 (card_status s);
        if stat AND 0x100 \<noteq> 0x100 \<and> cs4 < cs25 \<and> timeout < 1000000 then sd_wait_cmd qo (timeout + 1) s else Some ((), s) })
        (\<lambda>_ st'. sd_ok qok st')"
      using s less.hyps [of "timeout + 1" s]
      by (cases "timeout < 1000000") (simp_all add: mem_simps)
  qed
qed

end

section \<open>Correctness of the host\<close>


text \<open>
  C8: Writing a block by PIO hands the transmit FIFO the first 512 bytes of
  \<open>minion_iobuf\<close> as 128 little-endian words, in order, and touches nothing else.
\<close>

theorem minion_sdhci_write_block_pio_spec:
  assumes "bus_queue qo qok qbus bus" and "sd_ok qok st"
  shows "returns (minion_sdhci_write_block_pio qo st) (\<lambda>_ st'. sd_ok qok st' \<and> st' = st\<lparr>sd_queue := sd_queue st'\<rparr> \<and>
    qbus (sd_queue st') = bus_writes bus txfifo_base (bytes_words (take 512 (minion_iobuf st))) (qbus (sd_queue st)))"
  by (rule bus_queue.write_block_law [OF assms])

text \<open>
  The wait for the end of a command and the power-up sequence of the port always
  return, whatever the card answers.
\<close>

theorem sd_port_terminates:
  assumes "bus_queue qo qok qbus bus" and "sd_ok qok st"
  shows "returns (sd_wait_cmd qo timeout st) (\<lambda>_ st'. sd_ok qok st') \<and>
    returns (board_mmc_power_init qo st) (\<lambda>_ st'. sd_ok qok st')"
  by (rule conjI [OF bus_queue.wait_cmd_law [OF assms] bus_queue.board_init_ok [OF assms]])

definition stored_regs :: "nat list" where
  "stored_regs = [SDHCI_DMA_ADDRESS, SDHCI_BLOCK_COUNT, SDHCI_BLOCK_SIZE, SDHCI_ARGUMENT, SDHCI_TRANSFER_MODE,
     SDHCI_BLOCK_GAP_CONTROL, SDHCI_WAKE_UP_CONTROL, SDHCI_INT_STATUS, SDHCI_INT_ENABLE, SDHCI_SIGNAL_ENABLE,
     SDHCI_SET_ACMD12_ERROR, SDHCI_HOST_CONTROL2, SDHCI_ACMD12_ERR]"

lemma sdhci_stored:
  "sdhci_write qo tmp0 v SDHCI_DMA_ADDRESS st = Some (0, st\<lparr>sdhci_dma_address := v\<rparr>)"
  "sdhci_read SDHCI_DMA_ADDRESS st = Some (sdhci_dma_address st, st)"
  "sdhci_write qo tmp0 v SDHCI_BLOCK_COUNT st = Some (0, st\<lparr>sdhci_block_count := v\<rparr>)"
  "sdhci_read SDHCI_BLOCK_COUNT st = Some (sdhci_block_count st, st)"
  "sdhci_write qo tmp0 v SDHCI_BLOCK_SIZE st = Some (0, st\<lparr>sdhci_block_size := v\<rparr>)"
  "sdhci_read SDHCI_BLOCK_SIZE st = Some (sdhci_block_size st, st)"
  "sdhci_write qo tmp0 v SDHCI_ARGUMENT st = Some (0, st\<lparr>sdhci_argument := v\<rparr>)"
  "sdhci_read SDHCI_ARGUMENT st = Some (sdhci_argument st, st)"
  "sdhci_write qo tmp0 v SDHCI_TRANSFER_MODE st = Some (0, st\<lparr>sdhci_transfer_mode := v\<rparr>)"
  "sdhci_read SDHCI_TRANSFER_MODE st = Some (sdhci_transfer_mode st, st)"
  "sdhci_write qo tmp0 v SDHCI_BLOCK_GAP_CONTROL st = Some (0, st\<lparr>sdhci_block_gap := v\<rparr>)"
  "sdhci_read SDHCI_BLOCK_GAP_CONTROL st = Some (sdhci_block_gap st, st)"
  "sdhci_write qo tmp0 v SDHCI_WAKE_UP_CONTROL st = Some (0, st\<lparr>sdhci_wake_up := v\<rparr>)"
  "sdhci_read SDHCI_WAKE_UP_CONTROL st = Some (sdhci_wake_up st, st)"
  "sdhci_write qo tmp0 v SDHCI_INT_STATUS st = Some (0, st\<lparr>sdhci_int_status := v\<rparr>)"
  "sdhci_read SDHCI_INT_STATUS st = Some (sdhci_int_status st, st)"
  "sdhci_write qo tmp0 v SDHCI_INT_ENABLE st = Some (0, st\<lparr>sdhci_int_enable := v\<rparr>)"
  "sdhci_read SDHCI_INT_ENABLE st = Some (sdhci_int_enable st, st)"
  "sdhci_write qo tmp0 v SDHCI_SIGNAL_ENABLE st = Some (0, st\<lparr>sdhci_signal_enable := v\<rparr>)"
  "sdhci_read SDHCI_SIGNAL_ENABLE st = Some (sdhci_signal_enable st, st)"
  "sdhci_write qo tmp0 v SDHCI_SET_ACMD12_ERROR st = Some (0, st\<lparr>sdhci_set_acmd12_error := v\<rparr>)"
  "sdhci_read SDHCI_SET_ACMD12_ERROR st = Some (sdhci_set_acmd12_error st, st)"
  "sdhci_write qo tmp0 v SDHCI_HOST_CONTROL2 st = Some (0, st\<lparr>sdhci_host_control2 := v\<rparr>)"
  "sdhci_read SDHCI_HOST_CONTROL2 st = Some (sdhci_host_control2 st, st)"
  "sdhci_write qo tmp0 v SDHCI_ACMD12_ERR st = Some (0, st\<lparr>sdhci_acmd12_err := v\<rparr>)"
  "sdhci_read SDHCI_ACMD12_ERR st = Some (sdhci_acmd12_err st, st)"
  by (simp_all add: sdhci_write_def sdhci_read_def sdhci_regs)

text \<open>
  The thirteen registers that only store their value read back what was written,
  without a bus access.
\<close>

theorem sdhci_register_roundtrip:
  assumes "reg \<in> set stored_regs"
  shows "\<exists>st'. sdhci_write qo tmp0 val reg st = Some (0, st') \<and> sdhci_read reg st' = Some (val, st') \<and>
    sd_queue st' = sd_queue st"
  using assms unfolding stored_regs_def list.set insert_iff empty_iff
  by (elim disjE; simp add: sdhci_stored)

section \<open>Concrete hosts\<close>

definition sd_zero :: "'q \<Rightarrow> 'q sdhost" where
  "sd_zero q = \<lparr>sdhci_host_control = 0, sdhci_power_control = 0, sdhci_block_gap = 0, sdhci_wake_up = 0,
     sdhci_timeout_control = 0, sdhci_software_reset = 0, sdhci_clock_div = 0, sdhci_int_status = 0,
     sdhci_int_enable = 0, sdhci_signal_enable = 0, sdhci_present_state = 0, sdhci_max_current = 0,
     sdhci_set_acmd12_error = 0, sdhci_acmd12_err = 0, sdhci_set_int = 0, sdhci_slot_int_status = 0,
     sdhci_host_version = 0, sdhci_transfer_mode = 0, sdhci_dma_address = 0, sdhci_block_count = 0,
     sdhci_block_size = 0, sdhci_command = 0, sdhci_argument = 0, sdhci_host_control2 = 0,
     card_status = replicate 32 0, minion_iobuf = replicate 2048 0, good = 0, bad = 0, sd_queue = q\<rparr>"

lemma demo_sd_ok: "sd_ok (queue_ready edcl_ok (\<lambda>st. d_mem (net st))) (sd_zero demo_queue)"
  using demo_queue_simps by (simp add: sd_ok_def sd_zero_def queue_ready_def)

lemma demo_bus_queue_law: "bus_queue demo_queue_ops (queue_ready edcl_ok (\<lambda>st. d_mem (net st)))
  (queue_abs demo_bus (\<lambda>st. d_dev (net st)) (\<lambda>x. x)) demo_bus"
  by (rule demo_bus_queue.bus_queue_axioms)


theorem minion_sdhci_write_block_pio_spec_witness:
  "returns (minion_sdhci_write_block_pio demo_queue_ops (sd_zero demo_queue))
     (\<lambda>_ st'. minion_iobuf st' = replicate 2048 0)"
  by (rule returns_mono [OF minion_sdhci_write_block_pio_spec [OF demo_bus_queue_law demo_sd_ok]])
    (metis (no_types, lifting) sd_zero_def sdhost.select_convs(26) sdhost.simps(26) sdhost.update_convs(29))

theorem sd_port_terminates_witness:
  "returns (sd_wait_cmd demo_queue_ops 0 (sd_zero demo_queue)) (\<lambda>_ st'. length (card_status st') = 32)"
  by (rule returns_mono [OF conjunct1 [OF sd_port_terminates [OF demo_bus_queue_law demo_sd_ok]]])
    (simp add: sd_ok_def)

theorem sdhci_register_roundtrip_witness:
  "\<exists>st'. sdhci_write demo_queue_ops [] 0x1AA SDHCI_ARGUMENT (sd_zero demo_queue) = Some (0, st') \<and>
     sdhci_read SDHCI_ARGUMENT st' = Some (0x1AA, st')"
proof -
  have "SDHCI_ARGUMENT \<in> set stored_regs" by (simp add: stored_regs_def)
  from sdhci_register_roundtrip [OF this] show ?thesis by blast
qed

text \<open>A port whose first command times out and whose next one succeeds.\<close>

definition flaky_ops :: "nat queue_ops" where
  "flaky_ops = \<lparr>q_write = (\<lambda>p v f n. Some ((), n)), q_read = (\<lambda>p n. Some (0, n)),
     q_read_array = (\<lambda>p c buf n. Some (buf[4 := (if n < 3 then 9 else 0), 5 := 0x100, 20 := 0, 25 := 9], Suc n)),
     q_block_read1 = (\<lambda>buf m n. Some ((0, buf), n)), q_flush = (\<lambda>n. Some (0, n))\<rparr>"

lemma flaky_status: "get_card_status flaky_ops st = Some ((), st\<lparr>
    card_status := (card_status st)[4 := (if sd_queue st < 3 then 9 else 0), 5 := 0x100, 20 := 0, 25 := 9],
    sd_queue := Suc (sd_queue st)\<rparr>)"
  by (simp add: get_card_status_def flaky_ops_def)

lemma flaky_reg: "sd_reg flaky_ops r v f st = Some ((), st)"
  by (simp add: sd_reg_def with_queue_def flaky_ops_def)

lemma flaky_attempt:
  assumes "length (card_status st) = 32" and "sd_queue st = 0 \<or> 3 \<le> sd_queue st"
  shows "\<exists>st'. sd_attempt flaky_ops tmp0 r st = Some ((if sd_queue st = 0 then - 1 else r), st') \<and>
    length (card_status st') = 32 \<and> sd_queue st' = sd_queue st + 3 \<and> card_status st' ! 20 = 0"
  using assms
  by (auto simp: sd_attempt_def sd_regs_defs flaky_reg flaky_status sd_wait_cmd.simps mem_simps Let_def)

text \<open>The second attempt on its own would have succeeded; the call still returns -1.\<close>

theorem sd_retry_result_sticky_witness:
  "\<exists>st1 st2 st3. sd_attempt flaky_ops [] 0 (sd_zero 0) = Some (- 1, st1) \<and> sd_attempt flaky_ops [] 0 st1 = Some (0, st2) \<and>
     sd_transaction_finish2 flaky_ops [] (sd_zero 0) = Some (- 1, st3)"
proof -
  obtain st1 where st1: "sd_attempt flaky_ops [] 0 (sd_zero 0) = Some (- 1, st1)"
    "length (card_status st1) = 32" "sd_queue st1 = 3"
    using flaky_attempt [of "sd_zero 0" "[]" 0] by (auto simp: sd_zero_def)
  obtain st2 where st2: "sd_attempt flaky_ops [] 0 st1 = Some (0, st2)"
    using flaky_attempt [of st1 "[]" 0] st1 by auto
  obtain s2 where s2: "sd_attempt flaky_ops [] (- 1) st1 = Some (- 1, s2)" "length (card_status s2) = 32" "sd_queue s2 = 6"
    using flaky_attempt [of st1 "[]" "- 1"] st1 by auto
  obtain s3 where s3: "sd_attempt flaky_ops [] (- 1) s2 = Some (- 1, s3)" "length (card_status s3) = 32" "card_status s3 ! 20 = 0"
    using flaky_attempt [of s2 "[]" "- 1"] s2 by auto
  have "sd_attempts flaky_ops [] 0 0 (sd_zero 0) = Some (- 1, s3)"
    using st1(1) s2(1) s3(1) by (simp add: sd_attempts.simps)
  then obtain r st3 where fin: "sd_transaction_finish2 flaky_ops [] (sd_zero 0) = Some (r, st3)"
    using s3 by (auto simp: sd_transaction_finish2_def sd_regs_defs flaky_reg mem_simps)
  with sd_retry_result_sticky [OF st1(1) fin] st1(1) st2 show ?thesis by blast
qed

end
