(* ===== verification/Diskio.thy ===== *)
theory Diskio
  imports Sdhost
begin

text \<open>
  The disk interface of FatFs on the SD card, \<open>diskio.c\<close>, with the card command stubs
  of \<open>minion_helper.c\<close> it calls.
\<close>

section \<open>State\<close>

datatype dresult = RES_OK | RES_ERROR | RES_WRPRT | RES_NOTRDY | RES_PARERR

definition STA_NOINIT :: u8 where "STA_NOINIT = 0x01"
definition STA_PROTECT :: u8 where "STA_PROTECT = 0x04"
definition CT_SD1 :: u8 where "CT_SD1 = 0x02"
definition CT_SD2 :: u8 where "CT_SD2 = 0x04"
definition CT_SDC :: u8 where "CT_SDC = CT_SD1 OR CT_SD2"
definition CT_BLOCK :: u8 where "CT_BLOCK = 0x08"

text \<open>The card functions \<open>diskio.c\<close> calls, over a card state of type \<open>'s\<close>.\<close>

record 's card_ops =
  cd_init :: "'s \<Rightarrow> (int \<times> 's) option"
  cd_read_sector :: "u32 \<Rightarrow> bytes \<Rightarrow> int \<Rightarrow> 's \<Rightarrow> ((u32 \<times> bytes) \<times> 's) option"
  cd_resp :: "nat \<Rightarrow> 's \<Rightarrow> (u32 \<times> 's) option"

definition sd_card :: "'q queue_ops \<Rightarrow> u32 list \<Rightarrow> 'q sdhost card_ops" where
  "sd_card qo tmp0 = \<lparr>cd_init = init_sd qo tmp0, cd_read_sector = sd_read_sector qo tmp0, cd_resp = sd_resp qo\<rparr>"

record 's disk =
  Stat :: u8
  CardType :: u8
  card :: 's

definition disk_init :: "'s \<Rightarrow> 's disk" where
  "disk_init c = \<lparr>Stat = STA_NOINIT, CardType = 0, card = c\<rparr>"

section \<open>Card commands\<close>

text \<open>The stubs: every command answers 0xFF, no data block is ever received or sent.\<close>

definition send_cmd :: "u8 \<Rightarrow> u32 \<Rightarrow> u32 \<Rightarrow> u8" where
  "send_cmd cmd arg flag = - 1"

definition rcvr_datablock :: "bytes \<Rightarrow> u32 \<Rightarrow> int \<times> bytes" where
  "rcvr_datablock buff btr = (0, buff)"

definition xmit_datablock :: "bytes \<Rightarrow> u8 \<Rightarrow> int" where
  "xmit_datablock buff token = 0"

definition wait_ready :: "u32 \<Rightarrow> int" where
  "wait_ready wt = 1"

definition sd_select :: int where
  "sd_select = (if wait_ready 500 \<noteq> 0 then 1 else 0)"

definition CMD9 :: u8 where "CMD9 = 9"
definition CMD10 :: u8 where "CMD10 = 10"
definition ACMD13 :: u8 where "ACMD13 = 0x80 + 13"
definition ACMD23 :: u8 where "ACMD23 = 0x80 + 23"
definition CMD24 :: u8 where "CMD24 = 24"
definition CMD25 :: u8 where "CMD25 = 25"
definition CMD58 :: u8 where "CMD58 = 58"

section \<open>The disk functions\<close>

definition disk_initialize :: "'s card_ops \<Rightarrow> u8 \<Rightarrow> 's disk \<Rightarrow> (u8 \<times> 's disk) option" where
  "disk_initialize co pdrv d =
     (if pdrv \<noteq> 0 then Some (STA_NOINIT, d)
      else do {
        (_, c) \<leftarrow> cd_init co (card d);
        let ty = CT_SD2 OR CT_BLOCK;
        let d = d\<lparr>CardType := ty, card := c\<rparr>;
        let d = (if ty \<noteq> 0 then d\<lparr>Stat := Stat d AND NOT STA_NOINIT\<rparr> else d);
        Some (Stat d, d) })"

definition disk_status :: "u8 \<Rightarrow> 's disk \<Rightarrow> u8" where
  "disk_status pdrv d = (if pdrv \<noteq> 0 then STA_NOINIT else Stat d)"

text \<open>
  The read loop: \<open>n\<close> sectors still to read, \<open>buff\<close> at offset \<open>off\<close> in the caller's memory.
  The results of \<open>sd_read_sector\<close> are not looked at.
\<close>

primrec disk_read_loop :: "'s card_ops \<Rightarrow> nat \<Rightarrow> u32 \<Rightarrow> nat \<Rightarrow> bytes \<Rightarrow> 's \<Rightarrow> (bytes \<times> 's) option" where
  "disk_read_loop co 0 sector off buff c = Some (buff, c)"
| "disk_read_loop co (Suc n) sector off buff c = do {
     ((_, b), c) \<leftarrow> cd_read_sector co sector (drop off buff) 512 c;
     disk_read_loop co n (sector + 1) (off + 512) (take off buff @ b) c }"

definition disk_read :: "'s card_ops \<Rightarrow> u8 \<Rightarrow> bytes \<Rightarrow> u32 \<Rightarrow> u32 \<Rightarrow> 's disk \<Rightarrow> ((dresult \<times> bytes) \<times> 's disk) option" where
  "disk_read co pdrv buff sector count d =
     (if pdrv \<noteq> 0 \<or> count = 0 then Some ((RES_PARERR, buff), d)
      else if Stat d AND STA_NOINIT \<noteq> 0 then Some ((RES_NOTRDY, buff), d)
      else do {
        let sector = (if CardType d AND CT_BLOCK = 0 then sector * 512 else sector);
        (buff, c) \<leftarrow> disk_read_loop co (unat count) sector 0 buff (card d);
        Some ((RES_OK, buff), d\<lparr>card := c\<rparr>) })"

text \<open>The multiple-block loop of \<open>disk_write\<close>; the value is \<open>count\<close> when it ends.\<close>

primrec disk_write_loop :: "nat \<Rightarrow> bytes \<Rightarrow> nat" where
  "disk_write_loop 0 buff = 0"
| "disk_write_loop (Suc n) buff =
     (if xmit_datablock buff 0xFC = 0 then Suc n else disk_write_loop n (drop 512 buff))"

definition disk_write :: "u8 \<Rightarrow> bytes \<Rightarrow> u32 \<Rightarrow> u32 \<Rightarrow> 's disk \<Rightarrow> dresult" where
  "disk_write pdrv buff sector count d =
     (if pdrv \<noteq> 0 \<or> count = 0 then RES_PARERR
      else if Stat d AND STA_NOINIT \<noteq> 0 then RES_NOTRDY
      else if Stat d AND STA_PROTECT \<noteq> 0 then RES_WRPRT
      else let sector = (if CardType d AND CT_BLOCK = 0 then sector * 512 else sector);
               left = (if count = 1
                 then (if send_cmd CMD24 sector 0 = 0 \<and> xmit_datablock buff 0xFE \<noteq> 0 then 0 else 1)
                 else if send_cmd CMD25 sector 0 = 0
                 then (let n = disk_write_loop (unat count) buff in if xmit_datablock [] 0xFD = 0 then 1 else n)
                 else unat count)
           in if left \<noteq> 0 then RES_ERROR else RES_OK)"

definition put32 :: "u32 \<Rightarrow> bytes \<Rightarrow> bytes option" where
  "put32 v buff = put_range 0 (bytes_le32 v) buff"

definition csd_sectors :: "bytes \<Rightarrow> u32" where
  "csd_sectors csd =
     (let b = (\<lambda>i. ucast (csd ! i) :: u32)
      in if drop_bit 6 (csd ! 0) = 1
         then push_bit 10 (b 9 + push_bit 8 (b 8) + push_bit 16 (b 7 AND 63) + 1)
         else let n = (ucast ((b 5 AND 15) + drop_bit 7 (b 10 AND 128) + push_bit 1 (b 9 AND 3) + 2) :: u8);
                  csize = drop_bit 6 (b 8) + push_bit 2 (b 7) + push_bit 10 (b 6 AND 3) + 1
              in push_bit (unat n - 9) csize)"

definition disk_ioctl :: "'s card_ops \<Rightarrow> bytes \<Rightarrow> u8 \<Rightarrow> u8 \<Rightarrow> bytes \<Rightarrow> 's disk \<Rightarrow> ((dresult \<times> bytes) \<times> 's disk) option" where
  "disk_ioctl co csd0 pdrv cmd buff d =
     (if pdrv \<noteq> 0 then Some ((RES_PARERR, buff), d)
      else if Stat d AND STA_NOINIT \<noteq> 0 then Some ((RES_NOTRDY, buff), d)
      else if cmd = 0 then Some ((if sd_select \<noteq> 0 then RES_OK else RES_ERROR, buff), d)
      else if cmd = 1 then
        (let (got, csd) = rcvr_datablock csd0 16
         in if send_cmd CMD9 0 0 = 0 \<and> got \<noteq> 0
            then do { buff \<leftarrow> put32 (csd_sectors csd) buff; Some ((RES_OK, buff), d) }
            else Some ((RES_ERROR, buff), d))
      else if cmd = 3 then
        (let (got, csd) = rcvr_datablock csd0 16; b = (\<lambda>i. ucast (csd ! i) :: u32)
         in if CardType d AND CT_SD2 \<noteq> 0
            then (if send_cmd ACMD13 0 0 = 0 \<and> got \<noteq> 0
                  then do { buff \<leftarrow> put32 (push_bit (unat (drop_bit 4 (csd ! 10))) 16) buff; Some ((RES_OK, buff), d) }
                  else Some ((RES_ERROR, buff), d))
            else if send_cmd CMD9 0 0 = 0 \<and> got \<noteq> 0
            then do {
              buff \<leftarrow> put32 (if CardType d AND CT_SD1 \<noteq> 0
                 then push_bit (unat (drop_bit 6 (csd ! 13)) - 1) (push_bit 1 (b 10 AND 63) + drop_bit 7 (b 11 AND 128) + 1)
                 else (drop_bit 2 (b 10 AND 124) + 1) * (push_bit 3 (b 11 AND 3) + drop_bit 5 (b 11 AND 224) + 1)) buff;
              Some ((RES_OK, buff), d) }
            else Some ((RES_ERROR, buff), d))
      else if cmd = 50 then do { buff \<leftarrow> put_at 0 (CardType d) buff; Some ((RES_OK, buff), d) }
      else if cmd = 51 \<or> cmd = 52 then
        (let (got, b) = rcvr_datablock buff 16
         in if send_cmd (if cmd = 51 then CMD9 else CMD10) 0 0 = 0
            then Some ((if got \<noteq> 0 then RES_OK else RES_ERROR, b), d) else Some ((RES_ERROR, buff), d))
      else if cmd = 53 then
        (if send_cmd CMD58 0 0 = 0
         then do { (r, c) \<leftarrow> cd_resp co 0 (card d); buff \<leftarrow> put_range 0 (bytes_be32 r) buff;
                   Some ((RES_OK, buff), d\<lparr>card := c\<rparr>) }
         else Some ((RES_ERROR, buff), d))
      else if cmd = 54 then
        (let (got, b) = rcvr_datablock buff 64
         in if send_cmd ACMD13 0 0 = 0
            then Some ((if got \<noteq> 0 then RES_OK else RES_ERROR, b), d) else Some ((RES_ERROR, buff), d))
      else if cmd = 7 then Some ((RES_OK, buff), d\<lparr>Stat := Stat d OR STA_NOINIT\<rparr>)
      else Some ((RES_PARERR, buff), d))"

section \<open>Correctness\<close>

text \<open>What a card gives back: sector \<open>s\<close> holds the 512 bytes \<open>data c s\<close>.\<close>

definition sector_card :: "'s card_ops \<Rightarrow> ('s \<Rightarrow> bool) \<Rightarrow> ('s \<Rightarrow> u32 \<Rightarrow> bytes) \<Rightarrow> bool" where
  "sector_card co cok data \<longleftrightarrow>
     (\<forall>c s buf. cok c \<longrightarrow> length (data c s) = 512 \<and>
       (512 \<le> length buf \<longrightarrow> returns (cd_read_sector co s buf 512 c) (\<lambda>(r, b) c'.
          r = 0 \<and> b = data c s @ drop 512 buf \<and> cok c' \<and> data c' = data c)))"

lemma read_loop_law:
  assumes card: "sector_card co cok data" and "cok c" and "off + 512 * n \<le> length buff"
  shows "returns (disk_read_loop co n s off buff c) (\<lambda>b c'. cok c' \<and> data c' = data c \<and>
    b = overlay off (concat (map (\<lambda>i. data c (s + of_nat i)) [0..<n])) buff)"
  using assms(2-)
proof (induction n arbitrary: s off buff c)
  case (Suc n)
  have dl: "length (data c x) = 512" for x using card Suc.prems(1) by (auto simp: sector_card_def)
  have len: "512 \<le> length (drop off buff)" using Suc.prems by simp
  obtain c1 where rd: "cd_read_sector co s (drop off buff) 512 c = Some ((0, data c s @ drop 512 (drop off buff)), c1)"
    and c1: "cok c1" "data c1 = data c"
    using card [unfolded sector_card_def, rule_format, OF Suc.prems(1), of s, THEN conjunct2, rule_format, OF len]
    by (auto simp: returns_iff)
  let ?b = "take off buff @ data c s @ drop (off + 512) buff"
  have b: "?b = overlay off (data c s) buff"
    using dl by (simp add: overlay_def)
  have "returns (disk_read_loop co n (s + 1) (off + 512) ?b c1) (\<lambda>b c'. cok c' \<and> data c' = data c1 \<and>
    b = overlay (off + 512) (concat (map (\<lambda>i. data c1 (s + 1 + of_nat i)) [0..<n])) ?b)"
    by (rule Suc.IH) (use c1 Suc.prems dl in auto)
  moreover have "concat (map (\<lambda>i. data c (s + of_nat i)) [0..<Suc n]) =
      data c s @ concat (map (\<lambda>i. data c (s + 1 + of_nat i)) [0..<n])"
    by (simp add: map_upt_Suc algebra_simps del: upt_Suc)
  moreover have "length (concat (map (\<lambda>i. data c (s + 1 + of_nat i)) [0..<n])) = 512 * n"
    using dl by (simp add: length_concat comp_def sum_list_triv)
  ultimately show ?case
    using rd c1 Suc.prems dl
      overlay_overlay_adjacent [of off "data c s" "concat (map (\<lambda>i. data c (s + 1 + of_nat i)) [0..<n])" buff]
    by (simp add: b add.commute)
qed simp

text \<open>
  On an initialised, block-addressed card that delivers its sectors, \<open>disk_read\<close>
  returns RES_OK with the requested sectors, in order, at the start of the buffer and
  the rest of the buffer unchanged.
\<close>

theorem disk_read_correct:
  assumes "sector_card co cok data" and "cok (card d)" and "count \<noteq> 0" and "512 * unat count \<le> length buff"
    and "Stat d AND STA_NOINIT = 0" and "CardType d AND CT_BLOCK \<noteq> 0"
  shows "returns (disk_read co 0 buff sector count d) (\<lambda>(r, b) d'. r = RES_OK \<and>
    b = concat (map (\<lambda>i. data (card d) (sector + of_nat i)) [0..<unat count]) @ drop (512 * unat count) buff \<and>
    cok (card d') \<and> data (card d') = data (card d))"
proof -
  have "length (data (card d) x) = 512" for x using assms(1,2) by (auto simp: sector_card_def)
  then have "length (concat (map (\<lambda>i. data (card d) (sector + of_nat i)) [0..<unat count])) = 512 * unat count"
    by (simp add: length_concat comp_def sum_list_triv)
  then show ?thesis
    using read_loop_law [OF assms(1,2), of 0 "unat count" buff sector] assms(3-)
    by (auto simp: disk_read_def Let_def overlay_0_full elim!: returns_mono)
qed

text \<open>
  \<open>disk_read\<close> does not look at the results of \<open>sd_read_sector\<close>: on a card that fails
  every read it still returns RES_OK, with the caller's buffer as it was.
\<close>

theorem disk_read_hides_errors:
  assumes "\<And>s buf c. cd_read_sector co s buf 512 c = Some ((1, buf), c)" and "count \<noteq> 0"
    and "Stat d AND STA_NOINIT = 0"
  shows "disk_read co 0 buff sector count d = Some ((RES_OK, buff), d)"
proof -
  have "disk_read_loop co n s off buff c = Some (buff, c)" for n s off c
    by (induction n arbitrary: s off) (simp_all add: assms(1))
  with assms(2,3) show ?thesis by (simp add: disk_read_def Let_def)
qed

text \<open>
  No write ever succeeds: \<open>disk_write\<close> never returns RES_OK, because the command and
  block-transfer functions below it are stubs that always report failure.
\<close>

theorem disk_write_never_ok:
  "disk_write pdrv buff sector count d \<noteq> RES_OK"
proof -
  have "unat count = 0 \<Longrightarrow> count = 0" by (simp add: unat_eq_zero)
  then show ?thesis by (simp add: disk_write_def Let_def send_cmd_def)
qed

text \<open>A card whose sector \<open>s\<close> is filled with the low byte of \<open>s\<close>, and one that cannot be read.\<close>

definition demo_card :: "unit card_ops" where
  "demo_card = \<lparr>cd_init = (\<lambda>c. Some (0, c)), cd_read_sector = (\<lambda>s buf m c. Some ((0, replicate 512 (ucast s) @ drop 512 buf), c)),
     cd_resp = (\<lambda>i c. Some (0, c))\<rparr>"

lemma demo_sector_card: "sector_card demo_card (\<lambda>c. True) (\<lambda>c s. replicate 512 (ucast s))"
  by (simp add: sector_card_def demo_card_def)

definition dead_card :: "unit card_ops" where
  "dead_card = \<lparr>cd_init = (\<lambda>c. Some (0, c)), cd_read_sector = (\<lambda>s buf m c. Some ((1, buf), c)), cd_resp = (\<lambda>i c. Some (0, c))\<rparr>"

definition ready_disk :: "unit disk" where
  "ready_disk = \<lparr>Stat = 0, CardType = CT_SD2 OR CT_BLOCK, card = ()\<rparr>"

theorem disk_read_correct_witness:
  "returns (disk_read demo_card 0 (replicate 600 9) 7 1 ready_disk) (\<lambda>(r, b) d'.
     r = RES_OK \<and> b = replicate 512 7 @ replicate 88 9)"
  by (rule returns_mono [OF disk_read_correct [OF demo_sector_card]])
    (auto simp: ready_disk_def CT_SD2_def CT_BLOCK_def)

theorem disk_read_hides_errors_witness:
  "disk_read dead_card 0 [1, 2, 3] 7 1 ready_disk = Some ((RES_OK, [1, 2, 3]), ready_disk)"
  by (rule disk_read_hides_errors) (simp_all add: dead_card_def ready_disk_def)

end
