(* ===== verification/Fat_Window.thy ===== *)
theory Fat_Window
  imports Diskio
begin

text \<open>
  The bottom of FatFs, \<open>ff.c\<close> and \<open>ff.h\<close>: the file system object, the memory
  helpers, the one-sector disk access window with its write-back, and the FSINFO update.
  The disk functions FatFs calls are the record \<open>disk_ops\<close>; \<open>diskio_ops\<close> is its
  instance by the functions of \<open>diskio.c\<close>, and the locale \<open>block_device\<close> is what FatFs
  relies on.  Every operation may fail: the laws say what holds then, too.
\<close>

section \<open>Types\<close>

datatype fresult =
    FR_OK | FR_DISK_ERR | FR_INT_ERR | FR_NOT_READY | FR_NO_FILE | FR_NO_PATH | FR_INVALID_NAME
  | FR_DENIED | FR_EXIST | FR_INVALID_OBJECT | FR_WRITE_PROTECTED | FR_INVALID_DRIVE | FR_NOT_ENABLED
  | FR_NO_FILESYSTEM | FR_MKFS_ABORTED | FR_TIMEOUT | FR_LOCKED | FR_NOT_ENOUGH_CORE
  | FR_TOO_MANY_OPEN_FILES | FR_INVALID_PARAMETER

definition FS_FAT12 :: u8 where "FS_FAT12 = 1"
definition FS_FAT16 :: u8 where "FS_FAT16 = 2"
definition FS_FAT32 :: u8 where "FS_FAT32 = 3"

record 'd disk_ops =
  drv_status :: "u8 \<Rightarrow> 'd \<Rightarrow> u8"
  drv_initialize :: "u8 \<Rightarrow> 'd \<Rightarrow> (u8 \<times> 'd) option"
  drv_read :: "u8 \<Rightarrow> bytes \<Rightarrow> u32 \<Rightarrow> u32 \<Rightarrow> 'd \<Rightarrow> ((dresult \<times> bytes) \<times> 'd) option"
  drv_write :: "u8 \<Rightarrow> bytes \<Rightarrow> u32 \<Rightarrow> u32 \<Rightarrow> 'd \<Rightarrow> (dresult \<times> 'd) option"
  drv_ioctl :: "u8 \<Rightarrow> u8 \<Rightarrow> bytes \<Rightarrow> 'd \<Rightarrow> ((dresult \<times> bytes) \<times> 'd) option"

definition diskio_ops :: "'s card_ops \<Rightarrow> bytes \<Rightarrow> 's disk disk_ops" where
  "diskio_ops co csd0 =
     \<lparr>drv_status = disk_status,
      drv_initialize = disk_initialize co,
      drv_read = disk_read co,
      drv_write = (\<lambda>p b s c d. Some (disk_write p b s c d, d)),
      drv_ioctl = disk_ioctl co csd0\<rparr>"

text \<open>The file system object; \<open>dsk\<close> is the state of the drives below it.\<close>

record 'd fatfs =
  fs_type :: u8
  drv :: u8
  csize :: u8
  n_fats :: u8
  wflag :: u8
  fsi_flag :: u8
  fs_id :: u16
  n_rootdir :: u16
  last_clust :: u32
  free_clust :: u32
  cdir :: u32
  n_fatent :: u32
  fsize :: u32
  volbase :: u32
  fatbase :: u32
  dirbase :: u32
  database :: u32
  winsect :: u32
  win :: bytes
  dsk :: 'd

section \<open>Memory helpers\<close>

definition mem_cpy :: "nat \<Rightarrow> bytes \<Rightarrow> nat \<Rightarrow> bytes \<Rightarrow> bytes option" where
  "mem_cpy off src cnt dst = do { s \<leftarrow> get_range 0 cnt src; put_range off s dst }"

definition mem_set :: "nat \<Rightarrow> u8 \<Rightarrow> nat \<Rightarrow> bytes \<Rightarrow> bytes option" where
  "mem_set off val cnt dst = put_range off (replicate cnt val) dst"

text \<open>The difference of the first pair of bytes that differ, or 0.\<close>

fun mem_cmp :: "bytes \<Rightarrow> bytes \<Rightarrow> nat \<Rightarrow> int option" where
  "mem_cmp d s 0 = Some 0"
| "mem_cmp (x # d) (y # s) (Suc n) = (if x = y then mem_cmp d s n else Some (uint x - uint y))"
| "mem_cmp _ _ (Suc n) = None"

text \<open>The strings passed here are literals; the result is 0 or the character found.\<close>

primrec chk_chr :: "bytes \<Rightarrow> int \<Rightarrow> int" where
  "chk_chr [] chr = 0"
| "chk_chr (c # str) chr = (if uint c \<noteq> chr then chk_chr str chr else uint c)"

definition LD_WORD :: "nat \<Rightarrow> bytes \<Rightarrow> u16 option" where
  "LD_WORD off b = do { x \<leftarrow> get_at off b; y \<leftarrow> get_at (off + 1) b; Some (le16 x y) }"

definition LD_DWORD :: "nat \<Rightarrow> bytes \<Rightarrow> u32 option" where
  "LD_DWORD off b = do { x \<leftarrow> get_at off b; y \<leftarrow> get_at (off + 1) b;
     z \<leftarrow> get_at (off + 2) b; w \<leftarrow> get_at (off + 3) b; Some (le32 x y z w) }"

definition ST_WORD :: "nat \<Rightarrow> u16 \<Rightarrow> bytes \<Rightarrow> bytes option" where
  "ST_WORD off v b = put_range off (bytes_le16 v) b"

definition ST_DWORD :: "nat \<Rightarrow> u32 \<Rightarrow> bytes \<Rightarrow> bytes option" where
  "ST_DWORD off v b = put_range off (bytes_le32 v) b"

section \<open>The disk access window\<close>

definition SS :: nat where "SS = 512"

text \<open>The \<open>n\<close> writes to the other FAT copies; their results are not looked at.\<close>

primrec mirror_loop :: "'d disk_ops \<Rightarrow> nat \<Rightarrow> u32 \<Rightarrow> 'd fatfs \<Rightarrow> (unit \<times> 'd fatfs) option" where
  "mirror_loop ops 0 wsect fs = Some ((), fs)"
| "mirror_loop ops (Suc n) wsect fs = do {
     let wsect = wsect + fsize fs;
     (_, d) \<leftarrow> drv_write ops (drv fs) (win fs) wsect 1 (dsk fs);
     mirror_loop ops n wsect (fs\<lparr>dsk := d\<rparr>) }"

definition sync_window :: "'d disk_ops \<Rightarrow> 'd fatfs \<Rightarrow> (fresult \<times> 'd fatfs) option" where
  "sync_window ops fs =
     (if wflag fs \<noteq> 0 then do {
        let wsect = winsect fs;
        (r, d) \<leftarrow> drv_write ops (drv fs) (win fs) wsect 1 (dsk fs);
        let fs = fs\<lparr>dsk := d\<rparr>;
        if r \<noteq> RES_OK then Some (FR_DISK_ERR, fs)
        else do {
          let fs = fs\<lparr>wflag := 0\<rparr>;
          (_, fs) \<leftarrow> (if wsect - fatbase fs < fsize fs
             then mirror_loop ops (unat (n_fats fs) - 1) wsect fs else Some ((), fs));
          Some (FR_OK, fs) } }
      else Some (FR_OK, fs))"

definition move_window :: "'d disk_ops \<Rightarrow> u32 \<Rightarrow> 'd fatfs \<Rightarrow> (fresult \<times> 'd fatfs) option" where
  "move_window ops sector fs =
     (if sector \<noteq> winsect fs then do {
        (res, fs) \<leftarrow> sync_window ops fs;
        if res = FR_OK then do {
          ((r, w), d) \<leftarrow> drv_read ops (drv fs) (win fs) sector 1 (dsk fs);
          let fs = fs\<lparr>win := w, dsk := d\<rparr>;
          if r \<noteq> RES_OK then Some (FR_DISK_ERR, fs\<lparr>winsect := 0xFFFFFFFF\<rparr>)
          else Some (FR_OK, fs\<lparr>winsect := sector\<rparr>) }
        else Some (res, fs) }
      else Some (FR_OK, fs))"

definition fsinfo_sector :: "u32 \<Rightarrow> u32 \<Rightarrow> bytes \<Rightarrow> bytes option" where
  "fsinfo_sector free lastc w = do {
     w \<leftarrow> mem_set 0 0 SS w;
     w \<leftarrow> ST_WORD 510 0xAA55 w;
     w \<leftarrow> ST_DWORD 0 0x41615252 w;
     w \<leftarrow> ST_DWORD 484 0x61417272 w;
     w \<leftarrow> ST_DWORD 488 free w;
     ST_DWORD 492 lastc w }"

definition sync_fs :: "'d disk_ops \<Rightarrow> 'd fatfs \<Rightarrow> (fresult \<times> 'd fatfs) option" where
  "sync_fs ops fs = do {
     (res, fs) \<leftarrow> sync_window ops fs;
     if res = FR_OK then do {
       (_, fs) \<leftarrow> (if fs_type fs = FS_FAT32 \<and> fsi_flag fs = 1 then do {
            w \<leftarrow> fsinfo_sector (free_clust fs) (last_clust fs) (win fs);
            let fs = fs\<lparr>win := w, winsect := volbase fs + 1\<rparr>;
            (_, d) \<leftarrow> drv_write ops (drv fs) (win fs) (winsect fs) 1 (dsk fs);
            Some ((), fs\<lparr>dsk := d, fsi_flag := 0\<rparr>) }
          else Some ((), fs));
       ((r, _), d) \<leftarrow> drv_ioctl ops (drv fs) 0 [] (dsk fs);
       let fs = fs\<lparr>dsk := d\<rparr>;
       Some (if r \<noteq> RES_OK then FR_DISK_ERR else FR_OK, fs) }
     else Some (res, fs) }"

definition clust2sect :: "'d fatfs \<Rightarrow> u32 \<Rightarrow> u32" where
  "clust2sect fs clst =
     (let clst = clst - 2 in
      if clst \<ge> n_fatent fs - 2 then 0 else clst * ucast (csize fs) + database fs)"

section \<open>What FatFs relies on\<close>

text \<open>
  A drive whose sectors are \<open>img d\<close> in state \<open>d\<close>.  A transfer may fail; a read that
  succeeds delivers the sectors, a write that succeeds stores them and a write that fails
  leaves every sector outside its range alone.
\<close>

definition sectors :: "(u32 \<Rightarrow> bytes) \<Rightarrow> u32 \<Rightarrow> u32 \<Rightarrow> bytes" where
  "sectors im s n = concat (map (\<lambda>i. im (s + of_nat i)) [0..<unat n])"

definition store_sectors :: "u32 \<Rightarrow> u32 \<Rightarrow> bytes \<Rightarrow> (u32 \<Rightarrow> bytes) \<Rightarrow> u32 \<Rightarrow> bytes" where
  "store_sectors s n b im = (\<lambda>t. if t - s < n then take 512 (drop (512 * unat (t - s)) b) else im t)"

locale block_device =
  fixes ops :: "'d disk_ops" and dno :: u8 and ok :: "'d \<Rightarrow> bool" and img :: "'d \<Rightarrow> u32 \<Rightarrow> bytes"
  assumes img_length: "ok d \<Longrightarrow> length (img d s) = 512"
    and read_law: "ok d \<Longrightarrow> n \<noteq> 0 \<Longrightarrow> length b = 512 * unat n \<Longrightarrow>
      returns (drv_read ops dno b s n d) (\<lambda>(r, b') d'. ok d' \<and> img d' = img d \<and>
        length b' = length b \<and> (r = RES_OK \<longrightarrow> b' = sectors (img d) s n))"
    and write_law: "ok d \<Longrightarrow> n \<noteq> 0 \<Longrightarrow> length b = 512 * unat n \<Longrightarrow>
      returns (drv_write ops dno b s n d) (\<lambda>r d'. ok d' \<and>
        (r = RES_OK \<longrightarrow> img d' = store_sectors s n b (img d)) \<and> (\<forall>t. \<not> t - s < n \<longrightarrow> img d' t = img d t))"
    and sync_law: "ok d \<Longrightarrow> returns (drv_ioctl ops dno 0 [] d) (\<lambda>_ d'. ok d' \<and> img d' = img d)"

section \<open>The view through the window\<close>

text \<open>
  The sectors as FatFs sees them: the window hides the sector it holds.  The second
  FAT copy, the FSINFO sector of a FAT32 volume (whose write is not checked) and the
  number that marks the window invalid are not tracked.
\<close>

definition view :: "('d \<Rightarrow> u32 \<Rightarrow> bytes) \<Rightarrow> 'd fatfs \<Rightarrow> u32 \<Rightarrow> bytes" where
  "view img fs s = (if s = winsect fs then win fs else img (dsk fs) s)"

definition mirror :: "'d fatfs \<Rightarrow> u32 \<Rightarrow> bool" where
  "mirror fs s \<longleftrightarrow> n_fats fs \<ge> 2 \<and> s - (fatbase fs + fsize fs) < fsize fs"

definition tracked :: "'d fatfs \<Rightarrow> u32 \<Rightarrow> bool" where
  "tracked fs s \<longleftrightarrow> s \<noteq> 0xFFFFFFFF \<and> \<not> mirror fs s \<and> \<not> (fs_type fs = FS_FAT32 \<and> s = volbase fs + 1)"

lemma mirror_upd [simp]:
  "mirror (fs\<lparr>wflag := x0\<rparr>) = mirror fs"
  "mirror (fs\<lparr>winsect := x1\<rparr>) = mirror fs"
  "mirror (fs\<lparr>win := x2\<rparr>) = mirror fs"
  "mirror (fs\<lparr>dsk := x3\<rparr>) = mirror fs"
  "mirror (fs\<lparr>fsi_flag := x4\<rparr>) = mirror fs"
  "mirror (fs\<lparr>free_clust := x5\<rparr>) = mirror fs"
  "mirror (fs\<lparr>last_clust := x6\<rparr>) = mirror fs"
  "mirror (fs\<lparr>cdir := x7\<rparr>) = mirror fs"
  "mirror (fs\<lparr>fs_id := x8\<rparr>) = mirror fs"
  by (simp_all add: mirror_def fun_eq_iff)

lemma tracked_upd [simp]:
  "tracked (fs\<lparr>wflag := x0\<rparr>) = tracked fs"
  "tracked (fs\<lparr>winsect := x1\<rparr>) = tracked fs"
  "tracked (fs\<lparr>win := x2\<rparr>) = tracked fs"
  "tracked (fs\<lparr>dsk := x3\<rparr>) = tracked fs"
  "tracked (fs\<lparr>fsi_flag := x4\<rparr>) = tracked fs"
  "tracked (fs\<lparr>free_clust := x5\<rparr>) = tracked fs"
  "tracked (fs\<lparr>last_clust := x6\<rparr>) = tracked fs"
  "tracked (fs\<lparr>cdir := x7\<rparr>) = tracked fs"
  "tracked (fs\<lparr>fs_id := x8\<rparr>) = tracked fs"
  by (simp_all add: tracked_def fun_eq_iff)

text \<open>A clean window holds what is on the disk.\<close>

definition win_inv :: "u8 \<Rightarrow> ('d \<Rightarrow> bool) \<Rightarrow> ('d \<Rightarrow> u32 \<Rightarrow> bytes) \<Rightarrow> 'd fatfs \<Rightarrow> bool" where
  "win_inv dno ok img fs \<longleftrightarrow> ok (dsk fs) \<and> drv fs = dno \<and> length (win fs) = 512 \<and> n_fats fs \<le> 2 \<and>
     (wflag fs = 0 \<longrightarrow> tracked fs (winsect fs) \<longrightarrow> win fs = img (dsk fs) (winsect fs))"

text \<open>The fields the window operations leave alone.\<close>

definition same_vol :: "'d fatfs \<Rightarrow> 'd fatfs \<Rightarrow> bool" where
  "same_vol fs fs' \<longleftrightarrow> fs' = fs\<lparr>wflag := wflag fs', winsect := winsect fs', win := win fs', dsk := dsk fs'\<rparr>"

lemma same_volI:
  "fs' = fs\<lparr>wflag := a, winsect := b, win := c, dsk := d\<rparr> \<Longrightarrow> same_vol fs fs'"
  by (simp add: same_vol_def)

lemma same_vol_refl [simp]: "same_vol fs fs"
  by (simp add: same_vol_def)

lemma same_vol_trans [trans]: "same_vol a b \<Longrightarrow> same_vol b c \<Longrightarrow> same_vol a c"
  unfolding same_vol_def by (cases a; cases b; cases c) simp

lemma same_vol_sel:
  assumes "same_vol fs fs'"
  shows "fs_type fs' = fs_type fs" "drv fs' = drv fs" "csize fs' = csize fs" "n_fats fs' = n_fats fs"
    "fsi_flag fs' = fsi_flag fs" "fs_id fs' = fs_id fs" "n_rootdir fs' = n_rootdir fs"
    "last_clust fs' = last_clust fs" "free_clust fs' = free_clust fs" "cdir fs' = cdir fs"
    "n_fatent fs' = n_fatent fs" "fsize fs' = fsize fs" "volbase fs' = volbase fs"
    "fatbase fs' = fatbase fs" "dirbase fs' = dirbase fs" "database fs' = database fs"
    "mirror fs' = mirror fs" "tracked fs' = tracked fs"
  using assms unfolding same_vol_def by (cases fs; cases fs'; force simp: fun_eq_iff mirror_def tracked_def)+

lemma sectors_1 [simp]: "sectors im s 1 = im s"
  by (simp add: sectors_def)

lemma word_less_1: "(x :: u32) < 1 \<longleftrightarrow> x = 0"
  by (simp add: word_less_nat_alt unat_eq_0)

lemma store_sectors_1: "length b = 512 \<Longrightarrow> store_sectors s 1 b im = im(s := b)"
  by (auto simp: store_sectors_def fun_eq_iff word_less_1)

section \<open>The laws of the window\<close>

text \<open>Only the dirty flag and the drives changed.\<close>

definition flushed :: "'d fatfs \<Rightarrow> 'd fatfs \<Rightarrow> bool" where
  "flushed fs fs' \<longleftrightarrow> (\<exists>a d. fs' = fs\<lparr>wflag := a, dsk := d\<rparr>)"

lemma flushed_intros [simp]:
  "flushed fs fs" "flushed fs (fs\<lparr>dsk := d\<rparr>)" "flushed fs (fs\<lparr>wflag := a, dsk := d\<rparr>)"
  "flushed fs (fs\<lparr>dsk := d, wflag := a\<rparr>)"
  unfolding flushed_def
     apply (rule exI [of _ "wflag fs"], rule exI [of _ "dsk fs"], simp)
    apply (rule exI [of _ "wflag fs"], rule exI [of _ d], simp)
   apply (rule exI [of _ a], rule exI [of _ d], simp)+
  done

lemma flushed_sel: "flushed fs fs' \<Longrightarrow> winsect fs' = winsect fs \<and> win fs' = win fs \<and> drv fs' = drv fs \<and>
    n_fats fs' = n_fats fs"
  by (auto simp: flushed_def)

lemma flushed_trans: "flushed a b \<Longrightarrow> flushed b c \<Longrightarrow> flushed a c"
  unfolding flushed_def by (elim exE) (simp; rule exI; rule exI; rule refl)

lemma flushed_same_vol: "flushed fs fs' \<Longrightarrow> same_vol fs fs'"
  by (auto simp: flushed_def same_vol_def)

context block_device
begin

abbreviation inv where "inv \<equiv> win_inv dno ok img"

lemma read1:
  assumes "ok d" and "length b = 512"
  shows "returns (drv_read ops dno b s 1 d) (\<lambda>(r, b') d'. ok d' \<and> img d' = img d \<and>
    length b' = 512 \<and> (r = RES_OK \<longrightarrow> b' = img d s))"
  using read_law [of d 1 b s] assms by (auto elim!: returns_mono)

lemma write1:
  assumes "ok d" and "length b = 512"
  shows "returns (drv_write ops dno b s 1 d) (\<lambda>r d'. ok d' \<and>
    (r = RES_OK \<longrightarrow> img d' = (img d)(s := b)) \<and> (\<forall>t. t \<noteq> s \<longrightarrow> img d' t = img d t))"
  using write_law [of d 1 b s] assms by (auto elim!: returns_mono simp: store_sectors_1 word_less_1)

lemma mirror_loop_law:
  assumes "n \<le> 1" and "ok (dsk fs)" and "drv fs = dno" and "length (win fs) = 512"
  shows "returns (mirror_loop ops n s fs) (\<lambda>_ fs'. flushed fs fs' \<and> wflag fs' = wflag fs \<and> ok (dsk fs') \<and>
    (\<forall>t. t \<noteq> s + fsize fs \<or> n = 0 \<longrightarrow> img (dsk fs') t = img (dsk fs) t))"
proof (cases n)
  case 0
  then show ?thesis using assms by simp
next
  case (Suc m)
  with assms(1) have "m = 0" by simp
  then show ?thesis
    using Suc write1 [of "dsk fs" "win fs" "s + fsize fs"] assms by (auto elim!: returns_mono)
qed

lemma sync_window_law:
  assumes "inv fs"
  shows "returns (sync_window ops fs) (\<lambda>r fs'. r \<in> {FR_OK, FR_DISK_ERR} \<and> inv fs' \<and>
    flushed fs fs' \<and>
    (\<forall>s. \<not> mirror fs s \<longrightarrow> view img fs' s = view img fs s) \<and> (r = FR_OK \<longrightarrow> wflag fs' = 0))"
proof (cases "wflag fs = 0")
  case True
  then show ?thesis using assms by (simp add: sync_window_def)
next
  case dirty: False
  have i: "ok (dsk fs)" "drv fs = dno" "length (win fs) = 512" "n_fats fs \<le> 2"
    using assms by (auto simp: win_inv_def)
  obtain r d where w: "drv_write ops dno (win fs) (winsect fs) 1 (dsk fs) = Some (r, d)"
    and d: "ok d" "r = RES_OK \<Longrightarrow> img d = (img (dsk fs))(winsect fs := win fs)"
      "\<And>t. t \<noteq> winsect fs \<Longrightarrow> img d t = img (dsk fs) t"
    using write1 [OF i(1,3), of "winsect fs"] by (auto simp: returns_iff)
  show ?thesis
  proof (cases "r = RES_OK")
    case False
    then show ?thesis
      using dirty w d i by (simp add: sync_window_def win_inv_def view_def)
  next
    case True
    let ?fs = "fs\<lparr>dsk := d, wflag := 0\<rparr>"
    define n where "n = (if winsect fs - fatbase fs < fsize fs then unat (n_fats fs) - 1 else 0)"
    have n: "n \<le> 1" using i(4) unfolding word_le_nat_alt n_def by simp linarith
    have mir: "mirror fs (winsect fs + fsize fs) \<and> fsize fs \<noteq> 0" if "n \<noteq> 0"
      using that i(4) by (auto simp: n_def mirror_def word_le_nat_alt algebra_simps split: if_splits)
    have "sync_window ops fs = do { (_, fs) \<leftarrow> mirror_loop ops n (winsect fs) ?fs; Some (FR_OK, fs) }"
      using dirty w True i(2) by (auto simp: sync_window_def Let_def n_def)
    moreover have "returns (mirror_loop ops n (winsect fs) ?fs) (\<lambda>_ fs'. flushed fs fs' \<and> inv fs' \<and> wflag fs' = 0 \<and>
        (\<forall>s. \<not> mirror fs s \<longrightarrow> view img fs' s = view img fs s))"
    proof (rule returns_mono [OF mirror_loop_law [OF n]], goal_cases)
      case (4 u fs')
      then have f: "flushed fs fs'" using flushed_trans [of fs ?fs fs'] by simp
      have "img (dsk fs') t = (if t = winsect fs then win fs else img (dsk fs) t)" if "\<not> mirror fs t \<or> t = winsect fs" for t
        using 4 that mir d(2) [OF True] by (cases "n = 0"; cases "t = winsect fs + fsize fs") auto
      then show ?case
        using f 4 i flushed_sel [OF f] by (auto simp: win_inv_def view_def)
    qed (use d i in auto)
    ultimately show ?thesis by (auto elim!: returns_mono)
  qed
qed

end

lemma view_at_win [simp]: "view img fs (winsect fs) = win fs"
  by (simp add: view_def)

lemma view_off_win: "t \<noteq> winsect fs \<Longrightarrow> view img fs t = img (dsk fs) t"
  by (simp add: view_def)

text \<open>Changing the window, as every FatFs routine that edits a sector does.\<close>

lemma view_store: "view img (fs\<lparr>win := w, wflag := a\<rparr>) = (view img fs)(winsect fs := w)"
  by (auto simp: view_def fun_eq_iff)

lemma win_inv_store:
  "win_inv dno ok img fs \<Longrightarrow> length w = 512 \<Longrightarrow> win_inv dno ok img (fs\<lparr>win := w, wflag := 1\<rparr>)"
  by (simp add: win_inv_def)

context block_device
begin

lemma view_length: "inv fs \<Longrightarrow> length (view img fs t) = 512"
  using img_length by (auto simp: view_def win_inv_def)

lemma clean_view: "inv fs \<Longrightarrow> wflag fs = 0 \<Longrightarrow> tracked fs t \<Longrightarrow> view img fs t = img (dsk fs) t"
  by (auto simp: view_def win_inv_def)

lemma move_window_law:
  assumes inv: "inv fs"
  shows "returns (move_window ops s fs) (\<lambda>r fs'. r \<in> {FR_OK, FR_DISK_ERR} \<and> inv fs' \<and> same_vol fs fs' \<and>
    (\<forall>t. tracked fs t \<longrightarrow> view img fs' t = view img fs t) \<and>
    (r = FR_OK \<longrightarrow> winsect fs' = s \<and> (tracked fs s \<longrightarrow> win fs' = view img fs s)))"
proof (cases "s = winsect fs")
  case True
  then show ?thesis using inv by (simp add: move_window_def)
next
  case moved: False
  obtain r fs1 where sync: "sync_window ops fs = Some (r, fs1)" and r: "r \<in> {FR_OK, FR_DISK_ERR}"
    and inv1: "inv fs1" and f: "flushed fs fs1" and v: "\<And>t. \<not> mirror fs t \<Longrightarrow> view img fs1 t = view img fs t"
    and w: "r = FR_OK \<Longrightarrow> wflag fs1 = 0"
    using sync_window_law [OF inv] by (auto simp: returns_iff)
  have sv: "same_vol fs fs1" using f by (rule flushed_same_vol)
  note sel = same_vol_sel [OF sv]
  have vt: "view img fs1 t = view img fs t" if "tracked fs t" for t
    using v that by (simp add: tracked_def)
  show ?thesis
  proof (cases "r = FR_OK")
    case False
    then show ?thesis using moved sync r inv1 sv vt by (auto simp: move_window_def)
  next
    case True
    obtain r2 w2 d where rd: "drv_read ops (drv fs1) (win fs1) s 1 (dsk fs1) = Some ((r2, w2), d)"
      and d: "ok d" "img d = img (dsk fs1)" "length w2 = 512" and good: "r2 = RES_OK \<Longrightarrow> w2 = img (dsk fs1) s"
      using read1 [of "dsk fs1" "win fs1" s] inv1 by (auto simp: win_inv_def returns_iff)
    have cv: "img (dsk fs1) t = view img fs t" if "tracked fs t" for t
      using clean_view [OF inv1 w [OF True], of t] that vt sel by simp
    show ?thesis
    proof (cases "r2 = RES_OK")
      case True
      have "same_vol fs (fs1\<lparr>win := w2, dsk := d, winsect := s\<rparr>)"
        by (rule same_vol_trans [OF sv], rule same_volI [where a = "wflag fs1" and b = s and c = w2 and d = d]) simp
      then show ?thesis
        using True \<open>r = FR_OK\<close> moved sync rd d good inv1 cv sel same_vol_sel
        by (simp add: move_window_def win_inv_def view_def)
    next
      case False
      have "same_vol fs (fs1\<lparr>win := w2, dsk := d, winsect := 0xFFFFFFFF\<rparr>)"
        by (rule same_vol_trans [OF sv], rule same_volI [where a = "wflag fs1" and b = "0xFFFFFFFF" and c = w2 and d = d]) simp
      then show ?thesis
        using False \<open>r = FR_OK\<close> moved sync rd d inv1 cv sel same_vol_sel
        by (simp add: move_window_def win_inv_def view_def tracked_def)
    qed
  qed
qed

end

section \<open>Loads and stores in a sector\<close>

lemma nth_overlay_off [simp]:
  "off + length ys \<le> length xs \<Longrightarrow> k < length ys \<Longrightarrow> overlay off ys xs ! (off + k) = ys ! k"
  by (simp add: nth_overlay)

lemma LD_WORD_in: "off + 2 \<le> length b \<Longrightarrow> LD_WORD off b = Some (le16 (b ! off) (b ! (off + 1)))"
  by (simp add: LD_WORD_def get_at_in)

lemma LD_DWORD_in: "off + 4 \<le> length b \<Longrightarrow>
    LD_DWORD off b = Some (le32 (b ! off) (b ! (off + 1)) (b ! (off + 2)) (b ! (off + 3)))"
  by (simp add: LD_DWORD_def get_at_in)

lemma ST_WORD_in: "off + 2 \<le> length b \<Longrightarrow> ST_WORD off v b = Some (overlay off (bytes_le16 v) b)"
  by (simp add: ST_WORD_def put_range_in)

lemma ST_DWORD_in: "off + 4 \<le> length b \<Longrightarrow> ST_DWORD off v b = Some (overlay off (bytes_le32 v) b)"
  by (simp add: ST_DWORD_def put_range_in)

lemma mem_set_in: "off + n \<le> length b \<Longrightarrow> mem_set off v n b = Some (overlay off (replicate n v) b)"
  by (simp add: mem_set_def put_range_in)

lemma LD_ST_WORD [codec_simps]:
  "off + 2 \<le> length b \<Longrightarrow> LD_WORD off (overlay off (bytes_le16 v) b) = Some v"
  using le16_bytes [of v] by (simp add: LD_WORD_in nth_overlay bytes_le16_def)

lemma LD_ST_DWORD [codec_simps]:
  "off + 4 \<le> length b \<Longrightarrow> LD_DWORD off (overlay off (bytes_le32 v) b) = Some v"
  using le32_bytes [of v] by (simp add: LD_DWORD_in nth_overlay bytes_le32_def nth_Cons')

lemma LD_WORD_other:
  "p + length ys \<le> length b \<Longrightarrow> off + 2 \<le> p \<or> p + length ys \<le> off \<Longrightarrow> off + 2 \<le> length b \<Longrightarrow>
   LD_WORD off (overlay p ys b) = LD_WORD off b"
  by (auto simp: LD_WORD_in nth_overlay)

lemma LD_DWORD_other:
  "p + length ys \<le> length b \<Longrightarrow> off + 4 \<le> p \<or> p + length ys \<le> off \<Longrightarrow> off + 4 \<le> length b \<Longrightarrow>
   LD_DWORD off (overlay p ys b) = LD_DWORD off b"
  by (auto simp: LD_DWORD_in nth_overlay)

lemmas sector_access = LD_WORD_in LD_DWORD_in ST_WORD_in ST_DWORD_in mem_set_in
  LD_WORD_other LD_DWORD_other

lemma fsinfo_sector_law:
  assumes "length w = 512"
  shows "\<exists>v. fsinfo_sector free lastc w = Some v \<and> length v = 512 \<and> LD_WORD 510 v = Some 0xAA55 \<and>
    LD_DWORD 0 v = Some 0x41615252 \<and> LD_DWORD 484 v = Some 0x61417272 \<and>
    LD_DWORD 488 v = Some free \<and> LD_DWORD 492 v = Some lastc"
proof -
  have "length (overlay 0 (replicate 512 0) w) = 512" using assms by simp
  then obtain z where z: "mem_set 0 0 SS w = Some z" "length z = 512"
    using assms by (simp add: mem_set_in SS_def)
  let ?a = "overlay 510 (bytes_le16 0xAA55) z" and ?b = "overlay 0 (bytes_le32 0x41615252)"
    and ?c = "overlay 484 (bytes_le32 0x61417272)" and ?d = "overlay 488 (bytes_le32 free)"
    and ?e = "overlay 492 (bytes_le32 lastc)"
  have len: "length ?a = 512" "length (?b ?a) = 512" "length (?c (?b ?a)) = 512"
    "length (?d (?c (?b ?a))) = 512" "length (?e (?d (?c (?b ?a)))) = 512"
    using z(2) by simp_all
  have "fsinfo_sector free lastc w = Some (?e (?d (?c (?b ?a))))"
    using z len by (simp add: fsinfo_sector_def ST_WORD_in ST_DWORD_in)
  then show ?thesis
    using len z(2) by (simp add: LD_WORD_other LD_DWORD_other codec_simps)
qed

context block_device
begin

lemma sync_fs_law:
  assumes inv: "inv fs"
  shows "returns (sync_fs ops fs) (\<lambda>r fs'. r \<in> {FR_OK, FR_DISK_ERR} \<and> inv fs' \<and>
    same_vol (fs\<lparr>fsi_flag := fsi_flag fs'\<rparr>) fs' \<and>
    (\<forall>t. tracked fs t \<longrightarrow> view img fs' t = view img fs t) \<and>
    (r = FR_OK \<longrightarrow> wflag fs' = 0 \<and> (\<forall>t. tracked fs t \<longrightarrow> img (dsk fs') t = view img fs t)))"
proof -
  obtain r fs1 where sync: "sync_window ops fs = Some (r, fs1)" and r: "r \<in> {FR_OK, FR_DISK_ERR}"
    and inv1: "inv fs1" and f: "flushed fs fs1" and v: "\<And>t. \<not> mirror fs t \<Longrightarrow> view img fs1 t = view img fs t"
    and w: "r = FR_OK \<Longrightarrow> wflag fs1 = 0"
    using sync_window_law [OF inv] by (auto simp: returns_iff)
  have sv: "same_vol fs fs1" using f by (rule flushed_same_vol)
  note sel = same_vol_sel [OF sv]
  have vt: "view img fs1 t = view img fs t" if "tracked fs t" for t
    using v that by (simp add: tracked_def)
  show ?thesis
  proof (cases "r = FR_OK")
    case False
    then show ?thesis using sync r inv1 sv vt sel by (simp add: sync_fs_def)
  next
    case True
    have cv: "img (dsk fs1) t = view img fs t" if "tracked fs t" for t
      using clean_view [OF inv1 w [OF True], of t] that vt sel by simp
    show ?thesis
    proof (cases "fs_type fs1 = FS_FAT32 \<and> fsi_flag fs1 = 1")
      case False
      obtain r2 w2 d where io: "drv_ioctl ops (drv fs1) 0 [] (dsk fs1) = Some ((r2, w2), d)" "ok d" "img d = img (dsk fs1)"
        using sync_law [of "dsk fs1"] inv1 by (auto simp: win_inv_def returns_iff)
      have sv2: "same_vol fs (fs1\<lparr>dsk := d\<rparr>)"
        using sv flushed_same_vol [of fs1 "fs1\<lparr>dsk := d\<rparr>"] by (auto intro: same_vol_trans)
      show ?thesis
        using False True sync io inv1 cv w vt sel sv2 same_vol_sel [OF sv2]
        by (auto simp: sync_fs_def win_inv_def view_def split: if_splits)
    next
      case info: True
      obtain v where fv: "fsinfo_sector (free_clust fs1) (last_clust fs1) (win fs1) = Some v" "length v = 512"
        using fsinfo_sector_law [of "win fs1"] inv1 by (auto simp: win_inv_def)
      obtain r1 d1 where wr: "drv_write ops (drv fs1) v (volbase fs1 + 1) 1 (dsk fs1) = Some (r1, d1)" "ok d1"
          "\<And>t. t \<noteq> volbase fs1 + 1 \<Longrightarrow> img d1 t = img (dsk fs1) t"
        using write1 [of "dsk fs1" v "volbase fs1 + 1"] inv1 fv by (auto simp: win_inv_def returns_iff)
      obtain r2 w2 d where io: "drv_ioctl ops (drv fs1) 0 [] d1 = Some ((r2, w2), d)" "ok d" "img d = img d1"
        using sync_law [of d1] inv1 wr(2) by (auto simp: win_inv_def returns_iff)
      let ?fs = "fs1\<lparr>win := v, winsect := volbase fs1 + 1, fsi_flag := 0, dsk := d\<rparr>"
      have sv2: "same_vol (fs\<lparr>fsi_flag := 0\<rparr>) ?fs"
        using f by (auto simp: flushed_def same_vol_def)
      have nt: "\<not> tracked fs (volbase fs + 1)" using info sel by (simp add: tracked_def)
      have dv: "t \<noteq> volbase fs + 1 \<and> img d1 t = view img fs t" if "tracked fs t" for t
        using that nt wr(3) cv [OF that] sel by (cases "t = volbase fs + 1") auto
      have "view img ?fs t = view img fs t" if "tracked fs t" for t
        using dv [OF that] io sel by (simp add: view_off_win)
      then show ?thesis
        using info True sync fv wr(1,2) io inv1 w sel sv2 nt dv
        by (simp add: sync_fs_def win_inv_def)
    qed
  qed
qed

end

section \<open>Drives\<close>

lemma length_sectors: "(\<And>t. length (im t) = 512) \<Longrightarrow> length (sectors im s n) = 512 * unat n"
  by (simp add: sectors_def length_concat comp_def sum_list_triv)

lemma length_store_sectors:
  assumes "\<And>t. length (im t) = 512" and "length b = 512 * unat n"
  shows "length (store_sectors s n b im t) = 512"
proof (cases "t - s < n")
  case True
  then have "unat (t - s) < unat n" by (simp add: word_less_nat_alt)
  then show ?thesis using True assms by (simp add: store_sectors_def)
qed (use assms in \<open>simp add: store_sectors_def\<close>)

text \<open>The functions of \<open>diskio.c\<close>, on an initialised card that delivers its sectors.\<close>

definition card_ready :: "('s \<Rightarrow> bool) \<Rightarrow> 's disk \<Rightarrow> bool" where
  "card_ready cok d \<longleftrightarrow> cok (card d) \<and> Stat d AND STA_NOINIT = 0 \<and> CardType d AND CT_BLOCK \<noteq> 0"

lemma diskio_block_device:
  assumes "sector_card co cok data"
  shows "block_device (diskio_ops co csd0) 0 (card_ready cok) (\<lambda>d. data (card d))"
proof (unfold_locales, goal_cases)
  case (1 d s)
  then show ?case using assms by (auto simp: card_ready_def sector_card_def)
next
  case (2 d n b s)
  have len: "length (data (card d) t) = 512" for t
    using 2(1) assms by (auto simp: card_ready_def sector_card_def)
  have keep: "Stat d' = Stat d \<and> CardType d' = CardType d" if "disk_read co 0 b s n d = Some (r, d')" for r d'
    using that by (auto simp: disk_read_def Let_def bind_eq_Some_conv split: if_splits)
  show ?case
    using disk_read_correct [OF assms, of d n b s] 2 keep length_sectors [of "data (card d)" s n] len
    by (auto simp: card_ready_def diskio_ops_def sectors_def returns_iff)
next
  case (3 d n b s)
  then show ?case by (simp add: diskio_ops_def disk_write_never_ok)
next
  case (4 d)
  then show ?case by (simp add: diskio_ops_def disk_ioctl_def card_ready_def)
qed

interpretation diskio: block_device "diskio_ops demo_card []" 0 "card_ready (\<lambda>c. True)" "\<lambda>d s. replicate 512 (ucast s)"
  using diskio_block_device [OF demo_sector_card] by simp

text \<open>A drive in memory.\<close>

definition ram_ops :: "(u32 \<Rightarrow> bytes) disk_ops" where
  "ram_ops = \<lparr>drv_status = (\<lambda>p d. 0), drv_initialize = (\<lambda>p d. Some (0, d)),
     drv_read = (\<lambda>p b s n d. Some ((RES_OK, sectors d s n), d)),
     drv_write = (\<lambda>p b s n d. Some (RES_OK, store_sectors s n b d)),
     drv_ioctl = (\<lambda>p c b d. Some ((RES_OK, b), d))\<rparr>"

definition ram_ok :: "(u32 \<Rightarrow> bytes) \<Rightarrow> bool" where
  "ram_ok d \<longleftrightarrow> (\<forall>s. length (d s) = 512)"

interpretation ram: block_device ram_ops dno ram_ok "\<lambda>d. d"
  by unfold_locales
    (auto simp: ram_ops_def ram_ok_def length_sectors length_store_sectors, simp add: store_sectors_def)

section \<open>Properties\<close>

text \<open>
  C3: The window is a write-back cache.  On a drive that may fail, \<open>move_window\<close> returns,
  keeps the invariant and every tracked sector as FatFs sees it, and on FR_OK the window
  holds the requested sector.
\<close>

theorem move_window_correct:
  assumes "block_device ops dno ok img" and "win_inv dno ok img fs"
  shows "returns (move_window ops s fs) (\<lambda>r fs'. r \<in> {FR_OK, FR_DISK_ERR} \<and> win_inv dno ok img fs' \<and>
    (\<forall>t. tracked fs t \<longrightarrow> view img fs' t = view img fs t) \<and>
    (r = FR_OK \<longrightarrow> winsect fs' = s \<and> (tracked fs s \<longrightarrow> win fs' = view img fs s)))"
  by (rule returns_mono [OF block_device.move_window_law [OF assms]]) blast

text \<open>
  C7: When \<open>sync_fs\<close> returns FR_OK every tracked sector on the drive is what FatFs
  saw, and the window is clean; when it fails no tracked sector has changed for FatFs.
\<close>

theorem sync_fs_flushes:
  assumes "block_device ops dno ok img" and "win_inv dno ok img fs"
  shows "returns (sync_fs ops fs) (\<lambda>r fs'. r \<in> {FR_OK, FR_DISK_ERR} \<and> win_inv dno ok img fs' \<and>
    (\<forall>t. tracked fs t \<longrightarrow> view img fs' t = view img fs t) \<and>
    (r = FR_OK \<longrightarrow> wflag fs' = 0 \<and> (\<forall>t. tracked fs t \<longrightarrow> img (dsk fs') t = view img fs t)))"
  by (rule returns_mono [OF block_device.sync_fs_law [OF assms]]) blast

definition demo_fs :: "'d \<Rightarrow> bytes \<Rightarrow> 'd fatfs" where
  "demo_fs d w = \<lparr>fs_type = FS_FAT16, drv = 0, csize = 2, n_fats = 2, wflag = 1, fsi_flag = 0x80,
     fs_id = 1, n_rootdir = 32, last_clust = 0xFFFFFFFF, free_clust = 0xFFFFFFFF, cdir = 0,
     n_fatent = 300, fsize = 2, volbase = 63, fatbase = 64, dirbase = 68, database = 70,
     winsect = 68, win = w, dsk = d\<rparr>"

lemma demo_win_inv: "ram_ok d \<Longrightarrow> length w = 512 \<Longrightarrow> win_inv 0 ram_ok (\<lambda>d. d) (demo_fs d w)"
  by (simp add: win_inv_def demo_fs_def)

lemma demo_fs_facts:
  "tracked (demo_fs d w) 68" "tracked (demo_fs d w) 70"
  "view (\<lambda>d. d) (demo_fs d w) 68 = w" "view (\<lambda>d. d) (demo_fs d w) 70 = d 70"
  by (simp_all add: view_def tracked_def mirror_def demo_fs_def FS_FAT16_def FS_FAT32_def)

abbreviation demo_dirty :: "(u32 \<Rightarrow> bytes) fatfs" where
  "demo_dirty \<equiv> demo_fs (\<lambda>s. replicate 512 1) (replicate 512 7)"

lemma demo_dirty_inv: "win_inv 0 ram_ok (\<lambda>d. d) demo_dirty"
  by (rule demo_win_inv) (simp_all add: ram_ok_def)

theorem move_window_correct_witness:
  "returns (move_window ram_ops 70 demo_dirty) (\<lambda>r fs'.
     view (\<lambda>d. d) fs' 68 = replicate 512 7 \<and> (r = FR_OK \<longrightarrow> win fs' = replicate 512 1))"
  by (rule returns_mono [OF move_window_correct [OF ram.block_device_axioms demo_dirty_inv, of 70]])
    (simp add: demo_fs_facts)

theorem sync_fs_flushes_witness:
  "returns (sync_fs ram_ops demo_dirty) (\<lambda>r fs'.
     r = FR_OK \<longrightarrow> dsk fs' 68 = replicate 512 7 \<and> dsk fs' 70 = replicate 512 1)"
  by (rule returns_mono [OF sync_fs_flushes [OF ram.block_device_axioms demo_dirty_inv]])
    (simp add: demo_fs_facts)

text \<open>The sector the window holds belongs to a table that has a second copy.\<close>

definition has_mirror :: "'d fatfs \<Rightarrow> bool" where
  "has_mirror fs \<longleftrightarrow> n_fats fs = 2 \<and> winsect fs - fatbase fs < fsize fs"

context block_device
begin

lemma sync_window_mirrors_law:
  assumes inv: "inv fs" and dirty: "wflag fs \<noteq> 0"
  shows "returns (sync_window ops fs) (\<lambda>r fs'. fs' = fs\<lparr>wflag := wflag fs', dsk := dsk fs'\<rparr> \<and> ok (dsk fs') \<and>
    (case r of
       FR_OK \<Rightarrow> wflag fs' = 0 \<and> img (dsk fs') (winsect fs) = win fs \<and>
         (\<forall>t. t \<noteq> winsect fs \<longrightarrow> \<not> (has_mirror fs \<and> t = winsect fs + fsize fs) \<longrightarrow> img (dsk fs') t = img (dsk fs) t) \<and>
         (has_mirror fs \<longrightarrow> (\<exists>d q. img d = (img (dsk fs))(winsect fs := win fs) \<and>
            drv_write ops dno (win fs) (winsect fs + fsize fs) 1 d = Some (q, dsk fs') \<and>
            (q = RES_OK \<longrightarrow> img (dsk fs') (winsect fs + fsize fs) = win fs)))
     | _ \<Rightarrow> r = FR_DISK_ERR \<and> wflag fs' = wflag fs \<and> (\<forall>t. t \<noteq> winsect fs \<longrightarrow> img (dsk fs') t = img (dsk fs) t)))"
proof -
  have i: "ok (dsk fs)" "drv fs = dno" "length (win fs) = 512" "n_fats fs \<le> 2" using inv by (auto simp: win_inv_def)
  obtain r1 d1 where d1: "drv_write ops dno (win fs) (winsect fs) 1 (dsk fs) = Some (r1, d1)" "ok d1"
      "r1 = RES_OK \<Longrightarrow> img d1 = (img (dsk fs))(winsect fs := win fs)" "\<And>t. t \<noteq> winsect fs \<Longrightarrow> img d1 t = img (dsk fs) t"
    using write1 [OF i(1,3), of "winsect fs"] by (auto simp: returns_iff)
  obtain r2 d2 where d2: "drv_write ops dno (win fs) (winsect fs + fsize fs) 1 d1 = Some (r2, d2)" "ok d2"
      "r2 = RES_OK \<Longrightarrow> img d2 = (img d1)(winsect fs + fsize fs := win fs)"
      "\<And>t. t \<noteq> winsect fs + fsize fs \<Longrightarrow> img d2 t = img d1 t"
    using write1 [OF d1(2) i(3), of "winsect fs + fsize fs"] by (auto simp: returns_iff)
  have one: "unat (n_fats fs) - Suc 0 = (if n_fats fs = 2 then 1 else 0)"
    using i(4) by (auto simp: word_le_nat_alt word_unat_eq_iff)
  have step: "sync_window ops fs = (if r1 \<noteq> RES_OK then Some (FR_DISK_ERR, fs\<lparr>dsk := d1\<rparr>)
      else if has_mirror fs then Some (FR_OK, fs\<lparr>dsk := d2, wflag := 0\<rparr>) else Some (FR_OK, fs\<lparr>dsk := d1, wflag := 0\<rparr>))"
    using dirty i(2) d1(1) d2(1) by (simp add: sync_window_def has_mirror_def one Let_def)
  have away: "has_mirror fs \<Longrightarrow> winsect fs \<noteq> winsect fs + fsize fs" by (auto simp: has_mirror_def)
  consider "r1 \<noteq> RES_OK" | "r1 = RES_OK" "\<not> has_mirror fs" | "r1 = RES_OK" "has_mirror fs" by blast
  then show ?thesis
  proof cases
    case 3
    then show ?thesis using step d1 d2 away by auto
  qed (use step d1 in auto)
qed

end

text \<open>
  C32: Writing back a dirty window, on a drive that may fail.  FR_OK means that the sector is stored and
  the window clean; if the sector is part of a table with a second copy, the same bytes have then been
  sent to the second copy, which equals the first when that write succeeded.  Its result is not looked
  at: FR_OK says nothing about it.  After FR_DISK_ERR the window is as dirty as before and no write was
  sent to the second copy.  No other sector and no other field of the volume changes.
\<close>

theorem sync_window_mirrors:
  assumes "block_device ops dno ok img" and "win_inv dno ok img fs" and "wflag fs \<noteq> 0"
  shows "returns (sync_window ops fs) (\<lambda>r fs'. fs' = fs\<lparr>wflag := wflag fs', dsk := dsk fs'\<rparr> \<and> ok (dsk fs') \<and>
    (case r of
       FR_OK \<Rightarrow> wflag fs' = 0 \<and> img (dsk fs') (winsect fs) = win fs \<and>
         (\<forall>t. t \<noteq> winsect fs \<longrightarrow> \<not> (has_mirror fs \<and> t = winsect fs + fsize fs) \<longrightarrow> img (dsk fs') t = img (dsk fs) t) \<and>
         (has_mirror fs \<longrightarrow> (\<exists>d q. img d = (img (dsk fs))(winsect fs := win fs) \<and>
            drv_write ops dno (win fs) (winsect fs + fsize fs) 1 d = Some (q, dsk fs') \<and>
            (q = RES_OK \<longrightarrow> img (dsk fs') (winsect fs + fsize fs) = win fs)))
     | _ \<Rightarrow> r = FR_DISK_ERR \<and> wflag fs' = wflag fs \<and> (\<forall>t. t \<noteq> winsect fs \<longrightarrow> img (dsk fs') t = img (dsk fs) t)))"
  by (rule block_device.sync_window_mirrors_law [OF assms])

theorem sync_window_mirrors_witness:
  "\<exists>fs'. sync_window ram_ops (demo_dirty\<lparr>winsect := 65\<rparr>) = Some (FR_OK, fs') \<and> wflag fs' = 0 \<and>
     dsk fs' 65 = replicate 512 7 \<and> dsk fs' 67 = replicate 512 7 \<and> dsk fs' 66 = replicate 512 1"
proof -
  let ?fs = "demo_dirty\<lparr>winsect := 65\<rparr>"
  have inv: "win_inv 0 ram_ok (\<lambda>d. d) ?fs" "wflag ?fs \<noteq> 0" by (simp_all add: win_inv_def demo_fs_def ram_ok_def)
  have two: "has_mirror ?fs" by (simp add: has_mirror_def demo_fs_def)
  have "unat (2 :: u8) - Suc 0 = Suc 0" by simp
  then obtain fs' where "sync_window ram_ops ?fs = Some (FR_OK, fs')"
    by (simp add: sync_window_def demo_fs_def ram_ops_def)
  moreover have "drv_write ram_ops p b s n d = Some (q, d') \<Longrightarrow> q = RES_OK" for p b s n d q d'
    by (simp add: ram_ops_def)
  ultimately show ?thesis
    using sync_window_mirrors [OF ram.block_device_axioms inv] two by (auto simp: demo_fs_def)
qed

end
