(* ===== verification/Fat_Table.thy ===== *)
theory Fat_Table
  imports Fat_Window
begin

text \<open>
  The file allocation table of FatFs, \<open>ff.c\<close>: reading and changing an entry of a FAT12,
  FAT16 or FAT32 table, releasing a cluster chain, allocating a cluster.  The table is
  abstracted to the function \<open>fat_entry\<close> from clusters to values, read through the window;
  the laws say which entries an operation changes, on drives that may fail.
\<close>

section \<open>Entries\<close>

definition get_fat :: "'d disk_ops \<Rightarrow> u32 \<Rightarrow> 'd fatfs \<Rightarrow> (u32 \<times> 'd fatfs) option" where
  "get_fat ops clst fs =
     (if clst < 2 \<or> clst \<ge> n_fatent fs then Some (1, fs)
      else if fs_type fs = FS_FAT12 then do {
        let bc = clst + clst div 2;
        (r, fs) \<leftarrow> move_window ops (fatbase fs + bc div 512) fs;
        if r \<noteq> FR_OK then Some (0xFFFFFFFF, fs) else do {
        wc \<leftarrow> get_at (unat (bc mod 512)) (win fs);
        let bc = bc + 1;
        (r, fs) \<leftarrow> move_window ops (fatbase fs + bc div 512) fs;
        if r \<noteq> FR_OK then Some (0xFFFFFFFF, fs) else do {
        wc2 \<leftarrow> get_at (unat (bc mod 512)) (win fs);
        let wc = ucast wc OR push_bit 8 (ucast wc2);
        Some (if clst AND 1 \<noteq> 0 then drop_bit 4 wc else wc AND 0xFFF, fs) } } }
      else if fs_type fs = FS_FAT16 then do {
        (r, fs) \<leftarrow> move_window ops (fatbase fs + clst div 256) fs;
        if r \<noteq> FR_OK then Some (0xFFFFFFFF, fs) else do {
        v \<leftarrow> LD_WORD (unat (clst * 2 mod 512)) (win fs);
        Some (ucast v, fs) } }
      else if fs_type fs = FS_FAT32 then do {
        (r, fs) \<leftarrow> move_window ops (fatbase fs + clst div 128) fs;
        if r \<noteq> FR_OK then Some (0xFFFFFFFF, fs) else do {
        v \<leftarrow> LD_DWORD (unat (clst * 4 mod 512)) (win fs);
        Some (v AND 0x0FFFFFFF, fs) } }
      else Some (1, fs))"

definition put_fat :: "'d disk_ops \<Rightarrow> u32 \<Rightarrow> u32 \<Rightarrow> 'd fatfs \<Rightarrow> (fresult \<times> 'd fatfs) option" where
  "put_fat ops clst val fs =
     (if clst < 2 \<or> clst \<ge> n_fatent fs then Some (FR_INT_ERR, fs)
      else if fs_type fs = FS_FAT12 then do {
        let bc = clst + clst div 2;
        (r, fs) \<leftarrow> move_window ops (fatbase fs + bc div 512) fs;
        if r \<noteq> FR_OK then Some (r, fs) else do {
        p \<leftarrow> get_at (unat (bc mod 512)) (win fs);
        w \<leftarrow> put_at (unat (bc mod 512))
               (if clst AND 1 \<noteq> 0 then (p AND 0x0F) OR push_bit 4 (ucast val) else ucast val) (win fs);
        let bc = bc + 1;
        let fs = fs\<lparr>win := w, wflag := 1\<rparr>;
        (r, fs) \<leftarrow> move_window ops (fatbase fs + bc div 512) fs;
        if r \<noteq> FR_OK then Some (r, fs) else do {
        p \<leftarrow> get_at (unat (bc mod 512)) (win fs);
        w \<leftarrow> put_at (unat (bc mod 512))
               (if clst AND 1 \<noteq> 0 then ucast (drop_bit 4 val)
                else (p AND 0xF0) OR (ucast (drop_bit 8 val) AND 0x0F)) (win fs);
        Some (FR_OK, fs\<lparr>win := w, wflag := 1\<rparr>) } } }
      else if fs_type fs = FS_FAT16 then do {
        (r, fs) \<leftarrow> move_window ops (fatbase fs + clst div 256) fs;
        if r \<noteq> FR_OK then Some (r, fs) else do {
        w \<leftarrow> ST_WORD (unat (clst * 2 mod 512)) (ucast val) (win fs);
        Some (FR_OK, fs\<lparr>win := w, wflag := 1\<rparr>) } }
      else if fs_type fs = FS_FAT32 then do {
        (r, fs) \<leftarrow> move_window ops (fatbase fs + clst div 128) fs;
        if r \<noteq> FR_OK then Some (r, fs) else do {
        v \<leftarrow> LD_DWORD (unat (clst * 4 mod 512)) (win fs);
        w \<leftarrow> ST_DWORD (unat (clst * 4 mod 512)) (val OR (v AND 0xF0000000)) (win fs);
        Some (FR_OK, fs\<lparr>win := w, wflag := 1\<rparr>) } }
      else Some (FR_INT_ERR, fs))"

section \<open>Chains\<close>

partial_function (option) remove_loop :: "'d disk_ops \<Rightarrow> u32 \<Rightarrow> 'd fatfs \<Rightarrow> (fresult \<times> 'd fatfs) option" where
  "remove_loop ops clst fs =
     (if clst < n_fatent fs then do {
        (nxt, fs) \<leftarrow> get_fat ops clst fs;
        if nxt = 0 then Some (FR_OK, fs)
        else if nxt = 1 then Some (FR_INT_ERR, fs)
        else if nxt = 0xFFFFFFFF then Some (FR_DISK_ERR, fs)
        else do {
          (res, fs) \<leftarrow> put_fat ops clst 0 fs;
          if res \<noteq> FR_OK then Some (res, fs)
          else remove_loop ops nxt
            (if free_clust fs \<noteq> 0xFFFFFFFF
             then fs\<lparr>free_clust := free_clust fs + 1, fsi_flag := fsi_flag fs OR 1\<rparr> else fs) } }
      else Some (FR_OK, fs))"

definition remove_chain :: "'d disk_ops \<Rightarrow> u32 \<Rightarrow> 'd fatfs \<Rightarrow> (fresult \<times> 'd fatfs) option" where
  "remove_chain ops clst fs =
     (if clst < 2 \<or> clst \<ge> n_fatent fs then Some (FR_INT_ERR, fs) else remove_loop ops clst fs)"

text \<open>
  The search for a free cluster, \<open>ncl\<close> being the last one looked at: \<open>Inr\<close> is the cluster
  found, \<open>Inl\<close> the value \<open>create_chain\<close> returns at once.
\<close>

partial_function (option) create_scan :: "'d disk_ops \<Rightarrow> u32 \<Rightarrow> u32 \<Rightarrow> 'd fatfs \<Rightarrow> ((u32 + u32) \<times> 'd fatfs) option" where
  "create_scan ops scl ncl fs = do {
     let ncl = ncl + 1;
     let wrap = ncl \<ge> n_fatent fs;
     let ncl = (if wrap then 2 else ncl);
     if wrap \<and> ncl > scl then Some (Inl 0, fs)
     else do {
       (cs, fs) \<leftarrow> get_fat ops ncl fs;
       if cs = 0 then Some (Inr ncl, fs)
       else if cs = 0xFFFFFFFF \<or> cs = 1 then Some (Inl cs, fs)
       else if ncl = scl then Some (Inl 0, fs)
       else create_scan ops scl ncl fs } }"

definition create_start :: "'d disk_ops \<Rightarrow> u32 \<Rightarrow> 'd fatfs \<Rightarrow> ((u32 + u32) \<times> 'd fatfs) option" where
  "create_start ops clst fs =
     (if clst = 0
      then Some (Inr (if last_clust fs = 0 \<or> last_clust fs \<ge> n_fatent fs then 1 else last_clust fs), fs)
      else do {
        (cs, fs) \<leftarrow> get_fat ops clst fs;
        Some (if cs < 2 then Inl 1 else if cs = 0xFFFFFFFF then Inl cs
              else if cs < n_fatent fs then Inl cs else Inr clst, fs) })"

definition note_alloc :: "u32 \<Rightarrow> 'd fatfs \<Rightarrow> 'd fatfs" where
  "note_alloc ncl fs =
     (let fs = fs\<lparr>last_clust := ncl\<rparr>
      in if free_clust fs \<noteq> 0xFFFFFFFF
         then fs\<lparr>free_clust := free_clust fs - 1, fsi_flag := fsi_flag fs OR 1\<rparr> else fs)"

definition create_chain :: "'d disk_ops \<Rightarrow> u32 \<Rightarrow> 'd fatfs \<Rightarrow> (u32 \<times> 'd fatfs) option" where
  "create_chain ops clst fs = do {
     (start, fs) \<leftarrow> create_start ops clst fs;
     case start of Inl v \<Rightarrow> Some (v, fs) | Inr scl \<Rightarrow> do {
     (found, fs) \<leftarrow> create_scan ops scl scl fs;
     case found of Inl v \<Rightarrow> Some (v, fs) | Inr ncl \<Rightarrow> do {
     (res, fs) \<leftarrow> put_fat ops ncl 0x0FFFFFFF fs;
     (res, fs) \<leftarrow> (if res = FR_OK \<and> clst \<noteq> 0 then put_fat ops clst ncl fs else Some (res, fs));
     if res = FR_OK then Some (ncl, note_alloc ncl fs)
     else Some (if res = FR_DISK_ERR then 0xFFFFFFFF else 1, fs) } } }"

section \<open>The table as bytes\<close>

text \<open>
  The value of entry \<open>c\<close> in a table with bytes \<open>f\<close>, and the table with \<open>v\<close> stored in
  entry \<open>c\<close>.  FAT12 packs two entries into three bytes, FAT32 keeps the top four bits.
\<close>

definition fat_pos :: "u8 \<Rightarrow> nat \<Rightarrow> nat" where
  "fat_pos ty c = (if ty = FS_FAT12 then c + c div 2 else if ty = FS_FAT16 then 2 * c else 4 * c)"

definition fat_val :: "u8 \<Rightarrow> (nat \<Rightarrow> u8) \<Rightarrow> nat \<Rightarrow> u32" where
  "fat_val ty f c = (let k = fat_pos ty c in
     if ty = FS_FAT12 then
       (let w = ucast (f k) OR push_bit 8 (ucast (f (k + 1))) in if odd c then drop_bit 4 w else w AND 0xFFF)
     else if ty = FS_FAT16 then ucast (le16 (f k) (f (k + 1)))
     else le32 (f k) (f (k + 1)) (f (k + 2)) (f (k + 3)) AND 0x0FFFFFFF)"

definition fat_mask :: "u8 \<Rightarrow> u32" where
  "fat_mask ty = (if ty = FS_FAT12 then 0xFFF else if ty = FS_FAT16 then 0xFFFF else 0x0FFFFFFF)"

definition fat12_put1 :: "(nat \<Rightarrow> u8) \<Rightarrow> nat \<Rightarrow> u32 \<Rightarrow> nat \<Rightarrow> u8" where
  "fat12_put1 f c v = f(c + c div 2 :=
     (if odd c then (f (c + c div 2) AND 0x0F) OR push_bit 4 (ucast v) else ucast v))"

definition fat12_put2 :: "(nat \<Rightarrow> u8) \<Rightarrow> nat \<Rightarrow> u32 \<Rightarrow> nat \<Rightarrow> u8" where
  "fat12_put2 f c v = f(c + c div 2 + 1 :=
     (if odd c then ucast (drop_bit 4 v)
      else (f (c + c div 2 + 1) AND 0xF0) OR (ucast (drop_bit 8 v) AND 0x0F)))"

definition fat_put :: "u8 \<Rightarrow> (nat \<Rightarrow> u8) \<Rightarrow> nat \<Rightarrow> u32 \<Rightarrow> nat \<Rightarrow> u8" where
  "fat_put ty f c v = (let k = fat_pos ty c in
     if ty = FS_FAT12 then fat12_put2 (fat12_put1 f c v) c v
     else if ty = FS_FAT16 then
       let w = (ucast v :: u16) in f(k := ucast w, k + 1 := ucast (drop_bit 8 w))
     else let w = v OR (le32 (f k) (f (k + 1)) (f (k + 2)) (f (k + 3)) AND 0xF0000000)
          in f(k := ucast w, k + 1 := ucast (drop_bit 8 w), k + 2 := ucast (drop_bit 16 w), k + 3 := ucast (drop_bit 24 w)))"

lemma fs_types [simp]: "FS_FAT16 \<noteq> FS_FAT12" "FS_FAT32 \<noteq> FS_FAT12" "FS_FAT32 \<noteq> FS_FAT16"
  "FS_FAT12 \<noteq> FS_FAT16" "FS_FAT12 \<noteq> FS_FAT32" "FS_FAT16 \<noteq> FS_FAT32"
  by (simp_all add: FS_FAT12_def FS_FAT16_def FS_FAT32_def)

lemma half_odd: "(2 * m + 1) + (2 * m + 1) div 2 = 3 * m + (1::nat)"
  by simp

lemma fat_val_12_even: "fat_val FS_FAT12 f (2 * m) = (ucast (f (3 * m)) OR push_bit 8 (ucast (f (3 * m + 1)))) AND 0xFFF"
  by (simp add: fat_val_def fat_pos_def Let_def)

lemma fat_val_12_odd: "fat_val FS_FAT12 f (2 * m + 1) =
    drop_bit 4 (ucast (f (3 * m + 1)) OR push_bit 8 (ucast (f (3 * m + 2))))"
proof -
  have "3 * m + 1 + 1 = 3 * m + (2::nat)" "odd (2 * m + 1)" by simp_all
  then show ?thesis unfolding fat_val_def fat_pos_def Let_def half_odd by (simp only: if_True simp_thms)
qed

lemma mask_bits:
  "(0xFFF :: u32) = mask 12" "(0xFFFF :: u32) = mask 16" "(0x0FFFFFFF :: u32) = mask 28"
  "(0xF0000000 :: u32) = push_bit 28 (mask 4)" "(0x0F :: u8) = mask 4" "(0xF0 :: u8) = push_bit 4 (mask 4)"
  by (simp_all add: mask_eq_exp_minus_1 push_bit_eq_mult)

lemma fat12_lo: fixes x :: u8 and v :: u32
  shows "(ucast (ucast v :: u8) OR push_bit 8 (ucast ((x AND 0xF0) OR (ucast (drop_bit 8 v) AND 0x0F)))) AND 0xFFF = v AND 0xFFF"
  unfolding mask_bits by (rule bit_word_eqI) (auto simp: bit_simps)

lemma fat12_lo_next: fixes x y :: u8 and v :: u32
  shows "drop_bit 4 (ucast ((x AND 0xF0) OR (ucast (drop_bit 8 v) AND 0x0F)) OR push_bit 8 (ucast y)) =
    (drop_bit 4 (ucast x OR push_bit 8 (ucast y)) :: u32)"
  unfolding mask_bits by (rule bit_word_eqI) (auto simp: bit_simps dest: bit_imp_le_length)

lemma fat12_hi: fixes x :: u8 and v :: u32
  shows "drop_bit 4 (ucast ((x AND 0x0F) OR push_bit 4 (ucast v :: u8)) OR push_bit 8 (ucast (ucast (drop_bit 4 v) :: u8))) =
    v AND 0xFFF"
  unfolding mask_bits by (rule bit_word_eqI) (auto simp: bit_simps)

lemma fat12_hi_prev: fixes x y :: u8 and v :: u32
  shows "(ucast y OR push_bit 8 (ucast ((x AND 0x0F) OR push_bit 4 (ucast v :: u8)))) AND 0xFFF =
    ((ucast y OR push_bit 8 (ucast x)) AND 0xFFF :: u32)"
  unfolding mask_bits by (rule bit_word_eqI) (auto simp: bit_simps)

lemma fat16_cast: "ucast (ucast v :: u16) = (v AND 0xFFFF :: u32)"
  unfolding mask_bits by (rule bit_word_eqI) (auto simp: bit_simps)

lemma fat32_mask: "(v OR (x AND 0xF0000000)) AND 0x0FFFFFFF = (v AND 0x0FFFFFFF :: u32)"
  unfolding mask_bits by (rule bit_word_eqI) (auto simp: bit_simps)

lemma fat12_put1_val:
  "c' \<noteq> c \<Longrightarrow> fat_val FS_FAT12 (fat12_put1 f c v) c' = fat_val FS_FAT12 f c'"
proof (cases "odd c")
  case True
  then obtain m where c: "c = 2 * m + 1" by (rule oddE)
  assume ne: "c' \<noteq> c"
  show ?thesis
  proof (cases "odd c'")
    case True
    then obtain n where "c' = 2 * n + 1" by (rule oddE)
    with ne c show ?thesis
      unfolding fat12_put1_def c half_odd by (simp only: fat_val_12_odd) (auto simp: fun_upd_def)
  next
    case False
    then obtain n where "c' = 2 * n" by auto
    with ne c show ?thesis
      unfolding fat12_put1_def c half_odd
      by (simp only: fat_val_12_even) (auto simp: fun_upd_def fat12_hi_prev)
  qed
next
  case False
  then obtain m where c: "c = 2 * m" by auto
  assume ne: "c' \<noteq> c"
  have k: "2 * m + 2 * m div 2 = 3 * m" by simp
  show ?thesis
  proof (cases "odd c'")
    case True
    then obtain n where "c' = 2 * n + 1" by (rule oddE)
    then show ?thesis
      unfolding fat12_put1_def c k by (simp only: fat_val_12_odd) (auto simp: fun_upd_def; presburger)
  next
    case False
    then obtain n where "c' = 2 * n" by auto
    with ne c show ?thesis
      unfolding fat12_put1_def c k by (simp only: fat_val_12_even) (auto simp: fun_upd_def; presburger)
  qed
qed

lemma fat12_put2_val:
  "c' \<noteq> c \<Longrightarrow> fat_val FS_FAT12 (fat12_put2 f c v) c' = fat_val FS_FAT12 f c'"
proof (cases "odd c")
  case True
  then obtain m where c: "c = 2 * m + 1" by (rule oddE)
  have k: "3 * m + 1 + 1 = 3 * m + (2::nat)" by simp
  assume ne: "c' \<noteq> c"
  show ?thesis
  proof (cases "odd c'")
    case True
    then obtain n where "c' = 2 * n + 1" by (rule oddE)
    with ne c show ?thesis
      unfolding fat12_put2_def c half_odd k by (simp only: fat_val_12_odd) (auto simp: fun_upd_def; presburger)
  next
    case False
    then obtain n where "c' = 2 * n" by auto
    with ne c show ?thesis
      unfolding fat12_put2_def c half_odd k by (simp only: fat_val_12_even) (auto simp: fun_upd_def; presburger)
  qed
next
  case False
  then obtain m where c: "c = 2 * m" by auto
  assume ne: "c' \<noteq> c"
  have k: "2 * m + 2 * m div 2 = 3 * m" by simp
  show ?thesis
  proof (cases "odd c'")
    case True
    then obtain n where "c' = 2 * n + 1" by (rule oddE)
    then show ?thesis
      unfolding fat12_put2_def c k by (simp only: fat_val_12_odd) (auto simp: fun_upd_def fat12_lo_next simp del: drop_bit_or)
  next
    case False
    then obtain n where "c' = 2 * n" by auto
    with ne c show ?thesis
      unfolding fat12_put2_def c k by (simp only: fat_val_12_even) (auto simp: fun_upd_def)
  qed
qed

lemma fat12_put_same:
  "fat_val FS_FAT12 (fat12_put2 (fat12_put1 f c v) c v) c = v AND 0xFFF"
proof (cases "odd c")
  case True
  then obtain m where c: "c = 2 * m + 1" by (rule oddE)
  have k: "3 * m + 1 + 1 = 3 * m + (2::nat)" by simp
  show ?thesis
    unfolding fat12_put2_def fat12_put1_def c half_odd k by (simp only: fat_val_12_odd) (simp add: fat12_hi del: drop_bit_or)
next
  case False
  then obtain m where c: "c = 2 * m" by auto
  have k: "2 * m + 2 * m div 2 = 3 * m" by simp
  show ?thesis
    unfolding fat12_put2_def fat12_put1_def c k by (simp only: fat_val_12_even) (simp add: fat12_lo)
qed

lemma fat_put_other: "c' \<noteq> c \<Longrightarrow> fat_val ty (fat_put ty f c v) c' = fat_val ty f c'"
  by (cases "ty = FS_FAT12")
    (auto simp: fat_put_def Let_def fat12_put1_val fat12_put2_val, auto simp: fat_val_def fat_pos_def Let_def)

lemma fat_put_same:
  "fat_val ty (fat_put ty f c v) c = v AND fat_mask ty"
proof -
  consider "ty = FS_FAT12" | "ty = FS_FAT16" | "ty \<noteq> FS_FAT12" "ty \<noteq> FS_FAT16" by blast
  then show ?thesis
  proof cases
    case 1
    then show ?thesis by (simp add: fat_put_def fat12_put_same fat_mask_def)
  next
    case 2
    then show ?thesis by (simp add: fat_put_def fat_val_def fat_pos_def Let_def le16_bytes fat16_cast fat_mask_def)
  next
    case 3
    have neq: "4 * c \<noteq> 4 * c + 1" "4 * c + 1 \<noteq> 4 * c + 2" "4 * c \<noteq> 4 * c + 2" "4 * c \<noteq> 4 * c + 3" "4 * c + 1 \<noteq> 4 * c + 3"
      "4 * c + 2 \<noteq> 4 * c + (3 :: nat)" by simp_all
    from 3 show ?thesis by (simp add: fat_put_def fat_val_def fat_pos_def Let_def le32_bytes fat32_mask fat_mask_def neq del: drop_bit_or)
  qed
qed

lemma fat_val_cong:
  assumes "\<And>k. k < fat_pos ty c + (if ty = FS_FAT12 \<or> ty = FS_FAT16 then 2 else 4) \<Longrightarrow> fat_pos ty c \<le> k \<Longrightarrow> f k = g k"
  shows "fat_val ty f c = fat_val ty g c"
  using assms by (simp add: fat_val_def Let_def)

section \<open>The volume layout\<close>

definition fat_size :: "u8 \<Rightarrow> nat \<Rightarrow> nat" where
  "fat_size ty n = (if ty = FS_FAT12 then (3 * n + 1) div 2 else if ty = FS_FAT16 then 2 * n else 4 * n)"

text \<open>
  What \<open>find_volume\<close> establishes of a mounted volume: the areas lie one after the other below
  the last sector number, the table has room for every entry, and the number of entries
  fits the FAT type.
\<close>

definition vol_layout :: "'d fatfs \<Rightarrow> bool" where
  "vol_layout fs \<longleftrightarrow>
     fs_type fs \<in> {FS_FAT12, FS_FAT16, FS_FAT32} \<and> n_fats fs \<in> {1, 2} \<and> csize fs \<noteq> 0 \<and>
     2 < n_fatent fs \<and>
     unat (n_fatent fs) < (if fs_type fs = FS_FAT12 then 4088 else if fs_type fs = FS_FAT16 then 65528 else 0x0FFFFFF8) \<and>
     fat_size (fs_type fs) (unat (n_fatent fs)) \<le> 512 * unat (fsize fs) \<and>
     volbase fs + 1 \<le> fatbase fs \<and> volbase fs < fatbase fs \<and> (fs_type fs = FS_FAT32 \<longrightarrow> volbase fs + 1 < fatbase fs) \<and>
     unat (fatbase fs) + unat (n_fats fs) * unat (fsize fs) \<le> unat (database fs) \<and>
     unat (database fs) + (unat (n_fatent fs) - 2) * unat (csize fs) < 2 ^ 32 - 1"

definition fat_bytes :: "('d \<Rightarrow> u32 \<Rightarrow> bytes) \<Rightarrow> 'd fatfs \<Rightarrow> nat \<Rightarrow> u8" where
  "fat_bytes img fs k = view img fs (fatbase fs + of_nat (k div 512)) ! (k mod 512)"

definition fat_entry :: "('d \<Rightarrow> u32 \<Rightarrow> bytes) \<Rightarrow> 'd fatfs \<Rightarrow> u32 \<Rightarrow> u32" where
  "fat_entry img fs c = fat_val (fs_type fs) (fat_bytes img fs) (unat c)"

definition fat_area :: "'d fatfs \<Rightarrow> u32 \<Rightarrow> bool" where
  "fat_area fs t \<longleftrightarrow> t - fatbase fs < fsize fs"

text \<open>Nothing changed but where the window is.\<close>

definition unchanged :: "('d \<Rightarrow> u32 \<Rightarrow> bytes) \<Rightarrow> 'd fatfs \<Rightarrow> 'd fatfs \<Rightarrow> bool" where
  "unchanged img fs fs' \<longleftrightarrow> same_vol fs fs' \<and> (\<forall>t. tracked fs t \<longrightarrow> view img fs' t = view img fs t)"

lemma unchanged_refl [simp]: "unchanged img fs fs"
  by (simp add: unchanged_def)

lemma unchanged_trans [trans]: "unchanged img a b \<Longrightarrow> unchanged img b c \<Longrightarrow> unchanged img a c"
  unfolding unchanged_def using same_vol_trans same_vol_sel by metis

lemma layout_same_vol: "same_vol fs fs' \<Longrightarrow> vol_layout fs' = vol_layout fs"
  by (simp add: vol_layout_def same_vol_sel)

lemma unchanged_same_vol: "unchanged img fs fs' \<Longrightarrow> same_vol fs fs'"
  by (simp add: unchanged_def)

lemma unchanged_layout: "unchanged img fs fs' \<Longrightarrow> vol_layout fs \<Longrightarrow> vol_layout fs'"
  using layout_same_vol [OF unchanged_same_vol] by blast

lemmas unchanged_sel = same_vol_sel [OF unchanged_same_vol]

lemma word_two_le_one [simp]: "\<not> (2 :: u32) \<le> 1" "\<not> (2 :: u8) \<le> 1"
  by (simp_all add: word_le_nat_alt)

lemma word_ge_2: "(x :: u32) \<noteq> 0 \<Longrightarrow> x \<noteq> 1 \<Longrightarrow> 2 \<le> x"
  by (auto simp: word_le_nat_alt word_unat_eq_iff)

lemma u8_less: "unat (x :: u8) < 256"
proof -
  have "unat x < 2 ^ LENGTH(8)" by (rule unsigned_less)
  then show ?thesis by simp
qed

lemma unat_ucast_u8: "unat (ucast (x :: u8) :: u32) = unat x"
  using u8_less [of x] by (simp add: unsigned_ucast_eq take_bit_nat_eq_self)

lemma u32_less: "unat (x :: u32) < 2 ^ 32"
proof -
  have "unat x < 2 ^ LENGTH(32)" by (rule unsigned_less)
  then show ?thesis by simp
qed

lemma unat_of_nat_small: "n < 2 ^ LENGTH('a) \<Longrightarrow> unat (of_nat n :: 'a::len word) = n"
  by (simp add: unat_of_nat)

lemma fat_sector_unat:
  assumes "vol_layout fs" and "k < 512 * unat (fsize fs)"
  shows "unat (fatbase fs + of_nat (k div 512)) = unat (fatbase fs) + k div 512"
    and "k div 512 < unat (fsize fs)"
    and "unat (fatbase fs + of_nat (k div 512)) < unat (database fs)"
proof -
  show k: "k div 512 < unat (fsize fs)" using assms(2) by (simp add: div_less_iff_less_mult mult.commute)
  have "unat (fatbase fs) + unat (fsize fs) \<le> unat (fatbase fs) + unat (n_fats fs) * unat (fsize fs)"
    using assms(1) by (auto simp: vol_layout_def)
  also have "\<dots> \<le> unat (database fs)" using assms(1) by (simp add: vol_layout_def)
  finally have b: "unat (fatbase fs) + unat (fsize fs) \<le> unat (database fs)" .
  have "unat (database fs) < 2 ^ 32" by (rule u32_less)
  with b k have "unat (fatbase fs) + k div 512 < 2 ^ 32" by linarith
  then show u: "unat (fatbase fs + of_nat (k div 512)) = unat (fatbase fs) + k div 512"
    by (simp add: unat_word_ariths unat_of_nat mod_add_right_eq)
  with b k show "unat (fatbase fs + of_nat (k div 512)) < unat (database fs)" by linarith
qed

lemma fat_sector_tracked:
  assumes "vol_layout fs" and "k < 512 * unat (fsize fs)"
  shows "tracked fs (fatbase fs + of_nat (k div 512))"
proof -
  let ?s = "fatbase fs + of_nat (k div 512)"
  note u = fat_sector_unat [OF assms]
  have db: "unat (database fs) < 2 ^ 32 - 1" using assms(1) by (simp add: vol_layout_def)
  have "?s \<noteq> 0xFFFFFFFF"
  proof
    assume "?s = 0xFFFFFFFF"
    then have "unat ?s = 2 ^ 32 - 1" by simp
    with u(3) db show False by linarith
  qed
  moreover have "\<not> mirror fs ?s"
  proof
    assume m: "mirror fs ?s"
    moreover have "\<not> (2 :: u8) \<le> 1" by (simp add: word_le_nat_alt)
    ultimately have "n_fats fs = 2" using assms(1) by (auto simp: mirror_def vol_layout_def)
    then have b: "unat (fatbase fs) + 2 * unat (fsize fs) \<le> unat (database fs)" using assms(1) by (simp add: vol_layout_def)
    have e: "?s - (fatbase fs + fsize fs) = of_nat (k div 512) - fsize fs" by simp
    have lt: "of_nat (k div 512) < fsize fs"
      using u(2) u32_less [of "fsize fs"] by (simp add: word_less_nat_alt unat_of_nat_small)
    have "unat (of_nat (k div 512) - fsize fs :: u32) = 2 ^ 32 + k div 512 - unat (fsize fs)"
      using u(2) u32_less [of "fsize fs"] unat_sub_if_size [of "of_nat (k div 512)" "fsize fs"]
      by (simp add: unat_of_nat_small word_size)
    moreover have "unat (of_nat (k div 512) - fsize fs :: u32) < unat (fsize fs)"
      using m e by (simp add: mirror_def word_less_nat_alt)
    ultimately show False using b db by linarith
  qed
  moreover have "\<not> (fs_type fs = FS_FAT32 \<and> ?s = volbase fs + 1)"
  proof
    assume f: "fs_type fs = FS_FAT32 \<and> ?s = volbase fs + 1"
    then have "unat (volbase fs + 1) < unat (fatbase fs)" using assms(1) by (simp add: vol_layout_def word_less_nat_alt)
    then show False using f u(1) by simp
  qed
  ultimately show ?thesis by (simp add: tracked_def)
qed

lemma of_nat_div: "of_nat (unat x div unat y) = (x div y :: u32)"
  by (simp flip: unat_div)

lemma u32_mod: "unat (x mod y :: u32) = unat x mod unat y"
  by (simp add: unat_mod)

lemma fat12_pos:
  assumes "unat (c :: u32) < 4088"
  shows "unat (c + c div 2) = fat_pos FS_FAT12 (unat c)"
    and "unat (c + c div 2 + 1) = fat_pos FS_FAT12 (unat c) + 1"
  using assms by (simp_all add: unat_word_ariths fat_pos_def unat_div)

lemma u32_div512: "x div 512 = (of_nat (unat x div 512) :: u32)" "unat (x mod 512 :: u32) = unat x mod 512"
  using of_nat_div [of x 512] by (simp_all add: u32_mod)

lemma fat16_pos:
  assumes "unat (c :: u32) < 65528"
  shows "c div 256 = of_nat (fat_pos FS_FAT16 (unat c) div 512)"
    and "unat (c * 2 mod 512) = fat_pos FS_FAT16 (unat c) mod 512"
  using assms of_nat_div [of c 256]
  by (simp_all add: fat_pos_def u32_mod unat_word_ariths mult.commute div_mult2_eq [of _ 2 256, simplified])

lemma fat32_pos:
  assumes "unat (c :: u32) < 0x0FFFFFF8"
  shows "c div 128 = of_nat (fat_pos FS_FAT32 (unat c) div 512)"
    and "unat (c * 4 mod 512) = fat_pos FS_FAT32 (unat c) mod 512"
  using assms of_nat_div [of c 128]
  by (simp_all add: fat_pos_def u32_mod unat_word_ariths mult.commute div_mult2_eq [of _ 4 128, simplified])

lemma fat_pos_bound:
  assumes "vol_layout fs" and "c < n_fatent fs"
  shows "fat_pos (fs_type fs) (unat c) + (if fs_type fs = FS_FAT12 \<or> fs_type fs = FS_FAT16 then 2 else 4) \<le>
    512 * unat (fsize fs)"
proof -
  have "unat c < unat (n_fatent fs)" using assms(2) by (simp add: word_less_nat_alt)
  then have "fat_pos (fs_type fs) (unat c) + (if fs_type fs = FS_FAT12 \<or> fs_type fs = FS_FAT16 then 2 else 4) \<le>
      fat_size (fs_type fs) (unat (n_fatent fs))"
    by (auto simp: fat_pos_def fat_size_def)
  also have "\<dots> \<le> 512 * unat (fsize fs)" using assms(1) by (simp add: vol_layout_def)
  finally show ?thesis .
qed

lemma fat_bytes_unchanged:
  assumes "unchanged img fs fs'" and "vol_layout fs" and "k < 512 * unat (fsize fs)"
  shows "fat_bytes img fs' k = fat_bytes img fs k"
proof -
  have "fatbase fs' = fatbase fs" using assms(1) by (simp add: unchanged_def same_vol_sel)
  then show ?thesis
    using assms(1) fat_sector_tracked [OF assms(2,3)] by (simp add: fat_bytes_def unchanged_def)
qed

lemma fat_entry_bytes:
  assumes "vol_layout fs" and "c < n_fatent fs" and "fs_type fs' = fs_type fs"
    and "\<And>k. k < 512 * unat (fsize fs) \<Longrightarrow> fat_bytes img fs' k = fat_bytes img fs k"
  shows "fat_entry img fs' c = fat_entry img fs c"
  unfolding fat_entry_def assms(3) using fat_pos_bound [OF assms(1,2)] by (intro fat_val_cong assms(4)) simp

lemma fat_entry_unchanged:
  "unchanged img fs fs' \<Longrightarrow> vol_layout fs \<Longrightarrow> c < n_fatent fs \<Longrightarrow> fat_entry img fs' c = fat_entry img fs c"
  by (rule fat_entry_bytes) (auto simp: fat_bytes_unchanged unchanged_def same_vol_sel)

lemma mod_succ:
  assumes "(k :: nat) mod 512 + d < 512"
  shows "(k + d) div 512 = k div 512 \<and> (k + d) mod 512 = k mod 512 + d"
proof -
  define q r where "q = k div 512" and "r = k mod 512"
  have "k = 512 * q + r" by (simp add: q_def r_def)
  moreover have "(512 * q + (r + d)) div 512 = q \<and> (512 * q + (r + d)) mod 512 = r + d"
    using assms by (simp add: r_def)
  ultimately show ?thesis unfolding q_def [symmetric] r_def [symmetric] by (simp add: add.assoc)
qed

context block_device
begin

lemma fetch:
  assumes "inv fs"
  shows "returns (move_window ops s fs) (\<lambda>r fs'. r \<in> {FR_OK, FR_DISK_ERR} \<and> inv fs' \<and> unchanged img fs fs' \<and>
    (r = FR_OK \<longrightarrow> winsect fs' = s \<and> (tracked fs s \<longrightarrow> win fs' = view img fs s)))"
  using move_window_law [OF assms, of s] by (auto elim!: returns_mono simp: unchanged_def)

lemma fetch_fat:
  assumes "inv fs" and "vol_layout fs" and k: "k < 512 * unat (fsize fs)"
  shows "returns (move_window ops (fatbase fs + of_nat (k div 512)) fs) (\<lambda>r fs'. r \<in> {FR_OK, FR_DISK_ERR} \<and>
    inv fs' \<and> unchanged img fs fs' \<and>
    (r = FR_OK \<longrightarrow> winsect fs' = fatbase fs + of_nat (k div 512) \<and> length (win fs') = 512 \<and>
      (\<forall>d. k mod 512 + d < 512 \<longrightarrow> win fs' ! (k mod 512 + d) = fat_bytes img fs (k + d))))"
  by (rule returns_mono [OF fetch [OF assms(1)]])
    (use fat_sector_tracked [OF assms(2) k] in \<open>auto simp: win_inv_def fat_bytes_def mod_succ\<close>)

end

lemma and_1_odd: "(c :: u32) AND 1 \<noteq> 0 \<longleftrightarrow> odd (unat c)"
proof -
  have "odd (unat c) \<longleftrightarrow> odd c" by (simp add: bit_unsigned_iff flip: bit_0)
  then show ?thesis by (simp add: and_one_eq mod2_eq_if)
qed

lemma fat16_room: "fat_pos FS_FAT16 c mod 512 + 1 < 512"
proof -
  have "2 * c mod 512 = 2 * (c mod 256)" using mult_mod_right [of 2 c 256] by simp
  moreover have "c mod 256 < 256" by simp
  ultimately show ?thesis by (simp add: fat_pos_def)
qed

lemma fat32_room: "fat_pos FS_FAT32 c mod 512 + 3 < 512"
proof -
  have "4 * c mod 512 = 4 * (c mod 128)" using mult_mod_right [of 4 c 128] by simp
  moreover have "c mod 128 < 128" by simp
  ultimately show ?thesis by (simp add: fat_pos_def)
qed

lemma layout_n:
  assumes "vol_layout fs" and "c < n_fatent fs"
  shows "fs_type fs = FS_FAT12 \<Longrightarrow> unat c < 4088" "fs_type fs = FS_FAT16 \<Longrightarrow> unat c < 65528"
    "fs_type fs = FS_FAT32 \<Longrightarrow> unat c < 0x0FFFFFF8" "unat c < 0x0FFFFFF8"
  using assms by (auto simp: vol_layout_def word_less_nat_alt split: if_splits)

lemma layout_type: "vol_layout fs \<Longrightarrow> fs_type fs = FS_FAT12 \<or> fs_type fs = FS_FAT16 \<or> fs_type fs = FS_FAT32"
  by (auto simp: vol_layout_def)

context block_device
begin

lemma get_fat_law:
  assumes inv: "inv fs" and lay: "vol_layout fs"
  shows "returns (get_fat ops c fs) (\<lambda>v fs'. inv fs' \<and> unchanged img fs fs' \<and>
    (if 2 \<le> c \<and> c < n_fatent fs then v = fat_entry img fs c \<or> v = 0xFFFFFFFF else v = 1))"
proof (cases "2 \<le> c \<and> c < n_fatent fs")
  case False
  then show ?thesis using inv by (auto simp: get_fat_def not_le not_less)
next
  case True
  then have c: "\<not> c < 2" "\<not> n_fatent fs \<le> c" by auto
  let ?k = "fat_pos (fs_type fs) (unat c)"
  note b = fat_pos_bound [OF lay conjunct2 [OF True]] and n = layout_n [OF lay conjunct2 [OF True]]
  have k: "?k < 512 * unat (fsize fs)" using b by (auto split: if_splits)
  obtain r1 fs1 where m1: "move_window ops (fatbase fs + of_nat (?k div 512)) fs = Some (r1, fs1)"
    and i1: "inv fs1" "unchanged img fs fs1" and w1: "r1 = FR_OK \<Longrightarrow> length (win fs1) = 512 \<and>
      (\<forall>d. ?k mod 512 + d < 512 \<longrightarrow> win fs1 ! (?k mod 512 + d) = fat_bytes img fs (?k + d))"
    using fetch_fat [OF inv lay k] by (auto simp: returns_iff)
  note lay1 = unchanged_layout [OF i1(2) lay] and g1 = unchanged_sel [OF i1(2)]
  consider "fs_type fs = FS_FAT12" | "fs_type fs = FS_FAT16" | "fs_type fs = FS_FAT32"
    using layout_type [OF lay] by blast
  then show ?thesis
  proof cases
    case 1
    then have k1: "?k + 1 < 512 * unat (fsize fs1)" using b g1 by simp
    obtain r2 fs2 where m2: "move_window ops (fatbase fs + of_nat ((?k + 1) div 512)) fs1 = Some (r2, fs2)"
      and i2: "inv fs2" "unchanged img fs1 fs2" and w2: "r2 = FR_OK \<Longrightarrow> length (win fs2) = 512 \<and>
        (\<forall>d. (?k + 1) mod 512 + d < 512 \<longrightarrow> win fs2 ! ((?k + 1) mod 512 + d) = fat_bytes img fs1 (?k + 1 + d))"
      using fetch_fat [OF i1(1) lay1 k1] g1 by (auto simp: returns_iff)
    have "fat_bytes img fs1 (?k + 1) = fat_bytes img fs (?k + 1)"
      using fat_bytes_unchanged [OF i1(2) lay] k1 g1 by simp
    moreover have "r1 = FR_OK \<Longrightarrow> win fs1 ! (?k mod 512) = fat_bytes img fs ?k"
      "r2 = FR_OK \<Longrightarrow> win fs2 ! ((?k + 1) mod 512) = fat_bytes img fs1 (?k + 1)"
      using w1 w2 by (auto dest: spec [of _ 0])
    ultimately show ?thesis
      using 1 c True m1 w1 i1 m2 w2 i2 unchanged_trans [OF i1(2) i2(2)] g1 fat12_pos [OF n(1) [OF 1]]
      by (simp add: get_fat_def u32_div512 get_at_def fat_entry_def fat_val_def Let_def and_1_odd)
  next
    case 2
    then have "r1 = FR_OK \<Longrightarrow> win fs1 ! (?k mod 512) = fat_bytes img fs ?k \<and>
        win fs1 ! (?k mod 512 + 1) = fat_bytes img fs (?k + 1)"
      using w1 fat16_room [of "unat c"] by (auto dest: spec [of _ 0] spec [of _ 1])
    then show ?thesis
      using 2 c True m1 w1 i1 fat16_pos [OF n(2) [OF 2]] fat16_room [of "unat c"]
      by (simp add: get_fat_def LD_WORD_in fat_entry_def fat_val_def Let_def)
  next
    case 3
    then have "r1 = FR_OK \<Longrightarrow> win fs1 ! (?k mod 512) = fat_bytes img fs ?k \<and>
        win fs1 ! (?k mod 512 + 1) = fat_bytes img fs (?k + 1) \<and>
        win fs1 ! (?k mod 512 + 2) = fat_bytes img fs (?k + 2) \<and>
        win fs1 ! (?k mod 512 + 3) = fat_bytes img fs (?k + 3)"
      using w1 fat32_room [of "unat c"] by (auto dest: spec [of _ 0] spec [of _ 1] spec [of _ 2] spec [of _ 3])
    then show ?thesis
      using 3 c True m1 w1 i1 fat32_pos [OF n(3) [OF 3]] fat32_room [of "unat c"]
      by (simp add: get_fat_def LD_DWORD_in fat_entry_def fat_val_def Let_def)
  qed
qed

end

text \<open>Only sectors of the table changed.\<close>

definition fat_only :: "('d \<Rightarrow> u32 \<Rightarrow> bytes) \<Rightarrow> 'd fatfs \<Rightarrow> 'd fatfs \<Rightarrow> bool" where
  "fat_only img fs fs' \<longleftrightarrow> same_vol fs fs' \<and> (\<forall>t. tracked fs t \<longrightarrow> \<not> fat_area fs t \<longrightarrow> view img fs' t = view img fs t)"

lemma fat_area_same_vol: "same_vol fs fs' \<Longrightarrow> fat_area fs' = fat_area fs"
  by (simp add: fat_area_def fun_eq_iff same_vol_sel)

lemma unchanged_fat_only: "unchanged img fs fs' \<Longrightarrow> fat_only img fs fs'"
  by (simp add: unchanged_def fat_only_def)

lemma fat_only_trans [trans]: "fat_only img a b \<Longrightarrow> fat_only img b c \<Longrightarrow> fat_only img a c"
  unfolding fat_only_def
  by (auto intro: same_vol_trans simp: same_vol_sel fat_area_same_vol)

lemma fat_only_same_vol: "fat_only img fs fs' \<Longrightarrow> same_vol fs fs'"
  by (simp add: fat_only_def)

lemma fat_only_layout: "fat_only img fs fs' \<Longrightarrow> vol_layout fs \<Longrightarrow> vol_layout fs'"
  using layout_same_vol [OF fat_only_same_vol] by blast

lemma same_vol_store: "same_vol fs (fs\<lparr>win := w, wflag := a\<rparr>)"
  by (rule same_volI [where a = a and b = "winsect fs" and c = w and d = "dsk fs"]) simp

lemma fat_store:
  assumes "vol_layout fs" and k: "k < 512 * unat (fsize fs)" and ws: "winsect fs = fatbase fs + of_nat (k div 512)"
    and len: "length (win fs) = 512" and ys: "k mod 512 + length ys \<le> 512"
  defines "fs' \<equiv> fs\<lparr>win := overlay (k mod 512) ys (win fs), wflag := 1\<rparr>"
  shows "fat_only img fs fs'"
    and "j < 512 * unat (fsize fs) \<Longrightarrow> fat_bytes img fs' j =
      (if k \<le> j \<and> j < k + length ys then ys ! (j - k) else fat_bytes img fs j)"
proof -
  have sv: "same_vol fs fs'" unfolding fs'_def by (rule same_vol_store)
  have "fat_area fs (winsect fs)"
    using fat_sector_unat(2) [OF assms(1) k] u32_less [of "fsize fs"]
    by (simp add: fat_area_def ws word_less_nat_alt unat_of_nat_small)
  then show "fat_only img fs fs'" using sv by (auto simp: fat_only_def fs'_def view_store)
  assume j: "j < 512 * unat (fsize fs)"
  let ?s = "fatbase fs + of_nat (j div 512) :: u32"
  have fb: "fat_bytes img fs' j = view img fs' ?s ! (j mod 512)" by (simp add: fat_bytes_def fs'_def)
  show "fat_bytes img fs' j = (if k \<le> j \<and> j < k + length ys then ys ! (j - k) else fat_bytes img fs j)"
  proof (cases "j div 512 = k div 512")
    case True
    have kj: "k = 512 * (k div 512) + k mod 512" "j = 512 * (k div 512) + j mod 512"
      using True by (metis mult_div_mod_eq)+
    then have "k \<le> j \<longleftrightarrow> k mod 512 \<le> j mod 512" "j < k + length ys \<longleftrightarrow> j mod 512 < k mod 512 + length ys"
      "j - k = j mod 512 - k mod 512" by linarith+
    then show ?thesis
      using True ys len unfolding fb by (simp add: fs'_def view_store ws nth_overlay fat_bytes_def view_def not_less)
  next
    case False
    then have "unat ?s \<noteq> unat (fatbase fs + of_nat (k div 512))"
      using fat_sector_unat(1) [OF assms(1) k] fat_sector_unat(1) [OF assms(1) j] by simp
    then have "?s \<noteq> winsect fs" using ws by auto
    moreover have "\<not> (k \<le> j \<and> j < k + length ys)"
    proof
      assume a: "k \<le> j \<and> j < k + length ys"
      then have "k mod 512 + (j - k) < 512" using ys by linarith
      from mod_succ [OF this] a False show False by simp
    qed
    ultimately show ?thesis unfolding fb by (auto simp: fs'_def view_store fat_bytes_def)
  qed
qed

lemma fat_entry_of_bytes:
  assumes "vol_layout fs" and "same_vol fs fs'" and "c < n_fatent fs"
    and "\<And>j. j < 512 * unat (fsize fs) \<Longrightarrow> fat_bytes img fs' j = g j"
  shows "fat_entry img fs' c = fat_val (fs_type fs) g (unat c)"
  unfolding fat_entry_def same_vol_sel(1) [OF assms(2)]
  using fat_pos_bound [OF assms(1,3)] by (intro fat_val_cong assms(4)) simp

lemma put_at_overlay: "i < length xs \<Longrightarrow> xs[i := v] = overlay i [v] xs"
  by (simp add: overlay_def upd_conv_take_nth_drop)

text \<open>What a change of entry \<open>c\<close> to \<open>v\<close> leaves: every other entry, and every sector outside the table.\<close>

definition fat_set :: "('d \<Rightarrow> u32 \<Rightarrow> bytes) \<Rightarrow> u32 \<Rightarrow> 'd fatfs \<Rightarrow> 'd fatfs \<Rightarrow> bool" where
  "fat_set img c fs fs' \<longleftrightarrow> fat_only img fs fs' \<and>
     (\<forall>c'. c' < n_fatent fs \<longrightarrow> c' \<noteq> c \<longrightarrow> fat_entry img fs' c' = fat_entry img fs c')"

lemma unchanged_fat_set: "unchanged img fs fs' \<Longrightarrow> vol_layout fs \<Longrightarrow> fat_set img c fs fs'"
  by (simp add: fat_set_def unchanged_fat_only fat_entry_unchanged)

lemma fat_set_bytes:
  assumes "vol_layout fs" and "fat_only img fs fs'" and "c < n_fatent fs"
    and "\<And>j. j < 512 * unat (fsize fs) \<Longrightarrow> fat_bytes img fs' j = g j"
    and "\<And>c'. c' \<noteq> unat c \<Longrightarrow> fat_val (fs_type fs) g c' = fat_val (fs_type fs) (fat_bytes img fs) c'"
  shows "fat_set img c fs fs'"
  using fat_entry_of_bytes [OF assms(1) fat_only_same_vol [OF assms(2)] _ assms(4)] assms(2,5)
  by (simp add: fat_set_def fat_entry_def word_unat_eq_iff)

context block_device
begin

lemma inv_store: "inv fs \<Longrightarrow> length w = length (win fs) \<Longrightarrow> inv (fs\<lparr>win := w, wflag := 1\<rparr>)"
  by (rule win_inv_store) (auto simp: win_inv_def)

text \<open>One edit of the table: bytes \<open>ys\<close> stored at position \<open>k\<close> of the window that shows it.\<close>

lemma fat_edit:
  assumes "inv fs" and "vol_layout fs" and "k < 512 * unat (fsize fs)"
    and "winsect fs = fatbase fs + of_nat (k div 512)" and "k mod 512 + length ys \<le> 512"
  shows "let fs' = fs\<lparr>win := overlay (k mod 512) ys (win fs), wflag := 1\<rparr> in
    inv fs' \<and> fat_only img fs fs' \<and> vol_layout fs' \<and> (\<forall>j < 512 * unat (fsize fs). fat_bytes img fs' j =
      (if k \<le> j \<and> j < k + length ys then ys ! (j - k) else fat_bytes img fs j))"
proof -
  have len: "length (win fs) = 512" using assms(1) by (simp add: win_inv_def)
  note st = fat_store [OF assms(2-4) len assms(5), where img = img]
  show ?thesis
    using st(1) st(2) fat_only_layout [OF st(1) assms(2)] inv_store [OF assms(1)] len assms(5) by (simp add: Let_def)
qed

lemma put_fat_law:
  assumes inv: "inv fs" and lay: "vol_layout fs" and c: "2 \<le> c" "c < n_fatent fs"
  shows "returns (put_fat ops c v fs) (\<lambda>r fs'. r \<in> {FR_OK, FR_DISK_ERR} \<and> inv fs' \<and> fat_set img c fs fs' \<and>
    (r = FR_OK \<longrightarrow> fat_entry img fs' c = v AND fat_mask (fs_type fs)))"
proof -
  have cc: "\<not> c < 2" "\<not> n_fatent fs \<le> c" using c by auto
  let ?k = "fat_pos (fs_type fs) (unat c)"
  note b = fat_pos_bound [OF lay c(2)] and n = layout_n [OF lay c(2)]
  have k: "?k < 512 * unat (fsize fs)" using b by (auto split: if_splits)
  obtain r1 fs1 where m1: "move_window ops (fatbase fs + of_nat (?k div 512)) fs = Some (r1, fs1)"
    and r1: "r1 \<in> {FR_OK, FR_DISK_ERR}" and i1: "inv fs1" "unchanged img fs fs1"
    and w1: "r1 = FR_OK \<Longrightarrow> winsect fs1 = fatbase fs + of_nat (?k div 512) \<and>
      (\<forall>d. ?k mod 512 + d < 512 \<longrightarrow> win fs1 ! (?k mod 512 + d) = fat_bytes img fs (?k + d))"
    using fetch_fat [OF inv lay k] by (auto simp: returns_iff)
  note lay1 = unchanged_layout [OF i1(2) lay] and g1 = unchanged_sel [OF i1(2)]
  have len1: "length (win fs1) = 512" using i1(1) by (simp add: win_inv_def)
  note fb1 = fat_bytes_unchanged [OF i1(2) lay]
  show ?thesis
  proof (cases "r1 = FR_OK")
    case False
    then show ?thesis
      using cc m1 r1 i1 unchanged_fat_set [OF i1(2) lay] layout_type [OF lay] n fat12_pos fat16_pos fat32_pos
      by (auto simp: put_fat_def u32_div512)
  next
    case True
    note w1 = w1 [OF True]
    have by0: "win fs1 ! (?k mod 512) = fat_bytes img fs ?k" using w1 by (auto dest: spec [of _ 0])
    consider "fs_type fs = FS_FAT12" | "fs_type fs = FS_FAT16" | "fs_type fs = FS_FAT32"
      using layout_type [OF lay] by blast
    then show ?thesis
    proof cases
      case 2
      let ?fs = "fs1\<lparr>win := overlay (?k mod 512) (bytes_le16 (ucast v)) (win fs1), wflag := 1\<rparr>"
      have room: "?k mod 512 + 1 < 512" using fat16_room [of "unat c"] 2 by simp
      have e: "inv ?fs" "fat_only img fs1 ?fs" "\<forall>j < 512 * unat (fsize fs). fat_bytes img ?fs j =
          (if ?k \<le> j \<and> j < ?k + 2 then bytes_le16 (ucast v) ! (j - ?k) else fat_bytes img fs1 j)"
        using fat_edit [OF i1(1) lay1, of ?k "bytes_le16 (ucast v)"] k w1 g1 room by (simp_all add: Let_def)
      have fo: "fat_only img fs ?fs" using unchanged_fat_only [OF i1(2)] e(2) by (rule fat_only_trans)
      have bytes: "fat_bytes img ?fs j = fat_put FS_FAT16 (fat_bytes img fs) (unat c) v j" if "j < 512 * unat (fsize fs)" for j
        using that e(3) fb1 2 by (auto simp: fat_put_def Let_def bytes_le16_def nth_Cons')
      show ?thesis
        using 2 cc c m1 True w1 len1 e(1) fat16_pos [OF n(2) [OF 2]] room
          fat_set_bytes [OF lay fo c(2) bytes] fat_entry_of_bytes [OF lay fat_only_same_vol [OF fo] c(2) bytes]
        by (simp add: put_fat_def ST_WORD_in fat_put_other fat_put_same)
    next
      case 3
      have room: "?k mod 512 + 3 < 512" using fat32_room [of "unat c"] 3 by simp
      define u where "u = le32 (fat_bytes img fs ?k) (fat_bytes img fs (?k + 1))
          (fat_bytes img fs (?k + 2)) (fat_bytes img fs (?k + 3))"
      define w where "w = v OR (u AND 0xF0000000)"
      have old: "LD_DWORD (?k mod 512) (win fs1) = Some u"
        using conjunct2 [OF w1, THEN spec, of 1] conjunct2 [OF w1, THEN spec, of 2] conjunct2 [OF w1, THEN spec, of 3]
          by0 room len1 by (simp add: LD_DWORD_in u_def)
      let ?fs = "fs1\<lparr>win := overlay (?k mod 512) (bytes_le32 w) (win fs1), wflag := 1\<rparr>"
      have e: "inv ?fs" "fat_only img fs1 ?fs" "\<forall>j < 512 * unat (fsize fs). fat_bytes img ?fs j =
          (if ?k \<le> j \<and> j < ?k + 4 then bytes_le32 w ! (j - ?k) else fat_bytes img fs1 j)"
        using fat_edit [OF i1(1) lay1, of ?k "bytes_le32 w"] k w1 g1 room by (simp_all add: Let_def)
      have fo: "fat_only img fs ?fs" using unchanged_fat_only [OF i1(2)] e(2) by (rule fat_only_trans)
      have put: "fat_put FS_FAT32 (fat_bytes img fs) (unat c) v = (fat_bytes img fs)(?k := ucast w,
          ?k + 1 := ucast (drop_bit 8 w), ?k + 2 := ucast (drop_bit 16 w), ?k + 3 := ucast (drop_bit 24 w))"
        unfolding fat_put_def Let_def w_def u_def 3 by (simp del: drop_bit_or)
      have bytes: "fat_bytes img ?fs j = fat_put FS_FAT32 (fat_bytes img fs) (unat c) v j" if "j < 512 * unat (fsize fs)" for j
        using that e(3) fb1 3 unfolding put by (auto simp: bytes_le32_def nth_Cons')
      show ?thesis
        using 3 cc c m1 True w1 len1 e(1) fat32_pos [OF n(3) [OF 3]] room old
          fat_set_bytes [OF lay fo c(2) bytes] fat_entry_of_bytes [OF lay fat_only_same_vol [OF fo] c(2) bytes]
        by (simp add: put_fat_def ST_DWORD_in fat_put_other fat_put_same w_def [symmetric])
    next
      case 1
      have k2: "?k + 1 < 512 * unat (fsize fs)" using b 1 by simp
      define x1 where "x1 = (if odd (unat c) then (fat_bytes img fs ?k AND 0x0F) OR push_bit 4 (ucast v) else ucast v)"
      let ?fs2 = "fs1\<lparr>win := overlay (?k mod 512) [x1] (win fs1), wflag := 1\<rparr>"
      let ?g = "fat12_put1 (fat_bytes img fs) (unat c) v"
      have e: "inv ?fs2" "fat_only img fs1 ?fs2" "vol_layout ?fs2" "\<forall>j < 512 * unat (fsize fs). fat_bytes img ?fs2 j =
          (if ?k \<le> j \<and> j < ?k + 1 then [x1] ! (j - ?k) else fat_bytes img fs1 j)"
        using fat_edit [OF i1(1) lay1, of ?k "[x1]"] k w1 g1 by (simp_all add: Let_def)
      have fo2: "fat_only img fs ?fs2" using unchanged_fat_only [OF i1(2)] e(2) by (rule fat_only_trans)
      have bytes2: "fat_bytes img ?fs2 j = ?g j" if "j < 512 * unat (fsize fs)" for j
        using that e(4) fb1 1 by (auto simp: fat12_put1_def x1_def fat_pos_def)
      obtain r3 fs3 where m3: "move_window ops (fatbase fs + of_nat ((?k + 1) div 512)) ?fs2 = Some (r3, fs3)"
        and r3: "r3 \<in> {FR_OK, FR_DISK_ERR}" and i3: "inv fs3" "unchanged img ?fs2 fs3"
        and w3: "r3 = FR_OK \<Longrightarrow> winsect fs3 = fatbase fs + of_nat ((?k + 1) div 512) \<and>
          (\<forall>d. (?k + 1) mod 512 + d < 512 \<longrightarrow> win fs3 ! ((?k + 1) mod 512 + d) = fat_bytes img ?fs2 (?k + 1 + d))"
        using fetch_fat [OF e(1,3), of "?k + 1"] k2 g1 by (auto simp: returns_iff)
      note lay3 = unchanged_layout [OF i3(2) e(3)] and g3 = unchanged_sel [OF i3(2)]
      have len3: "length (win fs3) = 512" using i3(1) by (simp add: win_inv_def)
      have fo3: "fat_only img fs fs3" using fo2 unchanged_fat_only [OF i3(2)] by (rule fat_only_trans)
      have bytes3: "fat_bytes img fs3 j = ?g j" if "j < 512 * unat (fsize fs)" for j
        using fat_bytes_unchanged [OF i3(2) e(3)] that bytes2 g1 by simp
      have st: "put_at (?k mod 512) x1 (win fs1) = Some (overlay (?k mod 512) [x1] (win fs1))"
        using len1 by (simp add: put_at_def put_at_overlay)
      show ?thesis
      proof (cases "r3 = FR_OK")
        case False
        show ?thesis
          using 1 cc c m1 True by0 len1 st m3 r3 False i3 g1 fat12_pos [OF n(1) [OF 1]]
            fat_set_bytes [OF lay fo3 c(2) bytes3]
          by (cases "odd (unat c)")
            (simp_all add: put_fat_def u32_div512 get_at_def and_1_odd x1_def fat12_put1_val)
      next
        case ok3: True
        note w3 = w3 [OF ok3]
        have by3: "win fs3 ! ((?k + 1) mod 512) = ?g (?k + 1)" using w3 bytes2 k2 by (auto dest: spec [of _ 0])
        define x2 where "x2 = (if odd (unat c) then ucast (drop_bit 4 v)
            else (?g (?k + 1) AND 0xF0) OR (ucast (drop_bit 8 v) AND 0x0F))"
        let ?fs4 = "fs3\<lparr>win := overlay ((?k + 1) mod 512) [x2] (win fs3), wflag := 1\<rparr>"
        have e4: "inv ?fs4" "fat_only img fs3 ?fs4" "\<forall>j < 512 * unat (fsize fs). fat_bytes img ?fs4 j =
            (if ?k + 1 \<le> j \<and> j < ?k + 1 + 1 then [x2] ! (j - (?k + 1)) else fat_bytes img fs3 j)"
          using fat_edit [OF i3(1) lay3, of "?k + 1" "[x2]"] k2 w3 g1 g3 by (simp_all add: Let_def)
        have fo4: "fat_only img fs ?fs4" using fo3 e4(2) by (rule fat_only_trans)
        have bytes4: "fat_bytes img ?fs4 j = fat_put FS_FAT12 (fat_bytes img fs) (unat c) v j"
          if "j < 512 * unat (fsize fs)" for j
          using that e4(3) bytes3 1 unfolding fat_put_def fat12_put2_def by (auto simp: x2_def fat_pos_def)
        have st3: "put_at ((?k + 1) mod 512) x2 (win fs3) = Some (overlay ((?k + 1) mod 512) [x2] (win fs3))"
          using len3 by (simp add: put_at_def put_at_overlay)
        show ?thesis
          using 1 cc c m1 True by0 by3 len1 len3 st st3 m3 ok3 e4(1) g1 fat12_pos [OF n(1) [OF 1]]
            fat_set_bytes [OF lay fo4 c(2) bytes4] fat_entry_of_bytes [OF lay fat_only_same_vol [OF fo4] c(2) bytes4]
          by (cases "odd (unat c)")
            (simp_all add: put_fat_def u32_div512 get_at_def and_1_odd x1_def x2_def fat_put_other fat_put_same)
      qed
    qed
  qed
qed

end

section \<open>Releasing and allocating clusters\<close>

text \<open>The fields that never change while a volume stays mounted.\<close>

definition geom :: "'d fatfs \<Rightarrow> u8 \<times> u8 \<times> u8 \<times> u8 \<times> u16 \<times> u16 \<times> u32 \<times> u32 \<times> u32 \<times> u32 \<times> u32 \<times> u32 \<times> u32" where
  "geom fs = (fs_type fs, drv fs, csize fs, n_fats fs, fs_id fs, n_rootdir fs, cdir fs, n_fatent fs, fsize fs,
     volbase fs, fatbase fs, dirbase fs, database fs)"

lemma geom_sel:
  assumes "geom fs' = geom fs"
  shows "fs_type fs' = fs_type fs" "drv fs' = drv fs" "csize fs' = csize fs" "n_fats fs' = n_fats fs"
    "fs_id fs' = fs_id fs" "n_rootdir fs' = n_rootdir fs" "cdir fs' = cdir fs" "n_fatent fs' = n_fatent fs"
    "fsize fs' = fsize fs" "volbase fs' = volbase fs" "fatbase fs' = fatbase fs" "dirbase fs' = dirbase fs"
    "database fs' = database fs" "tracked fs' = tracked fs" "fat_area fs' = fat_area fs"
    "vol_layout fs' = vol_layout fs"
  using assms by (auto simp: geom_def tracked_def mirror_def fat_area_def vol_layout_def fun_eq_iff)

lemma geom_same_vol: "same_vol fs fs' \<Longrightarrow> geom fs' = geom fs"
  by (simp add: geom_def same_vol_sel)

lemma geom_upd [simp]:
  "geom (fs\<lparr>free_clust := a\<rparr>) = geom fs" "geom (fs\<lparr>fsi_flag := b\<rparr>) = geom fs" "geom (fs\<lparr>last_clust := a\<rparr>) = geom fs"
  by (simp_all add: geom_def)

lemma view_upd [simp]:
  "view img (fs\<lparr>free_clust := a\<rparr>) = view img fs" "view img (fs\<lparr>fsi_flag := b\<rparr>) = view img fs"
  "view img (fs\<lparr>last_clust := a\<rparr>) = view img fs"
  by (auto simp: view_def fun_eq_iff)

lemma fat_bytes_upd [simp]:
  "fat_bytes img (fs\<lparr>free_clust := a\<rparr>) = fat_bytes img fs" "fat_bytes img (fs\<lparr>fsi_flag := b\<rparr>) = fat_bytes img fs"
  "fat_bytes img (fs\<lparr>last_clust := a\<rparr>) = fat_bytes img fs"
  by (simp_all add: fat_bytes_def fun_eq_iff)

lemma fat_entry_upd [simp]:
  "fat_entry img (fs\<lparr>free_clust := a\<rparr>) = fat_entry img fs" "fat_entry img (fs\<lparr>fsi_flag := b\<rparr>) = fat_entry img fs"
  "fat_entry img (fs\<lparr>last_clust := a\<rparr>) = fat_entry img fs"
  by (simp_all add: fat_entry_def fun_eq_iff)

lemma win_inv_upd [simp]:
  "win_inv dno ok img (fs\<lparr>free_clust := a\<rparr>) = win_inv dno ok img fs"
  "win_inv dno ok img (fs\<lparr>fsi_flag := b\<rparr>) = win_inv dno ok img fs"
  "win_inv dno ok img (fs\<lparr>last_clust := a\<rparr>) = win_inv dno ok img fs"
  by (auto simp: win_inv_def)

text \<open>Outside the table nothing changed.\<close>

definition outside :: "('d \<Rightarrow> u32 \<Rightarrow> bytes) \<Rightarrow> 'd fatfs \<Rightarrow> 'd fatfs \<Rightarrow> bool" where
  "outside img fs fs' \<longleftrightarrow> geom fs' = geom fs \<and> (\<forall>t. tracked fs t \<longrightarrow> \<not> fat_area fs t \<longrightarrow> view img fs' t = view img fs t)"

lemma outside_refl [simp]: "outside img fs fs"
  by (simp add: outside_def)

lemma outside_trans [trans]: "outside img a b \<Longrightarrow> outside img b c \<Longrightarrow> outside img a c"
proof -
  assume ab: "outside img a b" and bc: "outside img b c"
  then have g: "geom b = geom a" by (simp add: outside_def)
  note sel = geom_sel(14,15) [OF g]
  show "outside img a c" using ab bc unfolding outside_def g sel by simp
qed

lemma fat_only_outside: "fat_only img fs fs' \<Longrightarrow> outside img fs fs'"
  using geom_same_vol by (auto simp: fat_only_def outside_def)

lemma unchanged_outside: "unchanged img fs fs' \<Longrightarrow> outside img fs fs'"
  by (rule fat_only_outside) (rule unchanged_fat_only)

lemma outside_layout: "outside img fs fs' \<Longrightarrow> vol_layout fs \<Longrightarrow> vol_layout fs'"
  unfolding outside_def using geom_sel(16) by blast

lemma outside_n: "outside img fs fs' \<Longrightarrow> n_fatent fs' = n_fatent fs \<and> fs_type fs' = fs_type fs"
  unfolding outside_def using geom_sel(1,8) by blast

lemma fat_mask_cases: "fat_mask ty = mask 12 \<or> fat_mask ty = mask 16 \<or> fat_mask ty = mask 28"
  by (simp add: fat_mask_def mask_bits)

lemma fat_val_le: "fat_val ty f c \<le> 0x0FFFFFFF"
proof -
  have "fat_val ty f c AND mask 28 = fat_val ty f c"
    unfolding fat_val_def Let_def le16_def mask_bits
    by (rule bit_word_eqI) (auto simp: bit_simps dest: bit_imp_le_length)
  moreover have "(mask 28 :: u32) = 0x0FFFFFFF" by (simp add: mask_bits)
  ultimately show ?thesis by (metis word_and_le1)
qed

lemma fat_entry_le: "fat_entry img fs c \<le> 0x0FFFFFFF"
  by (simp add: fat_entry_def fat_val_le)

lemma fat_entry_not_err: "fat_entry img fs c \<noteq> 0xFFFFFFFF"
  using fat_entry_le [of img fs c] by auto

text \<open>The clusters of a chain from \<open>c\<close> to an end mark, in a table \<open>f\<close> with \<open>n\<close> entries.\<close>

primrec fat_chain :: "(u32 \<Rightarrow> u32) \<Rightarrow> u32 \<Rightarrow> u32 \<Rightarrow> u32 list \<Rightarrow> bool" where
  "fat_chain f n c [] \<longleftrightarrow> n \<le> c"
| "fat_chain f n c (a # as) \<longleftrightarrow> a = c \<and> 2 \<le> c \<and> c < n \<and> 2 \<le> f c \<and> fat_chain f n (f c) as"

lemma fat_chain_cong:
  "fat_chain f n c cs \<Longrightarrow> (\<And>x. x \<in> set cs \<Longrightarrow> g x = f x) \<Longrightarrow> fat_chain g n c cs"
  by (induction cs arbitrary: c) auto

lemma fat_chain_unique: "fat_chain f n c as \<Longrightarrow> fat_chain f n c bs \<Longrightarrow> as = bs"
proof (induction as arbitrary: c bs)
  case Nil
  then show ?case by (cases bs) auto
next
  case (Cons a as)
  then show ?case by (cases bs) auto
qed

lemma fat_chain_suffix: "fat_chain f n c (as @ b # bs) \<Longrightarrow> fat_chain f n b (b # bs)"
  by (induction as arbitrary: c) auto

lemma fat_chain_distinct: "fat_chain f n c cs \<Longrightarrow> distinct cs"
proof (induction cs arbitrary: c)
  case (Cons a cs)
  have "a \<notin> set cs"
  proof
    assume "a \<in> set cs"
    then obtain xs ys where cs: "cs = xs @ a # ys" by (auto simp: in_set_conv_decomp)
    have "fat_chain f n a (a # cs)" using Cons.prems by simp
    moreover have "fat_chain f n a (a # ys)" 
      using fat_chain_suffix [of f n c "a # xs" a ys] Cons.prems cs by (simp del: fat_chain.simps)
    ultimately have "a # cs = a # ys" by (rule fat_chain_unique)
    then show False using cs by simp
  qed
  then show ?case using Cons by auto
qed simp

lemma fat_chain_range: "fat_chain f n c cs \<Longrightarrow> x \<in> set cs \<Longrightarrow> 2 \<le> x \<and> x < n"
  by (induction cs arbitrary: c) auto

context block_device
begin

lemma put_fat_step:
  assumes "inv fs" and "vol_layout fs" and "2 \<le> c" "c < n_fatent fs"
  obtains r fs' where "put_fat ops c v fs = Some (r, fs')" and "r = FR_OK \<or> r = FR_DISK_ERR"
    and "inv fs'" and "vol_layout fs'" and "outside img fs fs'" and "n_fatent fs' = n_fatent fs" and "fs_type fs' = fs_type fs"
    and "\<And>c'. c' < n_fatent fs \<Longrightarrow> c' \<noteq> c \<Longrightarrow> fat_entry img fs' c' = fat_entry img fs c'"
    and "r = FR_OK \<Longrightarrow> fat_entry img fs' c = v AND fat_mask (fs_type fs)"
    and "free_clust fs' = free_clust fs" and "last_clust fs' = last_clust fs" and "fsi_flag fs' = fsi_flag fs"
proof -
  obtain r fs' where p: "put_fat ops c v fs = Some (r, fs')" "r \<in> {FR_OK, FR_DISK_ERR}" "inv fs'" "fat_set img c fs fs'"
      "r = FR_OK \<Longrightarrow> fat_entry img fs' c = v AND fat_mask (fs_type fs)"
    using put_fat_law [OF assms, of v] by (auto simp: returns_iff)
  have o: "outside img fs fs'" and sv: "same_vol fs fs'"
    using p(4) by (auto simp: fat_set_def fat_only_same_vol intro: fat_only_outside)
  show ?thesis
    using that [OF p(1) _ p(3) outside_layout [OF o assms(2)] o] p(2,4,5) outside_n [OF o] same_vol_sel [OF sv]
    by (auto simp: fat_set_def)
qed

lemma get_fat_step:
  assumes "inv fs" and "vol_layout fs" and "2 \<le> c" "c < n_fatent fs"
  obtains v fs' where "get_fat ops c fs = Some (v, fs')" and "v = fat_entry img fs c \<or> v = 0xFFFFFFFF"
    and "inv fs'" and "vol_layout fs'" and "unchanged img fs fs'" and "n_fatent fs' = n_fatent fs"
    and "\<And>c'. c' < n_fatent fs \<Longrightarrow> fat_entry img fs' c' = fat_entry img fs c'"
    and "free_clust fs' = free_clust fs" and "last_clust fs' = last_clust fs" and "fs_type fs' = fs_type fs"
proof -
  obtain v fs' where p: "get_fat ops c fs = Some (v, fs')" "inv fs'" "unchanged img fs fs'"
      "v = fat_entry img fs c \<or> v = 0xFFFFFFFF"
    using get_fat_law [OF assms(1,2), of c] assms(3,4) by (auto simp: returns_iff)
  show ?thesis
    using that [OF p(1,4,2) unchanged_layout [OF p(3) assms(2)] p(3)] unchanged_sel [OF p(3)]
      fat_entry_unchanged [OF p(3) assms(2)] by auto
qed

lemma remove_loop_chain:
  assumes "inv fs" and "vol_layout fs" and "fat_chain (fat_entry img fs) (n_fatent fs) c cs"
  shows "returns (remove_loop ops c fs) (\<lambda>r fs'. r \<in> {FR_OK, FR_DISK_ERR} \<and> inv fs' \<and> outside img fs fs' \<and>
    (\<forall>x. x < n_fatent fs \<longrightarrow> x \<notin> set cs \<longrightarrow> fat_entry img fs' x = fat_entry img fs x) \<and>
    (r = FR_OK \<longrightarrow> (\<forall>x\<in>set cs. fat_entry img fs' x = 0) \<and>
       (unat (free_clust fs) + length cs < 2 ^ 32 - 1 \<longrightarrow> free_clust fs' = free_clust fs + of_nat (length cs))))"
  using assms
proof (induction cs arbitrary: c fs)
  case Nil
  then show ?case by (subst remove_loop.simps) (auto simp: not_less)
next
  case (Cons a cs)
  note inv = Cons.prems(1) and lay = Cons.prems(2)
  have a: "a = c" "2 \<le> c" "c < n_fatent fs" "2 \<le> fat_entry img fs c"
    and ch: "fat_chain (fat_entry img fs) (n_fatent fs) (fat_entry img fs c) cs"
    using Cons.prems(3) by auto
  have nc: "c \<notin> set cs" using fat_chain_distinct [OF Cons.prems(3)] a(1) by simp
  obtain v fs1 where g: "get_fat ops c fs = Some (v, fs1)" "v = fat_entry img fs c \<or> v = 0xFFFFFFFF"
    "inv fs1" "vol_layout fs1" "unchanged img fs fs1" "n_fatent fs1 = n_fatent fs"
    "\<And>x. x < n_fatent fs \<Longrightarrow> fat_entry img fs1 x = fat_entry img fs x" "free_clust fs1 = free_clust fs"
    by (rule get_fat_step [OF inv lay a(2,3)]) blast
  note o1 = unchanged_outside [OF g(5)]
  have c1: "c < n_fatent fs1" using a(3) g(6) by simp
  obtain r fs2 where p: "put_fat ops c 0 fs1 = Some (r, fs2)" "r = FR_OK \<or> r = FR_DISK_ERR" "inv fs2" "vol_layout fs2"
    "outside img fs1 fs2" "n_fatent fs2 = n_fatent fs1"
    "\<And>x. x < n_fatent fs1 \<Longrightarrow> x \<noteq> c \<Longrightarrow> fat_entry img fs2 x = fat_entry img fs1 x"
    "r = FR_OK \<Longrightarrow> fat_entry img fs2 c = 0 AND fat_mask (fs_type fs1)" "free_clust fs2 = free_clust fs1"
    by (rule put_fat_step [OF g(3,4) a(2) c1, of 0]) blast
  note o2 = outside_trans [OF o1 p(5)]
  have other: "fat_entry img fs2 x = fat_entry img fs x" if "x < n_fatent fs" "x \<noteq> c" for x
    using p(7) g(6,7) that by simp
  have e: "fat_entry img fs c \<noteq> 0" "fat_entry img fs c \<noteq> 1" using a(4) by auto
  show ?case
  proof (cases "v = fat_entry img fs c \<and> r = FR_OK")
    case False
    then show ?thesis
      using g p a e o1 o2 other fat_entry_not_err [of img fs c] by (subst remove_loop.simps) auto
  next
    case True
    define fs3 where "fs3 = (if free_clust fs2 \<noteq> 0xFFFFFFFF
      then fs2\<lparr>free_clust := free_clust fs2 + 1, fsi_flag := fsi_flag fs2 OR 1\<rparr> else fs2)"
    have f3: "inv fs3" "vol_layout fs3" "outside img fs fs3" "n_fatent fs3 = n_fatent fs" "fat_entry img fs3 = fat_entry img fs2"
      using p(3,4) o2 geom_sel(16) [of fs3 fs2] p(6) g(6)
      by (auto simp: fs3_def outside_def)
    have free3: "free_clust fs3 = free_clust fs + 1" if "unat (free_clust fs) + length (a # cs) < 2 ^ 32 - 1"
      using that p(9) g(8) by (auto simp: fs3_def)
    have ch3: "fat_chain (fat_entry img fs3) (n_fatent fs3) (fat_entry img fs c) cs"
      unfolding f3(4) by (rule fat_chain_cong [OF ch]) (use f3(5) other nc fat_chain_range [OF ch] in force)
    have rl: "remove_loop ops c fs = remove_loop ops (fat_entry img fs c) fs3"
      using True g(1) p(1) a e fat_entry_not_err [of img fs c] by (subst remove_loop.simps) (simp add: fs3_def)
    have c0: "fat_entry img fs3 c = 0" using p(8) True f3(5) by simp
    have fr: "unat (free_clust fs3) + length cs < 2 ^ 32 - 1 \<and> free_clust fs3 + of_nat (length cs) = free_clust fs + of_nat (length (a # cs))"
      if "unat (free_clust fs) + length (a # cs) < 2 ^ 32 - 1"
    proof -
      have "unat (free_clust fs + 1) = unat (free_clust fs) + 1" using that by (simp add: unat_word_ariths)
      then show ?thesis using free3 [OF that] that by simp
    qed
    show ?thesis
      unfolding rl
    proof (rule returns_mono [OF Cons.IH [OF f3(1,2) ch3]], goal_cases)
      case (1 r' fs')
      then show ?case
        using outside_trans [OF f3(3)] f3(4,5) other nc c0 fr a by auto
    qed
  qed
qed

end

context block_device
begin

text \<open>Releasing ends whatever the table holds: every step frees an entry in use.\<close>

lemma remove_loop_total:
  assumes "inv fs" and "vol_layout fs" and "2 \<le> c"
  shows "returns (remove_loop ops c fs) (\<lambda>r fs'. r \<in> {FR_OK, FR_INT_ERR, FR_DISK_ERR} \<and> inv fs' \<and> outside img fs fs')"
  using assms
proof (induction "Finite_Set.card {x. x < n_fatent fs \<and> fat_entry img fs x \<noteq> 0}" arbitrary: c fs rule: less_induct)
  case less
  note inv = less.prems(1) and lay = less.prems(2) and two = less.prems(3)
  show ?case
  proof (cases "c < n_fatent fs")
    case False
    then show ?thesis using inv by (subst remove_loop.simps) simp
  next
    case lt: True
    obtain v fs1 where g: "get_fat ops c fs = Some (v, fs1)" "v = fat_entry img fs c \<or> v = 0xFFFFFFFF"
      "inv fs1" "vol_layout fs1" "unchanged img fs fs1" "n_fatent fs1 = n_fatent fs"
      "\<And>x. x < n_fatent fs \<Longrightarrow> fat_entry img fs1 x = fat_entry img fs x" "free_clust fs1 = free_clust fs"
      by (rule get_fat_step [OF inv lay two lt]) blast
    note o1 = unchanged_outside [OF g(5)]
    have c1: "c < n_fatent fs1" using lt g(6) by simp
    obtain r fs2 where p: "put_fat ops c 0 fs1 = Some (r, fs2)" "r = FR_OK \<or> r = FR_DISK_ERR" "inv fs2" "vol_layout fs2"
      "outside img fs1 fs2" "n_fatent fs2 = n_fatent fs1"
      "\<And>x. x < n_fatent fs1 \<Longrightarrow> x \<noteq> c \<Longrightarrow> fat_entry img fs2 x = fat_entry img fs1 x"
      "r = FR_OK \<Longrightarrow> fat_entry img fs2 c = 0 AND fat_mask (fs_type fs1)"
      by (rule put_fat_step [OF g(3,4) two c1, of 0]) blast
    note o2 = outside_trans [OF o1 p(5)]
    show ?thesis
    proof (cases "v = 0 \<or> v = 1 \<or> v = 0xFFFFFFFF \<or> r \<noteq> FR_OK")
      case True
      then show ?thesis
        using g(1,3) p(1,2,3) lt o1 o2 by (subst remove_loop.simps) (elim disjE; simp)
    next
      case False
      define fs3 where "fs3 = (if free_clust fs2 \<noteq> 0xFFFFFFFF
        then fs2\<lparr>free_clust := free_clust fs2 + 1, fsi_flag := fsi_flag fs2 OR 1\<rparr> else fs2)"
      have f3: "inv fs3" "vol_layout fs3" "outside img fs fs3" "n_fatent fs3 = n_fatent fs" "fat_entry img fs3 = fat_entry img fs2"
        using p(3,4) o2 geom_sel(16) [of fs3 fs2] p(6) g(6)
        by (auto simp: fs3_def outside_def)
      have rl: "remove_loop ops c fs = remove_loop ops v fs3"
        using False g(1) p(1) lt by (subst remove_loop.simps) (simp add: fs3_def)
      have v2: "2 \<le> v" using False word_ge_2 by blast
      have sub: "{x. x < n_fatent fs3 \<and> fat_entry img fs3 x \<noteq> 0} \<subset> {x. x < n_fatent fs \<and> fat_entry img fs x \<noteq> 0}"
      proof (rule psubsetI)
        show "{x. x < n_fatent fs3 \<and> fat_entry img fs3 x \<noteq> 0} \<subseteq> {x. x < n_fatent fs \<and> fat_entry img fs x \<noteq> 0}"
        proof
          fix x assume "x \<in> {x. x < n_fatent fs3 \<and> fat_entry img fs3 x \<noteq> 0}"
          then have x: "x < n_fatent fs" "fat_entry img fs2 x \<noteq> 0" using f3(4,5) by simp_all
          moreover have "x \<noteq> c" using x(2) p(8) False by auto
          ultimately show "x \<in> {x. x < n_fatent fs \<and> fat_entry img fs x \<noteq> 0}" using p(7) g(6,7) by simp
        qed
        have "c \<in> {x. x < n_fatent fs \<and> fat_entry img fs x \<noteq> 0}" using lt g(2) False by auto
        moreover have "c \<notin> {x. x < n_fatent fs3 \<and> fat_entry img fs3 x \<noteq> 0}" using p(8) False f3(5) by simp
        ultimately show "{x. x < n_fatent fs3 \<and> fat_entry img fs3 x \<noteq> 0} \<noteq> {x. x < n_fatent fs \<and> fat_entry img fs x \<noteq> 0}"
          by blast
      qed
      have "Finite_Set.card {x. x < n_fatent fs3 \<and> fat_entry img fs3 x \<noteq> 0}
          < Finite_Set.card {x. x < n_fatent fs \<and> fat_entry img fs x \<noteq> 0}"
        by (rule psubset_card_mono [OF _ sub]) simp
      then show ?thesis
        unfolding rl
        by (rule returns_mono [OF less.hyps [OF _ f3(1,2) v2]]) (use outside_trans [OF f3(3)] in auto)
    qed
  qed
qed

end

lemma word_Suc_unat: "(x :: u32) < y \<Longrightarrow> unat (x + 1) = unat x + 1"
  using u32_less [of y] by (simp add: unat_word_ariths word_less_nat_alt)

context block_device
begin

text \<open>What a search reports when the clusters still to be looked at are \<open>R\<close>.\<close>

definition scan_post :: "u32 set \<Rightarrow> 'd fatfs \<Rightarrow> u32 + u32 \<Rightarrow> 'd fatfs \<Rightarrow> bool" where
  "scan_post R fs x fs' \<longleftrightarrow> inv fs' \<and> unchanged img fs fs' \<and>
     (case x of Inr m \<Rightarrow> 2 \<le> m \<and> m < n_fatent fs \<and> fat_entry img fs m = 0
      | Inl v \<Rightarrow> v = 0 \<and> (\<forall>x\<in>R. fat_entry img fs x \<noteq> 0) \<or> v = 1 \<or> v = 0xFFFFFFFF)"

lemma scan_step:
  assumes inv: "inv fs" and lay: "vol_layout fs" and m: "2 \<le> m" "m < n_fatent fs"
    and next_m: "\<And>fs1. m \<noteq> scl \<Longrightarrow> inv fs1 \<Longrightarrow> vol_layout fs1 \<Longrightarrow> unchanged img fs fs1 \<Longrightarrow>
      returns (create_scan ops scl m fs1) (scan_post R fs1)"
    and R: "\<And>x. x \<in> R' \<Longrightarrow> x = m \<or> x \<in> R" and stop: "m = scl \<Longrightarrow> R' \<subseteq> {m}"
    and R_range: "\<And>x. x \<in> R \<Longrightarrow> x < n_fatent fs"
  shows "returns (do {
      (cs, fs) \<leftarrow> get_fat ops m fs;
      if cs = 0 then Some (Inr m, fs)
      else if cs = 0xFFFFFFFF \<or> cs = 1 then Some (Inl cs, fs)
      else if m = scl then Some (Inl 0, fs)
      else create_scan ops scl m fs }) (scan_post R' fs)"
proof -
  obtain v fs1 where g: "get_fat ops m fs = Some (v, fs1)" "v = fat_entry img fs m \<or> v = 0xFFFFFFFF"
    "inv fs1" "vol_layout fs1" "unchanged img fs fs1" "n_fatent fs1 = n_fatent fs"
    "\<And>x. x < n_fatent fs \<Longrightarrow> fat_entry img fs1 x = fat_entry img fs x"
    by (rule get_fat_step [OF inv lay m]) blast
  consider "v = 0" | "v = 0xFFFFFFFF \<or> v = 1" | "v \<noteq> 0" "v \<noteq> 0xFFFFFFFF" "v \<noteq> 1" "m = scl"
    | "v \<noteq> 0" "v \<noteq> 0xFFFFFFFF" "v \<noteq> 1" "m \<noteq> scl" by blast
  then show ?thesis
  proof cases
    case 4
    have e: "fat_entry img fs m \<noteq> 0" using 4 g(2) by auto
    have nz: "\<forall>x\<in>R'. fat_entry img fs x \<noteq> 0" if "\<forall>x\<in>R. fat_entry img fs1 x \<noteq> 0"
      using that g(7) R R_range e by metis
    have post: "scan_post R' fs x fs'" if "scan_post R fs1 x fs'" for x fs'
      using that g(6,7) nz unchanged_trans [OF g(5)] by (auto simp: scan_post_def split: sum.splits)
    show ?thesis
      using 4 g(1) next_m [OF 4(4) g(3,4,5)] by (auto elim!: returns_mono post)
  qed (use g m stop in \<open>auto simp: scan_post_def\<close>)
qed

lemma create_scan_low:
  assumes "inv fs" and "vol_layout fs" and "1 \<le> ncl" "ncl < scl" "scl < n_fatent fs"
  shows "returns (create_scan ops scl ncl fs) (scan_post {x. ncl < x \<and> x \<le> scl} fs)"
  using assms
proof (induction "unat scl - unat ncl" arbitrary: ncl fs rule: less_induct)
  case less
  have u: "unat (ncl + 1) = unat ncl + 1" using less.prems(4) by (rule word_Suc_unat)
  have le: "2 \<le> ncl + 1" "ncl + 1 \<le> scl" "ncl + 1 < n_fatent fs" "\<not> n_fatent fs \<le> ncl + 1"
    using less.prems(3,4,5) u by (auto simp: word_le_nat_alt word_less_nat_alt)
  have "returns (do {
      (cs, fs) \<leftarrow> get_fat ops (ncl + 1) fs;
      if cs = 0 then Some (Inr (ncl + 1), fs)
      else if cs = 0xFFFFFFFF \<or> cs = 1 then Some (Inl cs, fs)
      else if ncl + 1 = scl then Some (Inl 0, fs)
      else create_scan ops scl (ncl + 1) fs }) (scan_post {x. ncl < x \<and> x \<le> scl} fs)"
  proof (rule scan_step [OF less.prems(1,2) le(1,3), where R = "{x. ncl + 1 < x \<and> x \<le> scl}"], goal_cases)
    case (1 fs1)
    have "n_fatent fs1 = n_fatent fs" using unchanged_sel [OF 1(4)] by simp
    moreover have "ncl + 1 < scl" using 1(1) le(2) by simp
    moreover have "unat scl - unat (ncl + 1) < unat scl - unat ncl"
      using u less.prems(4) by (simp add: word_less_nat_alt)
    ultimately show ?case using less.hyps [OF _ 1(2,3)] le(1) less.prems(5)
      by (simp add: word_le_nat_alt)
  next
    case (2 x)
    then show ?case using u by (auto simp: word_less_nat_alt word_le_nat_alt word_unat_eq_iff)
  next
    case 3
    then show ?case using u by (auto simp: word_less_nat_alt word_le_nat_alt word_unat_eq_iff)
  next
    case (4 x)
    then show ?case using less.prems(5) by auto
  qed
  then show ?case using le(4) by (subst create_scan.simps) (simp add: Let_def)
qed

lemma create_scan_high:
  assumes "inv fs" and "vol_layout fs" and "1 \<le> scl" "scl \<le> ncl" "ncl < n_fatent fs"
  shows "returns (create_scan ops scl ncl fs)
    (scan_post {x. ncl < x \<and> x < n_fatent fs \<or> 2 \<le> x \<and> x \<le> scl} fs)"
  using assms
proof (induction "unat (n_fatent fs) - unat ncl" arbitrary: ncl fs rule: less_induct)
  case less
  have u: "unat (ncl + 1) = unat ncl + 1" using less.prems(5) by (rule word_Suc_unat)
  let ?R = "{x. ncl < x \<and> x < n_fatent fs \<or> 2 \<le> x \<and> x \<le> scl}"
  show ?case
  proof (cases "n_fatent fs \<le> ncl + 1")
    case False
    have le: "2 \<le> ncl + 1" "scl < ncl + 1" "ncl + 1 < n_fatent fs"
      using less.prems(3,4,5) u False by (auto simp: word_le_nat_alt word_less_nat_alt)
    have "returns (do {
        (cs, fs) \<leftarrow> get_fat ops (ncl + 1) fs;
        if cs = 0 then Some (Inr (ncl + 1), fs)
        else if cs = 0xFFFFFFFF \<or> cs = 1 then Some (Inl cs, fs)
        else if ncl + 1 = scl then Some (Inl 0, fs)
        else create_scan ops scl (ncl + 1) fs }) (scan_post ?R fs)"
    proof (rule scan_step [OF less.prems(1,2) le(1,3), where R = "{x. ncl + 1 < x \<and> x < n_fatent fs \<or> 2 \<le> x \<and> x \<le> scl}"], goal_cases)
      case (1 fs1)
      have n1: "n_fatent fs1 = n_fatent fs" using unchanged_sel [OF 1(4)] by simp
      have d: "unat (n_fatent fs1) - unat (ncl + 1) < unat (n_fatent fs) - unat ncl"
        using u less.prems(5) n1 by (simp add: word_less_nat_alt)
      show ?case using less.hyps [OF d 1(2,3) less.prems(3)] le n1 by simp
    next
      case (2 x)
      then show ?case using u by (auto simp: word_less_nat_alt word_le_nat_alt word_unat_eq_iff)
    next
      case 3
      then show ?case using le by simp
    next
      case (4 x)
      then show ?case using less.prems(4,5) by auto
    qed
    then show ?thesis using False by (subst create_scan.simps) (simp add: Let_def)
  next
    case wrap: True
    have n2: "2 < n_fatent fs" using less.prems(2) by (simp add: vol_layout_def)
    have R: "?R = {x. 2 \<le> x \<and> x \<le> scl}"
      using wrap u by (auto simp: word_less_nat_alt word_le_nat_alt)
    show ?thesis
    proof (cases "scl < 2")
      case True
      then have "?R = {}" unfolding R by (auto simp: word_less_nat_alt word_le_nat_alt)
      then show ?thesis
        unfolding \<open>?R = {}\<close>
        using wrap True less.prems(1) by (subst create_scan.simps) (simp add: Let_def scan_post_def)
    next
      case False
      have "returns (do {
          (cs, fs) \<leftarrow> get_fat ops 2 fs;
          if cs = 0 then Some (Inr 2, fs)
          else if cs = 0xFFFFFFFF \<or> cs = 1 then Some (Inl cs, fs)
          else if 2 = scl then Some (Inl 0, fs)
          else create_scan ops scl 2 fs }) (scan_post ?R fs)"
      proof (rule scan_step [OF less.prems(1,2) _ n2, where R = "{x. 2 < x \<and> x \<le> scl}"], goal_cases)
        case (2 fs1)
        have "n_fatent fs1 = n_fatent fs" using unchanged_sel [OF 2(4)] by simp
        moreover have "2 < scl" "scl < n_fatent fs" "(1 :: u32) \<le> 2"
          using 2(1) False less.prems(4,5) by (auto simp: word_le_nat_alt [of 1 2])
        ultimately show ?case using create_scan_low [OF 2(2,3), of 2 scl] by simp
      next
        case (3 x)
        then show ?case unfolding R by auto
      next
        case 4
        then show ?case unfolding R by auto
      next
        case (5 x)
        then show ?case using less.prems(4,5) by auto
      qed simp
      then show ?thesis using wrap False by (subst create_scan.simps) (simp add: Let_def)
    qed
  qed
qed

end

lemma and_fat_mask:
  assumes "vol_layout fs" and "c < n_fatent fs"
  shows "c AND fat_mask (fs_type fs) = c"
proof -
  have k: "unat c < 4096 \<Longrightarrow> c AND mask 12 = c" "unat c < 65536 \<Longrightarrow> c AND mask 16 = c"
    "unat c < 268435456 \<Longrightarrow> c AND mask 28 = c"
    unfolding mask_eq_iff unat_eq_nat_uint by (simp_all add: nat_less_iff del: nat_uint_eq)
  have "unat c < unat (n_fatent fs)" using assms(2) by (simp add: word_less_nat_alt)
  then show ?thesis
    using layout_type [OF assms(1)] assms(1) k
    by (auto simp: fat_mask_def mask_bits vol_layout_def split: if_splits)
qed

definition alloc_post :: "('d \<Rightarrow> u32 \<Rightarrow> bytes) \<Rightarrow> u32 \<Rightarrow> 'd fatfs \<Rightarrow> u32 \<Rightarrow> 'd fatfs \<Rightarrow> bool" where
  "alloc_post img c fs v fs' \<longleftrightarrow>
     (v = 0 \<and> (\<forall>x. 2 \<le> x \<longrightarrow> x < n_fatent fs \<longrightarrow> fat_entry img fs x \<noteq> 0) \<and>
        (\<forall>x. x < n_fatent fs \<longrightarrow> fat_entry img fs' x = fat_entry img fs x)) \<or>
     ((v = 1 \<or> v = 0xFFFFFFFF) \<and>
        (\<forall>x. x < n_fatent fs \<longrightarrow> x \<noteq> c \<longrightarrow> fat_entry img fs x \<noteq> 0 \<longrightarrow> fat_entry img fs' x = fat_entry img fs x)) \<or>
     (2 \<le> v \<and> v < n_fatent fs \<and> c \<noteq> 0 \<and> fat_entry img fs c = v \<and>
        (\<forall>x. x < n_fatent fs \<longrightarrow> fat_entry img fs' x = fat_entry img fs x)) \<or>
     (2 \<le> v \<and> v < n_fatent fs \<and> fat_entry img fs v = 0 \<and> v \<noteq> c \<and>
        fat_entry img fs' v = fat_mask (fs_type fs) \<and>
        (c \<noteq> 0 \<longrightarrow> n_fatent fs \<le> fat_entry img fs c \<and> fat_entry img fs' c = v) \<and>
        (\<forall>x. x < n_fatent fs \<longrightarrow> x \<noteq> v \<longrightarrow> x \<noteq> c \<longrightarrow> fat_entry img fs' x = fat_entry img fs x) \<and>
        last_clust fs' = v)"

lemma alloc_err:
  assumes "v = 1 \<or> v = 0xFFFFFFFF" and "fat_entry img fs m = 0"
    and "\<And>x. x < n_fatent fs \<Longrightarrow> x \<noteq> m \<Longrightarrow> x \<noteq> c \<Longrightarrow> fat_entry img fs' x = fat_entry img fs x"
  shows "alloc_post img c fs v fs'"
  using assms unfolding alloc_post_def by metis

lemma note_alloc_simps [simp]:
  "win_inv dno ok img (note_alloc m fs) = win_inv dno ok img fs" "outside img fs0 (note_alloc m fs) = outside img fs0 fs"
  "fat_entry img (note_alloc m fs) = fat_entry img fs" "last_clust (note_alloc m fs) = m"
  by (simp_all add: note_alloc_def Let_def outside_def)

lemma last_mark_masked: "0x0FFFFFFF AND fat_mask ty = fat_mask ty"
  by (simp add: fat_mask_def)

context block_device
begin

lemma create_start_law:
  assumes "inv fs" and "vol_layout fs"
  shows "returns (create_start ops c fs) (\<lambda>x fs'. inv fs' \<and> unchanged img fs fs' \<and>
    (case x of Inr s \<Rightarrow> 1 \<le> s \<and> s < n_fatent fs \<and> (c \<noteq> 0 \<longrightarrow> s = c \<and> 2 \<le> c \<and> n_fatent fs \<le> fat_entry img fs c)
     | Inl v \<Rightarrow> v = 1 \<or> v = 0xFFFFFFFF \<or> 2 \<le> v \<and> v < n_fatent fs \<and> c \<noteq> 0 \<and> fat_entry img fs c = v))"
proof (cases "c = 0")
  case True
  have "1 < n_fatent fs" using assms(2) by (auto simp: vol_layout_def word_less_nat_alt)
  moreover have "last_clust fs \<noteq> 0 \<Longrightarrow> 1 \<le> last_clust fs"
    by (auto simp: word_le_nat_alt word_unat_eq_iff)
  ultimately show ?thesis using True assms(1) by (auto simp: create_start_def)
next
  case False
  obtain v fs1 where g: "get_fat ops c fs = Some (v, fs1)" "inv fs1" "unchanged img fs fs1"
      "if 2 \<le> c \<and> c < n_fatent fs then v = fat_entry img fs c \<or> v = 0xFFFFFFFF else v = 1"
    using get_fat_law [OF assms, of c] by (auto simp: returns_iff)
  have n: "n_fatent fs1 = n_fatent fs" using unchanged_sel [OF g(3)] by simp
  have one: "2 \<le> c \<Longrightarrow> 1 \<le> c" by (simp add: word_le_nat_alt)
  show ?thesis
    using False g n one by (auto simp: create_start_def not_less split: if_splits)
qed

lemma create_chain_law:
  assumes inv: "inv fs" and lay: "vol_layout fs"
  shows "returns (create_chain ops c fs) (\<lambda>v fs'. inv fs' \<and> outside img fs fs' \<and> alloc_post img c fs v fs')"
proof -
  obtain x fs1 where st: "create_start ops c fs = Some (x, fs1)" "inv fs1" "unchanged img fs fs1"
      "case x of Inr s \<Rightarrow> 1 \<le> s \<and> s < n_fatent fs \<and> (c \<noteq> 0 \<longrightarrow> s = c \<and> 2 \<le> c \<and> n_fatent fs \<le> fat_entry img fs c)
       | Inl v \<Rightarrow> v = 1 \<or> v = 0xFFFFFFFF \<or> 2 \<le> v \<and> v < n_fatent fs \<and> c \<noteq> 0 \<and> fat_entry img fs c = v"
    using create_start_law [OF assms, of c] by (auto simp: returns_iff)
  note lay1 = unchanged_layout [OF st(3) lay] and sel1 = unchanged_sel [OF st(3)]
  have same1: "x < n_fatent fs \<Longrightarrow> fat_entry img fs1 x = fat_entry img fs x" for x
    by (rule fat_entry_unchanged [OF st(3) lay])
  show ?thesis
  proof (cases x)
    case (Inl v)
    then show ?thesis
      using st same1 unchanged_outside [OF st(3)] by (auto simp: create_chain_def alloc_post_def)
  next
    case (Inr s)
    then have s: "1 \<le> s" "s < n_fatent fs1" "c \<noteq> 0 \<Longrightarrow> s = c \<and> 2 \<le> c \<and> n_fatent fs \<le> fat_entry img fs c"
      using st(4) sel1 by auto
    obtain y fs2 where sc: "create_scan ops s s fs1 = Some (y, fs2)"
        "scan_post {x. s < x \<and> x < n_fatent fs1 \<or> 2 \<le> x \<and> x \<le> s} fs1 y fs2"
      using create_scan_high [OF st(2) lay1 s(1) order_refl s(2)] by (auto simp: returns_iff)
    have i2: "inv fs2" "unchanged img fs1 fs2" using sc(2) by (auto simp: scan_post_def)
    have un2: "unchanged img fs fs2" using st(3) i2(2) by (rule unchanged_trans)
    note lay2 = unchanged_layout [OF un2 lay] and sel2 = unchanged_sel [OF un2] and o2 = unchanged_outside [OF un2]
    have same2: "x < n_fatent fs \<Longrightarrow> fat_entry img fs2 x = fat_entry img fs x" for x
      by (rule fat_entry_unchanged [OF un2 lay])
    show ?thesis
    proof (cases y)
      case (Inl v)
      have "fat_entry img fs x \<noteq> 0" if "v = 0" "2 \<le> x" "x < n_fatent fs" for x
        using that sc(2) Inl same1 sel1 by (force simp: scan_post_def)
      then show ?thesis
        using Inr Inl st(1) sc i2(1) o2 same2 by (auto simp: create_chain_def alloc_post_def scan_post_def)
    next
      case free: (Inr m)
      then have m: "2 \<le> m" "m < n_fatent fs" "fat_entry img fs m = 0"
        using sc(2) sel1 same1 by (auto simp: scan_post_def)
      have m2: "m < n_fatent fs2" using m sel2 by simp
      obtain r fs3 where p: "put_fat ops m 0x0FFFFFFF fs2 = Some (r, fs3)" "r = FR_OK \<or> r = FR_DISK_ERR" "inv fs3" "vol_layout fs3"
        "outside img fs2 fs3" "n_fatent fs3 = n_fatent fs2" "fs_type fs3 = fs_type fs2"
        "\<And>x. x < n_fatent fs2 \<Longrightarrow> x \<noteq> m \<Longrightarrow> fat_entry img fs3 x = fat_entry img fs2 x"
        "r = FR_OK \<Longrightarrow> fat_entry img fs3 m = 0x0FFFFFFF AND fat_mask (fs_type fs2)"
        by (rule put_fat_step [OF i2(1) lay2 m(1) m2, of "0x0FFFFFFF"]) blast
      note o3 = outside_trans [OF o2 p(5)]
      have same3: "x < n_fatent fs \<Longrightarrow> x \<noteq> m \<Longrightarrow> fat_entry img fs3 x = fat_entry img fs x" for x
        using p(8) same2 sel2 by simp
      show ?thesis
      proof (cases "r = FR_OK \<and> c \<noteq> 0")
        case False
        show ?thesis
        proof (cases "r = FR_OK")
          case True
          then have "create_chain ops c fs = Some (m, note_alloc m fs3)"
            using False Inr free st(1) sc(1) p(1) by (simp add: create_chain_def)
          moreover have "alloc_post img c fs m (note_alloc m fs3)"
            using True False m p(9) same3 sel2 last_mark_masked by (auto simp: alloc_post_def)
          ultimately show ?thesis using p(3) o3 by simp
        next
          case err: False
          then have "create_chain ops c fs = Some (0xFFFFFFFF, fs3)"
            using Inr free st(1) sc(1) p(1,2) by (auto simp: create_chain_def)
          then show ?thesis using p(3) o3 alloc_err [OF _ m(3) same3] by simp
        qed
      next
        case True
        have c: "2 \<le> c" "c < n_fatent fs" "n_fatent fs \<le> fat_entry img fs c" using s sel1 True by auto
        have mc: "m \<noteq> c" using m(3) c by auto
        have c3: "c < n_fatent fs3" using c(2) p(6) sel2 by simp
        obtain r4 fs4 where q: "put_fat ops c m fs3 = Some (r4, fs4)" "r4 = FR_OK \<or> r4 = FR_DISK_ERR" "inv fs4" 
          "outside img fs3 fs4"
          "\<And>x. x < n_fatent fs3 \<Longrightarrow> x \<noteq> c \<Longrightarrow> fat_entry img fs4 x = fat_entry img fs3 x"
          "r4 = FR_OK \<Longrightarrow> fat_entry img fs4 c = m AND fat_mask (fs_type fs3)"
          by (rule put_fat_step [OF p(3,4) c(1) c3, of m]) blast
        note o4 = outside_trans [OF o3 q(4)]
        have same4: "x < n_fatent fs \<Longrightarrow> x \<noteq> m \<Longrightarrow> x \<noteq> c \<Longrightarrow> fat_entry img fs4 x = fat_entry img fs x" for x
          using q(5) same3 p(6) sel2 by simp
        have mm: "fat_entry img fs4 m = fat_mask (fs_type fs)" using q(5) p(6,9) True m(2) mc sel2 last_mark_masked by simp
        have cm: "r4 = FR_OK \<Longrightarrow> fat_entry img fs4 c = m" using q(6) and_fat_mask [OF lay m(2)] p(7) sel2 by simp
        show ?thesis
        proof (cases "r4 = FR_OK")
          case ok4: True
          then have "create_chain ops c fs = Some (m, note_alloc m fs4)"
            using True Inr free st(1) sc(1) p(1) q(1) by (simp add: create_chain_def)
          moreover have "alloc_post img c fs m (note_alloc m fs4)"
            using ok4 True m c mc mm cm same4 by (auto simp: alloc_post_def)
          ultimately show ?thesis using q(3) o4 by simp
        next
          case False
          then have "create_chain ops c fs = Some (0xFFFFFFFF, fs4)"
            using True Inr free st(1) sc(1) p(1) q(1,2) by (auto simp: create_chain_def)
          then show ?thesis using q(3) o4 alloc_err [OF _ m(3) same4] by simp
        qed
      qed
    qed
  qed
qed

end

section \<open>Clusters and sectors\<close>

lemma data_sector:
  assumes "vol_layout fs" and "c < n_fatent fs" and "2 \<le> c" and "i < unat (csize fs)"
  shows "unat (clust2sect fs c + of_nat i) = unat (database fs) + (unat c - 2) * unat (csize fs) + i"
proof -
  have cn: "unat c < unat (n_fatent fs)" "2 \<le> unat c" using assms(2,3) by (auto simp: word_less_nat_alt word_le_nat_alt)
  have c2: "unat (c - 2) = unat c - 2" using assms(3) by (simp add: unat_sub)
  have n2: "unat (n_fatent fs - 2) = unat (n_fatent fs) - 2" using cn by (simp add: unat_sub word_le_nat_alt)
  note cs = unat_ucast_u8 [of "csize fs"]
  have "(unat c - 2) * unat (csize fs) + i < (unat c - 2) * unat (csize fs) + unat (csize fs)" using assms(4) by simp
  also have "\<dots> = (unat c - 1) * unat (csize fs)" using cn(2) by (metis Suc_diff_Suc Suc_1 Suc_le_lessD add.commute mult_Suc)
  also have "\<dots> \<le> (unat (n_fatent fs) - 2) * unat (csize fs)" using cn by (intro mult_right_mono) auto
  finally have b: "unat (database fs) + ((unat c - 2) * unat (csize fs) + i) < 2 ^ 32 - 1"
    using assms(1) by (simp add: vol_layout_def)
  have m: "unat ((c - 2) * ucast (csize fs)) = (unat c - 2) * unat (csize fs)"
    using b by (simp add: unat_word_ariths c2 cs)
  have "\<not> n_fatent fs - 2 \<le> c - 2" using cn c2 n2 by (simp add: word_le_nat_alt)
  then have "clust2sect fs c = (c - 2) * ucast (csize fs) + database fs" by (simp add: clust2sect_def)
  then show ?thesis using b by (simp add: unat_word_ariths c2 cs unat_of_nat_small)
qed

text \<open>Every sector behind the tables is tracked: the root directory and the data area.\<close>

lemma area_tracked:
  assumes "vol_layout fs" and s: "unat (fatbase fs) + unat (n_fats fs) * unat (fsize fs) \<le> unat s" and "s \<noteq> 0xFFFFFFFF"
  shows "tracked fs s" and "\<not> fat_area fs s"
proof -
  have one: "1 \<le> unat (n_fats fs)" using assms(1) by (auto simp: vol_layout_def)
  then have "unat (fsize fs) \<le> unat (n_fats fs) * unat (fsize fs)" by simp
  then have b: "unat (fatbase fs) + unat (fsize fs) \<le> unat s" using s by linarith
  then have "unat (s - fatbase fs) = unat s - unat (fatbase fs)"
    by (simp add: unat_sub word_le_nat_alt)
  then show "\<not> fat_area fs s" using b by (simp add: fat_area_def word_less_nat_alt)
  have "\<not> mirror fs s"
  proof
    assume m: "mirror fs s"
    then have n2: "n_fats fs = 2" using assms(1) by (auto simp: mirror_def vol_layout_def)
    then have b2: "unat (fatbase fs) + 2 * unat (fsize fs) \<le> unat s" using s by simp
    have e: "unat (fatbase fs + fsize fs) = unat (fatbase fs) + unat (fsize fs)"
      using b u32_less [of s] by (simp add: unat_word_ariths)
    have "unat (s - (fatbase fs + fsize fs)) = unat s - (unat (fatbase fs) + unat (fsize fs))"
      using b e by (simp add: unat_sub word_le_nat_alt)
    moreover have "unat (s - (fatbase fs + fsize fs)) < unat (fsize fs)"
      using m by (simp add: mirror_def word_less_nat_alt)
    ultimately show False using b2 by linarith
  qed
  moreover have "\<not> (fs_type fs = FS_FAT32 \<and> s = volbase fs + 1)"
    using assms(1) b by (auto simp: vol_layout_def word_less_nat_alt)
  ultimately show "tracked fs s" using assms(3) by (simp add: tracked_def)
qed

lemma cluster_sector_bounds:
  assumes "vol_layout fs" and "2 \<le> c" and "c < n_fatent fs" and "i < unat (csize fs)"
  shows "unat (database fs) \<le> unat (clust2sect fs c + of_nat i)"
    and "unat (clust2sect fs c + of_nat i) < 2 ^ 32 - 1"
proof -
  show "unat (database fs) \<le> unat (clust2sect fs c + of_nat i)"
    using data_sector [OF assms(1,3,2,4)] by simp
  have cn: "unat c < unat (n_fatent fs)" "2 \<le> unat c" using assms(2,3) by (auto simp: word_less_nat_alt word_le_nat_alt)
  have "(unat c - 2) * unat (csize fs) + i < (unat c - 2) * unat (csize fs) + unat (csize fs)" using assms(4) by simp
  also have "\<dots> = (unat c - 1) * unat (csize fs)" using cn(2) by (metis Suc_diff_Suc Suc_1 Suc_le_lessD add.commute mult_Suc)
  also have "\<dots> \<le> (unat (n_fatent fs) - 2) * unat (csize fs)" using cn by (intro mult_right_mono) auto
  finally show "unat (clust2sect fs c + of_nat i) < 2 ^ 32 - 1"
    using assms(1) data_sector [OF assms(1,3,2,4)] by (simp add: vol_layout_def)
qed

lemma cluster_sector_tracked:
  assumes "vol_layout fs" and "2 \<le> c" and "c < n_fatent fs" and "i < unat (csize fs)"
  shows "tracked fs (clust2sect fs c + of_nat i)" and "\<not> fat_area fs (clust2sect fs c + of_nat i)"
proof -
  note b = cluster_sector_bounds [OF assms]
  have "clust2sect fs c + of_nat i \<noteq> 0xFFFFFFFF"
  proof
    assume "clust2sect fs c + of_nat i = 0xFFFFFFFF"
    then show False using b(2) by simp
  qed
  moreover have "unat (fatbase fs) + unat (n_fats fs) * unat (fsize fs) \<le> unat (clust2sect fs c + of_nat i)"
    using assms(1) b(1) by (simp add: vol_layout_def)
  ultimately show "tracked fs (clust2sect fs c + of_nat i)" "\<not> fat_area fs (clust2sect fs c + of_nat i)"
    using area_tracked [OF assms(1)] by simp_all
qed

lemma clust2sect_invalid:
  assumes "vol_layout fs" and False: "\<not> (2 \<le> c \<and> c < n_fatent fs)"
  shows "clust2sect fs c = 0"
proof -
  have n: "2 < n_fatent fs" "unat (n_fatent fs) < 2 ^ 28" using assms by (auto simp: vol_layout_def split: if_splits)
  have n2: "unat (n_fatent fs - 2) = unat (n_fatent fs) - 2"
    using n by (simp add: unat_sub word_le_nat_alt word_less_nat_alt)
  have "n_fatent fs - 2 \<le> c - 2"
  proof (cases "c < 2")
    case True
    then have "unat (c - 2) = 2 ^ 32 + unat c - 2"
      by (simp add: unat_sub_if_size word_size word_less_nat_alt)
    then show ?thesis using n n2 by (simp add: word_le_nat_alt)
  next
    case c: False
    then have "unat (c - 2) = unat c - 2" by (simp add: unat_sub)
    then show ?thesis using False c n2 by (simp add: word_le_nat_alt not_less not_le word_less_nat_alt)
  qed
  then show ?thesis by (simp add: clust2sect_def)
qed

section \<open>Properties\<close>

text \<open>
  C5: Writing an entry of the allocation table changes that entry only.  For FAT12, FAT16
  and FAT32, after \<open>put_fat\<close> returned FR_OK the entry has the value, reduced to the width of
  the FAT type; every other entry is unchanged even when the drive failed, and so is every
  sector outside the table.
\<close>

theorem put_fat_correct:
  assumes "block_device ops dno ok img" and "win_inv dno ok img fs" and "vol_layout fs"
    and "2 \<le> c" and "c < n_fatent fs"
  shows "returns (put_fat ops c v fs) (\<lambda>r fs'. r \<in> {FR_OK, FR_DISK_ERR} \<and> win_inv dno ok img fs' \<and>
    (r = FR_OK \<longrightarrow> fat_entry img fs' c = v AND fat_mask (fs_type fs)) \<and>
    (\<forall>x. x < n_fatent fs \<longrightarrow> x \<noteq> c \<longrightarrow> fat_entry img fs' x = fat_entry img fs x) \<and>
    (\<forall>t. tracked fs t \<longrightarrow> \<not> fat_area fs t \<longrightarrow> view img fs' t = view img fs t))"
  by (rule returns_mono [OF block_device.put_fat_law [OF assms]]) (auto simp: fat_set_def fat_only_def)

text \<open>
  C28: \<open>get_fat\<close> returns the entry of the cluster, or 0xFFFFFFFF after a drive error, or 1 when
  the cluster number is out of range; it changes nothing FatFs can see.
\<close>

theorem get_fat_correct:
  assumes "block_device ops dno ok img" and "win_inv dno ok img fs" and "vol_layout fs"
  shows "returns (get_fat ops c fs) (\<lambda>v fs'. win_inv dno ok img fs' \<and>
    (if 2 \<le> c \<and> c < n_fatent fs then v = fat_entry img fs c \<or> v = 0xFFFFFFFF else v = 1) \<and>
    (\<forall>t. tracked fs t \<longrightarrow> view img fs' t = view img fs t))"
  by (rule returns_mono [OF block_device.get_fat_law [OF assms]]) (auto simp: unchanged_def)

text \<open>
  C10: Releasing a chain frees exactly its clusters.  When \<open>remove_chain\<close> returns FR_OK every
  cluster of the chain is free and the free count has grown by its length; no other entry
  changes, whatever it returns.
\<close>

theorem remove_chain_correct:
  assumes "block_device ops dno ok img" and "win_inv dno ok img fs" and "vol_layout fs"
    and "fat_chain (fat_entry img fs) (n_fatent fs) c (c # cs)"
  shows "returns (remove_chain ops c fs) (\<lambda>r fs'. r \<in> {FR_OK, FR_DISK_ERR} \<and>
    (\<forall>x. x < n_fatent fs \<longrightarrow> x \<notin> set (c # cs) \<longrightarrow> fat_entry img fs' x = fat_entry img fs x) \<and>
    (r = FR_OK \<longrightarrow> (\<forall>x\<in>set (c # cs). fat_entry img fs' x = 0) \<and>
       (unat (free_clust fs) + length (c # cs) < 2 ^ 32 - 1 \<longrightarrow>
          free_clust fs' = free_clust fs + of_nat (length (c # cs)))))"
proof -
  have "remove_chain ops c fs = remove_loop ops c fs"
    using assms(4) by (auto simp: remove_chain_def not_le not_less)
  then show ?thesis
    using block_device.remove_loop_chain [OF assms] by (auto elim!: returns_mono)
qed

text \<open>
  C27: \<open>remove_chain\<close> returns on every table, also one whose chains are cyclic or cross, and
  on a drive that fails; it touches nothing outside the table.
\<close>

theorem remove_chain_terminates:
  assumes "block_device ops dno ok img" and "win_inv dno ok img fs" and "vol_layout fs"
  shows "returns (remove_chain ops c fs) (\<lambda>r fs'. r \<in> {FR_OK, FR_INT_ERR, FR_DISK_ERR} \<and> win_inv dno ok img fs' \<and>
    (\<forall>t. tracked fs t \<longrightarrow> \<not> fat_area fs t \<longrightarrow> view img fs' t = view img fs t))"
proof (cases "c < 2 \<or> n_fatent fs \<le> c")
  case True
  then show ?thesis using assms(2) by (simp add: remove_chain_def)
next
  case False
  then have "2 \<le> c" by (simp add: not_less)
  then show ?thesis
    using False block_device.remove_loop_total [OF assms, of c]
    by (auto simp: remove_chain_def outside_def elim!: returns_mono)
qed

text \<open>
  C9: \<open>create_chain\<close> returns, and what it returns is right: 0 only when no cluster is free;
  otherwise the follower the chain already had, or a cluster that was free, now marked as
  the end of the chain and linked from \<open>clst\<close> if that is not 0.  No other entry in use changes,
  also when it reports an error (1 or 0xFFFFFFFF).
\<close>

theorem create_chain_correct:
  assumes "block_device ops dno ok img" and "win_inv dno ok img fs" and "vol_layout fs"
  shows "returns (create_chain ops c fs) (\<lambda>v fs'. win_inv dno ok img fs' \<and> alloc_post img c fs v fs' \<and>
    (\<forall>t. tracked fs t \<longrightarrow> \<not> fat_area fs t \<longrightarrow> view img fs' t = view img fs t))"
  by (rule returns_mono [OF block_device.create_chain_law [OF assms]]) (auto simp: outside_def)

text \<open>
  The sectors of a cluster are computed without overflow: sector \<open>i\<close> of cluster \<open>c\<close> lies in
  the data area at the expected place, away from the table; a number that is no cluster
  gives 0.
\<close>

theorem clust2sect_correct:
  assumes "vol_layout fs"
  shows "if 2 \<le> c \<and> c < n_fatent fs
    then (\<forall>i < unat (csize fs).
       unat (clust2sect fs c + of_nat i) = unat (database fs) + (unat c - 2) * unat (csize fs) + i \<and>
       \<not> fat_area fs (clust2sect fs c + of_nat i))
    else clust2sect fs c = 0"
proof (cases "2 \<le> c \<and> c < n_fatent fs")
  case True
  have "\<not> fat_area fs (clust2sect fs c + of_nat i)" if "i < unat (csize fs)" for i
    using cluster_sector_tracked [OF assms _ _ that, of c] True by simp
  then show ?thesis using True data_sector [OF assms] by simp
next
  case False
  then have "clust2sect fs c = 0" by (rule clust2sect_invalid [OF assms])
  then show ?thesis using False by (simp only: if_False)
qed

section \<open>A small volume\<close>

text \<open>Its FAT16 table holds one chain, clusters 5 and 7; everything else is free.\<close>

definition demo_table :: "u32 \<Rightarrow> bytes" where
  "demo_table s = (if s = 64 then overlay 10 [7, 0, 0, 0, 0xFF, 0xFF] (replicate 512 0) else replicate 512 0)"

definition demo_vol :: "(u32 \<Rightarrow> bytes) fatfs" where
  "demo_vol = demo_fs demo_table (replicate 512 0)"

lemma demo_vol_inv: "win_inv 0 ram_ok (\<lambda>d. d) demo_vol"
  unfolding demo_vol_def by (rule demo_win_inv) (auto simp: ram_ok_def demo_table_def)

lemma demo_vol_layout: "vol_layout demo_vol"
  by (simp add: demo_vol_def demo_fs_def vol_layout_def fat_size_def FS_FAT12_def FS_FAT16_def FS_FAT32_def word_less_nat_alt word_le_nat_alt)

lemma demo_vol_n [simp]: "n_fatent demo_vol = 300" "csize demo_vol = 2" "fs_type demo_vol = FS_FAT16"
    "free_clust demo_vol = 0xFFFFFFFF" "database demo_vol = 70"
  by (simp_all add: demo_vol_def demo_fs_def)

lemma demo_entry: "unat c < 256 \<Longrightarrow> fat_entry (\<lambda>d. d) demo_vol c =
    ucast (le16 (demo_table 64 ! (2 * unat c)) (demo_table 64 ! (2 * unat c + 1)))"
  by (simp add: fat_entry_def fat_val_def fat_pos_def fat_bytes_def view_def demo_vol_def demo_fs_def Let_def)

lemma demo_entries: "fat_entry (\<lambda>d. d) demo_vol 5 = 7" "fat_entry (\<lambda>d. d) demo_vol 6 = 0"
    "fat_entry (\<lambda>d. d) demo_vol 7 = 0xFFFF" "fat_entry (\<lambda>d. d) demo_vol 2 = 0"
  by (simp_all add: demo_entry demo_table_def nth_overlay le16_def nth_Cons')

lemma demo_chain: "fat_chain (fat_entry (\<lambda>d. d) demo_vol) 300 5 [5, 7]"
  by (simp add: demo_entries)

theorem put_fat_correct_witness:
  "returns (put_fat ram_ops 6 0x12345 demo_vol) (\<lambda>r fs'.
     (r = FR_OK \<longrightarrow> fat_entry (\<lambda>d. d) fs' 6 = 0x2345) \<and> fat_entry (\<lambda>d. d) fs' 5 = 7)"
  by (rule returns_mono [OF put_fat_correct [OF ram.block_device_axioms demo_vol_inv demo_vol_layout, of 6]])
    (auto simp: fat_mask_def demo_entries)

theorem get_fat_correct_witness:
  "returns (get_fat ram_ops 5 demo_vol) (\<lambda>v fs'. v = 7 \<or> v = 0xFFFFFFFF)"
  by (rule returns_mono [OF get_fat_correct [OF ram.block_device_axioms demo_vol_inv demo_vol_layout, of 5]])
    (auto simp: demo_entries)

theorem remove_chain_correct_witness:
  "returns (remove_chain ram_ops 5 demo_vol) (\<lambda>r fs'.
     r = FR_OK \<longrightarrow> fat_entry (\<lambda>d. d) fs' 5 = 0 \<and> fat_entry (\<lambda>d. d) fs' 7 = 0)"
proof -
  have "fat_chain (fat_entry (\<lambda>d. d) demo_vol) (n_fatent demo_vol) 5 (5 # [7])"
    unfolding demo_vol_n by (rule demo_chain)
  from remove_chain_correct [OF ram.block_device_axioms demo_vol_inv demo_vol_layout this] show ?thesis
    by (rule returns_mono) simp
qed

theorem remove_chain_terminates_witness:
  "returns (remove_chain ram_ops 7 demo_vol) (\<lambda>r fs'. view (\<lambda>d. d) fs' 68 = replicate 512 0)"
proof (rule returns_mono [OF remove_chain_terminates [OF ram.block_device_axioms demo_vol_inv demo_vol_layout, of 7]])
  fix r fs'
  assume "r \<in> {FR_OK, FR_INT_ERR, FR_DISK_ERR} \<and> win_inv 0 ram_ok (\<lambda>d. d) fs' \<and>
    (\<forall>t. tracked demo_vol t \<longrightarrow> \<not> fat_area demo_vol t \<longrightarrow> view (\<lambda>d. d) fs' t = view (\<lambda>d. d) demo_vol t)"
  moreover have "tracked demo_vol 68" "view (\<lambda>d. d) demo_vol 68 = replicate 512 0" unfolding demo_vol_def by (simp_all only: demo_fs_facts)
  moreover have "\<not> fat_area demo_vol 68" by (simp add: fat_area_def demo_vol_def demo_fs_def)
  ultimately show "view (\<lambda>d. d) fs' 68 = replicate 512 0" by simp
qed

theorem create_chain_correct_witness:
  "returns (create_chain ram_ops 7 demo_vol) (\<lambda>v fs'. v \<noteq> 0 \<and>
     (v \<noteq> 1 \<and> v \<noteq> 0xFFFFFFFF \<longrightarrow> fat_entry (\<lambda>d. d) fs' 7 = v))"
  by (rule returns_mono [OF create_chain_correct [OF ram.block_device_axioms demo_vol_inv demo_vol_layout, of 7]])
    (auto simp: alloc_post_def demo_entries)

theorem clust2sect_correct_witness: "unat (clust2sect demo_vol 5 + of_nat 1) = 77"
  using clust2sect_correct [OF demo_vol_layout, of 5] by (auto dest: spec [of _ 1])

end
