(* ===== verification/Fat_Dir.thy ===== *)
theory Fat_Dir
  imports Fat_Table
begin

text \<open>
  Directories of FatFs, \<open>ff.c\<close>: stepping through the entries of a directory, finding and
  reading entries, reserving, registering and removing them.  A directory is abstracted to
  the sequence of its 32-byte entries; \<open>dir_loc\<close> gives the place of an entry.
\<close>

section \<open>State\<close>

text \<open>
  The directory object.  \<open>dj_fs\<close> is the address of its file system object, \<open>dj_dir\<close> the offset of
  the current entry in that object's window, \<open>None\<close> for a null pointer; \<open>dj_fn\<close> is the name
  buffer: 8 bytes body, 3 bytes extension, 1 byte status.
\<close>

record fdir =
  dj_fs :: "nat option"
  dj_id :: u16
  dj_index :: u16
  dj_sclust :: u32
  dj_clust :: u32
  dj_sect :: u32
  dj_dir :: "nat option"
  dj_fn :: bytes

record filinfo =
  fi_fsize :: u32
  fi_fdate :: u16
  fi_ftime :: u16
  fi_fattrib :: u8
  fi_fname :: bytes

definition DIR_Attr :: nat where "DIR_Attr = 11"
definition DIR_FstClusHI :: nat where "DIR_FstClusHI = 20"
definition DIR_WrtTime :: nat where "DIR_WrtTime = 22"
definition DIR_WrtDate :: nat where "DIR_WrtDate = 24"
definition DIR_FstClusLO :: nat where "DIR_FstClusLO = 26"
definition DIR_FileSize :: nat where "DIR_FileSize = 28"
definition SZ_DIRE :: nat where "SZ_DIRE = 32"
definition DDEM :: u8 where "DDEM = 0xE5"
definition RDDEM :: u8 where "RDDEM = 0x05"
definition AM_VOL :: u8 where "AM_VOL = 0x08"
definition AM_LFN :: u8 where "AM_LFN = 0x0F"
definition AM_DIR :: u8 where "AM_DIR = 0x10"
definition AM_ARC :: u8 where "AM_ARC = 0x20"
definition AM_MASK :: u8 where "AM_MASK = 0x3F"

section \<open>Stepping\<close>

text \<open>The loop over the cluster chain: the cluster and the index left in it, or an error.\<close>

partial_function (option) sdi_loop ::
  "'d disk_ops \<Rightarrow> u32 \<Rightarrow> u32 \<Rightarrow> u32 \<Rightarrow> 'd fatfs \<Rightarrow> ((fresult + u32 \<times> u32) \<times> 'd fatfs) option" where
  "sdi_loop ops ic clst idx fs =
     (if idx \<ge> ic then do {
        (clst, fs) \<leftarrow> get_fat ops clst fs;
        if clst = 0xFFFFFFFF then Some (Inl FR_DISK_ERR, fs)
        else if clst < 2 \<or> clst \<ge> n_fatent fs then Some (Inl FR_INT_ERR, fs)
        else sdi_loop ops ic clst (idx - ic) fs }
      else Some (Inr (clst, idx), fs))"

definition dir_sdi :: "'d disk_ops \<Rightarrow> u32 \<Rightarrow> fdir \<Rightarrow> 'd fatfs \<Rightarrow> ((fresult \<times> fdir) \<times> 'd fatfs) option" where
  "dir_sdi ops idx dp fs =
     (let dp = dp\<lparr>dj_index := ucast idx\<rparr>; clst = dj_sclust dp in
      if clst = 1 \<or> clst \<ge> n_fatent fs then Some ((FR_INT_ERR, dp), fs)
      else do {
        let clst = (if clst = 0 \<and> fs_type fs = FS_FAT32 then dirbase fs else clst);
        (place, fs) \<leftarrow> (if clst = 0
           then Some (if idx \<ge> ucast (n_rootdir fs) then Inl FR_INT_ERR else Inr (clst, dirbase fs, idx), fs)
           else do {
             (q, fs) \<leftarrow> sdi_loop ops (16 * ucast (csize fs)) clst idx fs;
             Some (case q of Inl e \<Rightarrow> Inl e | Inr (clst, idx) \<Rightarrow> Inr (clst, clust2sect fs clst, idx), fs) });
        case place of
          Inl e \<Rightarrow> Some ((e, dp), fs)
        | Inr (clst, sect, idx) \<Rightarrow>
            (let dp = dp\<lparr>dj_clust := clst\<rparr> in
             if sect = 0 then Some ((FR_INT_ERR, dp), fs)
             else Some ((FR_OK, dp\<lparr>dj_sect := sect + idx div 16, dj_dir := Some (unat (idx mod 16) * SZ_DIRE)\<rparr>), fs)) })"

text \<open>Clearing a new cluster of a directory: \<open>n\<close> sectors still to write.\<close>

primrec clear_loop :: "'d disk_ops \<Rightarrow> nat \<Rightarrow> 'd fatfs \<Rightarrow> (bool \<times> 'd fatfs) option" where
  "clear_loop ops 0 fs = Some (True, fs)"
| "clear_loop ops (Suc n) fs = do {
     (r, fs) \<leftarrow> sync_window ops (fs\<lparr>wflag := 1\<rparr>);
     if r \<noteq> FR_OK then Some (False, fs)
     else clear_loop ops n (fs\<lparr>winsect := winsect fs + 1\<rparr>) }"

definition dir_stretch :: "'d disk_ops \<Rightarrow> u32 \<Rightarrow> 'd fatfs \<Rightarrow> ((fresult + u32) \<times> 'd fatfs) option" where
  "dir_stretch ops clust fs = do {
     (clst, fs) \<leftarrow> create_chain ops clust fs;
     if clst = 0 then Some (Inl FR_DENIED, fs)
     else if clst = 1 then Some (Inl FR_INT_ERR, fs)
     else if clst = 0xFFFFFFFF then Some (Inl FR_DISK_ERR, fs)
     else do {
       (r, fs) \<leftarrow> sync_window ops fs;
       if r \<noteq> FR_OK then Some (Inl FR_DISK_ERR, fs) else do {
       w \<leftarrow> mem_set 0 0 SS (win fs);
       let fs = fs\<lparr>win := w, winsect := clust2sect fs clst\<rparr>;
       (cleared, fs) \<leftarrow> clear_loop ops (unat (csize fs)) fs;
       if \<not> cleared then Some (Inl FR_DISK_ERR, fs)
       else Some (Inr clst, fs\<lparr>winsect := winsect fs - ucast (csize fs)\<rparr>) } } }"

definition next_cluster :: "'d disk_ops \<Rightarrow> bool \<Rightarrow> u32 \<Rightarrow> 'd fatfs \<Rightarrow> ((fresult + u32) \<times> 'd fatfs) option" where
  "next_cluster ops stretch clust fs = do {
     (clst, fs) \<leftarrow> get_fat ops clust fs;
     if clst \<le> 1 then Some (Inl FR_INT_ERR, fs)
     else if clst = 0xFFFFFFFF then Some (Inl FR_DISK_ERR, fs)
     else if clst \<ge> n_fatent fs then
       (if \<not> stretch then Some (Inl FR_NO_FILE, fs) else dir_stretch ops clust fs)
     else Some (Inr clst, fs) }"

definition dir_next :: "'d disk_ops \<Rightarrow> bool \<Rightarrow> fdir \<Rightarrow> 'd fatfs \<Rightarrow> ((fresult \<times> fdir) \<times> 'd fatfs) option" where
  "dir_next ops stretch dp fs =
     (let i = ucast (dj_index dp) + 1 :: u32 in
      if i AND 0xFFFF = 0 \<or> dj_sect dp = 0 then Some ((FR_NO_FILE, dp), fs)
      else do {
        ((res, dp), fs) \<leftarrow>
          (if i mod 16 = 0 then
             (let dp = dp\<lparr>dj_sect := dj_sect dp + 1\<rparr> in
              if dj_clust dp = 0 then
                Some ((if i \<ge> ucast (n_rootdir fs) then FR_NO_FILE else FR_OK, dp), fs)
              else if (i div 16) AND (ucast (csize fs) - 1) = 0 then do {
                (q, fs) \<leftarrow> next_cluster ops stretch (dj_clust dp) fs;
                Some (case q of Inl e \<Rightarrow> (e, dp)
                  | Inr clst \<Rightarrow> (FR_OK, dp\<lparr>dj_clust := clst, dj_sect := clust2sect fs clst\<rparr>), fs) }
              else Some ((FR_OK, dp), fs))
           else Some ((FR_OK, dp), fs));
        if res \<noteq> FR_OK then Some ((res, dp), fs)
        else Some ((FR_OK, dp\<lparr>dj_index := ucast i, dj_dir := Some (unat (i mod 16) * SZ_DIRE)\<rparr>), fs) })"

section \<open>Entries\<close>

definition ld_clust :: "'d fatfs \<Rightarrow> nat \<Rightarrow> u32 option" where
  "ld_clust fs dir = do {
     lo \<leftarrow> LD_WORD (dir + DIR_FstClusLO) (win fs);
     if fs_type fs = FS_FAT32 then do {
       hi \<leftarrow> LD_WORD (dir + DIR_FstClusHI) (win fs);
       Some (ucast lo OR push_bit 16 (ucast hi)) }
     else Some (ucast lo) }"

definition st_clust :: "nat \<Rightarrow> u32 \<Rightarrow> bytes \<Rightarrow> bytes option" where
  "st_clust dir cl w = do {
     w \<leftarrow> ST_WORD (dir + DIR_FstClusLO) (ucast cl) w;
     ST_WORD (dir + DIR_FstClusHI) (ucast (drop_bit 16 cl)) w }"

text \<open>Reserving \<open>nent\<close> entries in a row, \<open>n\<close> of which are found.\<close>

partial_function (option) alloc_loop ::
  "'d disk_ops \<Rightarrow> u32 \<Rightarrow> u32 \<Rightarrow> fdir \<Rightarrow> 'd fatfs \<Rightarrow> ((fresult \<times> fdir) \<times> 'd fatfs) option" where
  "alloc_loop ops nent n dp fs = do {
     (res, fs) \<leftarrow> move_window ops (dj_sect dp) fs;
     if res \<noteq> FR_OK then Some ((res, dp), fs)
     else do {
       dir \<leftarrow> dj_dir dp;
       b \<leftarrow> get_at dir (win fs);
       let n = (if b = DDEM \<or> b = 0 then n + 1 else 0);
       if (b = DDEM \<or> b = 0) \<and> n = nent then Some ((res, dp), fs)
       else do {
         ((res, dp), fs) \<leftarrow> dir_next ops True dp fs;
         if res = FR_OK then alloc_loop ops nent n dp fs else Some ((res, dp), fs) } } }"

definition dir_alloc :: "'d disk_ops \<Rightarrow> u32 \<Rightarrow> fdir \<Rightarrow> 'd fatfs \<Rightarrow> ((fresult \<times> fdir) \<times> 'd fatfs) option" where
  "dir_alloc ops nent dp fs = do {
     ((res, dp), fs) \<leftarrow> dir_sdi ops 0 dp fs;
     ((res, dp), fs) \<leftarrow> (if res = FR_OK then alloc_loop ops nent 0 dp fs else Some ((res, dp), fs));
     Some ((if res = FR_NO_FILE then FR_DENIED else res, dp), fs) }"

partial_function (option) find_loop ::
  "'d disk_ops \<Rightarrow> fdir \<Rightarrow> 'd fatfs \<Rightarrow> ((fresult \<times> fdir) \<times> 'd fatfs) option" where
  "find_loop ops dp fs = do {
     (res, fs) \<leftarrow> move_window ops (dj_sect dp) fs;
     if res \<noteq> FR_OK then Some ((res, dp), fs)
     else do {
       dir \<leftarrow> dj_dir dp;
       c \<leftarrow> get_at dir (win fs);
       if c = 0 then Some ((FR_NO_FILE, dp), fs)
       else do {
         a \<leftarrow> get_at (dir + DIR_Attr) (win fs);
         cmp \<leftarrow> (if a AND AM_VOL = 0 then mem_cmp (drop dir (win fs)) (dj_fn dp) 11 else Some 1);
         if cmp = 0 then Some ((FR_OK, dp), fs)
         else do {
           ((res, dp), fs) \<leftarrow> dir_next ops False dp fs;
           if res = FR_OK then find_loop ops dp fs else Some ((res, dp), fs) } } } }"

definition dir_find :: "'d disk_ops \<Rightarrow> fdir \<Rightarrow> 'd fatfs \<Rightarrow> ((fresult \<times> fdir) \<times> 'd fatfs) option" where
  "dir_find ops dp fs = do {
     ((res, dp), fs) \<leftarrow> dir_sdi ops 0 dp fs;
     if res \<noteq> FR_OK then Some ((res, dp), fs) else find_loop ops dp fs }"

text \<open>The entries \<open>dir_read\<close> reports, \<open>vol\<close> choosing between volume labels and the others.\<close>

definition read_wanted :: "bool \<Rightarrow> u8 \<Rightarrow> u8 \<Rightarrow> bool" where
  "read_wanted vol c attr = (let a = attr AND AM_MASK in
     c \<noteq> DDEM \<and> a \<noteq> AM_LFN \<and> (a AND NOT AM_ARC = AM_VOL) = vol)"

partial_function (option) read_loop ::
  "'d disk_ops \<Rightarrow> bool \<Rightarrow> fresult \<Rightarrow> fdir \<Rightarrow> 'd fatfs \<Rightarrow> ((fresult \<times> fdir) \<times> 'd fatfs) option" where
  "read_loop ops vol res dp fs =
     (if dj_sect dp = 0 then Some ((res, dp), fs)
      else do {
        (res, fs) \<leftarrow> move_window ops (dj_sect dp) fs;
        if res \<noteq> FR_OK then Some ((res, dp), fs)
        else do {
          dir \<leftarrow> dj_dir dp;
          c \<leftarrow> get_at dir (win fs);
          if c = 0 then Some ((FR_NO_FILE, dp), fs)
          else do {
            a \<leftarrow> get_at (dir + DIR_Attr) (win fs);
            if read_wanted vol c a then Some ((FR_OK, dp), fs)
            else do {
              ((res, dp), fs) \<leftarrow> dir_next ops False dp fs;
              if res = FR_OK then read_loop ops vol res dp fs else Some ((res, dp), fs) } } } })"

definition dir_read :: "'d disk_ops \<Rightarrow> bool \<Rightarrow> fdir \<Rightarrow> 'd fatfs \<Rightarrow> ((fresult \<times> fdir) \<times> 'd fatfs) option" where
  "dir_read ops vol dp fs = do {
     ((res, dp), fs) \<leftarrow> read_loop ops vol FR_NO_FILE dp fs;
     Some ((res, if res \<noteq> FR_OK then dp\<lparr>dj_sect := 0\<rparr> else dp), fs) }"

definition dir_register :: "'d disk_ops \<Rightarrow> fdir \<Rightarrow> 'd fatfs \<Rightarrow> ((fresult \<times> fdir) \<times> 'd fatfs) option" where
  "dir_register ops dp fs = do {
     ((res, dp), fs) \<leftarrow> dir_alloc ops 1 dp fs;
     if res \<noteq> FR_OK then Some ((res, dp), fs)
     else do {
       (res, fs) \<leftarrow> move_window ops (dj_sect dp) fs;
       if res \<noteq> FR_OK then Some ((res, dp), fs)
       else do {
         dir \<leftarrow> dj_dir dp;
         w \<leftarrow> mem_set dir 0 SZ_DIRE (win fs);
         w \<leftarrow> mem_cpy dir (dj_fn dp) 11 w;
         Some ((FR_OK, dp), fs\<lparr>win := w, wflag := 1\<rparr>) } } }"

definition dir_remove :: "'d disk_ops \<Rightarrow> fdir \<Rightarrow> 'd fatfs \<Rightarrow> ((fresult \<times> fdir) \<times> 'd fatfs) option" where
  "dir_remove ops dp fs = do {
     ((res, dp), fs) \<leftarrow> dir_sdi ops (ucast (dj_index dp)) dp fs;
     if res \<noteq> FR_OK then Some ((res, dp), fs)
     else do {
       (res, fs) \<leftarrow> move_window ops (dj_sect dp) fs;
       if res \<noteq> FR_OK then Some ((res, dp), fs)
       else do {
         dir \<leftarrow> dj_dir dp;
         w \<leftarrow> mem_set dir 0 SZ_DIRE (win fs);
         w \<leftarrow> put_at dir DDEM w;
         Some ((FR_OK, dp), fs\<lparr>win := w, wflag := 1\<rparr>) } } }"

text \<open>The printable name of an entry: padding dropped, a dot before the extension.\<close>

primrec sfn_chars :: "nat \<Rightarrow> bytes \<Rightarrow> bytes" where
  "sfn_chars i [] = []"
| "sfn_chars i (c # cs) =
     (if c = 0x20 then [] else (if i = 8 then [0x2E] else []) @ [if c = RDDEM then DDEM else c]) @ sfn_chars (Suc i) cs"

definition get_fileinfo :: "fdir \<Rightarrow> 'd fatfs \<Rightarrow> filinfo \<Rightarrow> filinfo option" where
  "get_fileinfo dp fs fno =
     (if dj_sect dp = 0 then do {
        n \<leftarrow> put_at 0 0 (fi_fname fno);
        Some (fno\<lparr>fi_fname := n\<rparr>) }
      else do {
        dir \<leftarrow> dj_dir dp;
        name \<leftarrow> get_range dir 11 (win fs);
        a \<leftarrow> get_at (dir + DIR_Attr) (win fs);
        sz \<leftarrow> LD_DWORD (dir + DIR_FileSize) (win fs);
        d \<leftarrow> LD_WORD (dir + DIR_WrtDate) (win fs);
        t \<leftarrow> LD_WORD (dir + DIR_WrtTime) (win fs);
        n \<leftarrow> put_range 0 (sfn_chars 0 name @ [0]) (fi_fname fno);
        Some \<lparr>fi_fsize = sz, fi_fdate = d, fi_ftime = t, fi_fattrib = a, fi_fname = n\<rparr> })"

section \<open>The entries of a directory\<close>

definition dir_layout :: "'d fatfs \<Rightarrow> bool" where
  "dir_layout fs \<longleftrightarrow> (\<exists>k<8. csize fs = 2 ^ k) \<and> unat (n_rootdir fs) mod 16 = 0 \<and>
     (fs_type fs \<noteq> FS_FAT32 \<longrightarrow> unat (dirbase fs) = unat (fatbase fs) + unat (n_fats fs) * unat (fsize fs) \<and>
        unat (dirbase fs) + unat (n_rootdir fs) div 16 \<le> unat (database fs)) \<and>
     (fs_type fs = FS_FAT32 \<longrightarrow> n_rootdir fs = 0)"

text \<open>The \<open>k\<close>-th cluster of the chain from \<open>c\<close>, if the chain is that long.\<close>

primrec nth_cluster :: "(u32 \<Rightarrow> u32) \<Rightarrow> u32 \<Rightarrow> nat \<Rightarrow> u32 \<Rightarrow> u32 option" where
  "nth_cluster f n 0 c = (if 2 \<le> c \<and> c < n then Some c else None)"
| "nth_cluster f n (Suc k) c = (if 2 \<le> c \<and> c < n then nth_cluster f n k (f c) else None)"

definition dir_start :: "'d fatfs \<Rightarrow> u32 \<Rightarrow> u32" where
  "dir_start fs sclust = (if sclust = 0 \<and> fs_type fs = FS_FAT32 then dirbase fs else sclust)"

text \<open>Cluster (0 for a fixed root directory) and sector of entry \<open>i\<close>.\<close>

definition dir_loc :: "('d \<Rightarrow> u32 \<Rightarrow> bytes) \<Rightarrow> 'd fatfs \<Rightarrow> u32 \<Rightarrow> nat \<Rightarrow> (u32 \<times> u32) option" where
  "dir_loc img fs sclust i = (let c0 = dir_start fs sclust in
     if c0 = 0 then if i < unat (n_rootdir fs) then Some (0, dirbase fs + of_nat (i div 16)) else None
     else map_option (\<lambda>c. (c, clust2sect fs c + of_nat (i div 16 mod unat (csize fs))))
       (nth_cluster (fat_entry img fs) (n_fatent fs) (i div (16 * unat (csize fs))) c0))"

text \<open>The object \<open>dp\<close> stands at entry \<open>i\<close>.\<close>

definition dir_at :: "('d \<Rightarrow> u32 \<Rightarrow> bytes) \<Rightarrow> 'd fatfs \<Rightarrow> fdir \<Rightarrow> nat \<Rightarrow> bool" where
  "dir_at img fs dp i \<longleftrightarrow> i < 65536 \<and> dj_index dp = of_nat i \<and>
     dir_loc img fs (dj_sclust dp) i = Some (dj_clust dp, dj_sect dp) \<and> dj_dir dp = Some (i mod 16 * 32)"

lemma nth_cluster_valid: "nth_cluster f n k c = Some d \<Longrightarrow> 2 \<le> d \<and> d < n"
  by (induction k arbitrary: c) (auto split: if_splits)

lemma nth_cluster_start: "nth_cluster f n k c = Some d \<Longrightarrow> 2 \<le> c \<and> c < n"
  by (cases k) (auto split: if_splits)

lemma nth_cluster_Suc:
  "nth_cluster f n (Suc k) c = (case nth_cluster f n k c of None \<Rightarrow> None
     | Some d \<Rightarrow> if 2 \<le> f d \<and> f d < n then Some (f d) else None)"
proof (induction k arbitrary: c)
  case (Suc k)
  have a: "nth_cluster f n (Suc (Suc k)) c = (if 2 \<le> c \<and> c < n then nth_cluster f n (Suc k) (f c) else None)"
    by (rule nth_cluster.simps(2))
  have b: "nth_cluster f n (Suc k) c = (if 2 \<le> c \<and> c < n then nth_cluster f n k (f c) else None)"
    by (rule nth_cluster.simps(2))
  show ?case unfolding a b unfolding Suc.IH [of "f c"] by simp
qed simp

lemma nth_cluster_add:
  "nth_cluster f n k c = Some d \<Longrightarrow> nth_cluster f n (j + k) c = nth_cluster f n j d"
proof (induction k arbitrary: c j)
  case (Suc k)
  then show ?case by (auto split: if_splits)
qed (auto split: if_splits)

lemma nth_cluster_prefix: "nth_cluster f n k c = Some d \<Longrightarrow> j \<le> k \<Longrightarrow> \<exists>e. nth_cluster f n j c = Some e"
proof (induction k arbitrary: c j d)
  case (Suc k)
  then show ?case by (cases j) (auto split: if_splits)
qed (auto split: if_splits)

lemma nth_cluster_cong:
  "(\<And>x. x < n \<Longrightarrow> g x = f x) \<Longrightarrow> nth_cluster g n k c = nth_cluster f n k c"
  by (induction k arbitrary: c) auto

lemma clust2sect_same_vol: "same_vol fs fs' \<Longrightarrow> clust2sect fs' = clust2sect fs"
proof -
  assume sv: "same_vol fs fs'"
  show ?thesis unfolding clust2sect_def same_vol_sel [OF sv] ..
qed

lemmas clust2sect_unchanged = clust2sect_same_vol [OF unchanged_same_vol]

lemma dir_loc_unchanged:
  assumes "unchanged img fs fs'" and "vol_layout fs"
  shows "dir_loc img fs' = dir_loc img fs"
proof -
  note sel = unchanged_sel [OF assms(1)]
  have "nth_cluster (fat_entry img fs') (n_fatent fs) k c = nth_cluster (fat_entry img fs) (n_fatent fs) k c" for k c
    by (rule nth_cluster_cong) (rule fat_entry_unchanged [OF assms])
  then have nc: "nth_cluster (fat_entry img fs') (n_fatent fs) = nth_cluster (fat_entry img fs) (n_fatent fs)"
    by (intro ext)
  note c2s = clust2sect_unchanged [OF assms(1)]
  show ?thesis unfolding dir_loc_def dir_start_def Let_def c2s sel nc ..
qed

lemma dir_at_unchanged: "unchanged img fs fs' \<Longrightarrow> vol_layout fs \<Longrightarrow> dir_at img fs' dp i = dir_at img fs dp i"
  by (simp add: dir_at_def dir_loc_unchanged)

lemma dir_layout_same_vol: "same_vol fs fs' \<Longrightarrow> dir_layout fs' = dir_layout fs"
  by (simp add: dir_layout_def same_vol_sel)

lemma unchanged_dir_layout: "unchanged img fs fs' \<Longrightarrow> dir_layout fs \<Longrightarrow> dir_layout fs'"
  using dir_layout_same_vol [OF unchanged_same_vol] by blast

lemma unat_ucast_u16: "unat (ucast (x :: u16) :: u32) = unat x"
proof -
  have "unat x < 2 ^ LENGTH(16)" by (rule unsigned_less)
  then show ?thesis by (simp add: unsigned_ucast_eq take_bit_nat_eq_self)
qed

lemma dir_loc_sector:
  assumes "vol_layout fs" and "dir_layout fs" and "dir_loc img fs sclust i = Some (c, s)"
  shows "tracked fs s" and "\<not> fat_area fs s" and "s \<noteq> 0"
proof -
  have cs: "0 < unat (csize fs)" using assms(1) by (simp add: vol_layout_def unat_gt_0)
  have db: "0 < unat (fatbase fs)" using assms(1) by (auto simp: vol_layout_def word_less_nat_alt)
  have "(tracked fs s \<and> \<not> fat_area fs s) \<and> unat (fatbase fs) \<le> unat s"
  proof (cases "dir_start fs sclust = 0")
    case True
    then have t: "fs_type fs \<noteq> FS_FAT32" and i: "i < unat (n_rootdir fs)" and s: "s = dirbase fs + of_nat (i div 16)"
      using assms(2,3) by (auto simp: dir_loc_def Let_def dir_layout_def split: if_splits)
    have r: "unat (dirbase fs) = unat (fatbase fs) + unat (n_fats fs) * unat (fsize fs)"
        "unat (dirbase fs) + unat (n_rootdir fs) div 16 \<le> unat (database fs)" "unat (n_rootdir fs) mod 16 = 0"
      using assms(2) t by (auto simp: dir_layout_def)
    have "i < unat (n_rootdir fs) div 16 * 16" using i r(3) by (metis add_0_right div_mult_mod_eq)
    then have "i div 16 < unat (n_rootdir fs) div 16" by (simp add: div_less_iff_less_mult)
    moreover have "unat (database fs) < 2 ^ 32 - 1" using assms(1) by (simp add: vol_layout_def)
    ultimately have u: "unat s = unat (dirbase fs) + i div 16" "unat s < 2 ^ 32 - 1"
      using r(2) by (simp_all add: s unat_word_ariths unat_of_nat mod_add_right_eq)
    have "s \<noteq> 0xFFFFFFFF" using u(2) by auto
    then show ?thesis using area_tracked [OF assms(1), of s] u(1) r(1) by simp
  next
    case False
    then obtain k where k: "nth_cluster (fat_entry img fs) (n_fatent fs) k (dir_start fs sclust) = Some c"
      and s: "s = clust2sect fs c + of_nat (i div 16 mod unat (csize fs))"
      using assms(3) by (auto simp: dir_loc_def Let_def)
    have lt: "i div 16 mod unat (csize fs) < unat (csize fs)" using cs by simp
    have c: "2 \<le> c" "c < n_fatent fs" using nth_cluster_valid [OF k] by auto
    have "unat (fatbase fs) \<le> unat (database fs)" using assms(1) by (simp add: vol_layout_def)
    then show ?thesis
      using cluster_sector_tracked [OF assms(1) c lt] cluster_sector_bounds [OF assms(1) c lt] unfolding s by linarith
  qed
  then show "tracked fs s" "\<not> fat_area fs s" "s \<noteq> 0" using db by auto
qed

lemma div_mod_16: "i mod (16 * c) div 16 = i div 16 mod (c :: nat)"
  by (cases "c = 0") (simp_all add: mod_mult2_eq)

lemma mod_mod_16: "i mod (16 * c) mod 16 = i mod (16 :: nat)"
  by (simp add: mod_mult2_eq)

context block_device
begin

lemma sdi_loop_law:
  assumes "inv fs" and "vol_layout fs" and "unat ic = 16 * unat (csize fs)"
  shows "returns (sdi_loop ops ic c idx fs) (\<lambda>q fs'. inv fs' \<and> unchanged img fs fs' \<and>
    (case q of
       Inr (d, j) \<Rightarrow> (c < n_fatent fs \<and> 2 \<le> c \<longrightarrow>
         nth_cluster (fat_entry img fs) (n_fatent fs) (unat idx div unat ic) c = Some d) \<and>
         (\<not> (c < n_fatent fs \<and> 2 \<le> c) \<longrightarrow> d = c) \<and> unat j = unat idx mod unat ic
     | Inl e \<Rightarrow> e = FR_DISK_ERR \<or> e = FR_INT_ERR \<and>
         nth_cluster (fat_entry img fs) (n_fatent fs) (unat idx div unat ic) c = None))"
  using assms
proof (induction "unat idx" arbitrary: idx c fs rule: less_induct)
  case less
  note inv = less.prems(1) and lay = less.prems(2) and ic = less.prems(3)
  have ic0: "0 < unat ic" using ic lay by (simp add: vol_layout_def unat_gt_0)
  show ?case
  proof (cases "ic \<le> idx")
    case False
    then have "unat idx < unat ic" by (simp add: word_le_nat_alt)
    then show ?thesis
      using False inv by (subst sdi_loop.simps) simp
  next
    case True
    then have le: "unat ic \<le> unat idx" by (simp add: word_le_nat_alt)
    have sub: "unat (idx - ic) = unat idx - unat ic" using True by (simp add: unat_sub)
    have dv: "unat idx div unat ic = Suc (unat (idx - ic) div unat ic)" "unat (idx - ic) mod unat ic = unat idx mod unat ic"
      using le ic0 sub by (simp_all add: le_div_geq le_mod_geq)
    obtain v fs1 where g: "get_fat ops c fs = Some (v, fs1)" "inv fs1" "unchanged img fs fs1"
        "if 2 \<le> c \<and> c < n_fatent fs then v = fat_entry img fs c \<or> v = 0xFFFFFFFF else v = 1"
      using get_fat_law [OF inv lay, of c] by (auto simp: returns_iff)
    note lay1 = unchanged_layout [OF g(3) lay] and sel1 = unchanged_sel [OF g(3)]
    have nc1: "nth_cluster (fat_entry img fs1) (n_fatent fs1) k x = nth_cluster (fat_entry img fs) (n_fatent fs) k x" for k x
      unfolding sel1 by (rule nth_cluster_cong) (rule fat_entry_unchanged [OF g(3) lay])
    consider "v = 0xFFFFFFFF" | "v \<noteq> 0xFFFFFFFF" "v < 2 \<or> n_fatent fs1 \<le> v" | "v \<noteq> 0xFFFFFFFF" "2 \<le> v" "v < n_fatent fs1"
      by fastforce
    then show ?thesis
    proof cases
      case 1
      then show ?thesis using True g by (subst sdi_loop.simps) simp
    next
      case 2
      then have "nth_cluster (fat_entry img fs) (n_fatent fs) (unat idx div unat ic) c = None"
        using g(4) sel1 unfolding dv
        by (cases "unat (idx - ic) div unat ic") (auto simp: not_less not_le split: if_splits)
      then show ?thesis using 2 True g by (subst sdi_loop.simps) auto
    next
      case 3
      then have c: "2 \<le> c" "c < n_fatent fs" "v = fat_entry img fs c" using g(4) by (auto split: if_splits)
      have "\<not> v < 2" "\<not> n_fatent fs1 \<le> v" using 3 by auto
      then have "sdi_loop ops ic c idx fs = sdi_loop ops ic v (idx - ic) fs1"
        using True g(1) 3 by (subst sdi_loop.simps) simp
      moreover have "unat (idx - ic) < unat idx" using sub le ic0 by simp
      ultimately show ?thesis
        using less.hyps [OF _ g(2) lay1, of "idx - ic" v] ic sel1 c 3 nc1 dv
          unchanged_trans [OF g(3)] by (auto elim!: returns_mono split: sum.splits)
    qed
  qed
qed

end

lemma nth_cluster_invalid: "\<not> (2 \<le> c \<and> c < n) \<Longrightarrow> nth_cluster f n k c = None"
  by (cases k) auto

lemma clust2sect_nonzero:
  assumes "vol_layout fs" and "2 \<le> c" and "c < n_fatent fs"
  shows "clust2sect fs c \<noteq> 0"
proof -
  have "0 < unat (csize fs)" using assms(1) by (simp add: vol_layout_def unat_gt_0)
  from cluster_sector_bounds(1) [OF assms this] have "unat (database fs) \<le> unat (clust2sect fs c)" by simp
  moreover have "0 < unat (fatbase fs)" "unat (fatbase fs) \<le> unat (database fs)"
    using assms(1) by (auto simp: vol_layout_def word_less_nat_alt)
  ultimately show ?thesis by auto
qed

lemma unat_ic: "unat (16 * ucast (csize fs) :: u32) = 16 * unat (csize fs)"
  using u8_less [of "csize fs"] by (simp add: unat_word_ariths unat_ucast_u8)

text \<open>What a directory operation keeps of the object it works on.\<close>

definition same_dir :: "fdir \<Rightarrow> fdir \<Rightarrow> bool" where
  "same_dir dp dp' \<longleftrightarrow> dj_fs dp' = dj_fs dp \<and> dj_id dp' = dj_id dp \<and> dj_sclust dp' = dj_sclust dp \<and> dj_fn dp' = dj_fn dp"

lemma same_dir_refl [simp]: "same_dir dp dp"
  by (simp add: same_dir_def)

lemma same_dir_trans: "same_dir a b \<Longrightarrow> same_dir b c \<Longrightarrow> same_dir a c"
  by (simp add: same_dir_def)

lemma same_dir_upd [simp]:
  "same_dir dp (dp'\<lparr>dj_index := a\<rparr>) = same_dir dp dp'" "same_dir dp (dp'\<lparr>dj_clust := b\<rparr>) = same_dir dp dp'"
  "same_dir dp (dp'\<lparr>dj_sect := c\<rparr>) = same_dir dp dp'" "same_dir dp (dp'\<lparr>dj_dir := d\<rparr>) = same_dir dp dp'"
  by (simp_all add: same_dir_def)

context block_device
begin

lemma dir_sdi_law:
  assumes "inv fs" and "vol_layout fs" and "dir_layout fs" and idx: "unat idx < 65536"
  shows "returns (dir_sdi ops idx dp fs) (\<lambda>(r, dp') fs'. inv fs' \<and> unchanged img fs fs' \<and> same_dir dp dp' \<and>
    (r = FR_OK \<and> dir_at img fs dp' (unat idx) \<or> r = FR_DISK_ERR \<or>
     r = FR_INT_ERR \<and> dir_loc img fs (dj_sclust dp) (unat idx) = None))"
proof (cases "dj_sclust dp = 1 \<or> n_fatent fs \<le> dj_sclust dp")
  case True
  have "2 < n_fatent fs" using assms(2) by (simp add: vol_layout_def)
  then have "dj_sclust dp \<noteq> 0" using True by auto
  then show ?thesis
    using True assms(1) nth_cluster_invalid [of "dj_sclust dp" "n_fatent fs" "fat_entry img fs"] word_two_le_one(1)
    by (auto simp: dir_sdi_def Let_def dir_loc_def dir_start_def leD)
next
  case sclust: False
  have ix: "(ucast idx :: u16) = of_nat (unat idx)" 
    using ucast_down_of_nat [where 'a = 32 and 'b = 16, of "unat idx"] by simp
  have off: "unat (idx mod 16) * SZ_DIRE = unat idx mod 16 * 32" by (simp add: u32_mod SZ_DIRE_def)
  let ?c0 = "dir_start fs (dj_sclust dp)"
  show ?thesis
  proof (cases "?c0 = 0")
    case True
    show ?thesis
    proof (cases "unat (n_rootdir fs) \<le> unat idx")
      case True
      then show ?thesis
        using \<open>?c0 = 0\<close> sclust assms(1)
        by (auto simp: dir_sdi_def Let_def dir_loc_def dir_start_def word_le_nat_alt unat_ucast_u16)
    next
      case False
      have loc: "dir_loc img fs (dj_sclust dp) (unat idx) = Some (0, dirbase fs + idx div 16)"
        using False \<open>?c0 = 0\<close> of_nat_div [of idx 16] by (simp add: dir_loc_def Let_def)
      have "fs_type fs \<noteq> FS_FAT32" using False assms(3) by (auto simp: dir_layout_def)
      then have "unat (fatbase fs) \<le> unat (dirbase fs)" using assms(3) by (simp add: dir_layout_def)
      moreover have "0 < unat (fatbase fs)" using assms(2) by (auto simp: vol_layout_def word_less_nat_alt)
      ultimately have "dirbase fs \<noteq> 0" by auto
      then show ?thesis
        using False \<open>?c0 = 0\<close> sclust assms(1) idx ix off loc
        by (auto simp: dir_sdi_def Let_def dir_start_def word_le_nat_alt unat_ucast_u16 dir_at_def)
    qed
  next
    case dyn: False
    obtain q fs1 where q: "sdi_loop ops (16 * ucast (csize fs)) ?c0 idx fs = Some (q, fs1)" "inv fs1" "unchanged img fs fs1"
      "case q of
         Inr (d, j) \<Rightarrow> (?c0 < n_fatent fs \<and> 2 \<le> ?c0 \<longrightarrow>
           nth_cluster (fat_entry img fs) (n_fatent fs) (unat idx div (16 * unat (csize fs))) ?c0 = Some d) \<and>
           (\<not> (?c0 < n_fatent fs \<and> 2 \<le> ?c0) \<longrightarrow> d = ?c0) \<and> unat j = unat idx mod (16 * unat (csize fs))
       | Inl e \<Rightarrow> e = FR_DISK_ERR \<or> e = FR_INT_ERR \<and>
           nth_cluster (fat_entry img fs) (n_fatent fs) (unat idx div (16 * unat (csize fs))) ?c0 = None"
      using sdi_loop_law [OF assms(1,2) unat_ic, of ?c0 idx, unfolded unat_ic] by (auto simp only: returns_iff)
    have start: "(if dj_sclust dp = 0 \<and> fs_type fs = FS_FAT32 then dirbase fs else dj_sclust dp) = ?c0"
      by (simp add: dir_start_def)
    note c2s = clust2sect_unchanged [OF q(3)]
    show ?thesis
    proof (cases q)
      case (Inl e)
      then show ?thesis
        using q dyn sclust start by (auto simp: dir_sdi_def Let_def dir_loc_def)
    next
      case (Inr dj)
      then obtain d j where dj: "q = Inr (d, j)" by (cases dj) auto
      show ?thesis
      proof (cases "2 \<le> ?c0 \<and> ?c0 < n_fatent fs")
        case False
        then have "d = ?c0" using q(4) dj by auto
        then have "clust2sect fs d = 0" using clust2sect_invalid [OF assms(2) False] by simp
        then show ?thesis
          using q dyn sclust start dj False nth_cluster_invalid [of ?c0 "n_fatent fs"] c2s
          by (auto simp: dir_sdi_def Let_def dir_loc_def)
      next
        case True
        then have nth: "nth_cluster (fat_entry img fs) (n_fatent fs) (unat idx div (16 * unat (csize fs))) ?c0 = Some d"
          and j: "unat j = unat idx mod (16 * unat (csize fs))" using q(4) dj by auto
        have nz: "clust2sect fs d \<noteq> 0" using clust2sect_nonzero [OF assms(2)] nth_cluster_valid [OF nth] by simp
        have jm: "unat (j mod 16) * SZ_DIRE = unat idx mod 16 * 32" by (simp add: u32_mod j mod_mod_16 SZ_DIRE_def)
        have jd: "j div 16 = of_nat (unat idx div 16 mod unat (csize fs))"
          using of_nat_div [of j 16] by (simp add: j div_mod_16)
        show ?thesis
          using q(1,2,3) dyn sclust start dj nz nth idx ix jm jd c2s
          by (auto simp: dir_sdi_def Let_def dir_loc_def dir_at_def)
      qed
    qed
  qed
qed

end

text \<open>The place of the next entry.\<close>

lemma next_div: "(i + 1) mod 16 \<noteq> 0 \<Longrightarrow> (i + 1) div 16 = i div (16 :: nat)"
  using mod_Suc [of i 16] div_Suc [of i 16] by (auto split: if_splits)

lemma next_div_0: "(i + 1) mod 16 = 0 \<Longrightarrow> (i + 1) div 16 = Suc (i div (16 :: nat))"
  using mod_Suc [of i 16] div_Suc [of i 16] by (auto split: if_splits)

lemma dir_loc_next_same:
  assumes "dir_layout fs" and "dir_loc img fs sc i = Some (c, s)" and "(i + 1) mod 16 \<noteq> 0"
  shows "dir_loc img fs sc (i + 1) = Some (c, s)"
proof -
  have d: "(i + 1) div 16 = i div 16" using assms(3) by (rule next_div)
  have "i + 1 < unat (n_rootdir fs)" if "i < unat (n_rootdir fs)"
  proof (rule ccontr)
    assume "\<not> i + 1 < unat (n_rootdir fs)"
    then have "i + 1 = unat (n_rootdir fs)" using that by simp
    then show False using assms(1,3) by (simp add: dir_layout_def)
  qed
  then show ?thesis
    using assms(2) d unfolding dir_loc_def Let_def div_mult2_eq by (auto split: if_splits)
qed

lemma dir_loc_next_root:
  assumes "dir_start fs sc = 0" and "dir_loc img fs sc i = Some (c, s)" and "(i + 1) mod 16 = 0"
  shows "dir_loc img fs sc (i + 1) = (if i + 1 < unat (n_rootdir fs) then Some (c, s + 1) else None)"
  using assms(1,2) next_div_0 [OF assms(3)] unfolding dir_loc_def Let_def
  by (auto split: if_splits simp: algebra_simps)

lemma dir_loc_next_clust:
  assumes "dir_start fs sc \<noteq> 0" and "dir_loc img fs sc i = Some (c, s)" and "(i + 1) mod 16 = 0"
    and cs: "0 < unat (csize fs)"
  shows "dir_loc img fs sc (i + 1) =
    (if (i + 1) div 16 mod unat (csize fs) \<noteq> 0 then Some (c, s + 1)
     else if 2 \<le> fat_entry img fs c \<and> fat_entry img fs c < n_fatent fs
     then Some (fat_entry img fs c, clust2sect fs (fat_entry img fs c)) else None)"
proof -
  let ?q = "i div 16" and ?cs = "unat (csize fs)"
  have q: "(i + 1) div 16 = Suc ?q" using assms(3) by (rule next_div_0)
  have nth: "nth_cluster (fat_entry img fs) (n_fatent fs) (?q div ?cs) (dir_start fs sc) = Some c"
    and s: "s = clust2sect fs c + of_nat (?q mod ?cs)"
    using assms(1,2) unfolding dir_loc_def Let_def div_mult2_eq by auto
  show ?thesis
  proof (cases "Suc ?q mod ?cs = 0")
    case False
    then have "Suc ?q div ?cs = ?q div ?cs" "Suc ?q mod ?cs = Suc (?q mod ?cs)"
      using mod_Suc [of ?q ?cs] div_Suc [of ?q ?cs] by (auto split: if_splits)
    then show ?thesis
      using assms(1) nth s False unfolding dir_loc_def Let_def div_mult2_eq q by (simp add: algebra_simps)
  next
    case True
    then have "Suc ?q div ?cs = Suc (?q div ?cs)"
      using mod_Suc [of ?q ?cs] div_Suc [of ?q ?cs] by (auto split: if_splits)
    then show ?thesis
      using assms(1) True nth_cluster_Suc [of "fat_entry img fs" "n_fatent fs" "?q div ?cs" "dir_start fs sc"] nth
      unfolding dir_loc_def Let_def div_mult2_eq q by (simp del: nth_cluster.simps)
  qed
qed

lemma dir_loc_clust_0:
  "dir_loc img fs sc i = Some (c, s) \<Longrightarrow> (c = 0) = (dir_start fs sc = 0)"
  using nth_cluster_valid by (fastforce simp: dir_loc_def Let_def split: if_splits)

lemma unat_power2: "k < LENGTH('a) \<Longrightarrow> unat (2 ^ k :: 'a::len word) = 2 ^ k"
  using unat_of_nat_small [of "2 ^ k", where 'a = 'a] by simp

lemma csize_and:
  assumes "dir_layout fs"
  shows "(q AND (ucast (csize fs) - 1) = (0 :: u32)) = (unat q mod unat (csize fs) = 0)"
proof -
  obtain k where k: "k < 8" "csize fs = 2 ^ k" using assms by (auto simp: dir_layout_def)
  have u: "unat (csize fs) = 2 ^ k" using k by (simp add: unat_power2)
  have "ucast (csize fs) = (2 ^ k :: u32)"
    using k by (simp add: word_unat_eq_iff unat_ucast_u8 unat_power2)
  then have "q AND (ucast (csize fs) - 1) = q mod 2 ^ k"
    by (simp add: take_bit_eq_mod flip: mask_eq_exp_minus_1 take_bit_eq_mask)
  moreover have "unat (q mod 2 ^ k) = unat q mod 2 ^ k" using k by (simp add: u32_mod unat_power2)
  ultimately show ?thesis by (simp add: u word_unat_eq_iff)
qed

lemma and_ffff: "(x :: u32) AND 0xFFFF = 0 \<longleftrightarrow> unat x mod 65536 = 0"
proof -
  have "x AND 0xFFFF = take_bit 16 x" by (simp add: take_bit_eq_mask mask_bits)
  also have "\<dots> = x mod 2 ^ 16" by (simp add: take_bit_eq_mod)
  finally have "unat (x AND 0xFFFF) = unat x mod 65536" by (simp add: u32_mod)
  then show ?thesis by (simp add: word_unat_eq_iff)
qed

text \<open>The index after entry \<open>i\<close>, as the code computes it.\<close>

lemma next_index:
  assumes "i < 65536"
  shows "unat (ucast (of_nat i :: u16) + 1 :: u32) = i + 1"
    and "i + 1 < 65536 \<Longrightarrow> (ucast (ucast (of_nat i :: u16) + 1 :: u32) :: u16) = of_nat (i + 1)"
proof -
  have u: "unat (ucast (of_nat i :: u16) :: u32) = i" using assms by (simp add: unat_ucast_u16 unat_of_nat_small)
  then show s: "unat (ucast (of_nat i :: u16) + 1 :: u32) = i + 1"
    using assms by (simp add: unat_word_ariths)
  show "(ucast (ucast (of_nat i :: u16) + 1 :: u32) :: u16) = of_nat (i + 1)"
    using ucast_down_of_nat [where 'a = 32 and 'b = 16, of "i + 1"] s by (metis of_nat_unat)
qed

context block_device
begin

text \<open>The outcome of a step without stretching, seen from the state before it.\<close>

definition step_post :: "'d fatfs \<Rightarrow> fdir \<Rightarrow> nat \<Rightarrow> fresult \<times> fdir \<Rightarrow> 'd fatfs \<Rightarrow> bool" where
  "step_post fs dp i x fs' \<longleftrightarrow> inv fs' \<and> unchanged img fs fs' \<and> same_dir dp (snd x) \<and>
     (fst x = FR_OK \<and> dir_at img fs (snd x) (i + 1) \<or> fst x = FR_DISK_ERR \<or>
      fst x = FR_NO_FILE \<and> (i = 65535 \<or> dir_loc img fs (dj_sclust dp) (i + 1) = None) \<or>
      fst x = FR_INT_ERR \<and> dir_loc img fs (dj_sclust dp) (i + 1) = None)"

lemma dir_next_law:
  assumes inv: "inv fs" and lay: "vol_layout fs" and dlay: "dir_layout fs" and at: "dir_at img fs dp i"
  shows "returns (dir_next ops False dp fs) (step_post fs dp i)"
proof -
  have i: "i < 65536" "dj_index dp = of_nat i" and loc: "dir_loc img fs (dj_sclust dp) i = Some (dj_clust dp, dj_sect dp)"
    using at by (simp_all add: dir_at_def)
  note nz = dir_loc_sector(3) [OF lay dlay loc]
  note ni = next_index [OF i(1)]
  have cs: "0 < unat (csize fs)" using lay by (simp add: vol_layout_def unat_gt_0)
  let ?i = "ucast (of_nat i :: u16) + 1 :: u32"
  have m16: "(?i mod 16 = 0) = ((i + 1) mod 16 = 0)" by (simp add: word_unat_eq_iff u32_mod ni(1))
  have off: "unat (?i mod 16) * SZ_DIRE = (i + 1) mod 16 * 32" by (simp add: u32_mod ni(1) SZ_DIRE_def)
  show ?thesis
  proof (cases "i = 65535")
    case True
    then have "?i AND 0xFFFF = 0" using ni(1) by (simp add: and_ffff)
    then show ?thesis using True i inv by (simp add: dir_next_def Let_def step_post_def)
  next
    case False
    then have i1: "i + 1 < 65536" using i(1) by simp
    then have ff: "?i AND 0xFFFF \<noteq> 0" using ni(1) by (simp add: and_ffff)
    note ix = ni(2) [OF i1]
    show ?thesis
    proof (cases "(i + 1) mod 16 = 0")
      case False
      have "dir_loc img fs (dj_sclust dp) (i + 1) = Some (dj_clust dp, dj_sect dp)"
        by (rule dir_loc_next_same [OF dlay loc False])
      then show ?thesis
        using False i i1 ff nz inv m16 off ix by (simp add: dir_next_def Let_def step_post_def dir_at_def)
    next
      case True
      show ?thesis
      proof (cases "dj_clust dp = 0")
        case root: True
        then have st: "dir_start fs (dj_sclust dp) = 0" using dir_loc_clust_0 [OF loc] by simp
        have n: "(ucast (n_rootdir fs) \<le> ?i) = (\<not> i + 1 < unat (n_rootdir fs))"
          by (simp add: word_le_nat_alt unat_ucast_u16 ni(1) not_less)
        show ?thesis
          using True root i i1 ff nz inv m16 off ix dir_loc_next_root [OF st loc True] n
          by (simp add: dir_next_def Let_def step_post_def dir_at_def)
      next
        case dyn: False
        then have st: "dir_start fs (dj_sclust dp) \<noteq> 0" using dir_loc_clust_0 [OF loc] by simp
        note nx = dir_loc_next_clust [OF st loc True cs]
        have u: "unat (?i div 16) = (i + 1) div 16" by (simp add: unat_div ni(1))
        note ca = csize_and [OF dlay, of "?i div 16", unfolded u]
        show ?thesis
        proof (cases "(i + 1) div 16 mod unat (csize fs) = 0")
          case False
          then show ?thesis
            using True dyn i i1 ff nz inv m16 off ix nx ca by (simp add: dir_next_def Let_def step_post_def dir_at_def)
        next
          case new: True
          have c: "2 \<le> dj_clust dp" "dj_clust dp < n_fatent fs"
            using loc st nth_cluster_valid by (auto simp: dir_loc_def Let_def)
          obtain v fs1 where g: "get_fat ops (dj_clust dp) fs = Some (v, fs1)"
            "v = fat_entry img fs (dj_clust dp) \<or> v = 0xFFFFFFFF" "inv fs1" "unchanged img fs fs1" "n_fatent fs1 = n_fatent fs"
            by (rule get_fat_step [OF inv lay c]) blast
          note c2s = clust2sect_unchanged [OF g(4)]
          have ne: "fat_entry img fs (dj_clust dp) \<noteq> 0xFFFFFFFF" by (rule fat_entry_not_err)
          have le1: "v \<le> 1 \<Longrightarrow> v \<noteq> 0xFFFFFFFF \<and> \<not> 2 \<le> v" by (auto simp: word_le_nat_alt)
          have gt1: "\<not> v \<le> 1 \<Longrightarrow> 2 \<le> v" by (simp add: word_le_nat_alt)
          consider "v \<le> 1" | "\<not> v \<le> 1" "v = 0xFFFFFFFF" | "\<not> v \<le> 1" "v \<noteq> 0xFFFFFFFF" "n_fatent fs \<le> v"
            | "\<not> v \<le> 1" "v \<noteq> 0xFFFFFFFF" "\<not> n_fatent fs \<le> v" by blast
          then show ?thesis
            by cases
              (use True dyn i i1 ff nz inv m16 off ix nx ca new g ne le1 gt1 c2s in
                \<open>auto simp: dir_next_def next_cluster_def Let_def step_post_def dir_at_def\<close>)
        qed
      qed
    qed
  qed
qed

end

section \<open>Searching a directory\<close>

lemma mem_cmp_spec:
  "n \<le> length d \<Longrightarrow> n \<le> length s \<Longrightarrow> \<exists>r. mem_cmp d s n = Some r \<and> (r = 0) = (take n d = take n s)"
proof (induction d s n rule: mem_cmp.induct)
  case (2 x d y s n)
  then show ?case by (auto simp: word_uint_eq_iff [of x y])
qed auto

definition dir_entry :: "('d \<Rightarrow> u32 \<Rightarrow> bytes) \<Rightarrow> 'd fatfs \<Rightarrow> u32 \<Rightarrow> nat \<Rightarrow> bytes" where
  "dir_entry img fs sc i = (case dir_loc img fs sc i of None \<Rightarrow> []
     | Some (c, s) \<Rightarrow> take 32 (drop (i mod 16 * 32) (view img fs s)))"

definition entry_end :: "bytes \<Rightarrow> bool" where "entry_end e \<longleftrightarrow> e ! 0 = 0"

definition entry_is :: "bytes \<Rightarrow> bytes \<Rightarrow> bool" where
  "entry_is fn e \<longleftrightarrow> e ! DIR_Attr AND AM_VOL = 0 \<and> take 11 e = take 11 fn"

text \<open>The entries from \<open>b\<close> up to \<open>i\<close> are all in use or deleted, and none satisfies \<open>P\<close>.\<close>

definition none_before :: "('d \<Rightarrow> u32 \<Rightarrow> bytes) \<Rightarrow> 'd fatfs \<Rightarrow> u32 \<Rightarrow> (bytes \<Rightarrow> bool) \<Rightarrow> nat \<Rightarrow> nat \<Rightarrow> bool" where
  "none_before img fs sc P b i \<longleftrightarrow> b \<le> i \<and>
     (\<forall>j. b \<le> j \<longrightarrow> j < i \<longrightarrow> dir_loc img fs sc j \<noteq> None \<and> \<not> entry_end (dir_entry img fs sc j) \<and> \<not> P (dir_entry img fs sc j))"

definition first_entry :: "('d \<Rightarrow> u32 \<Rightarrow> bytes) \<Rightarrow> 'd fatfs \<Rightarrow> u32 \<Rightarrow> (bytes \<Rightarrow> bool) \<Rightarrow> nat \<Rightarrow> nat \<Rightarrow> bool" where
  "first_entry img fs sc P b i \<longleftrightarrow> none_before img fs sc P b i \<and> dir_loc img fs sc i \<noteq> None \<and>
     \<not> entry_end (dir_entry img fs sc i) \<and> P (dir_entry img fs sc i)"

text \<open>There is no such entry up to the end of the table.\<close>

definition no_entry :: "('d \<Rightarrow> u32 \<Rightarrow> bytes) \<Rightarrow> 'd fatfs \<Rightarrow> u32 \<Rightarrow> (bytes \<Rightarrow> bool) \<Rightarrow> nat \<Rightarrow> bool" where
  "no_entry img fs sc P b \<longleftrightarrow> (\<exists>i \<le> 65536. none_before img fs sc P b i \<and>
     (i = 65536 \<or> dir_loc img fs sc i = None \<or> entry_end (dir_entry img fs sc i)))"

lemma dir_entry_unchanged:
  assumes "unchanged img fs fs'" and "vol_layout fs" and "dir_layout fs"
  shows "dir_entry img fs' sc i = dir_entry img fs sc i"
  using dir_loc_sector(1) [OF assms(2,3)] assms(1)
  by (auto simp: dir_entry_def dir_loc_unchanged [OF assms(1,2)] unchanged_def split: option.splits)

lemma none_before_unchanged:
  assumes "unchanged img fs fs'" and "vol_layout fs" and "dir_layout fs"
  shows "none_before img fs' sc P b i = none_before img fs sc P b i"
  by (simp add: none_before_def dir_loc_unchanged [OF assms(1,2)] dir_entry_unchanged [OF assms])

lemma first_entry_unchanged:
  assumes "unchanged img fs fs'" and "vol_layout fs" and "dir_layout fs"
  shows "first_entry img fs' sc P b i = first_entry img fs sc P b i" "no_entry img fs' sc P b = no_entry img fs sc P b"
  by (simp_all add: first_entry_def no_entry_def none_before_unchanged [OF assms] dir_loc_unchanged [OF assms(1,2)]
      dir_entry_unchanged [OF assms])

lemma first_entry_unique: "first_entry img fs sc P b i \<Longrightarrow> first_entry img fs sc P b j \<Longrightarrow> i = j"
  unfolding first_entry_def none_before_def by (metis linorder_neqE_nat)

lemma first_entry_no_entry: "first_entry img fs sc P b i \<Longrightarrow> i < 65536 \<Longrightarrow> \<not> no_entry img fs sc P b"
  unfolding first_entry_def no_entry_def none_before_def by (metis linorder_neqE_nat)

context block_device
begin

text \<open>Fetching the sector of the current entry.\<close>

lemma fetch_entry:
  assumes inv: "inv fs" and lay: "vol_layout fs" and dlay: "dir_layout fs" and at: "dir_at img fs dp i"
  obtains r fs1 where "move_window ops (dj_sect dp) fs = Some (r, fs1)" and "r = FR_OK \<or> r = FR_DISK_ERR"
    and "inv fs1" and "unchanged img fs fs1" and "vol_layout fs1" and "dir_layout fs1" and "dir_at img fs1 dp i"
    and "length (win fs1) = 512" and "dj_dir dp = Some (i mod 16 * 32)" and "i mod 16 * 32 + 32 \<le> 512"
    and "r = FR_OK \<Longrightarrow> winsect fs1 = dj_sect dp \<and> win fs1 = view img fs (dj_sect dp) \<and>
      take 32 (drop (i mod 16 * 32) (win fs1)) = dir_entry img fs (dj_sclust dp) i"
proof -
  have loc: "dir_loc img fs (dj_sclust dp) i = Some (dj_clust dp, dj_sect dp)" and d: "dj_dir dp = Some (i mod 16 * 32)"
    using at by (simp_all add: dir_at_def)
  obtain r fs1 where f: "move_window ops (dj_sect dp) fs = Some (r, fs1)" "r \<in> {FR_OK, FR_DISK_ERR}" "inv fs1"
      "unchanged img fs fs1" "r = FR_OK \<Longrightarrow> winsect fs1 = dj_sect dp \<and> (tracked fs (dj_sect dp) \<longrightarrow> win fs1 = view img fs (dj_sect dp))"
    using fetch [OF inv, of "dj_sect dp"] by (auto simp: returns_iff)
  have "i mod 16 < 16" by simp
  then show ?thesis
    using that [OF f(1) _ f(3,4) unchanged_layout [OF f(4) lay] unchanged_dir_layout [OF f(4) dlay] _ _ d] f(2,3,5)
      dir_loc_sector(1) [OF lay dlay loc] at dir_at_unchanged [OF f(4) lay] loc
    by (auto simp: win_inv_def dir_entry_def)
qed

definition search_post :: "'d fatfs \<Rightarrow> fdir \<Rightarrow> (bytes \<Rightarrow> bool) \<Rightarrow> nat \<Rightarrow> fresult \<times> fdir \<Rightarrow> 'd fatfs \<Rightarrow> bool" where
  "search_post fs dp P b x fs' \<longleftrightarrow> inv fs' \<and> unchanged img fs fs' \<and> same_dir dp (snd x) \<and>
     (fst x = FR_OK \<and> (\<exists>i. dir_at img fs (snd x) i \<and> first_entry img fs (dj_sclust dp) P b i) \<and>
        winsect fs' = dj_sect (snd x) \<and> win fs' = view img fs (dj_sect (snd x)) \<or>
      fst x = FR_DISK_ERR \<or> (fst x = FR_NO_FILE \<or> fst x = FR_INT_ERR) \<and> no_entry img fs (dj_sclust dp) P b)"

lemma search_post_trans:
  assumes "vol_layout fs" and "dir_layout fs" and "unchanged img fs fs1" and "same_dir dp dp1" and "search_post fs1 dp1 P b x fs'"
  shows "search_post fs dp P b x fs'"
proof -
  have v: "win fs' = view img fs1 (dj_sect (snd x)) \<and> dir_at img fs (snd x) i \<Longrightarrow> win fs' = view img fs (dj_sect (snd x))" for i
    using dir_loc_sector(1) [OF assms(1,2)] assms(3) by (auto simp: dir_at_def unchanged_def)
  show ?thesis
    using assms(4,5) unchanged_trans [OF assms(3)] same_dir_trans [OF assms(4)] v
      dir_at_unchanged [OF assms(3,1)] first_entry_unchanged [OF assms(3,1,2)]
    unfolding search_post_def same_dir_def by (simp; blast)
qed

text \<open>
  Both directory scans are a loop of this form: fetch the sector of the current entry, stop
  at the end mark, stop where a test of the entry succeeds, else step to the next entry.
\<close>

definition scan_body :: "(fdir \<Rightarrow> 'd fatfs \<Rightarrow> ((fresult \<times> fdir) \<times> 'd fatfs) option) \<Rightarrow> (nat \<Rightarrow> u8 \<Rightarrow> bytes \<Rightarrow> bool option) \<Rightarrow>
    fdir \<Rightarrow> 'd fatfs \<Rightarrow> ((fresult \<times> fdir) \<times> 'd fatfs) option" where
  "scan_body loop test dp fs = do {
     (res, fs) \<leftarrow> move_window ops (dj_sect dp) fs;
     if res \<noteq> FR_OK then Some ((res, dp), fs)
     else do {
       dir \<leftarrow> dj_dir dp;
       c \<leftarrow> get_at dir (win fs);
       if c = 0 then Some ((FR_NO_FILE, dp), fs)
       else do {
         stop \<leftarrow> test dir c (win fs);
         if stop then Some ((FR_OK, dp), fs)
         else do {
           ((res, dp), fs) \<leftarrow> dir_next ops False dp fs;
           if res = FR_OK then loop dp fs else Some ((res, dp), fs) } } } }"

lemma scan_law:
  assumes loop: "\<And>dp fs. dj_sect dp \<noteq> 0 \<Longrightarrow> dj_fn dp = fn \<Longrightarrow> loop dp fs = scan_body loop test dp fs"
    and test: "\<And>off w. off + 32 \<le> 512 \<Longrightarrow> length w = 512 \<Longrightarrow> test off (w ! off) w = Some (P (take 32 (drop off w)))"
    and "inv fs" and "vol_layout fs" and "dir_layout fs" and "dir_at img fs dp i" and "dj_fn dp = fn"
    and "none_before img fs (dj_sclust dp) P b i"
  shows "returns (loop dp fs) (search_post fs dp P b)"
  using assms(3-)
proof (induction "65536 - i" arbitrary: i dp fs rule: less_induct)
  case less
  note inv = less.prems(1) and lay = less.prems(2) and dlay = less.prems(3) and at = less.prems(4)
    and fn = less.prems(5) and nb = less.prems(6)
  have i: "i < 65536" and loc: "dir_loc img fs (dj_sclust dp) i = Some (dj_clust dp, dj_sect dp)"
    using at by (simp_all add: dir_at_def)
  let ?e = "dir_entry img fs (dj_sclust dp) i" and ?o = "i mod 16 * 32"
  note lp = loop [OF dir_loc_sector(3) [OF lay dlay loc] fn]
  obtain r fs1 where f: "move_window ops (dj_sect dp) fs = Some (r, fs1)" "r = FR_OK \<or> r = FR_DISK_ERR"
    "inv fs1" "unchanged img fs fs1" "vol_layout fs1" "dir_layout fs1" "dir_at img fs1 dp i"
    "length (win fs1) = 512" "dj_dir dp = Some ?o" "?o + 32 \<le> 512"
    "r = FR_OK \<Longrightarrow> winsect fs1 = dj_sect dp \<and> win fs1 = view img fs (dj_sect dp) \<and> take 32 (drop ?o (win fs1)) = ?e"
    by (rule fetch_entry [OF inv lay dlay at]) blast
  show ?case
  proof (cases "r = FR_OK")
    case False
    then show ?thesis using f(1-4) by (subst lp) (auto simp: scan_body_def search_post_def)
  next
    case True
    note w = f(11) [OF True]
    have e: "?e ! 0 = win fs1 ! ?o"
      using w f(8,10) by (simp flip: conjunct2 [OF conjunct2 [OF w]])
    have g: "get_at ?o (win fs1) = Some (win fs1 ! ?o)" "test ?o (win fs1 ! ?o) (win fs1) = Some (P ?e)"
      using f(8,10) test [OF f(10,8)] by (simp add: get_at_def, simp only: conjunct2 [OF conjunct2 [OF w]])
    consider "?e ! 0 = 0" | "?e ! 0 \<noteq> 0" "P ?e" | "?e ! 0 \<noteq> 0" "\<not> P ?e" by blast
    then show ?thesis
    proof cases
      case 1
      then have "no_entry img fs (dj_sclust dp) P b"
        using nb i by (auto simp: no_entry_def entry_end_def intro!: exI [of _ i])
      then show ?thesis
        using 1 True f e g by (subst lp) (auto simp: scan_body_def search_post_def)
    next
      case 2
      then have "first_entry img fs (dj_sclust dp) P b i"
        using nb loc by (simp add: first_entry_def entry_end_def)
      then show ?thesis
        using 2 True f e g w at by (subst lp) (auto simp: scan_body_def search_post_def)
    next
      case 3
      have nb1: "none_before img fs (dj_sclust dp) P b (i + 1)"
        using nb 3 loc by (auto simp: none_before_def entry_end_def less_Suc_eq)
      obtain r2 dp2 fs2 where n: "dir_next ops False dp fs1 = Some ((r2, dp2), fs2)" "step_post fs1 dp i (r2, dp2) fs2"
        using dir_next_law [OF f(3,5,6,7)] by (auto simp: returns_iff)
      have eq: "loop dp fs = (if r2 = FR_OK then loop dp2 fs2 else Some ((r2, dp2), fs2))"
        using 3 True f e g n(1) by (subst lp) (auto simp: scan_body_def)
      have un2: "unchanged img fs fs2" using n(2) unchanged_trans [OF f(4)] by (auto simp: step_post_def)
      have sd: "same_dir dp dp2" and inv2: "inv fs2" using n(2) by (auto simp: step_post_def)
      then have sc: "dj_sclust dp2 = dj_sclust dp" "dj_fn dp2 = dj_fn dp" by (auto simp: same_dir_def)
      note lay2 = unchanged_layout [OF un2 lay] and dlay2 = unchanged_dir_layout [OF un2 dlay]
      show ?thesis
      proof (cases "r2 = FR_OK")
        case False
        have "r2 = FR_DISK_ERR \<or> (r2 = FR_NO_FILE \<or> r2 = FR_INT_ERR) \<and>
            (i = 65535 \<or> dir_loc img fs (dj_sclust dp) (i + 1) = None)"
          using n(2) False by (auto simp: step_post_def dir_loc_unchanged [OF f(4) lay])
        moreover have "i = 65535 \<or> dir_loc img fs (dj_sclust dp) (i + 1) = None \<Longrightarrow> no_entry img fs (dj_sclust dp) P b"
          using nb1 i by (auto simp: no_entry_def intro!: exI [of _ "i + 1"])
        ultimately show ?thesis unfolding eq using False inv2 un2 sd by (auto simp: search_post_def)
      next
        case ok2: True
        then have at2: "dir_at img fs2 dp2 (i + 1)"
          using n(2) dir_at_unchanged [OF un2 lay] dir_at_unchanged [OF f(4) lay] by (auto simp: step_post_def)
        then have "65536 - (i + 1) < 65536 - i" using i by simp
        from less.hyps [OF this inv2 lay2 dlay2 at2] fn nb1 sc
        have "returns (loop dp2 fs2) (search_post fs2 dp2 P b)"
          by (simp add: none_before_unchanged [OF un2 lay dlay])
        then show ?thesis unfolding eq using ok2
          by (auto elim!: returns_mono intro: search_post_trans [OF lay dlay un2 sd])
      qed
    qed
  qed
qed

definition find_test :: "bytes \<Rightarrow> nat \<Rightarrow> u8 \<Rightarrow> bytes \<Rightarrow> bool option" where
  "find_test fn dir c w = do {
     a \<leftarrow> get_at (dir + DIR_Attr) w;
     cmp \<leftarrow> (if a AND AM_VOL = 0 then mem_cmp (drop dir w) fn 11 else Some 1);
     Some (cmp = 0) }"

lemma find_loop_scan: "find_loop ops dp fs = scan_body (find_loop ops) (find_test (dj_fn dp)) dp fs"
  by (subst find_loop.simps) (simp add: scan_body_def find_test_def Option.bind_assoc cong: if_cong)

lemma find_test_entry:
  assumes "off + 32 \<le> 512" and "length w = 512" and "length fn = 12"
  shows "find_test fn off c w = Some (entry_is fn (take 32 (drop off w)))"
proof -
  have "11 \<le> length (drop off w)" "11 \<le> length fn" using assms by auto
  then obtain cmp where "mem_cmp (drop off w) fn 11 = Some cmp" "(cmp = 0) = (take 11 (drop off w) = take 11 fn)"
    using mem_cmp_spec by blast
  then show ?thesis
    using assms by (auto simp: find_test_def entry_is_def get_at_def DIR_Attr_def)
qed

definition read_test :: "bool \<Rightarrow> nat \<Rightarrow> u8 \<Rightarrow> bytes \<Rightarrow> bool option" where
  "read_test vol dir c w = do { a \<leftarrow> get_at (dir + DIR_Attr) w; Some (read_wanted vol c a) }"

lemma read_loop_scan:
  "dj_sect dp \<noteq> 0 \<Longrightarrow> read_loop ops vol FR_OK dp fs = scan_body (read_loop ops vol FR_OK) (read_test vol) dp fs"
  by (subst read_loop.simps) (simp add: scan_body_def read_test_def Option.bind_assoc cong: if_cong)

text \<open>The directory is not left by stepping, so the result before the first look does not matter.\<close>

lemma read_loop_res: "dj_sect dp \<noteq> 0 \<Longrightarrow> read_loop ops vol r dp fs = read_loop ops vol FR_OK dp fs"
  by (subst (1 2) read_loop.simps) simp

lemma dir_find_law:
  assumes "inv fs" and "vol_layout fs" and "dir_layout fs" and "length (dj_fn dp) = 12"
  shows "returns (dir_find ops dp fs) (search_post fs dp (entry_is (dj_fn dp)) 0)"
proof -
  obtain r dp1 fs1 where s: "dir_sdi ops 0 dp fs = Some ((r, dp1), fs1)" "inv fs1" "unchanged img fs fs1" "same_dir dp dp1"
      "r = FR_OK \<and> dir_at img fs dp1 0 \<or> r = FR_DISK_ERR \<or> r = FR_INT_ERR \<and> dir_loc img fs (dj_sclust dp) 0 = None"
    using dir_sdi_law [OF assms(1-3), of 0 dp] by (auto simp: returns_iff)
  show ?thesis
  proof (cases "r = FR_OK")
    case False
    have "dir_loc img fs (dj_sclust dp) 0 = None \<Longrightarrow> no_entry img fs (dj_sclust dp) (entry_is (dj_fn dp)) 0"
      by (auto simp: no_entry_def none_before_def intro!: exI [of _ 0])
    then show ?thesis using False s by (auto simp: dir_find_def search_post_def)
  next
    case True
    note lay1 = unchanged_layout [OF s(3) assms(2)] and dlay1 = unchanged_dir_layout [OF s(3) assms(3)]
    have at1: "dir_at img fs1 dp1 0" using True s(5) dir_at_unchanged [OF s(3) assms(2)] by simp
    have fn1: "dj_fn dp1 = dj_fn dp" using s(4) by (simp add: same_dir_def)
    have "returns (find_loop ops dp1 fs1) (search_post fs1 dp1 (entry_is (dj_fn dp)) 0)"
    proof (rule scan_law [OF _ _ s(2) lay1 dlay1 at1 fn1])
      show "find_loop ops d f = scan_body (find_loop ops) (find_test (dj_fn dp)) d f" if "dj_fn d = dj_fn dp" for d f
        using find_loop_scan [of d f] that by simp
    qed (use find_test_entry assms(4) in \<open>auto simp: none_before_def\<close>)
    then show ?thesis using True s(1)
      by (auto simp: dir_find_def elim!: returns_mono intro: search_post_trans [OF assms(2,3) s(3,4)])
  qed
qed

lemma dir_read_law:
  assumes "inv fs" and "vol_layout fs" and "dir_layout fs" and at: "dir_at img fs dp i"
  shows "returns (dir_read ops vol dp fs) (\<lambda>(r, dp') fs'. \<exists>dp1.
    search_post fs dp (\<lambda>e. read_wanted vol (e ! 0) (e ! DIR_Attr)) i (r, dp1) fs' \<and>
    dp' = (if r = FR_OK then dp1 else dp1\<lparr>dj_sect := 0\<rparr>))"
proof -
  have "dir_loc img fs (dj_sclust dp) i = Some (dj_clust dp, dj_sect dp)" using at by (simp add: dir_at_def)
  note nz = dir_loc_sector(3) [OF assms(2,3) this]
  have "returns (read_loop ops vol FR_OK dp fs) (search_post fs dp (\<lambda>e. read_wanted vol (e ! 0) (e ! DIR_Attr)) i)"
    by (rule scan_law [OF read_loop_scan _ assms(1-3) at])
      (auto simp: none_before_def read_test_def get_at_def DIR_Attr_def)
  then obtain r dp1 fs' where "read_loop ops vol FR_OK dp fs = Some ((r, dp1), fs')"
      "search_post fs dp (\<lambda>e. read_wanted vol (e ! 0) (e ! DIR_Attr)) i (r, dp1) fs'"
    by (auto simp: returns_iff)
  then show ?thesis by (auto simp: dir_read_def read_loop_res [OF nz, where r = FR_NO_FILE])
qed

end

section \<open>Properties\<close>

text \<open>
  C17: Looking up a name.  \<open>dir_find\<close> returns FR_OK only at the first entry of the directory that
  is no volume label and has the name; it reports FR_NO_FILE or FR_INT_ERR only when there is none
  up to the end of the directory.  It always returns, also on cyclic chains and failing
  drives, and changes nothing FatFs can see.
\<close>

theorem dir_find_correct:
  assumes "block_device ops dno ok img" and "win_inv dno ok img fs" and "vol_layout fs" and "dir_layout fs"
    and "length (dj_fn dp) = 12"
  shows "returns (dir_find ops dp fs) (\<lambda>(r, dp') fs'. win_inv dno ok img fs' \<and> unchanged img fs fs' \<and> same_dir dp dp' \<and>
    (r = FR_OK \<and> (\<exists>i. dir_at img fs dp' i \<and> first_entry img fs (dj_sclust dp) (entry_is (dj_fn dp)) 0 i) \<or>
     r = FR_DISK_ERR \<or> (r = FR_NO_FILE \<or> r = FR_INT_ERR) \<and> no_entry img fs (dj_sclust dp) (entry_is (dj_fn dp)) 0))"
  by (rule returns_mono [OF block_device.dir_find_law [OF assms]])
    (auto simp: block_device.search_post_def [OF assms(1)])

text \<open>
  C36: Listing a directory.  From entry \<open>i\<close>, \<open>dir_read\<close> stops at the next entry that is wanted (a
  volume label, or a file or directory that is neither deleted nor part of a long name),
  skipping none; otherwise it reports the end and clears the sector of the object.
\<close>

theorem dir_read_correct:
  assumes "block_device ops dno ok img" and "win_inv dno ok img fs" and "vol_layout fs" and "dir_layout fs"
    and "dir_at img fs dp i"
  shows "returns (dir_read ops vol dp fs) (\<lambda>(r, dp') fs'. win_inv dno ok img fs' \<and> unchanged img fs fs' \<and>
    (let P = (\<lambda>e. read_wanted vol (e ! 0) (e ! DIR_Attr)) in
     r = FR_OK \<and> (\<exists>k\<ge>i. dir_at img fs dp' k \<and> first_entry img fs (dj_sclust dp) P i k) \<or>
     r \<noteq> FR_OK \<and> dj_sect dp' = 0 \<and>
       (r = FR_DISK_ERR \<or> (r = FR_NO_FILE \<or> r = FR_INT_ERR) \<and> no_entry img fs (dj_sclust dp) P i)))"
proof (rule returns_mono [OF block_device.dir_read_law [OF assms]], clarify)
  fix r dp' fs' dp1
  let ?P = "\<lambda>e. read_wanted vol (e ! 0) (e ! DIR_Attr)"
  assume s: "block_device.search_post dno ok img fs dp ?P i (r, dp1) fs'"
  have le: "first_entry img fs (dj_sclust dp) ?P i k \<Longrightarrow> i \<le> k" for k by (simp add: first_entry_def none_before_def)
  show "win_inv dno ok img fs' \<and> unchanged img fs fs' \<and> (let P = ?P in
     r = FR_OK \<and> (\<exists>k\<ge>i. dir_at img fs (if r = FR_OK then dp1 else dp1\<lparr>dj_sect := 0\<rparr>) k \<and> first_entry img fs (dj_sclust dp) P i k) \<or>
     r \<noteq> FR_OK \<and> dj_sect (if r = FR_OK then dp1 else dp1\<lparr>dj_sect := 0\<rparr>) = 0 \<and>
       (r = FR_DISK_ERR \<or> (r = FR_NO_FILE \<or> r = FR_INT_ERR) \<and> no_entry img fs (dj_sclust dp) P i))"
    using s le by (auto simp: block_device.search_post_def [OF assms(1)] Let_def)
qed

text \<open>
  The start cluster of an entry survives a store and a load: all 32 bits on FAT32, the
  low 16 on FAT12 and FAT16.
\<close>

theorem clust_roundtrip:
  assumes "dir + 32 \<le> length (win fs)" and "st_clust dir cl (win fs) = Some w"
  shows "ld_clust (fs\<lparr>win := w\<rparr>) dir = Some (if fs_type fs = FS_FAT32 then cl else cl AND 0xFFFF)"
proof -
  have w: "w = overlay (dir + 20) (bytes_le16 (ucast (drop_bit 16 cl))) (overlay (dir + 26) (bytes_le16 (ucast cl)) (win fs))"
    using assms by (simp add: st_clust_def ST_WORD_in DIR_FstClusLO_def DIR_FstClusHI_def)
  have lo: "LD_WORD (dir + 26) w = Some (ucast cl)"
    using assms(1) unfolding w by (subst LD_WORD_other) (simp_all add: LD_ST_WORD)
  have hi: "LD_WORD (dir + 20) w = Some (ucast (drop_bit 16 cl))"
    using assms(1) unfolding w by (simp add: LD_ST_WORD)
  have "ucast (ucast cl :: u16) OR push_bit 16 (ucast (ucast (drop_bit 16 cl) :: u16)) = (cl :: u32)"
    by (rule bit_word_eqI) (auto simp: bit_simps)
  then show ?thesis
    using lo hi by (simp add: ld_clust_def DIR_FstClusLO_def DIR_FstClusHI_def fat16_cast)
qed

lemma sfn_chars_length: "length (sfn_chars i cs) \<le> length cs + (if i \<le> 8 \<and> 8 < i + length cs then 1 else 0)"
proof (induction cs arbitrary: i)
  case (Cons a cs)
  then show ?case using Cons.IH [of "Suc i"] by (auto split: if_splits)
qed simp

lemma sfn_chars_no_pad: "0x20 \<notin> set (sfn_chars i cs)"
  by (induction cs arbitrary: i) (auto simp: DDEM_def)

text \<open>
  The printable name fits.  For an entry inside the window \<open>get_fileinfo\<close> never writes
  outside the 13 bytes of \<open>fname\<close>: it returns, and leaves there a terminated name of at most 12
  characters, none of them padding.
\<close>

theorem get_fileinfo_fits:
  assumes "length (win fs) = 512" and "dj_sect dp \<noteq> 0" and "dj_dir dp = Some off" and "off + 32 \<le> 512"
    and "length (fi_fname fno) = 13"
  shows "\<exists>info name. get_fileinfo dp fs fno = Some info \<and> length (fi_fname info) = 13 \<and> length name \<le> 12 \<and>
    take (length name + 1) (fi_fname info) = name @ [0] \<and> 0x20 \<notin> set name"
proof -
  let ?n = "sfn_chars 0 (take 11 (drop off (win fs)))"
  have len: "length ?n \<le> 12"
    using sfn_chars_length [of 0 "take 11 (drop off (win fs))"] assms(1,4) by simp
  obtain info where i: "get_fileinfo dp fs fno = Some info" "fi_fname info = overlay 0 (?n @ [0]) (fi_fname fno)"
    using assms len by (simp add: get_fileinfo_def get_range_def get_at_def LD_DWORD_in LD_WORD_in put_range_def
        DIR_Attr_def DIR_FileSize_def DIR_WrtDate_def DIR_WrtTime_def)
  have "length (fi_fname info) = 13" "take (length ?n + 1) (fi_fname info) = ?n @ [0]"
    using i(2) len assms(5) by (simp_all add: overlay_def)
  then show ?thesis using i(1) len sfn_chars_no_pad by blast
qed

section \<open>A small directory\<close>

text \<open>The root directory of the small volume: a deleted entry, then FOO.TXT, then the end.\<close>

definition foo_txt :: bytes where
  "foo_txt = [0x46, 0x4F, 0x4F, 0x20, 0x20, 0x20, 0x20, 0x20, 0x54, 0x58, 0x54]"

definition demo_root :: bytes where
  "demo_root = overlay 32 (foo_txt @ [AM_ARC]) (overlay 0 [DDEM] (replicate 512 0))"

definition demo_files :: "(u32 \<Rightarrow> bytes) fatfs" where
  "demo_files = demo_fs demo_table demo_root"

definition foo_dir :: fdir where
  "foo_dir = \<lparr>dj_fs = Some 0, dj_id = 1, dj_index = 0, dj_sclust = 0, dj_clust = 0, dj_sect = 68, dj_dir = Some 0,
     dj_fn = foo_txt @ [0]\<rparr>"

lemma demo_files_ok: "win_inv 0 ram_ok (\<lambda>d. d) demo_files" "vol_layout demo_files" "dir_layout demo_files"
proof -
  show "win_inv 0 ram_ok (\<lambda>d. d) demo_files"
    unfolding demo_files_def by (rule demo_win_inv) (auto simp: ram_ok_def demo_table_def demo_root_def foo_txt_def)
  show "vol_layout demo_files" using demo_vol_layout by (simp add: demo_files_def demo_vol_def vol_layout_def demo_fs_def)
  have "\<exists>k<8. (2 :: u8) = 2 ^ k" by (rule exI [of _ 1]) simp
  then show "dir_layout demo_files"
    by (simp add: dir_layout_def demo_files_def demo_fs_def FS_FAT16_def FS_FAT32_def)
qed

lemma demo_locs: "i < 16 \<Longrightarrow> dir_loc (\<lambda>d. d) demo_files 0 i = Some (0, 68)"
  by (simp add: dir_loc_def dir_start_def demo_files_def demo_fs_def FS_FAT16_def FS_FAT32_def)

lemma demo_dir_entries: "i < 16 \<Longrightarrow> dir_entry (\<lambda>d. d) demo_files 0 i = take 32 (drop (i * 32) demo_root)"
  by (simp add: dir_entry_def demo_locs view_def) (simp add: demo_files_def demo_fs_def)

lemma demo_bytes: "demo_root ! 0 = DDEM" "demo_root ! 11 = 0" "demo_root ! 32 = 0x46" "demo_root ! 43 = AM_ARC" "demo_root ! 64 = 0"
    "take 11 (drop 32 demo_root) = foo_txt" "length demo_root = 512"
proof -
  show "take 11 (drop 32 demo_root) = foo_txt" by (simp add: demo_root_def overlay_def foo_txt_def)
qed (simp_all add: demo_root_def nth_overlay foo_txt_def)

lemma demo_entry_facts:
  "dir_entry (\<lambda>d. d) demo_files 0 0 ! 0 = DDEM" "take 11 (dir_entry (\<lambda>d. d) demo_files 0 0) \<noteq> foo_txt"
  "dir_entry (\<lambda>d. d) demo_files 0 1 ! 0 = 0x46" "dir_entry (\<lambda>d. d) demo_files 0 1 ! DIR_Attr = AM_ARC"
  "take 11 (dir_entry (\<lambda>d. d) demo_files 0 1) = foo_txt"
proof -
  have "take 11 demo_root ! 0 \<noteq> foo_txt ! 0" using demo_bytes by (simp add: foo_txt_def DDEM_def)
  then have "take 11 demo_root \<noteq> foo_txt" by metis
  then show "take 11 (dir_entry (\<lambda>d. d) demo_files 0 0) \<noteq> foo_txt" by (simp add: demo_dir_entries min_def)
qed (use demo_bytes in \<open>simp_all add: demo_dir_entries DIR_Attr_def\<close>)

lemma demo_first: "first_entry (\<lambda>d. d) demo_files 0 (entry_is (foo_txt @ [0])) 0 1"
  using demo_entry_facts
  by (auto simp: first_entry_def none_before_def demo_locs entry_end_def entry_is_def less_Suc_eq DDEM_def AM_ARC_def AM_VOL_def foo_txt_def)

theorem dir_find_correct_witness:
  "returns (dir_find ram_ops foo_dir demo_files) (\<lambda>(r, dp') fs'. r = FR_OK \<and> dj_index dp' = 1 \<or> r = FR_DISK_ERR)"
proof -
  have f: "length (dj_fn foo_dir) = 12" "dj_sclust foo_dir = 0" "dj_fn foo_dir = foo_txt @ [0]"
    by (simp_all add: foo_dir_def foo_txt_def)
  have idx: "dj_index dp' = 1" if "dir_at (\<lambda>d. d) demo_files dp' i" "first_entry (\<lambda>d. d) demo_files 0 (entry_is (foo_txt @ [0])) 0 i" for dp' i
    using first_entry_unique [OF that(2) demo_first] that(1) by (simp add: dir_at_def)
  have "\<not> no_entry (\<lambda>d. d) demo_files 0 (entry_is (foo_txt @ [0])) 0"
    using first_entry_no_entry [OF demo_first] by simp
  with idx show ?thesis
    by (intro returns_mono [OF dir_find_correct [OF ram.block_device_axioms demo_files_ok f(1)]]) (auto simp: f)
qed

theorem dir_read_correct_witness:
  "returns (dir_read ram_ops False foo_dir demo_files) (\<lambda>(r, dp') fs'. r = FR_OK \<and> dj_index dp' = 1 \<or> r = FR_DISK_ERR)"
proof -
  let ?P = "\<lambda>e. read_wanted False (e ! 0) (e ! DIR_Attr)"
  have at: "dir_at (\<lambda>d. d) demo_files foo_dir 0" by (simp add: dir_at_def foo_dir_def demo_locs)
  have first: "first_entry (\<lambda>d. d) demo_files 0 ?P 0 1"
    using demo_entry_facts
    by (auto simp: first_entry_def none_before_def demo_locs entry_end_def less_Suc_eq read_wanted_def DDEM_def AM_ARC_def
        AM_VOL_def AM_MASK_def AM_LFN_def foo_txt_def Let_def)
  have idx: "dj_index dp' = 1" if "dir_at (\<lambda>d. d) demo_files dp' k" "first_entry (\<lambda>d. d) demo_files 0 ?P 0 k" for dp' k
    using first_entry_unique [OF that(2) first] that(1) by (simp add: dir_at_def)
  have "\<not> no_entry (\<lambda>d. d) demo_files 0 ?P 0" using first_entry_no_entry [OF first] by simp
  moreover have "dj_sclust foo_dir = 0" by (simp add: foo_dir_def)
  ultimately show ?thesis
    using idx by (intro returns_mono [OF dir_read_correct [OF ram.block_device_axioms demo_files_ok at, of False]])
      (auto simp: Let_def)
qed

theorem clust_roundtrip_witness:
  "ld_clust (demo_files\<lparr>win := the (st_clust 32 0x12345 demo_root)\<rparr>) 32 = Some 0x2345"
proof -
  have w: "win demo_files = demo_root" by (simp add: demo_files_def demo_fs_def)
  have "st_clust 32 0x12345 (win demo_files) = Some (the (st_clust 32 0x12345 demo_root))"
    using demo_bytes(7) by (simp add: st_clust_def ST_WORD_in DIR_FstClusLO_def DIR_FstClusHI_def w)
  from clust_roundtrip [OF _ this] show ?thesis
    using demo_bytes(7) w by (simp add: demo_files_def demo_fs_def)
qed

theorem get_fileinfo_fits_witness:
  "\<exists>info name. get_fileinfo (foo_dir\<lparr>dj_dir := Some 32\<rparr>) demo_files
     \<lparr>fi_fsize = 0, fi_fdate = 0, fi_ftime = 0, fi_fattrib = 0, fi_fname = replicate 13 0xFF\<rparr> = Some info \<and>
     length name \<le> 12 \<and> take (length name + 1) (fi_fname info) = name @ [0]"
  using get_fileinfo_fits [of demo_files "foo_dir\<lparr>dj_dir := Some 32\<rparr>" 32
      "\<lparr>fi_fsize = 0, fi_fdate = 0, fi_ftime = 0, fi_fattrib = 0, fi_fname = replicate 13 0xFF\<rparr>"]
    demo_bytes(7) by (auto simp: foo_dir_def demo_files_def demo_fs_def)

end
