(* ===== verification/Fat_Name.thy ===== *)
theory Fat_Name
  imports Fat_Dir
begin

text \<open>
  Names and paths of FatFs, \<open>ff.c\<close>: the drive number in front of a path, the 8.3 name of a
  path segment, and following a path through the directories.  A C string is the list of
  bytes from the pointer to the end of its array; reading past that end is \<open>None\<close>.
\<close>

section \<open>Constants and character classes\<close>

definition NSFLAG :: nat where "NSFLAG = 11"
definition NS_LAST :: u8 where "NS_LAST = 0x04"
definition NS_BODY :: u8 where "NS_BODY = 0x08"
definition NS_EXT :: u8 where "NS_EXT = 0x10"
definition NS_DOT :: u8 where "NS_DOT = 0x20"

definition IsUpper :: "u8 \<Rightarrow> bool" where "IsUpper c \<longleftrightarrow> c \<ge> 0x41 \<and> c \<le> 0x5A"
definition IsLower :: "u8 \<Rightarrow> bool" where "IsLower c \<longleftrightarrow> c \<ge> 0x61 \<and> c \<le> 0x7A"

text \<open>The string literal of the characters no short name may contain.\<close>

definition sfn_illegal :: bytes where
  "sfn_illegal = [0x22, 0x2A, 0x2B, 0x2C, 0x3A, 0x3B, 0x3C, 0x3D, 0x3E, 0x3F, 0x5B, 0x5D, 0x7C, 0x7F]"

definition is_sep :: "u8 \<Rightarrow> bool" where "is_sep c \<longleftrightarrow> c = 0x2F \<or> c = 0x5C"

section \<open>The drive number\<close>

text \<open>The string from the first colon, or from the first character that is not printable.\<close>

fun find_colon :: "bytes \<Rightarrow> bytes option" where
  "find_colon [] = None"
| "find_colon (c # tt) = (if c \<ge> 0x21 \<and> c \<noteq> 0x3A then find_colon tt else Some (c # tt))"

definition VOLUMES :: u32 where "VOLUMES = 2"

definition get_ldnumber :: "u8 \<Rightarrow> bytes option \<Rightarrow> (int \<times> bytes option) option" where
  "get_ldnumber CurrVol path =
     (case path of None \<Rightarrow> Some (-1, path)
      | Some tp \<Rightarrow> do {
          tt \<leftarrow> find_colon tp;
          if hd tt = 0x3A then
            (let i = ucast (hd tp) - 0x30 :: u32 in
             if i < 10 \<and> length tp = length tt + 1 \<and> i < VOLUMES
             then Some (uint i, Some (tl tt)) else Some (-1, path))
          else Some (uint CurrVol, path) })"

section \<open>One segment of a path\<close>

fun skip_seps :: "bytes \<Rightarrow> bytes option" where
  "skip_seps [] = None"
| "skip_seps (c # p) = (if is_sep c then skip_seps p else Some (c # p))"

text \<open>The loop over a dot entry: its last character read and the number of characters read.\<close>

fun dot_loop :: "bytes \<Rightarrow> nat \<Rightarrow> nat \<Rightarrow> bytes \<Rightarrow> (u8 \<times> nat \<times> bytes) option" where
  "dot_loop [] si i sfn = None"
| "dot_loop (c # p) si i sfn =
     (let si = si + 1 in
      if c \<noteq> 0x2E \<or> si \<ge> 3 then Some (c, si, sfn)
      else do { sfn \<leftarrow> put_at i c sfn; dot_loop p si (i + 1) sfn })"

text \<open>
  The loop over the characters: \<open>si\<close> characters read, \<open>i\<close> the place to store at, \<open>ni\<close> the end
  of the current field, \<open>b\<close> the letter cases seen.  The branch for double-byte characters is
  dead in the configured code page.
\<close>

fun name_loop :: "bytes \<Rightarrow> nat \<Rightarrow> nat \<Rightarrow> nat \<Rightarrow> u8 \<Rightarrow> bytes \<Rightarrow> ((fresult + u8 \<times> nat \<times> nat \<times> nat \<times> u8) \<times> bytes) option" where
  "name_loop [] si i ni b sfn = None"
| "name_loop (c # p) si i ni b sfn =
     (if c \<le> 0x20 \<or> is_sep c then Some (Inr (c, si + 1, i, ni, b), sfn)
      else if c = 0x2E \<or> i \<ge> ni then
        (if ni \<noteq> 8 \<or> c \<noteq> 0x2E then Some (Inl FR_INVALID_NAME, sfn)
         else name_loop p (si + 1) 8 11 (push_bit 2 b) sfn)
      else if c \<ge> 0x80 then Some (Inl FR_INVALID_NAME, sfn)
      else if chk_chr sfn_illegal (uint c) \<noteq> 0 then Some (Inl FR_INVALID_NAME, sfn)
      else do {
        let (b, c) = (if IsUpper c then (b OR 2, c) else if IsLower c then (b OR 1, c - 0x20) else (b, c));
        sfn \<leftarrow> put_at i c sfn;
        name_loop p (si + 1) (i + 1) ni b sfn })"

definition name_flags :: "u8 \<Rightarrow> nat \<Rightarrow> u8 \<Rightarrow> u8" where
  "name_flags c ni b =
     (let c = (if c \<le> 0x20 then NS_LAST else 0);
          b = (if ni = 8 then push_bit 2 b else b);
          c = (if b AND 0x03 = 0x01 then c OR NS_EXT else c) in
      if b AND 0x0C = 0x04 then c OR NS_BODY else c)"

definition create_name :: "fdir \<Rightarrow> bytes \<Rightarrow> ((fresult \<times> fdir) \<times> bytes) option" where
  "create_name dp path = do {
     p \<leftarrow> skip_seps path;
     sfn \<leftarrow> mem_set 0 0x20 11 (dj_fn dp);
     if hd p = 0x2E then do {
       (c, si, sfn) \<leftarrow> dot_loop p 0 0 sfn;
       if \<not> is_sep c \<and> c > 0x20 then Some ((FR_INVALID_NAME, dp\<lparr>dj_fn := sfn\<rparr>), path)
       else do {
         sfn \<leftarrow> put_at NSFLAG (if c \<le> 0x20 then NS_LAST OR NS_DOT else NS_DOT) sfn;
         Some ((FR_OK, dp\<lparr>dj_fn := sfn\<rparr>), drop si p) } }
     else do {
       (q, sfn) \<leftarrow> name_loop p 0 0 8 0 sfn;
       case q of Inl e \<Rightarrow> Some ((e, dp\<lparr>dj_fn := sfn\<rparr>), path)
       | Inr (c, si, i, ni, b) \<Rightarrow>
           if i = 0 then Some ((FR_INVALID_NAME, dp\<lparr>dj_fn := sfn\<rparr>), drop si p)
           else do {
             c0 \<leftarrow> get_at 0 sfn;
             let sfn = (if c0 = DDEM then sfn[0 := RDDEM] else sfn);
             sfn \<leftarrow> put_at NSFLAG (name_flags c ni b) sfn;
             Some ((FR_OK, dp\<lparr>dj_fn := sfn\<rparr>), drop si p) } } }"

section \<open>Following a path\<close>

partial_function (option) follow_loop ::
  "'d disk_ops \<Rightarrow> fdir \<Rightarrow> bytes \<Rightarrow> 'd fatfs \<Rightarrow> ((fresult \<times> fdir) \<times> 'd fatfs) option" where
  "follow_loop ops dp path fs = do {
     ((res, dp), path) \<leftarrow> create_name dp path;
     if res \<noteq> FR_OK then Some ((res, dp), fs)
     else do {
       ((res, dp), fs) \<leftarrow> dir_find ops dp fs;
       ns \<leftarrow> get_at NSFLAG (dj_fn dp);
       if res \<noteq> FR_OK then
         (if res = FR_NO_FILE then
            if ns AND NS_DOT \<noteq> 0 then
              (let dp = dp\<lparr>dj_sclust := 0, dj_dir := None\<rparr> in
               if ns AND NS_LAST = 0 then follow_loop ops dp path fs else Some ((FR_OK, dp), fs))
            else Some ((if ns AND NS_LAST = 0 then FR_NO_PATH else res, dp), fs)
          else Some ((res, dp), fs))
       else if ns AND NS_LAST \<noteq> 0 then Some ((res, dp), fs)
       else do {
         dir \<leftarrow> dj_dir dp;
         a \<leftarrow> get_at (dir + DIR_Attr) (win fs);
         if a AND AM_DIR = 0 then Some ((FR_NO_PATH, dp), fs)
         else do {
           cl \<leftarrow> ld_clust fs dir;
           follow_loop ops (dp\<lparr>dj_sclust := cl\<rparr>) path fs } } } }"

definition follow_path :: "'d disk_ops \<Rightarrow> fdir \<Rightarrow> bytes \<Rightarrow> 'd fatfs \<Rightarrow> ((fresult \<times> fdir) \<times> 'd fatfs) option" where
  "follow_path ops dp path fs = do {
     c \<leftarrow> get_at 0 path;
     let (dp, path) = (if is_sep c then (dp\<lparr>dj_sclust := 0\<rparr>, tl path) else (dp\<lparr>dj_sclust := cdir fs\<rparr>, path));
     c \<leftarrow> get_at 0 path;
     if c < 0x20 then do {
       ((res, dp), fs) \<leftarrow> dir_sdi ops 0 dp fs;
       Some ((res, dp\<lparr>dj_dir := None\<rparr>), fs) }
     else follow_loop ops dp path fs }"

section \<open>Short names\<close>

text \<open>The short names of the file system, written down from their rules.\<close>

definition legal_char :: "u8 \<Rightarrow> bool" where
  "legal_char c \<longleftrightarrow> 0x20 < c \<and> c < 0x80 \<and> \<not> is_sep c \<and> c \<noteq> 0x2E \<and> c \<notin> set sfn_illegal"

definition upcase :: "u8 \<Rightarrow> u8" where "upcase c = (if IsLower c then c - 0x20 else c)"

definition pad :: "nat \<Rightarrow> bytes \<Rightarrow> bytes" where "pad n cs = cs @ replicate (n - length cs) 0x20"

definition sfn_of :: "bytes \<Rightarrow> bytes option" where
  "sfn_of seg =
     (let body = takeWhile (\<lambda>c. c \<noteq> 0x2E) seg; ext = drop (length body + 1) seg in
      if body \<noteq> [] \<and> length body \<le> 8 \<and> length ext \<le> 3 \<and> list_all legal_char (body @ ext)
      then Some (pad 8 (map upcase body) @ pad 3 (map upcase ext)) else None)"

text \<open>A segment as the code delimits it: no separator, no blank or control character.\<close>

definition segment :: "bytes \<Rightarrow> bool" where
  "segment seg \<longleftrightarrow> (\<forall>c \<in> set seg. 0x20 < c \<and> \<not> is_sep c)"

definition seg_end :: "u8 \<Rightarrow> bool" where "seg_end c \<longleftrightarrow> c \<le> 0x20 \<or> is_sep c"

lemma chk_chr_0: "0 \<notin> set str \<Longrightarrow> chk_chr str (uint c) = 0 \<longleftrightarrow> c \<notin> set str"
  by (induction str) (auto simp: word_uint_eq_iff)

lemma chk_illegal: "chk_chr sfn_illegal (uint c) = 0 \<longleftrightarrow> c \<notin> set sfn_illegal"
  by (rule chk_chr_0) (simp add: sfn_illegal_def)

lemma upper_not_lower: "IsUpper c \<Longrightarrow> \<not> IsLower c"
  unfolding IsUpper_def IsLower_def by (auto simp: word_le_nat_alt)

lemma name_loop_stop: "seg_end c \<Longrightarrow> name_loop (c # p) si i ni b sfn = Some (Inr (c, si + 1, i, ni, b), sfn)"
  by (simp add: seg_end_def)

lemma name_loop_char:
  assumes "segment (a # s)" and "a \<noteq> 0x2E" and "length sfn = 12" and "ni \<le> 11"
  shows "\<exists>b'. name_loop (a # p) si i ni b sfn =
    (if i < ni \<and> legal_char a then name_loop p (si + 1) (i + 1) ni b' (sfn[i := upcase a]) else Some (Inl FR_INVALID_NAME, sfn))"
proof -
  have a: "\<not> a \<le> 0x20" "\<not> is_sep a" using assms(1) by (auto simp: segment_def)
  have lt: "i < ni \<Longrightarrow> i < length sfn" using assms by simp
  show ?thesis
    using a assms(2) lt upper_not_lower [of a]
    by (auto simp: legal_char_def chk_illegal upcase_def put_at_in not_le)
qed

lemma segment_Cons: "segment (a # s) \<Longrightarrow> segment s"
  by (simp add: segment_def)

lemma overlay_Cons:
  assumes "i + length (x # xs) \<le> length s"
  shows "overlay (Suc i) xs (s[i := x]) = overlay i (x # xs) s"
  using assms by (intro nth_equalityI) (auto simp: nth_overlay nth_list_update nth_Cons')

text \<open>The characters of one field.\<close>

lemma name_loop_field:
  assumes "segment s" and "0x2E \<notin> set s" and "length sfn = 12" and "ni \<le> 11" and "i \<le> ni"
  shows "\<exists>b' sfn'. name_loop (s @ p) si i ni b sfn =
    (if i + length s \<le> ni \<and> list_all legal_char s
     then name_loop p (si + length s) (i + length s) ni b' (overlay i (map upcase s) sfn)
     else Some (Inl FR_INVALID_NAME, sfn'))"
  using assms
proof (induction s arbitrary: si i b sfn)
  case (Cons a s)
  obtain b1 where step: "name_loop (a # s @ p) si i ni b sfn =
      (if i < ni \<and> legal_char a then name_loop (s @ p) (si + 1) (i + 1) ni b1 (sfn[i := upcase a]) else Some (Inl FR_INVALID_NAME, sfn))"
    using name_loop_char [OF Cons.prems(1) _ Cons.prems(3,4), of "s @ p" si i b] Cons.prems(2) by auto
  show ?case
  proof (cases "i < ni \<and> legal_char a")
    case True
    obtain b2 s2 where ih: "name_loop (s @ p) (si + 1) (i + 1) ni b1 (sfn[i := upcase a]) =
        (if i + 1 + length s \<le> ni \<and> list_all legal_char s
         then name_loop p (si + 1 + length s) (i + 1 + length s) ni b2 (overlay (i + 1) (map upcase s) (sfn[i := upcase a]))
         else Some (Inl FR_INVALID_NAME, s2))"
      using Cons.IH [OF segment_Cons [OF Cons.prems(1)], of "sfn[i := upcase a]" "i + 1" "si + 1" b1] Cons.prems True by auto
    have "i + 1 + length s \<le> ni \<Longrightarrow> overlay (Suc i) (map upcase s) (sfn[i := upcase a]) = overlay i (upcase a # map upcase s) sfn"
      using Cons.prems by (intro overlay_Cons) simp
    then show ?thesis using step ih True by (intro exI [of _ b2] exI [of _ s2]) (simp add: not_le)
  next
    case False
    then show ?thesis using step by auto
  qed
qed auto

text \<open>The whole segment.\<close>

lemma dot_split:
  assumes "0x2E \<in> set seg"
  shows "seg = takeWhile (\<lambda>c. c \<noteq> (0x2E :: u8)) seg @ 0x2E # drop (length (takeWhile (\<lambda>c. c \<noteq> 0x2E) seg) + 1) seg"
proof -
  let ?b = "takeWhile (\<lambda>c. c \<noteq> (0x2E :: u8)) seg"
  have lt: "length ?b < length seg"
    using assms by (metis (mono_tags, lifting) length_takeWhile_le linorder_not_less order_antisym_conv takeWhile_eq_all_conv takeWhile_eq_take take_all_iff)
  then have "seg ! length ?b = 0x2E" using nth_length_takeWhile [of "\<lambda>c. c \<noteq> 0x2E" seg] by simp
  moreover have "seg = take (length ?b) seg @ seg ! length ?b # drop (Suc (length ?b)) seg"
    using lt by (rule id_take_nth_drop)
  moreover have "take (length ?b) seg = ?b" by (rule takeWhile_eq_take [symmetric])
  ultimately show ?thesis by simp
qed

lemma skip_seps_sep: "list_all is_sep seps \<Longrightarrow> \<not> is_sep c \<Longrightarrow> skip_seps (seps @ c # p) = Some (c # p)"
  by (induction seps) auto

lemma sfn_of_alt:
  "sfn_of seg = (let body = takeWhile (\<lambda>c. c \<noteq> 0x2E) seg; ext = drop (length body + 1) seg in
     if body \<noteq> [] \<and> length body \<le> 8 \<and> list_all legal_char body \<and> length ext \<le> 3 \<and> list_all legal_char ext
     then Some (overlay 8 (map upcase ext) (overlay 0 (map upcase body) (replicate 11 0x20))) else None)"
proof -
  have "overlay 8 (map upcase e) (overlay 0 (map upcase b) (replicate 11 0x20)) = pad 8 (map upcase b) @ pad 3 (map upcase e)"
    if "length b \<le> 8" "length e \<le> 3" for b e
    using that by (simp add: overlay_def pad_def)
  then show ?thesis by (auto simp: sfn_of_def Let_def)
qed

lemma name_loop_segment:
  assumes "segment seg" and "seg \<noteq> []" and "hd seg \<noteq> 0x2E" and "seg_end c" and "length sfn = 12"
    and "take 11 sfn = replicate 11 0x20"
  shows "\<exists>q sfn'. name_loop (seg @ c # rest) 0 0 8 0 sfn = Some (q, sfn') \<and>
    (case sfn_of seg of None \<Rightarrow> q = Inl FR_INVALID_NAME
     | Some n \<Rightarrow> length sfn' = 12 \<and> take 11 sfn' = n \<and> (\<exists>i ni b. i \<noteq> 0 \<and> q = Inr (c, length seg + 1, i, ni, b)))"
proof -
  define body where "body = takeWhile (\<lambda>c. c \<noteq> (0x2E :: u8)) seg"
  define ext where "ext = drop (length body + 1) seg"
  have sb: "segment body" "0x2E \<notin> set body"
    using assms(1) by (auto simp: body_def segment_def dest: set_takeWhileD)
  have ne: "body \<noteq> []" using assms(2,3) by (cases seg) (auto simp: body_def)
  have spec: "sfn_of seg = (if length body \<le> 8 \<and> list_all legal_char body \<and> length ext \<le> 3 \<and> list_all legal_char ext
     then Some (overlay 8 (map upcase ext) (overlay 0 (map upcase body) (replicate 11 0x20))) else None)"
    using ne by (simp add: sfn_of_alt Let_def body_def ext_def)
  have t11: "take 11 (overlay k xs s) = overlay k xs (take 11 s)" if "k + length xs \<le> 11" "length s = 12" for k and xs s :: bytes
    using that by (intro nth_equalityI) (auto simp: nth_overlay)
  have split: "seg = body @ drop (length body) seg"
    by (metis append_take_drop_id body_def takeWhile_eq_take)
  let ?p = "drop (length body) seg @ c # rest"
  obtain b1 s1 where f: "name_loop (body @ ?p) 0 0 8 0 sfn = (if 0 + length body \<le> 8 \<and> list_all legal_char body
     then name_loop ?p (0 + length body) (0 + length body) 8 b1 (overlay 0 (map upcase body) sfn) else Some (Inl FR_INVALID_NAME, s1))"
    using name_loop_field [OF sb assms(5), of 8 0 ?p 0 0] by auto
  have fld: "name_loop (seg @ c # rest) 0 0 8 0 sfn = (if length body \<le> 8 \<and> list_all legal_char body
     then name_loop ?p (length body) (length body) 8 b1 (overlay 0 (map upcase body) sfn) else Some (Inl FR_INVALID_NAME, s1))"
    using f by (subst split) simp
  show ?thesis
  proof (cases "0x2E \<in> set seg")
    case False
    then have "body = seg" by (auto simp: body_def takeWhile_eq_all_conv)
    then have e: "ext = []" "body = seg" by (simp_all add: ext_def)
    then show ?thesis using fld spec ne assms(5,6) t11
      by (auto simp: name_loop_stop [OF assms(4)] simp del: name_loop.simps)
  next
    case True
    have seg: "seg = body @ 0x2E # ext" unfolding body_def ext_def by (rule dot_split [OF True])
    have se: "segment ext" using assms(1) seg by (simp add: segment_def)
    show ?thesis
    proof (cases "length body \<le> 8 \<and> list_all legal_char body")
      case False
      then show ?thesis using fld spec seg by auto
    next
      case body: True
      let ?s = "overlay 0 (map upcase body) sfn"
      have ls: "length ?s = 12" using body assms(5) by simp
      have run: "name_loop (seg @ c # rest) 0 0 8 0 sfn = name_loop (ext @ c # rest) (length body + 1) 8 11 (push_bit 2 b1) ?s"
        using fld body seg by (simp add: is_sep_def)
      show ?thesis
      proof (cases "0x2E \<in> set ext")
        case False
        obtain b2 s2 where "name_loop (ext @ c # rest) (length body + 1) 8 11 (push_bit 2 b1) ?s =
            (if 8 + length ext \<le> 11 \<and> list_all legal_char ext
             then name_loop (c # rest) (length body + 1 + length ext) (8 + length ext) 11 b2 (overlay 8 (map upcase ext) ?s)
             else Some (Inl FR_INVALID_NAME, s2))"
          using name_loop_field [OF se False ls, of 11 8 "c # rest" "length body + 1" "push_bit 2 b1"] by auto
        then have go: "name_loop (seg @ c # rest) 0 0 8 0 sfn =
            (if length ext \<le> 3 \<and> list_all legal_char ext
             then Some (Inr (c, length seg + 1, 8 + length ext, 11, b2), overlay 8 (map upcase ext) ?s)
             else Some (Inl FR_INVALID_NAME, s2))"
          unfolding run name_loop_stop [OF assms(4)] using seg by auto
        have "take 11 (overlay 8 (map upcase ext) ?s) = overlay 8 (map upcase ext) (overlay 0 (map upcase body) (replicate 11 0x20))"
          if "length ext \<le> 3"
          unfolding assms(6) [symmetric] using that body ls assms(5)
          by (subst t11, simp, simp, subst t11, simp, simp, simp)
        moreover have "length (overlay 8 (map upcase ext) ?s) = 12" if "length ext \<le> 3" using that ls by simp
        ultimately show ?thesis
          unfolding go spec using body by (cases "length ext \<le> 3 \<and> list_all legal_char ext") simp_all
      next
        case dot: True
        define e1 where "e1 = takeWhile (\<lambda>c. c \<noteq> (0x2E :: u8)) ext"
        define e2 where "e2 = drop (length e1 + 1) ext"
        have ext2: "ext = e1 @ 0x2E # e2" unfolding e1_def e2_def by (rule dot_split [OF dot])
        have sub: "set e1 \<subseteq> set ext" "0x2E \<notin> set e1" unfolding e1_def by (auto dest: set_takeWhileD)
        then have s1: "segment e1" "0x2E \<notin> set e1" using se by (auto simp: segment_def)
        obtain b2 s2 where "name_loop (e1 @ 0x2E # e2 @ c # rest) (length body + 1) 8 11 (push_bit 2 b1) ?s =
            (if 8 + length e1 \<le> 11 \<and> list_all legal_char e1
             then name_loop (0x2E # e2 @ c # rest) (length body + 1 + length e1) (8 + length e1) 11 b2 (overlay 8 (map upcase e1) ?s)
             else Some (Inl FR_INVALID_NAME, s2))"
          using name_loop_field [OF s1 ls, of 11 8 "0x2E # e2 @ c # rest" "length body + 1" "push_bit 2 b1"] by auto
        moreover have "sfn_of seg = None" using spec ext2 by (auto simp: legal_char_def)
        ultimately show ?thesis using run ext2 by (auto simp: is_sep_def)
      qed
    qed
  qed
qed

lemma NS_bits: "NS_LAST = 4" "NS_DOT = 0x20" "NS_EXT = 0x10" "NS_BODY = 8"
  by (simp_all add: NS_LAST_def NS_DOT_def NS_EXT_def NS_BODY_def)

lemma name_flags_bits:
  "name_flags c ni b AND NS_LAST = (if c \<le> 0x20 then NS_LAST else 0)" "name_flags c ni b AND NS_DOT = 0"
  by (simp_all add: name_flags_def NS_bits Let_def bit.conj_disj_distrib2)

lemma legal_upcase: "legal_char c \<Longrightarrow> upcase c < 0x80"
  unfolding legal_char_def upcase_def IsLower_def
  by (auto simp: word_less_nat_alt word_le_nat_alt unat_sub_if_size word_size)

lemma sfn_of_first: "sfn_of seg = Some n \<Longrightarrow> n ! 0 \<noteq> DDEM"
  by (cases seg) (auto simp: sfn_of_def Let_def pad_def DDEM_def split: if_splits dest!: legal_upcase)

lemma create_name_law:
  assumes "list_all is_sep seps" and "segment seg" and "seg \<noteq> []" and "hd seg \<noteq> 0x2E" and "seg_end c" and "length (dj_fn dp) = 12"
  shows "\<exists>r fn p. create_name dp (seps @ seg @ c # rest) = Some ((r, dp\<lparr>dj_fn := fn\<rparr>), p) \<and>
    (case sfn_of seg of None \<Rightarrow> r = FR_INVALID_NAME
     | Some n \<Rightarrow> r = FR_OK \<and> length fn = 12 \<and> take 11 fn = n \<and> p = rest \<and>
        fn ! 11 AND NS_LAST = (if c \<le> 0x20 then NS_LAST else 0) \<and> fn ! 11 AND NS_DOT = 0)"
proof -
  let ?f = "overlay 0 (replicate 11 0x20) (dj_fn dp)"
  have f: "mem_set 0 0x20 11 (dj_fn dp) = Some ?f" "length ?f = 12" "take 11 ?f = replicate 11 0x20"
    using assms(6) by (simp_all add: mem_set_def put_range_def overlay_def)
  obtain a s where seg: "seg = a # s" using assms(3) by (cases seg) auto
  have sk: "skip_seps (seps @ seg @ c # rest) = Some (seg @ c # rest)"
    using assms(1,2) seg skip_seps_sep [of seps a "s @ c # rest"] by (simp add: segment_def)
  obtain q sfn where nl: "name_loop (seg @ c # rest) 0 0 8 0 ?f = Some (q, sfn)" and
    post: "case sfn_of seg of None \<Rightarrow> q = Inl FR_INVALID_NAME
     | Some n \<Rightarrow> length sfn = 12 \<and> take 11 sfn = n \<and> (\<exists>i ni b. i \<noteq> 0 \<and> q = Inr (c, length seg + 1, i, ni, b))"
    using name_loop_segment [OF assms(2-5) f(2,3)] by blast
  have hd: "hd (seg @ c # rest) \<noteq> 0x2E" using assms(3,4) by simp
  show ?thesis
  proof (cases "sfn_of seg")
    case None
    then show ?thesis
      using post by (auto simp: create_name_def sk f(1) hd nl simp del: append.simps)
  next
    case (Some n)
    then obtain i ni b where i: "length sfn = 12" "take 11 sfn = n" "i \<noteq> 0" "q = Inr (c, length seg + 1, i, ni, b)"
      using post by auto
    have "n ! 0 \<noteq> DDEM" using sfn_of_first Some by simp
    then have "sfn ! 0 \<noteq> DDEM" using i by (auto simp: nth_take)
    then show ?thesis
      using i Some by (auto simp: create_name_def sk f(1) hd nl get_at_in put_at_in NSFLAG_def name_flags_bits simp del: append.simps)
  qed
qed

section \<open>Dot entries\<close>

definition is_dot :: "bytes \<Rightarrow> bool" where "is_dot s \<longleftrightarrow> s = [0x2E] \<or> s = [0x2E, 0x2E]"

definition seg_name :: "bytes \<Rightarrow> bytes option" where
  "seg_name s = (if is_dot s then Some (pad 11 s) else sfn_of s)"

text \<open>What \<open>create_name\<close> does with one segment, up to the object's name buffer.\<close>

definition name_post :: "bytes \<Rightarrow> u8 \<Rightarrow> bytes \<Rightarrow> fdir \<Rightarrow> (fresult \<times> fdir) \<times> bytes \<Rightarrow> bool" where
  "name_post s c rest dp = (\<lambda>((r, dp'), p). \<exists>fn. dp' = dp\<lparr>dj_fn := fn\<rparr> \<and>
     (case seg_name s of None \<Rightarrow> r = FR_INVALID_NAME
      | Some n \<Rightarrow> r = FR_OK \<and> length fn = 12 \<and> take 11 fn = n \<and> p = rest \<and>
         (fn ! 11 AND NS_LAST \<noteq> 0) = (c \<le> 0x20) \<and> (fn ! 11 AND NS_DOT \<noteq> 0) = is_dot s))"

lemma dot_loop_segment:
  assumes "segment s" and "s \<noteq> []" and "hd s = 0x2E" and "seg_end c" and "length sfn = 12"
  shows "if is_dot s then dot_loop (s @ c # rest) 0 0 sfn = Some (c, length s + 1, overlay 0 s sfn)
    else \<exists>a si sfn'. dot_loop (s @ c # rest) 0 0 sfn = Some (a, si, sfn') \<and> a > 0x20 \<and> \<not> is_sep a"
proof -
  have c: "c \<noteq> 0x2E" using assms(4) by (auto simp: seg_end_def is_sep_def)
  have ov: "sfn[0 := x] = overlay 0 [x] sfn" "(sfn[0 := x])[Suc 0 := y] = overlay 0 [x, y] sfn" for x y
    using assms(5) by (cases sfn; cases "tl sfn"; auto simp: overlay_def)+
  obtain t where s: "s = 0x2E # t" using assms(2,3) by (cases s) auto
  consider "t = []" | "t = [0x2E]" | a t' where "t = a # t'" "a \<noteq> 0x2E" | a t' where "t = 0x2E # a # t'"
    by (metis list.exhaust)
  then show ?thesis
    using assms(1,5) c ov by cases (auto simp: s is_dot_def Let_def put_at_in segment_def)
qed

lemma create_name_seg:
  assumes "segment s" and "s \<noteq> []" and "seg_end c" and "length (dj_fn dp) = 12"
  shows "\<exists>x. create_name dp (s @ c # rest) = Some x \<and> name_post s c rest dp x"
proof (cases "hd s = 0x2E")
  case False
  then have "\<not> is_dot s" by (auto simp: is_dot_def)
  obtain r fn p where "create_name dp (s @ c # rest) = Some ((r, dp\<lparr>dj_fn := fn\<rparr>), p)" "case sfn_of s of None \<Rightarrow> r = FR_INVALID_NAME
     | Some n \<Rightarrow> r = FR_OK \<and> length fn = 12 \<and> take 11 fn = n \<and> p = rest \<and>
        fn ! 11 AND NS_LAST = (if c \<le> 0x20 then NS_LAST else 0) \<and> fn ! 11 AND NS_DOT = 0"
    using create_name_law [OF _ assms(1,2) False assms(3,4), of "[]" rest] by auto
  with \<open>\<not> is_dot s\<close> show ?thesis
    by (auto simp: name_post_def seg_name_def NS_bits split: option.splits if_splits intro!: exI [of _ fn])
next
  case True
  let ?f = "overlay 0 (replicate 11 0x20) (dj_fn dp)"
  have f: "mem_set 0 0x20 11 (dj_fn dp) = Some ?f" "length ?f = 12"
    using assms(4) by (simp_all add: mem_set_def put_range_def)
  obtain t where s: "s = 0x2E # t" using assms(2) True by (cases s) auto
  have sk: "skip_seps (s @ c # rest) = Some (s @ c # rest)" by (simp add: s is_sep_def)
  have hd: "hd (s @ c # rest) = 0x2E" by (simp add: s)
  note d = dot_loop_segment [OF assms(1,2) True assms(3) f(2), of rest]
  show ?thesis
  proof (cases "is_dot s")
    case False
    then have "sfn_of s = None" by (simp add: sfn_of_def s)
    then show ?thesis
      using d False by (auto simp: create_name_def sk f(1) hd name_post_def seg_name_def not_le simp del: append.simps)
  next
    case dot: True
    have len: "length s \<le> 2" using dot by (auto simp: is_dot_def)
    let ?g = "(overlay 0 s ?f)[11 := if c \<le> 0x20 then NS_LAST OR NS_DOT else NS_DOT]"
    have "create_name dp (s @ c # rest) = Some ((FR_OK, dp\<lparr>dj_fn := ?g\<rparr>), rest)"
      using d dot assms(3) len f(2)
      by (simp add: create_name_def sk f(1) hd NSFLAG_def put_at_in seg_end_def del: append.simps) (auto simp: not_less)
    moreover have "take 11 ?g = pad 11 s" using len assms(4) by (simp add: overlay_def pad_def)
    moreover have "length ?g = 12" "?g ! 11 = (if c \<le> 0x20 then NS_LAST OR NS_DOT else NS_DOT)" using len f(2) by simp_all
    ultimately show ?thesis using dot by (auto simp: name_post_def seg_name_def NS_bits)
  qed
qed

section \<open>Resolving a path\<close>

text \<open>
  The meaning of a path in the directories FatFs sees: the directory that holds the object and
  the object's entry, or the directory itself and no entry.  A dot entry that is not stored
  (the root has none) stands for the root directory.
\<close>

definition entry_clust :: "'d fatfs \<Rightarrow> bytes \<Rightarrow> u32" where
  "entry_clust fs e = (let lo = ucast (le16 (e ! 26) (e ! 27)) in
     if fs_type fs = FS_FAT32 then lo OR push_bit 16 (ucast (le16 (e ! 20) (e ! 21))) else lo)"

definition entry_is_dir :: "bytes \<Rightarrow> bool" where "entry_is_dir e \<longleftrightarrow> e ! DIR_Attr AND AM_DIR \<noteq> 0"

inductive lookup :: "('d \<Rightarrow> u32 \<Rightarrow> bytes) \<Rightarrow> 'd fatfs \<Rightarrow> u32 \<Rightarrow> bytes list \<Rightarrow> u32 \<Rightarrow> nat option \<Rightarrow> bool"
  for img fs where
  found: "seg_name s = Some n \<Longrightarrow> first_entry img fs d (entry_is n) 0 i \<Longrightarrow> i < 65536 \<Longrightarrow> lookup img fs d [s] d (Some i)"
| down: "seg_name s = Some n \<Longrightarrow> first_entry img fs d (entry_is n) 0 i \<Longrightarrow> i < 65536 \<Longrightarrow> entry_is_dir (dir_entry img fs d i) \<Longrightarrow>
    lookup img fs (entry_clust fs (dir_entry img fs d i)) (t # ts) e r \<Longrightarrow> lookup img fs d (s # t # ts) e r"
| root: "is_dot s \<Longrightarrow> no_entry img fs d (entry_is (pad 11 s)) 0 \<Longrightarrow> lookup img fs d [s] 0 None"
| up: "is_dot s \<Longrightarrow> no_entry img fs d (entry_is (pad 11 s)) 0 \<Longrightarrow> lookup img fs 0 (t # ts) e r \<Longrightarrow> lookup img fs d (s # t # ts) e r"

inductive_cases lookup_last: "lookup img fs d [s] e r"
inductive_cases lookup_more: "lookup img fs d (s # t # ts) e r"
inductive_cases lookup_none: "lookup img fs d [] e r"

text \<open>The path string of a list of segments.\<close>

fun path_of :: "bytes list \<Rightarrow> bytes" where
  "path_of [] = [0]"
| "path_of [s] = s @ [0]"
| "path_of (s # t # ts) = s @ 0x2F # path_of (t # ts)"

definition path_ok :: "bytes list \<Rightarrow> bool" where
  "path_ok ss \<longleftrightarrow> ss \<noteq> [] \<and> (\<forall>s \<in> set ss. segment s \<and> s \<noteq> [])"

lemma lookup_not_found:
  assumes "\<And>i. i < 65536 \<Longrightarrow> \<not> first_entry img fs d (entry_is n) 0 i" and "seg_name s = Some n" and "\<not> is_dot s"
  shows "\<not> lookup img fs d (s # ss) e r"
  using assms by (cases ss) (auto elim: lookup_last lookup_more)

lemma entry_is_take: "entry_is (take 11 fn) = entry_is fn"
  by (simp add: entry_is_def fun_eq_iff)

lemma lookup_unchanged:
  assumes "unchanged img fs fs'" and "vol_layout fs" and "dir_layout fs"
  shows "lookup img fs' d ss e r = lookup img fs d ss e r"
proof -
  note eq = first_entry_unchanged [OF assms] dir_entry_unchanged [OF assms]
  have ty: "entry_clust fs' = entry_clust fs"
    using assms(1) by (auto simp: entry_clust_def fun_eq_iff unchanged_def same_vol_sel)
  have "lookup img fs' d ss e r \<Longrightarrow> lookup img fs d ss e r"
    by (induction rule: lookup.induct) (auto simp: eq ty intro: lookup.intros)
  moreover have "lookup img fs d ss e r \<Longrightarrow> lookup img fs' d ss e r"
    by (induction rule: lookup.induct) (auto simp: eq [symmetric] ty [symmetric] intro: lookup.intros)
  ultimately show ?thesis by blast
qed

context block_device
begin

definition follow_post :: "'d fatfs \<Rightarrow> u32 \<Rightarrow> bytes list \<Rightarrow> fresult \<times> fdir \<Rightarrow> 'd fatfs \<Rightarrow> bool" where
  "follow_post fs d ss x fs' \<longleftrightarrow> inv fs' \<and> unchanged img fs fs' \<and>
     (fst x = FR_OK \<and> (\<exists>r. lookup img fs d ss (dj_sclust (snd x)) r \<and>
        (case r of None \<Rightarrow> dj_dir (snd x) = None
         | Some i \<Rightarrow> dir_at img fs (snd x) i \<and> winsect fs' = dj_sect (snd x) \<and> win fs' = view img fs (dj_sect (snd x)))) \<or>
      fst x = FR_DISK_ERR \<or> fst x = FR_INT_ERR \<or>
      fst x \<in> {FR_NO_FILE, FR_NO_PATH, FR_INVALID_NAME} \<and> (\<forall>e r. \<not> lookup img fs d ss e r))"

lemma follow_post_error:
  "inv fs' \<Longrightarrow> unchanged img fs fs' \<Longrightarrow> r \<in> {FR_DISK_ERR, FR_INT_ERR} \<Longrightarrow> follow_post fs d ss (r, dp) fs'"
  by (auto simp: follow_post_def)

lemma follow_post_down:
  assumes "vol_layout fs" and "dir_layout fs" and u: "unchanged img fs fs1" and "follow_post fs1 d1 ss x fs'"
    and iff: "\<And>e r. lookup img fs d1 ss e r = lookup img fs d (s # ss) e r"
  shows "follow_post fs d (s # ss) x fs'"
proof -
  have v: "win fs' = view img fs1 (dj_sect (snd x)) \<Longrightarrow> dir_at img fs (snd x) i \<Longrightarrow> win fs' = view img fs (dj_sect (snd x))" for i
    using dir_loc_sector(1) [OF assms(1,2)] u by (auto simp: dir_at_def unchanged_def)
  have at: "dir_at img fs1 dp i = dir_at img fs dp i" for dp i by (rule dir_at_unchanged [OF u assms(1)])
  have lk: "lookup img fs1 d1 ss e r = lookup img fs d (s # ss) e r" for e r
    by (simp add: lookup_unchanged [OF u assms(1,2)] iff)
  show ?thesis
    using assms(4) unchanged_trans [OF u] v unfolding follow_post_def lk at by (fastforce split: option.splits)
qed

lemma entry_clust_ld:
  assumes "off + 32 \<le> length (win fs)"
  shows "ld_clust fs off = Some (entry_clust fs (take 32 (drop off (win fs))))"
  using assms by (simp add: ld_clust_def entry_clust_def LD_WORD_in DIR_FstClusLO_def DIR_FstClusHI_def Let_def add.commute [of _ off])

lemma follow_loop_law:
  assumes "inv fs" and "vol_layout fs" and "dir_layout fs" and "length (dj_fn dp) = 12" and "path_ok ss"
  shows "returns (follow_loop ops dp (path_of ss) fs) (follow_post fs (dj_sclust dp) ss)"
  using assms
proof (induction ss arbitrary: dp fs)
  case Nil
  then show ?case by (simp add: path_ok_def)
next
  case (Cons s ss)
  note inv = Cons.prems(1) and lay = Cons.prems(2) and dlay = Cons.prems(3)
  let ?d = "dj_sclust dp"
  define c where "c = (if ss = [] then 0 else 0x2F :: u8)"
  have c: "seg_end c" "(c \<le> 0x20) = (ss = [])" by (auto simp: c_def seg_end_def is_sep_def)
  define rest where "rest = (if ss = [] then [] else path_of ss)"
  have path: "path_of (s # ss) = s @ c # rest" by (cases ss) (simp_all add: c_def rest_def)
  have s: "segment s" "s \<noteq> []" using Cons.prems(5) by (simp_all add: path_ok_def)
  obtain r1 dp1 p where cn: "create_name dp (s @ c # rest) = Some ((r1, dp1), p)" and post: "name_post s c rest dp ((r1, dp1), p)"
    using create_name_seg [OF s c(1) Cons.prems(4), of rest] by auto
  show ?case
  proof (cases "seg_name s")
    case None
    have "\<not> lookup img fs ?d (s # ss) e r" for e r
      using None by (cases ss) (auto simp: seg_name_def elim!: lookup_last lookup_more split: if_splits)
    moreover have "r1 = FR_INVALID_NAME" using post None by (auto simp: name_post_def)
    ultimately show ?thesis
      using inv by (subst follow_loop.simps) (simp add: path cn follow_post_def unchanged_def)
  next
    case (Some n)
    obtain fn where fn: "dp1 = dp\<lparr>dj_fn := fn\<rparr>" "length fn = 12" "take 11 fn = n" "p = rest" "r1 = FR_OK"
        "(fn ! 11 AND NS_LAST = 0) = (ss \<noteq> [])" "(fn ! 11 AND NS_DOT = 0) = (\<not> is_dot s)"
      using post Some c(2) by (auto simp: name_post_def)
    have ent: "entry_is fn = entry_is n" using entry_is_take [of fn] fn(3) by simp
    obtain r2 dp2 fs2 where df: "dir_find ops dp1 fs = Some ((r2, dp2), fs2)" and sp: "search_post fs dp1 (entry_is n) 0 (r2, dp2) fs2"
      using dir_find_law [OF inv lay dlay, of dp1] fn(1,2) ent by (auto simp: returns_iff)
    have inv2: "inv fs2" and un: "unchanged img fs fs2" and sd: "same_dir dp1 dp2"
      using sp by (simp_all add: search_post_def)
    note lay2 = unchanged_layout [OF un lay] and dlay2 = unchanged_dir_layout [OF un dlay]
    have f2: "dj_fn dp2 = fn" "dj_sclust dp2 = ?d" using sd fn(1) by (simp_all add: same_dir_def)
    have ns: "get_at NSFLAG (dj_fn dp2) = Some (fn ! 11)" using f2 fn(2) by (simp add: get_at_in NSFLAG_def)
    have run: "follow_loop ops dp (path_of (s # ss)) fs =
      (if r2 \<noteq> FR_OK then
         (if r2 = FR_NO_FILE then
            if is_dot s then
              if ss \<noteq> [] then follow_loop ops (dp2\<lparr>dj_sclust := 0, dj_dir := None\<rparr>) rest fs2
              else Some ((FR_OK, dp2\<lparr>dj_sclust := 0, dj_dir := None\<rparr>), fs2)
            else Some ((if ss \<noteq> [] then FR_NO_PATH else r2, dp2), fs2)
          else Some ((r2, dp2), fs2))
       else if ss = [] then Some ((r2, dp2), fs2)
       else do {
         dir \<leftarrow> dj_dir dp2;
         a \<leftarrow> get_at (dir + DIR_Attr) (win fs2);
         if a AND AM_DIR = 0 then Some ((FR_NO_PATH, dp2), fs2)
         else do { cl \<leftarrow> ld_clust fs2 dir; follow_loop ops (dp2\<lparr>dj_sclust := cl\<rparr>) rest fs2 } })"
      unfolding path by (subst follow_loop.simps) (simp add: cn fn(4-7) df ns)
    consider (ok) i where "r2 = FR_OK" "dir_at img fs dp2 i" "first_entry img fs ?d (entry_is n) 0 i"
        "winsect fs2 = dj_sect dp2" "win fs2 = view img fs (dj_sect dp2)"
      | (err) "r2 \<in> {FR_DISK_ERR, FR_INT_ERR}" | (no) "r2 = FR_NO_FILE" "no_entry img fs ?d (entry_is n) 0"
      using sp fn(1) by (auto simp: search_post_def)
    then show ?thesis
    proof cases
      case err
      then show ?thesis
        using follow_post_error [OF inv2 un] unfolding run by auto
    next
      case no
      show ?thesis
      proof (cases "is_dot s")
        case False
        have "\<not> lookup img fs ?d (s # ss) e r" for e r
          by (rule lookup_not_found [OF _ Some False]) (use first_entry_no_entry no(2) in blast)
        then show ?thesis
          using no(1) False fn(6,7) inv2 un unfolding run by (auto simp: follow_post_def)
      next
        case dot: True
        have n: "n = pad 11 s" using Some dot by (simp add: seg_name_def)
        show ?thesis
        proof (cases ss)
          case Nil
          then show ?thesis
            using no dot fn(6,7) inv2 un lookup.root [OF dot, of img fs ?d] n
            unfolding run by (auto simp: follow_post_def intro!: exI [of _ None])
        next
          case ss: (Cons t ts)
          have nf: "\<not> i < 65536" if "first_entry img fs ?d (entry_is (pad 11 s)) 0 i" for i
            using first_entry_no_entry [OF that] no(2) n by blast
          have iff: "lookup img fs 0 ss e r = lookup img fs ?d (s # ss) e r" for e r
            using no(2) dot Some unfolding ss by (auto simp: n intro: lookup.up elim!: lookup_more dest: nf)
          have "returns (follow_loop ops (dp2\<lparr>dj_sclust := 0, dj_dir := None\<rparr>) (path_of ss) fs2) (follow_post fs2 0 ss)"
            using Cons.IH [OF inv2 lay2 dlay2, of "dp2\<lparr>dj_sclust := 0, dj_dir := None\<rparr>"] f2 fn(2) Cons.prems(5) ss
            by (simp add: path_ok_def)
          then show ?thesis
            using no dot fn(6,7) ss follow_post_down [OF lay dlay un _ iff]
            unfolding run by (auto simp: rest_def elim!: returns_mono)
        qed
      qed
    next
      case ok
      have lt: "i < 65536" using ok(2) by (simp add: dir_at_def)
      have off: "i mod 16 * 32 + 32 \<le> length (win fs2)" using inv2 by (simp add: win_inv_def)
      have dir: "dj_dir dp2 = Some (i mod 16 * 32)" and ent2: "dir_entry img fs ?d i = take 32 (drop (i mod 16 * 32) (win fs2))"
        using ok(2,5) f2 by (auto simp: dir_at_def dir_entry_def)
      have attr: "get_at (i mod 16 * 32 + DIR_Attr) (win fs2) = Some (dir_entry img fs ?d i ! DIR_Attr)"
        using off ent2 by (simp add: get_at_in DIR_Attr_def)
      have cl: "ld_clust fs2 (i mod 16 * 32) = Some (entry_clust fs (dir_entry img fs ?d i))"
        using entry_clust_ld [OF off] un by (auto simp: ent2 entry_clust_def unchanged_def same_vol_sel)
      show ?thesis
      proof (cases ss)
        case Nil
        then show ?thesis
          using ok f2 fn(6) inv2 un lookup.found [OF Some ok(3) lt]
          unfolding run by (auto simp: follow_post_def intro!: exI [of _ "Some i"])
      next
        case ss: (Cons t ts)
        have uniq: "first_entry img fs ?d (entry_is n) 0 j \<Longrightarrow> j = i" for j using first_entry_unique [OF _ ok(3)] .
        have nn: "\<not> no_entry img fs ?d (entry_is n) 0" by (rule first_entry_no_entry [OF ok(3) lt])
        have dotn: "is_dot s \<Longrightarrow> pad 11 s = n" using Some by (simp add: seg_name_def)
        show ?thesis
        proof (cases "entry_is_dir (dir_entry img fs ?d i)")
          case False
          have "\<not> lookup img fs ?d (s # ss) e r" for e r
            using False Some uniq nn dotn unfolding ss by (auto elim!: lookup_more)
          then show ?thesis
            using ok(1) False fn(6) ss inv2 un
            unfolding run by (auto simp: dir attr entry_is_dir_def follow_post_def)
        next
          case True
          let ?cl = "entry_clust fs (dir_entry img fs ?d i)"
          have iff: "lookup img fs ?cl ss e r = lookup img fs ?d (s # ss) e r" for e r
            using True Some uniq nn dotn lookup.down [OF Some ok(3) lt True] unfolding ss by (auto elim!: lookup_more)
          have "returns (follow_loop ops (dp2\<lparr>dj_sclust := ?cl\<rparr>) (path_of ss) fs2) (follow_post fs2 ?cl ss)"
            using Cons.IH [OF inv2 lay2 dlay2, of "dp2\<lparr>dj_sclust := ?cl\<rparr>"] f2 fn(2) Cons.prems(5) ss
            by (simp add: path_ok_def)
          then show ?thesis
            using ok(1) True fn(6) ss follow_post_down [OF lay dlay un _ iff]
            unfolding run by (auto simp: rest_def dir attr cl entry_is_dir_def elim!: returns_mono)
        qed
      qed
    qed
  qed
qed

end

lemma follow_path_law:
  assumes "block_device ops dno ok img" and "win_inv dno ok img fs" and "vol_layout fs" and "dir_layout fs"
    and "length (dj_fn dp) = 12" and "path_ok ss" and "pre = [] \<or> pre = [0x2F]"
  shows "returns (follow_path ops dp (pre @ path_of ss) fs) (\<lambda>(r, dp') fs'. win_inv dno ok img fs' \<and> unchanged img fs fs' \<and>
    (let start = (if pre = [] then cdir fs else 0) in
     r = FR_OK \<and> (\<exists>q. lookup img fs start ss (dj_sclust dp') q \<and>
        (case q of None \<Rightarrow> dj_dir dp' = None
         | Some i \<Rightarrow> dir_at img fs dp' i \<and> winsect fs' = dj_sect dp' \<and> win fs' = view img fs (dj_sect dp'))) \<or>
     r = FR_DISK_ERR \<or> r = FR_INT_ERR \<or>
     r \<in> {FR_NO_FILE, FR_NO_PATH, FR_INVALID_NAME} \<and> (\<forall>e q. \<not> lookup img fs start ss e q)))"
proof -
  let ?start = "if pre = [] then cdir fs else 0"
  obtain s ts where ss: "ss = s # ts" using assms(6) by (cases ss) (simp_all add: path_ok_def)
  obtain a t where s: "s = a # t" "0x20 < a" "\<not> is_sep a"
    using assms(6) by (cases s) (auto simp: ss path_ok_def segment_def)
  have "\<not> a < 0x20" using s(2) by simp
  moreover obtain q where "path_of ss = a # q" by (cases ts) (simp_all add: ss s(1))
  moreover have "is_sep 0x2F" by (simp add: is_sep_def)
  ultimately have "follow_path ops dp (pre @ path_of ss) fs = follow_loop ops (dp\<lparr>dj_sclust := ?start\<rparr>) (path_of ss) fs"
    using assms(7) s(3) by (auto simp: follow_path_def get_at_def)
  moreover have "returns (follow_loop ops (dp\<lparr>dj_sclust := ?start\<rparr>) (path_of ss) fs)
      (block_device.follow_post dno ok img fs ?start ss)"
    using block_device.follow_loop_law [OF assms(1-4), of "dp\<lparr>dj_sclust := ?start\<rparr>", OF _ assms(6)] assms(5) by simp
  ultimately show ?thesis
    by (simp add: block_device.follow_post_def [OF assms(1), abs_def] Let_def case_prod_unfold)
qed

section \<open>Properties\<close>

text \<open>
  C33: Short names.  On every segment of a path, whatever precedes it in the path and however it
  ends, \<open>create_name\<close> agrees with the rules of 8.3 names: it accepts exactly the names that have
  a legal form, stores body and extension in capitals and padded, moves the path past the
  terminator and marks the last segment.
\<close>

theorem create_name_correct:
  assumes "list_all is_sep seps" and "segment seg" and "seg \<noteq> []" and "hd seg \<noteq> 0x2E" and "seg_end c"
    and "length (dj_fn dp) = 12"
  shows "\<exists>r fn p. create_name dp (seps @ seg @ c # rest) = Some ((r, dp\<lparr>dj_fn := fn\<rparr>), p) \<and>
    (case sfn_of seg of None \<Rightarrow> r = FR_INVALID_NAME
     | Some n \<Rightarrow> r = FR_OK \<and> length fn = 12 \<and> take 11 fn = n \<and> p = rest \<and>
        fn ! 11 AND NS_LAST = (if c \<le> 0x20 then NS_LAST else 0) \<and> fn ! 11 AND NS_DOT = 0)"
  by (rule create_name_law [OF assms])

text \<open>
  C18: Following a path.  \<open>follow_path\<close> computes the meaning of a path in the directories as FatFs
  sees them, starting from the root for a leading separator and from the current directory
  otherwise.  It returns on every volume, changes nothing, and unless the drive or the
  structure of a directory fails it finds the object exactly when the path has one.
\<close>

theorem follow_path_correct:
  assumes "block_device ops dno ok img" and "win_inv dno ok img fs" and "vol_layout fs" and "dir_layout fs"
    and "length (dj_fn dp) = 12" and "path_ok ss" and "pre = [] \<or> pre = [0x2F]"
  shows "returns (follow_path ops dp (pre @ path_of ss) fs) (\<lambda>(r, dp') fs'. win_inv dno ok img fs' \<and> unchanged img fs fs' \<and>
    (let start = (if pre = [] then cdir fs else 0) in
     r = FR_OK \<and> (\<exists>q. lookup img fs start ss (dj_sclust dp') q \<and>
        (case q of None \<Rightarrow> dj_dir dp' = None
         | Some i \<Rightarrow> dir_at img fs dp' i \<and> winsect fs' = dj_sect dp' \<and> win fs' = view img fs (dj_sect dp'))) \<or>
     r = FR_DISK_ERR \<or> r = FR_INT_ERR \<or>
     r \<in> {FR_NO_FILE, FR_NO_PATH, FR_INVALID_NAME} \<and> (\<forall>e q. \<not> lookup img fs start ss e q)))"
  by (rule follow_path_law [OF assms])

text \<open>The two theorems at work on the root directory of the small volume.\<close>

definition foo_path :: bytes where "foo_path = [0x66, 0x6F, 0x6F, 0x2E, 0x74, 0x78, 0x74]"

theorem create_name_correct_witness:
  "\<exists>fn. create_name foo_dir (0x2F # foo_path @ [0]) = Some ((FR_OK, foo_dir\<lparr>dj_fn := fn\<rparr>), []) \<and> take 11 fn = foo_txt"
proof -
  have "sfn_of foo_path = Some foo_txt"
    by code_simp
  moreover have "length (dj_fn foo_dir) = 12" by (simp add: foo_dir_def foo_txt_def)
  ultimately show ?thesis
    using create_name_correct [of "[0x2F]" foo_path 0 foo_dir "[]"]
    by (auto simp: is_sep_def segment_def foo_path_def seg_end_def)
qed

theorem follow_path_correct_witness:
  "returns (follow_path ram_ops foo_dir ([0x2F] @ path_of [foo_path]) demo_files)
     (\<lambda>(r, dp') fs'. r = FR_OK \<and> dj_index dp' = 1 \<or> r = FR_DISK_ERR \<or> r = FR_INT_ERR)"
proof -
  have n: "seg_name foo_path = Some foo_txt" by code_simp
  have first: "first_entry (\<lambda>d. d) demo_files 0 (entry_is foo_txt) 0 1"
    using demo_first entry_is_take [of "foo_txt @ [0]"] by (simp add: foo_txt_def)
  have lk: "lookup (\<lambda>d. d) demo_files 0 [foo_path] e q \<longleftrightarrow> e = 0 \<and> q = Some 1" for e q
  proof
    assume "lookup (\<lambda>d. d) demo_files 0 [foo_path] e q"
    then show "e = 0 \<and> q = Some 1"
    proof (rule lookup_last)
      fix n' i assume a: "e = 0" "q = Some i" "seg_name foo_path = Some n'" "first_entry (\<lambda>d. d) demo_files 0 (entry_is n') 0 i"
      then have "n' = foo_txt" using n by simp
      then show ?thesis using a first_entry_unique [OF first] by blast
    qed (simp add: is_dot_def foo_path_def)
  qed (use lookup.found [OF n first] in simp)
  have ok: "length (dj_fn foo_dir) = 12" "path_ok [foo_path]"
    by (simp_all add: foo_dir_def foo_txt_def path_ok_def segment_def foo_path_def is_sep_def)
  have idx: "dj_index dp' = 1" if "dir_at (\<lambda>d. d) demo_files dp' 1" for dp' using that by (simp add: dir_at_def)
  have ex: "lookup (\<lambda>d. d) demo_files 0 [foo_path] 0 (Some 1)" using lk by simp
  show ?thesis
  proof (rule returns_mono [OF follow_path_correct [OF ram.block_device_axioms demo_files_ok ok, of "[0x2F]"]])
    show "[0x2F] = ([] :: bytes) \<or> [0x2F] = [0x2F :: u8]" by simp
  qed (auto simp: lk Let_def idx)
qed

end
