(* ===== verification/Fat_Volume.thy ===== *)
theory Fat_Volume
  imports Fat_Name
begin

text \<open>
  Mounting a FatFs volume, \<open>ff.c\<close>: the module's static state, finding the boot sector of a
  volume, reading its parameter block into the file system object, and the validity check of
  file and directory objects.
\<close>

section \<open>State\<close>

text \<open>
  The static variables of the module, the file system objects of the program by their
  addresses, and the drives, which all file system objects share: the field \<open>dsk\<close> of an object
  at rest is not used.
\<close>

record 'd fat_sys =
  vol_objs :: "nat \<Rightarrow> 'd fatfs"
  FatFs :: "nat option list"
  Fsid :: u16
  CurrVol :: u8
  drives :: 'd

definition fs_at :: "'d fat_sys \<Rightarrow> nat \<Rightarrow> 'd fatfs" where
  "fs_at g a = (vol_objs g a)\<lparr>dsk := drives g\<rparr>"

definition put_fs :: "nat \<Rightarrow> 'd fatfs \<Rightarrow> 'd fat_sys \<Rightarrow> 'd fat_sys" where
  "put_fs a fs g = g\<lparr>vol_objs := (vol_objs g)(a := fs), drives := dsk fs\<rparr>"

text \<open>An operation on the file system object at an address.\<close>

definition on_fs :: "nat \<Rightarrow> ('d fatfs \<Rightarrow> ('a \<times> 'd fatfs) option) \<Rightarrow> 'd fat_sys \<Rightarrow> ('a \<times> 'd fat_sys) option" where
  "on_fs a f g = do { (r, fs) \<leftarrow> f (fs_at g a); Some (r, put_fs a fs g) }"

definition BPB_BytsPerSec :: nat where "BPB_BytsPerSec = 11"
definition BPB_SecPerClus :: nat where "BPB_SecPerClus = 13"
definition BPB_RsvdSecCnt :: nat where "BPB_RsvdSecCnt = 14"
definition BPB_NumFATs :: nat where "BPB_NumFATs = 16"
definition BPB_RootEntCnt :: nat where "BPB_RootEntCnt = 17"
definition BPB_TotSec16 :: nat where "BPB_TotSec16 = 19"
definition BPB_FATSz16 :: nat where "BPB_FATSz16 = 22"
definition BPB_TotSec32 :: nat where "BPB_TotSec32 = 32"
definition BPB_FATSz32 :: nat where "BPB_FATSz32 = 36"
definition BPB_RootClus :: nat where "BPB_RootClus = 44"
definition BPB_FSInfo :: nat where "BPB_FSInfo = 48"
definition BS_FilSysType :: nat where "BS_FilSysType = 54"
definition BS_FilSysType32 :: nat where "BS_FilSysType32 = 82"
definition BS_55AA :: nat where "BS_55AA = 510"
definition FSI_LeadSig :: nat where "FSI_LeadSig = 0"
definition FSI_StrucSig :: nat where "FSI_StrucSig = 484"
definition FSI_Free_Count :: nat where "FSI_Free_Count = 488"
definition FSI_Nxt_Free :: nat where "FSI_Nxt_Free = 492"
definition MBR_Table :: nat where "MBR_Table = 446"
definition SZ_PTE :: nat where "SZ_PTE = 16"
definition MIN_FAT16 :: u32 where "MIN_FAT16 = 4086"
definition MIN_FAT32 :: u32 where "MIN_FAT32 = 65526"

section \<open>Finding the boot sector\<close>

text \<open>0: a FAT boot sector, 1: a boot sector, 2: none, 3: the drive failed.\<close>

definition check_fs :: "'d disk_ops \<Rightarrow> u32 \<Rightarrow> 'd fatfs \<Rightarrow> (u8 \<times> 'd fatfs) option" where
  "check_fs ops sect fs = do {
     (r, fs) \<leftarrow> move_window ops sect (fs\<lparr>wflag := 0, winsect := 0xFFFFFFFF\<rparr>);
     if r \<noteq> FR_OK then Some (3, fs)
     else do {
       s \<leftarrow> LD_WORD BS_55AA (win fs);
       if s \<noteq> 0xAA55 then Some (2, fs)
       else do {
         t \<leftarrow> LD_DWORD BS_FilSysType (win fs);
         t32 \<leftarrow> LD_DWORD BS_FilSysType32 (win fs);
         if t AND 0xFFFFFF = 0x544146 \<or> t32 AND 0xFFFFFF = 0x544146 then Some (0, fs)
         else Some (1, fs) } } }"

text \<open>The start sector of partition \<open>i\<close>, 0 for an empty entry of the table.\<close>

definition part_start :: "bytes \<Rightarrow> nat \<Rightarrow> u32 option" where
  "part_start w i = (let pt = MBR_Table + i * SZ_PTE in do {
     t \<leftarrow> get_at (pt + 4) w;
     if t \<noteq> 0 then LD_DWORD (pt + 8) w else Some 0 })"

fun part_loop :: "'d disk_ops \<Rightarrow> u32 list \<Rightarrow> 'd fatfs \<Rightarrow> ((u8 \<times> u32) \<times> 'd fatfs) option" where
  "part_loop ops [] fs = None"
| "part_loop ops (bsect # br) fs = do {
     (fmt, fs) \<leftarrow> (if bsect \<noteq> 0 then check_fs ops bsect fs else Some (2, fs));
     if fmt \<noteq> 0 \<and> br \<noteq> [] then part_loop ops br fs else Some ((fmt, bsect), fs) }"

definition find_boot :: "'d disk_ops \<Rightarrow> 'd fatfs \<Rightarrow> ((u8 \<times> u32) \<times> 'd fatfs) option" where
  "find_boot ops fs = do {
     (fmt, fs) \<leftarrow> check_fs ops 0 fs;
     if fmt = 1 then do {
       b0 \<leftarrow> part_start (win fs) 0; b1 \<leftarrow> part_start (win fs) 1;
       b2 \<leftarrow> part_start (win fs) 2; b3 \<leftarrow> part_start (win fs) 3;
       part_loop ops [b0, b1, b2, b3] fs }
     else Some ((fmt, 0), fs) }"

section \<open>The parameter block\<close>

text \<open>The size of the FAT a volume needs, and the last part of the checks.\<close>

definition fat_subtype :: "u32 \<Rightarrow> u8" where
  "fat_subtype nclst = (if nclst \<ge> MIN_FAT32 then FS_FAT32 else if nclst \<ge> MIN_FAT16 then FS_FAT16 else FS_FAT12)"

definition needed_fat :: "u8 \<Rightarrow> u32 \<Rightarrow> u32" where
  "needed_fat fmt n = (if fmt = FS_FAT32 then n * 4 else if fmt = FS_FAT16 then n * 2 else n * 3 div 2 + (n AND 1))"

text \<open>A size that is stored in 16 bits, or in 32 when those are zero.\<close>

definition size_field :: "u16 \<Rightarrow> u32 \<Rightarrow> u32" where
  "size_field v16 v32 = (if v16 = 0 then v32 else ucast v16)"

definition fat_limits :: "u32 \<Rightarrow> u8 \<Rightarrow> 'd fatfs \<Rightarrow> ((fresult \<times> u8) \<times> 'd fatfs) option" where
  "fat_limits fasize fmt fs = do {
     rc \<leftarrow> LD_DWORD BPB_RootClus (win fs);
     if fmt = FS_FAT32 \<and> n_rootdir fs \<noteq> 0 \<or> fmt \<noteq> FS_FAT32 \<and> n_rootdir fs = 0
     then Some ((FR_NO_FILESYSTEM, fmt), fs)
     else
       let fs = fs\<lparr>dirbase := if fmt = FS_FAT32 then rc else fatbase fs + fasize\<rparr>;
           szbfat = needed_fat fmt (n_fatent fs) in
       if fsize fs < (szbfat + 511) div 512 then Some ((FR_NO_FILESYSTEM, fmt), fs)
       else Some ((FR_OK, fmt), fs) }"

definition read_bpb :: "u32 \<Rightarrow> 'd fatfs \<Rightarrow> ((fresult \<times> u8) \<times> 'd fatfs) option" where
  "read_bpb bsect fs = do {
     bps \<leftarrow> LD_WORD BPB_BytsPerSec (win fs);
     sz16 \<leftarrow> LD_WORD BPB_FATSz16 (win fs);
     sz32 \<leftarrow> LD_DWORD BPB_FATSz32 (win fs);
     nf \<leftarrow> get_at BPB_NumFATs (win fs);
     cs \<leftarrow> get_at BPB_SecPerClus (win fs);
     nr \<leftarrow> LD_WORD BPB_RootEntCnt (win fs);
     ts16 \<leftarrow> LD_WORD BPB_TotSec16 (win fs);
     ts32 \<leftarrow> LD_DWORD BPB_TotSec32 (win fs);
     nrsv \<leftarrow> LD_WORD BPB_RsvdSecCnt (win fs);
     if bps \<noteq> 512 then Some ((FR_NO_FILESYSTEM, 0), fs)
     else
       let fasize = size_field sz16 sz32;
           fs = fs\<lparr>fsize := fasize, n_fats := nf\<rparr> in
       if nf \<noteq> 1 \<and> nf \<noteq> 2 then Some ((FR_NO_FILESYSTEM, 0), fs)
       else
         let fasize = fasize * ucast nf; fs = fs\<lparr>csize := cs\<rparr> in
         if cs = 0 \<or> cs AND (cs - 1) \<noteq> 0 then Some ((FR_NO_FILESYSTEM, 0), fs)
         else
           let fs = fs\<lparr>n_rootdir := nr\<rparr> in
           if nr mod 16 \<noteq> 0 then Some ((FR_NO_FILESYSTEM, 0), fs)
           else
             let tsect = size_field ts16 ts32 in
             if nrsv = 0 then Some ((FR_NO_FILESYSTEM, 0), fs)
             else
               let sysect = ucast nrsv + fasize + ucast (nr div 16) in
               if tsect < sysect then Some ((FR_NO_FILESYSTEM, 0), fs)
               else
                 let nclst = (tsect - sysect) div ucast cs in
                 if nclst = 0 then Some ((FR_NO_FILESYSTEM, 0), fs)
                 else
                   let fmt = fat_subtype nclst;
                       fs = fs\<lparr>n_fatent := nclst + 2, volbase := bsect, fatbase := bsect + ucast nrsv,
                               database := bsect + sysect\<rparr> in
                   fat_limits fasize fmt fs }"

section \<open>Mounting\<close>

definition load_fsinfo :: "'d disk_ops \<Rightarrow> u32 \<Rightarrow> u8 \<Rightarrow> 'd fatfs \<Rightarrow> (unit \<times> 'd fatfs) option" where
  "load_fsinfo ops bsect fmt fs = do {
     let fs = fs\<lparr>free_clust := 0xFFFFFFFF, last_clust := 0xFFFFFFFF, fsi_flag := 0x80\<rparr>;
     i \<leftarrow> LD_WORD BPB_FSInfo (win fs);
     if fmt = FS_FAT32 \<and> i = 1 then do {
       (r, fs) \<leftarrow> move_window ops (bsect + 1) fs;
       if r \<noteq> FR_OK then Some ((), fs)
       else do {
         let fs = fs\<lparr>fsi_flag := 0\<rparr>;
         s \<leftarrow> LD_WORD BS_55AA (win fs);
         l \<leftarrow> LD_DWORD FSI_LeadSig (win fs);
         t \<leftarrow> LD_DWORD FSI_StrucSig (win fs);
         fc \<leftarrow> LD_DWORD FSI_Free_Count (win fs);
         nx \<leftarrow> LD_DWORD FSI_Nxt_Free (win fs);
         Some ((), if s = 0xAA55 \<and> l = 0x41615252 \<and> t = 0x61417272
           then fs\<lparr>free_clust := fc, last_clust := nx\<rparr> else fs) } }
     else Some ((), fs) }"

text \<open>The part of \<open>find_volume\<close> that (re)mounts; \<open>fsid\<close> is the number of the last mount.\<close>

definition mount_volume :: "'d disk_ops \<Rightarrow> u8 \<Rightarrow> u8 \<Rightarrow> u16 \<Rightarrow> 'd fatfs \<Rightarrow> (fresult \<times> 'd fatfs) option" where
  "mount_volume ops vol wmode fsid fs = do {
     let fs = fs\<lparr>fs_type := 0, drv := vol\<rparr>;
     (stat, d) \<leftarrow> drv_initialize ops (drv fs) (dsk fs);
     let fs = fs\<lparr>dsk := d\<rparr>;
     if stat AND STA_NOINIT \<noteq> 0 then Some (FR_NOT_READY, fs)
     else if wmode \<noteq> 0 \<and> stat AND STA_PROTECT \<noteq> 0 then Some (FR_WRITE_PROTECTED, fs)
     else do {
       ((fmt, bsect), fs) \<leftarrow> find_boot ops fs;
       if fmt = 3 then Some (FR_DISK_ERR, fs)
       else if fmt \<noteq> 0 then Some (FR_NO_FILESYSTEM, fs)
       else do {
         ((res, fmt), fs) \<leftarrow> read_bpb bsect fs;
         if res \<noteq> FR_OK then Some (res, fs)
         else do {
           (_, fs) \<leftarrow> load_fsinfo ops bsect fmt fs;
           Some (FR_OK, fs\<lparr>fs_type := fmt, fs_id := fsid + 1, cdir := 0\<rparr>) } } } }"

definition find_volume :: "'d disk_ops \<Rightarrow> bytes option \<Rightarrow> u8 \<Rightarrow> 'd fat_sys \<Rightarrow>
    ((fresult \<times> nat option \<times> bytes option) \<times> 'd fat_sys) option" where
  "find_volume ops path wmode g = do {
     (vol, path) \<leftarrow> get_ldnumber (CurrVol g) path;
     if vol < 0 then Some ((FR_INVALID_DRIVE, None, path), g)
     else do {
       p \<leftarrow> get_at (nat vol) (FatFs g);
       case p of None \<Rightarrow> Some ((FR_NOT_ENABLED, None, path), g)
       | Some a \<Rightarrow>
         (let fs = fs_at g a; stat = drv_status ops (drv fs) (drives g) in
          if fs_type fs \<noteq> 0 \<and> stat AND STA_NOINIT = 0 then
            Some ((if wmode \<noteq> 0 \<and> stat AND STA_PROTECT \<noteq> 0 then FR_WRITE_PROTECTED else FR_OK, p, path), g)
          else do {
            (res, g) \<leftarrow> on_fs a (mount_volume ops (of_int vol) wmode (Fsid g)) g;
            Some ((res, p, path), if res = FR_OK then g\<lparr>Fsid := Fsid g + 1\<rparr> else g) }) } }"

text \<open>The object is given by its file system pointer and mount number, \<open>None\<close> for a null object.\<close>

definition validate :: "'d disk_ops \<Rightarrow> (nat option \<times> u16) option \<Rightarrow> 'd fat_sys \<Rightarrow> fresult" where
  "validate ops obj g =
     (case obj of None \<Rightarrow> FR_INVALID_OBJECT
      | Some (None, i) \<Rightarrow> FR_INVALID_OBJECT
      | Some (Some a, i) \<Rightarrow>
          (let fs = fs_at g a in
           if fs_type fs = 0 \<or> fs_id fs \<noteq> i \<or> drv_status ops (drv fs) (drives g) AND STA_NOINIT \<noteq> 0
           then FR_INVALID_OBJECT else FR_OK))"

definition clear_obj :: "nat option \<Rightarrow> 'd fat_sys \<Rightarrow> 'd fat_sys" where
  "clear_obj p g = (case p of None \<Rightarrow> g
     | Some a \<Rightarrow> g\<lparr>vol_objs := (vol_objs g)(a := (vol_objs g a)\<lparr>fs_type := 0\<rparr>)\<rparr>)"

definition f_mount :: "'d disk_ops \<Rightarrow> nat option \<Rightarrow> bytes option \<Rightarrow> u8 \<Rightarrow> 'd fat_sys \<Rightarrow> (fresult \<times> 'd fat_sys) option" where
  "f_mount ops fs path opt g = do {
     (vol, _) \<leftarrow> get_ldnumber (CurrVol g) path;
     if vol < 0 then Some (FR_INVALID_DRIVE, g)
     else do {
       cfs \<leftarrow> get_at (nat vol) (FatFs g);
       let g = clear_obj fs (clear_obj cfs g);
       let g = g\<lparr>FatFs := (FatFs g)[nat vol := fs]\<rparr>;
       if fs = None \<or> opt \<noteq> 1 then Some (FR_OK, g)
       else do {
         ((res, _, _), g) \<leftarrow> find_volume ops path 0 g;
         Some (res, g) } } }"

definition f_chdrive :: "bytes option \<Rightarrow> 'd fat_sys \<Rightarrow> (fresult \<times> 'd fat_sys) option" where
  "f_chdrive path g = do {
     (vol, _) \<leftarrow> get_ldnumber (CurrVol g) path;
     if vol < 0 then Some (FR_INVALID_DRIVE, g)
     else Some (FR_OK, g\<lparr>CurrVol := of_int vol\<rparr>) }"

section \<open>What the parameter block describes\<close>

text \<open>The volume a boot sector describes, in unbounded numbers.\<close>

definition sec_word :: "nat \<Rightarrow> bytes \<Rightarrow> nat" where
  "sec_word off b = unat (le16 (b ! off) (b ! (off + 1)))"

definition sec_dword :: "nat \<Rightarrow> bytes \<Rightarrow> nat" where
  "sec_dword off b = unat (le32 (b ! off) (b ! (off + 1)) (b ! (off + 2)) (b ! (off + 3)))"

definition vol_fatsz :: "bytes \<Rightarrow> nat" where
  "vol_fatsz b = (if sec_word 22 b = 0 then sec_dword 36 b else sec_word 22 b)"

definition vol_total :: "bytes \<Rightarrow> nat" where
  "vol_total b = (if sec_word 19 b = 0 then sec_dword 32 b else sec_word 19 b)"

definition vol_system :: "bytes \<Rightarrow> nat" where
  "vol_system b = sec_word 14 b + unat (b ! 16) * vol_fatsz b + sec_word 17 b div 16"

definition vol_clusters :: "bytes \<Rightarrow> nat" where
  "vol_clusters b = (vol_total b - vol_system b) div unat (b ! 13)"

text \<open>
  What \<open>find_volume\<close> takes for granted: the volume ends below the last sector number, its
  system area does not exceed it, a FAT32 volume has a place for the FSINFO sector before its
  table and no more clusters than 28-bit entries can number.
\<close>

definition sound_bpb :: "u32 \<Rightarrow> bytes \<Rightarrow> bool" where
  "sound_bpb s b \<longleftrightarrow> unat s + vol_total b < 2 ^ 32 - 1 \<and> vol_system b \<le> vol_total b \<and>
     (vol_clusters b \<ge> 65526 \<longrightarrow> sec_word 14 b \<ge> 2 \<and> vol_clusters b + 2 < 0x0FFFFFF8)"

definition bpb_fields :: "u32 \<Rightarrow> bytes \<Rightarrow> 'd fatfs \<Rightarrow> bool" where
  "bpb_fields s b fs \<longleftrightarrow> volbase fs = s \<and> unat (fatbase fs) = unat s + sec_word 14 b \<and>
     unat (database fs) = unat s + vol_system b \<and> unat (fsize fs) = vol_fatsz b \<and> n_fats fs = b ! 16 \<and>
     csize fs = b ! 13 \<and> unat (n_rootdir fs) = sec_word 17 b \<and> unat (n_fatent fs) = vol_clusters b + 2 \<and>
     fs_type fs = (if vol_clusters b \<ge> 65526 then FS_FAT32 else if vol_clusters b \<ge> 4086 then FS_FAT16 else FS_FAT12)"

lemma power_of_2_u8:
  assumes "(c :: u8) \<noteq> 0" and "c AND (c - 1) = 0"
  shows "\<exists>k<8. c = 2 ^ k"
proof -
  have "\<forall>n \<in> set [0..<256]. (of_nat n :: u8) \<noteq> 0 \<longrightarrow> of_nat n AND (of_nat n - 1) = (0 :: u8) \<longrightarrow>
      (\<exists>k \<in> set [0..<8]. (of_nat n :: u8) = 2 ^ k)"
    by code_simp
  then show ?thesis
    using assms u8_less [of c] by (auto dest!: bspec [of _ _ "unat c"])
qed

text \<open>The block as the code reads it, before the checks.\<close>

lemma read_bpb_OK:
  assumes "length (win fs) = 512" and "read_bpb s fs = Some ((FR_OK, fmt), fs')"
  defines "b \<equiv> win fs"
  defines "fasize \<equiv> size_field (le16 (b ! 22) (b ! 23)) (le32 (b ! 36) (b ! 37) (b ! 38) (b ! 39))"
    and "tsect \<equiv> size_field (le16 (b ! 19) (b ! 20)) (le32 (b ! 32) (b ! 33) (b ! 34) (b ! 35))"
    and "nrsv \<equiv> le16 (b ! 14) (b ! 15)" and "nr \<equiv> le16 (b ! 17) (b ! 18)"
  defines "sysect \<equiv> ucast nrsv + fasize * ucast (b ! 16) + ucast (nr div 16) :: u32"
  defines "nclst \<equiv> (tsect - sysect) div ucast (b ! 13)"
  shows "(b ! 16 = 1 \<or> b ! 16 = 2) \<and> b ! 13 \<noteq> 0 \<and> b ! 13 AND (b ! 13 - 1) = 0 \<and> nr mod 16 = 0 \<and> nrsv \<noteq> 0 \<and> nclst \<noteq> 0 \<and>
    fmt = fat_subtype nclst \<and> (fmt = FS_FAT32) = (nr = 0) \<and> \<not> fasize < (needed_fat fmt (nclst + 2) + 511) div 512 \<and>
    fs' = fs\<lparr>fsize := fasize, n_fats := b ! 16, csize := b ! 13, n_rootdir := nr, n_fatent := nclst + 2,
       volbase := s, fatbase := s + ucast nrsv, database := s + sysect, dirbase := dirbase fs'\<rparr> \<and>
    dirbase fs' = (if fmt = FS_FAT32 then le32 (b ! 44) (b ! 45) (b ! 46) (b ! 47) else s + ucast nrsv + fasize * ucast (b ! 16))"
proof -
  have len: "length b = 512" using assms(1) by (simp add: b_def)
  have ld: "LD_WORD BPB_BytsPerSec b = Some (le16 (b ! 11) (b ! 12))" "LD_WORD BPB_FATSz16 b = Some (le16 (b ! 22) (b ! 23))"
    "LD_DWORD BPB_FATSz32 b = Some (le32 (b ! 36) (b ! 37) (b ! 38) (b ! 39))" "get_at BPB_NumFATs b = Some (b ! 16)"
    "get_at BPB_SecPerClus b = Some (b ! 13)" "LD_WORD BPB_RootEntCnt b = Some nr" "LD_WORD BPB_TotSec16 b = Some (le16 (b ! 19) (b ! 20))"
    "LD_DWORD BPB_TotSec32 b = Some (le32 (b ! 32) (b ! 33) (b ! 34) (b ! 35))" "LD_WORD BPB_RsvdSecCnt b = Some nrsv"
    "LD_DWORD BPB_RootClus b = Some (le32 (b ! 44) (b ! 45) (b ! 46) (b ! 47))"
    using len by (simp_all add: LD_WORD_in LD_DWORD_in get_at_in BPB_BytsPerSec_def BPB_FATSz16_def BPB_FATSz32_def BPB_NumFATs_def
      BPB_SecPerClus_def BPB_RootEntCnt_def BPB_TotSec16_def BPB_TotSec32_def BPB_RsvdSecCnt_def BPB_RootClus_def nrsv_def nr_def)
  show ?thesis
    using assms(2) unfolding read_bpb_def b_def [symmetric] ld fasize_def [symmetric] tsect_def [symmetric] bind.bind_lunit
      Let_def sysect_def [symmetric] nclst_def [symmetric]
    by (simp add: fat_limits_def ld [unfolded b_def] Let_def split: if_split_asm) (auto simp: b_def)
qed

lemma u16_less: "unat (x :: u16) < 65536"
  using unsigned_less [of x] by simp

lemma unat_ucast16: "unat (ucast (x :: u16) :: u32) = unat x"
  using u16_less [of x] by (simp add: unsigned_ucast_eq take_bit_nat_eq_self)

text \<open>No sum the code computes wraps on a sound block.\<close>

lemma bpb_sums:
  fixes s tsect fasize :: u32 and nrsv nr :: u16 and nf cs :: u8
  defines "sysect \<equiv> ucast nrsv + fasize * ucast nf + ucast (nr div 16) :: u32"
  defines "sys \<equiv> unat nrsv + unat nf * unat fasize + unat nr div 16"
  assumes "sys \<le> unat tsect" and "cs \<noteq> 0" and "unat s + unat tsect < 2 ^ 32 - 1"
  shows "unat sysect = sys" "unat ((tsect - sysect) div ucast cs :: u32) = (unat tsect - sys) div unat cs"
    "unat (s + ucast nrsv) = unat s + unat nrsv" "unat (s + sysect) = unat s + sys"
    "unat (s + ucast nrsv + fasize * ucast nf) = unat s + unat nrsv + unat nf * unat fasize"
proof -
  have t: "unat tsect < 2 ^ 32" by (rule u32_less)
  have m: "unat (fasize * ucast nf) = unat nf * unat fasize"
    using assms(3) t by (simp add: sys_def unat_word_ariths unat_ucast_u8 mult.commute)
  have r: "unat (ucast (nr div 16) :: u32) = unat nr div 16" by (simp add: unat_ucast16 unat_div)
  show 1: "unat sysect = sys"
    using assms(3) t by (simp add: sysect_def sys_def unat_word_ariths(1) m unat_ucast16 unat_div)
  have "unat (tsect - sysect) = unat tsect - sys"
    using assms(3) 1 by (simp add: unat_sub_if_size word_size)
  then show "unat ((tsect - sysect) div ucast cs :: u32) = (unat tsect - sys) div unat cs"
    by (simp add: unat_div unat_ucast_u8)
  show "unat (s + ucast nrsv) = unat s + unat nrsv" "unat (s + sysect) = unat s + sys"
    "unat (s + ucast nrsv + fasize * ucast nf) = unat s + unat nrsv + unat nf * unat fasize"
    using assms(3,5) 1 by (simp_all add: sys_def unat_word_ariths(1) unat_ucast16 m)
qed

lemma fat_size_needed:
  assumes "n < 0x0FFFFFF8" and "unat c = n" and "ty = FS_FAT12 \<or> ty = FS_FAT16 \<or> ty = FS_FAT32"
    and "\<not> fasize < (needed_fat ty c + 511) div 512"
  shows "fat_size ty n \<le> 512 * unat fasize"
proof -
  have m: "unat (c * 4) = n * 4" "unat (c * 2) = n * 2" "unat (c * 3 div 2 + (c AND 1)) = n * 3 div 2 + n mod 2"
    using assms(1,2) by (simp_all add: unat_word_ariths unat_div and_one_eq unat_mod)
  let ?sz = "needed_fat ty c"
  have sz: "unat ?sz = (if ty = FS_FAT32 then n * 4 else if ty = FS_FAT16 then n * 2 else n * 3 div 2 + n mod 2)"
    using m by (simp add: needed_fat_def)
  then have "unat ?sz < 2 ^ 31" using assms(1) by (simp split: if_splits)
  then have "unat ((?sz + 511) div 512) = (unat ?sz + 511) div 512"
    by (simp add: unat_div unat_word_ariths(1))
  then have "(unat ?sz + 511) div 512 \<le> unat fasize" using assms(4) by (simp add: word_less_nat_alt not_less)
  then have "unat ?sz \<le> 512 * unat fasize" by linarith
  moreover have "(3 * n + 1) div 2 = n * 3 div 2 + n mod 2" by presburger
  ultimately show ?thesis
    using assms(3) unfolding sz by (auto simp: fat_size_def FS_FAT12_def FS_FAT16_def FS_FAT32_def mult.commute split: if_splits)
qed

lemma read_bpb_layout:
  assumes "length (win fs) = 512" and "read_bpb s fs = Some ((FR_OK, fmt), fs')" and "sound_bpb s (win fs)"
  shows "bpb_fields s (win fs) (fs'\<lparr>fs_type := fmt\<rparr>)" "vol_layout (fs'\<lparr>fs_type := fmt\<rparr>)" "dir_layout (fs'\<lparr>fs_type := fmt\<rparr>)"
proof -
  define b where "b = win fs"
  define nrsv where "nrsv = le16 (b ! 14) (b ! 15)"
  define nr where "nr = le16 (b ! 17) (b ! 18)"
  define fasize where "fasize = size_field (le16 (b ! 22) (b ! 23)) (le32 (b ! 36) (b ! 37) (b ! 38) (b ! 39))"
  define tsect where "tsect = size_field (le16 (b ! 19) (b ! 20)) (le32 (b ! 32) (b ! 33) (b ! 34) (b ! 35))"
  define nclst :: u32 where "nclst = (tsect - (ucast nrsv + fasize * ucast (b ! 16) + ucast (nr div 16))) div ucast (b ! 13)"
  note all = read_bpb_OK [OF assms(1,2), folded b_def, folded nrsv_def nr_def fasize_def tsect_def, folded nclst_def]
  have ok: "b ! 16 = 1 \<or> b ! 16 = 2" "b ! 13 \<noteq> 0" "b ! 13 AND (b ! 13 - 1) = 0" "nr mod 16 = 0" "nrsv \<noteq> 0" "nclst \<noteq> 0"
      "fmt = fat_subtype nclst" "(fmt = FS_FAT32) = (nr = 0)" "\<not> fasize < (needed_fat fmt (nclst + 2) + 511) div 512"
    and fs': "fs' = fs\<lparr>fsize := fasize, n_fats := b ! 16, csize := b ! 13, n_rootdir := nr, n_fatent := nclst + 2,
       volbase := s, fatbase := s + ucast nrsv,
       database := s + (ucast nrsv + fasize * ucast (b ! 16) + ucast (nr div 16)), dirbase := dirbase fs'\<rparr>"
    and dirb: "dirbase fs' = (if fmt = FS_FAT32 then le32 (b ! 44) (b ! 45) (b ! 46) (b ! 47) else s + ucast nrsv + fasize * ucast (b ! 16))"
    using all by blast+
  have sz: "sec_word 14 b = unat nrsv" "sec_word 17 b = unat nr" "vol_fatsz b = unat fasize" "vol_total b = unat tsect"
    by (simp_all add: sec_word_def sec_dword_def nrsv_def nr_def vol_fatsz_def vol_total_def fasize_def tsect_def size_field_def
        unat_ucast16 unat_eq_0)
  then have sys: "vol_system b = unat nrsv + unat (b ! 16) * unat fasize + unat nr div 16" by (simp add: vol_system_def)
  have sound: "unat s + unat tsect < 2 ^ 32 - 1" "vol_system b \<le> unat tsect"
      "vol_clusters b \<ge> 65526 \<Longrightarrow> unat nrsv \<ge> 2 \<and> vol_clusters b + 2 < 0x0FFFFFF8"
    using assms(3) sz by (simp_all add: sound_bpb_def b_def)
  note sums = bpb_sums [of nrsv "b ! 16" fasize nr tsect "b ! 13" s, OF sound(2) [unfolded sys] ok(2) sound(1), folded sys, folded nclst_def]
  have ncl: "unat nclst = vol_clusters b" using sums(2) sz by (simp add: vol_clusters_def)
  have small: "vol_clusters b + 2 < 0x0FFFFFF8" using sound(3) by (cases "vol_clusters b \<ge> 65526") simp_all
  then have ent: "unat (nclst + 2) = vol_clusters b + 2" using ncl by (simp add: unat_word_ariths(1))
  have fmt: "fmt = (if vol_clusters b \<ge> 65526 then FS_FAT32 else if vol_clusters b \<ge> 4086 then FS_FAT16 else FS_FAT12)"
    using ok(7) ncl by (simp add: fat_subtype_def MIN_FAT32_def MIN_FAT16_def word_le_nat_alt)
  have f32: "(fmt = FS_FAT32) = (65526 \<le> vol_clusters b)" "(fmt = FS_FAT16) = (4086 \<le> vol_clusters b \<and> vol_clusters b < 65526)"
      "(fmt = FS_FAT12) = (vol_clusters b < 4086)"
    unfolding fmt by (simp_all add: FS_FAT12_def FS_FAT16_def FS_FAT32_def)
  show fields: "bpb_fields s (win fs) (fs'\<lparr>fs_type := fmt\<rparr>)"
    unfolding b_def [symmetric] bpb_fields_def
    by (subst (1 2 3 4 5 6 7 8) fs') (simp add: sums ent sz fmt sys)
  define F where "F = fs'\<lparr>fs_type := fmt\<rparr>"
  have F: "volbase F = s" "unat (fatbase F) = unat s + unat nrsv" "unat (database F) = unat s + vol_system b" "unat (fsize F) = unat fasize"
      "n_fats F = b ! 16" "csize F = b ! 13" "unat (n_rootdir F) = unat nr" "unat (n_fatent F) = vol_clusters b + 2" "fs_type F = fmt"
    using fields sz by (simp_all add: bpb_fields_def F_def b_def)
  have rsv: "1 \<le> unat nrsv" using ok(5) by (simp add: Suc_le_eq unat_gt_0)
  have cl: "vol_clusters b \<noteq> 0" using ok(6) ncl by (simp add: unat_eq_0 flip: ncl)
  have ty: "fmt = FS_FAT12 \<or> fmt = FS_FAT16 \<or> fmt = FS_FAT32" using fmt by simp
  have fasz: "fat_size fmt (vol_clusters b + 2) \<le> 512 * unat fasize"
    by (rule fat_size_needed [OF small ent ty ok(9)])
  have "(vol_total b - vol_system b) div unat (b ! 13) * unat (b ! 13) \<le> vol_total b - vol_system b" by (rule div_times_less_eq_dividend)
  then have top: "unat s + vol_system b + vol_clusters b * unat (b ! 13) < 2 ^ 32 - 1"
    unfolding vol_clusters_def using sound(1,2) sz by linarith
  have s1: "unat (s + 1) = unat s + 1" using sound(1) by (simp add: unat_word_ariths(1))
  have "vol_layout F"
    unfolding vol_layout_def F(1,5,6,9) F(2,3,4,8)
  proof (intro conjI)
    show "s + 1 \<le> fatbase F" "s < fatbase F" using F(2) s1 rsv by (simp_all add: word_le_nat_alt word_less_nat_alt)
    show "fmt = FS_FAT32 \<longrightarrow> s + 1 < fatbase F" using F(2) s1 sound(3) f32 by (auto simp: word_less_nat_alt)
    show "unat s + unat nrsv + unat (b ! 16) * unat fasize \<le> unat s + vol_system b" using sys by simp
    show "vol_clusters b + 2 < (if fmt = FS_FAT12 then 4088 else if fmt = FS_FAT16 then 65528 else 0x0FFFFFF8)"
      using f32 small by auto
    show "2 < n_fatent F" using F(8) cl by (simp add: word_less_nat_alt)
  qed (use ty ok(1,2) fasz top in auto)
  moreover obtain k where "k < 8" "b ! 13 = 2 ^ k" using power_of_2_u8 [OF ok(2,3)] by blast
  moreover have "unat (nr mod 16) = 0" using ok(4) by simp
  then have "unat nr mod 16 = 0" by (simp add: unat_mod)
  moreover have "unat (dirbase F) = unat s + unat nrsv + unat (b ! 16) * unat fasize" if "fmt \<noteq> FS_FAT32"
    using dirb that sums(5) by (simp add: F_def)
  moreover have "n_rootdir F = 0" if "fmt = FS_FAT32" using F(7) ok(8) that by (simp add: unat_eq_0)
  ultimately show "vol_layout (fs'\<lparr>fs_type := fmt\<rparr>)" "dir_layout (fs'\<lparr>fs_type := fmt\<rparr>)"
    unfolding F_def [symmetric] by (auto simp: dir_layout_def F sys)
qed

section \<open>The laws of mounting\<close>

text \<open>
  A clean window during a mount: the fields of the old volume mean nothing yet, so the window
  invariant does not hold; the window is either invalid or holds a sector of the drive.
\<close>

definition clean_win :: "('d \<Rightarrow> bool) \<Rightarrow> ('d \<Rightarrow> u32 \<Rightarrow> bytes) \<Rightarrow> 'd \<Rightarrow> 'd fatfs \<Rightarrow> bool" where
  "clean_win ok img d fs \<longleftrightarrow> ok (dsk fs) \<and> img (dsk fs) = img d \<and> wflag fs = 0 \<and> length (win fs) = 512 \<and>
     (winsect fs \<noteq> 0xFFFFFFFF \<longrightarrow> win fs = img d (winsect fs))"

text \<open>A drive in a state that can be initialised.\<close>

locale mountable_device = block_device ops dno ok img for ops :: "'d disk_ops" and dno and ok and img +
  fixes present :: "'d \<Rightarrow> bool"
  assumes init_law: "present d \<Longrightarrow> returns (drv_initialize ops dno d) (\<lambda>stat d'. stat AND STA_NOINIT = 0 \<longrightarrow> ok d')"

lemma clean_win_upd [simp]:
  "clean_win ok img d (fs\<lparr>free_clust := a\<rparr>) = clean_win ok img d fs"
  "clean_win ok img d (fs\<lparr>last_clust := a\<rparr>) = clean_win ok img d fs"
  "clean_win ok img d (fs\<lparr>fsi_flag := b\<rparr>) = clean_win ok img d fs"
  by (simp_all add: clean_win_def)

context block_device
begin

lemma load_clean:
  assumes "clean_win ok img d fs" and "drv fs = dno"
  shows "returns (move_window ops s fs) (\<lambda>r fs'. same_vol fs fs' \<and> clean_win ok img d fs' \<and>
    (r = FR_OK \<longrightarrow> winsect fs' = s) \<and> (r = FR_OK \<or> r = FR_DISK_ERR))"
proof (cases "s = winsect fs")
  case True
  then show ?thesis using assms(1) by (simp add: move_window_def)
next
  case False
  have ok: "ok (dsk fs)" "length (win fs) = 512 * unat (1 :: u32)" "wflag fs = 0" "img (dsk fs) = img d"
    using assms(1) by (simp_all add: clean_win_def)
  obtain r b' d' where rd: "drv_read ops dno (win fs) s 1 (dsk fs) = Some ((r, b'), d')" "ok d'" "img d' = img (dsk fs)"
      "length b' = length (win fs)" "r = RES_OK \<longrightarrow> b' = sectors (img (dsk fs)) s 1"
    using read_law [OF ok(1) _ ok(2), of s] by (auto simp: returns_iff)
  have sv: "same_vol fs (fs\<lparr>win := b', dsk := d', winsect := t\<rparr>)" for t
    by (rule same_volI [where a = "wflag fs" and b = t and c = b' and d = d']) simp
  show ?thesis
    using False rd ok assms(2) sv by (auto simp: move_window_def sync_window_def clean_win_def Let_def)
qed

lemma check_fs_law:
  assumes "ok (dsk fs)" and "img (dsk fs) = img d" and "length (win fs) = 512" and "drv fs = dno"
  shows "returns (check_fs ops s fs) (\<lambda>r fs'. same_vol fs fs' \<and> clean_win ok img d fs' \<and> (r = 0 \<longrightarrow> winsect fs' = s))"
proof -
  let ?f = "fs\<lparr>wflag := 0, winsect := 0xFFFFFFFF\<rparr>"
  have c: "clean_win ok img d ?f" using assms by (simp add: clean_win_def)
  have sv: "same_vol fs ?f" by (rule same_volI [where a = 0 and b = "0xFFFFFFFF" and c = "win fs" and d = "dsk fs"]) simp
  obtain r fs' where m: "move_window ops s ?f = Some (r, fs')" "same_vol ?f fs'" "clean_win ok img d fs'" "r = FR_OK \<longrightarrow> winsect fs' = s"
    using load_clean [OF c, of s] assms(4) by (auto simp: returns_iff)
  have "length (win fs') = 512" using m(3) by (simp add: clean_win_def)
  then show ?thesis
    using m same_vol_trans [OF sv m(2)]
    by (simp add: check_fs_def LD_WORD_in LD_DWORD_in BS_55AA_def BS_FilSysType_def BS_FilSysType32_def)
qed

lemma clean_winD: "clean_win ok img d fs \<Longrightarrow> ok (dsk fs) \<and> img (dsk fs) = img d \<and> length (win fs) = 512"
  by (simp add: clean_win_def)

lemma part_loop_law:
  assumes "clean_win ok img d fs" and "drv fs = dno" and "br \<noteq> []"
  shows "returns (part_loop ops br fs) (\<lambda>(r, s) fs'. same_vol fs fs' \<and> clean_win ok img d fs' \<and> (r = 0 \<longrightarrow> winsect fs' = s))"
  using assms
proof (induction br arbitrary: fs)
  case (Cons s br)
  obtain r fs1 where c: "(if s \<noteq> 0 then check_fs ops s fs else Some (2, fs)) = Some (r, fs1)" "same_vol fs fs1"
      "clean_win ok img d fs1" "r = 0 \<longrightarrow> winsect fs1 = s"
    using check_fs_law [of fs d s] clean_winD [OF Cons.prems(1)] Cons.prems(1,2) by (cases "s = 0") (auto simp: returns_iff)
  show ?case
  proof (cases "r \<noteq> 0 \<and> br \<noteq> []")
    case True
    then show ?thesis
      using c(1) Cons.IH [OF c(3) _ ] Cons.prems(2) same_vol_trans [OF c(2)] same_vol_sel(2) [OF c(2)]
      by (auto elim!: returns_mono)
  qed (use c in auto)
qed simp

lemma find_boot_law:
  assumes "ok (dsk fs)" and "img (dsk fs) = img d" and "length (win fs) = 512" and "drv fs = dno"
  shows "returns (find_boot ops fs) (\<lambda>(r, s) fs'. same_vol fs fs' \<and> clean_win ok img d fs' \<and> (r = 0 \<longrightarrow> winsect fs' = s))"
proof -
  obtain r fs1 where c: "check_fs ops 0 fs = Some (r, fs1)" "same_vol fs fs1" "clean_win ok img d fs1" "r = 0 \<longrightarrow> winsect fs1 = 0"
    using check_fs_law [OF assms, of 0] by (auto simp: returns_iff)
  have l: "length (win fs1) = 512" and d1: "drv fs1 = dno"
    using c(3) same_vol_sel(2) [OF c(2)] assms(4) by (simp_all add: clean_win_def)
  have ps: "\<exists>x. part_start (win fs1) i = Some x" if "i < 4" for i
    using that l by (simp add: part_start_def get_at_in LD_DWORD_in MBR_Table_def SZ_PTE_def Let_def)
  then obtain b0 b1 b2 b3 where b: "part_start (win fs1) 0 = Some b0" "part_start (win fs1) 1 = Some b1"
      "part_start (win fs1) 2 = Some b2" "part_start (win fs1) 3 = Some b3"
    by (metis ps [of 0, OF zero_less_numeral] ps [of 1] ps [of 2] ps [of 3] one_less_numeral_iff numeral_less_iff
        semiring_norm(76,78,79,80,81))
  show ?thesis
    using c b part_loop_law [OF c(3) d1, of "[b0, b1, b2, b3]"] same_vol_trans [OF c(2)]
    by (auto simp: find_boot_def simp del: part_loop.simps elim!: returns_mono)
qed

lemma load_fsinfo_law:
  assumes "clean_win ok img d fs" and "drv fs = dno"
  shows "returns (load_fsinfo ops s fmt fs) (\<lambda>_ fs'. clean_win ok img d fs' \<and> geom fs' = geom fs)"
proof -
  let ?f = "fs\<lparr>free_clust := 0xFFFFFFFF, last_clust := 0xFFFFFFFF, fsi_flag := 0x80\<rparr>"
  obtain r fs1 where m: "move_window ops (s + 1) ?f = Some (r, fs1)" "same_vol ?f fs1" "clean_win ok img d fs1"
    using load_clean [of d ?f "s + 1"] assms by (auto simp: returns_iff)
  have l: "length (win fs) = 512" "length (win fs1) = 512" using assms(1) m(3) by (simp_all add: clean_win_def)
  show ?thesis
    using m l assms(1) same_vol_sel [OF m(2)]
    by (auto simp: load_fsinfo_def Let_def LD_WORD_in LD_DWORD_in BPB_FSInfo_def BS_55AA_def FSI_LeadSig_def FSI_StrucSig_def
        FSI_Free_Count_def FSI_Nxt_Free_def geom_def)
qed

end

lemma read_bpb_total:
  assumes "length (win fs) = 512"
  shows "\<exists>r fmt fs'. read_bpb s fs = Some ((r, fmt), fs') \<and> (r \<noteq> FR_OK \<longrightarrow> fs_type fs' = fs_type fs)"
  using assms unfolding read_bpb_def fat_limits_def
  by (simp add: LD_WORD_in LD_DWORD_in get_at_in Let_def BPB_BytsPerSec_def BPB_FATSz16_def BPB_FATSz32_def BPB_NumFATs_def
      BPB_SecPerClus_def BPB_RootEntCnt_def BPB_TotSec16_def BPB_TotSec32_def BPB_RsvdSecCnt_def BPB_RootClus_def)

lemma read_bpb_keeps:
  assumes "length (win fs) = 512" and "read_bpb s fs = Some ((FR_OK, fmt), fs')"
  shows "win fs' = win fs" "dsk fs' = dsk fs" "wflag fs' = wflag fs" "winsect fs' = winsect fs" "drv fs' = drv fs"
    "volbase fs' = s" "n_fats fs' \<le> 2" "fmt \<noteq> 0"
proof -
  note all = read_bpb_OK [OF assms]
  note eq = all [THEN conjunct2, THEN conjunct2, THEN conjunct2, THEN conjunct2, THEN conjunct2, THEN conjunct2, THEN conjunct2,
      THEN conjunct2, THEN conjunct2, THEN conjunct1]
  show "win fs' = win fs" "dsk fs' = dsk fs" "wflag fs' = wflag fs" "winsect fs' = winsect fs" "drv fs' = drv fs" "volbase fs' = s"
    by (subst eq, simp)+
  have "n_fats fs' = win fs ! 16" by (subst eq) simp
  then show "n_fats fs' \<le> 2" using all by (auto simp: word_le_nat_alt)
  show "fmt \<noteq> 0" using all by (auto simp: fat_subtype_def FS_FAT12_def FS_FAT16_def FS_FAT32_def)
qed

lemma geom_retype:
  assumes "geom fs' = geom fs"
  shows "vol_layout (fs'\<lparr>fs_type := t, fs_id := i, cdir := c\<rparr>) = vol_layout (fs\<lparr>fs_type := t\<rparr>)"
    "dir_layout (fs'\<lparr>fs_type := t, fs_id := i, cdir := c\<rparr>) = dir_layout (fs\<lparr>fs_type := t\<rparr>)"
    "bpb_fields s b (fs'\<lparr>fs_type := t, fs_id := i, cdir := c\<rparr>) = bpb_fields s b (fs\<lparr>fs_type := t\<rparr>)"
  using assms by (simp_all add: geom_def vol_layout_def dir_layout_def bpb_fields_def)

definition mounted :: "u8 \<Rightarrow> ('d \<Rightarrow> bool) \<Rightarrow> ('d \<Rightarrow> u32 \<Rightarrow> bytes) \<Rightarrow> 'd fatfs \<Rightarrow> bool" where
  "mounted dno ok img fs \<longleftrightarrow> win_inv dno ok img fs \<and> fs_type fs \<noteq> 0 \<and>
     (let b = img (dsk fs) (volbase fs) in
      sound_bpb (volbase fs) b \<longrightarrow> bpb_fields (volbase fs) b fs \<and> vol_layout fs \<and> dir_layout fs)"

context mountable_device
begin

lemma mount_volume_law:
  assumes "present (dsk fs)" and "length (win fs) = 512"
  shows "returns (mount_volume ops dno wmode fsid fs) (\<lambda>r fs'.
    (r = FR_OK \<longrightarrow> mounted dno ok img fs' \<and> fs_id fs' = fsid + 1 \<and> cdir fs' = 0) \<and> (r \<noteq> FR_OK \<longrightarrow> fs_type fs' = 0))"
proof -
  let ?f = "fs\<lparr>fs_type := 0, drv := dno\<rparr>"
  obtain stat d where i: "drv_initialize ops dno (dsk fs) = Some (stat, d)" "stat AND STA_NOINIT = 0 \<Longrightarrow> ok d"
    using init_law [OF assms(1)] by (auto simp: returns_iff)
  show ?thesis
  proof (cases "stat AND STA_NOINIT \<noteq> 0 \<or> wmode \<noteq> 0 \<and> stat AND STA_PROTECT \<noteq> 0")
    case True
    then show ?thesis using i(1) by (auto simp: mount_volume_def Let_def)
  next
    case False
    then have ok: "ok d" using i(2) by simp
    obtain r s fs1 where b: "find_boot ops (?f\<lparr>dsk := d\<rparr>) = Some ((r, s), fs1)" "same_vol (?f\<lparr>dsk := d\<rparr>) fs1"
        "clean_win ok img d fs1" "r = 0 \<longrightarrow> winsect fs1 = s"
      using find_boot_law [of "?f\<lparr>dsk := d\<rparr>" d] ok assms(2) by (auto simp: returns_iff)
    have t1: "fs_type fs1 = 0" "drv fs1 = dno" using same_vol_sel [OF b(2)] by simp_all
    have len: "length (win fs1) = 512" using b(3) by (simp add: clean_win_def)
    obtain res fmt fs2 where p: "read_bpb s fs1 = Some ((res, fmt), fs2)" "res \<noteq> FR_OK \<longrightarrow> fs_type fs2 = fs_type fs1"
      using read_bpb_total [OF len] by blast
    have start: "mount_volume ops dno wmode fsid fs = (if r = 3 then Some (FR_DISK_ERR, fs1) else if r \<noteq> 0 then Some (FR_NO_FILESYSTEM, fs1)
        else if res \<noteq> FR_OK then Some (res, fs2) else do { (_, fs) \<leftarrow> load_fsinfo ops s fmt fs2;
           Some (FR_OK, fs\<lparr>fs_type := fmt, fs_id := fsid + 1, cdir := 0\<rparr>) })"
      using False i(1) b(1) p(1) by (auto simp: mount_volume_def Let_def)
    show ?thesis
    proof (cases "r = 0 \<and> res = FR_OK")
      case False
      then show ?thesis using start t1 p(2) by auto
    next
      case True
      note keep = read_bpb_keeps [OF len p(1) [unfolded True [THEN conjunct2]]]
      have c2: "clean_win ok img d fs2" using b(3) keep by (simp add: clean_win_def)
      have d2: "drv fs2 = dno" using keep t1 by simp
      obtain u fs3 where l: "load_fsinfo ops s fmt fs2 = Some (u, fs3)" "clean_win ok img d fs3" "geom fs3 = geom fs2"
        using load_fsinfo_law [OF c2 d2, of s fmt] by (auto simp: returns_iff)
      let ?g = "fs3\<lparr>fs_type := fmt, fs_id := fsid + 1, cdir := 0\<rparr>"
      have g: "volbase ?g = s" "drv ?g = dno" "n_fats ?g \<le> 2" using geom_sel [OF l(3)] keep t1 by simp_all
      have "win_inv dno ok img ?g"
        using l(2) g by (auto simp: win_inv_def clean_win_def tracked_def)
      moreover have "bpb_fields s b ?g \<and> vol_layout ?g \<and> dir_layout ?g" if "b = img d s" "sound_bpb s b" for b
      proof -
        have "s \<noteq> 0xFFFFFFFF" using that(2) by (auto simp: sound_bpb_def)
        then have "win fs1 = b" using b(3,4) True that(1) by (simp add: clean_win_def)
        then show ?thesis
          using read_bpb_layout [OF len p(1) [unfolded True [THEN conjunct2]]] that(2)
          by (simp add: geom_retype [OF l(3)])
      qed
      moreover have "img (dsk ?g) = img d" using l(2) by (simp add: clean_win_def)
      ultimately have "mounted dno ok img ?g"
        using keep(8) g by (simp add: mounted_def Let_def)
      then show ?thesis using start True l(1) by simp
    qed
  qed
qed

end

section \<open>The drives that can be mounted\<close>

lemma diskio_mountable:
  assumes "sector_card co cok data" and init: "\<And>c. cin c \<Longrightarrow> returns (cd_init co c) (\<lambda>_ c'. cok c')"
  shows "mountable_device (diskio_ops co csd0) 0 (card_ready cok) (\<lambda>d. data (card d)) (\<lambda>d. cin (card d))"
proof (rule mountable_device.intro [OF diskio_block_device [OF assms(1)]], unfold_locales, goal_cases)
  case (1 d)
  then show ?case
    by (auto simp: diskio_ops_def disk_initialize_def card_ready_def CT_SD2_def CT_BLOCK_def Let_def intro: returns_mono [OF init])
qed

interpretation diskio: mountable_device "diskio_ops demo_card []" 0 "card_ready (\<lambda>c. True)" "\<lambda>d s. replicate 512 (ucast s)" "\<lambda>d. True"
  using diskio_mountable [OF demo_sector_card, of "\<lambda>_. True"] by (simp add: demo_card_def)

interpretation ram: mountable_device ram_ops dno ram_ok "\<lambda>d. d" ram_ok
  by unfold_locales (simp add: ram_ops_def)

section \<open>Properties\<close>

lemma on_fs_at: "returns (f (fs_at g a)) (\<lambda>r fs. P r (put_fs a fs g)) \<Longrightarrow> returns (on_fs a f g) P"
  by (auto simp: on_fs_def returns_iff)

lemma fs_at_put: "fs_at (put_fs a fs g) b = (if b = a then fs else (vol_objs g b)\<lparr>dsk := dsk fs\<rparr>)"
  by (simp add: fs_at_def put_fs_def)

text \<open>The drive number of a path is one of the two volumes.\<close>

lemma get_ldnumber_range:
  assumes "get_ldnumber cv path = Some (vol, p)" and "cv < 2"
  shows "- 1 \<le> vol \<and> vol < 2"
proof -
  have cv: "uint cv < 2" using assms(2) by (simp add: word_less_def)
  have two: "uint i < 2" if "i < (2 :: u32)" for i using that by (simp add: word_less_def)
  show ?thesis
    using assms(1) two cv
    by (auto simp: get_ldnumber_def Let_def VOLUMES_def bind_eq_Some_conv split: option.splits if_splits
        intro: order_trans [OF _ unsigned_greater_eq])
qed

text \<open>
  C19: Mounting.  With option 1 \<open>f_mount\<close> binds the object to the drive of the path and reads the
  volume.  FR_OK means that the object satisfies everything the window, table and directory
  operations rely on, for every volume whose parameter block is sound; otherwise the object
  is marked unmounted.  An object that was registered for the drive before is unmounted.
\<close>

theorem f_mount_correct:
  assumes "get_ldnumber (CurrVol g) path = Some (vol, p)" and "0 \<le> vol" and "CurrVol g < 2" and "length (FatFs g) = 2"
    and "mountable_device ops (of_int vol) ok img present" and "present (drives g)" and "length (win (vol_objs g a)) = 512"
  shows "returns (f_mount ops (Some a) path 1 g) (\<lambda>r g'. FatFs g' ! nat vol = Some a \<and>
    (r = FR_OK \<longrightarrow> mounted (of_int vol) ok img (fs_at g' a) \<and> fs_id (fs_at g' a) = Fsid g + 1 \<and> cdir (fs_at g' a) = 0) \<and>
    (r \<noteq> FR_OK \<longrightarrow> fs_type (fs_at g' a) = 0) \<and>
    (\<forall>b. FatFs g ! nat vol = Some b \<longrightarrow> b \<noteq> a \<longrightarrow> fs_type (fs_at g' b) = 0))"
proof -
  have vol: "nat vol < 2" using get_ldnumber_range [OF assms(1,3)] assms(2) by linarith
  define g1 where "g1 = (clear_obj (Some a) (clear_obj (FatFs g ! nat vol) g))\<lparr>FatFs := (FatFs g)[nat vol := Some a]\<rparr>"
  have g1: "CurrVol g1 = CurrVol g" "FatFs g1 ! nat vol = Some a" "length (FatFs g1) = 2" "Fsid g1 = Fsid g" "drives g1 = drives g"
      "fs_type (fs_at g1 a) = 0" "length (win (fs_at g1 a)) = 512" "dsk (fs_at g1 a) = drives g"
      "\<And>b. FatFs g ! nat vol = Some b \<Longrightarrow> fs_type (vol_objs g1 b) = 0"
    using assms(4,7) vol by (auto simp: g1_def clear_obj_def fs_at_def split: option.splits)
  have run: "f_mount ops (Some a) path 1 g = do { ((res, _, _), g) \<leftarrow> find_volume ops path 0 g1; Some (res, g) }"
    using assms(1,2,4) vol
    by (simp add: f_mount_def get_at_in g1_def clear_obj_def split: option.splits)
  have find: "find_volume ops path 0 g1 = do { (res, g) \<leftarrow> on_fs a (mount_volume ops (of_int vol) 0 (Fsid g1)) g1;
      Some ((res, Some a, p), if res = FR_OK then g\<lparr>Fsid := Fsid g + 1\<rparr> else g) }"
    using assms(1,2) g1(1,2,3,6) vol by (simp add: find_volume_def get_at_in Let_def)
  obtain r fs where m: "mount_volume ops (of_int vol) 0 (Fsid g1) (fs_at g1 a) = Some (r, fs)"
      "r = FR_OK \<longrightarrow> mounted (of_int vol) ok img fs \<and> fs_id fs = Fsid g1 + 1 \<and> cdir fs = 0" "r \<noteq> FR_OK \<longrightarrow> fs_type fs = 0"
    using mountable_device.mount_volume_law [OF assms(5), of "fs_at g1 a" 0 "Fsid g1"] assms(6) g1 by (auto simp: returns_iff)
  show ?thesis
    unfolding run find on_fs_def using m g1
    by (auto simp: fs_at_def put_fs_def)
qed

text \<open>
  Unmounting.  After \<open>f_mount\<close> with a null object, no file or directory object of the volume
  is valid any more, whatever its mount number.
\<close>

theorem unmount_invalidates:
  assumes "get_ldnumber (CurrVol g) path = Some (vol, p)" and "0 \<le> vol" and "nat vol < length (FatFs g)"
    and "FatFs g ! nat vol = Some a"
  shows "returns (f_mount ops None path opt g) (\<lambda>r g'. r = FR_OK \<and> FatFs g' ! nat vol = None \<and>
    (\<forall>i. validate ops (Some (Some a, i)) g' = FR_INVALID_OBJECT))"
  using assms by (simp add: f_mount_def get_at_in clear_obj_def validate_def fs_at_def Let_def)

definition demo_sys :: "(u32 \<Rightarrow> bytes) fat_sys" where
  "demo_sys = \<lparr>vol_objs = (\<lambda>_. demo_dirty), FatFs = [None, Some 3], Fsid = 0xFFFF, CurrVol = 0, drives = (\<lambda>s. replicate 512 (ucast s))\<rparr>"

lemma demo_drive_path: "get_ldnumber (CurrVol demo_sys) (Some [0x31, 0x3A, 0]) = Some (1, Some [0])"
  by (simp add: demo_sys_def get_ldnumber_def VOLUMES_def)

theorem f_mount_correct_witness:
  "returns (f_mount ram_ops (Some 7) (Some [0x31, 0x3A, 0]) 1 demo_sys) (\<lambda>r g'. FatFs g' ! 1 = Some 7 \<and>
    (r = FR_OK \<longrightarrow> fs_id (fs_at g' 7) = 0) \<and> fs_type (fs_at g' 3) = 0)"
  by (rule returns_mono [OF f_mount_correct [OF demo_drive_path, of ram_ops ram_ok "\<lambda>d. d" ram_ok 7]])
    (use ram.mountable_device_axioms in \<open>auto simp: demo_sys_def demo_fs_def ram_ok_def\<close>)

theorem unmount_invalidates_witness:
  "returns (f_mount ram_ops None (Some [0x31, 0x3A, 0]) 0 demo_sys) (\<lambda>r g'. validate ram_ops (Some (Some 3, 1)) g' = FR_INVALID_OBJECT)"
  by (rule returns_mono [OF unmount_invalidates [OF demo_drive_path]]) (auto simp: demo_sys_def)

end
