(* ===== verification/Fat_File.thy ===== *)
theory Fat_File
  imports Fat_Volume
begin

text \<open>
  Files of FatFs, \<open>ff.c\<close>: opening, reading, writing, seeking, truncating, flushing and closing.
  A file has a one-sector cache \<open>fp_buf\<close> of its own; whole sectors are transferred directly
  between the drive and the caller's memory.
\<close>

section \<open>State\<close>

record fil =
  fp_fs :: "nat option"
  fp_id :: u16
  fp_flag :: u8
  fp_err :: fresult
  fp_fptr :: u32
  fp_fsize :: u32
  fp_sclust :: u32
  fp_clust :: u32
  fp_dsect :: u32
  fp_dir_sect :: u32
  fp_dir_ptr :: "nat option"
  fp_buf :: bytes

definition FA_READ :: u8 where "FA_READ = 0x01"
definition FA_WRITE :: u8 where "FA_WRITE = 0x02"
definition FA_CREATE_NEW :: u8 where "FA_CREATE_NEW = 0x04"
definition FA_CREATE_ALWAYS :: u8 where "FA_CREATE_ALWAYS = 0x08"
definition FA_OPEN_ALWAYS :: u8 where "FA_OPEN_ALWAYS = 0x10"
definition FA__WRITTEN :: u8 where "FA__WRITTEN = 0x20"
definition FA__DIRTY :: u8 where "FA__DIRTY = 0x40"
definition AM_RDO :: u8 where "AM_RDO = 0x01"
definition DIR_CrtTime :: nat where "DIR_CrtTime = 14"
definition DIR_LstAccDate :: nat where "DIR_LstAccDate = 18"

text \<open>The fixed date of a system without a clock: 1 January 2015.\<close>

definition GET_FATTIME :: u32 where
  "GET_FATTIME = push_bit 25 (2015 - 1980) OR push_bit 21 1 OR push_bit 16 1"

section \<open>The sector cache of a file\<close>

text \<open>Write-back of a dirty cache: \<open>False\<close> when the drive fails.\<close>

definition flush_buf :: "'d disk_ops \<Rightarrow> fil \<Rightarrow> 'd fatfs \<Rightarrow> ((bool \<times> fil) \<times> 'd fatfs) option" where
  "flush_buf ops fp fs =
     (if fp_flag fp AND FA__DIRTY \<noteq> 0 then do {
        (r, d) \<leftarrow> drv_write ops (drv fs) (fp_buf fp) (fp_dsect fp) 1 (dsk fs);
        let fs = fs\<lparr>dsk := d\<rparr>;
        if r \<noteq> RES_OK then Some ((False, fp), fs)
        else Some ((True, fp\<lparr>fp_flag := fp_flag fp AND NOT FA__DIRTY\<rparr>), fs) }
      else Some ((True, fp), fs))"

definition fill_buf :: "'d disk_ops \<Rightarrow> u32 \<Rightarrow> fil \<Rightarrow> 'd fatfs \<Rightarrow> ((bool \<times> fil) \<times> 'd fatfs) option" where
  "fill_buf ops sect fp fs = do {
     ((r, b), d) \<leftarrow> drv_read ops (drv fs) (fp_buf fp) sect 1 (dsk fs);
     Some ((r = RES_OK, fp\<lparr>fp_buf := b\<rparr>), fs\<lparr>dsk := d\<rparr>) }"

definition sect_in_clust :: "u32 \<Rightarrow> 'd fatfs \<Rightarrow> u8" where
  "sect_in_clust ofs fs = ucast ((ofs div 512) AND (ucast (csize fs) - 1))"

section \<open>Reading\<close>

text \<open>The cluster of the file pointer, at a cluster boundary.\<close>

definition read_cluster :: "'d disk_ops \<Rightarrow> fil \<Rightarrow> 'd fatfs \<Rightarrow> ((fresult + fil) \<times> 'd fatfs) option" where
  "read_cluster ops fp fs = do {
     (clst, fs) \<leftarrow> (if fp_fptr fp = 0 then Some (fp_sclust fp, fs) else get_fat ops (fp_clust fp) fs);
     if clst < 2 then Some (Inl FR_INT_ERR, fs)
     else if clst = 0xFFFFFFFF then Some (Inl FR_DISK_ERR, fs)
     else Some (Inr (fp\<lparr>fp_clust := clst\<rparr>), fs) }"

text \<open>Whole sectors, read directly into the caller's memory at \<open>off\<close>.\<close>

definition read_direct :: "'d disk_ops \<Rightarrow> u32 \<Rightarrow> u32 \<Rightarrow> fil \<Rightarrow> nat \<Rightarrow> bytes \<Rightarrow> 'd fatfs \<Rightarrow>
    ((bool \<times> bytes) \<times> 'd fatfs) option" where
  "read_direct ops sect cc fp off buff fs = do {
     m \<leftarrow> get_range off (512 * unat cc) buff;
     ((r, b), d) \<leftarrow> drv_read ops (drv fs) m sect cc (dsk fs);
     buff \<leftarrow> put_range off b buff;
     let fs = fs\<lparr>dsk := d\<rparr>;
     if r \<noteq> RES_OK then Some ((False, buff), fs)
     else if fp_flag fp AND FA__DIRTY \<noteq> 0 \<and> fp_dsect fp - sect < cc then do {
       b \<leftarrow> get_range 0 512 (fp_buf fp);
       buff \<leftarrow> put_range (off + unat (fp_dsect fp - sect) * 512) b buff;
       Some ((True, buff), fs) }
     else Some ((True, buff), fs) }"

text \<open>The bytes up to the end of the cached sector.\<close>

definition read_partial :: "u32 \<Rightarrow> fil \<Rightarrow> nat \<Rightarrow> bytes \<Rightarrow> (u32 \<times> bytes) option" where
  "read_partial btr fp off buff =
     (let rcnt = 512 - fp_fptr fp mod 512; rcnt = (if rcnt > btr then btr else rcnt) in do {
        b \<leftarrow> get_range (unat (fp_fptr fp mod 512)) (unat rcnt) (fp_buf fp);
        buff \<leftarrow> put_range off b buff;
        Some (rcnt, buff) })"

text \<open>One turn of the loop: an error, or the number of bytes read.\<close>

definition read_chunk :: "'d disk_ops \<Rightarrow> u32 \<Rightarrow> fil \<Rightarrow> nat \<Rightarrow> bytes \<Rightarrow> 'd fatfs \<Rightarrow>
    (((fresult + u32) \<times> fil \<times> bytes) \<times> 'd fatfs) option" where
  "read_chunk ops btr fp off buff fs =
     (if fp_fptr fp mod 512 = 0 then do {
        let csect = sect_in_clust (fp_fptr fp) fs;
        (q, fs) \<leftarrow> (if csect = 0 then read_cluster ops fp fs else Some (Inr fp, fs));
        case q of Inl e \<Rightarrow> Some ((Inl e, fp, buff), fs)
        | Inr fp \<Rightarrow>
          (let sect = clust2sect fs (fp_clust fp) in
           if sect = 0 then Some ((Inl FR_INT_ERR, fp, buff), fs)
           else
             let sect = sect + ucast csect; cc = btr div 512 in
             if cc \<noteq> 0 then do {
               let cc = (if ucast csect + cc > ucast (csize fs) then ucast (csize fs) - ucast csect else cc);
               ((ok, buff), fs) \<leftarrow> read_direct ops sect cc fp off buff fs;
               Some ((if ok then Inr (512 * cc) else Inl FR_DISK_ERR, fp, buff), fs) }
             else do {
               ((ok, fp), fs) \<leftarrow> (if fp_dsect fp \<noteq> sect then do {
                   ((ok, fp), fs) \<leftarrow> flush_buf ops fp fs;
                   if ok then fill_buf ops sect fp fs else Some ((False, fp), fs) }
                 else Some ((True, fp), fs));
               if \<not> ok then Some ((Inl FR_DISK_ERR, fp, buff), fs)
               else do {
                 let fp = fp\<lparr>fp_dsect := sect\<rparr>;
                 (rcnt, buff) \<leftarrow> read_partial btr fp off buff;
                 Some ((Inr rcnt, fp, buff), fs) } }) }
      else do {
        (rcnt, buff) \<leftarrow> read_partial btr fp off buff;
        Some ((Inr rcnt, fp, buff), fs) })"

text \<open>The loop; \<open>br\<close> bytes are read.\<close>

partial_function (option) read_file_loop ::
  "'d disk_ops \<Rightarrow> u32 \<Rightarrow> u32 \<Rightarrow> fil \<Rightarrow> bytes \<Rightarrow> 'd fatfs \<Rightarrow> ((fresult \<times> fil \<times> bytes \<times> u32) \<times> 'd fatfs) option" where
  "read_file_loop ops btr br fp buff fs =
     (if btr = 0 then Some ((FR_OK, fp, buff, br), fs)
      else do {
        ((q, fp, buff), fs) \<leftarrow> read_chunk ops btr fp (unat br) buff fs;
        case q of Inl e \<Rightarrow> Some ((e, fp\<lparr>fp_err := e\<rparr>, buff, br), fs)
        | Inr rcnt \<Rightarrow> read_file_loop ops (btr - rcnt) (br + rcnt) (fp\<lparr>fp_fptr := fp_fptr fp + rcnt\<rparr>) buff fs })"

definition valid_file :: "'d disk_ops \<Rightarrow> fil \<Rightarrow> 'd fat_sys \<Rightarrow> fresult" where
  "valid_file ops fp g = validate ops (Some (fp_fs fp, fp_id fp)) g"

definition f_read :: "'d disk_ops \<Rightarrow> fil \<Rightarrow> bytes \<Rightarrow> u32 \<Rightarrow> 'd fat_sys \<Rightarrow> ((fresult \<times> fil \<times> bytes \<times> u32) \<times> 'd fat_sys) option" where
  "f_read ops fp buff btr g =
     (let res = valid_file ops fp g in
      if res \<noteq> FR_OK then Some ((res, fp, buff, 0), g)
      else if fp_err fp \<noteq> FR_OK then Some ((fp_err fp, fp, buff, 0), g)
      else if fp_flag fp AND FA_READ = 0 then Some ((FR_DENIED, fp, buff, 0), g)
      else do {
        a \<leftarrow> fp_fs fp;
        let remain = fp_fsize fp - fp_fptr fp;
        on_fs a (read_file_loop ops (if btr > remain then remain else btr) 0 fp buff) g })"

section \<open>Writing\<close>

text \<open>
  The cluster of the file pointer, at a cluster boundary, allocated if need be: an error
  (FR_OK for a full volume, which ends the transfer), or the file object.
\<close>

definition write_cluster :: "'d disk_ops \<Rightarrow> fil \<Rightarrow> 'd fatfs \<Rightarrow> ((fresult + fil) \<times> 'd fatfs) option" where
  "write_cluster ops fp fs = do {
     (clst, fs) \<leftarrow> (if fp_fptr fp = 0
        then if fp_sclust fp = 0 then create_chain ops 0 fs else Some (fp_sclust fp, fs)
        else create_chain ops (fp_clust fp) fs);
     if clst = 0 then Some (Inl FR_OK, fs)
     else if clst = 1 then Some (Inl FR_INT_ERR, fs)
     else if clst = 0xFFFFFFFF then Some (Inl FR_DISK_ERR, fs)
     else Some (Inr (fp\<lparr>fp_clust := clst, fp_sclust := if fp_sclust fp = 0 then clst else fp_sclust fp\<rparr>), fs) }"

text \<open>Whole sectors, written directly from the caller's memory at \<open>off\<close>.\<close>

definition write_direct :: "'d disk_ops \<Rightarrow> u32 \<Rightarrow> u32 \<Rightarrow> fil \<Rightarrow> nat \<Rightarrow> bytes \<Rightarrow> 'd fatfs \<Rightarrow> ((bool \<times> fil) \<times> 'd fatfs) option" where
  "write_direct ops sect cc fp off buff fs = do {
     m \<leftarrow> get_range off (512 * unat cc) buff;
     (r, d) \<leftarrow> drv_write ops (drv fs) m sect cc (dsk fs);
     let fs = fs\<lparr>dsk := d\<rparr>;
     if r \<noteq> RES_OK then Some ((False, fp), fs)
     else if fp_dsect fp - sect < cc then do {
       m \<leftarrow> get_range (off + unat (fp_dsect fp - sect) * 512) 512 buff;
       b \<leftarrow> put_range 0 m (fp_buf fp);
       Some ((True, fp\<lparr>fp_buf := b, fp_flag := fp_flag fp AND NOT FA__DIRTY\<rparr>), fs) }
     else Some ((True, fp), fs) }"

definition write_partial :: "u32 \<Rightarrow> fil \<Rightarrow> nat \<Rightarrow> bytes \<Rightarrow> (u32 \<times> fil) option" where
  "write_partial btw fp off buff =
     (let wcnt = 512 - fp_fptr fp mod 512; wcnt = (if wcnt > btw then btw else wcnt) in do {
        m \<leftarrow> get_range off (unat wcnt) buff;
        b \<leftarrow> put_range (unat (fp_fptr fp mod 512)) m (fp_buf fp);
        Some (wcnt, fp\<lparr>fp_buf := b, fp_flag := fp_flag fp OR FA__DIRTY\<rparr>) })"

text \<open>One turn of the loop: an error, or the number of bytes written.\<close>

definition write_chunk :: "'d disk_ops \<Rightarrow> u32 \<Rightarrow> fil \<Rightarrow> nat \<Rightarrow> bytes \<Rightarrow> 'd fatfs \<Rightarrow>
    (((fresult + u32) \<times> fil) \<times> 'd fatfs) option" where
  "write_chunk ops btw fp off buff fs =
     (if fp_fptr fp mod 512 = 0 then do {
        let csect = sect_in_clust (fp_fptr fp) fs;
        (q, fs) \<leftarrow> (if csect = 0 then write_cluster ops fp fs else Some (Inr fp, fs));
        case q of Inl e \<Rightarrow> Some ((Inl e, fp), fs)
        | Inr fp \<Rightarrow> do {
            ((ok, fp), fs) \<leftarrow> flush_buf ops fp fs;
            if \<not> ok then Some ((Inl FR_DISK_ERR, fp), fs)
            else
              let sect = clust2sect fs (fp_clust fp) in
              if sect = 0 then Some ((Inl FR_INT_ERR, fp), fs)
              else
                let sect = sect + ucast csect; cc = btw div 512 in
                if cc \<noteq> 0 then do {
                  let cc = (if ucast csect + cc > ucast (csize fs) then ucast (csize fs) - ucast csect else cc);
                  ((ok, fp), fs) \<leftarrow> write_direct ops sect cc fp off buff fs;
                  Some ((if ok then Inr (512 * cc) else Inl FR_DISK_ERR, fp), fs) }
                else do {
                  ((ok, fp), fs) \<leftarrow> (if fp_dsect fp \<noteq> sect \<and> fp_fptr fp < fp_fsize fp then fill_buf ops sect fp fs
                    else Some ((True, fp), fs));
                  if \<not> ok then Some ((Inl FR_DISK_ERR, fp), fs)
                  else do {
                    (wcnt, fp) \<leftarrow> write_partial btw (fp\<lparr>fp_dsect := sect\<rparr>) off buff;
                    Some ((Inr wcnt, fp), fs) } } } }
      else do {
        (wcnt, fp) \<leftarrow> write_partial btw fp off buff;
        Some ((Inr wcnt, fp), fs) })"

text \<open>The loop, with \<open>bw\<close> bytes written; \<open>Inl FR_OK\<close> leaves it for a full volume.\<close>

partial_function (option) write_file_loop ::
  "'d disk_ops \<Rightarrow> u32 \<Rightarrow> u32 \<Rightarrow> fil \<Rightarrow> bytes \<Rightarrow> 'd fatfs \<Rightarrow> ((fresult \<times> fil \<times> u32) \<times> 'd fatfs) option" where
  "write_file_loop ops btw bw fp buff fs =
     (if btw = 0 then Some ((FR_OK, fp, bw), fs)
      else do {
        ((q, fp), fs) \<leftarrow> write_chunk ops btw fp (unat bw) buff fs;
        case q of Inl e \<Rightarrow> Some ((e, if e = FR_OK then fp else fp\<lparr>fp_err := e\<rparr>, bw), fs)
        | Inr wcnt \<Rightarrow> write_file_loop ops (btw - wcnt) (bw + wcnt) (fp\<lparr>fp_fptr := fp_fptr fp + wcnt\<rparr>) buff fs })"

definition f_write :: "'d disk_ops \<Rightarrow> fil \<Rightarrow> bytes \<Rightarrow> u32 \<Rightarrow> 'd fat_sys \<Rightarrow> ((fresult \<times> fil \<times> u32) \<times> 'd fat_sys) option" where
  "f_write ops fp buff btw g =
     (let res = valid_file ops fp g in
      if res \<noteq> FR_OK then Some ((res, fp, 0), g)
      else if fp_err fp \<noteq> FR_OK then Some ((fp_err fp, fp, 0), g)
      else if fp_flag fp AND FA_WRITE = 0 then Some ((FR_DENIED, fp, 0), g)
      else do {
        a \<leftarrow> fp_fs fp;
        ((res, fp, bw), g) \<leftarrow> on_fs a (write_file_loop ops (if fp_fptr fp + btw < fp_fptr fp then 0 else btw) 0 fp buff) g;
        if res \<noteq> FR_OK then Some ((res, fp, bw), g)
        else Some ((FR_OK, fp\<lparr>fp_fsize := if fp_fptr fp > fp_fsize fp then fp_fptr fp else fp_fsize fp,
          fp_flag := fp_flag fp OR FA__WRITTEN\<rparr>, bw), g) })"

section \<open>Flushing and closing\<close>

text \<open>The directory entry of the file, in the window: archive bit, size, start cluster, times.\<close>

definition store_entry :: "nat \<Rightarrow> fil \<Rightarrow> bytes \<Rightarrow> bytes option" where
  "store_entry dir fp w = do {
     a \<leftarrow> get_at (dir + DIR_Attr) w;
     w \<leftarrow> put_at (dir + DIR_Attr) (a OR AM_ARC) w;
     w \<leftarrow> ST_DWORD (dir + DIR_FileSize) (fp_fsize fp) w;
     w \<leftarrow> st_clust dir (fp_sclust fp) w;
     w \<leftarrow> ST_DWORD (dir + DIR_WrtTime) GET_FATTIME w;
     ST_WORD (dir + DIR_LstAccDate) 0 w }"

definition sync_file :: "'d disk_ops \<Rightarrow> fil \<Rightarrow> 'd fatfs \<Rightarrow> ((fresult \<times> fil) \<times> 'd fatfs) option" where
  "sync_file ops fp fs =
     (if fp_flag fp AND FA__WRITTEN = 0 then Some ((FR_OK, fp), fs)
      else do {
        ((ok, fp), fs) \<leftarrow> flush_buf ops fp fs;
        if \<not> ok then Some ((FR_DISK_ERR, fp), fs)
        else do {
          (res, fs) \<leftarrow> move_window ops (fp_dir_sect fp) fs;
          if res \<noteq> FR_OK then Some ((res, fp), fs)
          else do {
            dir \<leftarrow> fp_dir_ptr fp;
            w \<leftarrow> store_entry dir fp (win fs);
            let fp = fp\<lparr>fp_flag := fp_flag fp AND NOT FA__WRITTEN\<rparr>;
            (res, fs) \<leftarrow> sync_fs ops (fs\<lparr>win := w, wflag := 1\<rparr>);
            Some ((res, fp), fs) } } })"

definition f_sync :: "'d disk_ops \<Rightarrow> fil \<Rightarrow> 'd fat_sys \<Rightarrow> ((fresult \<times> fil) \<times> 'd fat_sys) option" where
  "f_sync ops fp g =
     (let res = valid_file ops fp g in
      if res \<noteq> FR_OK then Some ((res, fp), g)
      else do { a \<leftarrow> fp_fs fp; on_fs a (sync_file ops fp) g })"

definition f_close :: "'d disk_ops \<Rightarrow> fil \<Rightarrow> 'd fat_sys \<Rightarrow> ((fresult \<times> fil) \<times> 'd fat_sys) option" where
  "f_close ops fp g = do {
     ((res, fp), g) \<leftarrow> f_sync ops fp g;
     if res \<noteq> FR_OK then Some ((res, fp), g)
     else
       let res = valid_file ops fp g in
       Some ((res, if res = FR_OK then fp\<lparr>fp_fs := None\<rparr> else fp), g) }"

section \<open>Seeking\<close>

text \<open>
  Following the chain from cluster \<open>clst\<close> (also stored in the object) while more than a
  cluster is left: an error, or the object, the cluster and the bytes left.
\<close>

partial_function (option) seek_loop ::
  "'d disk_ops \<Rightarrow> u32 \<Rightarrow> u32 \<Rightarrow> u32 \<Rightarrow> fil \<Rightarrow> 'd fatfs \<Rightarrow> ((fresult option \<times> fil \<times> u32 \<times> u32) \<times> 'd fatfs) option" where
  "seek_loop ops bcs ofs clst fp fs =
     (if ofs > bcs then do {
        (clst, fs) \<leftarrow> (if fp_flag fp AND FA_WRITE \<noteq> 0 then create_chain ops clst fs else get_fat ops clst fs);
        if fp_flag fp AND FA_WRITE \<noteq> 0 \<and> clst = 0 then Some ((None, fp, clst, bcs), fs)
        else if clst = 0xFFFFFFFF then Some ((Some FR_DISK_ERR, fp, clst, ofs), fs)
        else if clst \<le> 1 \<or> clst \<ge> n_fatent fs then Some ((Some FR_INT_ERR, fp, clst, ofs), fs)
        else seek_loop ops bcs (ofs - bcs) clst (fp\<lparr>fp_clust := clst, fp_fptr := fp_fptr fp + bcs\<rparr>) fs }
      else Some ((None, fp, clst, ofs), fs))"

text \<open>The start of a seek to \<open>ofs\<close> from the old pointer: an error, or the cluster and the bytes left.\<close>

definition seek_start :: "'d disk_ops \<Rightarrow> u32 \<Rightarrow> u32 \<Rightarrow> u32 \<Rightarrow> fil \<Rightarrow> 'd fatfs \<Rightarrow> ((fresult option \<times> fil \<times> u32 \<times> u32) \<times> 'd fatfs) option" where
  "seek_start ops bcs ofs ifptr fp fs =
     (if ifptr > 0 \<and> (ofs - 1) div bcs \<ge> (ifptr - 1) div bcs then
        (let p = (ifptr - 1) AND NOT (bcs - 1) in
         Some ((None, fp\<lparr>fp_fptr := p\<rparr>, fp_clust fp, ofs - p), fs))
      else do {
        ((err, clst, fp), fs) \<leftarrow> (if fp_sclust fp = 0 then do {
             (clst, fs) \<leftarrow> create_chain ops 0 fs;
             if clst = 1 then Some ((Some FR_INT_ERR, clst, fp), fs)
             else if clst = 0xFFFFFFFF then Some ((Some FR_DISK_ERR, clst, fp), fs)
             else Some ((None, clst, fp\<lparr>fp_sclust := clst\<rparr>), fs) }
           else Some ((None, fp_sclust fp, fp), fs));
        if err \<noteq> None then Some ((err, fp, clst, ofs), fs)
        else Some ((None, fp\<lparr>fp_clust := clst\<rparr>, clst, ofs), fs) })"

text \<open>The new position, from the object with pointer 0: an error, or the sector to load (0 for none).\<close>

definition seek_to :: "'d disk_ops \<Rightarrow> u32 \<Rightarrow> u32 \<Rightarrow> fil \<Rightarrow> 'd fatfs \<Rightarrow> (((fresult + u32) \<times> fil) \<times> 'd fatfs) option" where
  "seek_to ops ofs ifptr fp fs =
     (if ofs = 0 then Some ((Inr 0, fp), fs)
      else do {
        let bcs = ucast (csize fs) * 512;
        ((err, fp, clst, ofs), fs) \<leftarrow> seek_start ops bcs ofs ifptr fp fs;
        case err of Some e \<Rightarrow> Some ((Inl e, fp), fs)
        | None \<Rightarrow>
          if clst = 0 then Some ((Inr 0, fp), fs)
          else do {
            ((err, fp, clst, ofs), fs) \<leftarrow> seek_loop ops bcs ofs clst fp fs;
            case err of Some e \<Rightarrow> Some ((Inl e, fp), fs)
            | None \<Rightarrow>
              (let fp = fp\<lparr>fp_fptr := fp_fptr fp + ofs\<rparr> in
               if ofs mod 512 = 0 then Some ((Inr 0, fp), fs)
               else
                 let nsect = clust2sect fs clst in
                 Some ((if nsect = 0 then Inl FR_INT_ERR else Inr (nsect + ofs div 512), fp), fs)) } })"

definition seek_file :: "'d disk_ops \<Rightarrow> u32 \<Rightarrow> fil \<Rightarrow> 'd fatfs \<Rightarrow> ((fresult \<times> fil) \<times> 'd fatfs) option" where
  "seek_file ops ofs fp fs = do {
     let ofs = (if ofs > fp_fsize fp \<and> fp_flag fp AND FA_WRITE = 0 then fp_fsize fp else ofs);
     ((q, fp), fs) \<leftarrow> seek_to ops ofs (fp_fptr fp) (fp\<lparr>fp_fptr := 0\<rparr>) fs;
     case q of Inl e \<Rightarrow> Some ((e, fp\<lparr>fp_err := e\<rparr>), fs)
     | Inr nsect \<Rightarrow> do {
         ((ok, fp), fs) \<leftarrow> (if fp_fptr fp mod 512 \<noteq> 0 \<and> nsect \<noteq> fp_dsect fp then do {
             ((ok, fp), fs) \<leftarrow> flush_buf ops fp fs;
             if ok then do {
               ((ok, fp), fs) \<leftarrow> fill_buf ops nsect fp fs;
               Some ((ok, if ok then fp\<lparr>fp_dsect := nsect\<rparr> else fp), fs) }
             else Some ((False, fp), fs) }
           else Some ((True, fp), fs));
         if \<not> ok then Some ((FR_DISK_ERR, fp\<lparr>fp_err := FR_DISK_ERR\<rparr>), fs)
         else if fp_fptr fp > fp_fsize fp
         then Some ((FR_OK, fp\<lparr>fp_fsize := fp_fptr fp, fp_flag := fp_flag fp OR FA__WRITTEN\<rparr>), fs)
         else Some ((FR_OK, fp), fs) } }"

definition f_lseek :: "'d disk_ops \<Rightarrow> fil \<Rightarrow> u32 \<Rightarrow> 'd fat_sys \<Rightarrow> ((fresult \<times> fil) \<times> 'd fat_sys) option" where
  "f_lseek ops fp ofs g =
     (let res = valid_file ops fp g in
      if res \<noteq> FR_OK then Some ((res, fp), g)
      else if fp_err fp \<noteq> FR_OK then Some ((fp_err fp, fp), g)
      else do { a \<leftarrow> fp_fs fp; on_fs a (seek_file ops ofs fp) g })"

section \<open>Truncating\<close>

definition truncate_file :: "'d disk_ops \<Rightarrow> fil \<Rightarrow> 'd fatfs \<Rightarrow> ((fresult \<times> fil) \<times> 'd fatfs) option" where
  "truncate_file ops fp fs =
     (if fp_fsize fp \<le> fp_fptr fp then Some ((FR_OK, fp), fs)
      else do {
        let fp = fp\<lparr>fp_fsize := fp_fptr fp, fp_flag := fp_flag fp OR FA__WRITTEN\<rparr>;
        ((res, fp), fs) \<leftarrow> (if fp_fptr fp = 0 then do {
             (res, fs) \<leftarrow> remove_chain ops (fp_sclust fp) fs;
             Some ((res, fp\<lparr>fp_sclust := 0\<rparr>), fs) }
           else do {
             (ncl, fs) \<leftarrow> get_fat ops (fp_clust fp) fs;
             let res = (if ncl = 1 then FR_INT_ERR else if ncl = 0xFFFFFFFF then FR_DISK_ERR else FR_OK);
             if res = FR_OK \<and> ncl < n_fatent fs then do {
               (res, fs) \<leftarrow> put_fat ops (fp_clust fp) 0x0FFFFFFF fs;
               (res, fs) \<leftarrow> (if res = FR_OK then remove_chain ops ncl fs else Some (res, fs));
               Some ((res, fp), fs) }
             else Some ((res, fp), fs) });
        ((res, fp), fs) \<leftarrow> (if res = FR_OK then do {
             ((ok, fp), fs) \<leftarrow> flush_buf ops fp fs;
             Some ((if ok then res else FR_DISK_ERR, fp), fs) }
           else Some ((res, fp), fs));
        Some ((res, fp), fs) })"

definition f_truncate :: "'d disk_ops \<Rightarrow> fil \<Rightarrow> 'd fat_sys \<Rightarrow> ((fresult \<times> fil) \<times> 'd fat_sys) option" where
  "f_truncate ops fp g =
     (let res = valid_file ops fp g;
          res = (if res = FR_OK then
            if fp_err fp \<noteq> FR_OK then fp_err fp else if fp_flag fp AND FA_WRITE = 0 then FR_DENIED else FR_OK
            else res) in
      if res \<noteq> FR_OK then Some ((res, fp), g)
      else do {
        a \<leftarrow> fp_fs fp;
        ((res, fp), g) \<leftarrow> on_fs a (truncate_file ops fp) g;
        Some ((res, if res \<noteq> FR_OK then fp\<lparr>fp_err := res\<rparr> else fp), g) })"

section \<open>Opening\<close>

text \<open>Emptying the entry at \<open>dir\<close> of the window, and releasing its clusters.\<close>

definition truncate_entry :: "'d disk_ops \<Rightarrow> nat \<Rightarrow> 'd fatfs \<Rightarrow> (fresult \<times> 'd fatfs) option" where
  "truncate_entry ops dir fs = do {
     w \<leftarrow> ST_DWORD (dir + DIR_CrtTime) GET_FATTIME (win fs);
     w \<leftarrow> ST_DWORD (dir + DIR_WrtTime) GET_FATTIME w;
     w \<leftarrow> put_at (dir + DIR_Attr) 0 w;
     w \<leftarrow> ST_DWORD (dir + DIR_FileSize) 0 w;
     cl \<leftarrow> ld_clust (fs\<lparr>win := w\<rparr>) dir;
     w \<leftarrow> st_clust dir 0 w;
     let fs = fs\<lparr>win := w, wflag := 1\<rparr>;
     if cl = 0 then Some (FR_OK, fs)
     else do {
       let dw = winsect fs;
       (res, fs) \<leftarrow> remove_chain ops cl fs;
       if res \<noteq> FR_OK then Some (res, fs)
       else move_window ops dw (fs\<lparr>last_clust := cl - 1\<rparr>) } }"

text \<open>The entry to open: the result, the directory object and the mode.\<close>

definition open_entry :: "'d disk_ops \<Rightarrow> u8 \<Rightarrow> fresult \<Rightarrow> fdir \<Rightarrow> 'd fatfs \<Rightarrow> ((fresult \<times> fdir \<times> u8) \<times> 'd fatfs) option" where
  "open_entry ops mode res dj fs =
     (if mode AND (FA_CREATE_ALWAYS OR FA_OPEN_ALWAYS OR FA_CREATE_NEW) \<noteq> 0 then do {
        ((res, dj, mode), fs) \<leftarrow> (if res \<noteq> FR_OK then do {
             ((res, dj), fs) \<leftarrow> (if res = FR_NO_FILE then dir_register ops dj fs else Some ((res, dj), fs));
             Some ((res, dj, mode OR FA_CREATE_ALWAYS), fs) }
           else do {
             dir \<leftarrow> dj_dir dj;
             a \<leftarrow> get_at (dir + DIR_Attr) (win fs);
             Some ((if a AND (AM_RDO OR AM_DIR) \<noteq> 0 then FR_DENIED
               else if mode AND FA_CREATE_NEW \<noteq> 0 then FR_EXIST else res, dj, mode), fs) });
        if res = FR_OK \<and> mode AND FA_CREATE_ALWAYS \<noteq> 0 then do {
          dir \<leftarrow> dj_dir dj;
          (res, fs) \<leftarrow> truncate_entry ops dir fs;
          Some ((res, dj, mode), fs) }
        else Some ((res, dj, mode), fs) }
      else if res = FR_OK then do {
        dir \<leftarrow> dj_dir dj;
        a \<leftarrow> get_at (dir + DIR_Attr) (win fs);
        Some ((if a AND AM_DIR \<noteq> 0 then FR_NO_FILE
          else if mode AND FA_WRITE \<noteq> 0 \<and> a AND AM_RDO \<noteq> 0 then FR_DENIED else res, dj, mode), fs) }
      else Some ((res, dj, mode), fs))"

text \<open>A directory object on the stack of the caller, for the file system object at \<open>a\<close>; \<open>fn\<close> is its name buffer.\<close>

definition local_dir :: "nat \<Rightarrow> bytes \<Rightarrow> fdir" where
  "local_dir a fn = \<lparr>dj_fs = Some a, dj_id = 0, dj_index = 0, dj_sclust = 0, dj_clust = 0, dj_sect = 0, dj_dir = None, dj_fn = fn\<rparr>"

definition open_file :: "'d disk_ops \<Rightarrow> nat \<Rightarrow> bytes \<Rightarrow> u8 \<Rightarrow> fdir \<Rightarrow> fil \<Rightarrow> 'd fatfs \<Rightarrow> ((fresult \<times> fil) \<times> 'd fatfs) option" where
  "open_file ops a path mode dj fp fs = do {
     ((res, dj), fs) \<leftarrow> follow_path ops dj path fs;
     ((res, dj, mode), fs) \<leftarrow> open_entry ops mode (if res = FR_OK \<and> dj_dir dj = None then FR_INVALID_NAME else res) dj fs;
     if res \<noteq> FR_OK then Some ((res, fp), fs)
     else do {
       dir \<leftarrow> dj_dir dj;
       cl \<leftarrow> ld_clust fs dir;
       sz \<leftarrow> LD_DWORD (dir + DIR_FileSize) (win fs);
       let mode = (if mode AND FA_CREATE_ALWAYS \<noteq> 0 then mode OR FA__WRITTEN else mode);
       Some ((FR_OK, fp\<lparr>fp_dir_sect := winsect fs, fp_dir_ptr := Some dir, fp_flag := mode, fp_err := FR_OK, fp_sclust := cl,
         fp_fsize := sz, fp_fptr := 0, fp_dsect := 0, fp_fs := Some a, fp_id := fs_id fs\<rparr>), fs) } }"

text \<open>\<open>fn\<close> is the uninitialised name buffer of the function.\<close>

definition f_open :: "'d disk_ops \<Rightarrow> bytes \<Rightarrow> fil option \<Rightarrow> bytes option \<Rightarrow> u8 \<Rightarrow> 'd fat_sys \<Rightarrow>
    ((fresult \<times> fil option) \<times> 'd fat_sys) option" where
  "f_open ops fn fp path mode g =
     (case fp of None \<Rightarrow> Some ((FR_INVALID_OBJECT, None), g)
      | Some fp \<Rightarrow> do {
          let fp = fp\<lparr>fp_fs := None\<rparr>;
          let mode = mode AND (FA_READ OR FA_WRITE OR FA_CREATE_ALWAYS OR FA_OPEN_ALWAYS OR FA_CREATE_NEW);
          ((res, rfs, path), g) \<leftarrow> find_volume ops path (mode AND NOT FA_READ) g;
          if res \<noteq> FR_OK then Some ((res, Some fp), g)
          else do {
            a \<leftarrow> rfs;
            p \<leftarrow> path;
            ((res, fp), g) \<leftarrow> on_fs a (open_file ops a p mode (local_dir a fn) fp) g;
            Some ((res, Some fp), g) } })"

end
