(* ===== verification/Fat_Read.thy ===== *)
theory Fat_Read
  imports Fat_File
begin

text \<open>
  Reading a file is reading the sequence of bytes its cluster chain holds.  The contents of an
  open file are defined from the allocation table, the drive and the sector cache of the
  file; \<open>f_read\<close> is shown to deliver them.
\<close>

section \<open>The contents of an open file\<close>

text \<open>Sector \<open>k\<close> of the chain that starts at \<open>sc\<close>.\<close>

definition fclust :: "('d \<Rightarrow> u32 \<Rightarrow> bytes) \<Rightarrow> 'd fatfs \<Rightarrow> u32 \<Rightarrow> nat \<Rightarrow> u32 option" where
  "fclust img fs sc k = nth_cluster (fat_entry img fs) (n_fatent fs) k sc"

definition fsect :: "('d \<Rightarrow> u32 \<Rightarrow> bytes) \<Rightarrow> 'd fatfs \<Rightarrow> u32 \<Rightarrow> nat \<Rightarrow> u32 option" where
  "fsect img fs sc k = map_option (\<lambda>c. clust2sect fs c + of_nat (k mod unat (csize fs))) (fclust img fs sc (k div unat (csize fs)))"

definition fsects :: "('d \<Rightarrow> u32 \<Rightarrow> bytes) \<Rightarrow> 'd fatfs \<Rightarrow> u32 \<Rightarrow> u32 set" where
  "fsects img fs sc = {s. \<exists>k. fsect img fs sc k = Some s}"

abbreviation dirty :: "fil \<Rightarrow> bool" where "dirty fp \<equiv> fp_flag fp AND FA__DIRTY \<noteq> 0"

text \<open>A sector of the file: a dirty cache hides what is on the drive.\<close>

definition fdata :: "('d \<Rightarrow> u32 \<Rightarrow> bytes) \<Rightarrow> 'd fatfs \<Rightarrow> fil \<Rightarrow> u32 \<Rightarrow> bytes" where
  "fdata img fs fp s = (if dirty fp \<and> s = fp_dsect fp then fp_buf fp else img (dsk fs) s)"

definition fbyte :: "('d \<Rightarrow> u32 \<Rightarrow> bytes) \<Rightarrow> 'd fatfs \<Rightarrow> fil \<Rightarrow> nat \<Rightarrow> u8" where
  "fbyte img fs fp i = fdata img fs fp (the (fsect img fs (fp_sclust fp) (i div 512))) ! (i mod 512)"

definition fbytes :: "('d \<Rightarrow> u32 \<Rightarrow> bytes) \<Rightarrow> 'd fatfs \<Rightarrow> fil \<Rightarrow> nat \<Rightarrow> nat \<Rightarrow> bytes" where
  "fbytes img fs fp off n = map (fbyte img fs fp) [off..<off + n]"

text \<open>
  A file object between two calls.  The chain reaches the end of the file, a loaded cache holds
  the sector it names, a dirty cache belongs to the file, and the window holds no sector of the
  file.  At position \<open>p\<close> the current cluster is that of the byte before, and inside a sector
  the cache holds that sector.
\<close>

definition fil_base :: "('d \<Rightarrow> u32 \<Rightarrow> bytes) \<Rightarrow> 'd fatfs \<Rightarrow> fil \<Rightarrow> bool" where
  "fil_base img fs fp \<longleftrightarrow> length (fp_buf fp) = 512 \<and>
     (\<forall>k. 512 * k < unat (fp_fsize fp) \<longrightarrow> fsect img fs (fp_sclust fp) k \<noteq> None) \<and>
     (fp_dsect fp \<noteq> 0 \<longrightarrow> fp_dsect fp \<in> fsects img fs (fp_sclust fp) \<and> fp_buf fp = fdata img fs fp (fp_dsect fp)) \<and>
     (dirty fp \<longrightarrow> fp_dsect fp \<in> fsects img fs (fp_sclust fp)) \<and>
     winsect fs \<notin> fsects img fs (fp_sclust fp)"

definition fil_at :: "('d \<Rightarrow> u32 \<Rightarrow> bytes) \<Rightarrow> 'd fatfs \<Rightarrow> fil \<Rightarrow> nat \<Rightarrow> bool" where
  "fil_at img fs fp p \<longleftrightarrow> p \<le> unat (fp_fsize fp) \<and>
     (p \<noteq> 0 \<longrightarrow> fclust img fs (fp_sclust fp) ((p - 1) div 512 div unat (csize fs)) = Some (fp_clust fp)) \<and>
     (p mod 512 \<noteq> 0 \<longrightarrow> fsect img fs (fp_sclust fp) (p div 512) = Some (fp_dsect fp))"

definition fil_inv :: "('d \<Rightarrow> u32 \<Rightarrow> bytes) \<Rightarrow> 'd fatfs \<Rightarrow> fil \<Rightarrow> bool" where
  "fil_inv img fs fp \<longleftrightarrow> fil_base img fs fp \<and> fil_at img fs fp (unat (fp_fptr fp))"

lemma fsect_valid:
  assumes "vol_layout fs" and "fsect img fs sc k = Some s"
  shows "tracked fs s" "\<not> fat_area fs s" "s \<noteq> 0"
proof -
  obtain c where c: "fclust img fs sc (k div unat (csize fs)) = Some c" "s = clust2sect fs c + of_nat (k mod unat (csize fs))"
    using assms(2) by (auto simp: fsect_def)
  have v: "2 \<le> c" "c < n_fatent fs" using nth_cluster_valid c(1) by (auto simp: fclust_def)
  have lt: "k mod unat (csize fs) < unat (csize fs)" using assms(1) by (simp add: vol_layout_def unat_gt_0)
  show "tracked fs s" "\<not> fat_area fs s" using cluster_sector_tracked [OF assms(1) v lt] c(2) by simp_all
  have "0 < unat (fatbase fs)" "unat (fatbase fs) \<le> unat (database fs)"
    using assms(1) by (auto simp: vol_layout_def word_less_nat_alt)
  then show "s \<noteq> 0" using cluster_sector_bounds(1) [OF assms(1) v lt] c(2) by auto
qed

lemma fsects_valid: "vol_layout fs \<Longrightarrow> s \<in> fsects img fs sc \<Longrightarrow> tracked fs s \<and> \<not> fat_area fs s \<and> s \<noteq> 0"
  using fsect_valid by (fastforce simp: fsects_def)

section \<open>Steps that leave the rest of the volume alone\<close>

definition quiet :: "('d \<Rightarrow> u32 \<Rightarrow> bytes) \<Rightarrow> u32 set \<Rightarrow> 'd fatfs \<Rightarrow> 'd fatfs \<Rightarrow> bool" where
  "quiet img S fs fs' \<longleftrightarrow> same_vol fs fs' \<and> winsect fs' \<notin> S \<and>
     (\<forall>t. tracked fs t \<longrightarrow> t \<notin> S \<longrightarrow> view img fs' t = view img fs t)"

lemma quiet_refl: "winsect fs \<notin> S \<Longrightarrow> quiet img S fs fs"
  by (simp add: quiet_def)

lemma quiet_trans [trans]: "quiet img S a b \<Longrightarrow> quiet img S b c \<Longrightarrow> quiet img S a c"
  unfolding quiet_def using same_vol_trans same_vol_sel(18) by metis

lemma quiet_layout: "quiet img S fs fs' \<Longrightarrow> vol_layout fs' = vol_layout fs" "quiet img S fs fs' \<Longrightarrow> dir_layout fs' = dir_layout fs"
  by (simp_all add: quiet_def layout_same_vol dir_layout_same_vol)

lemma quiet_fsect:
  assumes "quiet img (fsects img fs sc) fs fs'" and "vol_layout fs"
  shows "fclust img fs' = fclust img fs" "fsect img fs' = fsect img fs" "fsects img fs' = fsects img fs"
proof -
  have sv: "same_vol fs fs'" using assms(1) by (simp add: quiet_def)
  have "fat_bytes img fs' k = fat_bytes img fs k" if "k < 512 * unat (fsize fs)" for k
  proof -
    let ?t = "fatbase fs + of_nat (k div 512)"
    have "of_nat (k div 512) < fsize fs"
      using fat_sector_unat(2) [OF assms(2) that] u32_less [of "fsize fs"] by (simp add: word_less_nat_alt unat_of_nat_small)
    then have "fat_area fs ?t" by (simp add: fat_area_def)
    then have "?t \<notin> fsects img fs sc" using fsects_valid [OF assms(2)] by blast
    then show ?thesis
      using assms(1) fat_sector_tracked [OF assms(2) that] by (simp add: fat_bytes_def quiet_def same_vol_sel [OF sv])
  qed
  then have "fat_entry img fs' c = fat_entry img fs c" if "c < n_fatent fs" for c
    by (intro fat_entry_bytes [OF assms(2) that]) (simp_all add: same_vol_sel [OF sv])
  then have nc: "nth_cluster (fat_entry img fs') (n_fatent fs) k c = nth_cluster (fat_entry img fs) (n_fatent fs) k c" for k c
    by (intro nth_cluster_cong)
  show "fclust img fs' = fclust img fs" by (intro ext) (simp add: fclust_def same_vol_sel [OF sv] nc)
  then show "fsect img fs' = fsect img fs"
    by (intro ext) (simp add: fsect_def same_vol_sel [OF sv] clust2sect_same_vol [OF sv])
  then show "fsects img fs' = fsects img fs" by (intro ext) (simp add: fsects_def)
qed

text \<open>Where the window can be after a table lookup.\<close>

lemma sync_window_keeps: "sync_window ops f = Some (x, f') \<Longrightarrow> winsect f' = winsect f \<and> fatbase f' = fatbase f"
proof -
  have loop: "mirror_loop ops n w f = Some (u, f') \<Longrightarrow> winsect f' = winsect f \<and> fatbase f' = fatbase f" for n w f u f'
    by (induction n arbitrary: w f) (auto simp: bind_eq_Some_conv Let_def split: prod.splits)
  show "sync_window ops f = Some (x, f') \<Longrightarrow> ?thesis"
    by (auto simp: sync_window_def bind_eq_Some_conv Let_def dest: loop split: if_splits)
qed

lemma move_window_winsect:
  "move_window ops s fs = Some (r, fs') \<Longrightarrow>
    (winsect fs' = winsect fs \<or> winsect fs' = s \<or> winsect fs' = 0xFFFFFFFF) \<and> fatbase fs' = fatbase fs"
  by (auto simp: move_window_def bind_eq_Some_conv Let_def dest: sync_window_keeps split: if_splits)

lemma get_fat_winsect:
  assumes "vol_layout fs" and "get_fat ops c fs = Some (v, fs')"
  shows "winsect fs' = winsect fs \<or> winsect fs' = 0xFFFFFFFF \<or> fat_area fs (winsect fs')"
proof (cases "c < 2 \<or> n_fatent fs \<le> c")
  case True
  then show ?thesis using assms(2) by (auto simp: get_fat_def)
next
  case False
  then have cn: "c < n_fatent fs" by (simp add: not_le)
  let ?k = "fat_pos (fs_type fs) (unat c)"
  note b = fat_pos_bound [OF assms(1) cn] and n = layout_n [OF assms(1) cn]
  have area: "fat_area fs (fatbase fs + of_nat (k div 512))" if "k < 512 * unat (fsize fs)" for k
    using fat_sector_unat(2) [OF assms(1) that] u32_less [of "fsize fs"]
    by (simp add: fat_area_def word_less_nat_alt unat_of_nat_small)
  consider "fs_type fs = FS_FAT12" | "fs_type fs = FS_FAT16" | "fs_type fs = FS_FAT32" using layout_type [OF assms(1)] by blast
  then show ?thesis
  proof cases
    case 1
    then have p: "fat_area fs (fatbase fs + of_nat (?k div 512))" "fat_area fs (fatbase fs + of_nat ((?k + 1) div 512))"
      using b by (auto intro!: area)
    show ?thesis
      using assms(2) 1 False p fat12_pos [OF n(1) [OF 1]]
      by (auto simp: get_fat_def u32_div512 bind_eq_Some_conv Let_def split: if_splits dest!: move_window_winsect)
  next
    case 2
    then have "fat_area fs (fatbase fs + of_nat (?k div 512))" using b by (auto intro!: area)
    then show ?thesis
      using assms(2) 2 False fat16_pos [OF n(2) [OF 2]]
      by (auto simp: get_fat_def bind_eq_Some_conv Let_def FS_FAT12_def FS_FAT16_def FS_FAT32_def split: if_splits dest!: move_window_winsect)
  next
    case 3
    then have "fat_area fs (fatbase fs + of_nat (?k div 512))" using b by (auto intro!: area)
    then show ?thesis
      using assms(2) 3 False fat32_pos [OF n(3) [OF 3]]
      by (auto simp: get_fat_def bind_eq_Some_conv Let_def FS_FAT12_def FS_FAT16_def FS_FAT32_def split: if_splits dest!: move_window_winsect)
  qed
qed

section \<open>The steps of a read\<close>

context block_device
begin

lemma get_fat_quiet:
  assumes "inv fs" and "vol_layout fs" and S: "\<And>s. s \<in> S \<Longrightarrow> tracked fs s \<and> \<not> fat_area fs s" and w: "winsect fs \<notin> S"
  shows "returns (get_fat ops c fs) (\<lambda>v fs'. inv fs' \<and> unchanged img fs fs' \<and> quiet img S fs fs' \<and>
    (\<forall>t \<in> S. img (dsk fs') t = img (dsk fs) t) \<and>
    (if 2 \<le> c \<and> c < n_fatent fs then v = fat_entry img fs c \<or> v = 0xFFFFFFFF else v = 1))"
proof -
  obtain v fs' where g: "get_fat ops c fs = Some (v, fs')" "inv fs'" "unchanged img fs fs'"
      "if 2 \<le> c \<and> c < n_fatent fs then v = fat_entry img fs c \<or> v = 0xFFFFFFFF else v = 1"
    using get_fat_law [OF assms(1,2), of c] by (auto simp: returns_iff)
  have "0xFFFFFFFF \<notin> S" using S [of "0xFFFFFFFF"] by (auto simp: tracked_def)
  then have w': "winsect fs' \<notin> S" using get_fat_winsect [OF assms(2) g(1)] S w by auto
  have "img (dsk fs') t = img (dsk fs) t" if "t \<in> S" for t
  proof -
    have "view img fs' t = view img fs t" using g(3) S [OF that] by (simp add: unchanged_def)
    then show ?thesis using that w w' by (auto simp: view_def split: if_splits)
  qed
  then show ?thesis using g w' by (auto simp: quiet_def unchanged_def)
qed

text \<open>A write beside the window.\<close>

lemma drive_write_quiet:
  assumes "inv fs" and "n \<noteq> 0" and "length b = 512 * unat n" and "winsect fs \<notin> S" and "\<And>t. t - s < n \<Longrightarrow> t \<in> S"
  shows "returns (drv_write ops dno b s n (dsk fs)) (\<lambda>r d'. inv (fs\<lparr>dsk := d'\<rparr>) \<and> quiet img S fs (fs\<lparr>dsk := d'\<rparr>) \<and>
    (r = RES_OK \<longrightarrow> img d' = store_sectors s n b (img (dsk fs))) \<and> (\<forall>t. \<not> t - s < n \<longrightarrow> img d' t = img (dsk fs) t))"
proof -
  have ok: "ok (dsk fs)" using assms(1) by (simp add: win_inv_def)
  obtain r d' where w: "drv_write ops dno b s n (dsk fs) = Some (r, d')" "ok d'"
      "r = RES_OK \<longrightarrow> img d' = store_sectors s n b (img (dsk fs))" "\<forall>t. \<not> t - s < n \<longrightarrow> img d' t = img (dsk fs) t"
    using write_law [OF ok assms(2,3), of s] by (auto simp: returns_iff)
  have "same_vol fs (fs\<lparr>dsk := d'\<rparr>)"
    by (rule same_volI [where a = "wflag fs" and b = "winsect fs" and c = "win fs" and d = d']) simp
  moreover have "view img (fs\<lparr>dsk := d'\<rparr>) t = view img fs t" if "t \<notin> S" for t
    using w(4) assms(5) that by (auto simp: view_def)
  moreover have "img d' (winsect fs) = img (dsk fs) (winsect fs)" using w(4) assms(4,5) by blast
  then have "inv (fs\<lparr>dsk := d'\<rparr>)" using assms(1) w(2) by (auto simp: win_inv_def)
  ultimately show ?thesis using w assms(4) by (simp add: quiet_def)
qed

lemma flush_buf_law:
  assumes "inv fs" and "length (fp_buf fp) = 512" and "winsect fs \<notin> S" and "dirty fp \<Longrightarrow> fp_dsect fp \<in> S"
  shows "returns (flush_buf ops fp fs) (\<lambda>(q, fp') fs'. inv fs' \<and> quiet img S fs fs' \<and> fdata img fs' fp' = fdata img fs fp \<and>
    (\<exists>fl. fp' = fp\<lparr>fp_flag := fl\<rparr>) \<and> (q \<longrightarrow> \<not> dirty fp'))"
proof (cases "dirty fp")
  case False
  then show ?thesis
    using assms(1,3) quiet_refl by (auto simp: flush_buf_def intro!: exI [of _ "fp_flag fp"])
next
  case True
  have d: "drv fs = dno" using assms(1) by (simp add: win_inv_def)
  obtain r d' where w: "drv_write ops dno (fp_buf fp) (fp_dsect fp) 1 (dsk fs) = Some (r, d')" "inv (fs\<lparr>dsk := d'\<rparr>)"
      "quiet img S fs (fs\<lparr>dsk := d'\<rparr>)" "r = RES_OK \<longrightarrow> img d' = (img (dsk fs))(fp_dsect fp := fp_buf fp)"
      "\<forall>t. t \<noteq> fp_dsect fp \<longrightarrow> img d' t = img (dsk fs) t"
    using drive_write_quiet [OF assms(1) _ _ assms(3), of 1 "fp_buf fp" "fp_dsect fp"] assms(2,4) True
    by (auto simp: returns_iff word_less_1 store_sectors_1)
  have "(fp_flag fp AND NOT FA__DIRTY) AND FA__DIRTY = 0" by (simp add: FA__DIRTY_def and.assoc)
  moreover have "\<exists>fl. fp = fp\<lparr>fp_flag := fl\<rparr>" by (rule exI [of _ "fp_flag fp"]) simp
  ultimately show ?thesis
    using True w d by (cases "r = RES_OK") (auto simp: flush_buf_def Let_def fdata_def fun_eq_iff)
qed

lemma fill_buf_law:
  assumes "inv fs" and "length (fp_buf fp) = 512" and "winsect fs \<notin> S"
  shows "returns (fill_buf ops s fp fs) (\<lambda>(q, fp') fs'. inv fs' \<and> quiet img S fs fs' \<and> img (dsk fs') = img (dsk fs) \<and>
    (\<exists>b. fp' = fp\<lparr>fp_buf := b\<rparr> \<and> length b = 512 \<and> (q \<longrightarrow> b = img (dsk fs) s)))"
proof -
  have ok: "ok (dsk fs)" "drv fs = dno" using assms(1) by (simp_all add: win_inv_def)
  obtain r b d' where rd: "drv_read ops dno (fp_buf fp) s 1 (dsk fs) = Some ((r, b), d')" "ok d'" "img d' = img (dsk fs)"
      "length b = 512" "r = RES_OK \<longrightarrow> b = img (dsk fs) s"
    using read_law [OF ok(1), of 1 "fp_buf fp" s] assms(2) by (auto simp: returns_iff)
  have "same_vol fs (fs\<lparr>dsk := d'\<rparr>)"
    by (rule same_volI [where a = "wflag fs" and b = "winsect fs" and c = "win fs" and d = d']) simp
  then have "quiet img S fs (fs\<lparr>dsk := d'\<rparr>)" using assms(3) rd(3) by (simp add: quiet_def view_def)
  moreover have "inv (fs\<lparr>dsk := d'\<rparr>)" using assms(1) rd(2,3) by (simp add: win_inv_def)
  ultimately show ?thesis using rd ok by (auto simp: fill_buf_def)
qed

end

section \<open>The bytes of a read\<close>

lemma fbytes_sector:
  assumes "fsect img fs (fp_sclust fp) (p div 512) = Some s" and "n \<le> 512 - p mod 512" and "length (fdata img fs fp s) = 512"
  shows "fbytes img fs fp p n = take n (drop (p mod 512) (fdata img fs fp s))"
proof (rule nth_equalityI)
  have m: "p mod 512 < 512" by simp
  then show "length (fbytes img fs fp p n) = length (take n (drop (p mod 512) (fdata img fs fp s)))"
    using assms(2,3) by (simp add: fbytes_def)
  fix i assume "i < length (fbytes img fs fp p n)"
  then have i: "i < n" by (simp add: fbytes_def)
  then have "p mod 512 + i < 512" using assms(2) by simp
  from mod_succ [OF this] show "fbytes img fs fp p n ! i = take n (drop (p mod 512) (fdata img fs fp s)) ! i"
    using i assms m by (simp add: fbytes_def fbyte_def)
qed

lemma read_partial_law:
  assumes "length (fp_buf fp) = 512" and "off + unat btr \<le> length buff" and "btr \<noteq> 0"
  shows "\<exists>n. unat n = min (512 - unat (fp_fptr fp) mod 512) (unat btr) \<and>
    read_partial btr fp off buff = Some (n, overlay off (take (unat n) (drop (unat (fp_fptr fp) mod 512) (fp_buf fp))) buff)"
proof -
  let ?m = "unat (fp_fptr fp) mod 512"
  have m: "unat (fp_fptr fp mod 512) = ?m" by (simp add: u32_mod)
  have lt: "?m < 512" by simp
  have "unat (512 - fp_fptr fp mod 512) = 512 - ?m"
    using m lt by (simp add: unat_sub word_le_nat_alt)
  then obtain n where n: "n = (if 512 - fp_fptr fp mod 512 > btr then btr else 512 - fp_fptr fp mod 512)"
      "unat n = min (512 - ?m) (unat btr)"
    by (auto simp: word_less_nat_alt min_def)
  have "?m + unat n \<le> 512" "off + unat n \<le> length buff" using n(2) assms(2) lt by auto
  then have "read_partial btr fp off buff = Some (n, overlay off (take (unat n) (drop ?m (fp_buf fp))) buff)"
    using assms(1) by (simp add: read_partial_def Let_def m get_range_in put_range_in flip: n(1))
  then show ?thesis using n(2) by blast
qed

lemma concat_map_sectors:
  assumes "\<And>i. length (f i) = 512" and "j < 512 * n"
  shows "concat (map f [0..<n]) ! j = f (j div 512) ! (j mod 512)"
  using assms(2)
proof (induction n)
  case (Suc n)
  have len: "length (concat (map f [0..<n])) = 512 * n"
    using assms(1) by (simp add: length_concat comp_def sum_list_triv)
  show ?case
  proof (cases "j < 512 * n")
    case True
    then show ?thesis using Suc.IH len by (simp add: nth_append)
  next
    case False
    have d: "j div 512 = n" using False Suc.prems by (intro div_nat_eqI) simp_all
    then have "j mod 512 = j - 512 * n" by (simp flip: minus_mult_div_eq_mod)
    then show ?thesis using False len d by (simp add: nth_append)
  qed
qed simp

lemma nth_sectors: "(\<And>t. length (im t) = 512) \<Longrightarrow> j < 512 * unat n \<Longrightarrow> sectors im s n ! j = im (s + of_nat (j div 512)) ! (j mod 512)"
  unfolding sectors_def by (rule concat_map_sectors)

text \<open>The bytes of \<open>n\<close> sectors of the file that lie in a row.\<close>

definition run_bytes :: "('d \<Rightarrow> u32 \<Rightarrow> bytes) \<Rightarrow> 'd fatfs \<Rightarrow> fil \<Rightarrow> u32 \<Rightarrow> nat \<Rightarrow> bytes" where
  "run_bytes img fs fp s n = map (\<lambda>j. fdata img fs fp (s + of_nat (j div 512)) ! (j mod 512)) [0..<512 * n]"

lemma add_of_nat_eq:
  assumes "m < 2 ^ 32"
  shows "s + of_nat m = (x :: u32) \<longleftrightarrow> m = unat (x - s)"
proof
  assume "s + of_nat m = x"
  then have "x - s = of_nat m" by auto
  then show "m = unat (x - s)" using assms by (simp add: unat_of_nat_small)
qed simp

lemma patched_run:
  assumes "\<And>t. length (im t) = 512" and "length buf = 512" and "unat (x - s) < unat n" and "off + 512 * unat n \<le> length buff"
  shows "overlay (off + unat (x - s) * 512) buf (overlay off (sectors im s n) buff) =
    overlay off (map (\<lambda>j. (if s + of_nat (j div 512) = x then buf else im (s + of_nat (j div 512))) ! (j mod 512)) [0..<512 * unat n]) buff"
proof (rule nth_equalityI)
  let ?i = "unat (x - s)"
  have ls: "length (sectors im s n) = 512 * unat n" using assms(1) by (rule length_sectors)
  have room: "off + ?i * 512 + 512 \<le> off + 512 * unat n" using assms(3) by simp
  then show "length (overlay (off + ?i * 512) buf (overlay off (sectors im s n) buff)) =
    length (overlay off (map (\<lambda>j. (if s + of_nat (j div 512) = x then buf else im (s + of_nat (j div 512))) ! (j mod 512)) [0..<512 * unat n]) buff)"
    using assms ls by simp
  fix k assume "k < length (overlay (off + ?i * 512) buf (overlay off (sectors im s n) buff))"
  then have k: "k < length buff" using assms ls room by simp
  have in_run: "(s + of_nat ((k - off) div 512) = x) = (off + ?i * 512 \<le> k \<and> k < off + ?i * 512 + 512)"
    if "off \<le> k" "k < off + 512 * unat n"
  proof -
    have "(k - off) div 512 < unat n" using that by (simp add: div_less_iff_less_mult mult.commute less_diff_conv2)
    then have "(k - off) div 512 < 2 ^ 32" using u32_less [of n] by linarith
    then have "(s + of_nat ((k - off) div 512) = x) = ((k - off) div 512 = ?i)" by (rule add_of_nat_eq)
    also have "\<dots> = (?i * 512 \<le> k - off \<and> k - off < ?i * 512 + 512)"
      by (auto intro: div_nat_eqI)
    finally show ?thesis using that by auto
  qed
  show "overlay (off + ?i * 512) buf (overlay off (sectors im s n) buff) ! k =
    overlay off (map (\<lambda>j. (if s + of_nat (j div 512) = x then buf else im (s + of_nat (j div 512))) ! (j mod 512)) [0..<512 * unat n]) buff ! k"
  proof (cases "off \<le> k \<and> k < off + 512 * unat n")
    case False
    then show ?thesis using assms(2,4) ls room k by (auto simp: nth_overlay)
  next
    case True
    then have lt: "k - off < 512 * unat n" by auto
    have mid: "overlay off (sectors im s n) buff ! k = im (s + of_nat ((k - off) div 512)) ! ((k - off) mod 512)"
      using True lt assms(1,4) ls by (simp add: nth_overlay nth_sectors)
    show ?thesis
    proof (cases "off + ?i * 512 \<le> k \<and> k < off + ?i * 512 + 512")
      case in_i: True
      then have "(k - off) mod 512 = k - (off + ?i * 512)"
        using in_run True add_of_nat_eq by (auto simp: mod_nat_eqI)
      then show ?thesis using in_i True lt in_run assms(2,4) ls room by (simp add: nth_overlay)
    next
      case False
      then show ?thesis using True lt in_run mid assms(2,4) ls room by (auto simp: nth_overlay)
    qed
  qed
qed

lemma take_overlay_before: "k + length ys \<le> length xs \<Longrightarrow> off \<le> k \<Longrightarrow> take off (overlay k ys xs) = take off xs"
  by (simp add: overlay_def)

lemma fbytes_run:
  assumes "p mod 512 = 0" and "\<And>i. i < n \<Longrightarrow> fsect img fs (fp_sclust fp) (p div 512 + i) = Some (s + of_nat i)"
  shows "fbytes img fs fp p (512 * n) = run_bytes img fs fp s n"
proof (rule nth_equalityI)
  fix j assume "j < length (fbytes img fs fp p (512 * n))"
  then have j: "j < 512 * n" by (simp add: fbytes_def)
  then have lt: "j div 512 < n" by (simp add: div_less_iff_less_mult mult.commute)
  obtain q where q: "p = 512 * q" using assms(1) by (metis mod_0_imp_dvd dvdE)
  then have "(p + j) div 512 = p div 512 + j div 512" "(p + j) mod 512 = j mod 512" by simp_all
  then show "fbytes img fs fp p (512 * n) ! j = run_bytes img fs fp s n ! j"
    using j assms(2) [OF lt] by (simp add: fbytes_def run_bytes_def fbyte_def)
qed (simp add: fbytes_def run_bytes_def)

lemma length_run_bytes [simp]: "length (run_bytes img fs fp s n) = 512 * n"
  by (simp add: run_bytes_def)

lemma length_fbytes [simp]: "length (fbytes img fs fp p n) = n"
  by (simp add: fbytes_def)

context block_device
begin

lemma read_direct_law:
  assumes "inv fs" and "n \<noteq> 0" and "winsect fs \<notin> S" and "length (fp_buf fp) = 512" and "off + 512 * unat n \<le> length buff"
  shows "returns (read_direct ops s n fp off buff fs) (\<lambda>(q, buff') fs'. inv fs' \<and> quiet img S fs fs' \<and> img (dsk fs') = img (dsk fs) \<and>
    length buff' = length buff \<and> take off buff' = take off buff \<and>
    (q \<longrightarrow> buff' = overlay off (run_bytes img fs fp s (unat n)) buff))"
proof -
  have ok: "ok (dsk fs)" "drv fs = dno" using assms(1) by (simp_all add: win_inv_def)
  have il: "length (img (dsk fs) t) = 512" for t by (rule img_length [OF ok(1)])
  let ?m = "take (512 * unat n) (drop off buff)"
  have lm: "length ?m = 512 * unat n" using assms(5) by simp
  obtain r b d' where rd: "drv_read ops dno ?m s n (dsk fs) = Some ((r, b), d')" "ok d'" "img d' = img (dsk fs)"
      "length b = 512 * unat n" "r = RES_OK \<longrightarrow> b = sectors (img (dsk fs)) s n"
    using read_law [OF ok(1) assms(2) lm, of s] lm by (auto simp: returns_iff)
  have sv: "same_vol fs (fs\<lparr>dsk := d'\<rparr>)"
    by (rule same_volI [where a = "wflag fs" and b = "winsect fs" and c = "win fs" and d = d']) simp
  then have q: "quiet img S fs (fs\<lparr>dsk := d'\<rparr>)" using assms(3) rd(3) by (simp add: quiet_def view_def)
  have i: "inv (fs\<lparr>dsk := d'\<rparr>)" using assms(1) rd(2,3) by (simp add: win_inv_def)
  let ?patch = "r = RES_OK \<and> dirty fp \<and> fp_dsect fp - s < n"
  show ?thesis
  proof (cases ?patch)
    case False
    have "run_bytes img fs fp s (unat n) = sectors (img (dsk fs)) s n" if "r = RES_OK"
    proof (rule nth_equalityI)
      show "length (run_bytes img fs fp s (unat n)) = length (sectors (img (dsk fs)) s n)" using length_sectors [OF il] by simp
      fix j assume "j < length (run_bytes img fs fp s (unat n))"
      then have j: "j < 512 * unat n" by simp
      then have jd: "j div 512 < unat n" by (simp add: div_less_iff_less_mult mult.commute)
      then have "j div 512 < 2 ^ 32" using u32_less [of n] by linarith
      then have "\<not> (dirty fp \<and> s + of_nat (j div 512) = fp_dsect fp)"
        using False that jd by (auto simp: add_of_nat_eq word_less_nat_alt)
      then show "run_bytes img fs fp s (unat n) ! j = sectors (img (dsk fs)) s n ! j"
        using j by (auto simp: run_bytes_def fdata_def nth_sectors [OF il])
    qed
    then show ?thesis
      using False rd ok assms(5) lm q i
      by (auto simp: read_direct_def get_range_in put_range_in Let_def take_overlay_before)
  next
    case True
    then have lt: "unat (fp_dsect fp - s) < unat n" by (simp add: word_less_nat_alt)
    then have room: "off + unat (fp_dsect fp - s) * 512 + 512 \<le> length buff" using assms(5) by simp
    have "run_bytes img fs fp s (unat n) = map (\<lambda>j. (if s + of_nat (j div 512) = fp_dsect fp then fp_buf fp
        else img (dsk fs) (s + of_nat (j div 512))) ! (j mod 512)) [0..<512 * unat n]"
      using True by (simp add: run_bytes_def fdata_def)
    moreover note patched_run [OF il assms(4) lt assms(5)]
    ultimately show ?thesis
      using True rd ok assms(4,5) lm q i room
      by (simp add: read_direct_def get_range_in put_range_in Let_def take_overlay_before)
  qed
qed

end

section \<open>One turn of the loop\<close>

lemma csize_and_mod:
  assumes "dir_layout fs"
  shows "unat (q AND (ucast (csize fs) - 1) :: u32) = unat q mod unat (csize fs)"
proof -
  obtain k where k: "k < 8" "csize fs = 2 ^ k" using assms by (auto simp: dir_layout_def)
  have u: "unat (csize fs) = 2 ^ k" using k by (simp add: unat_power2)
  have "ucast (csize fs) = (2 ^ k :: u32)"
    using k by (simp add: word_unat_eq_iff unat_ucast_u8 unat_power2)
  then have "q AND (ucast (csize fs) - 1) = q mod 2 ^ k"
    by (simp add: take_bit_eq_mod flip: mask_eq_exp_minus_1 take_bit_eq_mask)
  then show ?thesis using k u by (simp add: u32_mod unat_power2)
qed

lemma sect_in_clust_mod:
  assumes "vol_layout fs" and "dir_layout fs"
  shows "unat (sect_in_clust p fs) = unat p div 512 mod unat (csize fs)"
proof -
  have "unat p div 512 mod unat (csize fs) < unat (csize fs)" using assms(1) by (simp add: vol_layout_def unat_gt_0)
  then have "unat p div 512 mod unat (csize fs) < 256" using u8_less [of "csize fs"] by linarith
  then show ?thesis
    using csize_and_mod [OF assms(2), of "p div 512"]
    by (simp add: sect_in_clust_def unsigned_ucast_eq take_bit_nat_eq_self unat_div)
qed

text \<open>What a turn keeps of the file.\<close>

definition same_file :: "('d \<Rightarrow> u32 \<Rightarrow> bytes) \<Rightarrow> 'd fatfs \<Rightarrow> fil \<Rightarrow> 'd fatfs \<Rightarrow> fil \<Rightarrow> bool" where
  "same_file img fs fp fs' fp' \<longleftrightarrow> quiet img (fsects img fs (fp_sclust fp)) fs fs' \<and>
     (\<exists>fl c d b. fp' = fp\<lparr>fp_flag := fl, fp_clust := c, fp_dsect := d, fp_buf := b\<rparr>) \<and>
     (\<forall>s \<in> fsects img fs (fp_sclust fp). fdata img fs' fp' s = fdata img fs fp s)"

lemma same_file_sel:
  assumes "same_file img fs fp fs' fp'"
  shows "fp_sclust fp' = fp_sclust fp" "fp_fsize fp' = fp_fsize fp" "fp_fptr fp' = fp_fptr fp" "fp_fs fp' = fp_fs fp" "fp_id fp' = fp_id fp"
    "fp_err fp' = fp_err fp"
  using assms by (auto simp: same_file_def)

lemma same_file_refl: "winsect fs \<notin> fsects img fs (fp_sclust fp) \<Longrightarrow> same_file img fs fp fs fp"
proof -
  have "fp = fp\<lparr>fp_flag := fp_flag fp, fp_clust := fp_clust fp, fp_dsect := fp_dsect fp, fp_buf := fp_buf fp\<rparr>" by simp
  then show "winsect fs \<notin> fsects img fs (fp_sclust fp) \<Longrightarrow> same_file img fs fp fs fp"
    using quiet_refl unfolding same_file_def by blast
qed

lemma same_file_fsect:
  assumes "same_file img fs fp fs' fp'" and "vol_layout fs"
  shows "fclust img fs' = fclust img fs" "fsect img fs' = fsect img fs" "fsects img fs' = fsects img fs" "csize fs' = csize fs"
proof -
  have q: "quiet img (fsects img fs (fp_sclust fp)) fs fs'" using assms(1) by (simp add: same_file_def)
  then have "same_vol fs fs'" by (simp add: quiet_def)
  then show "csize fs' = csize fs" by (simp add: same_vol_sel)
qed (use assms quiet_fsect in \<open>auto simp: same_file_def\<close>)

lemma same_file_trans:
  assumes "vol_layout fs" and "same_file img fs fp fs1 fp1" and "same_file img fs1 fp1 fs2 fp2"
  shows "same_file img fs fp fs2 fp2"
proof -
  note sel = same_file_fsect [OF assms(2,1)] same_file_sel [OF assms(2)]
  obtain fl c d b fl' c' d' b' where "fp1 = fp\<lparr>fp_flag := fl, fp_clust := c, fp_dsect := d, fp_buf := b\<rparr>"
      "fp2 = fp1\<lparr>fp_flag := fl', fp_clust := c', fp_dsect := d', fp_buf := b'\<rparr>"
    using assms(2,3) by (auto simp: same_file_def)
  then have "\<exists>fl c d b. fp2 = fp\<lparr>fp_flag := fl, fp_clust := c, fp_dsect := d, fp_buf := b\<rparr>" by auto
  then show ?thesis
    using assms(2,3) quiet_trans unfolding same_file_def sel by (metis (no_types, lifting))
qed

lemma same_file_bytes:
  assumes "same_file img fs fp fs' fp'" and "vol_layout fs" and "fil_base img fs fp" and "p + n \<le> unat (fp_fsize fp)"
  shows "fbytes img fs' fp' p n = fbytes img fs fp p n"
proof -
  have "fbyte img fs' fp' i = fbyte img fs fp i" if "i < unat (fp_fsize fp)" for i
  proof -
    have "512 * (i div 512) < unat (fp_fsize fp)" using that by (meson le_less_trans times_div_less_eq_dividend)
    then obtain s where "fsect img fs (fp_sclust fp) (i div 512) = Some s" using assms(3) by (auto simp: fil_base_def)
    moreover then have "s \<in> fsects img fs (fp_sclust fp)" by (auto simp: fsects_def)
    ultimately show ?thesis
      using assms(1) by (simp add: fbyte_def same_file_sel [OF assms(1)] same_file_fsect [OF assms(1,2)] same_file_def)
  qed
  then show ?thesis using assms(4) by (simp add: fbytes_def)
qed

lemma cluster_before:
  assumes "0 < (C :: nat)" and "p mod 512 = 0" and "p div 512 mod C = 0" and "p \<noteq> 0"
  shows "p div 512 div C = Suc ((p - 1) div 512 div C)"
proof -
  have p: "p = 512 * (p div 512)" using assms(2) by (simp add: mult.commute mod_0_imp_dvd)
  then have q: "p div 512 \<noteq> 0" using assms(4) by auto
  have "(p - 1) div 512 = p div 512 - 1" using p q by (intro div_nat_eqI) auto
  moreover have "(p div 512 - 1) div C = p div 512 div C - 1"
  proof (rule div_nat_eqI)
    have e: "p div 512 = C * (p div 512 div C)" using assms(3) by (simp add: mod_0_imp_dvd)
    then have "p div 512 div C \<noteq> 0" using q by (metis mult_0_right)
    then obtain m where m: "p div 512 div C = Suc m" by (metis not0_implies_Suc)
    then have e2: "p div 512 = C * m + C" using e by simp
    show "C * (p div 512 div C - 1) \<le> p div 512 - 1" "p div 512 - 1 < C * Suc (p div 512 div C - 1)"
      unfolding m using e2 assms(1) by simp_all
  qed
  moreover have "p div 512 div C \<noteq> 0"
    using q assms(1,3) by (metis div_eq_0_iff less_numeral_extra(3) mod_less)
  ultimately show ?thesis by simp
qed

lemma cluster_same:
  assumes "p mod 512 = 0" and "p div 512 mod C \<noteq> 0"
  shows "(p - 1) div 512 div (C :: nat) = p div 512 div C"
proof (cases "p = 0")
  case False
  have p: "p = 512 * (p div 512)" using assms(1) by (simp add: mult.commute mod_0_imp_dvd)
  then have q: "p div 512 \<noteq> 0" using False by auto
  have "(p - 1) div 512 = p div 512 - 1" using p q by (intro div_nat_eqI) auto
  moreover have "(p div 512 - 1) div C = p div 512 div C"
    using assms(2) by (metis Suc_pred' div_Suc mod_Suc_eq mod_0 neq0_conv q diff_Suc_1 mod_eq_0_iff_dvd One_nat_def)
  ultimately show ?thesis by simp
qed simp

text \<open>The position after \<open>n\<close> bytes that end inside the sectors of one cluster.\<close>

lemma last_sector:
  assumes "0 < n" and "p mod 512 + n \<le> 512 * m" and "0 < C" and "p div 512 mod C + m \<le> (C :: nat)"
  shows "(p + n - 1) div 512 div C = p div 512 div C"
proof -
  define k where "k = p div 512"
  have p: "p = 512 * k + p mod 512" by (simp add: k_def)
  have hi: "(p + n - 1) div 512 < k + m"
    using assms(1,2) p by (simp add: div_less_iff_less_mult)
  have lo: "k \<le> (p + n - 1) div 512"
    using assms(1) p by (metis Nat.add_diff_assoc One_nat_def Suc_leI div_le_mono k_def le_add1)
  have kC: "k = C * (k div C) + k mod C" by simp
  have "(p + n - 1) div 512 < C * (k div C) + C" using hi assms(4) kC unfolding k_def [symmetric] by linarith
  moreover have "C * (k div C) \<le> (p + n - 1) div 512" using lo kC by linarith
  ultimately have "(p + n - 1) div 512 div C = k div C" by (intro div_nat_eqI) (simp_all add: mult.commute)
  then show ?thesis by (simp add: k_def)
qed

context block_device
begin

lemma read_cluster_law:
  assumes "inv fs" and "vol_layout fs" and base: "fil_base img fs fp" and at: "fil_at img fs fp p" and p: "unat (fp_fptr fp) = p"
    and "p < unat (fp_fsize fp)" and "p mod 512 = 0" and "p div 512 mod unat (csize fs) = 0"
  shows "returns (read_cluster ops fp fs) (\<lambda>q fs'. inv fs' \<and> quiet img (fsects img fs (fp_sclust fp)) fs fs' \<and>
    (\<forall>t \<in> fsects img fs (fp_sclust fp). img (dsk fs') t = img (dsk fs) t) \<and>
    (q = Inl FR_DISK_ERR \<or>
     (\<exists>c. q = Inr (fp\<lparr>fp_clust := c\<rparr>) \<and> fclust img fs (fp_sclust fp) (p div 512 div unat (csize fs)) = Some c)))"
proof -
  let ?S = "fsects img fs (fp_sclust fp)" and ?K = "p div 512 div unat (csize fs)"
  have C: "0 < unat (csize fs)" using assms(2) by (simp add: vol_layout_def unat_gt_0)
  have w: "winsect fs \<notin> ?S" using base by (simp add: fil_base_def)
  have n: "n_fatent fs < 0x0FFFFFF8" using assms(2) by (auto simp: vol_layout_def word_less_nat_alt split: if_splits)
  have "512 * (p div 512) < unat (fp_fsize fp)" using assms(6) by (meson le_less_trans times_div_less_eq_dividend)
  then obtain c where c: "fclust img fs (fp_sclust fp) ?K = Some c" using base by (auto simp: fil_base_def fsect_def)
  have v: "2 \<le> c" "c < n_fatent fs" using c nth_cluster_valid by (auto simp: fclust_def)
  have ok: "\<not> c < 2" "c \<noteq> 0xFFFFFFFF" using v n by (auto simp: word_le_nat_alt word_less_nat_alt)
  show ?thesis
  proof (cases "p = 0")
    case True
    then have "fp_sclust fp = c" using c by (simp add: fclust_def split: if_splits)
    moreover have "fp_fptr fp = 0" using p True by (simp add: unat_eq_0)
    ultimately show ?thesis
      using assms(1) ok c True quiet_refl [OF w] by (simp add: read_cluster_def)
  next
    case False
    then have f0: "fp_fptr fp \<noteq> 0" using p by auto
    have prev: "fclust img fs (fp_sclust fp) ((p - 1) div 512 div unat (csize fs)) = Some (fp_clust fp)"
      using at False by (simp add: fil_at_def)
    then have vc: "2 \<le> fp_clust fp" "fp_clust fp < n_fatent fs" using nth_cluster_valid by (auto simp: fclust_def)
    have "fat_entry img fs (fp_clust fp) = c"
      using c prev unfolding cluster_before [OF C assms(7,8) False] fclust_def nth_cluster_Suc by (simp split: if_splits)
    then show ?thesis
      using get_fat_quiet [OF assms(1,2) _ w, of "fp_clust fp"] fsects_valid [OF assms(2)] vc f0 ok c
      by (auto simp: read_cluster_def returns_iff)
  qed
qed

text \<open>What a turn promises: a drive error, or \<open>n\<close> bytes of the file delivered.\<close>

definition chunk_post :: "'d fatfs \<Rightarrow> fil \<Rightarrow> u32 \<Rightarrow> nat \<Rightarrow> bytes \<Rightarrow> (fresult + u32) \<times> fil \<times> bytes \<Rightarrow> 'd fatfs \<Rightarrow> bool" where
  "chunk_post fs fp btr off buff = (\<lambda>(q, fp', buff') fs'. inv fs' \<and> quiet img (fsects img fs (fp_sclust fp)) fs fs' \<and>
     length buff' = length buff \<and> take off buff' = take off buff \<and>
     (case q of Inl e \<Rightarrow> e = FR_DISK_ERR
      | Inr n \<Rightarrow> n \<noteq> 0 \<and> unat n \<le> unat btr \<and> same_file img fs fp fs' fp' \<and> fil_base img fs' fp' \<and>
          fil_at img fs' fp' (unat (fp_fptr fp) + unat n) \<and>
          buff' = overlay off (fbytes img fs fp (unat (fp_fptr fp)) (unat n)) buff))"

lemma chunk_partial:
  assumes "inv fs" and lay: "vol_layout fs" and base: "fil_base img fs fp" and p: "unat (fp_fptr fp) = p"
    and cl: "fclust img fs (fp_sclust fp) (p div 512 div unat (csize fs)) = Some (fp_clust fp)"
    and ds: "fsect img fs (fp_sclust fp) (p div 512) = Some (fp_dsect fp)"
    and room: "p + unat btr \<le> unat (fp_fsize fp)" "off + unat btr \<le> length buff" "btr \<noteq> 0"
  shows "\<exists>n buff'. read_partial btr fp off buff = Some (n, buff') \<and> chunk_post fs fp btr off buff (Inr n, fp, buff') fs"
proof -
  have b: "length (fp_buf fp) = 512" "winsect fs \<notin> fsects img fs (fp_sclust fp)" using base by (simp_all add: fil_base_def)
  have "fp_dsect fp \<noteq> 0" by (rule fsect_valid(3) [OF lay ds])
  then have d: "fp_buf fp = fdata img fs fp (fp_dsect fp)" using base by (simp add: fil_base_def)
  obtain n where n: "unat n = min (512 - p mod 512) (unat btr)"
      "read_partial btr fp off buff = Some (n, overlay off (take (unat n) (drop (p mod 512) (fp_buf fp))) buff)"
    using read_partial_law [OF b(1) room(2,3)] p by auto
  have m: "p mod 512 < 512" by simp
  have n0: "0 < unat n" using n(1) room(3) m by (simp add: unat_gt_0)
  then have nz: "n \<noteq> 0" by auto
  have C: "0 < unat (csize fs)" using lay by (simp add: vol_layout_def unat_gt_0)
  have fb: "fbytes img fs fp p (unat n) = take (unat n) (drop (p mod 512) (fp_buf fp))"
    using fbytes_sector [where img = img, OF ds, of "unat n"] n(1) b(1) d by simp
  have "p div 512 mod unat (csize fs) + 1 \<le> unat (csize fs)" using C by (simp add: Suc_leI)
  then have last: "(p + unat n - 1) div 512 div unat (csize fs) = p div 512 div unat (csize fs)"
    using last_sector [OF n0, of p 1] n(1) C by simp
  have same: "(p + unat n) div 512 = p div 512" if "(p + unat n) mod 512 \<noteq> 0"
  proof -
    have "p mod 512 + unat n \<le> 512" using n(1) m by simp
    moreover have "p mod 512 + unat n \<noteq> 512"
    proof
      assume "p mod 512 + unat n = 512"
      then have "p + unat n = 512 * (p div 512) + 512" by (metis add.assoc mult_div_mod_eq)
      then have "(p + unat n) mod 512 = 0" by simp
      with that show False by simp
    qed
    ultimately have "p mod 512 + unat n < 512" by simp
    from mod_succ [OF this] show ?thesis by simp
  qed
  have at: "fil_at img fs fp (p + unat n)"
    unfolding fil_at_def last using n(1) room(1) cl same ds by auto
  have sf: "same_file img fs fp fs fp" by (rule same_file_refl [OF b(2)])
  have len: "off + length (take (unat n) (drop (p mod 512) (fp_buf fp))) \<le> length buff" using n(1) room(2) b(1) by simp
  show ?thesis
    using n nz assms(1) quiet_refl [OF b(2)] sf base at fb p take_overlay_before [OF len, of off] length_overlay [OF len]
    by (auto simp: chunk_post_def)
qed

end

end
