(* ===== verification/Fat_Transfer.thy ===== *)
theory Fat_Transfer
  imports Fat_Read
begin

text \<open>
  The read loop of \<open>f_read\<close>, turn by turn: the current cluster is entered, whole sectors are
  transferred directly, the rest goes through the sector cache of the file.
\<close>

section \<open>One turn\<close>

lemma add_below_modulus:
  assumes "(k :: nat) mod m + d < m"
  shows "(k + d) div m = k div m" and "(k + d) mod m = k mod m + d"
proof -
  have m: "0 < m" using assms by simp
  have "k + d = k div m * m + (k mod m + d)" by (simp add: add.assoc [symmetric])
  then have e: "(k + d) div m = (k mod m + d) div m + k div m" "(k + d) mod m = (k mod m + d) mod m"
    using m by (metis add.commute div_mult_self1 less_numeral_extra(3), metis add.commute mod_mult_self1)
  then show "(k + d) div m = k div m" "(k + d) mod m = k mod m + d" using assms by simp_all
qed

context block_device
begin

lemma enter_cluster:
  assumes "vol_layout fs" and base: "fil_base img fs fp" and q: "quiet img (fsects img fs (fp_sclust fp)) fs fs'"
    and "\<forall>t \<in> fsects img fs (fp_sclust fp). img (dsk fs') t = img (dsk fs) t"
  shows "same_file img fs fp fs' (fp\<lparr>fp_clust := c\<rparr>)" and "fil_base img fs' (fp\<lparr>fp_clust := c\<rparr>)"
proof -
  have "\<exists>fl c' d b. fp\<lparr>fp_clust := c\<rparr> = fp\<lparr>fp_flag := fl, fp_clust := c', fp_dsect := d, fp_buf := b\<rparr>"
    by (rule exI [of _ "fp_flag fp"], rule exI [of _ c], rule exI [of _ "fp_dsect fp"], rule exI [of _ "fp_buf fp"]) simp
  then show "same_file img fs fp fs' (fp\<lparr>fp_clust := c\<rparr>)"
    using assms by (auto simp: same_file_def fdata_def)
  show "fil_base img fs' (fp\<lparr>fp_clust := c\<rparr>)"
    using assms quiet_fsect [OF q assms(1)] by (auto simp: fil_base_def fdata_def quiet_def)
qed

lemma read_enter:
  assumes "inv fs" and "vol_layout fs" and "dir_layout fs" and base: "fil_base img fs fp" and at: "fil_at img fs fp p" and p: "unat (fp_fptr fp) = p"
    and "p < unat (fp_fsize fp)" and "p mod 512 = 0"
  shows "returns (if sect_in_clust (fp_fptr fp) fs = 0 then read_cluster ops fp fs else Some (Inr fp, fs))
    (\<lambda>q fs'. inv fs' \<and> quiet img (fsects img fs (fp_sclust fp)) fs fs' \<and> (q = Inl FR_DISK_ERR \<or>
     (\<exists>fp'. q = Inr fp' \<and> same_file img fs fp fs' fp' \<and> fil_base img fs' fp' \<and>
       fclust img fs' (fp_sclust fp') (p div 512 div unat (csize fs')) = Some (fp_clust fp'))))"
proof (cases "sect_in_clust (fp_fptr fp) fs = 0")
  case True
  then have "p div 512 mod unat (csize fs) = 0" using sect_in_clust_mod [OF assms(2,3), of "fp_fptr fp"] p by simp
  from read_cluster_law [OF assms(1,2) base at p assms(7,8) this] obtain q fs' where
    r: "read_cluster ops fp fs = Some (q, fs')" "inv fs'" "quiet img (fsects img fs (fp_sclust fp)) fs fs'"
      "\<forall>t \<in> fsects img fs (fp_sclust fp). img (dsk fs') t = img (dsk fs) t"
      "q = Inl FR_DISK_ERR \<or> (\<exists>c. q = Inr (fp\<lparr>fp_clust := c\<rparr>) \<and> fclust img fs (fp_sclust fp) (p div 512 div unat (csize fs)) = Some c)"
    by (auto simp: returns_iff)
  note e = enter_cluster [OF assms(2) base r(3,4)]
  show ?thesis using r e same_file_fsect [OF e(1) assms(2)] True by auto
next
  case False
  then have "unat (sect_in_clust (fp_fptr fp) fs) \<noteq> 0" by (simp add: unat_eq_0)
  then have c: "p div 512 mod unat (csize fs) \<noteq> 0"
    using sect_in_clust_mod [OF assms(2,3), of "fp_fptr fp"] p by simp
  then have "p \<noteq> 0" by (metis div_0 mod_0)
  then have "fclust img fs (fp_sclust fp) (p div 512 div unat (csize fs)) = Some (fp_clust fp)"
    using at cluster_same [OF assms(8) c] by (simp add: fil_at_def)
  moreover have w: "winsect fs \<notin> fsects img fs (fp_sclust fp)" using base by (simp add: fil_base_def)
  ultimately show ?thesis using False assms(1) base same_file_refl [OF w] quiet_refl [OF w] by simp
qed

lemma chunk_step:
  assumes "vol_layout fs" and "fil_base img fs fp" and "unat (fp_fptr fp) + unat btr \<le> unat (fp_fsize fp)"
    and sf: "same_file img fs fp fs1 fp1" and c: "chunk_post fs1 fp1 btr off buff (q, fp2, b) fs2"
  shows "chunk_post fs fp btr off buff (q, fp2, b) fs2"
proof -
  note sel = same_file_sel [OF sf] same_file_fsect [OF sf assms(1)]
  have "quiet img (fsects img fs (fp_sclust fp)) fs fs1" using sf by (simp add: same_file_def)
  then have "quiet img (fsects img fs (fp_sclust fp)) fs fs2"
    using c quiet_trans by (auto simp: chunk_post_def sel)
  then show ?thesis
    using c same_file_trans [OF assms(1) sf] same_file_bytes [OF sf assms(1,2)] assms(3)
    by (auto simp: chunk_post_def sel split: sum.splits)
qed

text \<open>Whole sectors that lie in the current cluster.\<close>

lemma chunk_direct:
  assumes "inv fs" and lay: "vol_layout fs" and base: "fil_base img fs fp" and p: "unat (fp_fptr fp) = p"
    and cl: "fclust img fs (fp_sclust fp) (p div 512 div unat (csize fs)) = Some (fp_clust fp)" and "p mod 512 = 0"
    and room: "p + unat btr \<le> unat (fp_fsize fp)" "off + unat btr \<le> length buff"
    and n: "n \<noteq> 0" "512 * unat n \<le> unat btr" "p div 512 mod unat (csize fs) + unat n \<le> unat (csize fs)"
    and s: "s = clust2sect fs (fp_clust fp) + of_nat (p div 512 mod unat (csize fs))"
  shows "returns (read_direct ops s n fp off buff fs)
    (\<lambda>(q, buff'). chunk_post fs fp btr off buff (if q then Inr (512 * n) else Inl FR_DISK_ERR, fp, buff'))"
proof -
  let ?S = "fsects img fs (fp_sclust fp)"
  have b: "length (fp_buf fp) = 512" "winsect fs \<notin> ?S" using base by (simp_all add: fil_base_def)
  have C: "0 < unat (csize fs)" using lay by (simp add: vol_layout_def unat_gt_0)
  have n0: "0 < 512 * unat n" using n(1) by (simp add: unat_gt_0)
  have "fsect img fs (fp_sclust fp) (p div 512 + i) = Some (s + of_nat i)" if "i < unat n" for i
  proof -
    have "p div 512 mod unat (csize fs) + i < unat (csize fs)" using n(3) that by simp
    from add_below_modulus [OF this] show ?thesis using cl s by (simp add: fsect_def)
  qed
  then have fb: "fbytes img fs fp p (512 * unat n) = run_bytes img fs fp s (unat n)"
    by (rule fbytes_run [OF assms(6)])
  obtain q buff' fs' where r: "read_direct ops s n fp off buff fs = Some ((q, buff'), fs')" "inv fs'" "quiet img ?S fs fs'"
      "img (dsk fs') = img (dsk fs)" "length buff' = length buff" "take off buff' = take off buff"
      "q \<longrightarrow> buff' = overlay off (run_bytes img fs fp s (unat n)) buff"
    using read_direct_law [OF assms(1) n(1) b(2,1), of off buff s] room(2) n(2) by (auto simp: returns_iff)
  have e: "same_file img fs fp fs' fp" "fil_base img fs' fp"
    using enter_cluster [OF lay base r(3), of "fp_clust fp"] r(4) by simp_all
  note sel = same_file_fsect [OF e(1) lay]
  have un: "unat (512 * n) = 512 * unat n"
    using n(2) u32_less [of btr] by (simp add: unat_word_ariths)
  then have nz: "512 * n \<noteq> 0" using n0 by auto
  have "(p + 512 * unat n - 1) div 512 div unat (csize fs) = p div 512 div unat (csize fs)"
    using last_sector [OF n0, of p "unat n"] assms(6) C n(3) by simp
  then have at: "fil_at img fs' fp (p + 512 * unat n)"
    using room(1) n(2) cl assms(6) by (simp add: fil_at_def sel)
  show ?thesis
    using r e at nz n(2) fb p by (simp add: chunk_post_def un)
qed

text \<open>Loading the cache of the file.\<close>

lemma load_cache:
  assumes "inv fs" and lay: "vol_layout fs" and base: "fil_base img fs fp" and s: "s \<in> fsects img fs (fp_sclust fp)"
  shows "returns (if fp_dsect fp \<noteq> s then do {
        ((ok, fp), fs) \<leftarrow> flush_buf ops fp fs;
        if ok then fill_buf ops s fp fs else Some ((False, fp), fs) }
      else Some ((True, fp), fs))
    (\<lambda>(q, fp') fs'. inv fs' \<and> quiet img (fsects img fs (fp_sclust fp)) fs fs' \<and>
      (q \<longrightarrow> fp_clust fp' = fp_clust fp \<and> same_file img fs fp fs' (fp'\<lparr>fp_dsect := s\<rparr>) \<and> fil_base img fs' (fp'\<lparr>fp_dsect := s\<rparr>)))"
proof (cases "fp_dsect fp = s")
  case True
  then have upd: "fp\<lparr>fp_dsect := s\<rparr> = fp" by auto
  have w: "winsect fs \<notin> fsects img fs (fp_sclust fp)" using base by (simp add: fil_base_def)
  show ?thesis
    unfolding upd using True assms(1) base same_file_refl [OF w] quiet_refl [OF w] by (simp add: upd)
next
  case False
  let ?S = "fsects img fs (fp_sclust fp)"
  have b: "length (fp_buf fp) = 512" "winsect fs \<notin> ?S" "dirty fp \<Longrightarrow> fp_dsect fp \<in> ?S"
    using base by (simp_all add: fil_base_def)
  obtain q fs1 fl where fl: "flush_buf ops fp fs = Some ((q, fp\<lparr>fp_flag := fl\<rparr>), fs1)" "inv fs1" "quiet img ?S fs fs1"
      "fdata img fs1 (fp\<lparr>fp_flag := fl\<rparr>) = fdata img fs fp" "q \<longrightarrow> fl AND FA__DIRTY = 0"
    using flush_buf_law [OF assms(1) b(1,2,3)] by (auto simp: returns_iff)
  show ?thesis
  proof (cases q)
    case False
    then show ?thesis using \<open>fp_dsect fp \<noteq> s\<close> fl by simp
  next
    case True
    have clean: "fl AND FA__DIRTY = 0" using True fl(5) by simp
    have w1: "winsect fs1 \<notin> ?S" using fl(3) by (simp add: quiet_def)
    obtain ok' fs2 bf where fi: "fill_buf ops s (fp\<lparr>fp_flag := fl\<rparr>) fs1 = Some ((ok', fp\<lparr>fp_flag := fl, fp_buf := bf\<rparr>), fs2)"
        "inv fs2" "quiet img ?S fs1 fs2" "img (dsk fs2) = img (dsk fs1)" "length bf = 512" "ok' \<longrightarrow> bf = img (dsk fs1) s"
      using fill_buf_law [OF fl(2) _ w1, of "fp\<lparr>fp_flag := fl\<rparr>" s] b(1) by (auto simp: returns_iff)
    have q2: "quiet img ?S fs fs2" by (rule quiet_trans [OF fl(3) fi(3)])
    let ?fp = "fp\<lparr>fp_flag := fl, fp_buf := bf, fp_dsect := s\<rparr>"
    have shape: "\<exists>fl c d b. ?fp = fp\<lparr>fp_flag := fl, fp_clust := c, fp_dsect := d, fp_buf := b\<rparr>"
      by (rule exI [of _ fl], rule exI [of _ "fp_clust fp"], rule exI [of _ s], rule exI [of _ bf]) simp
    have eq: "fdata img fs2 ?fp = fdata img fs fp"
      using fl(4) clean fi(4) by (simp add: fdata_def fun_eq_iff)
    have dat: "fdata img fs2 ?fp s = bf" if ok'
      using that fi(4,6) clean by (simp add: fdata_def)
    have "same_file img fs fp fs2 ?fp \<and> fil_base img fs2 ?fp" if ok'
      using q2 shape eq base clean s fi(5) dat [OF that]
      by (auto simp: same_file_def fil_base_def quiet_fsect [OF q2 lay] quiet_def)
    then show ?thesis using \<open>fp_dsect fp \<noteq> s\<close> True fl fi q2 by simp
  qed
qed

lemma run_sectors:
  assumes "0 < unat (C :: u8)" and "unat (k :: u8) = q mod unat C"
  shows "unat (if ucast k + btr div 512 > (ucast C :: u32) then ucast C - ucast k else btr div 512) =
    min (unat btr div 512) (unat C - q mod unat C)"
proof -
  have lt: "q mod unat C < unat C" using assms(1) by simp
  have b: "unat (btr div 512) = unat btr div 512" "unat btr div 512 < 2 ^ 23"
    using u32_less [of btr] by (simp_all add: unat_div)
  have u: "unat (ucast k + btr div 512) = q mod unat C + unat btr div 512"
    using b u8_less [of k] assms(2) by (simp add: unat_word_ariths unat_ucast_u8)
  then show ?thesis
    using b lt assms(2) by (auto simp: word_less_nat_alt unat_ucast_u8 unat_sub word_le_nat_alt)
qed

lemma read_chunk_law:
  assumes "inv fs" and lay: "vol_layout fs" and dl: "dir_layout fs" and base: "fil_base img fs fp" and at: "fil_at img fs fp p"
    and p: "unat (fp_fptr fp) = p" and room: "p + unat btr \<le> unat (fp_fsize fp)" "off + unat btr \<le> length buff" "btr \<noteq> 0"
  shows "returns (read_chunk ops btr fp off buff fs) (chunk_post fs fp btr off buff)"
proof (cases "p mod 512 = 0")
  case False
  have C: "0 < unat (csize fs)" using lay by (simp add: vol_layout_def unat_gt_0)
  have ds: "fsect img fs (fp_sclust fp) (p div 512) = Some (fp_dsect fp)" using at False by (simp add: fil_at_def)
  have "(p - 1) div 512 = p div 512" using False by (metis Suc_pred' div_Suc mod_0 neq0_conv diff_Suc_1)
  then have cl: "fclust img fs (fp_sclust fp) (p div 512 div unat (csize fs)) = Some (fp_clust fp)"
    using at False by (auto simp: fil_at_def)
  have "unat (fp_fptr fp mod 512) \<noteq> 0" using False p by (simp add: u32_mod)
  then have "fp_fptr fp mod 512 \<noteq> 0" by (metis unat_0)
  then show ?thesis
    using chunk_partial [OF assms(1) lay base p cl ds room] by (auto simp: read_chunk_def)
next
  case True
  have aligned: "fp_fptr fp mod 512 = 0" using True p u32_mod [of "fp_fptr fp" 512] by (simp add: unat_eq_0)
  have lt: "p < unat (fp_fsize fp)" using room(1,3) unat_gt_0 [of btr] by linarith
  let ?S = "fsects img fs (fp_sclust fp)"
  obtain q fs1 where e: "(if sect_in_clust (fp_fptr fp) fs = 0 then read_cluster ops fp fs else Some (Inr fp, fs)) = Some (q, fs1)"
      "inv fs1" "quiet img ?S fs fs1"
      "q = Inl FR_DISK_ERR \<or> (\<exists>fp'. q = Inr fp' \<and> same_file img fs fp fs1 fp' \<and> fil_base img fs1 fp' \<and>
         fclust img fs1 (fp_sclust fp') (p div 512 div unat (csize fs1)) = Some (fp_clust fp'))"
    using read_enter [OF assms(1) lay dl base at p lt True] by (auto simp: returns_iff)
  show ?thesis
  proof (cases q)
    case (Inl x)
    then show ?thesis using e aligned by (simp add: read_chunk_def Let_def chunk_post_def)
  next
    case (Inr fp1)
    then have f1: "same_file img fs fp fs1 fp1" "fil_base img fs1 fp1"
        "fclust img fs1 (fp_sclust fp1) (p div 512 div unat (csize fs1)) = Some (fp_clust fp1)"
      using e(4) by auto
    note sel = same_file_sel [OF f1(1)] same_file_fsect [OF f1(1) lay]
    have lay1: "vol_layout fs1" "dir_layout fs1" using quiet_layout [OF e(3)] lay dl by simp_all
    have p1: "unat (fp_fptr fp1) = p" and room1: "p + unat btr \<le> unat (fp_fsize fp1)" using p room by (simp_all add: sel)
    have v: "2 \<le> fp_clust fp1" "fp_clust fp1 < n_fatent fs1" using f1(3) nth_cluster_valid by (auto simp: fclust_def)
    have nz: "clust2sect fs1 (fp_clust fp1) \<noteq> 0" by (rule clust2sect_nonzero [OF lay1(1) v])
    let ?cs = "p div 512 mod unat (csize fs1)"
    have cs: "unat (sect_in_clust (fp_fptr fp) fs) = ?cs" using sect_in_clust_mod [OF lay dl] p by (simp add: sel)
    let ?s = "clust2sect fs1 (fp_clust fp1) + ucast (sect_in_clust (fp_fptr fp) fs)"
    have ucs: "ucast (sect_in_clust (fp_fptr fp) fs) = (of_nat ?cs :: u32)"
      unfolding cs [symmetric] by (simp add: word_unat_eq_iff unat_ucast_u8 unat_of_nat_small)
    have C1: "0 < unat (csize fs1)" using lay1(1) by (simp add: vol_layout_def unat_gt_0)
    note st = chunk_step [OF lay base _ f1(1)]
    show ?thesis
    proof (cases "btr div 512 = 0")
      case False
      let ?n = "if ucast (sect_in_clust (fp_fptr fp) fs) + btr div 512 > ucast (csize fs1)
        then ucast (csize fs1) - ucast (sect_in_clust (fp_fptr fp) fs) else btr div 512"
      have un: "unat ?n = min (unat btr div 512) (unat (csize fs1) - ?cs)"
        by (rule run_sectors [OF C1 cs])
      have csn: "?cs < unat (csize fs1)" using C1 by simp
      have bd: "unat (btr div 512) = unat btr div 512" by (simp add: unat_div)
      then have b0: "0 < unat btr div 512" using False by (metis unat_gt_0 word_gt_0)
      have n: "?n \<noteq> 0" "512 * unat ?n \<le> unat btr" "?cs + unat ?n \<le> unat (csize fs1)"
      proof -
        have "0 < unat ?n" unfolding un using b0 csn by simp
        then show "?n \<noteq> 0" by (rule unat_gt_0 [THEN iffD1])
        show "512 * unat ?n \<le> unat btr"
          unfolding un by (rule order_trans [OF mult_le_mono2 [OF min.cobounded1] times_div_less_eq_dividend])
        show "?cs + unat ?n \<le> unat (csize fs1)" unfolding un using csn by simp
      qed
      have "returns (read_direct ops ?s ?n fp1 off buff fs1)
        (\<lambda>(q, buff'). chunk_post fs1 fp1 btr off buff (if q then Inr (512 * ?n) else Inl FR_DISK_ERR, fp1, buff'))"
        by (rule chunk_direct [OF e(2) lay1(1) f1(2) p1 f1(3) True room1 room(2) n]) (simp only: ucs)
      then obtain q2 buff2 fs2 where r: "read_direct ops ?s ?n fp1 off buff fs1 = Some ((q2, buff2), fs2)"
          "chunk_post fs1 fp1 btr off buff (if q2 then Inr (512 * ?n) else Inl FR_DISK_ERR, fp1, buff2) fs2"
        by (auto simp: returns_iff)
      have "read_chunk ops btr fp off buff fs = Some ((if q2 then Inr (512 * ?n) else Inl FR_DISK_ERR, fp1, buff2), fs2)"
        using e(1) Inr aligned nz False r(1) by (simp add: read_chunk_def Let_def)
      then show ?thesis using st [OF _ r(2)] room(1) p by simp
    next
      case cached: True
      have ds: "fsect img fs1 (fp_sclust fp1) (p div 512) = Some ?s" using f1(3) ucs by (simp add: fsect_def)
      then have "?s \<in> fsects img fs1 (fp_sclust fp1)" by (auto simp: fsects_def)
      from load_cache [OF e(2) lay1(1) f1(2) this] obtain q2 fp2 fs2 where
        l: "(if fp_dsect fp1 \<noteq> ?s then do {
              ((ok, fp), fs) \<leftarrow> flush_buf ops fp1 fs1;
              if ok then fill_buf ops ?s fp fs else Some ((False, fp), fs) }
            else Some ((True, fp1), fs1)) = Some ((q2, fp2), fs2)"
          "inv fs2" "quiet img (fsects img fs1 (fp_sclust fp1)) fs1 fs2"
          "q2 \<longrightarrow> fp_clust fp2 = fp_clust fp1 \<and> same_file img fs1 fp1 fs2 (fp2\<lparr>fp_dsect := ?s\<rparr>) \<and> fil_base img fs2 (fp2\<lparr>fp_dsect := ?s\<rparr>)"
        by (auto simp: returns_iff)
      show ?thesis
      proof (cases q2)
        case False
        have "read_chunk ops btr fp off buff fs = Some ((Inl FR_DISK_ERR, fp2, buff), fs2)"
          using e(1) Inr aligned nz cached l(1) False by (simp add: read_chunk_def Let_def)
        moreover have "quiet img ?S fs fs2" using quiet_trans [OF e(3)] l(3) by (simp add: sel)
        ultimately show ?thesis using l(2) by (simp add: chunk_post_def)
      next
        case True
        let ?fp = "fp2\<lparr>fp_dsect := ?s\<rparr>"
        have s2: "same_file img fs1 fp1 fs2 ?fp" "fil_base img fs2 ?fp" using l(4) True by simp_all
        note sel2 = same_file_sel [OF s2(1)] same_file_fsect [OF s2(1) lay1(1)]
        have lay2: "vol_layout fs2" using quiet_layout [OF l(3)] lay1 by simp
        have pt: "unat (fp_fptr ?fp) = p" "p + unat btr \<le> unat (fp_fsize ?fp)"
          using p1 room1 sel2(2,3) by simp_all
        have cl2: "fclust img fs2 (fp_sclust ?fp) (p div 512 div unat (csize fs2)) = Some (fp_clust ?fp)"
          using f1(3) l(4) True sel2(1,7,10) by simp
        have ds2: "fsect img fs2 (fp_sclust ?fp) (p div 512) = Some (fp_dsect ?fp)"
          using ds sel2(1,8) by simp
        obtain n buff' where c: "read_partial btr ?fp off buff = Some (n, buff')"
            "chunk_post fs2 ?fp btr off buff (Inr n, ?fp, buff') fs2"
          using chunk_partial [OF l(2) lay2 s2(2) pt(1) cl2 ds2 pt(2) room(2,3)] by blast
        have "read_chunk ops btr fp off buff fs = Some ((Inr n, ?fp, buff'), fs2)"
          using e(1) Inr aligned nz cached l(1) True c(1) by (simp add: read_chunk_def Let_def)
        moreover have "chunk_post fs1 fp1 btr off buff (Inr n, ?fp, buff') fs2"
          by (rule chunk_step [OF lay1(1) f1(2) _ s2(1) c(2)]) (use room1 p1 in simp)
        ultimately show ?thesis using st room(1) p by simp
      qed
    qed
  qed
qed

end

section \<open>The loop\<close>

text \<open>The contents of an open file.\<close>

definition file_data :: "('d \<Rightarrow> u32 \<Rightarrow> bytes) \<Rightarrow> 'd fatfs \<Rightarrow> fil \<Rightarrow> bytes" where
  "file_data img fs fp = fbytes img fs fp 0 (unat (fp_fsize fp))"

lemma length_file_data [simp]: "length (file_data img fs fp) = unat (fp_fsize fp)"
  by (simp add: file_data_def)

lemma fbytes_file_data: "p + n \<le> unat (fp_fsize fp) \<Longrightarrow> fbytes img fs fp p n = take n (drop p (file_data img fs fp))"
  by (simp add: file_data_def fbytes_def take_map drop_map)

lemma pointer_upd [simp]:
  "fil_base img fs (fp\<lparr>fp_fptr := x\<rparr>) = fil_base img fs fp" "fil_at img fs (fp\<lparr>fp_fptr := x\<rparr>) = fil_at img fs fp"
  "file_data img fs (fp\<lparr>fp_fptr := x\<rparr>) = file_data img fs fp"
  by (auto simp: fil_base_def fil_at_def file_data_def fbytes_def fbyte_def fdata_def fun_eq_iff)

lemma same_file_data: "same_file img fs fp fs' fp' \<Longrightarrow> vol_layout fs \<Longrightarrow> fil_base img fs fp \<Longrightarrow> file_data img fs' fp' = file_data img fs fp"
  unfolding file_data_def by (simp add: same_file_sel same_file_bytes)

context block_device
begin

definition read_post :: "'d fatfs \<Rightarrow> fil \<Rightarrow> u32 \<Rightarrow> u32 \<Rightarrow> bytes \<Rightarrow> fresult \<times> fil \<times> bytes \<times> u32 \<Rightarrow> 'd fatfs \<Rightarrow> bool" where
  "read_post fs fp btr br buff = (\<lambda>(res, fp', buff', br') fs'.
     let src = drop (unat (fp_fptr fp)) (file_data img fs fp) in
     inv fs' \<and> quiet img (fsects img fs (fp_sclust fp)) fs fs' \<and> length buff' = length buff \<and>
     unat br \<le> unat br' \<and> unat br' \<le> unat br + unat btr \<and>
     take (unat br') buff' = take (unat br) buff @ take (unat br' - unat br) src \<and>
     (if res = FR_OK then unat br' = unat br + unat btr \<and> buff' = overlay (unat br) (take (unat btr) src) buff \<and>
        unat (fp_fptr fp') = unat (fp_fptr fp) + unat btr \<and> fil_inv img fs' fp' \<and> file_data img fs' fp' = file_data img fs fp
      else res = FR_DISK_ERR \<and> fp_err fp' = FR_DISK_ERR))"

lemma read_file_loop_law:
  assumes "inv fs" and "vol_layout fs" and "dir_layout fs" and "fil_inv img fs fp"
    and "unat (fp_fptr fp) + unat btr \<le> unat (fp_fsize fp)" and "unat br + unat btr \<le> length buff" and "unat br + unat btr < 2 ^ 32"
  shows "returns (read_file_loop ops btr br fp buff fs) (read_post fs fp btr br buff)"
  using assms
proof (induction "unat btr" arbitrary: btr br fp buff fs rule: less_induct)
  case less
  note prems = less.prems
  have base: "fil_base img fs fp" "fil_at img fs fp (unat (fp_fptr fp))" using prems(4) by (simp_all add: fil_inv_def)
  have w: "winsect fs \<notin> fsects img fs (fp_sclust fp)" using base(1) by (simp add: fil_base_def)
  show ?case
  proof (cases "btr = 0")
    case True
    then show ?thesis
      using prems quiet_refl [OF w] by (simp add: read_file_loop.simps read_post_def Let_def)
  next
    case False
    obtain q fp1 b1 fs1 where c: "read_chunk ops btr fp (unat br) buff fs = Some ((q, fp1, b1), fs1)"
        "chunk_post fs fp btr (unat br) buff (q, fp1, b1) fs1"
      using read_chunk_law [OF prems(1-3) base refl prems(5,6) False] by (auto simp: returns_iff)
    show ?thesis
    proof (cases q)
      case (Inl e)
      then show ?thesis
        using c False by (simp add: read_file_loop.simps read_post_def chunk_post_def Let_def)
    next
      case (Inr n)
      have p1: "inv fs1" "quiet img (fsects img fs (fp_sclust fp)) fs fs1" "n \<noteq> 0" "unat n \<le> unat btr" "same_file img fs fp fs1 fp1"
          "fil_base img fs1 fp1" "fil_at img fs1 fp1 (unat (fp_fptr fp) + unat n)"
          "b1 = overlay (unat br) (fbytes img fs fp (unat (fp_fptr fp)) (unat n)) buff"
        using c(2) Inr by (simp_all add: chunk_post_def)
      note sel = same_file_sel [OF p1(5)] same_file_fsect [OF p1(5) prems(2)]
      let ?fp = "fp1\<lparr>fp_fptr := fp_fptr fp1 + n\<rparr>"
      have u: "unat (btr - n) = unat btr - unat n" "unat (br + n) = unat br + unat n" "unat (fp_fptr ?fp) = unat (fp_fptr fp) + unat n"
        using p1(4) prems(5,7) u32_less [of "fp_fsize fp"] by (simp_all add: sel unat_sub word_le_nat_alt unat_word_ariths)
      have lt: "unat (btr - n) < unat btr" using u(1) p1(3,4) unat_gt_0 [of n] by linarith
      have lay1: "vol_layout fs1" "dir_layout fs1" using quiet_layout [OF p1(2)] prems(2,3) by simp_all
      have fd: "file_data img fs1 ?fp = file_data img fs fp" using same_file_data [OF p1(5) prems(2) base(1)] by simp
      have piece: "fbytes img fs fp (unat (fp_fptr fp)) (unat n) = take (unat n) (drop (unat (fp_fptr fp)) (file_data img fs fp))"
        using p1(4) prems(5) by (intro fbytes_file_data) simp
      have lb: "length b1 = length buff" using p1(4,8) prems(6) by simp
      have "returns (read_file_loop ops (btr - n) (br + n) ?fp b1 fs1) (read_post fs1 ?fp (btr - n) (br + n) b1)"
      proof (rule less.hyps [OF lt p1(1) lay1])
        show "fil_inv img fs1 ?fp" using p1(6,7) u(3) by (simp add: fil_inv_def)
        show "unat (fp_fptr ?fp) + unat (btr - n) \<le> unat (fp_fsize ?fp)" using u p1(4) prems(5) by (simp add: sel)
        show "unat (br + n) + unat (btr - n) \<le> length b1" "unat (br + n) + unat (btr - n) < 2 ^ 32"
          using u(1,2) p1(4) prems(6,7) lb by simp_all
      qed
      then obtain res fp2 b2 br2 fs2 where r: "read_file_loop ops (btr - n) (br + n) ?fp b1 fs1 = Some ((res, fp2, b2, br2), fs2)"
          "read_post fs1 ?fp (btr - n) (br + n) b1 (res, fp2, b2, br2) fs2"
        by (auto simp: returns_iff)
      let ?src = "drop (unat (fp_fptr fp)) (file_data img fs fp)"
      have src: "drop (unat (fp_fptr ?fp)) (file_data img fs1 ?fp) = drop (unat n) ?src" unfolding fd u(3) by (simp add: add.commute)
      have ls: "unat btr \<le> length ?src" using prems(5) by simp
      have split: "take (unat n) ?src @ take k (drop (unat n) ?src) = take (unat n + k) ?src" for k by (simp add: take_add)
      have b1: "b1 = overlay (unat br) (take (unat n) ?src) buff" using p1(8) piece by simp
      have lt_n: "length (take (unat n) ?src) = unat n" using ls p1(4) by simp
      have t1: "take (unat br + unat n) b1 = take (unat br) buff @ take (unat n) ?src"
        using take_overlay_full [of "unat br" "take (unat n) ?src" buff] prems(6) p1(4) lt_n b1 by simp
      have q2: "quiet img (fsects img fs (fp_sclust fp)) fs fs2"
        using quiet_trans [OF p1(2)] r(2) by (simp add: read_post_def Let_def sel)
      have bounds: "unat br + unat n \<le> unat br2" "unat br2 \<le> unat br + unat btr" using r(2) u p1(4) by (simp_all add: read_post_def Let_def)
      have pre: "take (unat br2) b2 = take (unat br) buff @ take (unat br2 - unat br) ?src"
      proof -
        have "take (unat br2) b2 = take (unat br + unat n) b1 @ take (unat br2 - (unat br + unat n)) (drop (unat n) ?src)"
          using r(2) unfolding read_post_def src u(2) by (simp add: Let_def)
        also have "\<dots> = take (unat br) buff @ take (unat n + (unat br2 - (unat br + unat n))) ?src" unfolding t1 append_assoc split ..
        also have "unat n + (unat br2 - (unat br + unat n)) = unat br2 - unat br" using bounds(1) by simp
        finally show ?thesis .
      qed
      have fin: "b2 = overlay (unat br) (take (unat btr) ?src) buff" if "res = FR_OK"
      proof -
        have "b2 = overlay (unat br + unat n) (take (unat btr - unat n) (drop (unat n) ?src)) b1"
          using r(2) that unfolding read_post_def src u(1,2) by (simp add: Let_def)
        also have "\<dots> = overlay (unat br) (take (unat n) ?src @ take (unat btr - unat n) (drop (unat n) ?src)) buff"
          unfolding b1 using overlay_overlay_adjacent [of "unat br" "take (unat n) ?src" "take (unat btr - unat n) (drop (unat n) ?src)" buff]
            lt_n ls p1(4) prems(6) by simp
        finally show ?thesis unfolding split using p1(4) by simp
      qed
      have "read_file_loop ops btr br fp buff fs = Some ((res, fp2, b2, br2), fs2)"
        using c(1) Inr r(1) False by (subst read_file_loop.simps) simp
      then show ?thesis
        using r(2) q2 bounds pre fin lb u fd p1(4) by (simp add: read_post_def Let_def)
    qed
  qed
qed

end

section \<open>What a read keeps of the object\<close>

definition same_handle :: "fil \<Rightarrow> fil \<Rightarrow> bool" where
  "same_handle fp fp' \<longleftrightarrow> fp_fs fp' = fp_fs fp \<and> fp_id fp' = fp_id fp \<and> fp_err fp' = fp_err fp \<and> fp_fsize fp' = fp_fsize fp \<and>
     fp_flag fp' AND FA_READ = fp_flag fp AND FA_READ"

lemma same_handle_refl [simp]: "same_handle fp fp"
  by (simp add: same_handle_def)

lemma same_handle_trans: "same_handle a b \<Longrightarrow> same_handle b c \<Longrightarrow> same_handle a c"
  by (simp add: same_handle_def)

lemma same_handle_upd [simp]:
  "same_handle fp (fp\<lparr>fp_clust := c\<rparr>)" "same_handle fp (fp\<lparr>fp_buf := b\<rparr>)" "same_handle fp (fp\<lparr>fp_dsect := s\<rparr>)"
  "same_handle fp (fp\<lparr>fp_fptr := x\<rparr>)" "same_handle fp (fp\<lparr>fp_flag := fp_flag fp AND NOT FA__DIRTY\<rparr>)"
proof -
  have "(x AND NOT FA__DIRTY) AND FA_READ = x AND FA_READ" for x
    by (simp add: FA__DIRTY_def FA_READ_def and.assoc)
  then show "same_handle fp (fp\<lparr>fp_flag := fp_flag fp AND NOT FA__DIRTY\<rparr>)" by (simp add: same_handle_def)
qed (simp_all add: same_handle_def)

lemma flush_buf_handle: "flush_buf ops fp fs = Some ((ok, fp'), fs') \<Longrightarrow> same_handle fp fp'"
  by (auto simp: flush_buf_def Let_def bind_eq_Some_conv split: if_splits)

lemma fill_buf_handle: "fill_buf ops sect fp fs = Some ((ok, fp'), fs') \<Longrightarrow> same_handle fp fp'"
  by (auto simp: fill_buf_def bind_eq_Some_conv)

lemma read_cluster_handle: "read_cluster ops fp fs = Some (Inr fp', fs') \<Longrightarrow> same_handle fp fp'"
  by (auto simp: read_cluster_def bind_eq_Some_conv split: if_splits)

lemma read_cluster_error: "read_cluster ops fp fs = Some (Inl e, fs') \<Longrightarrow> e \<noteq> FR_OK"
  by (auto simp: read_cluster_def bind_eq_Some_conv split: if_splits)

lemma read_chunk_handle:
  assumes "read_chunk ops btr fp off buff fs = Some ((q, fp', buff'), fs')"
  shows "same_handle fp fp' \<and> q \<noteq> Inl FR_OK"
proof (cases "fp_fptr fp mod 512 = 0")
  case False
  then show ?thesis using assms by (auto simp: read_chunk_def bind_eq_Some_conv)
next
  case True
  define csect where "csect = sect_in_clust (fp_fptr fp) fs"
  obtain r fs1 where r: "(if csect = 0 then read_cluster ops fp fs else Some (Inr fp, fs)) = Some (r, fs1)"
    using assms True by (auto simp: read_chunk_def Let_def bind_eq_Some_conv csect_def)
  show ?thesis
  proof (cases r)
    case (Inl e)
    then have "e \<noteq> FR_OK" using r read_cluster_error [of ops fp fs e fs1] by (simp split: if_splits)
    then show ?thesis using Inl assms True r by (auto simp: read_chunk_def Let_def csect_def)
  next
    case (Inr fp1)
    then have h1: "same_handle fp fp1" using r read_cluster_handle by (auto split: if_splits)
    define sect where "sect = clust2sect fs1 (fp_clust fp1)"
    note body = assms [unfolded read_chunk_def, simplified True if_True Let_def, folded csect_def, unfolded r, simplified Inr, simplified, folded sect_def]
    show ?thesis
    proof (cases "sect = 0 \<or> btr div 512 \<noteq> 0")
      case True
      then show ?thesis using body h1 by (auto simp: bind_eq_Some_conv split: if_splits)
    next
      case False
      then show ?thesis using body h1
        by (auto simp: bind_eq_Some_conv split: if_splits)
          (metis flush_buf_handle fill_buf_handle same_handle_trans same_handle_upd(3))+
    qed
  qed
qed

lemma read_file_loop_handle:
  assumes "read_file_loop ops btr br fp buff fs = Some ((FR_OK, fp', buff', br'), fs')"
  shows "same_handle fp fp'"
proof -
  define P where "P = (\<lambda>(ops :: 'a disk_ops) (btr :: u32) (br :: u32) fp (buff :: bytes) (fs :: 'a fatfs) (y :: (fresult \<times> fil \<times> bytes \<times> u32) \<times> 'a fatfs).
    case y of ((res, fp', _), _) \<Rightarrow> res = FR_OK \<longrightarrow> same_handle fp fp')"
  have "P ops btr br fp buff fs ((FR_OK, fp', buff', br'), fs')"
  proof (rule read_file_loop.raw_induct [where P = P, OF _ assms])
    fix loop :: "'a disk_ops \<Rightarrow> u32 \<Rightarrow> u32 \<Rightarrow> fil \<Rightarrow> bytes \<Rightarrow> 'a fatfs \<Rightarrow> ((fresult \<times> fil \<times> bytes \<times> u32) \<times> 'a fatfs) option"
      and ops btr br fp buff fs y
    assume IH: "\<And>ops btr br fp buff fs y. loop ops btr br fp buff fs = Some y \<Longrightarrow> P ops btr br fp buff fs y"
      and body: "(if btr = 0 then Some ((FR_OK, fp, buff, br), fs)
        else do {
          ((q, fp, buff), fs) \<leftarrow> read_chunk ops btr fp (unat br) buff fs;
          case q of Inl e \<Rightarrow> Some ((e, fp\<lparr>fp_err := e\<rparr>, buff, br), fs)
          | Inr rcnt \<Rightarrow> loop ops (btr - rcnt) (br + rcnt) (fp\<lparr>fp_fptr := fp_fptr fp + rcnt\<rparr>) buff fs }) = Some y"
    show "P ops btr br fp buff fs y"
    proof (cases "btr = 0")
      case True
      then show ?thesis using body by (auto simp: P_def)
    next
      case False
      then obtain q fp1 b1 fs1 where c: "read_chunk ops btr fp (unat br) buff fs = Some ((q, fp1, b1), fs1)"
        using body by (auto simp: bind_eq_Some_conv)
      note h = read_chunk_handle [OF c, THEN conjunct1] and ne = read_chunk_handle [OF c, THEN conjunct2]
      show ?thesis
      proof (cases q)
        case (Inl e)
        then have "y = ((e, fp1\<lparr>fp_err := e\<rparr>, b1, br), fs1)" using body False c by simp
        moreover have "same_handle fp (fp1\<lparr>fp_err := FR_OK\<rparr>)" if "e = FR_OK" using ne Inl that by simp
        ultimately show ?thesis by (auto simp: P_def)
      next
        case (Inr n)
        then have "loop ops (btr - n) (br + n) (fp1\<lparr>fp_fptr := fp_fptr fp1 + n\<rparr>) b1 fs1 = Some y" using body False c by simp
        then have "P ops (btr - n) (br + n) (fp1\<lparr>fp_fptr := fp_fptr fp1 + n\<rparr>) b1 fs1 y" by (rule IH)
        then show ?thesis using same_handle_trans [OF h same_handle_upd(4)] unfolding P_def by (auto intro: same_handle_trans)
      qed
    qed
  qed
  then show ?thesis by (simp add: P_def)
qed

lemma valid_fileD: "valid_file ops fp g = FR_OK \<Longrightarrow> \<exists>a. fp_fs fp = Some a"
  by (auto simp: valid_file_def validate_def split: option.splits)

lemma f_read_law:
  assumes "block_device ops dno ok img" and "valid_file ops fp g = FR_OK" and "fp_fs fp = Some a"
    and "win_inv dno ok img (fs_at g a)" and "vol_layout (fs_at g a)" and "dir_layout (fs_at g a)"
    and "fil_inv img (fs_at g a) fp" and "fp_err fp = FR_OK" and "fp_flag fp AND FA_READ \<noteq> 0" and "unat btr \<le> length buff"
  shows "returns (f_read ops fp buff btr g) (\<lambda>(res, fp', buff', br) g'.
    let src = drop (unat (fp_fptr fp)) (file_data img (fs_at g a) fp); n = min (unat btr) (length src) in
    length buff' = length buff \<and> unat br \<le> n \<and> take (unat br) buff' = take (unat br) src \<and> win_inv dno ok img (fs_at g' a) \<and>
    same_vol (fs_at g a) (fs_at g' a) \<and>
    (if res = FR_OK then unat br = n \<and> drop n buff' = drop n buff \<and> unat (fp_fptr fp') = unat (fp_fptr fp) + n \<and>
       fil_inv img (fs_at g' a) fp' \<and> file_data img (fs_at g' a) fp' = file_data img (fs_at g a) fp \<and> same_handle fp fp'
     else res = FR_DISK_ERR \<and> fp_err fp' = FR_DISK_ERR))"
proof -
  let ?fs = "fs_at g a" and ?remain = "fp_fsize fp - fp_fptr fp"
  let ?n = "if btr > ?remain then ?remain else btr"
  let ?src = "drop (unat (fp_fptr fp)) (file_data img ?fs fp)"
  have le: "unat (fp_fptr fp) \<le> unat (fp_fsize fp)" using assms(7) by (simp add: fil_inv_def fil_at_def)
  then have r: "unat ?remain = length ?src" by (simp add: unat_sub word_le_nat_alt)
  have n: "unat ?n = min (unat btr) (length ?src)" using r by (auto simp: word_less_nat_alt min_def)
  have u: "unat (0 :: u32) + unat ?n \<le> length buff" "unat (0 :: u32) + unat ?n < 2 ^ 32"
    using assms(10) u32_less [of btr] unfolding n by auto
  have "unat (fp_fptr fp) + unat ?n \<le> unat (fp_fsize fp)" using le unfolding n by auto
  from block_device.read_file_loop_law [OF assms(1,4-7) this u] obtain res fp' b' br fs' where
    l: "read_file_loop ops ?n 0 fp buff ?fs = Some ((res, fp', b', br), fs')"
      "block_device.read_post dno ok img ?fs fp ?n 0 buff (res, fp', b', br) fs'"
    by (auto simp: returns_iff)
  have f: "f_read ops fp buff btr g = Some ((res, fp', b', br), put_fs a fs' g)"
    using assms(2,3,8,9) l(1) by (simp add: f_read_def Let_def on_fs_def)
  note post = l(2) [unfolded block_device.read_post_def [OF assms(1)], simplified Let_def prod.case, unfolded n]
  have fits: "min (unat btr) (length ?src) \<le> length buff" using u(1) unfolding n by simp
  have "drop (min (unat btr) (length ?src)) (overlay 0 (take (min (unat btr) (length ?src)) ?src) buff) =
      drop (min (unat btr) (length ?src)) buff"
    using fits by (simp add: overlay_def)
  moreover have "same_vol ?fs fs'" using post by (simp add: quiet_def)
  moreover have "same_handle fp fp'" if "res = FR_OK" using l(1) that by (intro read_file_loop_handle) simp
  ultimately show ?thesis
    using post unfolding f by (auto simp: Let_def fs_at_put)
qed

section \<open>Properties\<close>

text \<open>
  C12: reading a file.  On a valid file object, on a volume in order, \<open>f_read\<close> returns.  It
  delivers the bytes of the file from the file pointer on: as many as asked for, or up to the
  end of the file, whatever mix of sector cache and direct transfers, with the cached bytes
  where the cache is newer than the drive; the pointer moves past them and the contents and the
  invariant of the file are kept.  The only failure is that of the drive; then the bytes counted
  are still bytes of the file, and the object refuses further work.
\<close>

theorem f_read_correct:
  assumes "block_device ops dno ok img" and "valid_file ops fp g = FR_OK" and "fp_fs fp = Some a"
    and "win_inv dno ok img (fs_at g a)" and "vol_layout (fs_at g a)" and "dir_layout (fs_at g a)"
    and "fil_inv img (fs_at g a) fp" and "fp_err fp = FR_OK" and "fp_flag fp AND FA_READ \<noteq> 0" and "unat btr \<le> length buff"
  shows "returns (f_read ops fp buff btr g) (\<lambda>(res, fp', buff', br) g'.
    let src = drop (unat (fp_fptr fp)) (file_data img (fs_at g a) fp); n = min (unat btr) (length src) in
    length buff' = length buff \<and> unat br \<le> n \<and> take (unat br) buff' = take (unat br) src \<and> win_inv dno ok img (fs_at g' a) \<and>
    (if res = FR_OK then unat br = n \<and> drop n buff' = drop n buff \<and> unat (fp_fptr fp') = unat (fp_fptr fp) + n \<and>
       fil_inv img (fs_at g' a) fp' \<and> file_data img (fs_at g' a) fp' = file_data img (fs_at g a) fp
     else res = FR_DISK_ERR \<and> fp_err fp' = FR_DISK_ERR))"
  using f_read_law [OF assms] by (rule returns_mono) (auto simp: Let_def)

text \<open>The theorem on a file of 1500 bytes in the clusters 5 and 7 of the small volume, read from byte 100 on.\<close>

definition data_disk :: "u32 \<Rightarrow> bytes" where
  "data_disk s = (if s = 64 then demo_table 64 else replicate 512 (ucast s))"

definition data_vol :: "(u32 \<Rightarrow> bytes) fatfs" where
  "data_vol = demo_fs data_disk (replicate 512 0)"

definition data_sys :: "(u32 \<Rightarrow> bytes) fat_sys" where
  "data_sys = \<lparr>vol_objs = (\<lambda>_. data_vol), FatFs = [Some 3, None], Fsid = 1, CurrVol = 0, drives = data_disk\<rparr>"

definition data_file :: fil where
  "data_file = \<lparr>fp_fs = Some 3, fp_id = 1, fp_flag = FA_READ, fp_err = FR_OK, fp_fptr = 100, fp_fsize = 1500, fp_sclust = 5,
     fp_clust = 5, fp_dsect = 76, fp_dir_sect = 68, fp_dir_ptr = Some 32, fp_buf = replicate 512 76\<rparr>"

lemma data_fs_at [simp]: "fs_at data_sys 3 = data_vol"
  by (simp add: fs_at_def data_sys_def data_vol_def demo_fs_def)

lemma data_vol_ok: "win_inv 0 ram_ok (\<lambda>d. d) data_vol" "vol_layout data_vol" "dir_layout data_vol"
proof -
  show "win_inv 0 ram_ok (\<lambda>d. d) data_vol"
    unfolding data_vol_def by (rule demo_win_inv) (auto simp: ram_ok_def data_disk_def demo_table_def)
  show "vol_layout data_vol" using demo_vol_layout by (simp add: data_vol_def demo_vol_def vol_layout_def demo_fs_def)
  have "\<exists>k<8. (2 :: u8) = 2 ^ k" by (rule exI [of _ 1]) simp
  then show "dir_layout data_vol" by (simp add: dir_layout_def data_vol_def demo_fs_def FS_FAT16_def FS_FAT32_def)
qed

lemma data_entry: "fat_entry (\<lambda>d. d) data_vol 5 = 7"
  by (simp add: fat_entry_def fat_val_def fat_pos_def fat_bytes_def view_def data_vol_def data_disk_def demo_table_def demo_fs_def
      nth_overlay le16_def Let_def)

lemma data_sel [simp]: "csize data_vol = 2" "n_fatent data_vol = 300" "database data_vol = 70" "winsect data_vol = 68" "dsk data_vol = data_disk"
  by (simp_all add: data_vol_def demo_fs_def)

lemma data_clusters: "fclust (\<lambda>d. d) data_vol 5 0 = Some 5" "fclust (\<lambda>d. d) data_vol 5 (Suc 0) = Some 7"
  by (simp_all add: fclust_def data_entry)

lemma data_fsect: "fsect (\<lambda>d. d) data_vol 5 0 = Some 76" "fsect (\<lambda>d. d) data_vol 5 1 = Some 77" "fsect (\<lambda>d. d) data_vol 5 2 = Some 80"
  by (simp_all add: fsect_def data_clusters clust2sect_def Let_def)

lemma fsects_data_area: "vol_layout fs \<Longrightarrow> s \<in> fsects img fs sc \<Longrightarrow> unat (database fs) \<le> unat s"
proof -
  assume lay: "vol_layout fs" and "s \<in> fsects img fs sc"
  then obtain k c where c: "fclust img fs sc (k div unat (csize fs)) = Some c" "s = clust2sect fs c + of_nat (k mod unat (csize fs))"
    by (auto simp: fsects_def fsect_def)
  have "2 \<le> c" "c < n_fatent fs" "k mod unat (csize fs) < unat (csize fs)"
    using nth_cluster_valid c(1) lay by (auto simp: fclust_def vol_layout_def unat_gt_0)
  from cluster_sector_bounds(1) [OF lay this] show "unat (database fs) \<le> unat s" unfolding c(2) .
qed

lemma data_fil_inv: "fil_inv (\<lambda>d. d) data_vol data_file"
proof -
  have k: "fsect (\<lambda>d. d) data_vol 5 k \<noteq> None" if "128 * k < (375 :: nat)" for k
  proof -
    have "k = 0 \<or> k = 1 \<or> k = 2" using that by auto
    then show ?thesis using data_fsect by auto
  qed
  have "76 \<in> fsects (\<lambda>d. d) data_vol 5" using data_fsect(1) by (auto simp: fsects_def)
  moreover have "68 \<notin> fsects (\<lambda>d. d) data_vol 5"
    using fsects_data_area [OF data_vol_ok(2), of 68 "\<lambda>d. d" 5] by (auto simp: data_vol_def demo_fs_def)
  ultimately show ?thesis
    using data_fsect data_clusters by (auto simp: fil_inv_def fil_base_def fil_at_def fdata_def data_file_def data_disk_def FA_READ_def
        FA__DIRTY_def dest!: k)
qed

lemma data_bytes: "i < 1500 \<Longrightarrow> file_data (\<lambda>d. d) data_vol data_file ! i = (if i < 512 then 76 else if i < 1024 then 77 else 80)"
proof -
  assume i: "i < 1500"
  then consider "i div 512 = 0" "i < 512" | "i div 512 = 1" "512 \<le> i" "i < 1024" | "i div 512 = 2" "1024 \<le> i" by linarith
  then show ?thesis
    using i data_fsect by cases (simp_all add: file_data_def fbytes_def fbyte_def fdata_def data_file_def data_vol_def demo_fs_def data_disk_def)
qed

theorem f_read_correct_witness:
  "returns (f_read ram_ops data_file (replicate 1200 0) 1000 data_sys) (\<lambda>(res, fp', buff', br) g'. res = FR_OK \<longrightarrow>
     unat br = 1000 \<and> (\<forall>i<1000. buff' ! i = (if i < 412 then 76 else if i < 924 then 77 else 80)))"
proof -
  have v: "valid_file ram_ops data_file data_sys = FR_OK"
    by (simp add: valid_file_def validate_def data_file_def) (simp add: data_sys_def data_vol_def demo_fs_def FS_FAT16_def ram_ops_def)
  have f: "fp_fs data_file = Some 3" "fp_err data_file = FR_OK" "fp_flag data_file AND FA_READ \<noteq> 0" "fp_fptr data_file = 100"
      "unat (fp_fsize data_file) = 1500"
    by (simp_all add: data_file_def FA_READ_def)
  have "buff' ! i = (if i < 412 then 76 else if i < 924 then 77 else 80)"
    if "take 1000 buff' = take 1000 (drop 100 (file_data (\<lambda>d. d) data_vol data_file))" "i < 1000" for buff' i
  proof -
    have "buff' ! i = take 1000 buff' ! i" using that(2) by simp
    also have "\<dots> = file_data (\<lambda>d. d) data_vol data_file ! (100 + i)" unfolding that(1) using that(2) f(5) by simp
    finally show ?thesis using that(2) by (auto simp: data_bytes)
  qed
  then show ?thesis
    using f_read_correct [OF ram.block_device_axioms v f(1), of 0 1000 "replicate 1200 0"] data_vol_ok data_fil_inv f
    by (auto simp: Let_def elim!: returns_mono)
qed

end
