(* ===== verification/Fat_Api.thy ===== *)
theory Fat_Api
  imports Fat_Transfer
begin

text \<open>
  The functions of FatFs on directories and volumes, \<open>ff.c\<close>: current directory, directory
  listing, status, free space, deletion, creation of directories, attributes, renaming, times
  and labels.  Each finds the volume of its path and works on the file system object there.
\<close>

section \<open>On the volume of a path\<close>

definition AM_HID :: u8 where "AM_HID = 0x02"
definition AM_SYS :: u8 where "AM_SYS = 0x04"
definition DIR_Name :: nat where "DIR_Name = 0"
definition BS_VolID :: nat where "BS_VolID = 39"
definition BS_VolID32 :: nat where "BS_VolID32 = 67"

text \<open>\<open>fail\<close> is the result when the volume is not found.\<close>

definition with_volume :: "'d disk_ops \<Rightarrow> bytes option \<Rightarrow> u8 \<Rightarrow> (fresult \<Rightarrow> 'a) \<Rightarrow>
    (nat \<Rightarrow> bytes \<Rightarrow> 'd fatfs \<Rightarrow> ('a \<times> 'd fatfs) option) \<Rightarrow> 'd fat_sys \<Rightarrow> ('a \<times> 'd fat_sys) option" where
  "with_volume ops path wmode fail f g = do {
     ((res, rfs, path), g) \<leftarrow> find_volume ops path wmode g;
     if res \<noteq> FR_OK then Some (fail res, g)
     else do { a \<leftarrow> rfs; p \<leftarrow> path; on_fs a (f a p) g } }"

text \<open>The object of a path that names no dot entry.\<close>

definition find_object :: "'d disk_ops \<Rightarrow> bytes \<Rightarrow> nat \<Rightarrow> bytes \<Rightarrow> 'd fatfs \<Rightarrow> ((fresult \<times> fdir) \<times> 'd fatfs) option" where
  "find_object ops fn a path fs = do {
     ((res, dj), fs) \<leftarrow> follow_path ops (local_dir a fn) path fs;
     if res \<noteq> FR_OK then Some ((res, dj), fs)
     else do {
       ns \<leftarrow> get_at NSFLAG (dj_fn dj);
       Some ((if ns AND NS_DOT \<noteq> 0 then FR_INVALID_NAME else FR_OK, dj), fs) } }"

section \<open>The current directory\<close>

definition chdir_volume :: "'d disk_ops \<Rightarrow> bytes \<Rightarrow> nat \<Rightarrow> bytes \<Rightarrow> 'd fatfs \<Rightarrow> (fresult \<times> 'd fatfs) option" where
  "chdir_volume ops fn a path fs = do {
     ((res, dj), fs) \<leftarrow> follow_path ops (local_dir a fn) path fs;
     (res, fs) \<leftarrow> (if res = FR_OK then
        (case dj_dir dj of None \<Rightarrow> Some (res, fs\<lparr>cdir := dj_sclust dj\<rparr>)
         | Some dir \<Rightarrow> do {
             at \<leftarrow> get_at (dir + DIR_Attr) (win fs);
             if at AND AM_DIR \<noteq> 0 then do { cl \<leftarrow> ld_clust fs dir; Some (res, fs\<lparr>cdir := cl\<rparr>) }
             else Some (FR_NO_PATH, fs) })
        else Some (res, fs));
     Some (if res = FR_NO_FILE then FR_NO_PATH else res, fs) }"

definition f_chdir :: "'d disk_ops \<Rightarrow> bytes \<Rightarrow> bytes option \<Rightarrow> 'd fat_sys \<Rightarrow> (fresult \<times> 'd fat_sys) option" where
  "f_chdir ops fn path g = with_volume ops path 0 (\<lambda>r. r) (chdir_volume ops fn) g"

text \<open>The entry of a directory whose start cluster is \<open>ccl\<close>.\<close>

partial_function (option) child_loop :: "'d disk_ops \<Rightarrow> u32 \<Rightarrow> fdir \<Rightarrow> 'd fatfs \<Rightarrow> ((fresult \<times> fdir) \<times> 'd fatfs) option" where
  "child_loop ops ccl dj fs = do {
     ((res, dj), fs) \<leftarrow> dir_read ops False dj fs;
     if res \<noteq> FR_OK then Some ((res, dj), fs)
     else do {
       dir \<leftarrow> dj_dir dj;
       cl \<leftarrow> ld_clust fs dir;
       if ccl = cl then Some ((res, dj), fs)
       else do {
         ((res, dj), fs) \<leftarrow> dir_next ops False dj fs;
         if res = FR_OK then child_loop ops ccl dj fs else Some ((res, dj), fs) } } }"

text \<open>One step up: the object then stands in the parent at the entry of the child.\<close>

definition cwd_parent :: "'d disk_ops \<Rightarrow> fdir \<Rightarrow> 'd fatfs \<Rightarrow> ((fresult \<times> fdir) \<times> 'd fatfs) option" where
  "cwd_parent ops dj fs = do {
     let ccl = dj_sclust dj;
     ((res, dj), fs) \<leftarrow> dir_sdi ops 1 dj fs;
     if res \<noteq> FR_OK then Some ((res, dj), fs)
     else do {
       ((res, dj), fs) \<leftarrow> dir_read ops False dj fs;
       if res \<noteq> FR_OK then Some ((res, dj), fs)
       else do {
         dir \<leftarrow> dj_dir dj;
         cl \<leftarrow> ld_clust fs dir;
         ((res, dj), fs) \<leftarrow> dir_sdi ops 0 (dj\<lparr>dj_sclust := cl\<rparr>) fs;
         if res \<noteq> FR_OK then Some ((res, dj), fs)
         else do {
           ((res, dj), fs) \<leftarrow> child_loop ops ccl dj fs;
           Some ((if res = FR_NO_FILE then FR_INT_ERR else res, dj), fs) } } } }"

text \<open>Pushing a name and a separator below index \<open>i\<close> of the buffer; \<open>fno\<close> is the uninitialised object on the stack.\<close>

definition cwd_push :: "bytes \<Rightarrow> nat \<Rightarrow> bytes \<Rightarrow> (fresult \<times> nat \<times> bytes) option" where
  "cwd_push fname i buff = do {
     let name = takeWhile (\<lambda>c. c \<noteq> 0) fname;
     let n = length name;
     if n = length fname then None
     else if i < n + 3 then Some (FR_NOT_ENOUGH_CORE, i, buff)
     else do {
       buff \<leftarrow> put_range (i - n) name buff;
       buff \<leftarrow> put_at (i - n - 1) 0x2F buff;
       Some (FR_OK, i - n - 1, buff) } }"

partial_function (option) cwd_loop ::
  "'d disk_ops \<Rightarrow> filinfo \<Rightarrow> fdir \<Rightarrow> nat \<Rightarrow> bytes \<Rightarrow> 'd fatfs \<Rightarrow> ((fresult \<times> nat \<times> bytes) \<times> 'd fatfs) option" where
  "cwd_loop ops fno dj i buff fs =
     (if dj_sclust dj = 0 then Some ((FR_OK, i, buff), fs)
      else do {
        ((res, dj), fs) \<leftarrow> cwd_parent ops dj fs;
        if res \<noteq> FR_OK then Some ((res, i, buff), fs)
        else do {
          fno \<leftarrow> get_fileinfo dj fs fno;
          (res, i, buff) \<leftarrow> cwd_push (fi_fname fno) i buff;
          if res \<noteq> FR_OK then Some ((res, i, buff), fs) else cwd_loop ops fno dj i buff fs } })"

text \<open>The drive and the stacked path, moved to the front.\<close>

definition cwd_finish :: "u8 \<Rightarrow> fresult \<Rightarrow> nat \<Rightarrow> nat \<Rightarrow> bytes \<Rightarrow> bytes option" where
  "cwd_finish vol res i len buff =
     (if res \<noteq> FR_OK then put_at 0 0 buff
      else do {
        buff \<leftarrow> put_at 0 (0x30 + vol) buff;
        buff \<leftarrow> put_at 1 0x3A buff;
        (tp, buff) \<leftarrow> (if i = len then do { buff \<leftarrow> put_at 2 0x2F buff; Some (3, buff) }
          else do {
            s \<leftarrow> get_range i (len - i) buff;
            buff \<leftarrow> put_range 2 s buff;
            Some (2 + (len - i), buff) });
        put_at tp 0 buff })"

text \<open>The volume is found by way of the emptied buffer.\<close>

definition f_getcwd :: "'d disk_ops \<Rightarrow> bytes \<Rightarrow> filinfo \<Rightarrow> bytes \<Rightarrow> u32 \<Rightarrow> 'd fat_sys \<Rightarrow> ((fresult \<times> bytes) \<times> 'd fat_sys) option" where
  "f_getcwd ops fn fno buff len g = do {
     buff \<leftarrow> put_at 0 0 buff;
     with_volume ops (Some buff) 0 (\<lambda>r. (r, buff)) (\<lambda>a _ fs. do {
       ((res, i, buff), fs) \<leftarrow> cwd_loop ops fno ((local_dir a fn)\<lparr>dj_sclust := cdir fs\<rparr>) (unat len) buff fs;
       buff \<leftarrow> cwd_finish (CurrVol g) res i (unat len) buff;
       Some ((res, buff), fs) }) g }"

section \<open>Directories\<close>

definition opendir_volume :: "'d disk_ops \<Rightarrow> fdir \<Rightarrow> nat \<Rightarrow> bytes \<Rightarrow> 'd fatfs \<Rightarrow> ((fresult \<times> fdir) \<times> 'd fatfs) option" where
  "opendir_volume ops dp a path fs = do {
     ((res, dp), fs) \<leftarrow> follow_path ops (dp\<lparr>dj_fs := Some a\<rparr>) path fs;
     ((res, dp), fs) \<leftarrow> (if res = FR_OK then do {
          (res, dp) \<leftarrow> (case dj_dir dp of None \<Rightarrow> Some (res, dp)
             | Some dir \<Rightarrow> do {
                 at \<leftarrow> get_at (dir + DIR_Attr) (win fs);
                 if at AND AM_DIR \<noteq> 0 then do { cl \<leftarrow> ld_clust fs dir; Some (res, dp\<lparr>dj_sclust := cl\<rparr>) }
                 else Some (FR_NO_PATH, dp) });
          if res = FR_OK then dir_sdi ops 0 (dp\<lparr>dj_id := fs_id fs\<rparr>) fs else Some ((res, dp), fs) }
        else Some ((res, dp), fs));
     Some ((if res = FR_NO_FILE then FR_NO_PATH else res, dp), fs) }"

definition f_opendir :: "'d disk_ops \<Rightarrow> bytes \<Rightarrow> fdir option \<Rightarrow> bytes option \<Rightarrow> 'd fat_sys \<Rightarrow> ((fresult \<times> fdir option) \<times> 'd fat_sys) option" where
  "f_opendir ops fn dp path g =
     (case dp of None \<Rightarrow> Some ((FR_INVALID_OBJECT, None), g)
      | Some dp \<Rightarrow> do {
          ((res, dp), g) \<leftarrow> with_volume ops path 0 (\<lambda>r. (r, dp)) (opendir_volume ops (dp\<lparr>dj_fn := fn\<rparr>)) g;
          Some ((res, Some (if res \<noteq> FR_OK then dp\<lparr>dj_fs := None\<rparr> else dp)), g) })"

definition valid_dir :: "'d disk_ops \<Rightarrow> fdir \<Rightarrow> 'd fat_sys \<Rightarrow> fresult" where
  "valid_dir ops dp g = validate ops (Some (dj_fs dp, dj_id dp)) g"

definition f_closedir :: "'d disk_ops \<Rightarrow> fdir \<Rightarrow> 'd fat_sys \<Rightarrow> fresult \<times> fdir" where
  "f_closedir ops dp g =
     (let res = valid_dir ops dp g in (res, if res = FR_OK then dp\<lparr>dj_fs := None\<rparr> else dp))"

definition readdir_volume :: "'d disk_ops \<Rightarrow> fdir \<Rightarrow> filinfo \<Rightarrow> 'd fatfs \<Rightarrow> ((fresult \<times> fdir \<times> filinfo) \<times> 'd fatfs) option" where
  "readdir_volume ops dp fno fs = do {
     ((res, dp), fs) \<leftarrow> dir_read ops False dp fs;
     let (res, dp) = (if res = FR_NO_FILE then (FR_OK, dp\<lparr>dj_sect := 0\<rparr>) else (res, dp));
     if res \<noteq> FR_OK then Some ((res, dp, fno), fs)
     else do {
       fno \<leftarrow> get_fileinfo dp fs fno;
       ((res, dp), fs) \<leftarrow> dir_next ops False dp fs;
       Some (if res = FR_NO_FILE then (FR_OK, dp\<lparr>dj_sect := 0\<rparr>, fno) else (res, dp, fno), fs) } }"

definition f_readdir :: "'d disk_ops \<Rightarrow> bytes \<Rightarrow> fdir \<Rightarrow> filinfo option \<Rightarrow> 'd fat_sys \<Rightarrow>
    ((fresult \<times> fdir \<times> filinfo option) \<times> 'd fat_sys) option" where
  "f_readdir ops fn dp fno g =
     (let res = valid_dir ops dp g in
      if res \<noteq> FR_OK then Some ((res, dp, fno), g)
      else do {
        a \<leftarrow> dj_fs dp;
        case fno of None \<Rightarrow> do {
            ((res, dp), g) \<leftarrow> on_fs a (dir_sdi ops 0 dp) g;
            Some ((res, dp, None), g) }
        | Some fno \<Rightarrow> do {
            ((res, dp, fno), g) \<leftarrow> on_fs a (readdir_volume ops (dp\<lparr>dj_fn := fn\<rparr>) fno) g;
            Some ((res, dp, Some fno), g) } })"

definition stat_volume :: "'d disk_ops \<Rightarrow> bytes \<Rightarrow> filinfo option \<Rightarrow> nat \<Rightarrow> bytes \<Rightarrow> 'd fatfs \<Rightarrow> ((fresult \<times> filinfo option) \<times> 'd fatfs) option" where
  "stat_volume ops fn fno a path fs = do {
     ((res, dj), fs) \<leftarrow> follow_path ops (local_dir a fn) path fs;
     if res \<noteq> FR_OK then Some ((res, fno), fs)
     else if dj_dir dj = None then Some ((FR_INVALID_NAME, fno), fs)
     else (case fno of None \<Rightarrow> Some ((res, None), fs)
       | Some i \<Rightarrow> do { i \<leftarrow> get_fileinfo dj fs i; Some ((res, Some i), fs) }) }"

definition f_stat :: "'d disk_ops \<Rightarrow> bytes \<Rightarrow> bytes option \<Rightarrow> filinfo option \<Rightarrow> 'd fat_sys \<Rightarrow> ((fresult \<times> filinfo option) \<times> 'd fat_sys) option" where
  "f_stat ops fn path fno g = with_volume ops path 0 (\<lambda>r. (r, fno)) (stat_volume ops fn fno) g"

section \<open>Free space\<close>

text \<open>The FAT12 table, entry by entry; the count so far comes back with an error, too.\<close>

partial_function (option) free12_loop :: "'d disk_ops \<Rightarrow> u32 \<Rightarrow> u32 \<Rightarrow> 'd fatfs \<Rightarrow> ((fresult \<times> u32) \<times> 'd fatfs) option" where
  "free12_loop ops clst nfree fs = do {
     (stat, fs) \<leftarrow> get_fat ops clst fs;
     if stat = 0xFFFFFFFF then Some ((FR_DISK_ERR, nfree), fs)
     else if stat = 1 then Some ((FR_INT_ERR, nfree), fs)
     else do {
       let nfree = (if stat = 0 then nfree + 1 else nfree);
       if clst + 1 < n_fatent fs then free12_loop ops (clst + 1) nfree fs else Some ((FR_OK, nfree), fs) } }"

text \<open>
  A FAT16 or FAT32 table, sector by sector: \<open>clst\<close> entries left, \<open>sect\<close> the next sector, \<open>p\<close> the
  place in the window and \<open>i\<close> the bytes left there.  An entry tells whether it is free and its width.
\<close>

definition entry_free :: "u8 \<Rightarrow> nat \<Rightarrow> bytes \<Rightarrow> (bool \<times> nat) option" where
  "entry_free fat p w =
     (if fat = FS_FAT16 then do { v \<leftarrow> LD_WORD p w; Some (v = 0, 2) }
      else do { v \<leftarrow> LD_DWORD p w; Some (v AND 0x0FFFFFFF = 0, 4) })"

partial_function (option) free_loop ::
  "'d disk_ops \<Rightarrow> u32 \<Rightarrow> u32 \<Rightarrow> nat \<Rightarrow> u32 \<Rightarrow> u32 \<Rightarrow> 'd fatfs \<Rightarrow> ((fresult \<times> u32) \<times> 'd fatfs) option" where
  "free_loop ops clst sect p i nfree fs = do {
     (res, fs) \<leftarrow> (if i = 0 then move_window ops sect fs else Some (FR_OK, fs));
     if res \<noteq> FR_OK then Some ((res, nfree), fs)
     else do {
       let (sect, p, i) = (if i = 0 then (sect + 1, 0, of_nat SS) else (sect, p, i));
       (free, w) \<leftarrow> entry_free (fs_type fs) p (win fs);
       let nfree = (if free then nfree + 1 else nfree);
       if clst - 1 = 0 then Some ((FR_OK, nfree), fs)
       else free_loop ops (clst - 1) sect (p + w) (i - of_nat w) nfree fs } }"

text \<open>The count is kept as the number of free clusters, whatever the scan returned.\<close>

definition getfree_volume :: "'d disk_ops \<Rightarrow> 'd fatfs \<Rightarrow> ((fresult \<times> u32) \<times> 'd fatfs) option" where
  "getfree_volume ops fs =
     (if free_clust fs \<le> n_fatent fs - 2 then Some ((FR_OK, free_clust fs), fs)
      else do {
        ((res, nfree), fs) \<leftarrow> (if fs_type fs = FS_FAT12 then free12_loop ops 2 0 fs
           else free_loop ops (n_fatent fs) (fatbase fs) 0 0 0 fs);
        Some ((res, nfree), fs\<lparr>free_clust := nfree, fsi_flag := fsi_flag fs OR 1\<rparr>) })"

text \<open>The result, the number of free clusters if it is stored, and the file system object.\<close>

definition f_getfree :: "'d disk_ops \<Rightarrow> bytes option \<Rightarrow> 'd fat_sys \<Rightarrow> ((fresult \<times> u32 option \<times> nat option) \<times> 'd fat_sys) option" where
  "f_getfree ops path g = do {
     ((res, rfs, _), g) \<leftarrow> find_volume ops path 0 g;
     if res \<noteq> FR_OK then Some ((res, None, rfs), g)
     else do {
       a \<leftarrow> rfs;
       ((res, n), g) \<leftarrow> on_fs a (getfree_volume ops) g;
       Some ((res, Some n, rfs), g) } }"

section \<open>Deleting\<close>

text \<open>Whether the directory at \<open>dclst\<close> can be removed.\<close>

definition check_empty :: "'d disk_ops \<Rightarrow> u32 \<Rightarrow> fdir \<Rightarrow> 'd fatfs \<Rightarrow> (fresult \<times> 'd fatfs) option" where
  "check_empty ops dclst dj fs =
     (if dclst = cdir fs then Some (FR_DENIED, fs)
      else do {
        ((res, sdj), fs) \<leftarrow> dir_sdi ops 2 (dj\<lparr>dj_sclust := dclst\<rparr>) fs;
        if res \<noteq> FR_OK then Some (res, fs)
        else do {
          ((res, sdj), fs) \<leftarrow> dir_read ops False sdj fs;
          Some (if res = FR_OK then FR_DENIED else if res = FR_NO_FILE then FR_OK else res, fs) } })"

definition unlink_volume :: "'d disk_ops \<Rightarrow> bytes \<Rightarrow> nat \<Rightarrow> bytes \<Rightarrow> 'd fatfs \<Rightarrow> (fresult \<times> 'd fatfs) option" where
  "unlink_volume ops fn a path fs = do {
     ((res, dj), fs) \<leftarrow> find_object ops fn a path fs;
     if res \<noteq> FR_OK then Some (res, fs)
     else (case dj_dir dj of None \<Rightarrow> Some (FR_INVALID_NAME, fs)
       | Some dir \<Rightarrow> do {
           at \<leftarrow> get_at (dir + DIR_Attr) (win fs);
           if at AND AM_RDO \<noteq> 0 then Some (FR_DENIED, fs)
           else do {
             dclst \<leftarrow> ld_clust fs dir;
             (res, fs) \<leftarrow> (if dclst \<noteq> 0 \<and> at AND AM_DIR \<noteq> 0 then check_empty ops dclst dj fs else Some (FR_OK, fs));
             if res \<noteq> FR_OK then Some (res, fs)
             else do {
               ((res, dj), fs) \<leftarrow> dir_remove ops dj fs;
               (res, fs) \<leftarrow> (if res = FR_OK \<and> dclst \<noteq> 0 then remove_chain ops dclst fs else Some (res, fs));
               if res = FR_OK then sync_fs ops fs else Some (res, fs) } } }) }"

definition f_unlink :: "'d disk_ops \<Rightarrow> bytes \<Rightarrow> bytes option \<Rightarrow> 'd fat_sys \<Rightarrow> (fresult \<times> 'd fat_sys) option" where
  "f_unlink ops fn path g = with_volume ops path 1 (\<lambda>r. r) (unlink_volume ops fn) g"

section \<open>Creating directories\<close>

text \<open>The first sector of a directory at cluster \<open>dcl\<close> below \<open>pcl\<close>: its dot entries.\<close>

definition dot_entries :: "u32 \<Rightarrow> u32 \<Rightarrow> bytes \<Rightarrow> bytes option" where
  "dot_entries dcl pcl w = do {
     w \<leftarrow> mem_set 0 0 SS w;
     w \<leftarrow> mem_set DIR_Name 0x20 11 w;
     w \<leftarrow> put_at DIR_Name 0x2E w;
     w \<leftarrow> put_at DIR_Attr AM_DIR w;
     w \<leftarrow> ST_DWORD DIR_WrtTime GET_FATTIME w;
     w \<leftarrow> st_clust 0 dcl w;
     e \<leftarrow> get_range 0 SZ_DIRE w;
     w \<leftarrow> put_range SZ_DIRE e w;
     w \<leftarrow> put_at (SZ_DIRE + 1) 0x2E w;
     st_clust SZ_DIRE pcl w }"

text \<open>Writing the sectors of the new directory: \<open>n\<close> left, the next at \<open>dsc\<close>.\<close>

primrec mkdir_loop :: "'d disk_ops \<Rightarrow> nat \<Rightarrow> u32 \<Rightarrow> 'd fatfs \<Rightarrow> (fresult \<times> 'd fatfs) option" where
  "mkdir_loop ops 0 dsc fs = Some (FR_OK, fs)"
| "mkdir_loop ops (Suc n) dsc fs = do {
     (res, fs) \<leftarrow> sync_window ops (fs\<lparr>winsect := dsc, wflag := 1\<rparr>);
     if res \<noteq> FR_OK then Some (res, fs)
     else do {
       w \<leftarrow> mem_set 0 0 SS (win fs);
       mkdir_loop ops n (dsc + 1) (fs\<lparr>win := w\<rparr>) } }"

definition make_table :: "'d disk_ops \<Rightarrow> u32 \<Rightarrow> u32 \<Rightarrow> 'd fatfs \<Rightarrow> (fresult \<times> 'd fatfs) option" where
  "make_table ops dcl sclust fs = do {
     (res, fs) \<leftarrow> (if dcl = 0 then Some (FR_DENIED, fs)
        else if dcl = 1 then Some (FR_INT_ERR, fs)
        else if dcl = 0xFFFFFFFF then Some (FR_DISK_ERR, fs)
        else sync_window ops fs);
     if res \<noteq> FR_OK then Some (res, fs)
     else do {
       w \<leftarrow> dot_entries dcl (if fs_type fs = FS_FAT32 \<and> sclust = dirbase fs then 0 else sclust) (win fs);
       mkdir_loop ops (unat (csize fs)) (clust2sect fs dcl) (fs\<lparr>win := w\<rparr>) } }"

definition mkdir_volume :: "'d disk_ops \<Rightarrow> bytes \<Rightarrow> nat \<Rightarrow> bytes \<Rightarrow> 'd fatfs \<Rightarrow> (fresult \<times> 'd fatfs) option" where
  "mkdir_volume ops fn a path fs = do {
     ((res, dj), fs) \<leftarrow> follow_path ops (local_dir a fn) path fs;
     let res = (if res = FR_OK then FR_EXIST else res);
     ns \<leftarrow> (if res = FR_NO_FILE then get_at NSFLAG (dj_fn dj) else Some 0);
     let res = (if res = FR_NO_FILE \<and> ns AND NS_DOT \<noteq> 0 then FR_INVALID_NAME else res);
     if res \<noteq> FR_NO_FILE then Some (res, fs)
     else do {
       (dcl, fs) \<leftarrow> create_chain ops 0 fs;
       (res, fs) \<leftarrow> make_table ops dcl (dj_sclust dj) fs;
       ((res, dj), fs) \<leftarrow> (if res = FR_OK then dir_register ops dj fs else Some ((res, dj), fs));
       if res \<noteq> FR_OK then do {
         (_, fs) \<leftarrow> remove_chain ops dcl fs;
         Some (res, fs) }
       else do {
         dir \<leftarrow> dj_dir dj;
         w \<leftarrow> put_at (dir + DIR_Attr) AM_DIR (win fs);
         w \<leftarrow> ST_DWORD (dir + DIR_WrtTime) GET_FATTIME w;
         w \<leftarrow> st_clust dir dcl w;
         sync_fs ops (fs\<lparr>win := w, wflag := 1\<rparr>) } } }"

definition f_mkdir :: "'d disk_ops \<Rightarrow> bytes \<Rightarrow> bytes option \<Rightarrow> 'd fat_sys \<Rightarrow> (fresult \<times> 'd fat_sys) option" where
  "f_mkdir ops fn path g = with_volume ops path 1 (\<lambda>r. r) (mkdir_volume ops fn) g"

section \<open>Attributes, times and names\<close>

text \<open>A change \<open>f\<close> of the entry of an object, written through.\<close>

definition change_entry :: "'d disk_ops \<Rightarrow> bytes \<Rightarrow> (nat \<Rightarrow> bytes \<Rightarrow> bytes option) \<Rightarrow> nat \<Rightarrow> bytes \<Rightarrow> 'd fatfs \<Rightarrow> (fresult \<times> 'd fatfs) option" where
  "change_entry ops fn f a path fs = do {
     ((res, dj), fs) \<leftarrow> find_object ops fn a path fs;
     if res \<noteq> FR_OK then Some (res, fs)
     else (case dj_dir dj of None \<Rightarrow> Some (FR_INVALID_NAME, fs)
       | Some dir \<Rightarrow> do {
           w \<leftarrow> f dir (win fs);
           sync_fs ops (fs\<lparr>win := w, wflag := 1\<rparr>) }) }"

definition f_chmod :: "'d disk_ops \<Rightarrow> bytes \<Rightarrow> bytes option \<Rightarrow> u8 \<Rightarrow> u8 \<Rightarrow> 'd fat_sys \<Rightarrow> (fresult \<times> 'd fat_sys) option" where
  "f_chmod ops fn path attr msk g =
     with_volume ops path 1 (\<lambda>r. r) (change_entry ops fn (\<lambda>dir w. do {
       let msk = msk AND (AM_RDO OR AM_HID OR AM_SYS OR AM_ARC);
       a \<leftarrow> get_at (dir + DIR_Attr) w;
       put_at (dir + DIR_Attr) ((attr AND msk) OR (a AND NOT msk)) w })) g"

definition f_utime :: "'d disk_ops \<Rightarrow> bytes \<Rightarrow> bytes option \<Rightarrow> filinfo \<Rightarrow> 'd fat_sys \<Rightarrow> (fresult \<times> 'd fat_sys) option" where
  "f_utime ops fn path fno g =
     with_volume ops path 1 (\<lambda>r. r) (change_entry ops fn (\<lambda>dir w. do {
       w \<leftarrow> ST_WORD (dir + DIR_WrtTime) (fi_ftime fno) w;
       ST_WORD (dir + DIR_WrtDate) (fi_fdate fno) w })) g"

text \<open>The dot-dot entry of a directory that moves to the directory at \<open>pcl\<close>.\<close>

definition move_parent :: "'d disk_ops \<Rightarrow> nat \<Rightarrow> u32 \<Rightarrow> 'd fatfs \<Rightarrow> (fresult \<times> 'd fatfs) option" where
  "move_parent ops dir pcl fs = do {
     cl \<leftarrow> ld_clust fs dir;
     let dw = clust2sect fs cl;
     if dw = 0 then Some (FR_INT_ERR, fs)
     else do {
       (res, fs) \<leftarrow> move_window ops dw fs;
       c \<leftarrow> get_at (SZ_DIRE + 1) (win fs);
       if res = FR_OK \<and> c = 0x2E then do {
         w \<leftarrow> st_clust SZ_DIRE pcl (win fs);
         Some (res, fs\<lparr>win := w, wflag := 1\<rparr>) }
       else Some (res, fs) } }"

text \<open>The new entry takes over everything but the name; \<open>buf\<close> is the old one from the attribute on.\<close>

definition rename_entry :: "'d disk_ops \<Rightarrow> bytes \<Rightarrow> fdir \<Rightarrow> fdir \<Rightarrow> 'd fatfs \<Rightarrow> (fresult \<times> 'd fatfs) option" where
  "rename_entry ops buf djo djn fs = do {
     ((res, djn), fs) \<leftarrow> dir_register ops djn fs;
     if res \<noteq> FR_OK then Some (res, fs)
     else do {
       dir \<leftarrow> dj_dir djn;
       s \<leftarrow> get_range 2 19 buf;
       w \<leftarrow> put_range (dir + 13) s (win fs);
       b \<leftarrow> get_at 0 buf;
       w \<leftarrow> put_at (dir + DIR_Attr) (b OR AM_ARC) w;
       let fs = fs\<lparr>win := w, wflag := 1\<rparr>;
       at \<leftarrow> get_at (dir + DIR_Attr) w;
       (res, fs) \<leftarrow> (if at AND AM_DIR \<noteq> 0 \<and> dj_sclust djo \<noteq> dj_sclust djn then move_parent ops dir (dj_sclust djn) fs
          else Some (FR_OK, fs));
       if res \<noteq> FR_OK then Some (res, fs)
       else do {
         ((res, djo), fs) \<leftarrow> dir_remove ops djo fs;
         if res = FR_OK then sync_fs ops fs else Some (res, fs) } } }"

definition rename_volume :: "'d disk_ops \<Rightarrow> bytes \<Rightarrow> u8 \<Rightarrow> bytes option \<Rightarrow> nat \<Rightarrow> bytes \<Rightarrow> 'd fatfs \<Rightarrow> (fresult \<times> 'd fatfs) option" where
  "rename_volume ops fn vol path_new a path_old fs = do {
     ((res, djo), fs) \<leftarrow> find_object ops fn a path_old fs;
     if res \<noteq> FR_OK then Some (res, fs)
     else (case dj_dir djo of None \<Rightarrow> Some (FR_NO_FILE, fs)
       | Some dir \<Rightarrow> do {
           buf \<leftarrow> get_range (dir + DIR_Attr) 21 (win fs);
           (v, path_new) \<leftarrow> get_ldnumber vol path_new;
           ((res, djn), fs) \<leftarrow> (if v \<ge> 0 then do { p \<leftarrow> path_new; follow_path ops djo p fs }
             else Some ((FR_INVALID_DRIVE, djo), fs));
           let res = (if res = FR_OK then FR_EXIST else res);
           if res = FR_NO_FILE then rename_entry ops buf djo djn fs else Some (res, fs) }) }"

definition f_rename :: "'d disk_ops \<Rightarrow> bytes \<Rightarrow> bytes option \<Rightarrow> bytes option \<Rightarrow> 'd fat_sys \<Rightarrow> (fresult \<times> 'd fat_sys) option" where
  "f_rename ops fn path_old path_new g =
     with_volume ops path_old 1 (\<lambda>r. r) (rename_volume ops fn (CurrVol g) path_new) g"

section \<open>Labels\<close>

text \<open>The terminator behind the last character that is no blank.\<close>

primrec trim_label :: "nat \<Rightarrow> bytes \<Rightarrow> bytes option" where
  "trim_label 0 label = put_at 0 0 label"
| "trim_label (Suc j) label = do {
     label \<leftarrow> put_at (Suc j) 0 label;
     c \<leftarrow> get_at j label;
     if c = 0x20 then trim_label j label else Some label }"

definition getlabel_dir :: "'d disk_ops \<Rightarrow> fdir \<Rightarrow> bytes \<Rightarrow> 'd fatfs \<Rightarrow> ((fresult \<times> bytes) \<times> 'd fatfs) option" where
  "getlabel_dir ops dj label fs = do {
     ((res, dj), fs) \<leftarrow> dir_sdi ops 0 (dj\<lparr>dj_sclust := 0\<rparr>) fs;
     if res \<noteq> FR_OK then Some ((res, label), fs)
     else do {
       ((res, dj), fs) \<leftarrow> dir_read ops True dj fs;
       if res = FR_OK then do {
         dir \<leftarrow> dj_dir dj;
         m \<leftarrow> get_range dir 11 (win fs);
         label \<leftarrow> put_range 0 m label;
         label \<leftarrow> trim_label 11 label;
         Some ((res, label), fs) }
       else if res = FR_NO_FILE then do { label \<leftarrow> put_at 0 0 label; Some ((FR_OK, label), fs) }
       else Some ((res, label), fs) } }"

definition getlabel_vsn :: "'d disk_ops \<Rightarrow> 'd fatfs \<Rightarrow> ((fresult \<times> u32 option) \<times> 'd fatfs) option" where
  "getlabel_vsn ops fs = do {
     (res, fs) \<leftarrow> move_window ops (volbase fs) fs;
     if res \<noteq> FR_OK then Some ((res, None), fs)
     else do {
       v \<leftarrow> LD_DWORD (if fs_type fs = FS_FAT32 then BS_VolID32 else BS_VolID) (win fs);
       Some ((res, Some v), fs) } }"

text \<open>The label buffer and the serial number are optional.\<close>

definition f_getlabel :: "'d disk_ops \<Rightarrow> bytes option \<Rightarrow> bytes option \<Rightarrow> bool \<Rightarrow> 'd fat_sys \<Rightarrow>
    ((fresult \<times> bytes option \<times> u32 option) \<times> 'd fat_sys) option" where
  "f_getlabel ops path label vsn g =
     with_volume ops path 0 (\<lambda>r. (r, label, None)) (\<lambda>a _ fs. do {
       ((res, label), fs) \<leftarrow> (case label of None \<Rightarrow> Some ((FR_OK, None), fs)
         | Some l \<Rightarrow> do {
             ((res, l), fs) \<leftarrow> getlabel_dir ops (local_dir a []) l fs;
             Some ((res, Some l), fs) });
       ((res, v), fs) \<leftarrow> (if res = FR_OK \<and> vsn then getlabel_vsn ops fs else Some ((res, None), fs));
       Some ((res, label, v), fs) }) g"

definition label_illegal :: bytes where
  "label_illegal = [0x22, 0x2A, 0x2B, 0x2C, 0x2E, 0x3A, 0x3B, 0x3C, 0x3D, 0x3E, 0x3F, 0x5B, 0x5D, 0x7C, 0x7F]"

text \<open>A label in the form of a directory entry, from the characters left and \<open>j\<close> the place to store at.\<close>

fun label_loop :: "bytes \<Rightarrow> nat \<Rightarrow> bytes \<Rightarrow> bytes option" where
  "label_loop [] j vn = Some (overlay j (replicate (11 - j) 0x20) vn)"
| "label_loop (w # s) j vn =
     (let w = (if IsLower w then w - 0x20 else w); w = (if w \<ge> 0x80 then 0 else w) in
      if w = 0 \<or> chk_chr label_illegal (uint w) \<noteq> 0 \<or> j \<ge> 11 then None
      else label_loop s (j + 1) (vn[j := w]))"

text \<open>\<open>None\<close> for an invalid label; an empty label gives a name that starts with 0.  \<open>vn\<close> is uninitialised.\<close>

definition label_entry :: "bytes \<Rightarrow> bytes \<Rightarrow> bytes option" where
  "label_entry label vn =
     (let vn = vn[0 := 0]; s = rev (dropWhile (\<lambda>c. c = 0x20) (rev (takeWhile (\<lambda>c. c \<noteq> 0) label))) in
      if s = [] then Some vn
      else do { vn \<leftarrow> label_loop s 0 vn; if vn ! 0 = DDEM then None else Some vn })"

definition setlabel_volume :: "'d disk_ops \<Rightarrow> bytes \<Rightarrow> fdir \<Rightarrow> 'd fatfs \<Rightarrow> (fresult \<times> 'd fatfs) option" where
  "setlabel_volume ops vn dj fs = do {
     ((res, dj), fs) \<leftarrow> dir_sdi ops 0 (dj\<lparr>dj_sclust := 0\<rparr>) fs;
     if res \<noteq> FR_OK then Some (res, fs)
     else do {
       ((res, dj), fs) \<leftarrow> dir_read ops True dj fs;
       if res = FR_OK then do {
         dir \<leftarrow> dj_dir dj;
         w \<leftarrow> (if vn ! 0 \<noteq> 0 then do {
             w \<leftarrow> put_range dir vn (win fs);
             ST_DWORD (dir + DIR_WrtTime) GET_FATTIME w }
           else put_at dir DDEM (win fs));
         sync_fs ops (fs\<lparr>win := w, wflag := 1\<rparr>) }
       else if res = FR_NO_FILE then
         (if vn ! 0 \<noteq> 0 then do {
            ((res, dj), fs) \<leftarrow> dir_alloc ops 1 dj fs;
            if res \<noteq> FR_OK then Some (res, fs)
            else do {
              dir \<leftarrow> dj_dir dj;
              w \<leftarrow> mem_set dir 0 SZ_DIRE (win fs);
              w \<leftarrow> put_range dir vn w;
              w \<leftarrow> put_at (dir + DIR_Attr) AM_VOL w;
              w \<leftarrow> ST_DWORD (dir + DIR_WrtTime) GET_FATTIME w;
              sync_fs ops (fs\<lparr>win := w, wflag := 1\<rparr>) } }
          else Some (FR_OK, fs))
       else Some (res, fs) } }"

definition f_setlabel :: "'d disk_ops \<Rightarrow> bytes \<Rightarrow> bytes option \<Rightarrow> 'd fat_sys \<Rightarrow> (fresult \<times> 'd fat_sys) option" where
  "f_setlabel ops vn label g =
     with_volume ops label 1 (\<lambda>r. r) (\<lambda>a label fs.
       if 0 \<notin> set label then None
       else case label_entry label vn of None \<Rightarrow> Some (FR_INVALID_NAME, fs)
       | Some vn \<Rightarrow> setlabel_volume ops vn (local_dir a []) fs) g"

end
