(* ===== verification/Fat_Api_Laws.thy ===== *)
theory Fat_Api_Laws
  imports Fat_Api
begin

text \<open>
  What the functions of \<open>Fat_Api\<close> do: counting free clusters, changing the current directory,
  and the buffer of \<open>f_getcwd\<close>.
\<close>

section \<open>Counting free clusters\<close>

text \<open>The entries from \<open>c\<close> on that are free.\<close>

definition free_from :: "('d \<Rightarrow> u32 \<Rightarrow> bytes) \<Rightarrow> 'd fatfs \<Rightarrow> nat \<Rightarrow> nat" where
  "free_from img fs c = length (filter (\<lambda>j. fat_entry img fs (of_nat j) = 0) [c..<unat (n_fatent fs)])"

lemma free_from_step:
  "c < unat (n_fatent fs) \<Longrightarrow> free_from img fs c = (if fat_entry img fs (of_nat c) = 0 then 1 else 0) + free_from img fs (Suc c)"
  by (simp add: free_from_def upt_conv_Cons)

lemma free_from_end: "unat (n_fatent fs) \<le> c \<Longrightarrow> free_from img fs c = 0"
  by (simp add: free_from_def)

lemma of_nat_less_n: "c < unat (n_fatent fs) \<Longrightarrow> of_nat c < n_fatent fs \<and> unat (of_nat c :: u32) = c"
  using u32_less [of "n_fatent fs"] by (simp add: word_less_nat_alt unat_of_nat_small)

lemma free_from_unchanged:
  assumes "unchanged img fs fs'" and "vol_layout fs"
  shows "free_from img fs' c = free_from img fs c"
proof -
  have n: "n_fatent fs' = n_fatent fs" using assms(1) by (simp add: unchanged_def same_vol_sel)
  have "fat_entry img fs' (of_nat j) = fat_entry img fs (of_nat j)" if "j < unat (n_fatent fs)" for j
    using fat_entry_unchanged [OF assms] of_nat_less_n [OF that] by blast
  then show ?thesis unfolding free_from_def n by (intro arg_cong [where f = length] filter_cong) auto
qed

definition entry_width :: "'d fatfs \<Rightarrow> nat" where
  "entry_width fs = (if fs_type fs = FS_FAT16 then 2 else 4)"

lemma entry_width_pos:
  assumes "fs_type fs = FS_FAT16 \<or> fs_type fs = FS_FAT32"
  shows "fat_pos (fs_type fs) c = entry_width fs * c" and "entry_width fs * c mod 512 + entry_width fs \<le> 512"
proof -
  show "fat_pos (fs_type fs) c = entry_width fs * c"
    using assms by (auto simp: fat_pos_def entry_width_def FS_FAT12_def FS_FAT16_def FS_FAT32_def)
  then show "entry_width fs * c mod 512 + entry_width fs \<le> 512"
    using assms fat16_room [of c] fat32_room [of c] by (auto simp: entry_width_def)
qed

lemma next_pos:
  assumes "(k :: nat) mod 512 + w \<le> 512"
  shows "if k mod 512 + w = 512 then (k + w) mod 512 = 0 \<and> (k + w) div 512 = k div 512 + 1
    else (k + w) mod 512 = k mod 512 + w \<and> (k + w) div 512 = k div 512"
proof (cases "k mod 512 + w = 512")
  case True
  have "k + w = 512 * (k div 512) + (k mod 512 + w)" by (simp only: add.assoc [symmetric] mult_div_mod_eq)
  then have "k + w = 512 * (k div 512 + 1)" unfolding True by simp
  then show ?thesis using True by simp
next
  case False
  with assms have "k mod 512 + w < 512" by simp
  from add_below_modulus [OF this] show ?thesis using False by simp
qed

lemma ucast16_0: "(ucast (v :: u16) :: u32) = 0 \<longleftrightarrow> v = 0"
  by (simp add: word_unat_eq_iff unat_ucast16)

text \<open>The entry the scan looks at, once its sector is in the window.\<close>

lemma scan_entry:
  assumes "vol_layout fs" and ty: "fs_type fs = FS_FAT16 \<or> fs_type fs = FS_FAT32" and c: "c < unat (n_fatent fs)"
    and w: "length (win fs) = 512" "winsect fs = fatbase fs + of_nat (entry_width fs * c div 512)"
    and p: "p = entry_width fs * c mod 512"
  shows "entry_free (fs_type fs) p (win fs) = Some (fat_entry img fs (of_nat c) = 0, entry_width fs)"
proof -
  let ?k = "entry_width fs * c"
  have fb: "fat_bytes img fs (?k + d) = win fs ! (p + d)" if "p + d < 512" for d
    using mod_succ [of ?k d] that w(2) p by (simp add: fat_bytes_def view_def)
  have room: "p + entry_width fs \<le> 512" using entry_width_pos(2) [OF ty] p by simp
  have u: "unat (of_nat c :: u32) = c" using of_nat_less_n [OF c] by simp
  show ?thesis
  proof (cases "fs_type fs = FS_FAT16")
    case True
    then have "p + 1 < 512" using room by (simp add: entry_width_def)
    then show ?thesis
      using True w(1) fb [of 0] fb [of 1] u
      by (simp add: entry_free_def LD_WORD_in fat_entry_def fat_val_def fat_pos_def entry_width_def Let_def ucast16_0 FS_FAT12_def FS_FAT16_def)
  next
    case False
    then have "p + 3 < 512" using room by (simp add: entry_width_def)
    then show ?thesis
      using False ty w(1) fb [of 0] fb [of 1] fb [of 2] fb [of 3] u
      by (simp add: entry_free_def LD_DWORD_in fat_entry_def fat_val_def fat_pos_def entry_width_def Let_def FS_FAT12_def FS_FAT16_def FS_FAT32_def)
  qed
qed

context block_device
begin

text \<open>
  A scan from entry \<open>c\<close>, with \<open>nfree\<close> counted so far: all entries counted, or stopped early.
\<close>

definition count_post :: "'d fatfs \<Rightarrow> nat \<Rightarrow> u32 \<Rightarrow> fresult \<times> u32 \<Rightarrow> 'd fatfs \<Rightarrow> bool" where
  "count_post fs c nfree = (\<lambda>(r, n) fs'. inv fs' \<and> unchanged img fs fs' \<and>
     (r = FR_OK \<and> n = nfree + of_nat (free_from img fs c) \<or> r = FR_DISK_ERR \<or>
      r = FR_INT_ERR \<and> (\<exists>j. 2 \<le> j \<and> j < n_fatent fs \<and> fat_entry img fs j = 1)))"

lemma count_post_step:
  assumes "c < unat (n_fatent fs)" and "unchanged img fs fs1" and "vol_layout fs"
    and "count_post fs1 (Suc c) (if fat_entry img fs (of_nat c) = 0 then nfree + 1 else nfree) x fs2"
  shows "count_post fs c nfree x fs2"
proof -
  have n: "n_fatent fs1 = n_fatent fs" using assms(2) by (simp add: unchanged_def same_vol_sel)
  have e: "fat_entry img fs1 j = fat_entry img fs j" if "j < n_fatent fs" for j
    using fat_entry_unchanged [OF assms(2,3) that] .
  have "(\<exists>j. 2 \<le> j \<and> j < n_fatent fs1 \<and> fat_entry img fs1 j = 1) \<Longrightarrow> (\<exists>j. 2 \<le> j \<and> j < n_fatent fs \<and> fat_entry img fs j = 1)"
    unfolding n using e by metis
  then show ?thesis
    using assms(4) unchanged_trans [OF assms(2)] free_from_unchanged [OF assms(2,3)] free_from_step [OF assms(1), of img]
    unfolding count_post_def by (auto split: if_splits)
qed

lemma free12_loop_law:
  assumes "inv fs" and "vol_layout fs" and "2 \<le> c" and "c < n_fatent fs"
  shows "returns (free12_loop ops c nfree fs) (count_post fs (unat c) nfree)"
  using assms
proof (induction "unat (n_fatent fs) - unat c" arbitrary: c nfree fs rule: less_induct)
  case less
  note prems = less.prems
  have cn: "unat c < unat (n_fatent fs)" using prems(4) by (simp add: word_less_nat_alt)
  have ent: "\<not> (fat_entry img fs c = 0xFFFFFFFF)" by (rule fat_entry_not_err)
  obtain v fs1 where g: "get_fat ops c fs = Some (v, fs1)" "inv fs1" "unchanged img fs fs1" "v = fat_entry img fs c \<or> v = 0xFFFFFFFF"
    using get_fat_law [OF prems(1,2), of c] prems(3,4) by (auto simp: returns_iff)
  have n1: "n_fatent fs1 = n_fatent fs" using g(3) by (simp add: unchanged_def same_vol_sel)
  have lay1: "vol_layout fs1" using unchanged_layout [OF g(3) prems(2)] .
  have Suc: "unat (c + 1) = Suc (unat c)" using cn u32_less [of "n_fatent fs"] by (simp add: unat_word_ariths)
  let ?nf = "if fat_entry img fs c = 0 then nfree + 1 else nfree"
  have step: "count_post fs (unat c) nfree x fs2" if "count_post fs1 (Suc (unat c)) ?nf x fs2" for x fs2
    by (rule count_post_step [OF cn g(3) prems(2)]) (use that in simp)
  show ?case
  proof (cases "v = 0xFFFFFFFF \<or> v = 1")
    case True
    then show ?thesis
      using g prems(3,4) by (subst free12_loop.simps) (auto simp: count_post_def)
  next
    case False
    then have v: "v = fat_entry img fs c" using g(4) by simp
    show ?thesis
    proof (cases "c + 1 < n_fatent fs1")
      case True
      have "returns (free12_loop ops (c + 1) ?nf fs1) (count_post fs1 (unat (c + 1)) ?nf)"
      proof (rule less.hyps [OF _ g(2) lay1 _ True])
        show "unat (n_fatent fs1) - unat (c + 1) < unat (n_fatent fs) - unat c" unfolding n1 Suc using cn by simp
        show "2 \<le> c + 1" using prems(3) Suc by (simp add: word_le_nat_alt)
      qed
      moreover have "free12_loop ops c nfree fs = free12_loop ops (c + 1) ?nf fs1"
        using g(1) False v True by (subst free12_loop.simps) (simp add: Let_def)
      ultimately show ?thesis
        unfolding Suc by (metis (no_types, lifting) returns_mono step)
    next
      case stop: False
      then have "free_from img fs1 (Suc (unat c)) = 0" by (intro free_from_end) (simp add: Suc word_less_nat_alt flip: Suc)
      then have "count_post fs1 (Suc (unat c)) ?nf (FR_OK, ?nf) fs1" using g(2) by (simp add: count_post_def)
      then show ?thesis
        using g(1) False v stop step by (subst free12_loop.simps) (auto simp: Let_def)
    qed
  qed
qed

text \<open>Where the fast scan stands before entry \<open>c\<close>.\<close>

definition count_at :: "'d fatfs \<Rightarrow> nat \<Rightarrow> u32 \<Rightarrow> nat \<Rightarrow> u32 \<Rightarrow> bool" where
  "count_at fs c sect p i \<longleftrightarrow> (let k = entry_width fs * c; s = fatbase fs + of_nat (k div 512) in
     if i = 0 then k mod 512 = 0 \<and> sect = s
     else p = k mod 512 \<and> unat i = 512 - p \<and> winsect fs = s \<and> sect = s + 1)"

lemma free_loop_law:
  assumes "inv fs" and "vol_layout fs" and "fs_type fs = FS_FAT16 \<or> fs_type fs = FS_FAT32"
    and "clst \<noteq> 0" and "c + unat clst = unat (n_fatent fs)" and "count_at fs c sect p i"
  shows "returns (free_loop ops clst sect p i nfree fs) (count_post fs c nfree)"
  using assms
proof (induction "unat clst" arbitrary: clst c sect p i nfree fs rule: less_induct)
  case less
  note prems = less.prems
  have c0: "0 < unat clst" using prems(4) by (simp add: unat_gt_0)
  then have cn: "c < unat (n_fatent fs)" using prems(5) by simp
  let ?w = "entry_width fs" let ?k = "?w * c" let ?s = "fatbase fs + of_nat (?k div 512)"
  have n: "of_nat c < n_fatent fs" "unat (of_nat c :: u32) = c" using of_nat_less_n [OF cn] by simp_all
  have kb: "?k < 512 * unat (fsize fs)"
    using fat_pos_bound [OF prems(2) n(1)] entry_width_pos(1) [OF prems(3)] n(2) by (auto split: if_splits)
  define sect' where "sect' = (if i = 0 then sect + 1 else sect)"
  define p' where "p' = (if i = 0 then 0 else p)"
  define i' where "i' = (if i = 0 then of_nat SS else i)"
  obtain r fs1 where m: "(if i = 0 then move_window ops sect fs else Some (FR_OK, fs)) = Some (r, fs1)" "inv fs1" "unchanged img fs fs1"
      "r = FR_DISK_ERR \<or> r = FR_OK \<and> winsect fs1 = ?s"
  proof (cases "i = 0")
    case True
    then have "sect = ?s" using prems(6) by (simp add: count_at_def Let_def)
    then show ?thesis using that fetch_fat [OF prems(1,2) kb] True by (auto simp: returns_iff)
  next
    case False
    then show ?thesis using that [of FR_OK fs] prems(1,6) by (simp add: count_at_def Let_def)
  qed
  have p': "p' = ?k mod 512" "unat i' = 512 - ?k mod 512" "sect' = ?s + 1"
    using prems(6) by (auto simp: p'_def i'_def sect'_def count_at_def Let_def SS_def split: if_splits)
  have sv: "same_vol fs fs1" using m(3) by (simp add: unchanged_def)
  have w1: "entry_width fs1 = ?w" by (simp add: entry_width_def same_vol_sel [OF sv])
  have lay1: "vol_layout fs1" using unchanged_layout [OF m(3) prems(2)] .
  have n1: "n_fatent fs1 = n_fatent fs" "fs_type fs1 = fs_type fs" "fatbase fs1 = fatbase fs" by (simp_all add: same_vol_sel [OF sv])
  let ?free = "fat_entry img fs (of_nat c) = 0"
  let ?nf = "if ?free then nfree + 1 else nfree"
  have step: "count_post fs c nfree x fs2" if "count_post fs1 (Suc c) ?nf x fs2" for x fs2
    by (rule count_post_step [OF cn m(3) prems(2) that])
  show ?case
  proof (cases "r = FR_OK")
    case False
    then show ?thesis
      using m by (subst free_loop.simps) (auto simp: count_post_def)
  next
    case True
    have "length (win fs1) = 512" using m(2) by (simp add: win_inv_def)
    then have entry: "entry_free (fs_type fs1) p' (win fs1) = Some (?free, ?w)"
      using scan_entry [OF lay1, of c p' img] prems(3) cn m(4) True p'(1) fat_entry_unchanged [OF m(3) prems(2) n(1)]
      by (simp add: n1 w1)
    have unfold: "free_loop ops clst sect p i nfree fs =
        (if clst - 1 = 0 then Some ((FR_OK, ?nf), fs1) else free_loop ops (clst - 1) sect' (p' + ?w) (i' - of_nat ?w) ?nf fs1)"
      using m(1) True entry unfolding p'_def i'_def sect'_def by (cases "i = 0"; subst free_loop.simps) (simp_all add: Let_def)
    have u: "unat (clst - 1) = unat clst - 1" using c0 by (simp add: unat_sub word_le_nat_alt)
    show ?thesis
    proof (cases "clst - 1 = 0")
      case last: True
      then have "Suc c = unat (n_fatent fs1)" using u c0 prems(5) n1 by simp
      then have "free_from img fs1 (Suc c) = 0" by (simp add: free_from_end)
      then have "count_post fs1 (Suc c) ?nf (FR_OK, ?nf) fs1" using m(2) by (simp add: count_post_def)
      then show ?thesis unfolding unfold using last step by simp
    next
      case more: False
      have np: "if ?k mod 512 + ?w = 512 then (?k + ?w) mod 512 = 0 \<and> (?k + ?w) div 512 = ?k div 512 + 1
          else (?k + ?w) mod 512 = ?k mod 512 + ?w \<and> (?k + ?w) div 512 = ?k div 512"
        by (rule next_pos [OF entry_width_pos(2) [OF prems(3)]])
      have ks: "?w * Suc c = ?k + ?w" by simp
      have wi: "unat (of_nat ?w :: u32) = ?w" "?w \<le> unat i'" using entry_width_pos(2) [OF prems(3), of c] p'(2)
        by (auto simp: entry_width_def)
      then have ui: "unat (i' - of_nat ?w) = 512 - ?k mod 512 - ?w" using p'(2) by (simp add: unat_sub word_le_nat_alt)
      have "count_at fs1 (Suc c) sect' (p' + ?w) (i' - of_nat ?w)"
      proof (cases "?k mod 512 + ?w = 512")
        case True
        then have "i' - of_nat ?w = 0" using ui by (simp add: unat_eq_0)
        then show ?thesis
          using np True p'(3) unfolding count_at_def w1 ks by (simp add: n1 add.assoc)
      next
        case False
        then have "?k mod 512 + ?w < 512" using entry_width_pos(2) [OF prems(3), of c] by simp
        then have "0 < unat (i' - of_nat ?w)" unfolding ui by simp
        then have "i' - of_nat ?w \<noteq> 0" by (rule unat_gt_0 [THEN iffD1])
        then show ?thesis
          using np False p' ui m(4) \<open>r = FR_OK\<close> unfolding count_at_def w1 ks by (simp add: n1)
      qed
      then have "returns (free_loop ops (clst - 1) sect' (p' + ?w) (i' - of_nat ?w) ?nf fs1) (count_post fs1 (Suc c) ?nf)"
        using u c0 prems(3,5) n1 by (intro less.hyps [OF _ m(2) lay1 _ more]) simp_all
      then show ?thesis unfolding unfold using more by (simp add: returns_mono [OF _ step])
    qed
  qed
qed

end

definition free_clusters :: "('d \<Rightarrow> u32 \<Rightarrow> bytes) \<Rightarrow> 'd fatfs \<Rightarrow> u32 set" where
  "free_clusters img fs = {c. 2 \<le> c \<and> c < n_fatent fs \<and> fat_entry img fs c = 0}"

lemma free_from_card: "free_from img fs 2 = Finite_Set.card (free_clusters img fs)"
proof -
  let ?J = "{j. fat_entry img fs (of_nat j) = 0} \<inter> set [2..<unat (n_fatent fs)]"
  have "unat ` free_clusters img fs = ?J"
  proof (intro set_eqI iffI)
    fix j assume "j \<in> ?J"
    then have j: "fat_entry img fs (of_nat j) = 0" "2 \<le> j" "j < unat (n_fatent fs)" by auto
    note u = of_nat_less_n [OF j(3)]
    have "of_nat j \<in> free_clusters img fs" using j u by (simp add: free_clusters_def word_le_nat_alt)
    then show "j \<in> unat ` free_clusters img fs" using u by (metis imageI)
  qed (auto simp: free_clusters_def word_less_nat_alt word_le_nat_alt)
  moreover have "inj_on unat (free_clusters img fs)" by (simp add: inj_on_def word_unat_eq_iff)
  ultimately have "Finite_Set.card (free_clusters img fs) = Finite_Set.card ?J" by (metis card_image)
  then show ?thesis unfolding free_from_def by (simp add: distinct_length_filter del: set_upt)
qed

lemma free_from_all:
  assumes "2 < n_fatent fs" and "fat_entry img fs 0 \<noteq> 0" and "fat_entry img fs 1 \<noteq> 0"
  shows "free_from img fs 0 = free_from img fs 2"
proof -
  have "2 < unat (n_fatent fs)" using assms(1) by (simp add: word_less_nat_alt)
  then show ?thesis
    using free_from_step [of 0 fs img] free_from_step [of 1 fs img] assms(2,3) by (simp add: numeral_2_eq_2)
qed

context block_device
begin

lemma getfree_volume_law:
  assumes "inv fs" and "vol_layout fs" and "fat_entry img fs 0 \<noteq> 0" and "fat_entry img fs 1 \<noteq> 0" and "n_fatent fs - 2 < free_clust fs"
  shows "returns (getfree_volume ops fs) (\<lambda>(r, n) fs'. inv fs' \<and> free_clust fs' = n \<and> n_fatent fs' = n_fatent fs \<and>
    (\<forall>t. tracked fs t \<longrightarrow> view img fs' t = view img fs t) \<and>
    (r = FR_OK \<and> n = of_nat (Finite_Set.card (free_clusters img fs)) \<or> r = FR_DISK_ERR \<or>
     r = FR_INT_ERR \<and> (\<exists>j. 2 \<le> j \<and> j < n_fatent fs \<and> fat_entry img fs j = 1)))"
proof -
  have n: "2 < n_fatent fs" using assms(2) by (simp add: vol_layout_def)
  have "\<exists>c. free_from img fs c = free_from img fs 2 \<and>
    returns (if fs_type fs = FS_FAT12 then free12_loop ops 2 0 fs else free_loop ops (n_fatent fs) (fatbase fs) 0 0 0 fs) (count_post fs c 0)"
  proof (cases "fs_type fs = FS_FAT12")
    case True
    then show ?thesis using free12_loop_law [OF assms(1,2) order_refl n] by auto
  next
    case False
    then have ty: "fs_type fs = FS_FAT16 \<or> fs_type fs = FS_FAT32" using layout_type [OF assms(2)] by blast
    have "n_fatent fs \<noteq> 0" using n by auto
    moreover have "count_at fs 0 (fatbase fs) 0 0" by (simp add: count_at_def)
    ultimately show ?thesis
      using free_loop_law [OF assms(1,2) ty, of "n_fatent fs" 0] free_from_all [OF n assms(3,4)] False by auto
  qed
  then obtain c r m fs' where l: "free_from img fs c = free_from img fs 2" "count_post fs c 0 (r, m) fs'"
      "(if fs_type fs = FS_FAT12 then free12_loop ops 2 0 fs else free_loop ops (n_fatent fs) (fatbase fs) 0 0 0 fs) = Some ((r, m), fs')"
    by (auto simp: returns_iff)
  have sv: "same_vol fs fs'" using l(2) by (simp add: count_post_def unchanged_def)
  have "\<not> free_clust fs \<le> n_fatent fs - 2" using assms(5) by (simp only: not_le)
  then show ?thesis
    using l same_vol_sel(11) [OF sv] unfolding free_from_card
    by (simp add: getfree_volume_def count_post_def unchanged_def)
qed

end

lemma cdir_upd [simp]: "win_inv dno ok img (fs\<lparr>cdir := c\<rparr>) = win_inv dno ok img fs" "view img (fs\<lparr>cdir := c\<rparr>) = view img fs"
  by (simp_all add: win_inv_def view_def fun_eq_iff)

text \<open>The entry an object stands at, once its sector is in the window.\<close>

lemma found_entry:
  assumes "dir_at img fs dp i" and "win fs' = view img fs (dj_sect dp)" and "length (win fs') = 512" and "same_vol fs fs'"
  shows "\<exists>dir. dj_dir dp = Some dir \<and> dir + 32 \<le> 512 \<and> dir_entry img fs (dj_sclust dp) i = take 32 (drop dir (win fs')) \<and>
    get_at (dir + DIR_Attr) (win fs') = Some (dir_entry img fs (dj_sclust dp) i ! DIR_Attr) \<and>
    ld_clust fs' dir = Some (entry_clust fs (dir_entry img fs (dj_sclust dp) i))"
proof -
  let ?dir = "i mod 16 * 32"
  have "i mod 16 \<le> 15" by simp
  then have d: "?dir + 32 \<le> 512" by simp
  have e: "dir_entry img fs (dj_sclust dp) i = take 32 (drop ?dir (win fs'))"
    using assms(1,2) by (simp add: dir_at_def dir_entry_def)
  have "entry_clust fs' = entry_clust fs" by (simp add: entry_clust_def fun_eq_iff same_vol_sel [OF assms(4)])
  then have "ld_clust fs' ?dir = Some (entry_clust fs (dir_entry img fs (dj_sclust dp) i))"
    using d assms(3) unfolding e
    by (simp add: ld_clust_def entry_clust_def LD_WORD_in DIR_FstClusLO_def DIR_FstClusHI_def Let_def add.commute [of _ "?dir"]
        same_vol_sel(1) [OF assms(4)])
  then show ?thesis
    using assms(1,3) d e by (auto simp: dir_at_def get_at_def DIR_Attr_def)
qed

section \<open>Properties\<close>

text \<open>
  C30: free space.  On a volume in order whose two reserved entries are in use, \<open>f_getfree\<close> returns.
  When the number of free clusters is not known, it is counted: with FR_OK the result is the number of
  clusters whose table entry is free, for every FAT type, and the volume is not changed.  A scan that
  fails, by the drive or at an entry 1, leaves its partial count as the known number all the same, so
  that the next call returns it with FR_OK.
\<close>

theorem f_getfree_correct:
  assumes "block_device ops dno ok img" and "find_volume ops path 0 g = Some ((FR_OK, Some a, p), g1)"
    and "win_inv dno ok img (fs_at g1 a)" and "vol_layout (fs_at g1 a)"
    and "fat_entry img (fs_at g1 a) 0 \<noteq> 0" and "fat_entry img (fs_at g1 a) 1 \<noteq> 0"
  shows "returns (f_getfree ops path g) (\<lambda>(r, n, rfs) g2. rfs = Some a \<and> n = Some (free_clust (fs_at g2 a)) \<and>
    win_inv dno ok img (fs_at g2 a) \<and> (\<forall>t. tracked (fs_at g1 a) t \<longrightarrow> view img (fs_at g2 a) t = view img (fs_at g1 a) t) \<and>
    (if free_clust (fs_at g1 a) \<le> n_fatent (fs_at g1 a) - 2 then r = FR_OK \<and> n = Some (free_clust (fs_at g1 a))
     else r = FR_OK \<and> n = Some (of_nat (Finite_Set.card (free_clusters img (fs_at g1 a)))) \<or> r = FR_DISK_ERR \<or>
       r = FR_INT_ERR \<and> (\<exists>j. 2 \<le> j \<and> j < n_fatent (fs_at g1 a) \<and> fat_entry img (fs_at g1 a) j = 1)))"
proof (cases "free_clust (fs_at g1 a) \<le> n_fatent (fs_at g1 a) - 2")
  case True
  then show ?thesis using assms(2,3) by (simp add: f_getfree_def getfree_volume_def on_fs_def fs_at_put)
next
  case False
  then have "n_fatent (fs_at g1 a) - 2 < free_clust (fs_at g1 a)" by simp
  from block_device.getfree_volume_law [OF assms(1,3-6) this] show ?thesis
    using assms(2) False by (auto simp: f_getfree_def on_fs_def fs_at_put returns_iff)
qed

text \<open>
  C37: changing the current directory.  \<open>f_chdir\<close> returns and changes nothing on the drive.  With
  FR_OK the current directory is the one the path leads to from the current directory or the root:
  the root for a path that climbs out of it, otherwise the start cluster of the directory entry
  found.  Every other result leaves it alone; it says that the path leads to no directory, or that
  the drive or the structure of a directory fails.
\<close>

theorem f_chdir_correct:
  assumes "block_device ops dno ok img" and "find_volume ops path 0 g = Some ((FR_OK, Some a, Some (pre @ path_of ss)), g1)"
    and "win_inv dno ok img (fs_at g1 a)" and "vol_layout (fs_at g1 a)" and "dir_layout (fs_at g1 a)"
    and "length fn = 12" and "path_ok ss" and "pre = [] \<or> pre = [0x2F]"
  shows "returns (f_chdir ops fn path g) (\<lambda>r g2.
    let fs = fs_at g1 a; fs' = fs_at g2 a; start = (if pre = [] then cdir fs else 0) in
    win_inv dno ok img fs' \<and> (\<forall>t. tracked fs t \<longrightarrow> view img fs' t = view img fs t) \<and>
    (r = FR_OK \<and> (\<exists>e q. lookup img fs start ss e q \<and> (case q of None \<Rightarrow> cdir fs' = e
       | Some i \<Rightarrow> entry_is_dir (dir_entry img fs e i) \<and> cdir fs' = entry_clust fs (dir_entry img fs e i))) \<or>
     cdir fs' = cdir fs \<and> (r = FR_DISK_ERR \<or> r = FR_INT_ERR \<or> r \<in> {FR_NO_PATH, FR_INVALID_NAME} \<and>
       ((\<forall>e q. \<not> lookup img fs start ss e q) \<or>
        (\<exists>e i. lookup img fs start ss e (Some i) \<and> \<not> entry_is_dir (dir_entry img fs e i))))))"
proof -
  let ?fs = "fs_at g1 a" let ?start = "if pre = [] then cdir ?fs else 0" and ?p = "pre @ path_of ss"
  have fn: "length (dj_fn (local_dir a fn)) = 12" using assms(6) by (simp add: local_dir_def)
  obtain r dj fs1 where f: "follow_path ops (local_dir a fn) ?p ?fs = Some ((r, dj), fs1)"
      "win_inv dno ok img fs1" "unchanged img ?fs fs1"
      "r = FR_OK \<and> (\<exists>q. lookup img ?fs ?start ss (dj_sclust dj) q \<and>
        (case q of None \<Rightarrow> dj_dir dj = None
         | Some i \<Rightarrow> dir_at img ?fs dj i \<and> winsect fs1 = dj_sect dj \<and> win fs1 = view img ?fs (dj_sect dj))) \<or>
       r = FR_DISK_ERR \<or> r = FR_INT_ERR \<or>
       r \<in> {FR_NO_FILE, FR_NO_PATH, FR_INVALID_NAME} \<and> (\<forall>e q. \<not> lookup img ?fs ?start ss e q)"
    using follow_path_law [OF assms(1,3-5) fn assms(7,8)] by (auto simp: returns_iff Let_def)
  have sv: "same_vol ?fs fs1" "\<forall>t. tracked ?fs t \<longrightarrow> view img fs1 t = view img ?fs t" using f(3) by (simp_all add: unchanged_def)
  have run: "f_chdir ops fn path g = do { (r, fs) \<leftarrow> chdir_volume ops fn a ?p ?fs; Some (r, put_fs a fs g1) }"
    using assms(2) by (simp add: f_chdir_def with_volume_def on_fs_def)
  define start where "start = ?start"
  note look = f(4) [folded start_def]
  have goal: ?thesis if "chdir_volume ops fn a ?p ?fs = Some (r', fs')" "win_inv dno ok img fs'"
      "\<forall>t. tracked ?fs t \<longrightarrow> view img fs' t = view img ?fs t"
      "r' = FR_OK \<and> (\<exists>e q. lookup img ?fs start ss e q \<and> (case q of None \<Rightarrow> cdir fs' = e
         | Some i \<Rightarrow> entry_is_dir (dir_entry img ?fs e i) \<and> cdir fs' = entry_clust ?fs (dir_entry img ?fs e i))) \<or>
       cdir fs' = cdir ?fs \<and> (r' = FR_DISK_ERR \<or> r' = FR_INT_ERR \<or> r' \<in> {FR_NO_PATH, FR_INVALID_NAME} \<and>
         ((\<forall>e q. \<not> lookup img ?fs start ss e q) \<or>
          (\<exists>e i. lookup img ?fs start ss e (Some i) \<and> \<not> entry_is_dir (dir_entry img ?fs e i))))" for r' fs'
    using that(2-) unfolding run that(1) start_def by (cases "pre = []") (simp_all add: Let_def fs_at_put cong: option.case_cong)
  have cd: "cdir fs1 = cdir ?fs" by (rule same_vol_sel(10) [OF sv(1)])
  show ?thesis
  proof (cases "r = FR_OK")
    case False
    then have "chdir_volume ops fn a ?p ?fs = Some (if r = FR_NO_FILE then FR_NO_PATH else r, fs1)"
      using f(1) by (simp add: chdir_volume_def)
    then show ?thesis by (rule goal) (use f(2) look sv(2) cd False in auto)
  next
    case True
    then obtain q where q: "lookup img ?fs start ss (dj_sclust dj) q" "case q of None \<Rightarrow> dj_dir dj = None
        | Some i \<Rightarrow> dir_at img ?fs dj i \<and> winsect fs1 = dj_sect dj \<and> win fs1 = view img ?fs (dj_sect dj)"
      using look by auto
    show ?thesis
    proof (cases q)
      case None
      then have c: "chdir_volume ops fn a ?p ?fs = Some (FR_OK, fs1\<lparr>cdir := dj_sclust dj\<rparr>)"
        using f(1) True q(2) by (simp add: chdir_volume_def)
      have x: "\<exists>e q. lookup img ?fs start ss e q \<and> (case q of None \<Rightarrow> dj_sclust dj = e
         | Some i \<Rightarrow> entry_is_dir (dir_entry img ?fs e i) \<and> dj_sclust dj = entry_clust ?fs (dir_entry img ?fs e i))"
        using q(1) None by (intro exI [of _ "dj_sclust dj"] exI [of _ None]) simp
      show ?thesis by (rule goal [OF c]) (use f(2) sv(2) x in \<open>simp_all cong: option.case_cong\<close>)
    next
      case (Some i)
      then have at: "dir_at img ?fs dj i" "win fs1 = view img ?fs (dj_sect dj)" "length (win fs1) = 512"
        using q(2) f(2) by (simp_all add: win_inv_def)
      let ?e = "dir_entry img ?fs (dj_sclust dj) i"
      obtain dir where d: "dj_dir dj = Some dir" "get_at (dir + DIR_Attr) (win fs1) = Some (?e ! DIR_Attr)"
          "ld_clust fs1 dir = Some (entry_clust ?fs ?e)"
        using found_entry [OF at sv(1)] by blast
      show ?thesis
      proof (cases "entry_is_dir ?e")
        case dir: True
        then have c: "chdir_volume ops fn a ?p ?fs = Some (FR_OK, fs1\<lparr>cdir := entry_clust ?fs ?e\<rparr>)"
          using f(1) True d by (simp add: chdir_volume_def entry_is_dir_def)
        have x: "\<exists>e q. lookup img ?fs start ss e q \<and> (case q of None \<Rightarrow> entry_clust ?fs ?e = e
           | Some i \<Rightarrow> entry_is_dir (dir_entry img ?fs e i) \<and> entry_clust ?fs ?e = entry_clust ?fs (dir_entry img ?fs e i))"
          using q(1) Some dir by (intro exI [of _ "dj_sclust dj"] exI [of _ "Some i"]) simp
        show ?thesis by (rule goal [OF c]) (use f(2) sv(2) x in \<open>simp_all cong: option.case_cong\<close>)
      next
        case False
        then have "chdir_volume ops fn a ?p ?fs = Some (FR_NO_PATH, fs1)"
          using f(1) True d by (simp add: chdir_volume_def entry_is_dir_def)
        then show ?thesis by (rule goal) (use f(2) sv(2) q(1) Some False cd in auto)
      qed
    qed
  qed
qed

text \<open>
  The buffer of \<open>f_getcwd\<close>.  The test before a name is pushed leaves room for the drive
  number, but not for the terminator: a name that just fits goes to index 2 of a buffer of
  \<open>len\<close> bytes, and the terminator is then stored at index \<open>len\<close>, one byte past its end.  From
  index 3 on the result fits.
\<close>

theorem f_getcwd_overrun:
  assumes "length buff = len" and "fname = name @ 0 # rest" and "0 \<notin> set name" and "i = length name + 3" and "i \<le> len"
  shows "(\<exists>buff'. cwd_push fname i buff = Some (FR_OK, 2, buff') \<and> length buff' = len \<and> cwd_finish vol FR_OK 2 len buff' = None) \<and>
    (\<forall>b j. length b = len \<longrightarrow> 3 \<le> j \<longrightarrow> j < len \<longrightarrow> cwd_finish vol FR_OK j len b \<noteq> None)"
proof -
  have tw: "takeWhile (\<lambda>c. c \<noteq> 0) (name @ 0 # rest) = name" using assms(3) by (induction name) auto
  have len3: "3 \<le> len" using assms(4,5) by simp
  have "cwd_push fname i buff = Some (FR_OK, 2, (overlay 3 name buff)[2 := 0x2F])"
    using assms by (simp add: cwd_push_def tw Let_def put_range_in put_at_in)
  moreover have "cwd_finish vol FR_OK 2 len b = None" if "length b = len" for b
    using len3 that by (simp add: cwd_finish_def put_at_def get_range_def put_range_def)
  moreover have "cwd_finish vol FR_OK j len b \<noteq> None" if "length b = len" "3 \<le> j" "j < len" for b j
    using that by (simp add: cwd_finish_def put_at_def get_range_def put_range_def)
  ultimately show ?thesis using assms by simp
qed

text \<open>Counting on the small volume, with its reserved entries set: all but the clusters 5 and 7 are free.\<close>

definition count_head :: bytes where
  "count_head = [0xF8, 0xFF, 0xFF, 0xFF, 0, 0, 0, 0, 0, 0, 7, 0, 0, 0, 0xFF, 0xFF]"

definition count_disk :: "u32 \<Rightarrow> bytes" where
  "count_disk s = (if s = 64 then overlay 0 count_head (replicate 512 0) else replicate 512 0)"

definition count_vol :: "(u32 \<Rightarrow> bytes) fatfs" where
  "count_vol = demo_fs count_disk (replicate 512 0)"

definition count_sys :: "(u32 \<Rightarrow> bytes) fat_sys" where
  "count_sys = \<lparr>vol_objs = (\<lambda>_. count_vol), FatFs = [Some 3, None], Fsid = 1, CurrVol = 0, drives = count_disk\<rparr>"

lemma count_sel [simp]: "n_fatent count_vol = 300" "free_clust count_vol = 0xFFFFFFFF" "fs_at count_sys 3 = count_vol"
  by (simp_all add: count_vol_def demo_fs_def fs_at_def count_sys_def)

lemma count_vol_ok: "win_inv 0 ram_ok (\<lambda>d. d) count_vol" "vol_layout count_vol"
proof -
  show "win_inv 0 ram_ok (\<lambda>d. d) count_vol"
    unfolding count_vol_def by (rule demo_win_inv) (auto simp: ram_ok_def count_disk_def count_head_def)
  show "vol_layout count_vol" using demo_vol_layout by (simp add: count_vol_def demo_vol_def vol_layout_def demo_fs_def)
qed

lemma count_entry:
  assumes "j < 300"
  shows "fat_entry (\<lambda>d. d) count_vol (of_nat j) = 0 \<longleftrightarrow> j \<notin> {0, 1, 5, 7}"
proof -
  have bytes: "fat_bytes (\<lambda>d. d) count_vol k = (if k < 16 then count_head ! k else 0)" if "k < 1024" for k
  proof (cases "k < 512")
    case True
    then show ?thesis
      by (auto simp: fat_bytes_def view_def count_vol_def demo_fs_def count_disk_def nth_overlay count_head_def)
  next
    case False
    then have "k div 512 = 1" using that by (intro div_nat_eqI) simp_all
    then show ?thesis
      using False by (simp add: fat_bytes_def view_def count_vol_def demo_fs_def count_disk_def)
  qed
  have z: "le16 x y = 0 \<longleftrightarrow> x = 0 \<and> y = 0" for x y using le16_inject [of x y 0 0] by (simp add: le16_def)
  have u: "unat (of_nat j :: u32) = j" using assms by (simp add: unat_of_nat_small)
  have ty: "fs_type count_vol = FS_FAT16" by (simp add: count_vol_def demo_fs_def)
  have "fat_entry (\<lambda>d. d) count_vol (of_nat j) = 0 \<longleftrightarrow>
      (if 2 * j < 16 then count_head ! (2 * j) else 0) = 0 \<and> (if 2 * j + 1 < 16 then count_head ! (2 * j + 1) else 0) = 0"
    using assms bytes [of "2 * j"] bytes [of "2 * j + 1"]
    by (simp add: fat_entry_def fat_val_def fat_pos_def u ty FS_FAT12_def FS_FAT16_def Let_def ucast16_0 z)
  also have "\<dots> \<longleftrightarrow> j \<notin> {0, 1, 5, 7}"
  proof (cases "j < 8")
    case True
    then have "j = 0 \<or> j = 1 \<or> j = 2 \<or> j = 3 \<or> j = 4 \<or> j = 5 \<or> j = 6 \<or> j = 7" by linarith
    then show ?thesis by (elim disjE) (simp_all add: count_head_def)
  qed auto
  finally show ?thesis .
qed

lemma count_free: "Finite_Set.card (free_clusters (\<lambda>d. d) count_vol) = 296"
proof -
  have u: "unat (of_nat j :: u32) = j" if "j < 300" for j using that by (simp add: unat_of_nat_small)
  have "free_clusters (\<lambda>d. d) count_vol = of_nat ` ({2..<300} - {5, 7})"
  proof (intro set_eqI iffI)
    fix c assume c: "c \<in> free_clusters (\<lambda>d. d) count_vol"
    then have "2 \<le> unat c" "unat c < 300" by (simp_all add: free_clusters_def word_le_nat_alt word_less_nat_alt)
    moreover then have "unat c \<notin> {0, 1, 5, 7}" using c count_entry [of "unat c"] by (simp add: free_clusters_def)
    ultimately show "c \<in> of_nat ` ({2..<300} - {5, 7})" by (intro image_eqI [of _ _ "unat c"]) auto
  next
    fix c :: u32 assume "c \<in> of_nat ` ({2..<300} - {5, 7})"
    then obtain j where "c = of_nat j" "j \<in> {2..<300} - {5, 7 :: nat}" by (rule imageE)
    then show "c \<in> free_clusters (\<lambda>d. d) count_vol"
      using count_entry [of j] u [of j] by (simp add: free_clusters_def word_le_nat_alt word_less_nat_alt)
  qed
  moreover have "inj_on (of_nat :: nat \<Rightarrow> u32) ({2..<300} - {5, 7})"
    using u by (intro inj_on_inverseI [where g = unat]) simp
  ultimately have "Finite_Set.card (free_clusters (\<lambda>d. d) count_vol) = Finite_Set.card ({2..<300} - {5, 7 :: nat})"
    by (simp add: card_image)
  also have "\<dots> = 296" by (simp add: card_Diff_subset)
  finally show ?thesis .
qed

lemma count_volume: "find_volume ram_ops (Some [0]) 0 count_sys = Some ((FR_OK, Some 3, Some [0]), count_sys)"
  by (simp add: find_volume_def get_ldnumber_def count_sys_def get_at_def fs_at_def ram_ops_def)
    (simp add: count_vol_def demo_fs_def FS_FAT16_def)

theorem f_getfree_correct_witness:
  "returns (f_getfree ram_ops (Some [0]) count_sys) (\<lambda>(r, n, rfs) g2. rfs = Some 3 \<and> (r = FR_OK \<longrightarrow> n = Some 296))"
proof -
  have e: "fat_entry (\<lambda>d. d) count_vol 0 \<noteq> 0" "fat_entry (\<lambda>d. d) count_vol 1 \<noteq> 0"
    using count_entry [of 0] count_entry [of 1] by simp_all
  show ?thesis
    using f_getfree_correct [OF ram.block_device_axioms count_volume, where dno = 0] count_vol_ok e
    by (auto simp: count_free elim!: returns_mono)
qed

text \<open>Entering the directory SUB at cluster 5 from the root.\<close>

definition sub_sfn :: bytes where
  "sub_sfn = [0x53, 0x55, 0x42, 0x20, 0x20, 0x20, 0x20, 0x20, 0x20, 0x20, 0x20]"

definition sub_root :: bytes where
  "sub_root = overlay 26 [5, 0] (overlay 0 (sub_sfn @ [AM_DIR]) (replicate 512 0))"

definition sub_vol :: "(u32 \<Rightarrow> bytes) fatfs" where
  "sub_vol = demo_fs demo_table sub_root"

definition sub_sys :: "(u32 \<Rightarrow> bytes) fat_sys" where
  "sub_sys = \<lparr>vol_objs = (\<lambda>_. sub_vol), FatFs = [Some 3, None], Fsid = 1, CurrVol = 0, drives = demo_table\<rparr>"

lemma sub_vol_ok: "win_inv 0 ram_ok (\<lambda>d. d) sub_vol" "vol_layout sub_vol" "dir_layout sub_vol"
proof -
  show "win_inv 0 ram_ok (\<lambda>d. d) sub_vol"
    unfolding sub_vol_def by (rule demo_win_inv) (auto simp: ram_ok_def demo_table_def sub_root_def sub_sfn_def)
  show "vol_layout sub_vol" using demo_vol_layout by (simp add: sub_vol_def demo_vol_def vol_layout_def demo_fs_def)
  have "\<exists>k<8. (2 :: u8) = 2 ^ k" by (rule exI [of _ 1]) simp
  then show "dir_layout sub_vol" by (simp add: dir_layout_def sub_vol_def demo_fs_def FS_FAT16_def FS_FAT32_def)
qed

lemma sub_entry: "dir_entry (\<lambda>d. d) sub_vol 0 0 = take 32 sub_root"
  by (simp add: dir_entry_def dir_loc_def dir_start_def view_def sub_vol_def demo_fs_def FS_FAT16_def FS_FAT32_def)

lemma sub_bytes: "sub_root ! 0 = 0x53" "sub_root ! 11 = AM_DIR" "sub_root ! 26 = 5" "sub_root ! 27 = 0" "take 11 sub_root = sub_sfn"
proof -
  have l: "length (overlay 0 (sub_sfn @ [AM_DIR]) (replicate 512 0)) = 512" by (simp add: sub_sfn_def)
  show "sub_root ! 0 = 0x53" "sub_root ! 11 = AM_DIR" "sub_root ! 26 = 5" "sub_root ! 27 = 0"
    by (simp_all add: sub_root_def nth_overlay l) (simp_all add: sub_sfn_def nth_overlay)
  show "take 11 sub_root = sub_sfn" by (simp add: sub_root_def sub_sfn_def overlay_def)
qed

lemma sub_first: "first_entry (\<lambda>d. d) sub_vol 0 (entry_is sub_sfn) 0 0"
proof -
  have "dir_loc (\<lambda>d. d) sub_vol 0 0 \<noteq> None"
    by (simp add: dir_loc_def dir_start_def sub_vol_def demo_fs_def FS_FAT16_def FS_FAT32_def)
  moreover have "entry_is sub_sfn (take 32 sub_root)"
    using sub_bytes by (simp add: entry_is_def DIR_Attr_def AM_DIR_def AM_VOL_def min_def sub_sfn_def)
  ultimately show ?thesis using sub_bytes by (simp add: first_entry_def none_before_def sub_entry entry_end_def)
qed

lemma sub_lookup: "lookup (\<lambda>d. d) sub_vol 0 [[0x73, 0x75, 0x62]] e q \<longleftrightarrow> e = 0 \<and> q = Some 0"
proof
  have n: "seg_name [0x73, 0x75, 0x62] = Some sub_sfn" by code_simp
  { assume "lookup (\<lambda>d. d) sub_vol 0 [[0x73, 0x75, 0x62]] e q"
    then show "e = 0 \<and> q = Some 0"
    proof (rule lookup_last)
      fix n' i assume a: "e = 0" "q = Some i" "seg_name [0x73, 0x75, 0x62] = Some n'" "first_entry (\<lambda>d. d) sub_vol 0 (entry_is n') 0 i"
      then have "n' = sub_sfn" using n by simp
      then show ?thesis using a first_entry_unique [OF sub_first] by blast
    qed (simp add: is_dot_def) }
  assume "e = 0 \<and> q = Some 0"
  then show "lookup (\<lambda>d. d) sub_vol 0 [[0x73, 0x75, 0x62]] e q" using lookup.found [OF n sub_first] by simp
qed

lemma sub_volume: "find_volume ram_ops (Some [0x2F, 0x73, 0x75, 0x62, 0]) 0 sub_sys =
    Some ((FR_OK, Some 3, Some ([0x2F] @ path_of [[0x73, 0x75, 0x62]])), sub_sys)"
  by (simp add: find_volume_def get_ldnumber_def sub_sys_def get_at_def fs_at_def ram_ops_def)
    (simp add: sub_vol_def demo_fs_def FS_FAT16_def)

theorem f_chdir_correct_witness:
  "returns (f_chdir ram_ops (replicate 12 0) (Some [0x2F, 0x73, 0x75, 0x62, 0]) sub_sys) (\<lambda>r g2.
     if r = FR_OK then cdir (fs_at g2 3) = 5 else cdir (fs_at g2 3) = 0 \<and> (r = FR_DISK_ERR \<or> r = FR_INT_ERR))"
proof -
  have ok: "path_ok [[0x73, 0x75, 0x62]]" by (simp add: path_ok_def segment_def is_sep_def)
  have at: "fs_at sub_sys 3 = sub_vol" by (simp add: fs_at_def sub_sys_def sub_vol_def demo_fs_def)
  have cd: "cdir sub_vol = 0" by (simp add: sub_vol_def demo_fs_def)
  have c: "entry_clust sub_vol (take 32 sub_root) = 5" "entry_is_dir (take 32 sub_root)"
    using sub_bytes by (simp_all add: entry_clust_def entry_is_dir_def DIR_Attr_def AM_DIR_def le16_def)
      (simp add: sub_vol_def demo_fs_def FS_FAT16_def FS_FAT32_def)
  show ?thesis
    by (rule returns_mono [OF f_chdir_correct [OF ram.block_device_axioms sub_volume, where dno = 0 and fn = "replicate 12 0"]])
      (use sub_vol_ok ok c cd in \<open>auto simp: at Let_def sub_lookup sub_entry\<close>)
qed

text \<open>The directory ABCD in a buffer of seven bytes.\<close>

theorem f_getcwd_overrun_witness:
  "\<exists>buff'. cwd_push [0x41, 0x42, 0x43, 0x44, 0] 7 (replicate 7 0) = Some (FR_OK, 2, buff') \<and> length buff' = 7 \<and>
     cwd_finish 0 FR_OK 2 7 buff' = None"
  by (rule conjunct1 [OF f_getcwd_overrun [of _ _ _ "[0x41, 0x42, 0x43, 0x44]" "[]"]]) simp_all

end
