(* ===== verification/Fat_Grow.thy ===== *)
theory Fat_Grow
  imports Fat_Transfer
begin

text \<open>
  The chain of a file that grows: the clusters of an open file as a list, where the window is
  after an allocation, what writing leaves alone, and the step of \<open>f_write\<close> that enters the next
  cluster, allocating it at the end of the chain.
\<close>

section \<open>The clusters of a file\<close>

text \<open>The chain of an open file: no cluster at all, or a chain that ends with an end mark.\<close>

definition file_chain :: "('d \<Rightarrow> u32 \<Rightarrow> bytes) \<Rightarrow> 'd fatfs \<Rightarrow> u32 \<Rightarrow> u32 list \<Rightarrow> bool" where
  "file_chain img fs sc cs \<longleftrightarrow>
     (if sc = 0 then cs = [] else cs \<noteq> [] \<and> fat_chain (fat_entry img fs) (n_fatent fs) sc cs)"

lemma nth_cluster_chain: "fat_chain f n c cs \<Longrightarrow> nth_cluster f n k c = (if k < length cs then Some (cs ! k) else None)"
proof (induction cs arbitrary: c k)
  case Nil
  then show ?case by (cases k) auto
next
  case (Cons a cs)
  then show ?case by (cases k) auto
qed

lemma file_clust: "file_chain img fs sc cs \<Longrightarrow> fclust img fs sc k = (if k < length cs then Some (cs ! k) else None)"
proof -
  have "nth_cluster f n k 0 = None" for f n k by (cases k) auto
  then show "file_chain img fs sc cs \<Longrightarrow> ?thesis"
    by (auto simp: file_chain_def fclust_def nth_cluster_chain split: if_splits)
qed

lemma file_chain_range: "file_chain img fs sc cs \<Longrightarrow> x \<in> set cs \<Longrightarrow> 2 \<le> x \<and> x < n_fatent fs"
  by (auto simp: file_chain_def split: if_splits dest: fat_chain_range)

lemma file_chain_distinct: "file_chain img fs sc cs \<Longrightarrow> distinct cs"
  by (auto simp: file_chain_def split: if_splits dest: fat_chain_distinct)

lemma file_chain_unique: "file_chain img fs sc as \<Longrightarrow> file_chain img fs sc bs \<Longrightarrow> as = bs"
  by (auto simp: file_chain_def split: if_splits dest: fat_chain_unique)

text \<open>Sector \<open>k\<close> of a list of clusters.\<close>

definition csect :: "'d fatfs \<Rightarrow> u32 list \<Rightarrow> nat \<Rightarrow> u32" where
  "csect fs cs k = clust2sect fs (cs ! (k div unat (csize fs))) + of_nat (k mod unat (csize fs))"

lemma file_sect:
  assumes "vol_layout fs" and "file_chain img fs sc cs"
  shows "fsect img fs sc k = (if k < length cs * unat (csize fs) then Some (csect fs cs k) else None)"
proof -
  have "0 < unat (csize fs)" using assms(1) by (simp add: vol_layout_def unat_gt_0)
  then show ?thesis
    by (auto simp: fsect_def file_clust [OF assms(2)] csect_def div_less_iff_less_mult)
qed

lemma file_sects: "vol_layout fs \<Longrightarrow> file_chain img fs sc cs \<Longrightarrow> fsects img fs sc = csect fs cs ` {..<length cs * unat (csize fs)}"
  by (auto simp: fsects_def file_sect)

text \<open>The sectors of two clusters are apart.\<close>

lemma sector_cluster:
  assumes "vol_layout fs" and "2 \<le> c" "c < n_fatent fs" "i < unat (csize fs)" and "2 \<le> c'" "c' < n_fatent fs" "i' < unat (csize fs)"
    and "clust2sect fs c + of_nat i = clust2sect fs c' + of_nat i'"
  shows "c = c' \<and> i = i'"
proof -
  let ?C = "unat (csize fs)"
  have "(unat c - 2) * ?C + i = (unat c' - 2) * ?C + i'"
    using data_sector [OF assms(1,3,2,4)] data_sector [OF assms(1,6,5,7)] assms(8) by simp
  then have "((unat c - 2) * ?C + i) div ?C = ((unat c' - 2) * ?C + i') div ?C \<and> ((unat c - 2) * ?C + i) mod ?C = ((unat c' - 2) * ?C + i') mod ?C"
    by simp
  then have "unat c - 2 = unat c' - 2" "i = i'" using assms(4,7) by auto
  moreover have "2 \<le> unat c" "2 \<le> unat c'" using assms(2,5) by (simp_all add: word_le_nat_alt)
  ultimately show ?thesis by (auto intro: word_unat_eq_iff [THEN iffD2])
qed

lemma csect_inj:
  assumes "vol_layout fs" and "file_chain img fs sc cs" and k: "k < length cs * unat (csize fs)" and k': "k' < length cs * unat (csize fs)"
    and "csect fs cs k = csect fs cs k'"
  shows "k = k'"
proof -
  have C: "0 < unat (csize fs)" using assms(1) by (simp add: vol_layout_def unat_gt_0)
  have d: "k div unat (csize fs) < length cs" "k' div unat (csize fs) < length cs"
    using k k' C by (simp_all add: div_less_iff_less_mult)
  note r = file_chain_range [OF assms(2)] nth_mem
  have "cs ! (k div unat (csize fs)) = cs ! (k' div unat (csize fs)) \<and> k mod unat (csize fs) = k' mod unat (csize fs)"
    using assms(5) unfolding csect_def by (intro sector_cluster [OF assms(1)]) (use d r C in auto)
  moreover then have "k div unat (csize fs) = k' div unat (csize fs)"
    using file_chain_distinct [OF assms(2)] d by (simp add: nth_eq_iff_index_eq)
  ultimately show "k = k'" by (metis div_mult_mod_eq)
qed

section \<open>Where the window is after an allocation\<close>

lemma move_window_at:
  assumes "move_window ops s fs = Some (FR_OK, fs')" shows "winsect fs' = s"
proof (cases "s = winsect fs")
  case True
  then show ?thesis using assms by (simp add: move_window_def)
next
  case False
  obtain res fs1 where a: "sync_window ops fs = Some (res, fs1)"
    using assms False by (auto simp: move_window_def bind_eq_Some_conv)
  then have "res = FR_OK" using assms False by (simp add: move_window_def split: if_split_asm)
  then obtain r b d where "drv_read ops (drv fs1) (win fs1) s 1 (dsk fs1) = Some ((r, b), d)"
    using a assms False by (simp add: move_window_def) (auto simp: bind_eq_Some_conv)
  then show ?thesis using \<open>res = FR_OK\<close> a assms False by (auto simp: move_window_def Let_def split: if_split_asm)
qed
lemma move_window_base: "move_window ops s fs = Some (r, fs') \<Longrightarrow> fatbase fs' = fatbase fs"
  using move_window_winsect by blast

lemma table_sector_area: "vol_layout fs \<Longrightarrow> k < 512 * unat (fsize fs) \<Longrightarrow> fat_area fs (fatbase fs + of_nat (k div 512))"
  using fat_sector_unat(2) [of fs k] u32_less [of "fsize fs"]
  by (simp add: fat_area_def word_less_nat_alt unat_of_nat_small)

lemma put_fat_winsect:
  assumes "vol_layout fs" and "c < n_fatent fs" and "put_fat ops c v fs = Some (FR_OK, fs')"
  shows "fat_area fs (winsect fs')"
proof -
  have c2: "\<not> c < 2" "\<not> n_fatent fs \<le> c" using assms(2,3) by (auto simp: put_fat_def)
  let ?k = "fat_pos (fs_type fs) (unat c)"
  note b = fat_pos_bound [OF assms(1,2)] and n = layout_n [OF assms(1,2)]
  consider "fs_type fs = FS_FAT12" | "fs_type fs = FS_FAT16" | "fs_type fs = FS_FAT32" using layout_type [OF assms(1)] by blast
  then show ?thesis
  proof cases
    case 1
    then have "fat_area fs (fatbase fs + of_nat ((?k + 1) div 512))" using b by (auto intro!: table_sector_area [OF assms(1)])
    moreover have "(c + c div 2 + 1) div 512 = of_nat ((?k + 1) div 512)"
      using fat12_pos [OF n(1) [OF 1]] 1 by (simp add: u32_div512)
    ultimately have area: "fat_area fs (fatbase fs + (c + c div 2 + 1) div 512)" by simp
    obtain r1 fs1 where m1: "move_window ops (fatbase fs + (c + c div 2) div 512) fs = Some (r1, fs1)"
      using assms(3) 1 c2 by (simp add: put_fat_def Let_def) (auto simp: bind_eq_Some_conv)
    have r1: "r1 = FR_OK" using assms(3) 1 c2 m1 by (simp add: put_fat_def Let_def split: if_split_asm)
    obtain w where m2: "move_window ops (fatbase fs1 + (c + c div 2 + 1) div 512) (fs1\<lparr>win := w, wflag := 1\<rparr>) \<bind>
        (\<lambda>(r, fs). if r \<noteq> FR_OK then Some (r, fs) else do {
          p \<leftarrow> get_at (unat ((c + c div 2 + 1) mod 512)) (win fs);
          w \<leftarrow> put_at (unat ((c + c div 2 + 1) mod 512))
                 (if c AND 1 \<noteq> 0 then ucast (drop_bit 4 v) else (p AND 0xF0) OR (ucast (drop_bit 8 v) AND 0x0F)) (win fs);
          Some (FR_OK, fs\<lparr>win := w, wflag := 1\<rparr>) }) = Some (FR_OK, fs')"
      using assms(3) 1 c2 m1 r1 by (simp add: put_fat_def Let_def) (force simp: bind_eq_Some_conv)
    obtain r2 fs2 where m3: "move_window ops (fatbase fs1 + (c + c div 2 + 1) div 512) (fs1\<lparr>win := w, wflag := 1\<rparr>) = Some (r2, fs2)"
      using m2 by (auto simp: bind_eq_Some_conv)
    then have "r2 = FR_OK" using m2 by (simp split: if_split_asm)
    then have "winsect fs' = fatbase fs + (c + c div 2 + 1) div 512"
      using m2 m3 r1 move_window_at [of ops _ _ fs2] move_window_base [OF m1] by (auto simp: bind_eq_Some_conv)
    then show ?thesis using area by simp
  next
    case 2
    then have "fat_area fs (fatbase fs + of_nat (?k div 512))" using b by (auto intro!: table_sector_area [OF assms(1)])
    then show ?thesis
      using assms(3) 2 c2 fat16_pos [OF n(2) [OF 2]]
      by (auto simp: put_fat_def bind_eq_Some_conv Let_def FS_FAT12_def FS_FAT16_def FS_FAT32_def split: if_splits dest: move_window_at)
  next
    case 3
    then have "fat_area fs (fatbase fs + of_nat (?k div 512))" using b by (auto intro!: table_sector_area [OF assms(1)])
    then show ?thesis
      using assms(3) 3 c2 fat32_pos [OF n(3) [OF 3]]
      by (auto simp: put_fat_def bind_eq_Some_conv Let_def FS_FAT12_def FS_FAT16_def FS_FAT32_def split: if_splits dest: move_window_at)
  qed
qed

text \<open>The window is where it was, invalid, or on a sector of the table.\<close>

definition win_moved :: "'d fatfs \<Rightarrow> 'd fatfs \<Rightarrow> bool" where
  "win_moved fs fs' \<longleftrightarrow> winsect fs' = winsect fs \<or> winsect fs' = 0xFFFFFFFF \<or> fat_area fs (winsect fs')"

lemma win_moved_refl [simp]: "win_moved fs fs"
  by (simp add: win_moved_def)

lemma win_moved_trans: "win_moved a b \<Longrightarrow> fat_area b = fat_area a \<Longrightarrow> win_moved b c \<Longrightarrow> win_moved a c"
  by (auto simp: win_moved_def)

lemma get_fat_moved: "vol_layout fs \<Longrightarrow> get_fat ops c fs = Some (v, fs') \<Longrightarrow> win_moved fs fs'"
  by (simp add: win_moved_def) (rule get_fat_winsect)

context block_device
begin

lemma get_fat_unchanged:
  assumes "inv fs" and "vol_layout fs" and "get_fat ops c fs = Some (v, fs')"
  shows "inv fs'" and "unchanged img fs fs'" and "vol_layout fs'" and "fat_area fs' = fat_area fs" and "win_moved fs fs'"
proof -
  show u: "inv fs'" "unchanged img fs fs'" using get_fat_law [OF assms(1,2), of c] assms(3) by simp_all
  show "vol_layout fs'" by (rule unchanged_layout [OF u(2) assms(2)])
  show "fat_area fs' = fat_area fs" by (rule fat_area_same_vol) (rule unchanged_same_vol [OF u(2)])
  show "win_moved fs fs'" by (rule get_fat_moved [OF assms(2,3)])
qed

lemma create_scan_moved:
  assumes "create_scan ops scl ncl fs = Some (r, fs')" and "inv fs" and "vol_layout fs"
  shows "win_moved fs fs'"
proof -
  define P where "P = (\<lambda>ops' (scl :: u32) (ncl :: u32) fs (y :: (u32 + u32) \<times> 'd fatfs).
    ops' = ops \<longrightarrow> inv fs \<longrightarrow> vol_layout fs \<longrightarrow> win_moved fs (snd y))"
  have "P ops scl ncl fs (r, fs')"
  proof (rule create_scan.raw_induct [where P = P, OF _ assms(1)])
    fix scan :: "'d disk_ops \<Rightarrow> u32 \<Rightarrow> u32 \<Rightarrow> 'd fatfs \<Rightarrow> ((u32 + u32) \<times> 'd fatfs) option" and ops' scl ncl fs y
    assume IH: "\<And>ops' scl ncl fs y. scan ops' scl ncl fs = Some y \<Longrightarrow> P ops' scl ncl fs y"
      and body: "(let ncl = ncl + 1; wrap = n_fatent fs \<le> ncl; ncl = if wrap then 2 else ncl
        in if wrap \<and> scl < ncl then Some (Inl 0, fs)
           else do {
             (cs, fs) \<leftarrow> get_fat ops' ncl fs;
             if cs = 0 then Some (Inr ncl, fs)
             else if cs = 0xFFFFFFFF \<or> cs = 1 then Some (Inl cs, fs)
             else if ncl = scl then Some (Inl 0, fs) else scan ops' scl ncl fs }) = Some y"
    show "P ops' scl ncl fs y"
      unfolding P_def
    proof (intro impI)
      assume o: "ops' = ops" and i: "inv fs" "vol_layout fs"
      define n where "n = (if n_fatent fs \<le> ncl + 1 then 2 else ncl + 1)"
      show "win_moved fs (snd y)"
      proof (cases "n_fatent fs \<le> ncl + 1 \<and> scl < n")
        case True
        then show ?thesis using body by (auto simp: Let_def n_def)
      next
        case False
        then obtain cs fs1 where g: "get_fat ops n fs = Some (cs, fs1)"
            "(if cs = 0 then Some (Inr n, fs1)
             else if cs = 0xFFFFFFFF \<or> cs = 1 then Some (Inl cs, fs1)
             else if n = scl then Some (Inl 0, fs1) else scan ops scl n fs1) = Some y"
          using body o unfolding Let_def n_def [symmetric] by (auto simp: bind_eq_Some_conv)
        note u = get_fat_unchanged [OF i g(1)]
        show ?thesis
        proof (cases "scan ops scl n fs1 = Some y")
          case True
          then have "win_moved fs1 (snd y)" using IH [OF True] u(1,3) by (simp add: P_def)
          then show ?thesis by (rule win_moved_trans [OF u(5,4)])
        next
          case False
          then have "snd y = fs1" using g(2) by (auto split: if_split_asm)
          then show ?thesis using u(5) by simp
        qed
      qed
    qed
  qed
  then show ?thesis using assms(2,3) by (simp add: P_def)
qed

lemma create_chain_moved:
  assumes "inv fs" and "vol_layout fs" and "create_chain ops c fs = Some (v, fs')"
    and v: "v \<noteq> 1" "v \<noteq> 0xFFFFFFFF"
  shows "win_moved fs fs' \<and> (v \<noteq> 0 \<longrightarrow> \<not> (c \<noteq> 0 \<and> fat_entry img fs c = v) \<longrightarrow> fat_area fs (winsect fs'))"
proof -
  obtain x fs1 where st: "create_start ops c fs = Some (x, fs1)" "inv fs1" "unchanged img fs fs1"
      "case x of Inr s \<Rightarrow> 1 \<le> s \<and> s < n_fatent fs \<and> (c \<noteq> 0 \<longrightarrow> s = c \<and> 2 \<le> c \<and> n_fatent fs \<le> fat_entry img fs c)
       | Inl v \<Rightarrow> v = 1 \<or> v = 0xFFFFFFFF \<or> 2 \<le> v \<and> v < n_fatent fs \<and> c \<noteq> 0 \<and> fat_entry img fs c = v"
    using create_start_law [OF assms(1,2), of c] by (auto simp: returns_iff)
  have m1: "win_moved fs fs1"
    using st(1) get_fat_moved [OF assms(2)] by (auto simp: create_start_def bind_eq_Some_conv split: if_split_asm)
  note lay1 = unchanged_layout [OF st(3) assms(2)] and area1 = fat_area_same_vol [OF unchanged_same_vol [OF st(3)]] and sel1 = unchanged_sel [OF st(3)]
  show ?thesis
  proof (cases x)
    case (Inl w)
    then show ?thesis using assms(3) st(1,4) m1 v by (auto simp: create_chain_def)
  next
    case (Inr s)
    then have s: "1 \<le> s" "s < n_fatent fs1" using st(4) sel1 by auto
    obtain y fs2 where sc: "create_scan ops s s fs1 = Some (y, fs2)"
        "scan_post {x. s < x \<and> x < n_fatent fs1 \<or> 2 \<le> x \<and> x \<le> s} fs1 y fs2"
      using create_scan_high [OF st(2) lay1 s(1) order_refl s(2)] by (auto simp: returns_iff)
    have m2: "win_moved fs fs2" by (rule win_moved_trans [OF m1 area1 create_scan_moved [OF sc(1) st(2) lay1]])
    have u2: "inv fs2" "unchanged img fs1 fs2" using sc(2) by (auto simp: scan_post_def)
    note lay2 = unchanged_layout [OF u2(2) lay1] and sel2 = unchanged_sel [OF u2(2)]
    have area2: "fat_area fs2 = fat_area fs" using fat_area_same_vol [OF unchanged_same_vol [OF u2(2)]] area1 by simp
    show ?thesis
    proof (cases y)
      case (Inl w)
      then show ?thesis using assms(3) st(1) Inr sc m2 v by (auto simp: create_chain_def scan_post_def)
    next
      case free: (Inr m)
      have m: "2 \<le> m" "m < n_fatent fs2" using sc(2) free sel2 by (simp_all add: scan_post_def)
      obtain r fs3 where p: "put_fat ops m 0x0FFFFFFF fs2 = Some (r, fs3)" "r = FR_OK \<or> r = FR_DISK_ERR" "inv fs3" "vol_layout fs3"
          "outside img fs2 fs3" "n_fatent fs3 = n_fatent fs2"
        by (rule put_fat_step [OF u2(1) lay2 m, of "0x0FFFFFFF"]) blast
      have area3: "fat_area fs3 = fat_area fs" using p(5) geom_sel(15) [of fs3 fs2] area2 by (simp add: outside_def)
      have rest: "(do { (res, fs) \<leftarrow> (if r = FR_OK \<and> c \<noteq> 0 then put_fat ops c m fs3 else Some (r, fs3));
          if res = FR_OK then Some (m, note_alloc m fs) else Some (if res = FR_DISK_ERR then 0xFFFFFFFF else 1, fs) }) = Some (v, fs')"
        using assms(3) st(1) Inr sc(1) free p(1) by (simp add: create_chain_def)
      then obtain r4 fs4 where q: "(if r = FR_OK \<and> c \<noteq> 0 then put_fat ops c m fs3 else Some (r, fs3)) = Some (r4, fs4)"
          "(if r4 = FR_OK then Some (m, note_alloc m fs4) else Some (if r4 = FR_DISK_ERR then 0xFFFFFFFF else 1, fs4)) = Some (v, fs')"
        by (auto simp: bind_eq_Some_conv)
      have r4: "r4 = FR_OK" using q(2) v by (auto split: if_split_asm)
      have "fat_area fs (winsect fs4)"
      proof (cases "r = FR_OK \<and> c \<noteq> 0")
        case True
        then have "c < n_fatent fs3" using st(4) Inr p(6) sel1(11) sel2(11) by auto
        then show ?thesis using put_fat_winsect [OF p(4)] q(1) r4 True area3 by auto
      next
        case False
        then show ?thesis using put_fat_winsect [OF lay2 m(2)] p(1) q(1) r4 area2 by auto
      qed
      then show ?thesis using q(2) r4 by (auto simp: win_moved_def note_alloc_def Let_def)
    qed
  qed
qed

end

section \<open>What writing leaves alone\<close>

lemma clust2sect_geom: "geom fs' = geom fs \<Longrightarrow> clust2sect fs' = clust2sect fs"
  by (auto simp: geom_def clust2sect_def fun_eq_iff Let_def)

lemma dir_layout_geom: "geom fs' = geom fs \<Longrightarrow> dir_layout fs' = dir_layout fs"
  by (auto simp: geom_def dir_layout_def)

lemma csect_geom: "geom fs' = geom fs \<Longrightarrow> csect fs' = csect fs"
  using clust2sect_geom [of fs' fs] by (auto simp: geom_def csect_def fun_eq_iff)

text \<open>The sectors a file with the clusters \<open>cs\<close> may write: those of its clusters and of the free ones.\<close>

definition own :: "('d \<Rightarrow> u32 \<Rightarrow> bytes) \<Rightarrow> 'd fatfs \<Rightarrow> u32 list \<Rightarrow> u32 \<Rightarrow> bool" where
  "own img fs cs s \<longleftrightarrow> (\<exists>c i. (c \<in> set cs \<or> fat_entry img fs c = 0) \<and> 2 \<le> c \<and> c < n_fatent fs \<and>
     i < unat (csize fs) \<and> s = clust2sect fs c + of_nat i)"

text \<open>No cluster in use elsewhere was touched, and no other sector but those of the table.\<close>

definition kept :: "('d \<Rightarrow> u32 \<Rightarrow> bytes) \<Rightarrow> 'd fatfs \<Rightarrow> u32 list \<Rightarrow> 'd fatfs \<Rightarrow> bool" where
  "kept img fs cs fs' \<longleftrightarrow> geom fs' = geom fs \<and>
     (\<forall>x. 2 \<le> x \<longrightarrow> x < n_fatent fs \<longrightarrow> x \<notin> set cs \<longrightarrow> fat_entry img fs x \<noteq> 0 \<longrightarrow> fat_entry img fs' x = fat_entry img fs x) \<and>
     (\<forall>t. tracked fs t \<longrightarrow> \<not> fat_area fs t \<longrightarrow> \<not> own img fs cs t \<longrightarrow> view img fs' t = view img fs t)"

lemma kept_refl [simp]: "kept img fs cs fs"
  by (simp add: kept_def)

lemma kept_layout: "kept img fs cs fs' \<Longrightarrow> vol_layout fs' = vol_layout fs" "kept img fs cs fs' \<Longrightarrow> dir_layout fs' = dir_layout fs"
  unfolding kept_def using geom_sel(16) dir_layout_geom by blast+

text \<open>The clusters \<open>cs'\<close> are those of \<open>cs\<close> and clusters that were free.\<close>

definition grows :: "('d \<Rightarrow> u32 \<Rightarrow> bytes) \<Rightarrow> 'd fatfs \<Rightarrow> u32 list \<Rightarrow> u32 list \<Rightarrow> bool" where
  "grows img fs cs cs' \<longleftrightarrow> (\<exists>new. cs' = cs @ new \<and> (\<forall>x \<in> set new. fat_entry img fs x = 0))"

lemma grows_refl [simp]: "grows img fs cs cs"
  by (simp add: grows_def)

lemma own_grows:
  assumes "kept img fs cs fs'" and "grows img fs cs cs'" and "own img fs' cs' s"
  shows "own img fs cs s"
proof -
  have g: "geom fs' = geom fs" using assms(1) by (simp add: kept_def)
  obtain c i where c: "c \<in> set cs' \<or> fat_entry img fs' c = 0" "2 \<le> c" "c < n_fatent fs" "i < unat (csize fs)" "s = clust2sect fs c + of_nat i"
    using assms(3) by (auto simp: own_def geom_sel [OF g] clust2sect_geom [OF g])
  have "c \<in> set cs \<or> fat_entry img fs c = 0"
    using c(1-3) assms(1,2) by (force simp: kept_def grows_def)
  then show ?thesis using c by (auto simp: own_def)
qed

lemma grows_trans:
  assumes "kept img fs cs fs1" and "grows img fs cs cs1" and "grows img fs1 cs1 cs2"
    and "\<And>x. x \<in> set cs2 \<Longrightarrow> 2 \<le> x \<and> x < n_fatent fs" and "distinct cs2"
  shows "grows img fs cs cs2"
proof -
  obtain a b where n: "cs1 = cs @ a" "\<forall>x \<in> set a. fat_entry img fs x = 0" "cs2 = cs1 @ b" "\<forall>x \<in> set b. fat_entry img fs1 x = 0"
    using assms(2,3) by (auto simp: grows_def)
  have "fat_entry img fs x = 0" if "x \<in> set b" for x
  proof (rule ccontr)
    assume "fat_entry img fs x \<noteq> 0"
    moreover have "x \<notin> set cs" "2 \<le> x" "x < n_fatent fs" using assms(4,5) n(1,3) that by auto
    ultimately have "fat_entry img fs1 x \<noteq> 0" using assms(1) by (simp add: kept_def)
    with n(4) that show False by simp
  qed
  then show ?thesis using n by (auto simp: grows_def)
qed

lemma kept_trans:
  assumes "kept img fs cs fs1" and "grows img fs cs cs1" and "kept img fs1 cs1 fs2"
  shows "kept img fs cs fs2"
proof -
  have g: "geom fs1 = geom fs" using assms(1) by (simp add: kept_def)
  note sel = geom_sel [OF g]
  have e: "fat_entry img fs2 x = fat_entry img fs x" if "2 \<le> x" "x < n_fatent fs" "x \<notin> set cs" "fat_entry img fs x \<noteq> 0" for x
  proof -
    have "x \<notin> set cs1" using that assms(2) by (auto simp: grows_def)
    then show ?thesis using that assms(1,3) by (simp add: kept_def sel)
  qed
  have "view img fs2 t = view img fs t" if "tracked fs t" "\<not> fat_area fs t" "\<not> own img fs cs t" for t
    using that assms(1,3) own_grows [OF assms(1,2), of t] unfolding kept_def sel by auto
  then show ?thesis using assms(1,3) e by (simp add: kept_def)
qed

section \<open>Growing a chain\<close>

lemma fat_chain_snoc:
  assumes "fat_chain f n c cs" and "cs \<noteq> []" and "2 \<le> v" "v < n" "n \<le> g v" "2 < n" and "g (last cs) = v"
    and "\<And>x. x \<in> set cs \<Longrightarrow> x \<noteq> last cs \<Longrightarrow> g x = f x"
  shows "fat_chain g n c (cs @ [v])"
  using assms(1,2,7,8)
proof (induction cs arbitrary: c)
  case (Cons a as)
  show ?case
  proof (cases "as = []")
    case True
    then show ?thesis using Cons.prems assms(3-6) by auto
  next
    case False
    have d: "distinct (a # as)" by (rule fat_chain_distinct [OF Cons.prems(1)])
    then have "a \<noteq> last as" using False by auto
    then have "g a = f a" using Cons.prems(4) [of a] False by simp
    moreover have "fat_chain g n (f a) (as @ [v])"
      using Cons.IH [of "f a"] Cons.prems False by auto
    ultimately show ?thesis using Cons.prems(1) by auto
  qed
qed simp

lemma layout_mark:
  assumes "vol_layout fs"
  shows "n_fatent fs \<le> fat_mask (fs_type fs)" and "2 < n_fatent fs"
proof -
  show "2 < n_fatent fs" using assms by (simp add: vol_layout_def)
  have "unat (n_fatent fs) \<le> unat (fat_mask (fs_type fs))"
    using assms layout_type [OF assms] by (auto simp: vol_layout_def fat_mask_def split: if_splits)
  then show "n_fatent fs \<le> fat_mask (fs_type fs)" by (simp add: word_le_nat_alt)
qed

lemma chain_end: "fat_chain f n c cs \<Longrightarrow> cs \<noteq> [] \<Longrightarrow> n \<le> f (last cs)"
  by (induction cs arbitrary: c) (auto split: if_splits)

lemma chain_link: "fat_chain f n c cs \<Longrightarrow> Suc k < length cs \<Longrightarrow> f (cs ! k) = cs ! Suc k"
proof (induction cs arbitrary: c k)
  case (Cons a as)
  then show ?case by (cases as; cases k) auto
qed simp

lemma file_chain_grown:
  assumes "vol_layout fs" and "file_chain img fs sc cs" and "geom fs' = geom fs" and "c = (if cs = [] then 0 else last cs)"
    and v: "2 \<le> v" "v < n_fatent fs" "fat_entry img fs v = 0" "fat_entry img fs' v = fat_mask (fs_type fs)"
    and "c \<noteq> 0 \<longrightarrow> fat_entry img fs' c = v"
    and same: "\<forall>x. x < n_fatent fs \<longrightarrow> x \<noteq> v \<longrightarrow> x \<noteq> c \<longrightarrow> fat_entry img fs' x = fat_entry img fs x"
  shows "file_chain img fs' (if sc = 0 then v else sc) (cs @ [v])"
proof (cases "cs = []")
  case True
  then have "sc = 0" using assms(2) by (auto simp: file_chain_def split: if_splits)
  moreover have "v \<noteq> 0" using v(1) by auto
  ultimately show ?thesis
    using True v layout_mark [OF assms(1)] by (auto simp: file_chain_def geom_sel [OF assms(3)])
next
  case False
  then have ch: "fat_chain (fat_entry img fs) (n_fatent fs) sc cs" "sc \<noteq> 0"
    using assms(2) by (auto simp: file_chain_def split: if_splits)
  have c: "c = last cs" "c \<noteq> 0" using False assms(4) fat_chain_range [OF ch(1), of "last cs"] by auto
  have nv: "v \<notin> set cs"
  proof
    assume "v \<in> set cs"
    moreover have "fat_chain f n x as \<Longrightarrow> y \<in> set as \<Longrightarrow> 2 \<le> f y" for f n x as y
      by (induction as arbitrary: x) auto
    ultimately show False using ch(1) v(3) by fastforce
  qed
  have "fat_chain (fat_entry img fs') (n_fatent fs) sc (cs @ [v])"
    by (rule fat_chain_snoc [OF ch(1) False v(1,2)])
      (use layout_mark [OF assms(1)] v(4) assms(9) c same nv fat_chain_range [OF ch(1)] in \<open>auto simp: \<close>)
  then show ?thesis using ch(2) by (simp add: file_chain_def geom_sel [OF assms(3)])
qed

section \<open>Entering a cluster\<close>

text \<open>The place of the file pointer in the chain, at position \<open>p\<close>.\<close>

definition wr_at :: "'d fatfs \<Rightarrow> u32 list \<Rightarrow> fil \<Rightarrow> nat \<Rightarrow> bool" where
  "wr_at fs cs fp p \<longleftrightarrow>
     (p \<noteq> 0 \<longrightarrow> (p - 1) div 512 div unat (csize fs) < length cs \<and> fp_clust fp = cs ! ((p - 1) div 512 div unat (csize fs))) \<and>
     (p mod 512 \<noteq> 0 \<longrightarrow> fp_dsect fp = csect fs cs (p div 512))"

lemma csect_in: "vol_layout fs \<Longrightarrow> file_chain img fs sc cs \<Longrightarrow> k < length cs * unat (csize fs) \<Longrightarrow> csect fs cs k \<in> fsects img fs sc"
  by (simp add: file_sects)

lemma csect_append: "k < length cs * unat (csize fs) \<Longrightarrow> csect fs (cs @ ds) k = csect fs cs k"
proof -
  assume "k < length cs * unat (csize fs)"
  then have "k div unat (csize fs) < length cs"
    by (cases "unat (csize fs) = 0") (simp_all add: div_less_iff_less_mult)
  then show "csect fs (cs @ ds) k = csect fs cs k" by (simp add: csect_def nth_append)
qed

lemma fil_base_chain:
  assumes "vol_layout fs" and "file_chain img fs (fp_sclust fp) cs"
  shows "fil_base img fs fp \<longleftrightarrow> length (fp_buf fp) = 512 \<and> unat (fp_fsize fp) \<le> 512 * (length cs * unat (csize fs)) \<and>
    (fp_dsect fp \<noteq> 0 \<longrightarrow> fp_dsect fp \<in> fsects img fs (fp_sclust fp) \<and> fp_buf fp = fdata img fs fp (fp_dsect fp)) \<and>
    (dirty fp \<longrightarrow> fp_dsect fp \<in> fsects img fs (fp_sclust fp)) \<and> winsect fs \<notin> fsects img fs (fp_sclust fp)"
proof -
  let ?N = "length cs * unat (csize fs)"
  have "(\<forall>k. 512 * k < unat (fp_fsize fp) \<longrightarrow> fsect img fs (fp_sclust fp) k \<noteq> None) \<longleftrightarrow> unat (fp_fsize fp) \<le> 512 * ?N"
  proof
    assume "\<forall>k. 512 * k < unat (fp_fsize fp) \<longrightarrow> fsect img fs (fp_sclust fp) k \<noteq> None"
    then have a: "\<forall>k. 512 * k < unat (fp_fsize fp) \<longrightarrow> k < ?N" by (auto simp: file_sect [OF assms] split: if_split_asm)
    show "unat (fp_fsize fp) \<le> 512 * ?N"
    proof (rule ccontr)
      assume "\<not> ?thesis"
      then have "512 * ?N < unat (fp_fsize fp)" by simp
      with a have "?N < ?N" by blast
      then show False by simp
    qed
  qed (auto simp: file_sect [OF assms])
  then show ?thesis unfolding fil_base_def by simp
qed

text \<open>A change of the table that keeps the sectors of the file.\<close>

lemma base_grown:
  assumes lay: "vol_layout fs" and ch: "file_chain img fs (fp_sclust fp) cs" and base: "fil_base img fs fp"
    and out: "outside img fs fs'" and ch': "file_chain img fs' sc' (cs @ new)" and w: "winsect fs' \<notin> fsects img fs' sc'"
  shows "fil_base img fs' (fp\<lparr>fp_clust := c, fp_sclust := sc'\<rparr>)"
    and "\<And>s. s \<in> fsects img fs (fp_sclust fp) \<Longrightarrow> fdata img fs' (fp\<lparr>fp_clust := c, fp_sclust := sc'\<rparr>) s = fdata img fs fp s"
proof -
  have g: "geom fs' = geom fs" using out by (simp add: outside_def)
  note sel = geom_sel [OF g] csect_geom [OF g]
  have lay': "vol_layout fs'" using lay sel(16) by simp
  have b: "winsect fs \<notin> fsects img fs (fp_sclust fp)" using base by (simp add: fil_base_def)
  have sub: "fsects img fs (fp_sclust fp) \<subseteq> fsects img fs' sc'"
    unfolding file_sects [OF lay ch] file_sects [OF lay' ch'] sel
  proof
    fix s assume "s \<in> csect fs cs ` {..<length cs * unat (csize fs)}"
    then obtain k where k: "k < length cs * unat (csize fs)" "s = csect fs (cs @ new) k" by (auto simp: csect_append)
    then have "k < length (cs @ new) * unat (csize fs)" by (simp add: add_mult_distrib)
    then show "s \<in> csect fs (cs @ new) ` {..<length (cs @ new) * unat (csize fs)}" using k(2) by blast
  qed
  have same: "img (dsk fs') s = img (dsk fs) s" if s: "s \<in> fsects img fs (fp_sclust fp)" for s
  proof -
    have "view img fs' s = view img fs s" using out fsects_valid [OF lay s] by (simp add: outside_def)
    moreover have "s \<noteq> winsect fs" "s \<noteq> winsect fs'" using s b w sub by auto
    ultimately show ?thesis by (simp add: view_def)
  qed
  show dat: "fdata img fs' (fp\<lparr>fp_clust := c, fp_sclust := sc'\<rparr>) s = fdata img fs fp s" if "s \<in> fsects img fs (fp_sclust fp)" for s
    using same [OF that] by (simp add: fdata_def)
  have "file_chain img fs' (fp_sclust (fp\<lparr>fp_clust := c, fp_sclust := sc'\<rparr>)) (cs @ new)" using ch' by simp
  from fil_base_chain [OF lay' this] show "fil_base img fs' (fp\<lparr>fp_clust := c, fp_sclust := sc'\<rparr>)"
    using base [unfolded fil_base_chain [OF lay ch]] w sub dat by (auto simp: sel add_mult_distrib)
qed

text \<open>No cluster is free.\<close>

definition full :: "('d \<Rightarrow> u32 \<Rightarrow> bytes) \<Rightarrow> 'd fatfs \<Rightarrow> bool" where
  "full img fs \<longleftrightarrow> (\<forall>x. 2 \<le> x \<longrightarrow> x < n_fatent fs \<longrightarrow> fat_entry img fs x \<noteq> 0)"

text \<open>The window is on no sector of a file.\<close>

lemma win_off_file:
  assumes "vol_layout fs'" and "geom fs' = geom fs" and "winsect fs' = 0xFFFFFFFF \<or> fat_area fs (winsect fs')"
  shows "winsect fs' \<notin> fsects img fs' sc"
proof
  assume "winsect fs' \<in> fsects img fs' sc"
  from fsects_valid [OF assms(1) this] show False
    using assms(3) geom_sel(15) [OF assms(2)] by (auto simp: tracked_def)
qed

context block_device
begin

text \<open>The next cluster of a chain that goes on.\<close>

lemma create_chain_next:
  assumes "inv fs" and "vol_layout fs" and "2 \<le> c" "c < n_fatent fs" and "fat_entry img fs c = v" "2 \<le> v" "v < n_fatent fs"
  shows "returns (create_chain ops c fs) (\<lambda>r fs'. inv fs' \<and> unchanged img fs fs' \<and> win_moved fs fs' \<and> (r = v \<or> r = 0xFFFFFFFF))"
proof -
  obtain r fs1 where g: "get_fat ops c fs = Some (r, fs1)" "inv fs1" "unchanged img fs fs1" "r = v \<or> r = 0xFFFFFFFF"
    using get_fat_law [OF assms(1,2), of c] assms(3-5) by (auto simp: returns_iff)
  have n: "n_fatent fs1 = n_fatent fs" using unchanged_sel [OF g(3)] by simp
  have "c \<noteq> 0" "\<not> v < 2" using assms(3,6) by auto
  then have "create_chain ops c fs = Some (r, fs1)"
    using g(1,4) n assms(7) by (auto simp: create_chain_def create_start_def)
  then show ?thesis using g get_fat_moved [OF assms(2) g(1)] by simp
qed

text \<open>A new cluster at the end of the chain.\<close>

lemma alloc_step:
  assumes "inv fs" and lay: "vol_layout fs" and ch: "file_chain img fs sc cs" and c: "c = (if cs = [] then 0 else last cs)"
  shows "returns (create_chain ops c fs) (\<lambda>v fs'. inv fs' \<and> kept img fs cs fs' \<and> outside img fs fs' \<and>
    (v = 1 \<or> v = 0xFFFFFFFF \<or> v = 0 \<and> full img fs' \<and> win_moved fs fs' \<and> file_chain img fs' sc cs \<or>
     2 \<le> v \<and> v < n_fatent fs \<and> fat_entry img fs v = 0 \<and> file_chain img fs' (if sc = 0 then v else sc) (cs @ [v]) \<and>
       fat_area fs (winsect fs')))"
proof -
  obtain v fs' where r: "create_chain ops c fs = Some (v, fs')" "inv fs'" "outside img fs fs'" "alloc_post img c fs v fs'"
    using create_chain_law [OF assms(1,2), of c] by (auto simp: returns_iff)
  have g: "geom fs' = geom fs" using r(3) by (simp add: outside_def)
  note sel = geom_sel [OF g]
  have cc: "c = 0 \<or> c \<in> set cs \<and> n_fatent fs \<le> fat_entry img fs c"
  proof (cases "cs = []")
    case False
    then show ?thesis using c ch chain_end [of "fat_entry img fs" "n_fatent fs" sc cs] by (simp add: file_chain_def split: if_splits)
  qed (use c in simp)
  have k: "kept img fs cs fs'"
    using r(3,4) cc unfolding kept_def alloc_post_def outside_def by auto
  have mv: "win_moved fs fs' \<and> (v \<noteq> 0 \<longrightarrow> \<not> (c \<noteq> 0 \<and> fat_entry img fs c = v) \<longrightarrow> fat_area fs (winsect fs'))"
    if "v \<noteq> 1" "v \<noteq> 0xFFFFFFFF" by (rule create_chain_moved [OF assms(1,2) r(1) that])
  consider "v = 1 \<or> v = 0xFFFFFFFF" | "v = 0" "\<forall>x. 2 \<le> x \<longrightarrow> x < n_fatent fs \<longrightarrow> fat_entry img fs x \<noteq> 0"
      "\<forall>x. x < n_fatent fs \<longrightarrow> fat_entry img fs' x = fat_entry img fs x"
    | "2 \<le> v" "v < n_fatent fs" "fat_entry img fs v = 0" "v \<noteq> c" "fat_entry img fs' v = fat_mask (fs_type fs)"
      "c \<noteq> 0 \<longrightarrow> fat_entry img fs' c = v"
      "\<forall>x. x < n_fatent fs \<longrightarrow> x \<noteq> v \<longrightarrow> x \<noteq> c \<longrightarrow> fat_entry img fs' x = fat_entry img fs x"
    using r(4) cc unfolding alloc_post_def by fastforce
  then show ?thesis
  proof cases
    case 1
    then show ?thesis using r k by auto
  next
    case 2
    then have "full img fs'" by (simp add: full_def sel)
    moreover have "file_chain img fs' sc cs"
      using ch 2(3) fat_chain_range by (auto simp: file_chain_def sel intro: fat_chain_cong split: if_splits)
    ultimately show ?thesis using r k 2(1) mv by simp
  next
    case 3
    have v: "v \<noteq> 0" "v \<noteq> 1" using 3(1) by auto
    have nv: "v \<noteq> 0xFFFFFFFF" using layout_n(4) [OF lay 3(2)] by auto
    have "fat_area fs (winsect fs')" using mv [OF v(2) nv] v(1) cc 3(2) by auto
    moreover have "file_chain img fs' (if sc = 0 then v else sc) (cs @ [v])"
      by (rule file_chain_grown [OF lay ch g c 3(1,2,3,5,6,7)])
    ultimately show ?thesis using r k 3 by simp
  qed
qed

text \<open>What entering a cluster leaves: the same file, in a chain that may have grown.\<close>

definition entered :: "'d fatfs \<Rightarrow> fil \<Rightarrow> u32 list \<Rightarrow> 'd fatfs \<Rightarrow> fil \<Rightarrow> u32 list \<Rightarrow> bool" where
  "entered fs fp cs fs' fp' cs' \<longleftrightarrow> grows img fs cs cs' \<and> file_chain img fs' (fp_sclust fp') cs' \<and> fil_base img fs' fp' \<and>
     fp' = fp\<lparr>fp_clust := fp_clust fp', fp_sclust := fp_sclust fp'\<rparr> \<and>
     (\<forall>s \<in> fsects img fs (fp_sclust fp). fdata img fs' fp' s = fdata img fs fp s)"

lemma enteredI:
  assumes "vol_layout fs" and "file_chain img fs (fp_sclust fp) cs" and "fil_base img fs fp" and "outside img fs fs'"
    and "file_chain img fs' sc' (cs @ new)" and "winsect fs' \<notin> fsects img fs' sc'" and "\<forall>x \<in> set new. fat_entry img fs x = 0"
  shows "entered fs fp cs fs' (fp\<lparr>fp_clust := c, fp_sclust := sc'\<rparr>) (cs @ new)"
  using base_grown(1) [OF assms(1-6), of c] base_grown(2) [OF assms(1-6), of _ c] assms(5,7) by (auto simp: entered_def grows_def)

lemma write_cluster_law:
  assumes inv: "inv fs" and lay: "vol_layout fs" and ch: "file_chain img fs (fp_sclust fp) cs" and base: "fil_base img fs fp"
    and at: "wr_at fs cs fp p" and p: "unat (fp_fptr fp) = p" and al: "p mod 512 = 0" "p div 512 mod unat (csize fs) = 0"
  shows "returns (write_cluster ops fp fs) (\<lambda>q fs'. inv fs' \<and> kept img fs cs fs' \<and>
    (case q of Inl e \<Rightarrow> e = FR_INT_ERR \<or> e = FR_DISK_ERR \<or> e = FR_OK \<and> full img fs' \<and> entered fs fp cs fs' fp cs
     | Inr fp' \<Rightarrow> \<exists>cs'. p div 512 div unat (csize fs) < length cs' \<and> fp_clust fp' = cs' ! (p div 512 div unat (csize fs)) \<and>
         entered fs fp cs fs' fp' cs'))"
proof -
  let ?K = "p div 512 div unat (csize fs)"
  have C: "0 < unat (csize fs)" using lay by (simp add: vol_layout_def unat_gt_0)
  have w: "winsect fs \<notin> fsects img fs (fp_sclust fp)" using base by (simp add: fil_base_def)
  have f0: "fp_fptr fp = 0 \<longleftrightarrow> p = 0" using p by (metis unat_eq_0)
  have same: "fp\<lparr>fp_clust := fp_clust fp, fp_sclust := fp_sclust fp\<rparr> = fp" by simp
  have rng: "2 \<le> x \<and> x < n_fatent fs \<and> x \<noteq> 0 \<and> x \<noteq> 1 \<and> x \<noteq> 0xFFFFFFFF" if "x \<in> set cs" for x
    using file_chain_range [OF ch that] layout_n(4) [OF lay, of x] by auto
  have sc: "cs = [] \<longleftrightarrow> fp_sclust fp = 0" using ch by (auto simp: file_chain_def split: if_splits)
  consider (start) "p = 0" "cs \<noteq> []" | (link) "p \<noteq> 0" "?K < length cs" | (grow) "cs = [] \<and> p = 0 \<or> cs \<noteq> [] \<and> p \<noteq> 0 \<and> ?K = length cs"
  proof -
    have "?K \<le> length cs \<and> cs \<noteq> []" if "p \<noteq> 0"
      using at that cluster_before [OF C al that] by (auto simp: wr_at_def)
    then show ?thesis using that by (cases "p = 0"; cases "?K = length cs") auto
  qed
  then show ?thesis
  proof cases
    case start
    then obtain as where cs: "cs = fp_sclust fp # as" using ch by (cases cs) (auto simp: file_chain_def split: if_splits)
    then have v: "fp_sclust fp \<noteq> 0" "fp_sclust fp \<noteq> 1" "fp_sclust fp \<noteq> 0xFFFFFFFF" using rng by auto
    have "entered fs fp cs fs (fp\<lparr>fp_clust := fp_sclust fp, fp_sclust := fp_sclust fp\<rparr>) (cs @ [])"
      by (rule enteredI [OF lay ch base]) (use ch w in simp_all)
    then show ?thesis using inv start v f0 cs by (auto simp: write_cluster_def)
  next
    case link
    have prev: "fp_clust fp = cs ! ((p - 1) div 512 div unat (csize fs))" using at link(1) by (simp add: wr_at_def)
    note k = cluster_before [OF C al link(1)]
    then have kl: "Suc ((p - 1) div 512 div unat (csize fs)) < length cs" using link(2) by simp
    then have "fat_entry img fs (fp_clust fp) = cs ! ?K"
      using ch chain_link [of "fat_entry img fs" "n_fatent fs" "fp_sclust fp" cs] unfolding k prev
      by (auto simp: file_chain_def split: if_splits)
    moreover have "fp_clust fp \<in> set cs" "cs ! ?K \<in> set cs" using prev kl link(2) by simp_all
    ultimately obtain v fs1 where r: "create_chain ops (fp_clust fp) fs = Some (v, fs1)" "inv fs1" "unchanged img fs fs1" "win_moved fs fs1"
        "v = cs ! ?K \<or> v = 0xFFFFFFFF"
      using create_chain_next [OF inv lay, of "fp_clust fp" "cs ! ?K"] rng by (auto simp: returns_iff)
    have out: "outside img fs fs1" by (rule unchanged_outside [OF r(3)])
    have g: "geom fs1 = geom fs" using out by (simp add: outside_def)
    have lay1: "vol_layout fs1" using geom_sel(16) [OF g] lay by simp
    have fe: "fat_entry img fs1 x = fat_entry img fs x" if "x < n_fatent fs" for x by (rule fat_entry_unchanged [OF r(3) lay that])
    have ch1: "file_chain img fs1 (fp_sclust fp) (cs @ [])"
      using ch fe rng by (auto simp: file_chain_def geom_sel [OF g] intro: fat_chain_cong split: if_splits)
    have "fsects img fs1 (fp_sclust fp) = fsects img fs (fp_sclust fp)"
      using file_sects [OF lay ch] file_sects [OF lay1 ch1] by (simp add: geom_sel [OF g] csect_geom [OF g])
    then have w1: "winsect fs1 \<notin> fsects img fs1 (fp_sclust fp)"
      using r(4) w win_off_file [OF lay1 g, of img "fp_sclust fp"] by (auto simp: win_moved_def)
    have k: "kept img fs cs fs1" using out fe by (simp add: kept_def outside_def)
    have e: "entered fs fp cs fs1 (fp\<lparr>fp_clust := v, fp_sclust := fp_sclust fp\<rparr>) (cs @ [])"
      by (rule enteredI [OF lay ch base out ch1 w1]) simp
    have "cs \<noteq> []" using link by auto
    then have wc: "write_cluster ops fp fs = (if v = 0xFFFFFFFF then Some (Inl FR_DISK_ERR, fs1)
        else Some (Inr (fp\<lparr>fp_clust := v, fp_sclust := fp_sclust fp\<rparr>), fs1))"
      using r(1,5) link f0 sc rng [OF \<open>cs ! ?K \<in> set cs\<close>] by (auto simp: write_cluster_def)
    show ?thesis
    proof (cases "v = 0xFFFFFFFF")
      case True
      then show ?thesis using wc r(2) k by simp
    next
      case False
      then have "v = cs ! ?K" using r(5) by simp
      then show ?thesis using wc r(2) k e link(2) False by auto
    qed
  next
    case grow
    define c where "c = (if cs = [] then 0 else last cs)"
    have "fp_clust fp = last cs" if "p \<noteq> 0"
    proof -
      have "(p - 1) div 512 div unat (csize fs) = length cs - 1" "cs \<noteq> []" using grow that cluster_before [OF C al that] by auto
      then show ?thesis using at that by (simp add: wr_at_def last_conv_nth)
    qed
    then have call: "(if fp_fptr fp = 0 then if fp_sclust fp = 0 then create_chain ops 0 fs else Some (fp_sclust fp, fs)
        else create_chain ops (fp_clust fp) fs) = create_chain ops c fs"
      using grow f0 sc by (auto simp: c_def)
    obtain v fs1 where r: "create_chain ops c fs = Some (v, fs1)" "inv fs1" "kept img fs cs fs1" "outside img fs fs1"
        "v = 1 \<or> v = 0xFFFFFFFF \<or> v = 0 \<and> full img fs1 \<and> win_moved fs fs1 \<and> file_chain img fs1 (fp_sclust fp) cs \<or>
         2 \<le> v \<and> v < n_fatent fs \<and> fat_entry img fs v = 0 \<and>
           file_chain img fs1 (if fp_sclust fp = 0 then v else fp_sclust fp) (cs @ [v]) \<and> fat_area fs (winsect fs1)"
      using alloc_step [OF inv lay ch c_def] by (auto simp: returns_iff)
    have g: "geom fs1 = geom fs" using r(4) by (simp add: outside_def)
    have lay1: "vol_layout fs1" using geom_sel(16) [OF g] lay by simp
    have K: "?K = length cs" using grow by auto
    note wc = write_cluster_def [of ops fp fs, unfolded call r(1)]
    from r(5) consider "v = 1 \<or> v = 0xFFFFFFFF" | "v = 0" "full img fs1" "win_moved fs fs1" "file_chain img fs1 (fp_sclust fp) (cs @ [])"
      | "2 \<le> v" "v < n_fatent fs" "fat_entry img fs v = 0"
         "file_chain img fs1 (if fp_sclust fp = 0 then v else fp_sclust fp) (cs @ [v])" "fat_area fs (winsect fs1)"
      by auto
    then show ?thesis
    proof cases
      case 1
      then show ?thesis using wc r(2,3) by auto
    next
      case 2
      have "fsects img fs1 (fp_sclust fp) = fsects img fs (fp_sclust fp)"
        using file_sects [OF lay ch] file_sects [OF lay1 2(4)] by (simp add: geom_sel [OF g] csect_geom [OF g])
      then have w1: "winsect fs1 \<notin> fsects img fs1 (fp_sclust fp)"
        using 2(3) w win_off_file [OF lay1 g, of img "fp_sclust fp"] by (auto simp: win_moved_def)
      have "entered fs fp cs fs1 (fp\<lparr>fp_clust := fp_clust fp, fp_sclust := fp_sclust fp\<rparr>) (cs @ [])"
        by (rule enteredI [OF lay ch base r(4) 2(4) w1]) simp
      then show ?thesis using wc r(2,3) 2(1,2) same by simp
    next
      case 3
      let ?sc = "if fp_sclust fp = 0 then v else fp_sclust fp"
      have nv: "v \<noteq> 0" "v \<noteq> 1" "v \<noteq> 0xFFFFFFFF" using 3(1) layout_n(4) [OF lay 3(2)] by auto
      have "entered fs fp cs fs1 (fp\<lparr>fp_clust := v, fp_sclust := ?sc\<rparr>) (cs @ [v])"
        by (rule enteredI [OF lay ch base r(4) 3(4) win_off_file [OF lay1 g]]) (use 3 in simp_all)
      then show ?thesis using wc r(2,3) nv K by (auto intro!: exI [of _ "cs @ [v]"])
    qed
  qed
qed

end

end
