(* ===== verification/Fat_Write.thy ===== *)
theory Fat_Write
  imports Fat_Grow
begin

text \<open>
  Writing a file.  \<open>f_write\<close> is shown to lay the caller's bytes over the contents of the file
  from the file pointer on, allocating clusters at the end of its chain as it goes, and to leave
  every other chain and every sector outside the file's own and the free clusters alone.
\<close>

section \<open>Storing the bytes\<close>

lemma quiet_entry:
  assumes "quiet img (fsects img fs sc) fs fs'" and "vol_layout fs" and "c < n_fatent fs"
  shows "fat_entry img fs' c = fat_entry img fs c"
proof -
  have sv: "same_vol fs fs'" using assms(1) by (simp add: quiet_def)
  have "fat_bytes img fs' k = fat_bytes img fs k" if k: "k < 512 * unat (fsize fs)" for k
  proof -
    have "fatbase fs + of_nat (k div 512) \<notin> fsects img fs sc" using fsects_valid [OF assms(2)] table_sector_area [OF assms(2) k] by blast
    then show ?thesis
      using assms(1) fat_sector_tracked [OF assms(2) k] by (simp add: fat_bytes_def quiet_def same_vol_sel [OF sv])
  qed
  then show ?thesis by (intro fat_entry_bytes [OF assms(2,3)]) (simp_all add: same_vol_sel [OF sv])
qed

lemma quiet_file:
  assumes q: "quiet img (fsects img fs sc) fs fs'" and lay: "vol_layout fs" and ch: "file_chain img fs sc cs"
  shows "file_chain img fs' sc cs" and "kept img fs cs fs'" and "csect fs' = csect fs" and "fsects img fs' sc = fsects img fs sc"
proof -
  have sv: "same_vol fs fs'" using q by (simp add: quiet_def)
  have g: "geom fs' = geom fs" by (rule geom_same_vol [OF sv])
  note e = quiet_entry [OF q lay]
  show "file_chain img fs' sc cs"
    using ch e fat_chain_range by (auto simp: file_chain_def same_vol_sel [OF sv] intro: fat_chain_cong split: if_splits)
  show "csect fs' = csect fs" by (rule csect_geom [OF g])
  show "fsects img fs' sc = fsects img fs sc" using quiet_fsect(3) [OF q lay] by simp
  have "own img fs cs s" if "s \<in> fsects img fs sc" for s
  proof -
    obtain k where k: "k < length cs * unat (csize fs)" "s = csect fs cs k" using \<open>s \<in> _\<close> by (auto simp: file_sects [OF lay ch])
    have C: "0 < unat (csize fs)" using lay by (simp add: vol_layout_def unat_gt_0)
    then have m: "cs ! (k div unat (csize fs)) \<in> set cs" using k(1) by (simp add: div_less_iff_less_mult)
    show ?thesis
      unfolding own_def
      by (rule exI [of _ "cs ! (k div unat (csize fs))"], rule exI [of _ "k mod unat (csize fs)"])
        (use m file_chain_range [OF ch m] C k(2) in \<open>simp add: csect_def\<close>)
  qed
  then show "kept img fs cs fs'"
    using q g e by (auto simp: kept_def quiet_def)
qed

text \<open>The flags but for the dirty bit, and everything else that writing does not change.\<close>

definition same_open :: "fil \<Rightarrow> fil \<Rightarrow> bool" where
  "same_open fp fp' \<longleftrightarrow> fp_flag fp' AND NOT FA__DIRTY = fp_flag fp AND NOT FA__DIRTY \<and>
     fp' = fp\<lparr>fp_flag := fp_flag fp', fp_sclust := fp_sclust fp', fp_clust := fp_clust fp', fp_dsect := fp_dsect fp', fp_buf := fp_buf fp'\<rparr>"

lemma same_open_refl [simp]: "same_open fp fp"
  by (simp add: same_open_def)

lemma same_open_trans: "same_open a b \<Longrightarrow> same_open b c \<Longrightarrow> same_open a c"
  unfolding same_open_def by (cases a; cases b; cases c) simp

lemma same_open_upd [simp]:
  "same_open fp (fp\<lparr>fp_clust := a\<rparr>)" "same_open fp (fp\<lparr>fp_sclust := a\<rparr>)" "same_open fp (fp\<lparr>fp_dsect := a\<rparr>)" "same_open fp (fp\<lparr>fp_buf := b\<rparr>)"
  "same_open fp (fp\<lparr>fp_buf := b, fp_flag := fp_flag fp AND NOT FA__DIRTY\<rparr>)" "same_open fp (fp\<lparr>fp_flag := fp_flag fp AND NOT FA__DIRTY\<rparr>)"
  "same_open fp (fp\<lparr>fp_buf := b, fp_flag := fp_flag fp OR FA__DIRTY\<rparr>)" "same_open fp (fp\<lparr>fp_clust := a, fp_sclust := c\<rparr>)"
proof -
  have "(x OR FA__DIRTY) AND NOT FA__DIRTY = x AND NOT FA__DIRTY" for x :: u8
    by (rule bit_word_eqI) (auto simp: bit_simps)
  then show "same_open fp (fp\<lparr>fp_buf := b, fp_flag := fp_flag fp OR FA__DIRTY\<rparr>)" by (simp add: same_open_def)
qed (simp_all add: same_open_def and.assoc)

lemma same_open_sel:
  assumes "same_open fp fp'"
  shows "fp_fs fp' = fp_fs fp" "fp_id fp' = fp_id fp" "fp_err fp' = fp_err fp" "fp_fptr fp' = fp_fptr fp" "fp_fsize fp' = fp_fsize fp"
    "fp_dir_sect fp' = fp_dir_sect fp" "fp_dir_ptr fp' = fp_dir_ptr fp"
  using assms unfolding same_open_def by (cases fp; cases fp'; simp)+

lemma dirty_set: "(x OR FA__DIRTY) AND FA__DIRTY \<noteq> 0"
proof -
  have "(x OR FA__DIRTY) AND FA__DIRTY = FA__DIRTY" by (rule bit_word_eqI) (auto simp: bit_simps)
  then show ?thesis by (simp add: FA__DIRTY_def)
qed

lemma write_partial_law:
  assumes "length (fp_buf fp) = 512" and "off + unat btw \<le> length buff" and "btw \<noteq> 0"
  shows "\<exists>n. n \<noteq> 0 \<and> unat n = min (512 - unat (fp_fptr fp) mod 512) (unat btw) \<and>
    write_partial btw fp off buff = Some (n, fp\<lparr>fp_buf := overlay (unat (fp_fptr fp) mod 512) (take (unat n) (drop off buff)) (fp_buf fp),
      fp_flag := fp_flag fp OR FA__DIRTY\<rparr>)"
proof -
  let ?m = "unat (fp_fptr fp) mod 512"
  have m: "unat (fp_fptr fp mod 512) = ?m" by (simp add: u32_mod)
  have lt: "?m < 512" by simp
  have "unat (512 - fp_fptr fp mod 512) = 512 - ?m"
    using m lt by (simp add: unat_sub word_le_nat_alt)
  then obtain n where n: "n = (if 512 - fp_fptr fp mod 512 > btw then btw else 512 - fp_fptr fp mod 512)"
      "unat n = min (512 - ?m) (unat btw)"
    by (auto simp: word_less_nat_alt min_def)
  have "0 < unat n" using n(2) lt assms(3) by (simp add: unat_gt_0)
  then have n0: "n \<noteq> 0" by auto
  have "?m + unat n \<le> 512" "off + unat n \<le> length buff" using n(2) assms(2) lt by auto
  then have "write_partial btw fp off buff = Some (n, fp\<lparr>fp_buf := overlay ?m (take (unat n) (drop off buff)) (fp_buf fp),
      fp_flag := fp_flag fp OR FA__DIRTY\<rparr>)"
    using assms(1) by (simp add: write_partial_def Let_def m get_range_in put_range_in flip: n(1))
  then show ?thesis using n(2) n0 by blast
qed

lemma fbyte_chain:
  assumes "vol_layout fs" and "file_chain img fs (fp_sclust fp) cs" and "i div 512 < length cs * unat (csize fs)"
  shows "fbyte img fs fp i = fdata img fs fp (csect fs cs (i div 512)) ! (i mod 512)"
  using assms(3) by (simp add: fbyte_def file_sect [OF assms(1,2)])

text \<open>The place of the pointer after \<open>n\<close> bytes that end inside one sector.\<close>

lemma after_part:
  assumes "0 < (n :: nat)" and "n \<le> 512 - p mod 512"
  shows "(p + n - 1) div 512 = p div 512" and "(p + n) mod 512 \<noteq> 0 \<longrightarrow> (p + n) div 512 = p div 512"
proof -
  have m: "p mod 512 < 512" "p = 512 * (p div 512) + p mod 512" by simp_all
  then have b: "p + n \<le> 512 * (p div 512) + 512" using assms(2) by linarith
  show "(p + n - 1) div 512 = p div 512"
  proof (rule div_nat_eqI)
    show "512 * (p div 512) \<le> p + n - 1" using assms(1) m(2) by linarith
    show "p + n - 1 < 512 * Suc (p div 512)" using assms(1) b by simp
  qed
  show "(p + n) mod 512 \<noteq> 0 \<longrightarrow> (p + n) div 512 = p div 512"
  proof
    assume ne: "(p + n) mod 512 \<noteq> 0"
    have "p mod 512 + n \<noteq> 512"
    proof
      assume "p mod 512 + n = 512"
      then have "p + n = 512 * (p div 512) + 512" using m(2) by linarith
      then have "(p + n) mod 512 = 0" by simp
      with ne show False by simp
    qed
    then have "p mod 512 + n < 512" using assms(2) m(1) by linarith
    then show "(p + n) div 512 = p div 512" using mod_succ by simp
  qed
qed

text \<open>
  What a turn promises: \<open>n\<close> bytes from \<open>off\<close> of the buffer are in the file at its pointer, the bytes
  before them and those behind them up to its size are as they were.
\<close>

definition wrote :: "('d \<Rightarrow> u32 \<Rightarrow> bytes) \<Rightarrow> 'd fatfs \<Rightarrow> fil \<Rightarrow> u32 list \<Rightarrow> nat \<Rightarrow> bytes \<Rightarrow> nat \<Rightarrow> 'd fatfs \<Rightarrow> fil \<Rightarrow> u32 list \<Rightarrow> bool" where
  "wrote img fs fp cs off buff n fs' fp' cs' \<longleftrightarrow>
     grows img fs cs cs' \<and> file_chain img fs' (fp_sclust fp') cs' \<and> fil_base img fs' fp' \<and>
     wr_at fs' cs' fp' (unat (fp_fptr fp) + n) \<and> same_open fp fp' \<and>
     (\<forall>i < n. fbyte img fs' fp' (unat (fp_fptr fp) + i) = buff ! (off + i)) \<and>
     (\<forall>i. i < unat (fp_fptr fp) \<or> unat (fp_fptr fp) + n \<le> i \<and> i < unat (fp_fsize fp) \<longrightarrow> fbyte img fs' fp' i = fbyte img fs fp i)"

text \<open>
  Bytes put into the cache, which stands for sector \<open>p div 512\<close> of the file; \<open>old\<close> is what the file
  held: the drive has it for the other sectors, the cache for this one.
\<close>

lemma put_part:
  fixes old :: "nat \<Rightarrow> u8"
  assumes lay: "vol_layout fs" and ch: "file_chain img fs (fp_sclust fp) cs" and p: "unat (fp_fptr fp) = p"
    and w: "winsect fs \<notin> fsects img fs (fp_sclust fp)" and size: "unat (fp_fsize fp) \<le> 512 * (length cs * unat (csize fs))"
    and len: "length (fp_buf fp) = 512" and k: "p div 512 < length cs * unat (csize fs)" and ds: "fp_dsect fp = csect fs cs (p div 512)"
    and cl: "fp_clust fp = cs ! (p div 512 div unat (csize fs))"
    and other: "\<And>i. i < p \<or> i < unat (fp_fsize fp) \<Longrightarrow> i div 512 \<noteq> p div 512 \<Longrightarrow> img (dsk fs) (csect fs cs (i div 512)) ! (i mod 512) = old i"
    and here: "\<And>i. i < p \<or> i < unat (fp_fsize fp) \<Longrightarrow> i div 512 = p div 512 \<Longrightarrow> fp_buf fp ! (i mod 512) = old i"
    and n: "0 < n" "n \<le> 512 - p mod 512" and room: "off + n \<le> length buff"
  defines "fp' \<equiv> fp\<lparr>fp_buf := overlay (p mod 512) (take n (drop off buff)) (fp_buf fp), fp_flag := fp_flag fp OR FA__DIRTY\<rparr>"
  shows "fil_base img fs fp'" and "wr_at fs cs fp' (p + n)" and "i < n \<Longrightarrow> fbyte img fs fp' (p + i) = buff ! (off + i)"
    and "i < p \<or> p + n \<le> i \<and> i < unat (fp_fsize fp) \<Longrightarrow> fbyte img fs fp' i = old i"
proof -
  have C: "0 < unat (csize fs)" using lay by (simp add: vol_layout_def unat_gt_0)
  let ?N = "length cs * unat (csize fs)" and ?k = "p div 512"
  have d: "dirty fp'" unfolding fp'_def using dirty_set by simp
  have ch': "file_chain img fs (fp_sclust fp') cs" using ch by (simp add: fp'_def)
  have dat: "fdata img fs fp' (csect fs cs j) = (if j = ?k then fp_buf fp' else img (dsk fs) (csect fs cs j))" if "j < ?N" for j
    using d csect_inj [OF lay ch that k] by (auto simp: fdata_def fp'_def ds)
  have dk: "fp_dsect fp' = csect fs cs ?k" by (simp add: fp'_def ds)
  have in_file: "csect fs cs ?k \<in> fsects img fs (fp_sclust fp)" by (rule csect_in [OF lay ch k])
  have m: "p mod 512 < 512" by simp
  have ln: "length (take n (drop off buff)) = n" using room by simp
  have lb: "length (fp_buf fp') = 512" using len n m ln by (simp add: fp'_def)
  show "fil_base img fs fp'"
    unfolding fil_base_chain [OF lay ch'] using lb size w in_file dat [OF k] dk d by (auto simp: fp'_def)
  have "(p + n - 1) div 512 = ?k" by (rule after_part(1) [OF n])
  moreover have "?k div unat (csize fs) < length cs" using k C by (simp add: div_less_iff_less_mult)
  ultimately show "wr_at fs cs fp' (p + n)"
    using after_part(2) [OF n] cl dk by (auto simp: wr_at_def fp'_def)
  have ov: "fp_buf fp' ! j = (if p mod 512 \<le> j \<and> j < p mod 512 + n then buff ! (off + (j - p mod 512)) else fp_buf fp ! j)" if "j < 512" for j
    using that n m len ln room by (auto simp: fp'_def nth_overlay)
  have byte: "fbyte img fs fp' j = (if j div 512 = ?k then fp_buf fp' ! (j mod 512) else img (dsk fs) (csect fs cs (j div 512)) ! (j mod 512))"
    if "j div 512 < ?N" for j
    using fbyte_chain [OF lay ch' that] dat [OF that] by simp
  show "fbyte img fs fp' (p + i) = buff ! (off + i)" if "i < n"
  proof -
    have "p mod 512 + i < 512" using that n(2) m by simp
    from mod_succ [OF this] show ?thesis using byte [of "p + i"] k ov [of "p mod 512 + i"] that n(2) m by simp
  qed
  show "fbyte img fs fp' i = old i" if i: "i < p \<or> p + n \<le> i \<and> i < unat (fp_fsize fp)"
  proof -
    have o: "i < p \<or> i < unat (fp_fsize fp)" using i by auto
    have iN: "i div 512 < ?N"
    proof (cases "i < p")
      case True
      then have "i div 512 \<le> ?k" by (simp add: div_le_mono)
      then show ?thesis using k by simp
    next
      case False
      then have "i < 512 * ?N" using o size by simp
      then show ?thesis by (simp add: div_less_iff_less_mult mult.commute)
    qed
    show ?thesis
    proof (cases "i div 512 = ?k")
      case False
      then show ?thesis using byte [OF iN] other [OF o False] by simp
    next
      case True
      have e: "i = 512 * ?k + i mod 512" "p = 512 * ?k + p mod 512" using True by (metis mult_div_mod_eq)+
      have "\<not> (p mod 512 \<le> i mod 512 \<and> i mod 512 < p mod 512 + n)" using i e by linarith
      then have "fp_buf fp' ! (i mod 512) = fp_buf fp ! (i mod 512)" using ov [of "i mod 512"] by (simp only: if_False)
      then show ?thesis using byte [OF iN] here [OF o True] True by simp
    qed
  qed
qed

text \<open>The bytes of a file whose cache is clean.\<close>

lemma clean_byte:
  "vol_layout fs \<Longrightarrow> file_chain img fs (fp_sclust fp) cs \<Longrightarrow> \<not> dirty fp \<Longrightarrow> i div 512 < length cs * unat (csize fs) \<Longrightarrow>
    fbyte img fs fp i = img (dsk fs) (csect fs cs (i div 512)) ! (i mod 512)"
  by (simp add: fbyte_chain fdata_def)

context block_device
begin

lemma write_direct_law:
  assumes inv: "inv fs" and lay: "vol_layout fs" and ch: "file_chain img fs (fp_sclust fp) cs" and base: "fil_base img fs fp" and clean: "\<not> dirty fp"
    and n: "n \<noteq> 0" and k: "k + unat n \<le> length cs * unat (csize fs)" and run: "\<And>i. i < unat n \<Longrightarrow> csect fs cs (k + i) = s + of_nat i"
    and room: "off + 512 * unat n \<le> length buff"
  shows "returns (write_direct ops s n fp off buff fs) (\<lambda>(q, fp') fs'. inv fs' \<and> quiet img (fsects img fs (fp_sclust fp)) fs fs' \<and>
    (q \<longrightarrow> fil_base img fs' fp' \<and> \<not> dirty fp' \<and> same_open fp fp' \<and> fp_clust fp' = fp_clust fp \<and> fp_sclust fp' = fp_sclust fp \<and>
       (\<forall>j < length cs * unat (csize fs). img (dsk fs') (csect fs cs j) =
          (if k \<le> j \<and> j < k + unat n then take 512 (drop (off + 512 * (j - k)) buff) else img (dsk fs) (csect fs cs j)))))"
proof -
  let ?S = "fsects img fs (fp_sclust fp)" and ?N = "length cs * unat (csize fs)" and ?m = "take (512 * unat n) (drop off buff)"
  note b = base [unfolded fil_base_chain [OF lay ch]]
  have w: "winsect fs \<notin> ?S" using b by simp
  have lm: "length ?m = 512 * unat n" using room by simp
  have n0: "0 < unat n" using n by (simp add: unat_gt_0)
  have d: "drv fs = dno" and okd: "ok (dsk fs)" using inv by (simp_all add: win_inv_def)
  have in_run: "t - s < n \<longleftrightarrow> (\<exists>i < unat n. t = csect fs cs (k + i))" for t
  proof
    assume "t - s < n"
    then have "unat (t - s) < unat n" by (simp add: word_less_nat_alt)
    moreover have "t = s + of_nat (unat (t - s))" by simp
    ultimately show "\<exists>i < unat n. t = csect fs cs (k + i)" using run by metis
  next
    assume "\<exists>i < unat n. t = csect fs cs (k + i)"
    then obtain i where i: "i < unat n" "t = s + of_nat i" using run by auto
    then have "i < 2 ^ 32" using u32_less [of n] by linarith
    then show "t - s < n" using i by (simp add: word_less_nat_alt unat_of_nat_small)
  qed
  have sub: "t \<in> ?S" if "t - s < n" for t
    using that k csect_in [OF lay ch] unfolding in_run by auto
  have off_of: "unat (csect fs cs (k + i) - s) = i" if "i < unat n" for i
  proof -
    have "i < 2 ^ 32" using that u32_less [of n] by linarith
    then show ?thesis using run [OF that] by (simp add: unat_of_nat_small)
  qed
  obtain r d' where wr: "drv_write ops dno ?m s n (dsk fs) = Some (r, d')" "inv (fs\<lparr>dsk := d'\<rparr>)" "quiet img ?S fs (fs\<lparr>dsk := d'\<rparr>)"
      "r = RES_OK \<longrightarrow> img d' = store_sectors s n ?m (img (dsk fs))" "\<forall>t. \<not> t - s < n \<longrightarrow> img d' t = img (dsk fs) t"
    using drive_write_quiet [OF inv n lm w sub, of s] by (auto simp: returns_iff)
  have piece: "take 512 (drop (512 * i) ?m) = take 512 (drop (off + 512 * i) buff)" if "i < unat n" for i
  proof -
    have "512 * i + 512 \<le> 512 * unat n" using that by simp
    then show ?thesis by (simp add: drop_take add.commute min_def)
  qed
  have store: "img d' (csect fs cs j) = (if k \<le> j \<and> j < k + unat n then take 512 (drop (off + 512 * (j - k)) buff) else img (dsk fs) (csect fs cs j))"
    if j: "j < ?N" and ok: "r = RES_OK" for j
  proof (cases "k \<le> j \<and> j < k + unat n")
    case True
    then have i: "j - k < unat n" "j = k + (j - k)" by auto
    then have "csect fs cs j - s < n" using in_run by metis
    then show ?thesis using wr(4) ok True piece [OF i(1)] off_of [OF i(1)] i(2) by (simp add: store_sectors_def)
  next
    case False
    have "\<not> csect fs cs j - s < n"
    proof
      assume "csect fs cs j - s < n"
      then obtain i where i: "i < unat n" "csect fs cs j = csect fs cs (k + i)" unfolding in_run by blast
      have "j = k + i" by (rule csect_inj [OF lay ch j _ i(2)]) (use i(1) k in simp)
      with False i(1) show False by simp
    qed
    then show ?thesis using wr(5) False by auto
  qed
  have q: "vol_layout (fs\<lparr>dsk := d'\<rparr>)" using quiet_layout(1) [OF wr(3)] lay by simp
  note qf = quiet_file [OF wr(3) lay ch]
  show ?thesis
  proof (cases "r = RES_OK")
    case False
    then show ?thesis using wr d room by (simp add: write_direct_def get_range_in Let_def)
  next
    case True
    show ?thesis
    proof (cases "fp_dsect fp - s < n")
      case False
      have "img d' (fp_dsect fp) = img (dsk fs) (fp_dsect fp)" using wr(5) False by simp
      then have "fil_base img (fs\<lparr>dsk := d'\<rparr>) fp"
        unfolding fil_base_chain [OF q qf(1)] using b clean qf(4) by (simp add: fdata_def)
      then show ?thesis using True False wr d room clean store by (simp add: write_direct_def get_range_in Let_def)
    next
      case hit: True
      then obtain i where i: "i < unat n" "fp_dsect fp = csect fs cs (k + i)" unfolding in_run by blast
      then have u: "unat (fp_dsect fp - s) = i" using off_of by simp
      have room2: "off + i * 512 + 512 \<le> length buff" using i(1) room by simp
      let ?b = "take 512 (drop (off + i * 512) buff)"
      have lb: "length ?b = 512" using room2 by simp
      have ob: "overlay 0 ?b (fp_buf fp) = ?b" using b lb by (simp add: overlay_def)
      let ?fp = "fp\<lparr>fp_buf := ?b, fp_flag := fp_flag fp AND NOT FA__DIRTY\<rparr>"
      have cl: "\<not> dirty ?fp" by (simp add: FA__DIRTY_def and.assoc)
      have ki: "k + i < ?N" using i(1) k by simp
      have "img d' (fp_dsect fp) = ?b" using store [OF ki True] i by (simp add: mult.commute)
      moreover have "file_chain img (fs\<lparr>dsk := d'\<rparr>) (fp_sclust ?fp) cs" using qf(1) by simp
      moreover have "fp_dsect fp \<in> ?S" using csect_in [OF lay ch ki] i(2) by simp
      ultimately have "fil_base img (fs\<lparr>dsk := d'\<rparr>) ?fp"
        using fil_base_chain [OF q, where fp = ?fp and cs = cs] b cl qf(4) lb by (simp add: fdata_def)
      then show ?thesis
        using True hit wr d room room2 cl store b lb ob u
        by (simp add: write_direct_def get_range_in put_range_in Let_def)
    qed
  qed
qed

end

section \<open>One turn of the loop\<close>

lemma covered:
  assumes "vol_layout fs" and "wr_at fs cs fp p" and "unat (fp_fsize fp) \<le> 512 * (length cs * unat (csize fs))" and "i < p \<or> i < unat (fp_fsize fp)"
  shows "i div 512 < length cs * unat (csize fs)"
proof (cases "i < p")
  case True
  have C: "0 < unat (csize fs)" using assms(1) by (simp add: vol_layout_def unat_gt_0)
  have "i div 512 \<le> (p - 1) div 512" using True by (intro div_le_mono) simp
  moreover have "(p - 1) div 512 < length cs * unat (csize fs)"
    using assms(2) True C by (simp add: wr_at_def div_less_iff_less_mult)
  ultimately show ?thesis by simp
next
  case False
  then have "i < 512 * (length cs * unat (csize fs))" using assms(3,4) by simp
  then show ?thesis by (simp add: div_less_iff_less_mult mult.commute)
qed

text \<open>The cluster of the pointer is current, the cache is clean, the file is as it was.\<close>

definition ready :: "('d \<Rightarrow> u32 \<Rightarrow> bytes) \<Rightarrow> 'd fatfs \<Rightarrow> fil \<Rightarrow> u32 list \<Rightarrow> 'd fatfs \<Rightarrow> fil \<Rightarrow> u32 list \<Rightarrow> bool" where
  "ready img fs fp cs fs' fp' cs' \<longleftrightarrow> (let p = unat (fp_fptr fp); K = p div 512 div unat (csize fs') in
     grows img fs cs cs' \<and> file_chain img fs' (fp_sclust fp') cs' \<and> fil_base img fs' fp' \<and> \<not> dirty fp' \<and> same_open fp fp' \<and>
     K < length cs' \<and> fp_clust fp' = cs' ! K \<and>
     (\<forall>i. i < p \<or> i < unat (fp_fsize fp) \<longrightarrow> fbyte img fs' fp' i = fbyte img fs fp i))"

lemma readyD:
  assumes "ready img fs fp cs fs2 fp2 cs1" and "unat (fp_fptr fp) = p"
  shows "grows img fs cs cs1" "file_chain img fs2 (fp_sclust fp2) cs1" "fil_base img fs2 fp2" "\<not> dirty fp2" "same_open fp fp2"
    "p div 512 div unat (csize fs2) < length cs1" "fp_clust fp2 = cs1 ! (p div 512 div unat (csize fs2))"
    "\<And>i. i < p \<or> i < unat (fp_fsize fp) \<Longrightarrow> fbyte img fs2 fp2 i = fbyte img fs fp i"
  using assms by (auto simp: ready_def Let_def)

context block_device
begin

lemma write_enter:
  assumes inv: "inv fs" and lay: "vol_layout fs" and dl: "dir_layout fs" and ch: "file_chain img fs (fp_sclust fp) cs" and base: "fil_base img fs fp"
    and at: "wr_at fs cs fp p" and p: "unat (fp_fptr fp) = p" and al: "p mod 512 = 0"
  shows "returns (if sect_in_clust (fp_fptr fp) fs = 0 then write_cluster ops fp fs else Some (Inr fp, fs))
    (\<lambda>q fs'. inv fs' \<and> kept img fs cs fs' \<and>
    (case q of Inl e \<Rightarrow> e = FR_INT_ERR \<or> e = FR_DISK_ERR \<or> e = FR_OK \<and> full img fs' \<and> entered fs fp cs fs' fp cs
     | Inr fp' \<Rightarrow> \<exists>cs'. p div 512 div unat (csize fs) < length cs' \<and> fp_clust fp' = cs' ! (p div 512 div unat (csize fs)) \<and>
         entered fs fp cs fs' fp' cs'))"
proof (cases "sect_in_clust (fp_fptr fp) fs = 0")
  case True
  then have "p div 512 mod unat (csize fs) = 0" using sect_in_clust_mod [OF lay dl, of "fp_fptr fp"] p by simp
  from write_cluster_law [OF inv lay ch base at p al this] show ?thesis using True by simp
next
  case False
  then have "unat (sect_in_clust (fp_fptr fp) fs) \<noteq> 0" by (simp add: unat_eq_0)
  then have c: "p div 512 mod unat (csize fs) \<noteq> 0"
    using sect_in_clust_mod [OF lay dl, of "fp_fptr fp"] p by simp
  then have "p \<noteq> 0" by (metis div_0 mod_0)
  then have "p div 512 div unat (csize fs) < length cs \<and> fp_clust fp = cs ! (p div 512 div unat (csize fs))"
    using at cluster_same [OF al c] by (simp add: wr_at_def)
  moreover have "entered fs fp cs fs fp cs" using ch base by (simp add: entered_def)
  ultimately show ?thesis using False inv by auto
qed

lemma entered_bytes:
  assumes e: "entered fs fp cs fs' fp' cs'" and k: "kept img fs cs fs'" and lay: "vol_layout fs" and ch: "file_chain img fs (fp_sclust fp) cs"
    and base: "fil_base img fs fp" and at: "wr_at fs cs fp p" and i: "i < p \<or> i < unat (fp_fsize fp)"
  shows "fbyte img fs' fp' i = fbyte img fs fp i"
proof -
  have g: "geom fs' = geom fs" using k by (simp add: kept_def)
  have lay': "vol_layout fs'" using kept_layout(1) [OF k] lay by simp
  obtain new where cs': "cs' = cs @ new" using e by (auto simp: entered_def grows_def)
  have size: "unat (fp_fsize fp) \<le> 512 * (length cs * unat (csize fs))" using base fil_base_chain [OF lay ch] by simp
  have iN: "i div 512 < length cs * unat (csize fs)" by (rule covered [OF lay at size i])
  then have iN': "i div 512 < length cs' * unat (csize fs')" unfolding cs' geom_sel(3) [OF g] by (simp add: add_mult_distrib)
  have ch': "file_chain img fs' (fp_sclust fp') cs'" using e by (simp add: entered_def)
  have "csect fs' cs' (i div 512) = csect fs cs (i div 512)" unfolding csect_geom [OF g] cs' by (rule csect_append [OF iN])
  then show ?thesis
    using e fbyte_chain [OF lay' ch' iN'] fbyte_chain [OF lay ch iN] csect_in [OF lay ch iN] by (simp add: entered_def)
qed

text \<open>The write-back of the cache before the cluster is used.\<close>

lemma write_flush:
  assumes inv: "inv fs1" and lay: "vol_layout fs" and ch: "file_chain img fs (fp_sclust fp) cs"
    and base: "fil_base img fs fp" and at: "wr_at fs cs fp p" and p: "unat (fp_fptr fp) = p" and k: "kept img fs cs fs1"
    and e: "entered fs fp cs fs1 fp1 cs1" and K: "p div 512 div unat (csize fs) < length cs1" "fp_clust fp1 = cs1 ! (p div 512 div unat (csize fs))"
  shows "returns (flush_buf ops fp1 fs1) (\<lambda>(q, fp') fs'. inv fs' \<and> kept img fs cs fs' \<and> (q \<longrightarrow> ready img fs fp cs fs' fp' cs1))"
proof -
  have g: "geom fs1 = geom fs" using k by (simp add: kept_def)
  have lay1: "vol_layout fs1" using kept_layout(1) [OF k] lay by simp
  have ch1: "file_chain img fs1 (fp_sclust fp1) cs1" and base1: "fil_base img fs1 fp1" and gr: "grows img fs cs cs1" using e by (simp_all add: entered_def)
  note b = base1 [unfolded fil_base_chain [OF lay1 ch1]]
  obtain q fp2 fs2 where f: "flush_buf ops fp1 fs1 = Some ((q, fp2), fs2)" "inv fs2" "quiet img (fsects img fs1 (fp_sclust fp1)) fs1 fs2"
      "fdata img fs2 fp2 = fdata img fs1 fp1" "\<exists>fl. fp2 = fp1\<lparr>fp_flag := fl\<rparr>" "q \<longrightarrow> \<not> dirty fp2"
    using flush_buf_law [OF inv, of fp1 "fsects img fs1 (fp_sclust fp1)"] b by (auto simp: returns_iff)
  then obtain fl where "fp2 = fp1\<lparr>fp_flag := fl\<rparr>" by blast
  note fl = f(1-4,6) [unfolded this, simplified]
  note q = quiet_file [OF fl(3) lay1 ch1]
  have lay2: "vol_layout fs2" using quiet_layout(1) [OF fl(3)] lay1 by simp
  have g2: "geom fs2 = geom fs1" using q(2) by (simp add: kept_def)
  let ?fp = "fp1\<lparr>fp_flag := fl\<rparr>"
  have ch2: "file_chain img fs2 (fp_sclust ?fp) cs1" using q(1) by simp
  have base2: "fil_base img fs2 ?fp" if q
    unfolding fil_base_chain [OF lay2 ch2] using b fl(4,5) that q(4) geom_sel(3) [OF g2] fl(3) by (auto simp: quiet_def)
  have fb: "fbyte img fs2 ?fp = fbyte img fs1 fp1"
    by (intro ext) (simp add: fbyte_def fl(4) quiet_fsect(2) [OF fl(3) lay1])
  have so: "same_open fp ?fp"
  proof -
    have "flush_buf ops fp1 fs1 = Some ((q, ?fp), fs2)" by (rule fl(1))
    then have "fl = fp_flag fp1 \<or> fl = fp_flag fp1 AND NOT FA__DIRTY"
      by (auto simp: flush_buf_def Let_def bind_eq_Some_conv split: if_split_asm dest!: arg_cong [where f = fp_flag])
    then have "same_open fp1 ?fp"
    proof
      assume "fl = fp_flag fp1"
      then have "?fp = fp1" by simp
      then show ?thesis by simp
    qed simp
    moreover have "same_open fp fp1" using e unfolding entered_def by (metis same_open_upd(8))
    ultimately show ?thesis by (rule same_open_trans [rotated])
  qed
  have "kept img fs cs fs2" by (rule kept_trans [OF k gr q(2)])
  moreover have "ready img fs fp cs fs2 ?fp cs1" if q
    unfolding ready_def Let_def p
    using gr ch2 base2 [OF that] fl(5) that so K geom_sel(3) [OF g] geom_sel(3) [OF g2] fb entered_bytes [OF e k lay ch base at] by simp
  ultimately show ?thesis using fl by simp
qed

lemma direct_wrote:
  assumes inv: "inv fs2" and lay: "vol_layout fs" and ch: "file_chain img fs (fp_sclust fp) cs" and base: "fil_base img fs fp"
    and at: "wr_at fs cs fp p" and p: "unat (fp_fptr fp) = p" and al: "p mod 512 = 0" and k: "kept img fs cs fs2"
    and rd: "ready img fs fp cs fs2 fp2 cs1" and n: "n \<noteq> 0" "p div 512 mod unat (csize fs2) + unat n \<le> unat (csize fs2)"
    and s: "s = clust2sect fs2 (fp_clust fp2) + of_nat (p div 512 mod unat (csize fs2))" and room: "off + 512 * unat n \<le> length buff"
  shows "returns (write_direct ops s n fp2 off buff fs2) (\<lambda>(q, fp') fs'. inv fs' \<and> kept img fs cs fs' \<and>
    (q \<longrightarrow> wrote img fs fp cs off buff (512 * unat n) fs' fp' cs1))"
proof -
  let ?k = "p div 512" and ?C = "unat (csize fs2)"
  let ?K = "?k div ?C"
  have lay2: "vol_layout fs2" using kept_layout(1) [OF k] lay by simp
  have C: "0 < ?C" using lay2 by (simp add: vol_layout_def unat_gt_0)
  note r = readyD [OF rd p]
  have kN: "?k + unat n \<le> length cs1 * ?C"
  proof -
    have "?k + unat n \<le> ?K * ?C + ?C" using n(2) by (metis add.assoc add_le_cancel_left div_mult_mod_eq)
    also have "\<dots> = Suc ?K * ?C" by simp
    also have "\<dots> \<le> length cs1 * ?C" using r(6) by (intro mult_le_mono1) simp
    finally show ?thesis .
  qed
  have run: "csect fs2 cs1 (?k + i) = s + of_nat i" if "i < unat n" for i
  proof -
    have "?k mod ?C + i < ?C" using n(2) that by simp
    from add_below_modulus [OF this] show ?thesis using r(7) s by (simp add: csect_def)
  qed
  obtain q fp3 fs3 where w: "write_direct ops s n fp2 off buff fs2 = Some ((q, fp3), fs3)" "inv fs3" "quiet img (fsects img fs2 (fp_sclust fp2)) fs2 fs3"
      "q \<longrightarrow> fil_base img fs3 fp3 \<and> \<not> dirty fp3 \<and> same_open fp2 fp3 \<and> fp_clust fp3 = fp_clust fp2 \<and> fp_sclust fp3 = fp_sclust fp2 \<and>
       (\<forall>j < length cs1 * ?C. img (dsk fs3) (csect fs2 cs1 j) =
          (if ?k \<le> j \<and> j < ?k + unat n then take 512 (drop (off + 512 * (j - ?k)) buff) else img (dsk fs2) (csect fs2 cs1 j)))"
    using write_direct_law [OF inv lay2 r(2,3,4) n(1) kN run room] by (auto simp: returns_iff)
  note qf = quiet_file [OF w(3) lay2 r(2)]
  have lay3: "vol_layout fs3" using quiet_layout(1) [OF w(3)] lay2 by simp
  have g3: "geom fs3 = geom fs2" using qf(2) by (simp add: kept_def)
  have C3: "csize fs3 = csize fs2" by (rule geom_sel(3) [OF g3])
  have size: "unat (fp_fsize fp) \<le> 512 * (length cs1 * ?C)"
    using r(3) fil_base_chain [OF lay2 r(2)] same_open_sel(5) [OF r(5)] by simp
  have "wrote img fs fp cs off buff (512 * unat n) fs3 fp3 cs1" if q
  proof -
    have w4: "fil_base img fs3 fp3" "\<not> dirty fp3" "same_open fp2 fp3" "fp_clust fp3 = fp_clust fp2" "fp_sclust fp3 = fp_sclust fp2"
        "\<And>j. j < length cs1 * ?C \<Longrightarrow> img (dsk fs3) (csect fs2 cs1 j) =
          (if ?k \<le> j \<and> j < ?k + unat n then take 512 (drop (off + 512 * (j - ?k)) buff) else img (dsk fs2) (csect fs2 cs1 j))"
      using w(4) that by simp_all
    have ch3: "file_chain img fs3 (fp_sclust fp3) cs1" using qf(1) w4(5) by simp
    have p512: "p = 512 * ?k" using al by (simp add: mult.commute mod_0_imp_dvd)
    have byte3: "fbyte img fs3 fp3 i = img (dsk fs3) (csect fs2 cs1 (i div 512)) ! (i mod 512)" if "i div 512 < length cs1 * ?C" for i
      using clean_byte [OF lay3 ch3 w4(2)] that qf(3) C3 by simp
    have byte2: "fbyte img fs2 fp2 i = img (dsk fs2) (csect fs2 cs1 (i div 512)) ! (i mod 512)" if "i div 512 < length cs1 * ?C" for i
      using clean_byte [OF lay2 r(2,4) that] .
    have new: "fbyte img fs3 fp3 (p + i) = buff ! (off + i)" if i: "i < 512 * unat n" for i
    proof -
      have id: "i div 512 < unat n" using i by (simp add: div_less_iff_less_mult mult.commute)
      have e: "(p + i) div 512 = ?k + i div 512" "(p + i) mod 512 = i mod 512"
        by (subst p512, simp)+
      have "take 512 (drop (off + 512 * (i div 512)) buff) ! (i mod 512) = buff ! (off + 512 * (i div 512) + i mod 512)"
        using room id by (simp add: nth_drop)
      also have "off + 512 * (i div 512) + i mod 512 = off + i" by simp
      finally show ?thesis using byte3 [of "p + i"] w4(6) [of "?k + i div 512"] kN id e by simp
    qed
    have old: "fbyte img fs3 fp3 i = fbyte img fs fp i" if i: "i < p \<or> p + 512 * unat n \<le> i \<and> i < unat (fp_fsize fp)" for i
    proof -
      have o: "i < p \<or> i < unat (fp_fsize fp)" using i by auto
      have iN: "i div 512 < length cs1 * ?C"
      proof (cases "i < p")
        case True
        then have "i div 512 \<le> ?k" by (simp add: div_le_mono)
        then show ?thesis using kN n(1) unat_gt_0 [of n] by linarith
      next
        case False
        then have "i < 512 * (length cs1 * ?C)" using o size by simp
        then show ?thesis by (simp add: div_less_iff_less_mult mult.commute)
      qed
      have "\<not> (?k \<le> i div 512 \<and> i div 512 < ?k + unat n)"
      proof
        assume a: "?k \<le> i div 512 \<and> i div 512 < ?k + unat n"
        have ie: "i = 512 * (i div 512) + i mod 512" "i mod 512 < 512" by simp_all
        have "p \<le> i" using a p512 ie by linarith
        moreover have "i < p + 512 * unat n" using a p512 ie by linarith
        ultimately show False using i by simp
      qed
      then have "img (dsk fs3) (csect fs2 cs1 (i div 512)) = img (dsk fs2) (csect fs2 cs1 (i div 512))" using w4(6) [OF iN] by (simp only: if_False)
      then show ?thesis using byte3 [OF iN] byte2 [OF iN] r(8) [OF o] by simp
    qed
    have "0 < 512 * unat n" using n(1) by (simp add: unat_gt_0)
    then have "(p + 512 * unat n - 1) div 512 div ?C = ?K" using last_sector [of "512 * unat n" p "unat n" ?C] al n(2) C by simp
    then have at3: "wr_at fs3 cs1 fp3 (p + 512 * unat n)" using r(6,7) w4(4) al C3 by (simp add: wr_at_def)
    show ?thesis
      unfolding wrote_def p using r(1) ch3 w4(1) at3 same_open_trans [OF r(5) w4(3)] new old by simp
  qed
  then show ?thesis using w(1,2) kept_trans [OF k r(1) qf(2)] by simp
qed

text \<open>The last bytes of a transfer go through the cache, which is loaded unless it lies behind the end of the file.\<close>

lemma cached_wrote:
  assumes inv: "inv fs2" and lay: "vol_layout fs" and p: "unat (fp_fptr fp) = p" and al: "p mod 512 = 0" and k: "kept img fs cs fs2"
    and rd: "ready img fs fp cs fs2 fp2 cs1" and s: "s = csect fs2 cs1 (p div 512)" and room: "off + unat btw \<le> length buff" "btw \<noteq> 0"
  shows "returns (do {
      ((ok, fp), fs) \<leftarrow> (if fp_dsect fp2 \<noteq> s \<and> fp_fptr fp2 < fp_fsize fp2 then fill_buf ops s fp2 fs2 else Some ((True, fp2), fs2));
      if \<not> ok then Some ((Inl FR_DISK_ERR, fp), fs)
      else do {
        (wcnt, fp) \<leftarrow> write_partial btw (fp\<lparr>fp_dsect := s\<rparr>) off buff;
        Some ((Inr wcnt, fp), fs) } })
    (\<lambda>(q, fp') fs'. inv fs' \<and> kept img fs cs fs' \<and> (case q of Inl e \<Rightarrow> e = FR_DISK_ERR
      | Inr n \<Rightarrow> n \<noteq> 0 \<and> unat n \<le> unat btw \<and> wrote img fs fp cs off buff (unat n) fs' fp' cs1))"
proof -
  let ?C = "unat (csize fs2)" and ?S = "fsects img fs2 (fp_sclust fp2)"
  have lay2: "vol_layout fs2" using kept_layout(1) [OF k] lay by simp
  have C: "0 < ?C" using lay2 by (simp add: vol_layout_def unat_gt_0)
  note r = readyD [OF rd p] and so = same_open_sel [OF readyD(5) [OF rd p]]
  note b = r(3) [unfolded fil_base_chain [OF lay2 r(2)]]
  have kN: "p div 512 < length cs1 * ?C" using r(6) C by (simp add: div_less_iff_less_mult)
  have sS: "s \<in> ?S" using csect_in [OF lay2 r(2) kN] s by simp
  have s0: "s \<noteq> 0" using fsects_valid [OF lay2 sS] by simp
  have fp2: "unat (fp_fptr fp2) = p" using so p by simp
  define ld where "ld = (if fp_dsect fp2 \<noteq> s \<and> fp_fptr fp2 < fp_fsize fp2 then fill_buf ops s fp2 fs2 else Some ((True, fp2), fs2))"
  have "returns ld (\<lambda>(ok, fp3) fs3. inv fs3 \<and> quiet img ?S fs2 fs3 \<and> img (dsk fs3) = img (dsk fs2) \<and>
    (\<exists>bf. fp3 = fp2\<lparr>fp_buf := bf\<rparr> \<and> length bf = 512 \<and> (ok \<longrightarrow> p < unat (fp_fsize fp) \<longrightarrow> bf = img (dsk fs2) s)))"
  proof (cases "fp_dsect fp2 \<noteq> s \<and> fp_fptr fp2 < fp_fsize fp2")
    case True
    show ?thesis
      unfolding ld_def using fill_buf_law [OF inv, of fp2 ?S s] b True by (auto elim!: returns_mono)
  next
    case False
    have "fp2 = fp2\<lparr>fp_buf := fp_buf fp2\<rparr>" by simp
    moreover have "fp_buf fp2 = img (dsk fs2) s" if "p < unat (fp_fsize fp)"
    proof -
      have "fp_dsect fp2 = s" using False that so(5) fp2 by (simp add: word_less_nat_alt)
      then show ?thesis using b r(4) s0 by (simp add: fdata_def)
    qed
    moreover have "quiet img ?S fs2 fs2" using b by (simp add: quiet_refl)
    ultimately have "inv fs2 \<and> quiet img ?S fs2 fs2 \<and> (\<exists>bf. fp2 = fp2\<lparr>fp_buf := bf\<rparr> \<and> length bf = 512 \<and> (p < unat (fp_fsize fp) \<longrightarrow> bf = img (dsk fs2) s))"
      using inv b by blast
    then show ?thesis unfolding ld_def if_not_P [OF False] by simp
  qed
  then obtain ok bf fs3 where l: "ld = Some ((ok, fp2\<lparr>fp_buf := bf\<rparr>), fs3)" "inv fs3" "quiet img ?S fs2 fs3" "img (dsk fs3) = img (dsk fs2)"
      "length bf = 512" "ok \<Longrightarrow> p < unat (fp_fsize fp) \<Longrightarrow> bf = img (dsk fs2) s"
    by (auto simp: returns_iff)
  note qf = quiet_file [OF l(3) lay2 r(2)]
  have lay3: "vol_layout fs3" using quiet_layout(1) [OF l(3)] lay2 by simp
  have g3: "geom fs3 = geom fs2" using qf(2) by (simp add: kept_def)
  have C3: "csize fs3 = csize fs2" by (rule geom_sel(3) [OF g3])
  have k3: "kept img fs cs fs3" by (rule kept_trans [OF k r(1) qf(2)])
  show ?thesis
  proof (cases ok)
    case False
    then show ?thesis unfolding ld_def [symmetric] l(1) using l(2) k3 by simp
  next
    case True
    let ?fp = "fp2\<lparr>fp_buf := bf, fp_dsect := s\<rparr>"
    have fpq: "unat (fp_fptr ?fp) = p" using fp2 by simp
    have len: "length (fp_buf ?fp) = 512" using l(5) by simp
    obtain n where n: "n \<noteq> 0" "unat n = min (512 - p mod 512) (unat btw)"
        "write_partial btw ?fp off buff = Some (n, ?fp\<lparr>fp_buf := overlay (p mod 512) (take (unat n) (drop off buff)) (fp_buf ?fp),
          fp_flag := fp_flag ?fp OR FA__DIRTY\<rparr>)"
      using write_partial_law [OF len room, unfolded fpq] by blast
    have nb: "0 < unat n" "unat n \<le> 512 - p mod 512" "off + unat n \<le> length buff" "unat n \<le> unat btw"
      using n(1,2) room unat_gt_0 [of n] by auto
    have ch3: "file_chain img fs3 (fp_sclust ?fp) cs1" using qf(1) by simp
    have w3: "winsect fs3 \<notin> fsects img fs3 (fp_sclust ?fp)" using l(3) qf(4) by (simp add: quiet_def)
    have size: "unat (fp_fsize ?fp) \<le> 512 * (length cs1 * unat (csize fs3))" using b C3 by simp
    have kN3: "p div 512 < length cs1 * unat (csize fs3)" using kN C3 by simp
    have ds3: "fp_dsect ?fp = csect fs3 cs1 (p div 512)" using s qf(3) by simp
    have cl3: "fp_clust ?fp = cs1 ! (p div 512 div unat (csize fs3))" using r(7) C3 by simp
    have at2: "i div 512 < length cs1 * ?C" if "i < p \<or> i < unat (fp_fsize ?fp)" for i
    proof (cases "i < p")
      case True
      then have "i div 512 \<le> p div 512" by (simp add: div_le_mono)
      then show ?thesis using kN by simp
    next
      case False
      then have "i < 512 * (length cs1 * ?C)" using that size C3 by simp
      then show ?thesis by (simp add: div_less_iff_less_mult mult.commute)
    qed
    have old: "img (dsk fs3) (csect fs3 cs1 (i div 512)) ! (i mod 512) = fbyte img fs fp i" if "i < p \<or> i < unat (fp_fsize ?fp)" for i
      using clean_byte [OF lay2 r(2,4) at2 [OF that]] r(8) [of i] that l(4) qf(3) so(5) by simp
    have here: "fp_buf ?fp ! (i mod 512) = fbyte img fs fp i" if i: "i < p \<or> i < unat (fp_fsize ?fp)" "i div 512 = p div 512" for i
    proof -
      have "p = 512 * (p div 512)" using al by (simp add: mult.commute mod_0_imp_dvd)
      then have "p \<le> i" using i(2) by (metis times_div_less_eq_dividend)
      then have "p < unat (fp_fsize fp)" using i(1) so(5) by simp
      then show ?thesis using l(6) [OF True] old [OF i(1)] i(2) l(4) s qf(3) by simp
    qed
    note pp = put_part [OF lay3 ch3 fpq w3 size len kN3 ds3 cl3 old here nb(1-3)]
    let ?fp' = "?fp\<lparr>fp_buf := overlay (p mod 512) (take (unat n) (drop off buff)) (fp_buf ?fp), fp_flag := fp_flag ?fp OR FA__DIRTY\<rparr>"
    have so3: "same_open fp ?fp'"
      by (rule same_open_trans [OF r(5) same_open_trans [OF same_open_trans [OF same_open_upd(4) same_open_upd(3)] same_open_upd(7)]])
    have ch4: "file_chain img fs3 (fp_sclust ?fp') cs1" using ch3 by simp
    have sz: "fp_fsize ?fp = fp_fsize fp" using so(5) by simp
    have "wrote img fs fp cs off buff (unat n) fs3 ?fp' cs1"
      unfolding wrote_def p by (intro conjI allI impI r(1) ch4 so3 pp [unfolded sz])
    then show ?thesis
      unfolding ld_def [symmetric] l(1) using True n(1,3) l(2) k3 nb(4) by simp
  qed
qed

text \<open>Inside a sector the bytes go to the cache at once.\<close>

lemma partial_wrote:
  assumes inv: "inv fs" and lay: "vol_layout fs" and ch: "file_chain img fs (fp_sclust fp) cs" and base: "fil_base img fs fp"
    and at: "wr_at fs cs fp p" and p: "unat (fp_fptr fp) = p" and al: "p mod 512 \<noteq> 0" and room: "off + unat btw \<le> length buff" "btw \<noteq> 0"
  shows "\<exists>n fp'. write_partial btw fp off buff = Some (n, fp') \<and> n \<noteq> 0 \<and> unat n \<le> unat btw \<and> wrote img fs fp cs off buff (unat n) fs fp' cs"
proof -
  let ?C = "unat (csize fs)"
  note b = base [unfolded fil_base_chain [OF lay ch]]
  have C: "0 < ?C" using lay by (simp add: vol_layout_def unat_gt_0)
  have pp: "(p - 1) div 512 = p div 512" using al by (metis Suc_pred' div_Suc mod_0 neq0_conv diff_Suc_1)
  have "p \<noteq> 0" using al by (metis mod_0)
  then have cl: "fp_clust fp = cs ! (p div 512 div ?C)" "p div 512 div ?C < length cs" using at pp by (simp_all add: wr_at_def)
  have kN: "p div 512 < length cs * ?C" using cl(2) C by (simp add: div_less_iff_less_mult)
  have ds: "fp_dsect fp = csect fs cs (p div 512)" using at al by (simp add: wr_at_def)
  have "fp_dsect fp \<noteq> 0" using fsects_valid [OF lay csect_in [OF lay ch kN]] ds by simp
  then have buf: "fp_buf fp = fdata img fs fp (fp_dsect fp)" using b by simp
  note cov = covered [OF lay at conjunct1 [OF conjunct2 [OF b]]]
  have old: "img (dsk fs) (csect fs cs (i div 512)) ! (i mod 512) = fbyte img fs fp i" if i: "i < p \<or> i < unat (fp_fsize fp)" "i div 512 \<noteq> p div 512" for i
  proof -
    have "csect fs cs (i div 512) \<noteq> fp_dsect fp" using csect_inj [OF lay ch cov [OF i(1)] kN] i(2) ds by auto
    then show ?thesis using fbyte_chain [OF lay ch cov [OF i(1)]] by (simp add: fdata_def)
  qed
  have here: "fp_buf fp ! (i mod 512) = fbyte img fs fp i" if i: "i < p \<or> i < unat (fp_fsize fp)" "i div 512 = p div 512" for i
    using fbyte_chain [OF lay ch cov [OF i(1)]] i(2) ds buf by simp
  obtain n where n: "n \<noteq> 0" "unat n = min (512 - p mod 512) (unat btw)"
      "write_partial btw fp off buff = Some (n, fp\<lparr>fp_buf := overlay (p mod 512) (take (unat n) (drop off buff)) (fp_buf fp),
        fp_flag := fp_flag fp OR FA__DIRTY\<rparr>)"
    using write_partial_law [OF conjunct1 [OF b] room, unfolded p] by blast
  have nb: "0 < unat n" "unat n \<le> 512 - p mod 512" "off + unat n \<le> length buff" "unat n \<le> unat btw"
    using n(1,2) room unat_gt_0 [of n] by auto
  have w: "winsect fs \<notin> fsects img fs (fp_sclust fp)" and size: "unat (fp_fsize fp) \<le> 512 * (length cs * ?C)" and len: "length (fp_buf fp) = 512"
    using b by simp_all
  note pp = put_part [OF lay ch p w size len kN ds cl(1) old here nb(1-3)]
  let ?fp' = "fp\<lparr>fp_buf := overlay (p mod 512) (take (unat n) (drop off buff)) (fp_buf fp), fp_flag := fp_flag fp OR FA__DIRTY\<rparr>"
  have ch4: "file_chain img fs (fp_sclust ?fp') cs" using ch by simp
  have "wrote img fs fp cs off buff (unat n) fs ?fp' cs"
    unfolding wrote_def p by (intro conjI allI impI grows_refl ch4 same_open_upd(7) pp)
  then show ?thesis using n(1,3) nb(4) by blast
qed

lemma wrote_nothing:
  assumes e: "entered fs fp cs fs' fp cs" and k: "kept img fs cs fs'" and lay: "vol_layout fs" and ch: "file_chain img fs (fp_sclust fp) cs"
    and base: "fil_base img fs fp" and at: "wr_at fs cs fp p" and p: "unat (fp_fptr fp) = p"
  shows "wrote img fs fp cs off buff 0 fs' fp cs"
proof -
  have g: "geom fs' = geom fs" using k by (simp add: kept_def)
  have "wr_at fs' cs fp p" using at by (simp add: wr_at_def csect_geom [OF g] geom_sel(3) [OF g])
  then show ?thesis
    unfolding wrote_def p using e entered_bytes [OF e k lay ch base at] by (simp add: entered_def)
qed

lemma write_chunk_law:
  assumes inv: "inv fs" and lay: "vol_layout fs" and dl: "dir_layout fs" and ch: "file_chain img fs (fp_sclust fp) cs" and base: "fil_base img fs fp"
    and at: "wr_at fs cs fp p" and p: "unat (fp_fptr fp) = p" and room: "off + unat btw \<le> length buff" "btw \<noteq> 0"
  shows "returns (write_chunk ops btw fp off buff fs) (\<lambda>(q, fp') fs'. inv fs' \<and> kept img fs cs fs' \<and>
    (case q of Inl e \<Rightarrow> e = FR_INT_ERR \<or> e = FR_DISK_ERR \<or> e = FR_OK \<and> full img fs' \<and> (\<exists>cs'. wrote img fs fp cs off buff 0 fs' fp' cs')
     | Inr n \<Rightarrow> n \<noteq> 0 \<and> unat n \<le> unat btw \<and> (\<exists>cs'. wrote img fs fp cs off buff (unat n) fs' fp' cs')))"
proof (cases "p mod 512 = 0")
  case False
  then have "fp_fptr fp mod 512 \<noteq> 0" using p by (metis u32_div512(2) unat_0)
  moreover obtain n fp' where "write_partial btw fp off buff = Some (n, fp')" "n \<noteq> 0" "unat n \<le> unat btw" "wrote img fs fp cs off buff (unat n) fs fp' cs"
    using partial_wrote [OF inv lay ch base at p False room] by blast
  ultimately show ?thesis using inv by (auto simp: write_chunk_def)
next
  case True
  then have al: "fp_fptr fp mod 512 = 0" using p by (simp add: u32_div512(2) unat_eq_0 [symmetric])
  let ?c = "sect_in_clust (fp_fptr fp) fs"
  obtain q fs1 where e: "(if ?c = 0 then write_cluster ops fp fs else Some (Inr fp, fs)) = Some (q, fs1)" "inv fs1" "kept img fs cs fs1"
      "case q of Inl e \<Rightarrow> e = FR_INT_ERR \<or> e = FR_DISK_ERR \<or> e = FR_OK \<and> full img fs1 \<and> entered fs fp cs fs1 fp cs
       | Inr fp' \<Rightarrow> \<exists>cs'. p div 512 div unat (csize fs) < length cs' \<and> fp_clust fp' = cs' ! (p div 512 div unat (csize fs)) \<and>
         entered fs fp cs fs1 fp' cs'"
    using write_enter [OF inv lay dl ch base at p True] by (auto simp: returns_iff)
  show ?thesis
  proof (cases q)
    case (Inl x)
    then have "x = FR_OK \<Longrightarrow> wrote img fs fp cs off buff 0 fs1 fp cs" using e(4) wrote_nothing [OF _ e(3) lay ch base at p] by simp
    then show ?thesis using Inl e al by (auto simp: write_chunk_def Let_def)
  next
    case (Inr fp1)
    then obtain cs1 where c1: "p div 512 div unat (csize fs) < length cs1" "fp_clust fp1 = cs1 ! (p div 512 div unat (csize fs))"
        "entered fs fp cs fs1 fp1 cs1"
      using e(4) by auto
    obtain ok fp2 fs2 where f: "flush_buf ops fp1 fs1 = Some ((ok, fp2), fs2)" "inv fs2" "kept img fs cs fs2" "ok \<longrightarrow> ready img fs fp cs fs2 fp2 cs1"
      using write_flush [OF e(2) lay ch base at p e(3) c1(3,1,2)] by (auto simp: returns_iff)
    show ?thesis
    proof (cases ok)
      case False
      then show ?thesis using Inr e(1) f al by (simp add: write_chunk_def Let_def)
    next
      case okT: True
      then have rd: "ready img fs fp cs fs2 fp2 cs1" using f(4) by simp
      note r = readyD [OF rd p]
      have g2: "geom fs2 = geom fs" using f(3) by (simp add: kept_def)
      have lay2: "vol_layout fs2" using kept_layout(1) [OF f(3)] lay by simp
      have C2: "csize fs2 = csize fs" by (rule geom_sel(3) [OF g2])
      have "cs1 ! (p div 512 div unat (csize fs2)) \<in> set cs1" using r(6) by simp
      then have v: "2 \<le> fp_clust fp2" "fp_clust fp2 < n_fatent fs2" using file_chain_range [OF r(2)] r(7) by auto
      have nz: "clust2sect fs2 (fp_clust fp2) \<noteq> 0" by (rule clust2sect_nonzero [OF lay2 v])
      have cm: "unat ?c = p div 512 mod unat (csize fs2)" using sect_in_clust_mod [OF lay dl, of "fp_fptr fp"] p C2 by simp
      let ?s = "clust2sect fs2 (fp_clust fp2) + ucast ?c"
      have sc: "ucast ?c = (of_nat (p div 512 mod unat (csize fs2)) :: u32)"
        unfolding cm [symmetric] by (simp add: word_unat_eq_iff unat_ucast_u8 unat_of_nat_small)
      have C: "0 < unat (csize fs2)" using lay2 by (simp add: vol_layout_def unat_gt_0)
      show ?thesis
      proof (cases "btw div 512 = 0")
        case False
        let ?n = "if ucast ?c + btw div 512 > ucast (csize fs2) then ucast (csize fs2) - ucast ?c else btw div 512"
        have un: "unat ?n = min (unat btw div 512) (unat (csize fs2) - p div 512 mod unat (csize fs2))"
          by (rule run_sectors [OF C cm])
        have csn: "p div 512 mod unat (csize fs2) < unat (csize fs2)" using C by simp
        have bd: "unat (btw div 512) = unat btw div 512" by (simp add: unat_div)
        then have b0: "0 < unat btw div 512" using False by (metis unat_gt_0 word_gt_0)
        have "0 < unat ?n" unfolding un using b0 csn by simp
        then have n0: "?n \<noteq> 0" by (rule unat_gt_0 [THEN iffD1])
        have n1: "512 * unat ?n \<le> unat btw"
          unfolding un by (rule order_trans [OF mult_le_mono2 [OF min.cobounded1] times_div_less_eq_dividend])
        have n2: "p div 512 mod unat (csize fs2) + unat ?n \<le> unat (csize fs2)" unfolding un using csn by simp
        have rm: "off + 512 * unat ?n \<le> length buff" using n1 room(1) by simp
        have un5: "unat (512 * ?n) = 512 * unat ?n"
          using n1 u32_less [of btw] by (simp add: unat_word_ariths)
        then have nz5: "512 * ?n \<noteq> 0" using \<open>0 < unat ?n\<close> by (metis mult_is_0 unat_0 zero_neq_numeral less_numeral_extra(3))
        obtain q3 fp3 fs3 where w: "write_direct ops ?s ?n fp2 off buff fs2 = Some ((q3, fp3), fs3)" "inv fs3" "kept img fs cs fs3"
            "q3 \<longrightarrow> wrote img fs fp cs off buff (512 * unat ?n) fs3 fp3 cs1"
          using direct_wrote [OF f(2) lay ch base at p True f(3) rd n0 n2 _ rm, of ?s] sc by (auto simp: returns_iff)
        have "write_chunk ops btw fp off buff fs = Some ((if q3 then Inr (512 * ?n) else Inl FR_DISK_ERR, fp3), fs3)"
          using al e(1) Inr f(1) okT nz False w(1) by (simp add: write_chunk_def Let_def)
        then show ?thesis using w nz5 un5 n1 by auto
      next
        case cached: True
        have se: "?s = csect fs2 cs1 (p div 512)" using sc r(7) by (simp add: csect_def)
        let ?m = "do {
            ((ok, fp), fs) \<leftarrow> (if fp_dsect fp2 \<noteq> ?s \<and> fp_fptr fp2 < fp_fsize fp2 then fill_buf ops ?s fp2 fs2 else Some ((True, fp2), fs2));
            if \<not> ok then Some ((Inl FR_DISK_ERR, fp), fs)
            else do {
              (wcnt, fp) \<leftarrow> write_partial btw (fp\<lparr>fp_dsect := ?s\<rparr>) off buff;
              Some ((Inr wcnt, fp), fs) } }"
        have "write_chunk ops btw fp off buff fs = ?m"
          using al e(1) Inr f(1) okT nz cached by (simp add: write_chunk_def Let_def)
        moreover have "returns ?m (\<lambda>(q, fp') fs'. inv fs' \<and> kept img fs cs fs' \<and> (case q of Inl e \<Rightarrow> e = FR_DISK_ERR
            | Inr n \<Rightarrow> n \<noteq> 0 \<and> unat n \<le> unat btw \<and> wrote img fs fp cs off buff (unat n) fs' fp' cs1))"
          by (rule cached_wrote [OF f(2) lay p True f(3) rd se room])
        ultimately have "returns (write_chunk ops btw fp off buff fs) (\<lambda>(q, fp') fs'. inv fs' \<and> kept img fs cs fs' \<and>
            (case q of Inl e \<Rightarrow> e = FR_DISK_ERR
             | Inr n \<Rightarrow> n \<noteq> 0 \<and> unat n \<le> unat btw \<and> wrote img fs fp cs off buff (unat n) fs' fp' cs1))" by (simp only:)
        then show ?thesis by (rule returns_mono) (auto split: sum.splits)
      qed
    qed
  qed
qed

end

section \<open>The loop\<close>

lemma fbyte_ptr [simp]: "fbyte img fs (fp\<lparr>fp_fptr := x\<rparr>) = fbyte img fs fp"
  by (simp add: fun_eq_iff fbyte_def fdata_def)

lemma wr_at_ptr [simp]: "wr_at fs cs (fp\<lparr>fp_fptr := x\<rparr>) p = wr_at fs cs fp p"
  by (simp add: wr_at_def)

lemma same_open_ptr:
  assumes "same_open (a\<lparr>fp_fptr := x\<rparr>) b" shows "same_open a (b\<lparr>fp_fptr := fp_fptr a\<rparr>)"
  using assms unfolding same_open_def by (cases a; cases b) simp

lemma wrote_join:
  assumes w: "wrote img fs fp cs off buff n fs1 fp1 cs1" and k: "kept img fs cs fs1" and k2: "kept img fs1 cs1 fs2"
    and x: "unat x = unat (fp_fptr fp) + n" and w2: "wrote img fs1 (fp1\<lparr>fp_fptr := x\<rparr>) cs1 (off + n) buff m fs2 fp2 cs2"
  shows "wrote img fs fp cs off buff (n + m) fs2 (fp2\<lparr>fp_fptr := fp_fptr fp\<rparr>) cs2"
proof -
  let ?p = "unat (fp_fptr fp)"
  have w1: "grows img fs cs cs1" "same_open fp fp1" "\<And>i. i < n \<Longrightarrow> fbyte img fs1 fp1 (?p + i) = buff ! (off + i)"
      "\<And>i. i < ?p \<or> ?p + n \<le> i \<and> i < unat (fp_fsize fp) \<Longrightarrow> fbyte img fs1 fp1 i = fbyte img fs fp i"
    using w by (auto simp: wrote_def)
  have w2': "grows img fs1 cs1 cs2" "file_chain img fs2 (fp_sclust fp2) cs2" "fil_base img fs2 fp2" "wr_at fs2 cs2 fp2 (?p + n + m)"
      "same_open (fp1\<lparr>fp_fptr := x\<rparr>) fp2"
      "\<And>i. i < m \<Longrightarrow> fbyte img fs2 fp2 (?p + n + i) = buff ! (off + n + i)"
      "\<And>i. i < ?p + n \<or> ?p + n + m \<le> i \<and> i < unat (fp_fsize fp) \<Longrightarrow> fbyte img fs2 fp2 i = fbyte img fs1 fp1 i"
    using w2 x same_open_sel(5) [OF w1(2)] by (auto simp: wrote_def)
  have g: "geom fs2 = geom fs" using k k2 by (simp add: kept_def)
  have gr: "grows img fs cs cs2"
    by (rule grows_trans [OF k w1(1) w2'(1) _ file_chain_distinct [OF w2'(2)]])
      (use file_chain_range [OF w2'(2)] geom_sel(8) [OF g] in auto)
  have so: "same_open fp (fp2\<lparr>fp_fptr := fp_fptr fp\<rparr>)"
    using same_open_trans [OF w1(2) same_open_ptr [OF w2'(5)]] same_open_sel(4) [OF w1(2)] by simp
  have new: "fbyte img fs2 fp2 (?p + i) = buff ! (off + i)" if "i < n + m" for i
  proof (cases "i < n")
    case True
    then show ?thesis using w2'(7) [of "?p + i"] w1(3) [OF True] by simp
  next
    case False
    then show ?thesis using w2'(6) [of "i - n"] that by simp
  qed
  have old: "fbyte img fs2 fp2 i = fbyte img fs fp i" if "i < ?p \<or> ?p + (n + m) \<le> i \<and> i < unat (fp_fsize fp)" for i
    using w2'(7) [of i] w1(4) [of i] that by auto
  show ?thesis
    unfolding wrote_def using gr w2'(2,3,4) so new old by (simp add: add.assoc)
qed

context block_device
begin

definition write_post :: "'d fatfs \<Rightarrow> fil \<Rightarrow> u32 list \<Rightarrow> u32 \<Rightarrow> u32 \<Rightarrow> bytes \<Rightarrow> fresult \<times> fil \<times> u32 \<Rightarrow> 'd fatfs \<Rightarrow> bool" where
  "write_post fs fp cs btw bw buff = (\<lambda>(res, fp', bw') fs'. inv fs' \<and> kept img fs cs fs' \<and>
     unat bw \<le> unat bw' \<and> unat bw' \<le> unat bw + unat btw \<and>
     (if res = FR_OK then (unat bw' < unat bw + unat btw \<longrightarrow> full img fs') \<and>
        unat (fp_fptr fp') = unat (fp_fptr fp) + (unat bw' - unat bw) \<and>
        (\<exists>cs'. wrote img fs fp cs (unat bw) buff (unat bw' - unat bw) fs' (fp'\<lparr>fp_fptr := fp_fptr fp\<rparr>) cs')
      else (res = FR_INT_ERR \<or> res = FR_DISK_ERR) \<and> fp_err fp' = res))"

lemma write_file_loop_law:
  assumes "inv fs" and "vol_layout fs" and "dir_layout fs" and "file_chain img fs (fp_sclust fp) cs" and "fil_base img fs fp"
    and "wr_at fs cs fp (unat (fp_fptr fp))" and "unat bw + unat btw \<le> length buff" and "unat bw + unat btw < 2 ^ 32"
    and "unat (fp_fptr fp) + unat btw < 2 ^ 32"
  shows "returns (write_file_loop ops btw bw fp buff fs) (write_post fs fp cs btw bw buff)"
  using assms
proof (induction "unat btw" arbitrary: btw bw fp fs cs rule: less_induct)
  case less
  note prems = less.prems
  show ?case
  proof (cases "btw = 0")
    case True
    have same: "fp\<lparr>fp_fptr := fp_fptr fp\<rparr> = fp" by simp
    have "wrote img fs fp cs (unat bw) buff 0 fs fp cs" unfolding wrote_def using prems by simp
    then show ?thesis
      using True prems(1) same by (auto simp: write_file_loop.simps write_post_def)
  next
    case False
    obtain q fp1 fs1 where c: "write_chunk ops btw fp (unat bw) buff fs = Some ((q, fp1), fs1)" "inv fs1" "kept img fs cs fs1"
        "case q of Inl e \<Rightarrow> e = FR_INT_ERR \<or> e = FR_DISK_ERR \<or> e = FR_OK \<and> full img fs1 \<and> (\<exists>cs'. wrote img fs fp cs (unat bw) buff 0 fs1 fp1 cs')
         | Inr n \<Rightarrow> n \<noteq> 0 \<and> unat n \<le> unat btw \<and> (\<exists>cs'. wrote img fs fp cs (unat bw) buff (unat n) fs1 fp1 cs')"
      using write_chunk_law [OF prems(1-6) refl prems(7) False] by (auto simp: returns_iff)
    show ?thesis
    proof (cases q)
      case (Inl e)
      have r: "write_file_loop ops btw bw fp buff fs = Some ((e, if e = FR_OK then fp1 else fp1\<lparr>fp_err := e\<rparr>, bw), fs1)"
        using c(1) Inl False by (subst write_file_loop.simps) simp
      show ?thesis
      proof (cases "e = FR_OK")
        case True
        then obtain cs' where w: "full img fs1" "wrote img fs fp cs (unat bw) buff 0 fs1 fp1 cs'" using c(4) Inl by auto
        have f: "fp_fptr fp1 = fp_fptr fp" using w(2) same_open_sel(4) by (auto simp: wrote_def)
        then have same: "fp1\<lparr>fp_fptr := fp_fptr fp\<rparr> = fp1" by simp
        have "wrote img fs fp cs (unat bw) buff 0 fs1 (fp1\<lparr>fp_fptr := fp_fptr fp\<rparr>) cs'" unfolding same by (rule w(2))
        then show ?thesis using r True w(1) f c(2,3) by (auto simp: write_post_def)
      next
        case err: False
        then show ?thesis using r c(2,3,4) Inl by (simp add: write_post_def)
      qed
    next
      case (Inr n)
      then obtain cs1 where w: "n \<noteq> 0" "unat n \<le> unat btw" "wrote img fs fp cs (unat bw) buff (unat n) fs1 fp1 cs1" using c(4) by auto
      have so: "same_open fp fp1" using w(3) by (simp add: wrote_def)
      note sel = same_open_sel [OF so]
      let ?fp = "fp1\<lparr>fp_fptr := fp_fptr fp1 + n\<rparr>"
      have u: "unat (btw - n) = unat btw - unat n" "unat (bw + n) = unat bw + unat n" "unat (fp_fptr fp1 + n) = unat (fp_fptr fp) + unat n"
        using w(2) prems(8,9) by (simp_all add: sel unat_sub word_le_nat_alt unat_word_ariths)
      have lt: "unat (btw - n) < unat btw" using u(1) w(1,2) unat_gt_0 [of n] by linarith
      have lay1: "vol_layout fs1" "dir_layout fs1" using kept_layout [OF c(3)] prems(2,3) by simp_all
      have st: "file_chain img fs1 (fp_sclust ?fp) cs1" "fil_base img fs1 ?fp" "wr_at fs1 cs1 ?fp (unat (fp_fptr ?fp))"
        using w(3) u(3) by (simp_all add: wrote_def)
      have "returns (write_file_loop ops (btw - n) (bw + n) ?fp buff fs1) (write_post fs1 ?fp cs1 (btw - n) (bw + n) buff)"
        by (rule less.hyps [OF lt c(2) lay1 st]) (use u w(2) prems(7,8,9) in simp_all)
      then obtain res fp2 bw2 fs2 where r: "write_file_loop ops (btw - n) (bw + n) ?fp buff fs1 = Some ((res, fp2, bw2), fs2)"
          "write_post fs1 ?fp cs1 (btw - n) (bw + n) buff (res, fp2, bw2) fs2"
        by (auto simp: returns_iff)
      have loop: "write_file_loop ops btw bw fp buff fs = Some ((res, fp2, bw2), fs2)"
        using c(1) Inr r(1) False by (subst write_file_loop.simps) simp
      have k2: "kept img fs1 cs1 fs2" and i2: "inv fs2" using r(2) by (simp_all add: write_post_def)
      have gr: "grows img fs cs cs1" using w(3) by (simp add: wrote_def)
      have k: "kept img fs cs fs2" by (rule kept_trans [OF c(3) gr k2])
      have bd: "unat bw + unat n \<le> unat bw2" "unat bw2 \<le> unat bw + unat btw" using r(2) u w(2) by (simp_all add: write_post_def)
      have "\<exists>cs'. wrote img fs fp cs (unat bw) buff (unat bw2 - unat bw) fs2 (fp2\<lparr>fp_fptr := fp_fptr fp\<rparr>) cs'" if ok: "res = FR_OK"
      proof -
        obtain cs2 where w2: "wrote img fs1 ?fp cs1 (unat bw + unat n) buff (unat bw2 - (unat bw + unat n)) fs2 (fp2\<lparr>fp_fptr := fp_fptr ?fp\<rparr>) cs2"
          using r(2) ok u(2) by (auto simp: write_post_def)
        have "unat n + (unat bw2 - (unat bw + unat n)) = unat bw2 - unat bw" using bd(1) by simp
        then show ?thesis using wrote_join [OF w(3) c(3) k2 u(3) w2] by auto
      qed
      then show ?thesis
        using loop r(2) i2 k bd u w(2) by (simp add: write_post_def)
    qed
  qed
qed

end

section \<open>The contents after a write\<close>

lemma fil_at_chain:
  assumes "vol_layout fs" and "file_chain img fs (fp_sclust fp) cs"
  shows "fil_at img fs fp p \<longleftrightarrow> p \<le> unat (fp_fsize fp) \<and> wr_at fs cs fp p"
proof -
  let ?C = "unat (csize fs)"
  have C: "0 < ?C" using assms(1) by (simp add: vol_layout_def unat_gt_0)
  have k: "p div 512 < length cs * ?C" if "p mod 512 \<noteq> 0" "(p - 1) div 512 div ?C < length cs"
  proof -
    have "(p - 1) div 512 = p div 512" using that(1) by (metis Suc_pred' div_Suc mod_0 neq0_conv diff_Suc_1)
    then show ?thesis using that(2) C by (simp add: div_less_iff_less_mult)
  qed
  have z: "p mod 512 \<noteq> 0 \<Longrightarrow> p \<noteq> 0" by (metis mod_0)
  show ?thesis
    unfolding fil_at_def wr_at_def file_sect [OF assms] file_clust [OF assms(2)] using k z by (auto split: if_split_asm)
qed

lemma wrote_data:
  assumes lay: "vol_layout fs'" and w: "wrote img fs fp cs 0 buff n fs' (fp'\<lparr>fp_fptr := fp_fptr fp\<rparr>) cs'"
    and p: "unat (fp_fptr fp) \<le> unat (fp_fsize fp)" "unat (fp_fptr fp') = unat (fp_fptr fp) + n" and room: "n \<le> length buff"
    and s: "unat sz = max (unat (fp_fsize fp)) (unat (fp_fptr fp'))" and fp'': "fp'' = fp'\<lparr>fp_fsize := sz, fp_flag := fp_flag fp' OR FA__WRITTEN\<rparr>"
  shows "fil_inv img fs' fp''" and "file_data img fs' fp'' = take (unat (fp_fptr fp)) (file_data img fs fp) @ take n buff @
    drop (unat (fp_fptr fp) + n) (file_data img fs fp)"
proof -
  let ?p = "unat (fp_fptr fp)"
  have w': "file_chain img fs' (fp_sclust fp') cs'" "fil_base img fs' fp'" "wr_at fs' cs' fp' (?p + n)" "fp_fsize fp' = fp_fsize fp"
      "\<And>i. i < n \<Longrightarrow> fbyte img fs' fp' (?p + i) = buff ! i"
      "\<And>i. i < ?p \<or> ?p + n \<le> i \<and> i < unat (fp_fsize fp) \<Longrightarrow> fbyte img fs' fp' i = fbyte img fs fp i"
    using w same_open_sel(5) [of fp "fp'\<lparr>fp_fptr := fp_fptr fp\<rparr>"] by (auto simp: wrote_def)
  have d: "(fp_flag fp' OR FA__WRITTEN) AND FA__DIRTY = fp_flag fp' AND FA__DIRTY"
    by (simp add: bit.conj_disj_distrib2) (simp add: FA__WRITTEN_def FA__DIRTY_def)
  have fd: "fdata img fs' fp'' = fdata img fs' fp'" by (simp add: fun_eq_iff fdata_def fp'' d)
  have fb: "fbyte img fs' fp'' = fbyte img fs' fp'" by (simp add: fun_eq_iff fbyte_def fd) (simp add: fp'')
  have ch: "file_chain img fs' (fp_sclust fp'') cs'" using w'(1) by (simp add: fp'')
  have C: "0 < unat (csize fs')" using lay by (simp add: vol_layout_def unat_gt_0)
  have "?p + n \<le> 512 * (length cs' * unat (csize fs'))"
  proof (cases "?p + n = 0")
    case False
    then have "(?p + n - 1) div 512 < length cs' * unat (csize fs')"
      using w'(3) C by (simp add: wr_at_def div_less_iff_less_mult)
    then show ?thesis using False by (simp add: div_less_iff_less_mult mult.commute)
  qed simp
  then have "fil_base img fs' fp''"
    unfolding fil_base_chain [OF lay ch] using w'(2) [unfolded fil_base_chain [OF lay w'(1)]] w'(4) p(2) s d fd by (auto simp: fp'')
  moreover have "fil_at img fs' fp'' (unat (fp_fptr fp''))"
    unfolding fil_at_chain [OF lay ch] using w'(3) p(2) s by (simp add: fp'' wr_at_def)
  ultimately show "fil_inv img fs' fp''" by (simp add: fil_inv_def)
  have size: "unat (fp_fsize fp'') = max (unat (fp_fsize fp)) (?p + n)" using s p(2) by (simp add: fp'')
  show "file_data img fs' fp'' = take ?p (file_data img fs fp) @ take n buff @ drop (?p + n) (file_data img fs fp)"
  proof (rule nth_equalityI)
    show "length (file_data img fs' fp'') = length (take ?p (file_data img fs fp) @ take n buff @ drop (?p + n) (file_data img fs fp))"
      using size p(1) room by simp
    fix i assume "i < length (file_data img fs' fp'')"
    then have i: "i < max (unat (fp_fsize fp)) (?p + n)" by (simp add: size)
    have l: "file_data img fs' fp'' ! i = fbyte img fs' fp' i" using i size by (simp add: file_data_def fbytes_def fb)
    have r: "file_data img fs fp ! j = fbyte img fs fp j" if "j < unat (fp_fsize fp)" for j using that by (simp add: file_data_def fbytes_def)
    show "file_data img fs' fp'' ! i = (take ?p (file_data img fs fp) @ take n buff @ drop (?p + n) (file_data img fs fp)) ! i"
    proof -
      consider "i < ?p" | "?p \<le> i" "i < ?p + n" | "?p + n \<le> i" "i < unat (fp_fsize fp)" using i by linarith
      then show ?thesis
      proof cases
        case 1
        then show ?thesis unfolding l using p(1) w'(6) [of i] by (simp add: nth_append r)
      next
        case 2
        then have "i - ?p < n" by simp
        then show ?thesis unfolding l using 2 p(1) room w'(5) [of "i - ?p"] by (simp add: nth_append)
      next
        case 3
        then have "\<not> i - ?p < n" by simp
        then show ?thesis unfolding l using 3 p(1) room w'(6) [of i] by (simp add: nth_append r)
      qed
    qed
  qed
qed

text \<open>The number of bytes asked for: none when the pointer would wrap around.\<close>

definition write_count :: "fil \<Rightarrow> u32 \<Rightarrow> u32" where
  "write_count fp btw = (if fp_fptr fp + btw < fp_fptr fp then 0 else btw)"

lemma write_count: "unat (fp_fptr fp) + unat (write_count fp btw) < 2 ^ 32" "unat (write_count fp btw) \<le> unat btw"
    "unat (fp_fptr fp) + unat btw < 2 ^ 32 \<Longrightarrow> write_count fp btw = btw"
proof -
  have "unat (fp_fptr fp) + unat btw < 2 ^ 32 \<longleftrightarrow> \<not> fp_fptr fp + btw < fp_fptr fp"
    using no_plus_overflow_unat_size [of "fp_fptr fp" btw] by (simp add: word_size not_less)
  then show "unat (fp_fptr fp) + unat (write_count fp btw) < 2 ^ 32" "unat (write_count fp btw) \<le> unat btw"
    "unat (fp_fptr fp) + unat btw < 2 ^ 32 \<Longrightarrow> write_count fp btw = btw"
    using u32_less [of "fp_fptr fp"] by (auto simp: write_count_def)
qed

lemma f_write_law:
  assumes dev: "block_device ops dno ok img" and v: "valid_file ops fp g = FR_OK" "fp_fs fp = Some a"
    and vol: "win_inv dno ok img (fs_at g a)" "vol_layout (fs_at g a)" "dir_layout (fs_at g a)"
    and ch: "file_chain img (fs_at g a) (fp_sclust fp) cs" and inv: "fil_inv img (fs_at g a) fp"
    and o: "fp_err fp = FR_OK" "fp_flag fp AND FA_WRITE \<noteq> 0" and room: "unat btw \<le> length buff"
  shows "returns (f_write ops fp buff btw g) (\<lambda>(res, fp', bw) g'.
    let old = file_data img (fs_at g a) fp; p = unat (fp_fptr fp); n = unat (write_count fp btw) in
    win_inv dno ok img (fs_at g' a) \<and> kept img (fs_at g a) cs (fs_at g' a) \<and> unat bw \<le> n \<and>
    (if res = FR_OK then fil_inv img (fs_at g' a) fp' \<and> unat (fp_fptr fp') = p + unat bw \<and>
       (\<exists>cs'. file_chain img (fs_at g' a) (fp_sclust fp') cs' \<and> grows img (fs_at g a) cs cs') \<and>
       file_data img (fs_at g' a) fp' = take p old @ take (unat bw) buff @ drop (p + unat bw) old \<and>
       (unat bw < n \<longrightarrow> full img (fs_at g' a)) \<and> fp_fs fp' = fp_fs fp \<and> fp_id fp' = fp_id fp \<and> fp_err fp' = FR_OK \<and>
       fp_flag fp' AND NOT FA__DIRTY = (fp_flag fp OR FA__WRITTEN) AND NOT FA__DIRTY
     else (res = FR_INT_ERR \<or> res = FR_DISK_ERR) \<and> fp_err fp' = res))"
proof -
  let ?fs = "fs_at g a" and ?n = "write_count fp btw"
  have at: "unat (fp_fptr fp) \<le> unat (fp_fsize fp)" "wr_at ?fs cs fp (unat (fp_fptr fp))" and base: "fil_base img ?fs fp"
    using inv fil_at_chain [OF vol(2) ch] by (simp_all add: fil_inv_def)
  have n: "unat (0 :: u32) + unat ?n \<le> length buff" "unat (0 :: u32) + unat ?n < 2 ^ 32"
    using write_count(2) [of fp btw] room u32_less [of ?n] by simp_all
  obtain res fp' bw fs' where l: "write_file_loop ops ?n 0 fp buff ?fs = Some ((res, fp', bw), fs')"
      "block_device.write_post dno ok img ?fs fp cs ?n 0 buff (res, fp', bw) fs'"
    using block_device.write_file_loop_law [OF dev vol ch base at(2) n write_count(1)] by (auto simp: returns_iff)
  note post = l(2) [unfolded block_device.write_post_def [OF dev], simplified]
  let ?fp = "fp'\<lparr>fp_fsize := if fp_fptr fp' > fp_fsize fp' then fp_fptr fp' else fp_fsize fp', fp_flag := fp_flag fp' OR FA__WRITTEN\<rparr>"
  have f: "f_write ops fp buff btw g = Some ((res, if res = FR_OK then ?fp else fp', bw), put_fs a fs' g)"
    using v o l(1) by (simp add: f_write_def Let_def on_fs_def write_count_def)
  show ?thesis
  proof (cases "res = FR_OK")
    case False
    then show ?thesis unfolding f using post by (simp add: Let_def fs_at_put)
  next
    case True
    then obtain cs' where w: "wrote img ?fs fp cs 0 buff (unat bw) fs' (fp'\<lparr>fp_fptr := fp_fptr fp\<rparr>) cs'" using post by auto
    have k: "kept img ?fs cs fs'" using post by simp
    have lay: "vol_layout fs'" using kept_layout(1) [OF k] vol(2) by simp
    have so: "same_open fp (fp'\<lparr>fp_fptr := fp_fptr fp\<rparr>)" using w by (simp add: wrote_def)
    note sel = same_open_sel [OF so]
    have ptr: "unat (fp_fptr fp') = unat (fp_fptr fp) + unat bw" using post True by simp
    have rm: "unat bw \<le> length buff" using post n(1) by simp
    have sz: "unat (if fp_fptr fp' > fp_fsize fp' then fp_fptr fp' else fp_fsize fp') = max (unat (fp_fsize fp)) (unat (fp_fptr fp'))"
      using sel(5) by (auto simp: word_less_nat_alt)
    note d = wrote_data [OF lay w at(1) ptr rm sz refl]
    have fl: "fp_flag fp' AND NOT FA__DIRTY = fp_flag fp AND NOT FA__DIRTY" using so by (simp add: same_open_def)
    have "(fp_flag fp' OR FA__WRITTEN) AND NOT FA__DIRTY = (fp_flag fp' AND NOT FA__DIRTY) OR (FA__WRITTEN AND NOT FA__DIRTY)"
      by (rule bit_word_eqI) (auto simp: bit_simps)
    also have "\<dots> = (fp_flag fp OR FA__WRITTEN) AND NOT FA__DIRTY"
      unfolding fl by (rule bit_word_eqI) (auto simp: bit_simps)
    finally have fl2: "(fp_flag fp' OR FA__WRITTEN) AND NOT FA__DIRTY = (fp_flag fp OR FA__WRITTEN) AND NOT FA__DIRTY" .
    have "file_chain img fs' (fp_sclust ?fp) cs' \<and> grows img ?fs cs cs'" using w by (simp add: wrote_def)
    then show ?thesis
      unfolding f using True post d ptr sel fl2 o(1) by (auto simp: Let_def fs_at_put simp del: append_assoc)
  qed
qed

section \<open>Properties\<close>

text \<open>
  C13: Writing a file.  On a valid file object open for writing, on a volume in order, \<open>f_write\<close>
  returns.  With FR_OK the contents of the file are what they were with the bytes written laid
  over them from the file pointer on, extending the file when they pass its end; the pointer is
  behind them, and the object is in order again.  The chain of the file has only grown, by
  clusters that were free; fewer bytes than asked for means that no cluster is free.  Whatever the
  result, no cluster in use elsewhere lost its link, and no sector changed but those of the table,
  of the file and of free clusters.  A failure is that of the drive or a broken table, and the
  object refuses further work.
\<close>

theorem f_write_correct:
  assumes "block_device ops dno ok img" and "valid_file ops fp g = FR_OK" and "fp_fs fp = Some a"
    and "win_inv dno ok img (fs_at g a)" and "vol_layout (fs_at g a)" and "dir_layout (fs_at g a)"
    and "file_chain img (fs_at g a) (fp_sclust fp) cs" and "fil_inv img (fs_at g a) fp"
    and "fp_err fp = FR_OK" and "fp_flag fp AND FA_WRITE \<noteq> 0" and "unat btw \<le> length buff"
  shows "returns (f_write ops fp buff btw g) (\<lambda>(res, fp', bw) g'.
    let old = file_data img (fs_at g a) fp; p = unat (fp_fptr fp); n = unat (write_count fp btw) in
    win_inv dno ok img (fs_at g' a) \<and> kept img (fs_at g a) cs (fs_at g' a) \<and> unat bw \<le> n \<and>
    (if res = FR_OK then fil_inv img (fs_at g' a) fp' \<and> unat (fp_fptr fp') = p + unat bw \<and>
       (\<exists>cs'. file_chain img (fs_at g' a) (fp_sclust fp') cs' \<and> grows img (fs_at g a) cs cs') \<and>
       file_data img (fs_at g' a) fp' = take p old @ take (unat bw) buff @ drop (p + unat bw) old \<and>
       (unat bw < n \<longrightarrow> full img (fs_at g' a))
     else (res = FR_INT_ERR \<or> res = FR_DISK_ERR) \<and> fp_err fp' = res))"
  using f_write_law [OF assms] by (rule returns_mono) (auto simp: Let_def)

text \<open>The theorem on the file of 1500 bytes in the clusters 5 and 7, written from byte 100 to byte 2100.\<close>

definition edit_file :: fil where
  "edit_file = data_file\<lparr>fp_flag := FA_READ OR FA_WRITE\<rparr>"

lemma edit_file_ok: "fil_inv (\<lambda>d. d) data_vol edit_file" "file_chain (\<lambda>d. d) data_vol (fp_sclust edit_file) [5, 7]"
  "file_data (\<lambda>d. d) data_vol edit_file = file_data (\<lambda>d. d) data_vol data_file"
proof -
  have clean: "\<not> dirty edit_file" "\<not> dirty data_file" by (simp_all add: edit_file_def data_file_def FA_READ_def FA_WRITE_def FA__DIRTY_def)
  then have fd: "fdata (\<lambda>d. d) data_vol edit_file = fdata (\<lambda>d. d) data_vol data_file" by (simp add: fdata_def fun_eq_iff)
  show "fil_inv (\<lambda>d. d) data_vol edit_file"
    using data_fil_inv clean fd by (simp add: fil_inv_def fil_base_def fil_at_def) (simp add: edit_file_def)
  have "fat_entry (\<lambda>d. d) data_vol 7 = 0xFFFF"
    by (simp add: fat_entry_def fat_val_def fat_pos_def fat_bytes_def view_def data_vol_def data_disk_def demo_table_def demo_fs_def
      nth_overlay le16_def Let_def)
  then show "file_chain (\<lambda>d. d) data_vol (fp_sclust edit_file) [5, 7]"
    by (simp add: file_chain_def data_entry edit_file_def data_file_def)
  show "file_data (\<lambda>d. d) data_vol edit_file = file_data (\<lambda>d. d) data_vol data_file"
  proof -
    have "fbyte (\<lambda>d. d) data_vol edit_file = fbyte (\<lambda>d. d) data_vol data_file"
      unfolding fbyte_def fd by (simp add: edit_file_def)
    moreover have "fp_fsize edit_file = fp_fsize data_file" by (simp add: edit_file_def)
    ultimately show ?thesis by (simp only: file_data_def fbytes_def)
  qed
qed

theorem f_write_correct_witness:
  "returns (f_write ram_ops edit_file (replicate 2000 171) 2000 data_sys) (\<lambda>(res, fp', bw) g'. res = FR_OK \<longrightarrow> unat bw = 2000 \<longrightarrow>
     file_data (\<lambda>d. d) (fs_at g' 3) fp' = replicate 100 76 @ replicate 2000 171)"
proof -
  have v: "valid_file ram_ops edit_file data_sys = FR_OK"
    by (simp add: valid_file_def validate_def edit_file_def data_file_def) (simp add: data_sys_def data_vol_def demo_fs_def FS_FAT16_def ram_ops_def)
  have f: "fp_fs edit_file = Some 3" "fp_err edit_file = FR_OK" "fp_flag edit_file AND FA_WRITE \<noteq> 0" "unat (fp_fptr edit_file) = 100"
      "unat (fp_fsize data_file) = 1500"
    by (simp_all add: edit_file_def data_file_def FA_READ_def FA_WRITE_def)
  have old: "take 100 (file_data (\<lambda>d. d) data_vol data_file) = replicate 100 76"
    by (rule nth_equalityI) (simp_all add: f(5) data_bytes)
  show ?thesis
    using f_write_correct [OF ram.block_device_axioms v f(1), of 0 "[5, 7]" 2000 "replicate 2000 171"] data_vol_ok edit_file_ok f old
    by (auto simp: Let_def elim!: returns_mono)
qed

end
