(* ===== verification/Fat_Seek.thy ===== *)
theory Fat_Seek
  imports Fat_Write
begin

text \<open>
  Seeking in a file.  \<open>f_lseek\<close> is shown to move the pointer to any position inside the file,
  with the cluster and the cache that belong to it, and to leave the contents and the chain alone.
\<close>

section \<open>Cluster sizes\<close>

lemma cluster_bytes:
  assumes "dir_layout fs"
  shows "\<exists>k. k < 17 \<and> (ucast (csize fs) * 512 :: u32) = 2 ^ k" and "unat (ucast (csize fs) * 512 :: u32) = 512 * unat (csize fs)"
proof -
  obtain k where k: "k < 8" "csize fs = 2 ^ k" using assms by (auto simp: dir_layout_def)
  have "ucast (csize fs) = (2 ^ k :: u32)"
    using k by (simp add: word_unat_eq_iff unat_ucast_u8 unat_power2)
  then have "(ucast (csize fs) * 512 :: u32) = 2 ^ (k + 9)" by (simp add: power_add)
  then show "\<exists>k. k < 17 \<and> (ucast (csize fs) * 512 :: u32) = 2 ^ k" using k(1) by (intro exI [of _ "k + 9"]) simp
  show "unat (ucast (csize fs) * 512 :: u32) = 512 * unat (csize fs)"
    using u8_less [of "csize fs"] by (simp add: unat_word_ariths unat_ucast_u8)
qed

lemma clear_low_bits:
  assumes "b = 2 ^ k" and "k < 32"
  shows "unat (x AND NOT (b - 1) :: u32) = unat b * (unat x div unat b)"
proof -
  have b: "unat b = 2 ^ k" using assms by (simp add: unat_power2)
  have "x AND NOT (mask k) = push_bit k (drop_bit k x)" by (rule bit_word_eqI) (auto simp: bit_simps)
  then have e: "x AND NOT (b - 1) = push_bit k (drop_bit k x)" unfolding assms(1) by (simp add: mask_eq_exp_minus_1)
  have "2 ^ k * (unat x div 2 ^ k) \<le> unat x" by simp
  then have "2 ^ k * (unat x div 2 ^ k) < 2 ^ 32" using u32_less [of x] by linarith
  then show ?thesis
    unfolding e b unsigned_push_bit_eq unsigned_drop_bit_eq
    using u32_less [of x] by (simp add: push_bit_eq_mult drop_bit_eq_div take_bit_nat_eq_self mult.commute)
qed

section \<open>Following the chain\<close>

text \<open>A step that moves the window only, and not onto the file.\<close>

definition looked :: "('d \<Rightarrow> u32 \<Rightarrow> bytes) \<Rightarrow> u32 set \<Rightarrow> 'd fatfs \<Rightarrow> 'd fatfs \<Rightarrow> bool" where
  "looked img S fs fs' \<longleftrightarrow> quiet img S fs fs' \<and> (\<forall>t \<in> S. img (dsk fs') t = img (dsk fs) t)"

lemma looked_refl: "winsect fs \<notin> S \<Longrightarrow> looked img S fs fs"
  by (simp add: looked_def quiet_refl)

lemma looked_trans: "looked img S a b \<Longrightarrow> looked img S b c \<Longrightarrow> looked img S a c"
  unfolding looked_def using quiet_trans by fastforce

lemma looked_file:
  assumes "looked img (fsects img fs sc) fs fs'" and "vol_layout fs" and "file_chain img fs sc cs"
  shows "vol_layout fs'" and "file_chain img fs' sc cs" and "fsects img fs' sc = fsects img fs sc" and "csect fs' = csect fs" and "csize fs' = csize fs"
proof -
  have q: "quiet img (fsects img fs sc) fs fs'" using assms(1) by (simp add: looked_def)
  show "vol_layout fs'" using quiet_layout(1) [OF q] assms(2) by simp
  show "file_chain img fs' sc cs" "fsects img fs' sc = fsects img fs sc" "csect fs' = csect fs" using quiet_file [OF q assms(2,3)] by simp_all
  show "csize fs' = csize fs" using q by (simp add: quiet_def same_vol_sel)
qed

context block_device
begin

lemma follow_law:
  assumes inv: "inv fs" and lay: "vol_layout fs" and ch: "file_chain img fs sc cs" and w: "winsect fs \<notin> fsects img fs sc" and j: "Suc j < length cs"
  shows "returns (if wr then create_chain ops (cs ! j) fs else get_fat ops (cs ! j) fs)
    (\<lambda>v fs'. inv fs' \<and> looked img (fsects img fs sc) fs fs' \<and> (v = cs ! Suc j \<or> v = 0xFFFFFFFF))"
proof -
  let ?S = "fsects img fs sc"
  have m: "cs ! j \<in> set cs" "cs ! Suc j \<in> set cs" using j by simp_all
  note r = file_chain_range [OF ch m(1)] file_chain_range [OF ch m(2)]
  have e: "fat_entry img fs (cs ! j) = cs ! Suc j"
    using ch chain_link [of "fat_entry img fs" "n_fatent fs" sc cs j] j by (auto simp: file_chain_def split: if_splits)
  have S: "\<And>s. s \<in> ?S \<Longrightarrow> tracked fs s \<and> \<not> fat_area fs s" using fsects_valid [OF lay] by blast
  have g: "returns (get_fat ops (cs ! j) fs) (\<lambda>v fs'. inv fs' \<and> looked img ?S fs fs' \<and> (v = cs ! Suc j \<or> v = 0xFFFFFFFF))"
    using get_fat_quiet [OF inv lay S w, of "cs ! j"] r e by (auto simp: looked_def elim!: returns_mono)
  have c: "returns (create_chain ops (cs ! j) fs) (\<lambda>v fs'. inv fs' \<and> looked img ?S fs fs' \<and> (v = cs ! Suc j \<or> v = 0xFFFFFFFF))"
  proof -
    obtain v fs1 where c: "create_chain ops (cs ! j) fs = Some (v, fs1)" "inv fs1" "unchanged img fs fs1" "win_moved fs fs1"
        "v = cs ! Suc j \<or> v = 0xFFFFFFFF"
      using create_chain_next [OF inv lay _ _ e] r by (auto simp: returns_iff)
    have w1: "winsect fs1 \<notin> ?S" using c(4) w S [of "winsect fs1"] by (auto simp: win_moved_def tracked_def)
    have "img (dsk fs1) t = img (dsk fs) t" if "t \<in> ?S" for t
    proof -
      have "view img fs1 t = view img fs t" using c(3) S [OF that] by (simp add: unchanged_def)
      then show ?thesis using that w w1 by (auto simp: view_def split: if_split_asm)
    qed
    moreover have "quiet img ?S fs fs1" using c(3) w1 by (simp add: quiet_def unchanged_def)
    ultimately show ?thesis using c by (simp add: looked_def)
  qed
  from g c show ?thesis by simp
qed

end

text \<open>An error, or the cluster, with its start as the pointer, in which the \<open>n\<close> bytes from the start of the file end.\<close>

definition followed :: "u32 \<Rightarrow> u32 list \<Rightarrow> fil \<Rightarrow> nat \<Rightarrow> fresult option \<times> fil \<times> u32 \<times> u32 \<Rightarrow> bool" where
  "followed bcs cs fp n = (\<lambda>(err, fp', clst, ofs). err = Some FR_DISK_ERR \<or> err = None \<and>
     (\<exists>i < length cs. clst = cs ! i \<and> (\<exists>x. fp' = fp\<lparr>fp_clust := cs ! i, fp_fptr := x\<rparr> \<and> unat x = unat bcs * i) \<and>
       0 < unat ofs \<and> unat ofs \<le> unat bcs \<and> unat bcs * i + unat ofs = n))"

lemma followed_start [simp]: "followed bcs cs (fp\<lparr>fp_clust := c, fp_fptr := x\<rparr>) = followed bcs cs fp"
  by (simp add: followed_def fun_eq_iff)

context block_device
begin

text \<open>The loop ends in the cluster of the byte before the new position.\<close>

lemma seek_loop_law:
  assumes "inv fs" and "vol_layout fs" and "file_chain img fs sc cs" and "winsect fs \<notin> fsects img fs sc"
    and "unat bcs = 512 * unat (csize fs)" and "j < length cs" and "unat (fp_fptr fp) = unat bcs * j" and "fp_clust fp = cs ! j"
    and "0 < unat ofs" and "unat bcs * j + unat ofs \<le> unat bcs * length cs" and "unat bcs * j + unat ofs < 2 ^ 32"
  shows "returns (seek_loop ops bcs ofs (cs ! j) fp fs)
    (\<lambda>r fs'. inv fs' \<and> looked img (fsects img fs sc) fs fs' \<and> followed bcs cs fp (unat bcs * j + unat ofs) r)"
  using assms
proof (induction "unat ofs" arbitrary: ofs j fp fs rule: less_induct)
  case less
  note prems = less.prems
  let ?S = "fsects img fs sc"
  have C: "0 < unat bcs" using prems(2,5) by (simp add: vol_layout_def unat_gt_0)
  show ?case
  proof (cases "ofs > bcs")
    case False
    have "fp = fp\<lparr>fp_clust := cs ! j, fp_fptr := fp_fptr fp\<rparr>" using prems(8) by simp
    then have "\<exists>x. fp = fp\<lparr>fp_clust := cs ! j, fp_fptr := x\<rparr> \<and> unat x = unat bcs * j" using prems(7) by blast
    then show ?thesis
      using False prems looked_refl [OF prems(4)] by (auto simp: seek_loop.simps followed_def word_less_nat_alt)
  next
    case True
    then have gt: "unat bcs < unat ofs" by (simp add: word_less_nat_alt)
    have "unat bcs * Suc j < unat bcs * length cs" using gt prems(10) by simp
    then have j: "Suc j < length cs" using mult_less_cancel1 by blast
    obtain v fs1 where f: "(if fp_flag fp AND FA_WRITE \<noteq> 0 then create_chain ops (cs ! j) fs else get_fat ops (cs ! j) fs) = Some (v, fs1)"
        "inv fs1" "looked img ?S fs fs1" "v = cs ! Suc j \<or> v = 0xFFFFFFFF"
      using follow_law [OF prems(1-4) j, of "fp_flag fp AND FA_WRITE \<noteq> 0"] by (auto simp: returns_iff)
    note lk = looked_file [OF f(3) prems(2,3)]
    have n: "n_fatent fs1 = n_fatent fs" using f(3) by (simp add: looked_def quiet_def same_vol_sel)
    show ?thesis
    proof (cases "v = 0xFFFFFFFF")
      case err: True
      have "(0xFFFFFFFF :: u32) \<noteq> 0" by simp
      then have "seek_loop ops bcs ofs (cs ! j) fp fs = Some ((Some FR_DISK_ERR, fp, v, ofs), fs1)"
        using True f(1) err by (subst seek_loop.simps) simp
      then show ?thesis using f(2,3) by (simp add: followed_def)
    next
      case False
      then have v: "v = cs ! Suc j" using f(4) by simp
      have m: "v \<in> set cs" using v j by simp
      have r: "2 \<le> v" "v < n_fatent fs" using file_chain_range [OF prems(3) m] by simp_all
      then have r': "v \<noteq> 0" "\<not> v \<le> 1" "\<not> n_fatent fs \<le> v" by (auto simp: word_le_nat_alt word_less_nat_alt)
      let ?fp = "fp\<lparr>fp_clust := v, fp_fptr := fp_fptr fp + bcs\<rparr>"
      have step: "seek_loop ops bcs ofs (cs ! j) fp fs = seek_loop ops bcs (ofs - bcs) (cs ! Suc j) ?fp fs1"
        using True f(1) False v r r' n by (subst seek_loop.simps) simp
      have u: "unat (ofs - bcs) = unat ofs - unat bcs" using gt by (simp add: unat_sub word_le_nat_alt)
      have x: "unat (fp_fptr fp + bcs) = unat bcs * Suc j" using prems(7,11) gt by (simp add: unat_word_ariths)
      have w1: "winsect fs1 \<notin> fsects img fs1 sc" using f(3) lk(3) by (simp add: looked_def quiet_def)
      have "returns (seek_loop ops bcs (ofs - bcs) (cs ! Suc j) ?fp fs1)
        (\<lambda>r fs'. inv fs' \<and> looked img (fsects img fs1 sc) fs1 fs' \<and> followed bcs cs ?fp (unat bcs * Suc j + unat (ofs - bcs)) r)"
        by (rule less.hyps [OF _ f(2) lk(1,2) w1])
          (use u gt C prems(5,10,11) lk(5) j x v in simp_all)
      then show ?thesis
        unfolding step lk(3) using looked_trans [OF f(3)] u gt by (auto elim!: returns_mono)
    qed
  qed
qed

end

section \<open>The new position\<close>

lemma clust_irrelevant [simp]:
  "fil_base img fs (fp\<lparr>fp_clust := c\<rparr>) = fil_base img fs fp" "fdata img fs (fp\<lparr>fp_clust := c\<rparr>) = fdata img fs fp"
  "fdata img fs (fp\<lparr>fp_fptr := x\<rparr>) = fdata img fs fp"
  by (auto simp: fil_base_def fdata_def fun_eq_iff)

lemma looked_base:
  assumes "looked img (fsects img fs (fp_sclust fp)) fs fs'" and "vol_layout fs" and "file_chain img fs (fp_sclust fp) cs" and base: "fil_base img fs fp"
  shows "fil_base img fs' fp"
proof -
  note lk = looked_file [OF assms(1,2,3)]
  have "fdata img fs' fp s = fdata img fs fp s" if "s \<in> fsects img fs (fp_sclust fp)" for s
    using assms(1) that by (simp add: looked_def fdata_def)
  then show ?thesis
    unfolding fil_base_chain [OF lk(1,2)] lk(3,5) using base [unfolded fil_base_chain [OF assms(2,3)]] assms(1)
    by (auto simp: looked_def quiet_def)
qed

context block_device
begin

text \<open>The cluster and the sector of the new position.\<close>

definition sought :: "'d fatfs \<Rightarrow> fil \<Rightarrow> u32 list \<Rightarrow> u32 \<Rightarrow> fresult + u32 \<Rightarrow> fil \<Rightarrow> 'd fatfs \<Rightarrow> bool" where
  "sought fs fp cs t q fp' fs' \<longleftrightarrow> inv fs' \<and> looked img (fsects img fs (fp_sclust fp)) fs fs' \<and>
     (case q of Inl e \<Rightarrow> e = FR_DISK_ERR
      | Inr s \<Rightarrow> fp' = fp\<lparr>fp_clust := fp_clust fp', fp_fptr := t\<rparr> \<and>
          (t \<noteq> 0 \<longrightarrow> (unat t - 1) div 512 div unat (csize fs) < length cs \<and> fp_clust fp' = cs ! ((unat t - 1) div 512 div unat (csize fs))) \<and>
          (unat t mod 512 \<noteq> 0 \<longrightarrow> s = csect fs cs (unat t div 512)))"

lemma seek_to_law:
  assumes inv: "inv fs" and lay: "vol_layout fs" and dl: "dir_layout fs" and ch: "file_chain img fs (fp_sclust fp) cs" and base: "fil_base img fs fp"
    and at: "wr_at fs cs fp (unat old)" and p0: "fp_fptr fp = 0" and t: "unat t \<le> unat (fp_fsize fp)"
  shows "returns (seek_to ops t old fp fs) (\<lambda>(q, fp') fs'. sought fs fp cs t q fp' fs')"
proof (cases "t = 0")
  case True
  have w: "winsect fs \<notin> fsects img fs (fp_sclust fp)" using base by (simp add: fil_base_def)
  have "fp = fp\<lparr>fp_clust := fp_clust fp, fp_fptr := 0\<rparr>" using p0 by simp
  then show ?thesis using True inv looked_refl [OF w] by (simp add: seek_to_def sought_def)
next
  case False
  let ?C = "unat (csize fs)"
  define bcs :: u32 where "bcs = ucast (csize fs) * 512"
  obtain k where k: "k < 17" "bcs = 2 ^ k" and ub: "unat bcs = 512 * ?C" using cluster_bytes [OF dl] unfolding bcs_def by blast
  have C: "0 < ?C" using lay by (simp add: vol_layout_def unat_gt_0)
  have w: "winsect fs \<notin> fsects img fs (fp_sclust fp)" using base by (simp add: fil_base_def)
  have t0: "0 < unat t" using False by (simp add: unat_gt_0)
  have size: "unat (fp_fsize fp) \<le> unat bcs * length cs" using base fil_base_chain [OF lay ch] ub by (simp add: mult.commute mult.left_commute)
  then have ne: "cs \<noteq> []" using t t0 by auto
  then have sc: "fp_sclust fp \<noteq> 0" "fp_sclust fp = cs ! 0"
    using ch by (cases cs; auto simp: file_chain_def split: if_splits)+
  have div_b: "x div 512 div ?C = x div unat bcs" for x unfolding ub by (simp add: div_mult2_eq)
  obtain j p where st: "seek_start ops bcs t old fp fs = Some ((None, fp\<lparr>fp_clust := cs ! j, fp_fptr := p\<rparr>, cs ! j, t - p), fs)"
      "j < length cs" "unat p = unat bcs * j" "unat p < unat t"
  proof (cases "old > 0 \<and> (t - 1) div bcs \<ge> (old - 1) div bcs")
    case True
    have o: "unat (old - 1) = unat old - 1" "unat (t - 1) = unat t - 1" using True t0 by (simp_all add: unat_sub word_le_nat_alt word_less_nat_alt)
    have on: "unat old \<noteq> 0" using True by (simp add: word_less_nat_alt)
    let ?j = "(unat old - 1) div unat bcs"
    define q where "q = (old - 1) AND NOT (bcs - 1)"
    have q: "unat q = unat bcs * ?j" unfolding q_def using clear_low_bits [OF k(2)] k(1) o by simp
    have cl: "?j < length cs" "fp_clust fp = cs ! ?j" using at on div_b by (simp_all add: wr_at_def)
    have "?j \<le> (unat t - 1) div unat bcs" using True o by (simp add: word_le_nat_alt unat_div)
    then have "unat bcs * ?j \<le> unat bcs * ((unat t - 1) div unat bcs)" by (rule mult_le_mono2)
    also have "\<dots> \<le> unat t - 1" by simp
    finally have "unat q < unat t" using q t0 by simp
    moreover have "seek_start ops bcs t old fp fs = Some ((None, fp\<lparr>fp_clust := cs ! ?j, fp_fptr := q\<rparr>, cs ! ?j, t - q), fs)"
      using True cl(2) by (auto simp: seek_start_def Let_def q_def)
    ultimately show ?thesis using cl(1) q by (intro that [of q ?j]) simp_all
  next
    case False
    have "seek_start ops bcs t old fp fs = Some ((None, fp\<lparr>fp_clust := cs ! 0, fp_fptr := 0\<rparr>, cs ! 0, t - 0), fs)"
      unfolding seek_start_def if_not_P [OF False] using sc p0 by simp
    then show ?thesis using ne t0 by (intro that [of 0 0]) simp_all
  qed
  have u: "unat (t - p) = unat t - unat p" using st(4) by (simp add: unat_sub word_le_nat_alt)
  let ?fp = "fp\<lparr>fp_clust := cs ! j, fp_fptr := p\<rparr>"
  have sum: "unat bcs * j + unat (t - p) = unat t" using st(3,4) u by simp
  obtain err fp1 clst ofs fs1 where l: "seek_loop ops bcs (t - p) (cs ! j) ?fp fs = Some ((err, fp1, clst, ofs), fs1)" "inv fs1"
      "looked img (fsects img fs (fp_sclust fp)) fs fs1" "followed bcs cs fp (unat t) (err, fp1, clst, ofs)"
    using seek_loop_law [OF inv lay ch w ub st(2), of ?fp "t - p"] sum st(3,4) u t size u32_less [of t] by (auto simp: returns_iff)
  have nz: "cs ! j \<noteq> 0" using file_chain_range [OF ch, of "cs ! j"] st(2) by auto
  note run = st(1) l(1)
  show ?thesis
  proof (cases err)
    case (Some e)
    then show ?thesis using l False run nz by (simp add: seek_to_def sought_def followed_def flip: bcs_def)
  next
    case None
    then obtain i x where i: "i < length cs" "clst = cs ! i" "fp1 = fp\<lparr>fp_clust := cs ! i, fp_fptr := x\<rparr>" "unat x = unat bcs * i"
        "0 < unat ofs" "unat ofs \<le> unat bcs" "unat bcs * i + unat ofs = unat t"
      using l(4) by (auto simp: followed_def)
    have xt: "x + ofs = t" using i(4,7) u32_less [of t] by (simp add: word_unat_eq_iff unat_word_ariths)
    have e1: "(unat t - 1) div unat bcs = i"
    proof (rule div_nat_eqI)
      show "unat bcs * i \<le> unat t - 1" using i(5,7) by linarith
      show "unat t - 1 < unat bcs * Suc i" using i(5,6,7) by simp
    qed
    have tm: "unat t mod 512 = unat ofs mod 512"
      unfolding i(7) [symmetric] ub mult.assoc by simp
    have cr: "2 \<le> cs ! i" "cs ! i < n_fatent fs" using file_chain_range [OF ch, of "cs ! i"] i(1) by auto
    have sv: "same_vol fs fs1" using l(3) by (simp add: looked_def quiet_def)
    have cz: "clust2sect fs1 (cs ! i) = clust2sect fs (cs ! i)" using clust2sect_same_vol [OF sv] by simp
    have nz2: "clust2sect fs (cs ! i) \<noteq> 0" by (rule clust2sect_nonzero [OF lay cr])
    have sect: "clust2sect fs (cs ! i) + ofs div 512 = csect fs cs (unat t div 512)" if "unat t mod 512 \<noteq> 0"
    proof -
      have "unat ofs \<noteq> unat bcs" using that tm ub by auto
      then have lt: "unat ofs div 512 < ?C" using i(6) ub by (simp add: div_less_iff_less_mult mult.commute)
      have "unat t div 512 = ?C * i + unat ofs div 512"
        unfolding i(7) [symmetric] ub mult.assoc by simp
      then have "unat t div 512 div ?C = i" "unat t div 512 mod ?C = unat ofs div 512" using lt by simp_all
      then show ?thesis by (simp add: csect_def u32_div512)
    qed
    have om: "ofs mod 512 = 0 \<longleftrightarrow> unat t mod 512 = 0" unfolding tm by (metis u32_div512(2) unat_eq_0)
    have "fp\<lparr>fp_clust := cs ! i, fp_fptr := t\<rparr> = fp1\<lparr>fp_fptr := fp_fptr fp1 + ofs\<rparr>" using i(3) xt by simp
    then have "seek_to ops t old fp fs = Some ((if unat t mod 512 = 0 then Inr 0 else Inr (clust2sect fs (cs ! i) + ofs div 512),
        fp\<lparr>fp_clust := cs ! i, fp_fptr := t\<rparr>), fs1)"
      using False run nz None i(2) om cz nz2 by (simp add: seek_to_def Let_def flip: bcs_def)
    then show ?thesis
      using l(2,3) i(1) e1 sect by (simp add: sought_def div_b)
  qed
qed

end

section \<open>Seeking inside the file\<close>

lemma flush_buf_open: "flush_buf ops fp fs = Some ((ok, fp'), fs') \<Longrightarrow> same_open fp fp'"
proof -
  have "(x AND NOT FA__DIRTY) AND NOT FA__DIRTY = x AND NOT FA__DIRTY" for x :: u8 by (simp add: and.assoc)
  then show "flush_buf ops fp fs = Some ((ok, fp'), fs') \<Longrightarrow> same_open fp fp'"
    by (auto simp: flush_buf_def same_open_def Let_def bind_eq_Some_conv split: if_splits)
qed

lemma fill_buf_open: "fill_buf ops sect fp fs = Some ((ok, fp'), fs') \<Longrightarrow> same_open fp fp'"
  by (auto simp: fill_buf_def same_open_def bind_eq_Some_conv)

text \<open>The contents in a file whose cache was not touched.\<close>

lemma looked_data:
  assumes "looked img (fsects img fs (fp_sclust fp)) fs fs'" and "vol_layout fs" and "fil_base img fs fp"
  shows "file_data img fs' (fp\<lparr>fp_clust := c\<rparr>) = file_data img fs fp"
proof -
  have "fp\<lparr>fp_clust := c\<rparr> = fp\<lparr>fp_flag := fp_flag fp, fp_clust := c, fp_dsect := fp_dsect fp, fp_buf := fp_buf fp\<rparr>" by simp
  then have "\<exists>fl c' d b. fp\<lparr>fp_clust := c\<rparr> = fp\<lparr>fp_flag := fl, fp_clust := c', fp_dsect := d, fp_buf := b\<rparr>" by blast
  then have "same_file img fs fp fs' (fp\<lparr>fp_clust := c\<rparr>)"
    using assms(1) unfolding same_file_def by (simp add: looked_def) (simp add: fdata_def)
  then show ?thesis using same_file_data assms(2,3) by blast
qed

definition seek_target :: "fil \<Rightarrow> u32 \<Rightarrow> u32" where
  "seek_target fp ofs = (if ofs > fp_fsize fp \<and> fp_flag fp AND FA_WRITE = 0 then fp_fsize fp else ofs)"

context block_device
begin

definition seek_post :: "'d fatfs \<Rightarrow> fil \<Rightarrow> u32 list \<Rightarrow> u32 \<Rightarrow> fresult \<times> fil \<Rightarrow> 'd fatfs \<Rightarrow> bool" where
  "seek_post fs fp cs t = (\<lambda>(res, fp') fs'. inv fs' \<and> quiet img (fsects img fs (fp_sclust fp)) fs fs' \<and>
     (if res = FR_OK then fil_inv img fs' fp' \<and> fp_fptr fp' = t \<and> file_data img fs' fp' = file_data img fs fp \<and>
        file_chain img fs' (fp_sclust fp') cs \<and> same_open fp (fp'\<lparr>fp_fptr := fp_fptr fp\<rparr>)
      else res = FR_DISK_ERR \<and> fp_err fp' = FR_DISK_ERR))"

lemma seek_load:
  assumes "inv fs" and lay: "vol_layout fs" and ch: "file_chain img fs (fp_sclust fp) cs" and base: "fil_base img fs fp"
    and fs1: "inv fs1" "looked img (fsects img fs (fp_sclust fp)) fs fs1"
    and t: "unat t \<le> unat (fp_fsize fp)" and at: "unat t mod 512 \<noteq> 0 \<Longrightarrow> s = csect fs cs (unat t div 512)"
    and cl: "t \<noteq> 0 \<Longrightarrow> (unat t - 1) div 512 div unat (csize fs) < length cs \<and> c = cs ! ((unat t - 1) div 512 div unat (csize fs))"
    and fp1: "fp1 = fp\<lparr>fp_clust := c, fp_fptr := t\<rparr>"
  shows "returns (do { ((ok, fp), fs) \<leftarrow> (if fp_fptr fp1 mod 512 \<noteq> 0 \<and> s \<noteq> fp_dsect fp1 then do {
             ((ok, fp), fs) \<leftarrow> flush_buf ops fp1 fs1;
             if ok then do {
               ((ok, fp), fs) \<leftarrow> fill_buf ops s fp fs;
               Some ((ok, if ok then fp\<lparr>fp_dsect := s\<rparr> else fp), fs) }
             else Some ((False, fp), fs) }
           else Some ((True, fp1), fs1));
         if \<not> ok then Some ((FR_DISK_ERR, fp\<lparr>fp_err := FR_DISK_ERR\<rparr>), fs)
         else if fp_fptr fp > fp_fsize fp
         then Some ((FR_OK, fp\<lparr>fp_fsize := fp_fptr fp, fp_flag := fp_flag fp OR FA__WRITTEN\<rparr>), fs)
         else Some ((FR_OK, fp), fs) }) (seek_post fs fp cs t)"
proof -
  let ?S = "fsects img fs (fp_sclust fp)"
  note lk = looked_file [OF fs1(2) lay ch]
  have base1: "fil_base img fs1 fp1" using looked_base [OF fs1(2) lay ch base] by (simp add: fp1)
  have data1: "file_data img fs1 fp1 = file_data img fs fp" using looked_data [OF fs1(2) lay base] by (simp add: fp1)
  have q1: "quiet img ?S fs fs1" using fs1(2) by (simp add: looked_def)
  have sel1: "fp_sclust fp1 = fp_sclust fp" "fp_fsize fp1 = fp_fsize fp" "fp_fptr fp1 = t" "fp_clust fp1 = c" by (simp_all add: fp1)
  have so1: "same_open fp (fp1\<lparr>fp_fptr := fp_fptr fp\<rparr>)" by (simp add: fp1 same_open_def)
  have um: "fp_fptr fp1 mod 512 = 0 \<longleftrightarrow> unat t mod 512 = 0" unfolding sel1 by (metis u32_div512(2) unat_eq_0)
  have at1: "wr_at fs cs fp2 (unat t)" if "fp_clust fp2 = c" "unat t mod 512 \<noteq> 0 \<Longrightarrow> fp_dsect fp2 = s" for fp2
    using cl at that by (auto simp: wr_at_def unat_gt_0)
  show ?thesis
  proof (cases "fp_fptr fp1 mod 512 \<noteq> 0 \<and> s \<noteq> fp_dsect fp1")
    case False
    have "wr_at fs1 cs fp1 (unat t)"
      using at1 [of fp1] sel1(4) False um by (auto simp: wr_at_def lk(4,5))
    then have "fil_at img fs1 fp1 (unat t)" using fil_at_chain [of fs1 img fp1 cs] lk t by (simp add: sel1)
    then show ?thesis
      unfolding if_not_P [OF False] using fs1(1) q1 base1 data1 so1 lk(2) t by (simp add: seek_post_def fil_inv_def sel1 word_less_nat_alt not_less)
  next
    case True
    have "fsect img fs (fp_sclust fp) (unat t div 512) \<noteq> None"
    proof -
      have "512 * (unat t div 512) < unat t" using True um mult_div_mod_eq [of 512 "unat t"] by linarith
      then show ?thesis using base t by (simp add: fil_base_def)
    qed
    then have s: "s \<in> ?S" using at True um by (auto simp: fsects_def file_sect [OF lay ch] split: if_splits)
    then have s1: "s \<in> fsects img fs1 (fp_sclust fp1)" using lk(3) by (simp add: sel1)
    from load_cache [OF fs1(1) lk(1) base1 s1] True obtain q2 fp2 fs2 where
      l: "do { ((ok, fp), fs) \<leftarrow> flush_buf ops fp1 fs1; if ok then fill_buf ops s fp fs else Some ((False, fp), fs) } = Some ((q2, fp2), fs2)"
        "inv fs2" "quiet img (fsects img fs1 (fp_sclust fp1)) fs1 fs2"
        "q2 \<longrightarrow> fp_clust fp2 = fp_clust fp1 \<and> same_file img fs1 fp1 fs2 (fp2\<lparr>fp_dsect := s\<rparr>) \<and> fil_base img fs2 (fp2\<lparr>fp_dsect := s\<rparr>)"
      by (auto simp: returns_iff)
    let ?fp = "if q2 then fp2\<lparr>fp_dsect := s\<rparr> else fp2"
    have run: "(if fp_fptr fp1 mod 512 \<noteq> 0 \<and> s \<noteq> fp_dsect fp1 then do {
             ((ok, fp), fs) \<leftarrow> flush_buf ops fp1 fs1;
             if ok then do {
               ((ok, fp), fs) \<leftarrow> fill_buf ops s fp fs;
               Some ((ok, if ok then fp\<lparr>fp_dsect := s\<rparr> else fp), fs) }
             else Some ((False, fp), fs) }
           else Some ((True, fp1), fs1)) = Some ((q2, ?fp), fs2)"
    proof -
      obtain ok1 fpa fsa where "flush_buf ops fp1 fs1 = Some ((ok1, fpa), fsa)" using l(1) by (cases "flush_buf ops fp1 fs1") auto
      then show ?thesis using l(1) unfolding if_P [OF True] by (cases ok1) simp_all
    qed
    have q2: "quiet img ?S fs fs2" using quiet_trans [OF q1] l(3) lk(3) by (simp add: sel1)
    show ?thesis
    proof (cases q2)
      case False
      then show ?thesis unfolding run using l(2) q2 by (simp add: seek_post_def)
    next
      case ok: True
      let ?fp2 = "fp2\<lparr>fp_dsect := s\<rparr>"
      have f2: "same_file img fs1 fp1 fs2 ?fp2" "fil_base img fs2 ?fp2" "fp_clust fp2 = c" using l(4) ok by (simp_all add: sel1)
      note sel2 = same_file_sel [OF f2(1)]
      have open2: "same_open fp1 fp2"
        using l(1) by (auto simp: bind_eq_Some_conv split: if_splits dest!: flush_buf_open fill_buf_open intro: same_open_trans)
      note q = quiet_file [OF q2 lay ch]
      have lay2: "vol_layout fs2" using quiet_layout(1) [OF q2] lay by simp
      have cz: "csize fs2 = csize fs" using q2 by (simp add: quiet_def same_vol_sel)
      have ch2: "file_chain img fs2 (fp_sclust ?fp2) cs" using q(1) sel2(1) by (simp add: sel1)
      have "wr_at fs cs ?fp2 (unat t)" using f2(3) by (intro at1) simp_all
      then have "wr_at fs2 cs ?fp2 (unat t)" by (simp add: wr_at_def cz q)
      then have "fil_inv img fs2 ?fp2"
        using f2(2) fil_at_chain [OF lay2 ch2] sel2(2,3) t by (simp add: fil_inv_def sel1)
      moreover have "file_data img fs2 ?fp2 = file_data img fs fp"
        using same_file_data [OF f2(1) lk(1) base1] data1 by simp
      moreover have "same_open fp (?fp2\<lparr>fp_fptr := fp_fptr fp\<rparr>)"
        using so1 open2 unfolding same_open_def fp1 by (cases fp; cases fp2) simp
      ultimately show ?thesis
        unfolding run using ok l(2) q2 ch2 t sel2(2,3) by (simp add: seek_post_def sel1 word_less_nat_alt not_less)
    qed
  qed
qed

lemma seek_file_law:
  assumes "inv fs" and lay: "vol_layout fs" and dl: "dir_layout fs" and ch: "file_chain img fs (fp_sclust fp) cs" and finv: "fil_inv img fs fp"
    and t: "seek_target fp ofs \<le> fp_fsize fp"
  shows "returns (seek_file ops ofs fp fs) (seek_post fs fp cs (seek_target fp ofs))"
proof -
  let ?t = "seek_target fp ofs" and ?fp = "fp\<lparr>fp_fptr := 0\<rparr>"
  have base: "fil_base img fs fp" and at: "wr_at fs cs fp (unat (fp_fptr fp))"
    using finv fil_at_chain [OF lay ch] by (simp_all add: fil_inv_def)
  have le: "unat ?t \<le> unat (fp_fsize fp)" using t by (simp add: word_le_nat_alt)
  have "returns (seek_to ops ?t (fp_fptr fp) ?fp fs) (\<lambda>(q, fp') fs'. sought fs ?fp cs ?t q fp' fs')"
    by (rule seek_to_law) (use assms base at le in \<open>simp_all add: wr_at_def\<close>)
  then obtain q fp1 fs1 where s: "seek_to ops ?t (fp_fptr fp) ?fp fs = Some ((q, fp1), fs1)" "sought fs ?fp cs ?t q fp1 fs1"
    by (auto simp: returns_iff)
  have run: "seek_file ops ofs fp fs = (case q of Inl e \<Rightarrow> Some ((e, fp1\<lparr>fp_err := e\<rparr>), fs1)
     | Inr nsect \<Rightarrow> do {
         ((ok, fp), fs) \<leftarrow> (if fp_fptr fp1 mod 512 \<noteq> 0 \<and> nsect \<noteq> fp_dsect fp1 then do {
             ((ok, fp), fs) \<leftarrow> flush_buf ops fp1 fs1;
             if ok then do {
               ((ok, fp), fs) \<leftarrow> fill_buf ops nsect fp fs;
               Some ((ok, if ok then fp\<lparr>fp_dsect := nsect\<rparr> else fp), fs) }
             else Some ((False, fp), fs) }
           else Some ((True, fp1), fs1));
         if \<not> ok then Some ((FR_DISK_ERR, fp\<lparr>fp_err := FR_DISK_ERR\<rparr>), fs)
         else if fp_fptr fp > fp_fsize fp
         then Some ((FR_OK, fp\<lparr>fp_fsize := fp_fptr fp, fp_flag := fp_flag fp OR FA__WRITTEN\<rparr>), fs)
         else Some ((FR_OK, fp), fs) })"
    using s(1) unfolding seek_file_def seek_target_def [symmetric] Let_def by (simp only: bind.bind_lunit prod.case)
  show ?thesis
  proof (cases q)
    case (Inl e)
    then show ?thesis unfolding run using s(2) by (simp add: sought_def seek_post_def looked_def)
  next
    case (Inr sect)
    have so: "inv fs1" "looked img (fsects img fs (fp_sclust fp)) fs fs1" "fp1 = fp\<lparr>fp_clust := fp_clust fp1, fp_fptr := ?t\<rparr>"
        "?t \<noteq> 0 \<Longrightarrow> (unat ?t - 1) div 512 div unat (csize fs) < length cs \<and> fp_clust fp1 = cs ! ((unat ?t - 1) div 512 div unat (csize fs))"
        "unat ?t mod 512 \<noteq> 0 \<Longrightarrow> sect = csect fs cs (unat ?t div 512)"
      using s(2) Inr by (simp_all add: sought_def)
    show ?thesis
      unfolding run Inr sum.case by (rule seek_load [OF assms(1) lay ch base so(1,2) le so(5,4,3)])
  qed
qed

end

lemma f_lseek_law:
  assumes dev: "block_device ops dno ok img" and v: "valid_file ops fp g = FR_OK" "fp_fs fp = Some a"
    and vol: "win_inv dno ok img (fs_at g a)" "vol_layout (fs_at g a)" "dir_layout (fs_at g a)"
    and ch: "file_chain img (fs_at g a) (fp_sclust fp) cs" and inv: "fil_inv img (fs_at g a) fp" and o: "fp_err fp = FR_OK"
    and t: "seek_target fp ofs \<le> fp_fsize fp"
  shows "returns (f_lseek ops fp ofs g) (\<lambda>(res, fp') g'. win_inv dno ok img (fs_at g' a) \<and>
    quiet img (fsects img (fs_at g a) (fp_sclust fp)) (fs_at g a) (fs_at g' a) \<and>
    (if res = FR_OK then fil_inv img (fs_at g' a) fp' \<and> fp_fptr fp' = seek_target fp ofs \<and>
       file_data img (fs_at g' a) fp' = file_data img (fs_at g a) fp \<and> file_chain img (fs_at g' a) (fp_sclust fp') cs \<and>
       same_open fp (fp'\<lparr>fp_fptr := fp_fptr fp\<rparr>)
     else res = FR_DISK_ERR \<and> fp_err fp' = FR_DISK_ERR))"
proof -
  obtain res fp' fs' where l: "seek_file ops ofs fp (fs_at g a) = Some ((res, fp'), fs')"
      "block_device.seek_post dno ok img (fs_at g a) fp cs (seek_target fp ofs) (res, fp') fs'"
    using block_device.seek_file_law [OF dev vol ch inv t] by (auto simp: returns_iff)
  have f: "f_lseek ops fp ofs g = Some ((res, fp'), put_fs a fs' g)"
    using v o l(1) by (simp add: f_lseek_def Let_def on_fs_def)
  show ?thesis
    unfolding f using l(2) [unfolded block_device.seek_post_def [OF dev], simplified] by (auto simp: fs_at_put)
qed

section \<open>Properties\<close>

text \<open>
  C16: Seeking.  On a valid file object, to a position inside the file (a position behind the end is
  the end for a file that is only read), \<open>f_lseek\<close> returns.  With FR_OK the pointer is the
  position asked for, the object is in order there (its cluster and its cache are those of the
  position, whether the chain was followed from the old position or from the start), and the
  contents and the chain of the file are what they were.  Nothing but the sectors of the file was
  changed on the volume.  A failure is that of the drive, and the object refuses further work.
\<close>

theorem f_lseek_correct:
  assumes "block_device ops dno ok img" and "valid_file ops fp g = FR_OK" and "fp_fs fp = Some a"
    and "win_inv dno ok img (fs_at g a)" and "vol_layout (fs_at g a)" and "dir_layout (fs_at g a)"
    and "file_chain img (fs_at g a) (fp_sclust fp) cs" and "fil_inv img (fs_at g a) fp" and "fp_err fp = FR_OK"
    and "seek_target fp ofs \<le> fp_fsize fp"
  shows "returns (f_lseek ops fp ofs g) (\<lambda>(res, fp') g'. win_inv dno ok img (fs_at g' a) \<and>
    quiet img (fsects img (fs_at g a) (fp_sclust fp)) (fs_at g a) (fs_at g' a) \<and>
    (if res = FR_OK then fil_inv img (fs_at g' a) fp' \<and> fp_fptr fp' = seek_target fp ofs \<and>
       file_data img (fs_at g' a) fp' = file_data img (fs_at g a) fp \<and> file_chain img (fs_at g' a) (fp_sclust fp') cs \<and>
       same_open fp (fp'\<lparr>fp_fptr := fp_fptr fp\<rparr>)
     else res = FR_DISK_ERR \<and> fp_err fp' = FR_DISK_ERR))"
  by (rule f_lseek_law [OF assms])

text \<open>The theorem on the file of 1500 bytes, from byte 100 to byte 1100 in its second cluster.\<close>

theorem f_lseek_correct_witness:
  "returns (f_lseek ram_ops edit_file 1100 data_sys) (\<lambda>(res, fp') g'. res = FR_OK \<longrightarrow> fp_fptr fp' = 1100 \<and>
     drop 1100 (file_data (\<lambda>d. d) (fs_at g' 3) fp') = replicate 400 80)"
proof -
  have v: "valid_file ram_ops edit_file data_sys = FR_OK"
    by (simp add: valid_file_def validate_def edit_file_def data_file_def) (simp add: data_sys_def data_vol_def demo_fs_def FS_FAT16_def ram_ops_def)
  have f: "fp_fs edit_file = Some 3" "fp_err edit_file = FR_OK" "seek_target edit_file 1100 = 1100" "1100 \<le> fp_fsize edit_file"
      "unat (fp_fsize data_file) = 1500"
    by (simp_all add: edit_file_def data_file_def seek_target_def FA_READ_def FA_WRITE_def)
  have rest: "drop 1100 (file_data (\<lambda>d. d) data_vol data_file) = replicate 400 80"
    by (rule nth_equalityI) (simp_all add: f(5) data_bytes)
  show ?thesis
    using f_lseek_correct [OF ram.block_device_axioms v f(1), of 0 "[5, 7]" 1100] data_vol_ok edit_file_ok f rest
    by (auto elim!: returns_mono)
qed

end
