(* ===== verification/Fat_Sync.thy ===== *)
theory Fat_Sync
  imports Fat_Seek
begin

text \<open>
  Flushing a file.  After \<open>f_sync\<close> the drive itself holds the file: its bytes in the sectors
  of its chain, its size and its first cluster in its directory entry, with nothing left in the
  cache of the object or in the window of the volume.
\<close>

section \<open>The directory entry\<close>

text \<open>What \<open>store_entry\<close> makes of the sector \<open>w\<close> with the entry at \<open>p\<close>.\<close>

definition entry_stored :: "'d fatfs \<Rightarrow> fil \<Rightarrow> nat \<Rightarrow> bytes \<Rightarrow> bytes \<Rightarrow> bool" where
  "entry_stored fs fp p w w' \<longleftrightarrow> length w' = 512 \<and>
     LD_DWORD (p + DIR_FileSize) w' = Some (fp_fsize fp) \<and>
     ld_clust (fs\<lparr>win := w'\<rparr>) p = Some (if fs_type fs = FS_FAT32 then fp_sclust fp else fp_sclust fp AND 0xFFFF) \<and>
     w' ! (p + DIR_Attr) = w ! (p + DIR_Attr) OR AM_ARC \<and>
     (\<forall>i < 512. i < p + DIR_Attr \<or> p + 32 \<le> i \<longrightarrow> w' ! i = w ! i)"

lemma store_entry_law:
  assumes w: "length w = 512" and p: "p + 32 \<le> 512"
  shows "\<exists>w'. store_entry p fp w = Some w' \<and> entry_stored fs fp p w w'"
proof -
  let ?w1 = "w[p + DIR_Attr := w ! (p + DIR_Attr) OR AM_ARC]"
  let ?w2 = "overlay (p + DIR_FileSize) (bytes_le32 (fp_fsize fp)) ?w1"
  obtain w3 where s: "st_clust p (fp_sclust fp) ?w2 = Some w3"
      "w3 = overlay (p + DIR_FstClusHI) (bytes_le16 (ucast (drop_bit 16 (fp_sclust fp)))) (overlay (p + DIR_FstClusLO) (bytes_le16 (ucast (fp_sclust fp))) ?w2)"
    using w p by (simp add: st_clust_def ST_WORD_in DIR_FstClusLO_def DIR_FstClusHI_def DIR_FileSize_def)
  let ?w4 = "overlay (p + DIR_WrtTime) (bytes_le32 GET_FATTIME) w3"
  let ?w' = "overlay (p + DIR_LstAccDate) (bytes_le16 0) ?w4"
  have l2: "length ?w2 = 512" using w p by (simp add: DIR_FileSize_def)
  have l3: "length w3 = 512" using w p unfolding s(2) by (simp add: DIR_FstClusLO_def DIR_FstClusHI_def DIR_FileSize_def)
  have l4: "length ?w4 = 512" using l3 p by (simp add: DIR_WrtTime_def)
  have run: "store_entry p fp w = Some ?w'"
    using w p s(1) l2 l3 l4
    by (simp add: store_entry_def get_at_in put_at_in ST_WORD_in ST_DWORD_in DIR_Attr_def DIR_FileSize_def DIR_WrtTime_def DIR_LstAccDate_def)
  have l: "length ?w' = 512" using l4 p by (simp add: DIR_LstAccDate_def)
  have size: "LD_DWORD (p + DIR_FileSize) ?w' = Some (fp_fsize fp)"
    using w p l2 l3 l4 unfolding s(2)
    by (simp add: LD_DWORD_other LD_ST_DWORD DIR_FstClusLO_def DIR_FstClusHI_def DIR_FileSize_def DIR_WrtTime_def DIR_LstAccDate_def)
  have clust: "ld_clust (fs\<lparr>win := ?w'\<rparr>) p = Some (if fs_type fs = FS_FAT32 then fp_sclust fp else fp_sclust fp AND 0xFFFF)"
  proof -
    have "ld_clust (fs\<lparr>win := ?w'\<rparr>) p = ld_clust (fs\<lparr>win := w3\<rparr>) p"
      using p l3 l4 by (simp add: ld_clust_def LD_WORD_other DIR_FstClusLO_def DIR_FstClusHI_def DIR_WrtTime_def DIR_LstAccDate_def cong: if_cong)
    also have "\<dots> = ld_clust (fs\<lparr>win := ?w2, win := w3\<rparr>) p" by simp
    also have "\<dots> = Some (if fs_type fs = FS_FAT32 then fp_sclust fp else fp_sclust fp AND 0xFFFF)"
      using clust_roundtrip [of p "fs\<lparr>win := ?w2\<rparr>" "fp_sclust fp" w3] s(1) l2 p by simp
    finally show ?thesis .
  qed
  have attr: "?w' ! (p + DIR_Attr) = w ! (p + DIR_Attr) OR AM_ARC"
    using w p l2 l3 l4 unfolding s(2)
    by (simp add: nth_overlay DIR_Attr_def DIR_FstClusLO_def DIR_FstClusHI_def DIR_FileSize_def DIR_WrtTime_def DIR_LstAccDate_def)
  have rest: "?w' ! i = w ! i" if "i < 512" "i < p + DIR_Attr \<or> p + 32 \<le> i" for i
    using w p l2 l3 l4 that unfolding s(2)
    by (auto simp: nth_overlay DIR_Attr_def DIR_FstClusLO_def DIR_FstClusHI_def DIR_FileSize_def DIR_WrtTime_def DIR_LstAccDate_def)
  show ?thesis using run l size clust attr rest unfolding entry_stored_def by blast
qed

section \<open>Volumes with the same table\<close>

lemma table_same:
  assumes g: "geom fs' = geom fs" and lay: "vol_layout fs" and v: "\<And>t. tracked fs t \<Longrightarrow> fat_area fs t \<Longrightarrow> view img fs' t = view img fs t"
    and ch: "file_chain img fs sc cs"
  shows "vol_layout fs'" and "file_chain img fs' sc cs" and "fsect img fs' sc = fsect img fs sc" and "fsects img fs' sc = fsects img fs sc"
proof -
  note sel = geom_sel [OF g]
  show lay': "vol_layout fs'" using lay sel by simp
  have e: "fat_entry img fs' c = fat_entry img fs c" if "c < n_fatent fs" for c
  proof (rule fat_entry_bytes [OF lay that])
    show "fs_type fs' = fs_type fs" by (rule sel)
    fix k assume k: "k < 512 * unat (fsize fs)"
    show "fat_bytes img fs' k = fat_bytes img fs k"
      using v [OF fat_sector_tracked [OF lay k] table_sector_area [OF lay k]] by (simp add: fat_bytes_def sel)
  qed
  then show ch': "file_chain img fs' sc cs"
    using ch fat_chain_range by (auto simp: file_chain_def sel intro: fat_chain_cong split: if_splits)
  show f: "fsect img fs' sc = fsect img fs sc"
    by (intro ext) (simp add: file_sect [OF lay ch] file_sect [OF lay' ch'] csect_geom [OF g] sel)
  show "fsects img fs' sc = fsects img fs sc" by (simp add: fsects_def f)
qed

lemma sync_fs_winsect:
  "sync_fs ops f = Some (r, f') \<Longrightarrow> winsect f' = winsect f \<or> fs_type f = FS_FAT32 \<and> winsect f' = volbase f + 1"
proof -
  have k: "sync_window ops f = Some (x, f1) \<Longrightarrow> winsect f1 = winsect f \<and> volbase f1 = volbase f \<and> fs_type f1 = fs_type f" for x f1
  proof -
    have "mirror_loop ops n w g = Some (u, g') \<Longrightarrow> winsect g' = winsect g \<and> volbase g' = volbase g \<and> fs_type g' = fs_type g" for n w g u g'
      by (induction n arbitrary: w g) (auto simp: bind_eq_Some_conv Let_def split: prod.splits)
    then show "sync_window ops f = Some (x, f1) \<Longrightarrow> ?thesis"
      by (fastforce simp: sync_window_def bind_eq_Some_conv Let_def split: if_splits)
  qed
  show "sync_fs ops f = Some (r, f') \<Longrightarrow> ?thesis"
    by (auto simp: sync_fs_def bind_eq_Some_conv Let_def dest!: k split: if_splits prod.splits)
qed

section \<open>Flushing\<close>

text \<open>The place of the directory entry of an open file.\<close>

definition entry_place :: "('d \<Rightarrow> u32 \<Rightarrow> bytes) \<Rightarrow> 'd fatfs \<Rightarrow> fil \<Rightarrow> nat \<Rightarrow> bool" where
  "entry_place img fs fp p \<longleftrightarrow> fp_dir_ptr fp = Some p \<and> p + 32 \<le> 512 \<and> tracked fs (fp_dir_sect fp) \<and>
     \<not> fat_area fs (fp_dir_sect fp) \<and> fp_dir_sect fp \<notin> fsects img fs (fp_sclust fp)"

text \<open>The drive holds what FatFs saw, with the file and its entry written out.\<close>

definition written_out :: "('d \<Rightarrow> u32 \<Rightarrow> bytes) \<Rightarrow> 'd fatfs \<Rightarrow> fil \<Rightarrow> nat \<Rightarrow> 'd fatfs \<Rightarrow> bool" where
  "written_out img fs fp p fs' \<longleftrightarrow> geom fs' = geom fs \<and> wflag fs' = 0 \<and>
     (\<forall>s \<in> fsects img fs (fp_sclust fp). img (dsk fs') s = fdata img fs fp s) \<and>
     entry_stored fs fp p (view img fs (fp_dir_sect fp)) (img (dsk fs') (fp_dir_sect fp)) \<and>
     (\<forall>t. tracked fs t \<longrightarrow> t \<notin> fsects img fs (fp_sclust fp) \<longrightarrow> t \<noteq> fp_dir_sect fp \<longrightarrow> img (dsk fs') t = view img fs t) \<and>
     (\<forall>t. tracked fs t \<longrightarrow> view img fs' t = img (dsk fs') t) \<and> winsect fs' \<notin> fsects img fs (fp_sclust fp)"

context block_device
begin

lemma sync_file_law:
  assumes "inv fs" and lay: "vol_layout fs" and base: "fil_base img fs fp" and new: "fp_flag fp AND FA__WRITTEN \<noteq> 0" and pl: "entry_place img fs fp p"
  shows "returns (sync_file ops fp fs) (\<lambda>(res, fp') fs'. res \<in> {FR_OK, FR_DISK_ERR} \<and> inv fs' \<and>
    (res = FR_OK \<longrightarrow> written_out img fs fp p fs' \<and>
       (\<exists>fl. fp' = fp\<lparr>fp_flag := fl\<rparr> \<and> fl AND FA__DIRTY = 0 \<and> fl AND FA__WRITTEN = 0)))"
proof -
  let ?S = "fsects img fs (fp_sclust fp)" and ?ds = "fp_dir_sect fp"
  have b: "length (fp_buf fp) = 512" "winsect fs \<notin> ?S" "dirty fp \<Longrightarrow> fp_dsect fp \<in> ?S" using base by (simp_all add: fil_base_def)
  have pl': "fp_dir_ptr fp = Some p" "p + 32 \<le> 512" "tracked fs ?ds" "?ds \<notin> ?S" using pl by (simp_all add: entry_place_def)
  obtain q fs1 fl where fl: "flush_buf ops fp fs = Some ((q, fp\<lparr>fp_flag := fl\<rparr>), fs1)" "inv fs1" "quiet img ?S fs fs1"
      "fdata img fs1 (fp\<lparr>fp_flag := fl\<rparr>) = fdata img fs fp" "q \<longrightarrow> fl AND FA__DIRTY = 0"
    using flush_buf_law [OF assms(1) b(1,2,3)] by (auto simp: returns_iff)
  show ?thesis
  proof (cases q)
    case False
    then show ?thesis using new fl by (simp add: sync_file_def)
  next
    case q: True
    have sv1: "same_vol fs fs1" using fl(3) by (simp add: quiet_def)
    obtain r fs2 where mv: "move_window ops ?ds fs1 = Some (r, fs2)" "r \<in> {FR_OK, FR_DISK_ERR}" "inv fs2" "same_vol fs1 fs2"
        "\<forall>t. tracked fs1 t \<longrightarrow> view img fs2 t = view img fs1 t" "r = FR_OK \<longrightarrow> winsect fs2 = ?ds \<and> (tracked fs1 ?ds \<longrightarrow> win fs2 = view img fs1 ?ds)"
      using move_window_law [OF fl(2), of ?ds] by (auto simp: returns_iff)
    show ?thesis
    proof (cases "r = FR_OK")
      case False
      then show ?thesis using new fl q mv by (simp add: sync_file_def)
    next
      case True
      have tr: "tracked fs1 = tracked fs" "tracked fs2 = tracked fs" using same_vol_sel(18) [OF sv1] same_vol_sel(18) [OF mv(4)] by simp_all
      have w: "winsect fs2 = ?ds" "win fs2 = view img fs ?ds" "length (win fs2) = 512"
        using mv(3,6) True tr pl' fl(3) by (simp_all add: quiet_def win_inv_def)
      obtain w' where st: "store_entry p (fp\<lparr>fp_flag := fl\<rparr>) (win fs2) = Some w'" "entry_stored fs (fp\<lparr>fp_flag := fl\<rparr>) p (win fs2) w'"
        using store_entry_law [OF w(3) pl'(2)] by blast
      have lw: "length w' = 512" using st(2) by (simp add: entry_stored_def)
      let ?fs3 = "fs2\<lparr>win := w', wflag := 1\<rparr>" and ?fp = "fp\<lparr>fp_flag := fl AND NOT FA__WRITTEN\<rparr>"
      have inv3: "inv ?fs3" using mv(3) lw by (simp add: win_inv_def)
      obtain r4 fs4 where sy: "sync_fs ops ?fs3 = Some (r4, fs4)" "r4 \<in> {FR_OK, FR_DISK_ERR}" "inv fs4"
          "same_vol (?fs3\<lparr>fsi_flag := fsi_flag fs4\<rparr>) fs4" "\<forall>t. tracked ?fs3 t \<longrightarrow> view img fs4 t = view img ?fs3 t"
          "r4 = FR_OK \<longrightarrow> wflag fs4 = 0 \<and> (\<forall>t. tracked ?fs3 t \<longrightarrow> img (dsk fs4) t = view img ?fs3 t)"
        using sync_fs_law [OF inv3] by (auto simp: returns_iff)
      have run: "sync_file ops fp fs = Some ((r4, ?fp), fs4)"
        using new fl(1) q mv(1) True pl'(1) st(1) sy(1) by (simp add: sync_file_def Let_def)
      have "written_out img fs fp p fs4" if ok: "r4 = FR_OK"
      proof -
        have g2: "geom fs2 = geom fs" using geom_same_vol [OF sv1] geom_same_vol [OF mv(4)] by simp
        have "geom fs4 = geom (?fs3\<lparr>fsi_flag := fsi_flag fs4\<rparr>)" by (rule geom_same_vol [OF sy(4)])
        also have "\<dots> = geom fs" using g2 by (simp add: geom_def)
        finally have g: "geom fs4 = geom fs" .
        have t3: "tracked ?fs3 = tracked fs" using tr(2) by (simp add: tracked_def mirror_def fun_eq_iff)
        have v: "img (dsk fs4) t = (if t = ?ds then w' else view img fs1 t)" if "tracked fs t" for t
        proof -
          have "img (dsk fs4) t = view img ?fs3 t" using sy(6) ok t3 that by simp
          also have "\<dots> = (if t = ?ds then w' else view img fs2 t)" using w(1) by (simp add: view_def)
          finally show ?thesis using mv(5) tr that by simp
        qed
        have S: "tracked fs s" if "s \<in> ?S" for s using fsects_valid [OF lay that] by simp
        have w1: "winsect fs1 \<notin> ?S" using fl(3) by (simp add: quiet_def)
        have data: "img (dsk fs4) s = fdata img fs fp s" if s: "s \<in> ?S" for s
        proof -
          have "s \<noteq> ?ds" "s \<noteq> winsect fs1" using s pl'(4) w1 by auto
          then have "img (dsk fs4) s = img (dsk fs1) s" using v [OF S [OF s]] by (simp add: view_def)
          also have "\<dots> = fdata img fs1 (fp\<lparr>fp_flag := fl\<rparr>) s" using fl(5) q by (simp add: fdata_def)
          finally show ?thesis by (simp add: fl(4))
        qed
        have e: "entry_stored fs fp p (view img fs ?ds) (img (dsk fs4) ?ds)"
          using st(2) v [OF pl'(3)] w(2) by (simp add: entry_stored_def)
        have other: "img (dsk fs4) t = view img fs t" if "tracked fs t" "t \<notin> ?S" "t \<noteq> ?ds" for t
          using v [OF that(1)] that fl(3) by (simp add: quiet_def)
        have vd: "view img fs4 t = img (dsk fs4) t" if "tracked fs t" for t
          using sy(5,6) ok t3 that by simp
        have "winsect fs4 = ?ds \<or> fs_type fs = FS_FAT32 \<and> winsect fs4 = volbase fs + 1"
          using sync_fs_winsect [OF sy(1)] w(1) geom_sel(1,10) [OF g2] by simp
        then have "winsect fs4 \<notin> ?S" using pl'(4) S by (auto simp: tracked_def)
        then show ?thesis using g sy(6) ok data e other vd by (simp add: written_out_def)
      qed
      moreover have "(fl AND NOT FA__WRITTEN) AND FA__DIRTY = 0" "(fl AND NOT FA__WRITTEN) AND FA__WRITTEN = 0"
        using fl(5) q by (simp_all add: FA__WRITTEN_def FA__DIRTY_def and.assoc)
      ultimately show ?thesis unfolding run using sy(2,3) by auto
    qed
  qed
qed

end

section \<open>The file on the drive\<close>

lemma written_table:
  assumes w: "written_out img fs fp p fs'" and lay: "vol_layout fs" and pl: "entry_place img fs fp p" and ch: "file_chain img fs (fp_sclust fp) cs"
  shows "vol_layout fs'" and "file_chain img fs' (fp_sclust fp) cs" and "fsect img fs' (fp_sclust fp) = fsect img fs (fp_sclust fp)"
    and "fsects img fs' (fp_sclust fp) = fsects img fs (fp_sclust fp)"
proof -
  have g: "geom fs' = geom fs" using w by (simp add: written_out_def)
  have v: "view img fs' t = view img fs t" if "tracked fs t" "fat_area fs t" for t
  proof -
    have "t \<notin> fsects img fs (fp_sclust fp)" using fsects_valid [OF lay] that(2) by blast
    moreover have "t \<noteq> fp_dir_sect fp" using pl that(2) by (auto simp: entry_place_def)
    ultimately show ?thesis using w that(1) by (simp add: written_out_def)
  qed
  from table_same [OF g lay v ch]
  show "vol_layout fs'" "file_chain img fs' (fp_sclust fp) cs" "fsect img fs' (fp_sclust fp) = fsect img fs (fp_sclust fp)"
    "fsects img fs' (fp_sclust fp) = fsects img fs (fp_sclust fp)" by simp_all
qed

text \<open>An object without a dirty cache sees on the drive what the object that was flushed saw.\<close>

lemma written_data:
  assumes w: "written_out img fs fp p fs'" and lay: "vol_layout fs" and pl: "entry_place img fs fp p" and ch: "file_chain img fs (fp_sclust fp) cs"
    and base: "fil_base img fs fp" and new: "\<not> dirty fp2" "fp_sclust fp2 = fp_sclust fp" "fp_fsize fp2 = fp_fsize fp"
  shows "file_data img fs' fp2 = file_data img fs fp"
proof -
  have "fbyte img fs' fp2 i = fbyte img fs fp i" if "i < unat (fp_fsize fp)" for i
  proof -
    have "512 * (i div 512) < unat (fp_fsize fp)" using that by (meson le_less_trans times_div_less_eq_dividend)
    then obtain s where s: "fsect img fs (fp_sclust fp) (i div 512) = Some s" using base by (auto simp: fil_base_def)
    moreover from s have "s \<in> fsects img fs (fp_sclust fp)" by (auto simp: fsects_def)
    then have "fdata img fs' fp2 s = fdata img fs fp s" using w new(1) by (simp add: written_out_def fdata_def)
    ultimately show ?thesis by (simp add: fbyte_def new(2) written_table(3) [OF w lay pl ch])
  qed
  then show ?thesis by (simp add: file_data_def fbytes_def new(3))
qed

lemma written_inv:
  assumes w: "written_out img fs fp p fs'" and lay: "vol_layout fs" and pl: "entry_place img fs fp p" and ch: "file_chain img fs (fp_sclust fp) cs"
    and inv: "fil_inv img fs fp" and fl: "fl AND FA__DIRTY = 0"
  shows "fil_inv img fs' (fp\<lparr>fp_flag := fl\<rparr>)"
proof -
  let ?fp = "fp\<lparr>fp_flag := fl\<rparr>"
  note t = written_table [OF w lay pl ch]
  have g: "geom fs' = geom fs" using w by (simp add: written_out_def)
  have base: "fil_base img fs fp" and at: "fil_at img fs fp (unat (fp_fptr fp))" using inv by (simp_all add: fil_inv_def)
  have ch': "file_chain img fs' (fp_sclust ?fp) cs" using t(2) by simp
  have "fdata img fs' ?fp s = fdata img fs fp s" if "s \<in> fsects img fs (fp_sclust fp)" for s
    using w that fl by (simp add: written_out_def fdata_def)
  then have "fil_base img fs' ?fp"
    using base [unfolded fil_base_chain [OF lay ch]] w fl unfolding fil_base_chain [OF t(1) ch']
    by (auto simp: t(4) geom_sel(3) [OF g] written_out_def)
  moreover have "fil_at img fs' ?fp (unat (fp_fptr ?fp))"
    using at [unfolded fil_at_chain [of fs img fp cs, OF lay ch]] unfolding fil_at_chain [of fs' img ?fp cs, OF t(1) ch']
    by (simp add: wr_at_def geom_sel(3) [OF g] csect_geom [OF g])
  ultimately show ?thesis by (simp add: fil_inv_def)
qed

lemma f_sync_law:
  assumes dev: "block_device ops dno ok img" and v: "valid_file ops fp g = FR_OK" "fp_fs fp = Some a"
    and vol: "win_inv dno ok img (fs_at g a)" "vol_layout (fs_at g a)" and ch: "file_chain img (fs_at g a) (fp_sclust fp) cs"
    and inv: "fil_inv img (fs_at g a) fp" and new: "fp_flag fp AND FA__WRITTEN \<noteq> 0" and pl: "entry_place img (fs_at g a) fp p"
  shows "returns (f_sync ops fp g) (\<lambda>(res, fp') g'. res \<in> {FR_OK, FR_DISK_ERR} \<and> win_inv dno ok img (fs_at g' a) \<and>
    (res = FR_OK \<longrightarrow> written_out img (fs_at g a) fp p (fs_at g' a) \<and> fil_inv img (fs_at g' a) fp' \<and>
       file_chain img (fs_at g' a) (fp_sclust fp') cs \<and>
       (\<exists>fl. fp' = fp\<lparr>fp_flag := fl\<rparr> \<and> fl AND FA__DIRTY = 0 \<and> fl AND FA__WRITTEN = 0) \<and>
       (\<forall>fp2. \<not> dirty fp2 \<longrightarrow> fp_sclust fp2 = fp_sclust fp \<longrightarrow> fp_fsize fp2 = fp_fsize fp \<longrightarrow>
          file_data img (fs_at g' a) fp2 = file_data img (fs_at g a) fp)))"
proof -
  let ?fs = "fs_at g a"
  have base: "fil_base img ?fs fp" using inv by (simp add: fil_inv_def)
  obtain res fp' fs' where s: "sync_file ops fp ?fs = Some ((res, fp'), fs')" "res \<in> {FR_OK, FR_DISK_ERR}" "win_inv dno ok img fs'"
      "res = FR_OK \<longrightarrow> written_out img ?fs fp p fs' \<and> (\<exists>fl. fp' = fp\<lparr>fp_flag := fl\<rparr> \<and> fl AND FA__DIRTY = 0 \<and> fl AND FA__WRITTEN = 0)"
    using block_device.sync_file_law [OF dev vol base new pl] by (auto simp: returns_iff)
  have f: "f_sync ops fp g = Some ((res, fp'), put_fs a fs' g)"
    using v s(1) by (simp add: f_sync_def Let_def on_fs_def)
  show ?thesis
  proof (cases "res = FR_OK")
    case True
    then obtain fl where o: "written_out img ?fs fp p fs'" "fp' = fp\<lparr>fp_flag := fl\<rparr>" "fl AND FA__DIRTY = 0" "fl AND FA__WRITTEN = 0"
      using s(4) by blast
    note wi = written_inv [OF o(1) vol(2) pl ch inv o(3)] written_table(2) [OF o(1) vol(2) pl ch]
    show ?thesis
      unfolding f using s(2,3) o wi written_data [OF o(1) vol(2) pl ch base] by (auto simp: fs_at_put)
  next
    case False
    then show ?thesis unfolding f using s(2,3) by (simp add: fs_at_put)
  qed
qed

section \<open>Properties\<close>

text \<open>
  C15: Durability.  On a file that was written, \<open>f_sync\<close> returns, and when it reports FR_OK the
  drive holds the file: every sector of its chain has the contents FatFs saw, cached bytes
  included, the directory entry has its size and its first cluster and keeps its name, every other
  sector is what FatFs saw, and nothing is left to write in the window.  An object opened anew on
  that entry, whose cache is empty, therefore reads the same contents, and the object flushed is in
  order with its marks cleared.
\<close>

theorem f_sync_durable:
  assumes "block_device ops dno ok img" and "valid_file ops fp g = FR_OK" and "fp_fs fp = Some a"
    and "win_inv dno ok img (fs_at g a)" and "vol_layout (fs_at g a)" and "file_chain img (fs_at g a) (fp_sclust fp) cs"
    and "fil_inv img (fs_at g a) fp" and "fp_flag fp AND FA__WRITTEN \<noteq> 0" and "entry_place img (fs_at g a) fp p"
  shows "returns (f_sync ops fp g) (\<lambda>(res, fp') g'. res \<in> {FR_OK, FR_DISK_ERR} \<and> win_inv dno ok img (fs_at g' a) \<and>
    (res = FR_OK \<longrightarrow> written_out img (fs_at g a) fp p (fs_at g' a) \<and> fil_inv img (fs_at g' a) fp' \<and>
       file_chain img (fs_at g' a) (fp_sclust fp') cs \<and> \<not> dirty fp' \<and> fp_flag fp' AND FA__WRITTEN = 0 \<and>
       (\<forall>fp2. \<not> dirty fp2 \<longrightarrow> fp_sclust fp2 = fp_sclust fp \<longrightarrow> fp_fsize fp2 = fp_fsize fp \<longrightarrow>
          file_data img (fs_at g' a) fp2 = file_data img (fs_at g a) fp)))"
  using f_sync_law [OF assms] by (rule returns_mono) auto

text \<open>The theorem on the file of 1500 bytes whose entry is the second of the root directory.\<close>

definition changed_file :: fil where
  "changed_file = data_file\<lparr>fp_flag := FA_READ OR FA_WRITE OR FA__WRITTEN\<rparr>"

theorem f_sync_durable_witness:
  "returns (f_sync ram_ops changed_file data_sys) (\<lambda>(res, fp') g'. res = FR_OK \<longrightarrow>
     LD_DWORD 60 (drives g' 68) = Some 1500 \<and> drives g' 77 = replicate 512 77)"
proof -
  have v: "valid_file ram_ops changed_file data_sys = FR_OK"
    by (simp add: valid_file_def validate_def changed_file_def data_file_def) (simp add: data_sys_def data_vol_def demo_fs_def FS_FAT16_def ram_ops_def)
  have f: "fp_fs changed_file = Some 3" "fp_flag changed_file AND FA__WRITTEN \<noteq> 0" "fp_sclust changed_file = 5" "fp_dir_sect changed_file = 68"
      "fp_dir_ptr changed_file = Some 32" "fp_fsize changed_file = 1500" "\<not> dirty changed_file" "\<not> dirty data_file"
    by (simp_all add: changed_file_def data_file_def FA_READ_def FA_WRITE_def FA__WRITTEN_def FA__DIRTY_def)
  have ch: "file_chain (\<lambda>d. d) data_vol (fp_sclust changed_file) [5, 7]" using edit_file_ok(2) f(3) by (simp add: edit_file_def data_file_def)
  have inv: "fil_inv (\<lambda>d. d) data_vol changed_file"
  proof -
    have "fdata (\<lambda>d. d) data_vol changed_file = fdata (\<lambda>d. d) data_vol data_file" using f(7,8) by (simp add: fdata_def fun_eq_iff)
    then show ?thesis
      using data_fil_inv f(7,8) by (simp add: fil_inv_def fil_base_def fil_at_def) (simp add: changed_file_def)
  qed
  have "68 \<notin> fsects (\<lambda>d. d) data_vol 5" using fsects_data_area [OF data_vol_ok(2), of 68 "\<lambda>d. d" 5] by auto
  moreover have "tracked data_vol 68" "\<not> fat_area data_vol 68"
    by (simp_all add: data_vol_def demo_fs_facts(1)) (simp add: demo_fs_def fat_area_def)
  ultimately have pl: "entry_place (\<lambda>d. d) data_vol changed_file 32" by (simp add: entry_place_def f)
  have s77: "77 \<in> fsects (\<lambda>d. d) data_vol 5" using data_fsect(2) by (auto simp: fsects_def)
  have d77: "fdata (\<lambda>d. d) data_vol changed_file 77 = replicate 512 77"
    using f(7) by (simp add: fdata_def data_disk_def)
  have dk: "dsk (fs_at g' x) = drives g'" for g' :: "(u32 \<Rightarrow> bytes) fat_sys" and x by (simp add: fs_at_def)
  show ?thesis
    using f_sync_durable [OF ram.block_device_axioms v f(1), of 0 "[5, 7]" 32] data_vol_ok ch inv f pl s77 d77
    by (auto simp: written_out_def entry_stored_def DIR_FileSize_def dk elim!: returns_mono)
qed

end
