(* ===== verification/Text.thy ===== *)
theory Text
  imports Prelude
begin

text \<open>
  The text routines around the FAT and SD code: the number printers of \<open>minion_helper.c\<close> and
  \<open>syscalls.c\<close>, the argument scanner, \<open>strcmp\<close>, the sector dump and the generator of \<open>selftest.c\<close>.
  Printers give the characters they send, strings in memory are byte lists with their zero.
\<close>

section \<open>Printing\<close>

definition myputs :: "bytes \<Rightarrow> bytes" where
  "myputs str = takeWhile (\<lambda>c. c \<noteq> 0) str"

function myputn :: "u32 \<Rightarrow> bytes" where
  "myputn n = (if n > 9 then myputn (n div 10) else []) @ [ucast (n mod 10) + 0x30]"
  by pat_completeness auto
termination
  by (relation "measure unat") (auto simp: word_less_nat_alt unat_div)

declare myputn.simps [simp del]

function myputhex :: "u32 \<Rightarrow> u32 \<Rightarrow> bytes" where
  "myputhex n width = (if width > 1 then myputhex (drop_bit 4 n) (width - 1) else []) @
     (let n = n AND 15 in [if n > 9 then ucast n + 0x41 - 10 else ucast n + 0x30])"
  by pat_completeness auto
termination
  by (relation "measure (\<lambda>(_, w). unat w)") (auto simp: word_less_nat_alt unat_sub_if_size)

declare myputhex.simps [simp del]

text \<open>The names of the status registers, \<open>None\<close> for those that are not shown.\<close>

definition status_names :: "string list" where
  "status_names = [''sd_cmd_response[38:7]'', ''sd_cmd_response[70:39]'', ''sd_cmd_response[102:71]'', ''sd_cmd_response[133:103]'',
     ''sd_cmd_wait'', ''sd_status'', ''sd_cmd_packet[31:0]'', ''sd_cmd_packet[47:32]'', ''sd_data_wait'', ''sd_transf_cnt'',
     ''rx_fifo_status'', ''tx_fifo_status'', ''sd_detect'', [], [], [], ''sd_align'', ''clock_divider_sd_clk'', ''sd_cmd_arg'',
     ''sd_cmd_i'', ''{sd_data_start,sd_cmd_setting[2:0]}'', ''sd_cmd_start'', ''{sd_reset,sd_clk_rst,sd_data_rst,sd_cmd_rst}'',
     ''sd_blkcnt'', ''sd_blksize'', ''sd_cmd_timeout'', [], [], [], [], [], []]"

definition chars :: "string \<Rightarrow> bytes" where
  "chars s = map of_char s"

definition card_response :: "u32 list \<Rightarrow> bytes" where
  "card_response status = concat (map (\<lambda>(name, data). if name = [] then [] else chars name @ [0x3A] @ myputhex data 8 @ [0x0A])
     (zip status_names status))"

text \<open>The registers after a command; a missing register has no result.\<close>

definition sd_transaction_show :: "u32 list \<Rightarrow> bytes option" where
  "sd_transaction_show cs =
     (if length cs < 20 then None
      else Some (chars ''CMD'' @ (if sint (cs ! 19) < 0 then [0x2D] @ myputn (- (cs ! 19)) else myputn (cs ! 19)) @ [0x3A] @
        myputhex (cs ! 7) 4 @ [0x3A] @ myputhex (cs ! 6) 8 @ [0x2D, 0x3E] @
        concat (map (\<lambda>i. myputhex (cs ! i) 8 @ [0x2C]) [3, 2, 1, 0]) @
        myputhex (cs ! 5) 8 @ [0x2C] @ myputhex (cs ! 4) 8 @ [0x0A]))"

definition hex16_digit :: "u64 \<Rightarrow> u8" where
  "hex16_digit x = (let d = x AND 0xF in ucast d + (if d < 10 then 0x30 else 0x61 - 10))"

fun hex16 :: "nat \<Rightarrow> u64 \<Rightarrow> bytes" where
  "hex16 0 x = []"
| "hex16 (Suc n) x = hex16 n (drop_bit 4 x) @ [hex16_digit x]"

definition printhex :: "u64 \<Rightarrow> bytes" where
  "printhex x = hex16 16 x"

text \<open>The message of \<open>tohost_exit\<close>.\<close>

definition tohost_message :: "u64 \<Rightarrow> bytes" where
  "tohost_message code = (if code \<noteq> 0 then chars ''error! exit(0x'' @ hex16 16 code @ chars '')'' @ [0x0A] else [])"

definition sector_item :: "bytes \<Rightarrow> nat \<Rightarrow> bytes" where
  "sector_item buf i =
     (if i mod 32 = 0 then [0x0D, 0x0A] @ myputhex (of_nat i) 4 @ [0x3A, 0x20] else []) @ myputhex (ucast (buf ! i)) 2 @ [0x20]"

definition show_sector :: "bytes \<Rightarrow> bytes option" where
  "show_sector buf = (if length buf < 512 then None else Some (concat (map (sector_item buf) [0..<512]) @ [0x0D, 0x0A]))"

section \<open>Reading\<close>

text \<open>The value and the rest of the string; a string without a zero has no result.\<close>

fun scan_loop :: "u64 \<Rightarrow> bytes \<Rightarrow> u64 \<Rightarrow> (u64 \<times> bytes) option" where
  "scan_loop base [] data = None"
| "scan_loop base (c # cs) data =
     (if c = 0 then Some (data, c # cs)
      else if 0x30 \<le> c \<and> c \<le> 0x39 then scan_loop base cs (data * base + ucast c - 0x30)
      else if 0x41 \<le> c \<and> c \<le> 0x46 then scan_loop base cs (data * base + ucast c - 0x41 + 10)
      else if 0x61 \<le> c \<and> c \<le> 0x66 then scan_loop base cs (data * base + ucast c - 0x61 + 10)
      else if c = 0x20 then scan_loop base cs data
      else Some (data, cs))"

definition scan :: "bytes \<Rightarrow> u64 \<Rightarrow> (u64 \<times> bytes) option" where
  "scan start base = scan_loop base start 0"

definition mystrtol :: "bytes \<Rightarrow> u64 \<Rightarrow> (u64 \<times> bytes) option" where
  "mystrtol nptr base = scan nptr base"

text \<open>\<open>char\<close> is signed on the host the program is built for.\<close>

fun strcmp :: "bytes \<Rightarrow> bytes \<Rightarrow> int option" where
  "strcmp (a # s1) (b # s2) =
     (if b \<noteq> 0 \<and> a = b then strcmp s1 s2 else Some (sint a - sint b))"
| "strcmp _ _ = None"

definition lfsr64 :: "u64 \<Rightarrow> u64" where
  "lfsr64 d =
     (let b = drop_bit (64 - 64) d XOR drop_bit (64 - 63) d XOR drop_bit (64 - 61) d XOR drop_bit (64 - 60) d XOR 1 in
      drop_bit 1 d OR push_bit 63 b)"

section \<open>What the printers print is what the scanner reads\<close>

lemma unat_nibble: "unat (x AND 15 :: u32) = unat x mod 16" "unat (y AND 15 :: u64) = unat y mod 16"
proof -
  have "x AND 15 = take_bit 4 x" "y AND 15 = take_bit 4 y" by (simp_all add: take_bit_eq_mask mask_eq_exp_minus_1)
  then show "unat (x AND 15) = unat x mod 16" "unat (y AND 15) = unat y mod 16"
    by (simp_all add: unsigned_take_bit_eq) (simp_all add: take_bit_eq_mod)
qed

lemma unat_drop4: "unat (drop_bit 4 x :: u32) = unat x div 16" "unat (drop_bit 4 y :: u64) = unat y div 16"
  by (simp_all add: drop_bit_eq_div unat_div)

text \<open>A hexadecimal digit of either case.\<close>

definition hex_char_of :: "u8 \<Rightarrow> u8 \<Rightarrow> bool" where
  "hex_char_of v c \<longleftrightarrow> v < 16 \<and> (if v < 10 then c = v + 0x30 else c = v + 0x41 - 10 \<or> c = v + 0x61 - 10)"

definition digit_ok :: "u8 \<Rightarrow> u8 \<Rightarrow> bool" where
  "digit_ok v c \<longleftrightarrow> c \<noteq> 0 \<and>
     (if 0x30 \<le> c \<and> c \<le> 0x39 then ucast c - 0x30 = (ucast v :: u64)
      else if 0x41 \<le> c \<and> c \<le> 0x46 then ucast c - 0x41 + 10 = (ucast v :: u64)
      else 0x61 \<le> c \<and> c \<le> 0x66 \<and> ucast c - 0x61 + 10 = (ucast v :: u64))"

lemma digits_ok: "list_all (\<lambda>k. let v = of_nat k in
    if k < 10 then digit_ok v (v + 0x30) else digit_ok v (v + 0x41 - 10) \<and> digit_ok v (v + 0x61 - 10)) [0..<16]"
  by code_simp

lemma digit_ok_of: "hex_char_of v c \<Longrightarrow> digit_ok v c"
proof -
  assume h: "hex_char_of v c"
  then have "unat v < 16" by (simp add: hex_char_of_def word_less_nat_alt)
  then show ?thesis
    using h bspec [OF digits_ok [unfolded list_all_iff], of "unat v"]
    by (auto simp: hex_char_of_def Let_def word_less_nat_alt split: if_splits)
qed

declare scan_loop.simps(2) [simp del]

lemma scan_digit: "hex_char_of v c \<Longrightarrow> scan_loop b (c # cs) d = scan_loop b cs (d * b + ucast v)"
proof -
  assume "hex_char_of v c"
  then have "digit_ok v c" by (rule digit_ok_of)
  then show ?thesis
    by (auto simp: scan_loop.simps(2) digit_ok_def add.assoc diff_add_eq simp flip: add_diff_eq split: if_splits)
qed

lemma unat_nibble8: "unat (ucast (n AND 15 :: u32) :: u8) = unat n mod 16" "unat (ucast (x AND 15 :: u64) :: u8) = unat x mod 16"
  by (simp_all only: unsigned_ucast_eq unat_nibble) (simp_all add: take_bit_nat_eq_self)

lemma hex_char_upper: "hex_char_of (ucast (n AND 15 :: u32)) (if n AND 15 > 9 then ucast (n AND 15) + 0x41 - 10 else ucast (n AND 15) + 0x30)"
  by (auto simp: hex_char_of_def word_less_nat_alt unat_nibble unat_nibble8)

lemma hex_char_lower: "hex_char_of (ucast (x AND 0xF :: u64)) (hex16_digit x)"
  by (auto simp: hex_char_of_def hex16_digit_def Let_def word_less_nat_alt unat_nibble unat_nibble8)

lemma nibble_value:
  "(ucast (ucast (n AND 15 :: u32) :: u8) :: u64) = of_nat (unat n mod 16)" "(ucast (ucast (x AND 15 :: u64) :: u8) :: u64) = of_nat (unat x mod 16)"
  by (simp_all only: of_nat_unat flip: unat_nibble8)

lemma join_digit: "(d * 16 ^ k + of_nat (m div 16 mod 16 ^ k)) * 16 + of_nat (m mod 16) = d * 16 ^ Suc k + (of_nat (m mod 16 ^ Suc k) :: u64)"
proof -
  have "m mod 16 ^ Suc k = 16 * (m div 16 mod 16 ^ k) + m mod 16" by (simp add: mod_mult2_eq)
  then show ?thesis by (simp add: algebra_simps)
qed

text \<open>Digits in front of the rest of a string: the low digits of the number are read.\<close>

lemma scan_myputhex:
  "1 \<le> w \<Longrightarrow> scan_loop 16 (myputhex n w @ cs) d = scan_loop 16 cs (d * 16 ^ unat w + of_nat (unat n mod 16 ^ unat w))"
proof (induction n w arbitrary: cs d rule: myputhex.induct)
  case (1 n w)
  have w: "unat w \<ge> 1" using "1.prems" by (simp add: word_le_nat_alt)
  show ?case
  proof (cases "w > 1")
    case True
    then have u: "unat w = Suc (unat (w - 1))" "1 \<le> w - 1" using w by (auto simp: word_less_nat_alt word_le_nat_alt unat_sub_if_size)
    show ?thesis
      using "1.IH" [OF True u(2)] True
      by (subst myputhex.simps) (simp add: Let_def scan_digit [OF hex_char_upper] unat_drop4 nibble_value join_digit u(1) del: power_Suc distrib_right_numeral)
  next
    case False
    then have "unat w = 1" using w by (simp add: word_less_nat_alt)
    then show ?thesis using False by (subst myputhex.simps) (simp add: Let_def scan_digit [OF hex_char_upper] nibble_value)
  qed
qed

lemma scan_hex16: "scan_loop 16 (hex16 n x @ cs) d = scan_loop 16 cs (d * 16 ^ n + of_nat (unat x mod 16 ^ n))"
proof (induction n x arbitrary: cs d rule: hex16.induct)
  case (2 n x)
  then show ?case
    by (simp add: scan_digit [OF hex_char_lower] unat_drop4 nibble_value join_digit del: power_Suc distrib_right_numeral)
qed simp

lemma sint_eq: "sint a = sint b \<longleftrightarrow> a = (b :: u8)"
  by (metis signed_word_eqI)

lemma strcmp_law:
  "0 \<notin> set s \<Longrightarrow> 0 \<notin> set t \<Longrightarrow> \<exists>r. strcmp (s @ 0 # u) (t @ 0 # v) = Some r \<and> (r = 0 \<longleftrightarrow> s = t)"
proof (induction t arbitrary: s)
  case Nil then show ?case using sint_eq [of _ 0] by (cases s) auto
next
  case (Cons b t) then show ?case using sint_eq [of 0 b] by (cases s) (auto simp: sint_eq)
qed

text \<open>The generator permutes its states.\<close>

lemma bit_lfsr64:
  "i < 64 \<Longrightarrow> bit (lfsr64 d) i \<longleftrightarrow> (if i = 63 then bit d 0 \<noteq> (bit d 1 \<noteq> (bit d 3 \<noteq> (bit d 4 \<noteq> True))) else bit d (Suc i))"
proof -
  assume i: "i < 64"
  define b where "b = drop_bit (64 - 64) d XOR drop_bit (64 - 63) d XOR drop_bit (64 - 61) d XOR drop_bit (64 - 60) d XOR 1"
  have "lfsr64 d = drop_bit 1 d OR push_bit 63 b" by (simp only: lfsr64_def Let_def b_def)
  then have "bit (lfsr64 d) i \<longleftrightarrow> bit d (Suc i) \<or> 63 \<le> i \<and> bit b (i - 63)" using i by (simp add: bit_simps)
  moreover have "bit b 0 \<longleftrightarrow> (bit d 0 \<noteq> (bit d 1 \<noteq> (bit d 3 \<noteq> (bit d 4 \<noteq> True))))" by (auto simp: b_def bit_simps)
  moreover have "\<not> bit d 64" by (auto dest: bit_imp_le_length)
  ultimately show ?thesis using i by auto
qed

lemma lfsr64_inj: "lfsr64 a = lfsr64 b \<Longrightarrow> a = b"
proof (rule bit_word_eqI)
  fix n assume e: "lfsr64 a = lfsr64 b" and n: "n < LENGTH(64)"
  have up: "bit a (Suc i) = bit b (Suc i)" if "i < 63" for i using e bit_lfsr64 [of i a] bit_lfsr64 [of i b] that by simp
  show "bit a n = bit b n"
  proof (cases n)
    case 0
    have "bit a 1 = bit b 1" "bit a 3 = bit b 3" "bit a 4 = bit b 4" using up [of 0] up [of 2] up [of 3] by simp_all
    then show ?thesis using 0 e bit_lfsr64 [of 63 a] bit_lfsr64 [of 63 b] by simp blast
  next
    case (Suc i) then show ?thesis using up [of i] n by simp
  qed
qed

section \<open>Properties\<close>

text \<open>
  A number printed by \<open>myputhex\<close> (upper case, eight digits) or \<open>printhex\<close> (lower case, sixteen digits)
  is read back by \<open>scan\<close>, at the end of the command and before a separator, which is consumed.\<close>
theorem scan_reads_printers:
  "scan (myputhex n 8 @ 0 # r) 16 = Some (ucast n, 0 # r) \<and> scan (printhex x @ 0 # r) 16 = Some (x, 0 # r) \<and>
   scan (myputhex n 8 @ 0x2C # r) 16 = Some (ucast n, r) \<and> scan (printhex x @ 0x2C # r) 16 = Some (x, r)"
proof -
  have "unat n < 2 ^ 32" "unat x < 2 ^ 64" using unsigned_less [of n] unsigned_less [of x] by simp_all
  then have "unat n mod 16 ^ unat (8 :: u32) = unat n" "unat x mod 16 ^ 16 = unat x" by simp_all
  then show ?thesis by (simp add: scan_def printhex_def scan_myputhex scan_hex16 scan_loop.simps)
qed

end
