(* ===== verification/Md5.thy ===== *)
theory Md5
  imports Prelude
begin

text \<open>
  The MD5 digest of \<open>sdhci-minion-hash-md5.c\<close>, which the boot program and the sector checks use.
  A message comes in pieces of any length; the context buffers what does not fill a block.
  The specification is RFC 1321: padding, and 64 steps for each block of 64 bytes.
\<close>

section \<open>The program\<close>

record md5_ctx =
  md_wbuffer :: bytes
  md_total64 :: u64
  md_hash :: "u32 list"

definition rotl32 :: "u32 \<Rightarrow> nat \<Rightarrow> u32" where
  "rotl32 x n = push_bit n x OR drop_bit (32 - n) x"

definition C_array :: "u32 list" where
  "C_array = [
    0xd76aa478, 0xe8c7b756, 0x242070db, 0xc1bdceee, 0xf57c0faf, 0x4787c62a, 0xa8304613, 0xfd469501,
    0x698098d8, 0x8b44f7af, 0xffff5bb1, 0x895cd7be, 0x6b901122, 0xfd987193, 0xa679438e, 0x49b40821,
    0xf61e2562, 0xc040b340, 0x265e5a51, 0xe9b6c7aa, 0xd62f105d, 0x02441453, 0xd8a1e681, 0xe7d3fbc8,
    0x21e1cde6, 0xc33707d6, 0xf4d50d87, 0x455a14ed, 0xa9e3e905, 0xfcefa3f8, 0x676f02d9, 0x8d2a4c8a,
    0xfffa3942, 0x8771f681, 0x6d9d6122, 0xfde5380c, 0xa4beea44, 0x4bdecfa9, 0xf6bb4b60, 0xbebfbc70,
    0x289b7ec6, 0xeaa127fa, 0xd4ef3085, 0x04881d05, 0xd9d4d039, 0xe6db99e5, 0x1fa27cf8, 0xc4ac5665,
    0xf4292244, 0x432aff97, 0xab9423a7, 0xfc93a039, 0x655b59c3, 0x8f0ccc92, 0xffeff47d, 0x85845dd1,
    0x6fa87e4f, 0xfe2ce6e0, 0xa3014314, 0x4e0811a1, 0xf7537e82, 0xbd3af235, 0x2ad7d2bb, 0xeb86d391]"

definition P_array :: "nat list" where
  "P_array = [1, 6, 11, 0, 5, 10, 15, 4, 9, 14, 3, 8, 13, 2, 7, 12,
    5, 8, 11, 14, 1, 4, 7, 10, 13, 0, 3, 6, 9, 12, 15, 2,
    0, 7, 14, 5, 12, 3, 10, 1, 8, 15, 6, 13, 4, 11, 2, 9]"

type_synonym md5_regs = "u32 \<times> u32 \<times> u32 \<times> u32"

definition md5_f1 :: "u32 \<Rightarrow> u32 \<Rightarrow> u32 \<Rightarrow> u32" where "md5_f1 b c d = d XOR (b AND (c XOR d))"
definition md5_f2 :: "u32 \<Rightarrow> u32 \<Rightarrow> u32 \<Rightarrow> u32" where "md5_f2 b c d = c XOR (d AND (b XOR c))"
definition md5_f3 :: "u32 \<Rightarrow> u32 \<Rightarrow> u32 \<Rightarrow> u32" where "md5_f3 b c d = b XOR c XOR d"
definition md5_f4 :: "u32 \<Rightarrow> u32 \<Rightarrow> u32 \<Rightarrow> u32" where "md5_f4 b c d = c XOR (b OR NOT d)"

text \<open>The body of a loop: the four registers in turn, with four words and four constants.\<close>

definition md5_four :: "(u32 \<Rightarrow> u32 \<Rightarrow> u32 \<Rightarrow> u32) \<Rightarrow> nat \<times> nat \<times> nat \<times> nat \<Rightarrow> (nat \<Rightarrow> u32) \<Rightarrow> (nat \<Rightarrow> u32) \<Rightarrow> md5_regs \<Rightarrow> md5_regs" where
  "md5_four f s w k = (\<lambda>(A, B, C, D). case s of (s0, s1, s2, s3) \<Rightarrow>
     (let A = rotl32 (A + (f B C D + w 0 + k 0)) s0 + B;
          D = rotl32 (D + (f A B C + w 1 + k 1)) s1 + A;
          C = rotl32 (C + (f D A B + w 2 + k 2)) s2 + D;
          B = rotl32 (B + (f C D A + w 3 + k 3)) s3 + C in
      (A, B, C, D)))"

definition md5_words :: "bytes \<Rightarrow> u32 list" where
  "md5_words b = map (\<lambda>i. le32 (b ! (4 * i)) (b ! (4 * i + 1)) (b ! (4 * i + 2)) (b ! (4 * i + 3))) [0..<16]"

text \<open>The four loops; the constants and the indices are taken one after the other.\<close>

definition md5_loops :: "u32 list \<Rightarrow> md5_regs \<Rightarrow> md5_regs" where
  "md5_loops words regs =
     (let regs = fold (\<lambda>i. md5_four md5_f1 (7, 12, 17, 22) (\<lambda>j. words ! (4 * i + j)) (\<lambda>j. C_array ! (4 * i + j))) [0..<4] regs;
          regs = fold (\<lambda>i. md5_four md5_f2 (5, 9, 14, 20) (\<lambda>j. words ! (P_array ! (4 * i + j))) (\<lambda>j. C_array ! (16 + 4 * i + j))) [0..<4] regs;
          regs = fold (\<lambda>i. md5_four md5_f3 (4, 11, 16, 23) (\<lambda>j. words ! (P_array ! (16 + 4 * i + j))) (\<lambda>j. C_array ! (32 + 4 * i + j))) [0..<4] regs in
      fold (\<lambda>i. md5_four md5_f4 (6, 10, 15, 21) (\<lambda>j. words ! (P_array ! (32 + 4 * i + j))) (\<lambda>j. C_array ! (48 + 4 * i + j))) [0..<4] regs)"

definition md5_process_block64 :: "md5_ctx \<Rightarrow> md5_ctx" where
  "md5_process_block64 ctx =
     (let h = md_hash ctx; (A, B, C, D) = md5_loops (md5_words (md_wbuffer ctx)) (h ! 0, h ! 1, h ! 2, h ! 3) in
      ctx\<lparr>md_hash := h[0 := h ! 0 + A, 1 := h ! 1 + B, 2 := h ! 2 + C, 3 := h ! 3 + D]\<rparr>)"

text \<open>The only block function is called directly; \<open>ctx\<close> is uninitialised memory.\<close>

definition md5_begin :: "md5_ctx \<Rightarrow> md5_ctx" where
  "md5_begin ctx = ctx\<lparr>md_hash := (md_hash ctx)[0 := 0x67452301, 1 := 0xefcdab89, 2 := 0x98badcfe, 3 := 0x10325476], md_total64 := 0\<rparr>"

partial_function (option) md5_hash_loop :: "bytes \<Rightarrow> md5_ctx \<Rightarrow> u32 \<Rightarrow> nat \<Rightarrow> u64 \<Rightarrow> md5_ctx option" where
  "md5_hash_loop buf ctx bufpos off len =
     (let remaining = 64 - bufpos; remaining = (if ucast remaining > len then ucast len else remaining) in do {
        s \<leftarrow> get_range off (unat remaining) buf;
        w \<leftarrow> put_range (unat bufpos) s (md_wbuffer ctx);
        let ctx = ctx\<lparr>md_wbuffer := w\<rparr>;
        if bufpos + remaining - 64 \<noteq> 0 then Some ctx
        else md5_hash_loop buf (md5_process_block64 ctx) 0 (off + unat remaining) (len - ucast remaining) })"

definition md5_hash :: "md5_ctx \<Rightarrow> bytes \<Rightarrow> u64 \<Rightarrow> md5_ctx option" where
  "md5_hash ctx buffer len =
     md5_hash_loop buffer (ctx\<lparr>md_total64 := md_total64 ctx + len\<rparr>) (ucast (md_total64 ctx AND 63)) 0 len"

partial_function (option) md5_end_loop :: "md5_ctx \<Rightarrow> u32 \<Rightarrow> md5_ctx option" where
  "md5_end_loop ctx bufpos =
     (let remaining = 64 - bufpos in do {
        w \<leftarrow> put_range (unat bufpos) (replicate (unat remaining) 0) (md_wbuffer ctx);
        w \<leftarrow> (if remaining \<ge> 8 then put_range (64 - 8) (bytes_le64 (push_bit 3 (md_total64 ctx))) w else Some w);
        let ctx = md5_process_block64 (ctx\<lparr>md_wbuffer := w\<rparr>);
        if remaining \<ge> 8 then Some ctx else md5_end_loop ctx 0 })"

definition md5_end :: "md5_ctx \<Rightarrow> md5_ctx option" where
  "md5_end ctx = do {
     let bufpos = (ucast (md_total64 ctx AND 63) :: u32);
     w \<leftarrow> put_at (unat bufpos) 0x80 (md_wbuffer ctx);
     md5_end_loop (ctx\<lparr>md_wbuffer := w\<rparr>) (bufpos + 1) }"

definition hex_char :: "u8 \<Rightarrow> u8" where
  "hex_char d = (if d < 10 then 0x30 + d else 0x61 + (d - 10))"

definition minion_bin2hex :: "bytes \<Rightarrow> bytes" where
  "minion_bin2hex cp = concat (map (\<lambda>c. [hex_char (drop_bit 4 c), hex_char (c AND 0xF)]) cp)"

definition hash_bin_to_hex :: "md5_ctx \<Rightarrow> bytes" where
  "hash_bin_to_hex ctx = minion_bin2hex (concat (map bytes_le32 (take 4 (md_hash ctx)))) @ [0]"

text \<open>The digest part of \<open>hash_buf\<close>.\<close>

definition hash_buf :: "md5_ctx \<Rightarrow> bytes \<Rightarrow> u32 \<Rightarrow> bytes option" where
  "hash_buf ctx in_buf count = do {
     ctx \<leftarrow> md5_hash (md5_begin ctx) in_buf (scast count);
     ctx \<leftarrow> md5_end ctx;
     Some (hash_bin_to_hex ctx) }"

section \<open>The specification\<close>

text \<open>RFC 1321, step \<open>i\<close> on the words \<open>X\<close> of a block.\<close>

definition rfc_fun :: "nat \<Rightarrow> u32 \<Rightarrow> u32 \<Rightarrow> u32 \<Rightarrow> u32" where
  "rfc_fun i x y z =
     (if i < 16 then (x AND y) OR (NOT x AND z)
      else if i < 32 then (x AND z) OR (y AND NOT z)
      else if i < 48 then x XOR y XOR z
      else y XOR (x OR NOT z))"

definition rfc_index :: "nat \<Rightarrow> nat" where
  "rfc_index i = (if i < 16 then i else if i < 32 then (5 * i + 1) mod 16 else if i < 48 then (3 * i + 5) mod 16 else 7 * i mod 16)"

definition rfc_shift :: "nat \<Rightarrow> nat" where
  "rfc_shift i = [7, 12, 17, 22, 5, 9, 14, 20, 4, 11, 16, 23, 6, 10, 15, 21] ! (i div 16 * 4 + i mod 4)"

definition rfc_step :: "u32 list \<Rightarrow> nat \<Rightarrow> md5_regs \<Rightarrow> md5_regs" where
  "rfc_step X i = (\<lambda>(a, b, c, d).
     (d, b + rotl32 (a + rfc_fun i b c d + X ! rfc_index i + C_array ! i) (rfc_shift i), b, c))"

definition rfc_block :: "bytes \<Rightarrow> md5_regs \<Rightarrow> md5_regs" where
  "rfc_block b h = (case h of (a, b0, c, d) \<Rightarrow> case fold (rfc_step (md5_words b)) [0..<64] h of (a', b', c', d') \<Rightarrow>
     (a + a', b0 + b', c + c', d + d'))"

definition rfc_init :: md5_regs where
  "rfc_init = (0x67452301, 0xefcdab89, 0x98badcfe, 0x10325476)"

text \<open>The first \<open>n\<close> blocks of a message.\<close>

primrec rfc_blocks :: "nat \<Rightarrow> bytes \<Rightarrow> md5_regs" where
  "rfc_blocks 0 m = rfc_init"
| "rfc_blocks (Suc n) m = rfc_block (take 64 (drop (64 * n) m)) (rfc_blocks n m)"

definition rfc_pad :: "bytes \<Rightarrow> bytes" where
  "rfc_pad m = m @ 0x80 # replicate ((119 - length m mod 64) mod 64) 0 @ bytes_le64 (of_nat (8 * length m))"

definition rfc_md5 :: "bytes \<Rightarrow> bytes" where
  "rfc_md5 m = (case rfc_blocks (length (rfc_pad m) div 64) (rfc_pad m) of (a, b, c, d) \<Rightarrow>
     bytes_le32 a @ bytes_le32 b @ bytes_le32 c @ bytes_le32 d)"


section \<open>One block\<close>

lemma rfc_funs:
  "md5_f1 x y z = (x AND y) OR (NOT x AND z)"
  "md5_f2 x y z = (x AND z) OR (y AND NOT z)"
  by (rule bit_word_eqI; auto simp: md5_f1_def md5_f2_def bit_simps)+

lemma rfc_four:
  assumes "\<And>j. j < 4 \<Longrightarrow> rfc_fun (i + j) = f" and "\<And>j. j < 4 \<Longrightarrow> X ! rfc_index (i + j) = w j" and "\<And>j. j < 4 \<Longrightarrow> C_array ! (i + j) = k j"
    and "rfc_shift i = s0" "rfc_shift (i + 1) = s1" "rfc_shift (i + 2) = s2" "rfc_shift (i + 3) = s3"
  shows "fold (rfc_step X) [i..<i + 4] r = md5_four f (s0, s1, s2, s3) w k r"
proof -
  have u: "[i..<i + 4] = [i, i + 1, i + 2, i + 3]" by (simp add: upt_rec numeral_3_eq_3)
  show ?thesis
    unfolding u using assms(1) [of 0] assms(1) [of 1] assms(1) [of 2] assms(1) [of 3] assms(2) [of 0] assms(2) [of 1] assms(2) [of 2] assms(2) [of 3]
      assms(3) [of 0] assms(3) [of 1] assms(3) [of 2] assms(3) [of 3] assms(4-)
    by (cases r) (simp add: rfc_step_def md5_four_def Let_def ac_simps)
qed

lemma fold_split: "fold g [0..<4 * n] r = fold (\<lambda>i. fold g [4 * i..<4 * i + 4]) [0..<n] r"
proof (induction n arbitrary: r)
  case (Suc n)
  have "[0..<4 * Suc n] = [0..<4 * n] @ [4 * n..<4 * n + 4]" using upt_add_eq_append [of 0 "4 * n" 4] by (simp add: add.commute)
  then show ?case using Suc by simp
qed simp


lemma fold_from: "fold g [a..<a + 4] r = fold (\<lambda>i. g (a + i)) [0..<4] r"
proof -
  have "[a..<a + 4] = [a, a + 1, a + 2, a + 3]" for a by (simp add: upt_rec numeral_3_eq_3)
  from this [of a] this [of 0] show ?thesis by simp
qed

lemma quad_tables:
  "list_all (\<lambda>i. list_all (\<lambda>j. rfc_index (4 * i + j) = 4 * i + j) [0..<4]) [0..<4]"
  "list_all (\<lambda>i. list_all (\<lambda>j. rfc_index (16 + 4 * i + j) = P_array ! (4 * i + j)) [0..<4]) [0..<4]"
  "list_all (\<lambda>i. list_all (\<lambda>j. rfc_index (32 + 4 * i + j) = P_array ! (16 + 4 * i + j)) [0..<4]) [0..<4]"
  "list_all (\<lambda>i. list_all (\<lambda>j. rfc_index (48 + 4 * i + j) = P_array ! (32 + 4 * i + j)) [0..<4]) [0..<4]"
  "list_all (\<lambda>i. map (\<lambda>j. rfc_shift (4 * i + j)) [0..<4] = [7, 12, 17, 22]) [0..<4]"
  "list_all (\<lambda>i. map (\<lambda>j. rfc_shift (16 + 4 * i + j)) [0..<4] = [5, 9, 14, 20]) [0..<4]"
  "list_all (\<lambda>i. map (\<lambda>j. rfc_shift (32 + 4 * i + j)) [0..<4] = [4, 11, 16, 23]) [0..<4]"
  "list_all (\<lambda>i. map (\<lambda>j. rfc_shift (48 + 4 * i + j)) [0..<4] = [6, 10, 15, 21]) [0..<4]"
  by code_simp+

lemma md5_loops_rfc: "md5_loops X r = fold (rfc_step X) [0..<64] r"
proof -
  let ?g = "\<lambda>i. fold (rfc_step X) [4 * i..<4 * i + 4]"
  have four: "map h [0..<4] = [s0, s1, s2, s3] \<Longrightarrow> h 0 = s0 \<and> h 1 = s1 \<and> h 2 = s2 \<and> h 3 = s3" for h :: "nat \<Rightarrow> nat" and s0 s1 s2 s3
    by (simp add: upt_rec numeral_2_eq_2 numeral_3_eq_3)
  have q1: "md5_four md5_f1 (7, 12, 17, 22) (\<lambda>j. X ! (4 * i + j)) (\<lambda>j. C_array ! (4 * i + j)) r = ?g i r" if "i < 4" for i r
    by (rule rfc_four [symmetric]) (use that quad_tables(1,5) four [of "\<lambda>j. rfc_shift (4 * i + j)"]
      in \<open>auto simp: list_all_iff rfc_fun_def rfc_funs fun_eq_iff\<close>)
  have q2: "md5_four md5_f2 (5, 9, 14, 20) (\<lambda>j. X ! (P_array ! (4 * i + j))) (\<lambda>j. C_array ! (16 + 4 * i + j)) r = fold (rfc_step X) [16 + 4 * i..<16 + 4 * i + 4] r" if "i < 4" for i r
    by (rule rfc_four [symmetric]) (use that quad_tables(2,6) four [of "\<lambda>j. rfc_shift (16 + 4 * i + j)"]
      in \<open>auto simp: list_all_iff rfc_fun_def rfc_funs fun_eq_iff\<close>)
  have q3: "md5_four md5_f3 (4, 11, 16, 23) (\<lambda>j. X ! (P_array ! (16 + 4 * i + j))) (\<lambda>j. C_array ! (32 + 4 * i + j)) r = fold (rfc_step X) [32 + 4 * i..<32 + 4 * i + 4] r" if "i < 4" for i r
    by (rule rfc_four [symmetric]) (use that quad_tables(3,7) four [of "\<lambda>j. rfc_shift (32 + 4 * i + j)"]
      in \<open>auto simp: list_all_iff rfc_fun_def md5_f3_def fun_eq_iff\<close>)
  have q4: "md5_four md5_f4 (6, 10, 15, 21) (\<lambda>j. X ! (P_array ! (32 + 4 * i + j))) (\<lambda>j. C_array ! (48 + 4 * i + j)) r = fold (rfc_step X) [48 + 4 * i..<48 + 4 * i + 4] r" if "i < 4" for i r
    by (rule rfc_four [symmetric]) (use that quad_tables(4,8) four [of "\<lambda>j. rfc_shift (48 + 4 * i + j)"]
      in \<open>auto simp: list_all_iff rfc_fun_def md5_f4_def fun_eq_iff\<close>)
  have cong: "(\<And>i r. i < 4 \<Longrightarrow> f i r = h i r) \<Longrightarrow> fold f [0..<4] r = fold h [0..<4] r" for f h :: "nat \<Rightarrow> md5_regs \<Rightarrow> md5_regs" and r
    by (rule fold_cong) auto
  have "[0..<16] = [0..<0 + 4] @ [4..<4 + 4] @ [8..<8 + 4] @ [12..<12 + (4 :: nat)]"
    by code_simp
  moreover have "?g (4 + i) = fold (rfc_step X) [16 + 4 * i..<16 + 4 * i + 4]" "?g (8 + i) = fold (rfc_step X) [32 + 4 * i..<32 + 4 * i + 4]"
      "?g (12 + i) = fold (rfc_step X) [48 + 4 * i..<48 + 4 * i + 4]" for i
    by (simp_all add: distrib_left)
  ultimately have "fold (rfc_step X) [0..<64] r =
      fold (\<lambda>i. ?g (12 + i)) [0..<4] (fold (\<lambda>i. ?g (8 + i)) [0..<4] (fold (\<lambda>i. ?g (4 + i)) [0..<4] (fold ?g [0..<4] r)))"
    using fold_split [of "rfc_step X" 16 r] by (simp only: fold_append comp_apply fold_from) simp
  then show ?thesis
    unfolding md5_loops_def Let_def by (simp add: cong [OF q1] cong [OF q2] cong [OF q3] cong [OF q4])
qed

section \<open>The pieces of a message\<close>

definition md5_regs_of :: "md5_ctx \<Rightarrow> md5_regs" where
  "md5_regs_of ctx = (let h = md_hash ctx in (h ! 0, h ! 1, h ! 2, h ! 3))"

lemma process_block:
  assumes "length (md_hash ctx) = 8"
  shows "md5_regs_of (md5_process_block64 ctx) = rfc_block (md_wbuffer ctx) (md5_regs_of ctx)"
    and "md_total64 (md5_process_block64 ctx) = md_total64 ctx" "md_wbuffer (md5_process_block64 ctx) = md_wbuffer ctx"
    and "length (md_hash (md5_process_block64 ctx)) = 8"
  using assms by (auto simp: md5_process_block64_def rfc_block_def md5_regs_of_def md5_loops_rfc Let_def split: prod.splits)

lemma rfc_blocks_append: "64 * n \<le> length m \<Longrightarrow> rfc_blocks n (m @ x) = rfc_blocks n m"
  by (induction n) auto

text \<open>
  The context after the message \<open>m\<close>: the full blocks are hashed, the rest is at the start of
  the buffer.
\<close>

definition md5_full :: "nat \<Rightarrow> md5_ctx \<Rightarrow> bytes \<Rightarrow> bool" where
  "md5_full n ctx m \<longleftrightarrow> length (md_wbuffer ctx) = 64 \<and> length (md_hash ctx) = 8 \<and> 64 * n \<le> length m \<and>
     md5_regs_of ctx = rfc_blocks n m \<and> take (length m - 64 * n) (md_wbuffer ctx) = drop (64 * n) m"

definition md5_at :: "md5_ctx \<Rightarrow> bytes \<Rightarrow> bool" where
  "md5_at ctx m \<longleftrightarrow> md_total64 ctx = of_nat (length m) \<and> md5_full (length m div 64) ctx m"

lemma md5_fill:
  assumes "md5_full n ctx m" and "length m + length s \<le> 64 * n + 64" and "w = overlay (length m - 64 * n) s (md_wbuffer ctx)"
  shows "md5_full n (ctx\<lparr>md_wbuffer := w\<rparr>) (m @ s)"
proof -
  have "take (length (m @ s) - 64 * n) w = take (length m - 64 * n) (md_wbuffer ctx) @ s"
    using take_overlay_full [of "length m - 64 * n" s "md_wbuffer ctx"] assms by (simp add: md5_full_def)
  then show ?thesis
    using assms rfc_blocks_append [of n m s] by (simp add: md5_full_def md5_regs_of_def)
qed

lemma md5_full_block:
  assumes "md5_full n ctx m" and "length m = 64 * n + 64"
  shows "md5_full (Suc n) (md5_process_block64 ctx) m"
proof -
  have "take 64 (md_wbuffer ctx) = md_wbuffer ctx" using assms(1) by (simp add: md5_full_def)
  then have "md_wbuffer ctx = drop (64 * n) m" using assms by (simp add: md5_full_def)
  then show ?thesis
    using assms process_block [of ctx] by (simp add: md5_full_def)
qed

lemma md5_hash_loop_law:
  assumes "md5_full n ctx m" and "length m = 64 * n + unat bufpos" and "unat bufpos < 64" and "off + unat len \<le> length buf"
  shows "\<exists>ctx'. md5_hash_loop buf ctx bufpos off len = Some ctx' \<and> md_total64 ctx' = md_total64 ctx \<and>
    (let m' = m @ take (unat len) (drop off buf) in md5_full (length m' div 64) ctx' m')"
  using assms
proof (induction "unat len" arbitrary: len n ctx m bufpos off rule: less_induct)
  case less
  note prems = less.prems
  define r where "r = (if ucast (64 - bufpos) > len then ucast len else 64 - bufpos)"
  have u64: "unat (64 - bufpos) = 64 - unat bufpos" using prems(3) by (simp add: unat_sub word_le_nat_alt)
  have uc: "unat (ucast (64 - bufpos) :: u64) = 64 - unat bufpos" using u64 by (simp add: unsigned_ucast_eq take_bit_nat_eq_self)
  have ru: "unat r = min (64 - unat bufpos) (unat len)"
  proof (cases "ucast (64 - bufpos) > len")
    case True
    then have l: "unat len < 64 - unat bufpos" using uc by (simp add: word_less_nat_alt)
    then have "unat (ucast len :: u32) = unat len" by (simp add: unsigned_ucast_eq take_bit_nat_eq_self)
    then show ?thesis using True l by (simp add: r_def)
  next
    case False
    then have "64 - unat bufpos \<le> unat len" using uc by (simp add: word_less_nat_alt)
    then show ?thesis using False u64 by (simp add: r_def)
  qed
  have rb: "unat r \<le> 64 - unat bufpos" "unat r \<le> unat len" unfolding ru by simp_all
  let ?s = "take (unat r) (drop off buf)" let ?w = "overlay (unat bufpos) ?s (md_wbuffer ctx)" let ?ctx = "ctx\<lparr>md_wbuffer := ?w\<rparr>"
  have ls: "length ?s = unat r" using prems(4) ru by simp
  have wl: "length (md_wbuffer ctx) = 64" using prems(1) by (simp add: md5_full_def)
  have run: "md5_hash_loop buf ctx bufpos off len = (if bufpos + r - 64 \<noteq> 0 then Some ?ctx
      else md5_hash_loop buf (md5_process_block64 ?ctx) 0 (off + unat r) (len - ucast r))"
    using prems(3,4) ru ls wl by (subst md5_hash_loop.simps) (simp add: r_def [symmetric] Let_def get_range_in put_range_in)
  have full: "md5_full n ?ctx (m @ ?s)"
    using prems(2,3) ls rb by (intro md5_fill [OF prems(1)]) simp_all
  have ub: "unat (bufpos + r) = unat bufpos + unat r" using prems(3) ru by (simp add: unat_word_ariths)
  have z: "bufpos + r - 64 = 0 \<longleftrightarrow> unat bufpos + unat r = 64"
  proof -
    have "bufpos + r - 64 = 0 \<longleftrightarrow> bufpos + r = 64" by auto
    also have "\<dots> \<longleftrightarrow> unat (bufpos + r) = 64" by (simp add: word_unat_eq_iff)
    finally show ?thesis unfolding ub .
  qed
  show ?case
  proof (cases "unat bufpos + unat r = 64")
    case False
    then have all: "unat r = unat len" "unat bufpos + unat len < 64" using ru False prems(3) by (cases "64 - unat bufpos \<le> unat len"; simp)+
    have "length (m @ ?s) div 64 = n" using prems(2) ls all by (intro div_nat_eqI) simp_all
    then show ?thesis using run False z full all by (simp add: Let_def)
  next
    case True
    have ul: "unat (ucast r :: u64) = unat r" by (simp add: unsigned_ucast_eq take_bit_nat_eq_self less_trans [OF unsigned_less])
    have l2: "unat (len - ucast r) = unat len - unat r" using ul ru by (simp add: unat_sub word_le_nat_alt)
    have "0 < unat r" using True prems(3) by simp
    then have lt: "unat (len - ucast r) < unat len" unfolding l2 using ru by simp
    have full': "md5_full (Suc n) (md5_process_block64 ?ctx) (m @ ?s)"
      by (rule md5_full_block [OF full]) (use prems(2) ls True in simp)
    have c8: "length (md_hash ?ctx) = 8" using prems(1) by (simp add: md5_full_def)
    have rest: "?s @ take (unat len - unat r) (drop (off + unat r) buf) = take (unat len) (drop off buf)"
      using take_add [of "unat r" "unat len - unat r" "drop off buf"] rb(2) by (simp add: add.commute)
    have "\<exists>ctx'. md5_hash_loop buf (md5_process_block64 ?ctx) 0 (off + unat r) (len - ucast r) = Some ctx' \<and>
        md_total64 ctx' = md_total64 (md5_process_block64 ?ctx) \<and>
        (let m' = (m @ ?s) @ take (unat (len - ucast r)) (drop (off + unat r) buf) in md5_full (length m' div 64) ctx' m')"
    proof (rule less.hyps [OF lt full'])
      show "length (m @ ?s) = 64 * Suc n + unat (0 :: u32)" using prems(2) ls True by simp
      show "off + unat r + unat (len - ucast r) \<le> length buf" using prems(4) l2 ru by simp
    qed simp
    then show ?thesis
      using run z True process_block(2) [OF c8] unfolding l2 append_assoc rest by simp
  qed
qed

lemma low6: "unat (ucast (w AND 63 :: u64) :: u32) = unat w mod 64"
proof -
  have "w AND 63 = take_bit 6 w" by (simp add: take_bit_eq_mask mask_eq_exp_minus_1)
  then have "w AND 63 = w mod 64" by (simp add: take_bit_eq_mod)
  then have "unat (w AND 63) = unat w mod 64" by (simp add: unat_mod_distrib)
  moreover have "unat w mod 64 < 64" by simp
  then have "unat w mod 64 < 2 ^ 32" by (rule less_trans) simp
  ultimately show ?thesis by (simp add: unsigned_ucast_eq take_bit_nat_eq_self)
qed

lemma unat_of_nat_mod64: "unat (of_nat k :: u64) mod 64 = k mod 64"
  by (simp add: unat_of_nat take_bit_eq_mod mod_mod_cancel)

lemma md5_hash_prefix:
  assumes "md5_at ctx m" and "n < 2 ^ 64" and "n \<le> length buf"
  shows "\<exists>ctx'. md5_hash ctx buf (of_nat n) = Some ctx' \<and> md5_at ctx' (m @ take n buf)"
proof -
  let ?ctx = "ctx\<lparr>md_total64 := md_total64 ctx + of_nat n\<rparr>"
  let ?b = "ucast (md_total64 ctx AND 63) :: u32"
  have b: "unat ?b = length m mod 64" using assms(1) by (simp add: low6 md5_at_def unat_of_nat_mod64)
  have len: "unat (of_nat n :: u64) = n" using assms(2) by (simp add: unat_of_nat take_bit_nat_eq_self)
  have "md5_full (length m div 64) ?ctx m" using assms(1) by (simp add: md5_at_def md5_full_def md5_regs_of_def)
  from md5_hash_loop_law [OF this, of ?b 0 "of_nat n" buf] b len assms(3) show ?thesis
    using assms(1) by (auto simp: md5_hash_def md5_at_def Let_def min_def)
qed

lemma md5_hash_at:
  assumes "md5_at ctx m" and "length buf < 2 ^ 64"
  shows "\<exists>ctx'. md5_hash ctx buf (of_nat (length buf)) = Some ctx' \<and> md5_at ctx' (m @ buf)"
  using md5_hash_prefix [OF assms(1), of "length buf" buf] assms(2) by simp

lemma pad_zeros: "k \<le> 55 \<Longrightarrow> (119 - k) mod 64 = 55 - (k :: nat)" "55 < k \<Longrightarrow> k < 64 \<Longrightarrow> (119 - k) mod 64 = (63 - k) + (56 :: nat)"
proof -
  assume "k \<le> 55"
  then have "119 - k = 64 + (55 - k)" by simp
  then show "(119 - k) mod 64 = 55 - k" by (simp only: mod_add_self1) simp
qed simp

lemma md5_end_law:
  assumes "md5_at ctx m"
  shows "\<exists>ctx'. md5_end ctx = Some ctx' \<and> length (md_hash ctx') = 8 \<and>
    md5_regs_of ctx' = rfc_blocks (length (rfc_pad m) div 64) (rfc_pad m)"
proof -
  define n where "n = length m div 64"
  define k where "k = length m mod 64"
  let ?len = "bytes_le64 (of_nat (8 * length m))"
  have len: "length m = 64 * n + k" by (simp add: n_def k_def)
  have k: "k < 64" by (simp add: k_def)
  let ?b = "ucast (md_total64 ctx AND 63) :: u32"
  have b: "unat ?b = k" using assms by (simp add: low6 md5_at_def unat_of_nat_mod64 k_def)
  have full: "md5_full n ctx m" and t: "push_bit 3 (md_total64 ctx) = of_nat (8 * length m)"
    using assms by (simp_all add: md5_at_def push_bit_eq_mult n_def)
  have wl: "length (md_wbuffer ctx) = 64" using full by (simp add: md5_full_def)
  let ?c1 = "ctx\<lparr>md_wbuffer := (md_wbuffer ctx)[k := 0x80]\<rparr>"
  have "(md_wbuffer ctx)[k := 0x80] = overlay (length m - 64 * n) [0x80] (md_wbuffer ctx)"
    using k wl by (simp add: overlay_def upd_conv_take_nth_drop len)
  then have f1: "md5_full n ?c1 (m @ [0x80])"
    using k len by (intro md5_fill [OF full]) simp_all
  define p where "p = ?b + 1"
  have b1: "unat p = k + 1" using b k by (simp add: p_def unat_word_ariths)
  have rem: "unat (64 - p) = 63 - k" using b1 k by (simp add: unat_sub word_le_nat_alt)
  have ge: "8 \<le> 64 - p \<longleftrightarrow> k \<le> 55" using rem k by (simp add: word_le_nat_alt) linarith
  have start: "md5_end ctx = md5_end_loop ?c1 p" using b k wl by (simp add: md5_end_def put_at_in p_def)
  let ?w2 = "overlay (k + 1) (replicate (63 - k) 0) ((md_wbuffer ctx)[k := 0x80])"
  show ?thesis
  proof (cases "k \<le> 55")
    case True
    let ?z = "55 - k"
    have zs: "(119 - length m mod 64) mod 64 = ?z" unfolding k_def [symmetric] by (rule pad_zeros(1) [OF True])
    let ?w3 = "overlay 56 ?len ?w2"
    have w2: "length ?w2 = 64" using wl k by simp
    have "?w3 = overlay (k + 1) (replicate ?z 0 @ ?len) ((md_wbuffer ctx)[k := 0x80])"
      using wl k True by (intro nth_equalityI) (auto simp: nth_overlay nth_append)
    then have "md5_full n (?c1\<lparr>md_wbuffer := ?w3\<rparr>) ((m @ [0x80]) @ (replicate ?z 0 @ ?len))"
      using True len by (intro md5_fill [OF f1]) (simp_all add: len)
    then have f3: "md5_full n (?c1\<lparr>md_wbuffer := ?w3\<rparr>) (rfc_pad m)" by (simp add: rfc_pad_def zs)
    have pl: "length (rfc_pad m) = 64 * n + 64" using True len k by (simp add: rfc_pad_def pad_zeros)
    have run: "md5_end_loop ?c1 p = Some (md5_process_block64 (?c1\<lparr>md_wbuffer := ?w3\<rparr>))"
      using True b1 rem ge wl w2 t k by (subst md5_end_loop.simps) (simp add: Let_def put_range_in)
    have "md5_full (Suc n) (md5_process_block64 (?c1\<lparr>md_wbuffer := ?w3\<rparr>)) (rfc_pad m)" by (rule md5_full_block [OF f3 pl])
    then show ?thesis using start run pl by (simp add: md5_full_def)
  next
    case False
    have zs: "(119 - length m mod 64) mod 64 = (63 - k) + 56" unfolding k_def [symmetric] using False k by (intro pad_zeros(2)) simp_all
    let ?m2 = "m @ [0x80] @ replicate (63 - k) 0"
    have w2: "length ?w2 = 64" using wl k by simp
    have "md5_full n (?c1\<lparr>md_wbuffer := ?w2\<rparr>) ((m @ [0x80]) @ replicate (63 - k) 0)"
      using k len by (intro md5_fill [OF f1]) (simp_all add: len)
    then have f2: "md5_full n (?c1\<lparr>md_wbuffer := ?w2\<rparr>) ?m2" by simp
    have l2: "length ?m2 = 64 * n + 64" using k len by simp
    let ?c2 = "md5_process_block64 (?c1\<lparr>md_wbuffer := ?w2\<rparr>)"
    have g2: "md5_full (Suc n) ?c2 ?m2" by (rule md5_full_block [OF f2 l2])
    have h8: "length (md_hash (?c1\<lparr>md_wbuffer := ?w2\<rparr>)) = 8" using full by (simp add: md5_full_def)
    have c2: "md_total64 ?c2 = md_total64 ctx" "md_wbuffer ?c2 = ?w2" using process_block(2,3) [OF h8] by simp_all
    let ?w3 = "overlay 0 (replicate 64 0) ?w2" let ?w4 = "overlay 56 ?len ?w3"
    have w3: "length ?w3 = 64" using w2 by simp
    have "?w4 = overlay 0 (replicate 56 0 @ ?len) ?w2"
      using w2 by (intro nth_equalityI) (auto simp: nth_overlay nth_append)
    then have "md5_full (Suc n) (?c2\<lparr>md_wbuffer := ?w4\<rparr>) (?m2 @ (replicate 56 0 @ ?len))"
      using l2 c2 by (intro md5_fill [OF g2]) simp_all
    then have f4: "md5_full (Suc n) (?c2\<lparr>md_wbuffer := ?w4\<rparr>) (rfc_pad m)"
      by (simp add: rfc_pad_def zs replicate_add)
    have pl: "length (rfc_pad m) = 64 * Suc n + 64" using len k False by (simp add: rfc_pad_def pad_zeros)
    have "md5_end_loop ?c1 p = md5_end_loop ?c2 0"
      using False b1 rem ge wl k by (subst md5_end_loop.simps) (simp add: Let_def put_range_in)
    also have "\<dots> = Some (md5_process_block64 (?c2\<lparr>md_wbuffer := ?w4\<rparr>))"
      using w2 w3 c2 t by (subst md5_end_loop.simps) (simp add: Let_def put_range_in)
    finally have run: "md5_end_loop ?c1 p = Some (md5_process_block64 (?c2\<lparr>md_wbuffer := ?w4\<rparr>))" .
    have "md5_full (Suc (Suc n)) (md5_process_block64 (?c2\<lparr>md_wbuffer := ?w4\<rparr>)) (rfc_pad m)" by (rule md5_full_block [OF f4 pl])
    then show ?thesis using start run pl by (simp add: md5_full_def)
  qed
qed

primrec md5_hash_all :: "md5_ctx \<Rightarrow> bytes list \<Rightarrow> md5_ctx option" where
  "md5_hash_all ctx [] = Some ctx"
| "md5_hash_all ctx (c # cs) = do { ctx \<leftarrow> md5_hash ctx c (of_nat (length c)); md5_hash_all ctx cs }"

lemma md5_hash_all_at:
  "md5_at ctx m \<Longrightarrow> (\<And>c. c \<in> set cs \<Longrightarrow> length c < 2 ^ 64) \<Longrightarrow> \<exists>ctx'. md5_hash_all ctx cs = Some ctx' \<and> md5_at ctx' (m @ concat cs)"
proof (induction cs arbitrary: ctx m)
  case (Cons c cs)
  then obtain ctx1 where c1: "md5_hash ctx c (of_nat (length c)) = Some ctx1" "md5_at ctx1 (m @ c)"
    using md5_hash_at [of ctx m c] by auto
  then show ?case using Cons.IH [OF c1(2)] Cons.prems(2) by simp
qed simp

lemma md5_begin_at: "length (md_wbuffer ctx) = 64 \<Longrightarrow> length (md_hash ctx) = 8 \<Longrightarrow> md5_at (md5_begin ctx) []"
  by (simp add: md5_at_def md5_full_def md5_regs_of_def md5_begin_def rfc_init_def Let_def)

lemma hash_bytes:
  assumes "length (md_hash ctx) = 8" and "md5_regs_of ctx = (a, b, c, d)"
  shows "concat (map bytes_le32 (take 4 (md_hash ctx))) = bytes_le32 a @ bytes_le32 b @ bytes_le32 c @ bytes_le32 d"
proof -
  obtain x0 x1 x2 x3 xs where "md_hash ctx = x0 # x1 # x2 # x3 # xs"
    using assms(1) by (auto simp: numeral_eq_Suc length_Suc_conv)
  then show ?thesis using assms(2) by (simp add: md5_regs_of_def Let_def)
qed

lemma md5_end_text:
  assumes "md5_at ctx m"
  shows "\<exists>ctx'. md5_end ctx = Some ctx' \<and> hash_bin_to_hex ctx' = minion_bin2hex (rfc_md5 m) @ [0]"
proof -
  obtain ctx2 where c2: "md5_end ctx = Some ctx2" "length (md_hash ctx2) = 8"
      "md5_regs_of ctx2 = rfc_blocks (length (rfc_pad m) div 64) (rfc_pad m)"
    using md5_end_law [OF assms] by auto
  obtain a b c d where r: "rfc_blocks (length (rfc_pad m) div 64) (rfc_pad m) = (a, b, c, d)"
    by (cases "rfc_blocks (length (rfc_pad m) div 64) (rfc_pad m)") auto
  show ?thesis
    using c2(1) hash_bytes [OF c2(2)] c2(3) r by (simp add: hash_bin_to_hex_def rfc_md5_def)
qed

section \<open>Properties\<close>

text \<open>
  C22: MD5.  However a message is cut into pieces, hashing them one after the other and ending the
  context returns and leaves the digest that RFC 1321 defines for the whole message, which
  \<open>hash_bin_to_hex\<close> prints; the context may start as uninitialised memory.
\<close>

theorem md5_correct:
  assumes "length (md_wbuffer ctx) = 64" and "length (md_hash ctx) = 8" and "\<forall>c \<in> set cs. length c < 2 ^ 64"
  shows "\<exists>ctx'. do { ctx \<leftarrow> md5_hash_all (md5_begin ctx) cs; md5_end ctx } = Some ctx' \<and>
    hash_bin_to_hex ctx' = minion_bin2hex (rfc_md5 (concat cs)) @ [0]"
proof -
  obtain ctx1 where c1: "md5_hash_all (md5_begin ctx) cs = Some ctx1" "md5_at ctx1 (concat cs)"
    using md5_hash_all_at [OF md5_begin_at [OF assms(1,2)], of cs] assms(3) by auto
  show ?thesis using c1(1) md5_end_text [OF c1(2)] by simp
qed

text \<open>The test vector of RFC 1321 for the message abc, in two pieces.\<close>

definition fresh_ctx :: md5_ctx where
  "fresh_ctx = \<lparr>md_wbuffer = replicate 64 0xAA, md_total64 = 77, md_hash = replicate 8 0\<rparr>"

theorem md5_correct_witness:
  "\<exists>ctx'. do { ctx \<leftarrow> md5_hash_all (md5_begin fresh_ctx) [[0x61], [0x62, 0x63]]; md5_end ctx } = Some ctx' \<and>
     hash_bin_to_hex ctx' = [0x39, 0x30, 0x30, 0x31, 0x35, 0x30, 0x39, 0x38, 0x33, 0x63, 0x64, 0x32, 0x34, 0x66, 0x62, 0x30,
       0x64, 0x36, 0x39, 0x36, 0x33, 0x66, 0x37, 0x64, 0x32, 0x38, 0x65, 0x31, 0x37, 0x66, 0x37, 0x32, 0]"
proof -
  have digest: "rfc_md5 [0x61, 0x62, 0x63] = [0x90, 0x01, 0x50, 0x98, 0x3c, 0xd2, 0x4f, 0xb0, 0xd6, 0x96, 0x3f, 0x7d, 0x28, 0xe1, 0x7f, 0x72]"
    by code_simp
  show ?thesis
    using md5_correct [of fresh_ctx "[[0x61], [0x62, 0x63]]"] digest
    by (simp add: fresh_ctx_def minion_bin2hex_def hex_char_def)
qed

end
