(* ===== verification/Printf.thy ===== *)
theory Printf
  imports Prelude
begin

text \<open>
  The small \<open>printf\<close> of \<open>mini-printf.c\<close>: number conversion, the format loop with its truncation
  to the buffer, and \<open>printf\<close> itself, which formats into 99 bytes and sends them to the console.
  The variable arguments are 64-bit slots; \<open>cstr\<close> gives the characters of the string at an address.
\<close>

section \<open>The program\<close>

text \<open>Digits, the lowest first; division by zero and a radix that makes no progress have no result.\<close>

partial_function (option) itoa_loop :: "u32 \<Rightarrow> bool \<Rightarrow> u32 \<Rightarrow> bytes option" where
  "itoa_loop radix uppercase value =
     (if radix = 0 then None
      else
        let digit = value mod radix;
            c = (if digit < 10 then 0x30 + ucast digit else (if uppercase then 0x41 else 0x61) + ucast digit - 10);
            value = value div radix in
        if sint value > 0 then do { cs \<leftarrow> itoa_loop radix uppercase value; Some (c # cs) } else Some [c])"

text \<open>The number of characters, and the buffer; the characters are built back to front and turned round.\<close>

definition mini_itoa :: "u32 \<Rightarrow> u32 \<Rightarrow> bool \<Rightarrow> bool \<Rightarrow> nat \<Rightarrow> bytes \<Rightarrow> (nat \<times> bytes) option" where
  "mini_itoa value radix uppercase unsig zero_pad buffer =
     (if radix > 16 then Some (0, buffer)
      else
        let negative = (sint value < 0 \<and> \<not> unsig); value = (if negative then - value else value) in do {
          cs \<leftarrow> itoa_loop radix uppercase value;
          let cs = cs @ replicate (zero_pad - length cs) 0x30;
          let cs = (if negative then cs @ [0x2D] else cs);
          buffer \<leftarrow> put_range 0 (rev cs @ [0]) buffer;
          Some (length cs, buffer) })"

text \<open>The two writers: \<open>p\<close> is the offset of \<open>pbuffer\<close>.\<close>

definition mini_putc :: "u32 \<Rightarrow> u8 \<Rightarrow> nat \<Rightarrow> bytes \<Rightarrow> (nat \<times> bytes) option" where
  "mini_putc buffer_len ch p buffer =
     (if of_nat (p + 1) \<ge> buffer_len then Some (p, buffer)
      else do {
        buffer \<leftarrow> put_at p ch buffer;
        buffer \<leftarrow> put_at (p + 1) 0 buffer;
        Some (p + 1, buffer) })"

definition mini_puts :: "u32 \<Rightarrow> bytes \<Rightarrow> nat \<Rightarrow> nat \<Rightarrow> bytes \<Rightarrow> (nat \<times> bytes) option" where
  "mini_puts buffer_len s len p buffer =
     (let room = int (unat buffer_len) - int p - 1;
          len = (if room < int len then nat (room mod 2 ^ 32) else len) in do {
        m \<leftarrow> get_range 0 len s;
        buffer \<leftarrow> put_range p m buffer;
        buffer \<leftarrow> put_at (p + len) 0 buffer;
        Some (p + len, buffer) })"

text \<open>After a percent sign: \<open>Some None\<close> ends the text, otherwise padding, conversion and the rest.\<close>

definition mini_spec :: "bytes \<Rightarrow> (nat \<times> u8 \<times> bytes) option option" where
  "mini_spec fmt = (case fmt of [] \<Rightarrow> None
     | ch # fmt \<Rightarrow>
         if ch = 0x30 then (case fmt of [] \<Rightarrow> None
           | ch # fmt \<Rightarrow>
               if ch = 0 then Some None
               else
                 let zero_pad = (if 0x30 \<le> ch \<and> ch \<le> 0x39 then unat (ch - 0x30) else 0) in
                 (case fmt of [] \<Rightarrow> None
                  | ch # fmt \<Rightarrow> Some (if ch = 0 then None else Some (zero_pad, ch, fmt))))
         else Some (if ch = 0 then None else Some (0, ch, fmt)))"

text \<open>A conversion: the arguments left, the scratch buffer and the output.\<close>

definition mini_conv :: "(u64 \<Rightarrow> bytes option) \<Rightarrow> u32 \<Rightarrow> nat \<Rightarrow> u8 \<Rightarrow> u64 list \<Rightarrow> bytes \<Rightarrow> nat \<Rightarrow> bytes \<Rightarrow>
    (u64 list \<times> bytes \<times> nat \<times> bytes) option" where
  "mini_conv cstr buffer_len zero_pad ch va bf p buffer =
     (if ch = 0x75 \<or> ch = 0x64 then do {
        v \<leftarrow> get_at 0 va;
        (len, bf) \<leftarrow> mini_itoa (ucast v) 10 False (ch = 0x75) zero_pad bf;
        (p, buffer) \<leftarrow> mini_puts buffer_len bf len p buffer;
        Some (tl va, bf, p, buffer) }
      else if ch = 0x78 \<or> ch = 0x58 then do {
        v \<leftarrow> get_at 0 va;
        (len, bf) \<leftarrow> mini_itoa (ucast v) 16 (ch = 0x58) True zero_pad bf;
        (p, buffer) \<leftarrow> mini_puts buffer_len bf len p buffer;
        Some (tl va, bf, p, buffer) }
      else if ch = 0x63 then do {
        v \<leftarrow> get_at 0 va;
        (p, buffer) \<leftarrow> mini_putc buffer_len (ucast v) p buffer;
        Some (tl va, bf, p, buffer) }
      else if ch = 0x73 then do {
        v \<leftarrow> get_at 0 va;
        s \<leftarrow> cstr v;
        (p, buffer) \<leftarrow> mini_puts buffer_len s (length s) p buffer;
        Some (tl va, bf, p, buffer) }
      else do {
        (p, buffer) \<leftarrow> mini_putc buffer_len ch p buffer;
        Some (va, bf, p, buffer) })"

lemma mini_spec_shorter: "mini_spec fmt = Some (Some (z, ch, rest)) \<Longrightarrow> length rest < length fmt"
  by (auto simp: mini_spec_def Let_def split: list.splits if_splits)

function mini_loop :: "(u64 \<Rightarrow> bytes option) \<Rightarrow> u32 \<Rightarrow> bytes \<Rightarrow> u64 list \<Rightarrow> bytes \<Rightarrow> nat \<Rightarrow> bytes \<Rightarrow> (nat \<times> bytes) option" where
  "mini_loop cstr buffer_len fmt va bf p buffer =
     (case fmt of [] \<Rightarrow> None
      | ch # fmt \<Rightarrow>
          if ch = 0 \<or> of_nat (p + 1) \<ge> buffer_len then Some (p, buffer)
          else if ch \<noteq> 0x25 then do {
            (p, buffer) \<leftarrow> mini_putc buffer_len ch p buffer;
            mini_loop cstr buffer_len fmt va bf p buffer }
          else (case mini_spec fmt of None \<Rightarrow> None
            | Some None \<Rightarrow> Some (p, buffer)
            | Some (Some (zero_pad, ch, fmt)) \<Rightarrow> do {
                (va, bf, p, buffer) \<leftarrow> mini_conv cstr buffer_len zero_pad ch va bf p buffer;
                mini_loop cstr buffer_len fmt va bf p buffer }))"
  by pat_completeness auto
termination
  by (relation "measure (\<lambda>(_, _, fmt, _). length fmt)") (auto dest: mini_spec_shorter)

declare mini_loop.simps [simp del]

text \<open>\<open>bf\<close> is the uninitialised scratch buffer.\<close>

definition mini_vsnprintf :: "(u64 \<Rightarrow> bytes option) \<Rightarrow> bytes \<Rightarrow> bytes \<Rightarrow> u32 \<Rightarrow> bytes \<Rightarrow> u64 list \<Rightarrow> (nat \<times> bytes) option" where
  "mini_vsnprintf cstr bf buffer buffer_len fmt va = mini_loop cstr buffer_len fmt va bf 0 buffer"

text \<open>\<open>printf\<close>: the value returned and the characters sent; \<open>buffer\<close> is uninitialised.\<close>

definition mini_printf :: "(u64 \<Rightarrow> bytes option) \<Rightarrow> bytes \<Rightarrow> bytes \<Rightarrow> bytes \<Rightarrow> u64 list \<Rightarrow> (nat \<times> bytes) option" where
  "mini_printf cstr bf buffer fmt va = do {
     (rslt, buffer) \<leftarrow> mini_vsnprintf cstr bf buffer 99 fmt va;
     if 0 \<in> set buffer then Some (rslt, takeWhile (\<lambda>c. c \<noteq> 0) buffer) else None }"

section \<open>The specification\<close>

text \<open>The digits of a number, the highest first.\<close>

fun nat_digits :: "nat \<Rightarrow> nat \<Rightarrow> nat list" where
  "nat_digits r n = (if r \<le> 1 \<or> n < r then [n] else nat_digits r (n div r) @ [n mod r])"

declare nat_digits.simps [simp del]

definition digit_char :: "bool \<Rightarrow> nat \<Rightarrow> u8" where
  "digit_char up d = (if d < 10 then of_nat (48 + d) else of_nat ((if up then 55 else 87) + d))"

definition num_text :: "nat \<Rightarrow> bool \<Rightarrow> nat \<Rightarrow> nat \<Rightarrow> bytes" where
  "num_text r up pad n = (let s = map (digit_char up) (nat_digits r n) in replicate (pad - length s) 0x30 @ s)"

definition int_text :: "nat \<Rightarrow> int \<Rightarrow> bytes" where
  "int_text pad k = (if k < 0 then 0x2D # num_text 10 False pad (nat (- k)) else num_text 10 False pad (nat k))"

text \<open>The text of a conversion and the arguments left.\<close>

definition conv_text :: "(u64 \<Rightarrow> bytes option) \<Rightarrow> nat \<Rightarrow> u8 \<Rightarrow> u64 list \<Rightarrow> (bytes \<times> u64 list) option" where
  "conv_text cstr pad ch va =
     (if ch \<in> {0x75, 0x64, 0x78, 0x58, 0x63, 0x73} then
        (case va of [] \<Rightarrow> None
         | v # vs \<Rightarrow>
             if ch = 0x75 then Some (num_text 10 False pad (unat (ucast v :: u32)), vs)
             else if ch = 0x64 then Some (int_text pad (sint (ucast v :: u32)), vs)
             else if ch = 0x78 then Some (num_text 16 False pad (unat (ucast v :: u32)), vs)
             else if ch = 0x58 then Some (num_text 16 True pad (unat (ucast v :: u32)), vs)
             else if ch = 0x63 then Some ([ucast v], vs)
             else map_option (\<lambda>s. (s, vs)) (cstr v))
      else Some ([ch], va))"

function format_text :: "(u64 \<Rightarrow> bytes option) \<Rightarrow> bytes \<Rightarrow> u64 list \<Rightarrow> bytes option" where
  "format_text cstr fmt va =
     (case fmt of [] \<Rightarrow> None
      | ch # fmt \<Rightarrow>
          if ch = 0 then Some []
          else if ch \<noteq> 0x25 then map_option ((#) ch) (format_text cstr fmt va)
          else (case mini_spec fmt of None \<Rightarrow> None
            | Some None \<Rightarrow> Some []
            | Some (Some (pad, ch, fmt)) \<Rightarrow> do {
                (s, va) \<leftarrow> conv_text cstr pad ch va;
                t \<leftarrow> format_text cstr fmt va;
                Some (s @ t) }))"
  by pat_completeness auto
termination
  by (relation "measure (\<lambda>(_, fmt, _). length fmt)") (auto dest: mini_spec_shorter)

declare format_text.simps [simp del]

section \<open>Numbers\<close>

lemma length_nat_digits: "2 \<le> r \<Longrightarrow> n < r ^ Suc k \<Longrightarrow> length (nat_digits r n) \<le> Suc k"
proof (induction k arbitrary: n)
  case 0 then show ?case by (subst nat_digits.simps) simp
next
  case (Suc k)
  have "n div r < r ^ Suc k" using Suc.prems by (simp add: div_less_iff_less_mult ac_simps)
  then show ?case using Suc.IH Suc.prems(1) by (subst nat_digits.simps) simp
qed

lemma digit_of:
  assumes "2 \<le> unat r" "unat r \<le> 16"
  shows "(if v mod r < 10 then 0x30 + ucast (v mod r) else (if up then 0x41 else 0x61) + ucast (v mod r) - 10)
    = digit_char up (unat v mod unat (r :: u32))"
proof -
  have d: "(ucast (v mod r) :: u8) = of_nat (unat v mod unat r)"
    by (simp only: of_nat_unat flip: unat_mod)
  have "v mod r < 10 \<longleftrightarrow> unat v mod unat r < 10" by (simp add: word_less_nat_alt unat_mod)
  then show ?thesis by (simp add: d digit_char_def)
qed

lemma itoa_loop_law:
  assumes "2 \<le> unat r" "unat r \<le> 16"
  shows "itoa_loop r up v = Some (rev (map (digit_char up) (nat_digits (unat r) (unat v))))"
proof (induction "unat v" arbitrary: v rule: less_induct)
  case less
  have r0: "r \<noteq> 0" using assms(1) by auto
  have q: "unat (v div r) = unat v div unat r" by (simp add: unat_div)
  have "unat v < 2 ^ 32" using unsigned_less [of v] by simp
  then have "unat v div unat r < 2 ^ 31" using assms(1) by (simp add: div_less_iff_less_mult) 
  then have s: "sint (v div r) = int (unat v div unat r)" using sint_small_nat [of "v div r"] q by simp
  show ?case
  proof (cases "unat v < unat r")
    case True
    then show ?thesis using assms r0 s
      by (subst itoa_loop.simps, subst nat_digits.simps) (simp add: Let_def digit_of)
  next
    case False
    then have "unat v div unat r < unat v" "0 < unat v div unat r" using assms(1) by (simp_all add: div_greater_zero_iff)
    then have "itoa_loop r up (v div r) = Some (rev (map (digit_char up) (nat_digits (unat r) (unat (v div r)))))"
      using less.hyps [of "v div r"] q by simp
    then show ?thesis using assms r0 s False \<open>0 < unat v div unat r\<close>
      by (subst itoa_loop.simps, subst nat_digits.simps) (simp add: Let_def digit_of q)
  qed
qed

lemma length_num_text:
  assumes "2 \<le> r" "n < r ^ 32" "pad \<le> 9" and "n < r ^ Suc k" "Suc k \<le> 10"
  shows "length (num_text r up pad n) \<le> 10"
  using length_nat_digits [of r n k] assms by (simp add: num_text_def Let_def)

lemma unat_neg_sint: "sint (v :: u32) < 0 \<Longrightarrow> unat (- v) = nat (- sint v)"
proof -
  assume n: "sint v < 0"
  have "- (2 ^ 31) \<le> sint v" using sint_ge [of v] by simp
  then have "unat (of_int (- sint v) :: u32) = nat (- sint v)" using n by (intro unat_of_int_small) auto
  then show ?thesis by simp
qed

lemma mini_itoa_law:
  assumes r: "2 \<le> unat r" "unat r \<le> 16"
    and t: "t = (if sint v < 0 \<and> \<not> unsig then 0x2D # num_text (unat r) up pad (nat (- sint v))
      else num_text (unat r) up pad (unat v))" and fits: "length t < length bf"
  shows "mini_itoa v r up unsig pad bf = Some (length t, overlay 0 (t @ [0]) bf)"
proof -
  have r16: "\<not> r > 16" using r(2) by (simp add: word_less_nat_alt)
  define w where "w = (if sint v < 0 \<and> \<not> unsig then - v else v)"
  define cs where "cs = rev (map (digit_char up) (nat_digits (unat r) (unat w)))"
  have l: "itoa_loop r up w = Some cs" by (simp add: cs_def itoa_loop_law [OF r])
  have c: "rev (if sint v < 0 \<and> \<not> unsig then (cs @ replicate (pad - length cs) 0x30) @ [0x2D] else cs @ replicate (pad - length cs) 0x30) = t"
    using t by (simp add: cs_def w_def num_text_def Let_def unat_neg_sint)
  have "length (if sint v < 0 \<and> \<not> unsig then (cs @ replicate (pad - length cs) 0x30) @ [0x2D] else cs @ replicate (pad - length cs) 0x30) = length t"
    using c by (metis length_rev)
  then show ?thesis
    using r16 l fits c unfolding mini_itoa_def Let_def w_def [symmetric] by (simp add: put_range_def)
qed

section \<open>Output\<close>

text \<open>From offset \<open>p\<close> the text \<open>s\<close>, as much of it as fits, has been written and terminated.\<close>

definition wrote :: "nat \<Rightarrow> nat \<Rightarrow> bytes \<Rightarrow> bytes \<Rightarrow> nat \<Rightarrow> bytes \<Rightarrow> bool" where
  "wrote L p b s p' b' \<longleftrightarrow> p' = min (L - 1) (p + length s) \<and> length b' = length b \<and>
     take p' b' = take p b @ take (p' - p) s \<and> drop L b' = drop L b \<and>
     (s \<noteq> [] \<or> b ! p = 0 \<longrightarrow> b' ! p' = 0)"

lemma wrote_trans:
  assumes "wrote L p b s p1 b1" "wrote L p1 b1 s' p2 b2" "p < L"
  shows "wrote L p b (s @ s') p2 b2"
proof -
  have p1: "p1 = min (L - 1) (p + length s)" and p2: "p2 = min (L - 1) (p1 + length s')"
    and t1: "take p1 b1 = take p b @ take (p1 - p) s" and t2: "take p2 b2 = take p1 b1 @ take (p2 - p1) s'"
    and r: "length b1 = length b" "length b2 = length b1" "drop L b1 = drop L b" "drop L b2 = drop L b1"
    and z: "s \<noteq> [] \<or> b ! p = 0 \<longrightarrow> b1 ! p1 = 0" "s' \<noteq> [] \<or> b1 ! p1 = 0 \<longrightarrow> b2 ! p2 = 0"
    using assms(1,2) unfolding wrote_def by blast+
  have m: "p2 = min (L - 1) (p + length (s @ s'))" using p1 p2 assms(3) by simp linarith
  have "take (p1 - p) s @ take (p2 - p1) s' = take (p2 - p) (s @ s')"
  proof (cases "p + length s \<le> L - 1")
    case True
    then show ?thesis using p1 p2 by simp
  next
    case False
    then have "p1 = p2" "p2 - p \<le> length s" using p1 p2 by simp_all
    then show ?thesis by simp
  qed
  then have "take p2 b2 = take p b @ take (p2 - p) (s @ s')" using t1 t2 by simp
  moreover have "s @ s' \<noteq> [] \<or> b ! p = 0 \<longrightarrow> b2 ! p2 = 0" using z by blast
  ultimately show ?thesis using m r unfolding wrote_def by simp
qed

lemma wrote_full: "p = L - 1 \<Longrightarrow> b ! p = 0 \<Longrightarrow> wrote L p b s p b"
  by (simp add: wrote_def)

lemma wrote_none: "p < L \<Longrightarrow> wrote L p b [] p b"
  by (simp add: wrote_def)

lemma drop_overlay: "off + length ys \<le> n \<Longrightarrow> n \<le> length xs \<Longrightarrow> drop n (overlay off ys xs) = drop n xs"
  by (simp add: overlay_def)

lemma wrote_overlay:
  assumes "p + m + 1 \<le> L" "L \<le> length b" "m = min (length s) (L - 1 - p)"
  shows "wrote L p b s (p + m) (overlay p (take m s @ [0]) b)"
proof -
  have l: "length (take m s) = m" using assms by simp
  have "take (p + m) (overlay p (take m s @ [0]) b) = take p b @ take m s"
    using assms l by (simp add: overlay_def)
  moreover have "overlay p (take m s @ [0]) b ! (p + m) = 0"
    using assms l by (simp add: nth_overlay nth_append)
  moreover have "drop L (overlay p (take m s @ [0]) b) = drop L b"
    using assms l by (intro drop_overlay) simp_all
  moreover have "p + m = min (L - 1) (p + length s)" using assms by linarith
  moreover have "length (overlay p (take m s @ [0]) b) = length b" using assms l by (intro length_overlay) simp
  ultimately show ?thesis unfolding wrote_def add_diff_cancel_left' by blast
qed

lemma unat_small: "n < 2 ^ 32 \<Longrightarrow> unat (of_nat n :: u32) = n"
  by (simp add: unat_of_nat take_bit_nat_eq_self)

lemma room: "p < L \<Longrightarrow> L < 2 ^ 32 \<Longrightarrow> (of_nat (p + 1) \<ge> (of_nat L :: u32)) \<longleftrightarrow> p + 1 = L"
  using unat_small [of "p + 1"] unat_small [of L] by (auto simp del: of_nat_Suc of_nat_add simp add: word_le_nat_alt)

lemma mini_putc_law:
  assumes "p + 1 < L" "L \<le> length b" "L < 2 ^ 32"
  shows "\<exists>p' b'. mini_putc (of_nat L) ch p b = Some (p', b') \<and> wrote L p b [ch] p' b'"
proof -
  have "overlay p [ch, 0] b = b[p := ch, p + 1 := 0]"
    using assms by (intro nth_equalityI) (auto simp: nth_overlay nth_list_update nth_Cons')
  moreover have "wrote L p b [ch] (p + 1) (overlay p [ch, 0] b)"
    using wrote_overlay [of p 1 L b "[ch]"] assms by simp
  ultimately show ?thesis
    using assms room [of p L] by (auto simp: mini_putc_def put_at_def simp del: of_nat_Suc of_nat_add)
qed

lemma mini_puts_law:
  assumes "p < L" "L \<le> length b" "L < 2 ^ 32"
  shows "\<exists>p' b'. mini_puts (of_nat L) (s @ rest) (length s) p b = Some (p', b') \<and> wrote L p b s p' b'"
proof -
  define m where "m = min (length s) (L - 1 - p)"
  have u: "unat (of_nat L :: u32) = L" by (rule unat_small [OF assms(3)])
  have n: "(if int L - int p - 1 < int (length s) then nat ((int L - int p - 1) mod 2 ^ 32) else length s) = m"
    using assms by (auto simp: m_def min_def mod_pos_pos_trivial nat_diff_distrib)
  have o: "(overlay p (take m s) b)[p + m := 0] = overlay p (take m s @ [0]) b"
    using assms by (intro nth_equalityI) (auto simp: nth_overlay nth_list_update nth_append m_def)
  have "m \<le> length s" "p + m < L" using assms by (auto simp: m_def)
  then have "mini_puts (of_nat L) (s @ rest) (length s) p b = Some (p + m, overlay p (take m s @ [0]) b)"
    using assms o unfolding mini_puts_def Let_def u n by (simp add: get_range_def put_range_def put_at_def)
  moreover have "wrote L p b s (p + m) (overlay p (take m s @ [0]) b)"
    using assms by (intro wrote_overlay) (auto simp: m_def)
  ultimately show ?thesis by blast
qed

lemma puts_number:
  assumes "mini_itoa v r up unsig pad bf = Some (length t, overlay 0 (t @ [0]) bf)" "length t < length bf"
    and "p < L" "L \<le> length b" "L < 2 ^ 32"
  shows "\<exists>bf' p' b'. do { (len, bf) \<leftarrow> mini_itoa v r up unsig pad bf;
      (p, b) \<leftarrow> mini_puts (of_nat L) bf len p b; Some (va, bf, p, b) } = Some (va, bf', p', b') \<and>
    length bf' = length bf \<and> wrote L p b t p' b'"
proof -
  obtain rest where o: "overlay 0 (t @ [0]) bf = t @ rest" by (simp add: overlay_def)
  obtain p' b' where "mini_puts (of_nat L) (t @ rest) (length t) p b = Some (p', b')" "wrote L p b t p' b'"
    using mini_puts_law [OF assms(3-5)] by blast
  moreover have "length (t @ rest) = length bf" using assms(2) by (simp flip: o)
  ultimately show ?thesis using assms(1) o by simp
qed

lemma length_num10: "pad \<le> 9 \<Longrightarrow> n < 2 ^ 32 \<Longrightarrow> length (num_text 10 up pad n) < 23"
  using length_num_text [of 10 n pad 9 up] by simp

lemma length_num16: "pad \<le> 9 \<Longrightarrow> n < 2 ^ 32 \<Longrightarrow> length (num_text 16 up pad n) < 23"
  using length_num_text [of 16 n pad 7 up] by simp

lemma unat_u32_less: "unat (v :: u32) < 2 ^ 32"
  using unsigned_less [of v] by simp

lemma mini_conv_law:
  assumes c: "conv_text cstr pad ch va = Some (s, va')" and pad: "pad \<le> 9" and bf: "length bf = 24"
    and out: "p + 1 < L" "L \<le> length b" "L < 2 ^ 32"
  shows "\<exists>bf' p' b'. mini_conv cstr (of_nat L) pad ch va bf p b = Some (va', bf', p', b') \<and>
    length bf' = 24 \<and> wrote L p b s p' b'"
proof -
  have p: "p < L" using out(1) by simp
  have u10: "mini_itoa v 10 False True pad bf = Some (length t, overlay 0 (t @ [0]) bf) \<and> length t < length bf"
    if "t = num_text 10 False pad (unat v)" for v t
    using that length_num10 [OF pad unat_u32_less [of v], of False] bf mini_itoa_law [of 10 t v True False pad bf] by simp
  have x16: "mini_itoa v 16 up True pad bf = Some (length t, overlay 0 (t @ [0]) bf) \<and> length t < length bf"
    if "t = num_text 16 up pad (unat v)" for v t up
    using that length_num16 [OF pad unat_u32_less [of v], of up] bf mini_itoa_law [of 16 t v True up pad bf] by simp
  have d10: "mini_itoa v 10 False False pad bf = Some (length t, overlay 0 (t @ [0]) bf) \<and> length t < length bf"
    if t: "t = int_text pad (sint v)" for v t
  proof (cases "sint v < 0")
    case True
    then have "nat (- sint v) < 2 ^ 32" using unat_u32_less [of "- v"] unat_neg_sint [of v] by simp
    then show ?thesis using True t length_num10 [OF pad, of "nat (- sint v)" False] bf mini_itoa_law [of 10 t v False False pad bf]
      by (simp add: int_text_def)
  next
    case False
    then have "nat (sint v) = unat v" using unat_of_sint [of v] by simp
    then show ?thesis using False t length_num10 [OF pad unat_u32_less [of v], of False] bf mini_itoa_law [of 10 t v False False pad bf]
      by (simp add: int_text_def)
  qed
  note putc = mini_putc_law [OF out]
  show ?thesis
  proof (cases "ch \<in> {0x75, 0x64, 0x78, 0x58, 0x63, 0x73}")
    case False
    then show ?thesis using c bf putc [of ch] by (auto simp: conv_text_def mini_conv_def)
  next
    case True
    then obtain v where va: "va = v # va'" using c by (auto simp: conv_text_def split: list.splits if_splits)
    consider "ch = 0x75" | "ch = 0x64" | "ch = 0x78" | "ch = 0x58" | "ch = 0x63" | "ch = 0x73" using True by blast
    then show ?thesis
    proof cases
      case 1
      then have "s = num_text 10 False pad (unat (ucast v :: u32))" using c va by (simp add: conv_text_def)
      from u10 [OF this] show ?thesis
        using 1 va bf puts_number [OF _ _ p out(2,3), of "ucast v" 10 False True pad bf s va'] by (simp add: mini_conv_def get_at_def)
    next
      case 2
      then have "s = int_text pad (sint (ucast v :: u32))" using c va by (simp add: conv_text_def)
      from d10 [OF this] show ?thesis
        using 2 va bf puts_number [OF _ _ p out(2,3), of "ucast v" 10 False False pad bf s va'] by (simp add: mini_conv_def get_at_def)
    next
      case 3
      then have "s = num_text 16 False pad (unat (ucast v :: u32))" using c va by (simp add: conv_text_def)
      from x16 [OF this] show ?thesis
        using 3 va bf puts_number [OF _ _ p out(2,3), of "ucast v" 16 False True pad bf s va'] by (simp add: mini_conv_def get_at_def)
    next
      case 4
      then have "s = num_text 16 True pad (unat (ucast v :: u32))" using c va by (simp add: conv_text_def)
      from x16 [OF this] show ?thesis
        using 4 va bf puts_number [OF _ _ p out(2,3), of "ucast v" 16 True True pad bf s va'] by (simp add: mini_conv_def get_at_def)
    next
      case 5
      then show ?thesis using c va bf putc [of "ucast v"] by (auto simp: conv_text_def mini_conv_def get_at_def)
    next
      case 6
      then have "cstr v = Some s" using c va by (auto simp: conv_text_def)
      then show ?thesis using 6 va bf mini_puts_law [OF p out(2,3), of s "[]"]
        by (auto simp: mini_conv_def get_at_def)
    qed
  qed
qed

lemma mini_spec_pad: "mini_spec fmt = Some (Some (z, ch, rest)) \<Longrightarrow> z \<le> 9"
proof -
  have "unat (c - 0x30) \<le> 9" if "0x30 \<le> c" "c \<le> 0x39" for c :: u8
    using that by (simp add: unat_sub word_le_nat_alt)
  then show "mini_spec fmt = Some (Some (z, ch, rest)) \<Longrightarrow> z \<le> 9"
    by (auto simp: mini_spec_def Let_def split: list.splits if_splits)
qed

lemma mini_loop_law:
  assumes "format_text cstr fmt va = Some t" "length bf = 24" "p < L" "L \<le> length b" "L < 2 ^ 32"
    and "p + 1 < L \<or> b ! p = 0"
  shows "\<exists>p' b'. mini_loop cstr (of_nat L) fmt va bf p b = Some (p', b') \<and> wrote L p b t p' b'"
  using assms
proof (induction cstr fmt va arbitrary: t bf p b rule: format_text.induct)
  case (1 cstr fmt va)
  obtain ch fs where fmt: "fmt = ch # fs" using "1.prems"(1) by (cases fmt) (simp_all add: format_text.simps)
  note simps = format_text.simps [of cstr "_ # fs" va] mini_loop.simps [of cstr _ "_ # fs" va bf p b]
  have rm: "(of_nat (p + 1) \<ge> (of_nat L :: u32)) \<longleftrightarrow> p + 1 = L" using "1.prems" by (intro room)
  have nxt: "\<exists>p' b'. mini_loop cstr (of_nat L) fs' va' bf' p1 b1 = Some (p', b') \<and> wrote L p b (s @ t') p' b'"
    if IH: "\<And>t bf p b. format_text cstr fs' va' = Some t \<Longrightarrow> length bf = 24 \<Longrightarrow> p < L \<Longrightarrow> L \<le> length b \<Longrightarrow> L < 2 ^ 32 \<Longrightarrow>
        p + 1 < L \<or> b ! p = 0 \<Longrightarrow> \<exists>p' b'. mini_loop cstr (of_nat L) fs' va' bf p b = Some (p', b') \<and> wrote L p b t p' b'"
      and t: "format_text cstr fs' va' = Some t'" "length bf' = 24" and w: "wrote L p b s p1 b1" for fs' va' bf' p1 b1 s t'
  proof -
    have "p1 < L" "length b1 = length b" "p1 + 1 < L \<or> b1 ! p1 = 0" 
      using w "1.prems"(3,6) by (auto simp: wrote_def)
    then show ?thesis using IH [OF t] w wrote_trans [OF w] "1.prems"(3-5) by metis
  qed
  show ?case
  proof (cases "ch = 0 \<or> p + 1 = L")
    case True
    then have m: "mini_loop cstr (of_nat L) fmt va bf p b = Some (p, b)" using True rm by (simp add: simps fmt)
    show ?thesis
    proof (cases "p + 1 = L")
      case False
      then have "t = []" using True "1.prems"(1) by (simp add: simps fmt)
      then show ?thesis using m wrote_none "1.prems"(3) by blast
    next
      case 2: True
      then show ?thesis using m wrote_full [of p L b t] "1.prems"(6) by auto
    qed
  next
    case False
    then have lt: "p + 1 < L" and ch0: "\<not> ch = 0" using "1.prems"(3) by simp_all
    show ?thesis
    proof (cases "ch = 0x25")
      case no: False
      then obtain t' where t': "format_text cstr fs va = Some t'" "t = ch # t'" using False "1.prems"(1) by (auto simp: simps fmt)
      obtain p1 b1 where w: "mini_putc (of_nat L) ch p b = Some (p1, b1)" "wrote L p b [ch] p1 b1"
        using mini_putc_law [OF lt "1.prems"(4,5)] by blast
      show ?thesis using nxt [OF "1.IH"(1) [OF fmt ch0 no] t'(1) "1.prems"(2) w(2)] False no rm w(1) t'(2)
        by (simp add: simps(2) fmt)
    next
      case yes: True
      then have ch1: "\<not> ch \<noteq> 0x25" by simp
      show ?thesis
      proof (cases "mini_spec fs")
        case None
        then show ?thesis using False yes "1.prems"(1) by (simp add: simps(1) fmt)
      next
        case (Some o1)
        show ?thesis
        proof (cases o1)
          case None
          then have "t = []" using Some False yes "1.prems"(1) by (simp add: simps(1) fmt)
          then show ?thesis using Some None False yes rm wrote_none "1.prems"(3) by (simp add: simps(2) fmt)
        next
          case 2: (Some x)
          obtain pad c fs' where x: "x = (pad, c, fs')" by (cases x)
          then have sp: "mini_spec fs = Some (Some (pad, c, fs'))" using Some 2 by simp
          then obtain s va' t' where t': "conv_text cstr pad c va = Some (s, va')" "format_text cstr fs' va' = Some t'" "t = s @ t'"
            using False yes "1.prems"(1) by (auto simp: simps(1) fmt bind_eq_Some_conv)
          obtain bf' p1 b1 where w: "mini_conv cstr (of_nat L) pad c va bf p b = Some (va', bf', p1, b1)" "length bf' = 24" "wrote L p b s p1 b1"
            using mini_conv_law [OF t'(1) mini_spec_pad [OF sp] "1.prems"(2) lt "1.prems"(4,5)] by blast
          show ?thesis using nxt [OF "1.IH"(2) [OF fmt ch0 ch1 Some 2 x [symmetric] refl t'(1) refl] t'(2) w(2,3)] False yes rm w(1) t'(3) sp
            by (simp add: simps(2) fmt)
        qed
      qed
    qed
  qed
qed

lemma mini_vsnprintf_law:
  assumes "format_text cstr fmt va = Some t" "length bf = 24" "2 \<le> L" "L \<le> length buffer" "L < 2 ^ 32"
  shows "\<exists>b. mini_vsnprintf cstr bf buffer (of_nat L) fmt va = Some (min (L - 1) (length t), b) \<and> length b = length buffer \<and>
    take (min (L - 1) (length t)) b = take (L - 1) t \<and> drop L b = drop L buffer \<and> (t \<noteq> [] \<longrightarrow> b ! min (L - 1) (length t) = 0)"
proof -
  obtain p b where m: "mini_loop cstr (of_nat L) fmt va bf 0 buffer = Some (p, b)" "wrote L 0 buffer t p b"
    using mini_loop_law [of cstr fmt va t bf 0 L buffer] assms by auto
  then show ?thesis by (auto simp: mini_vsnprintf_def wrote_def min_def)
qed

section \<open>Properties\<close>

text \<open>
  C34: \<open>mini_vsnprintf\<close> formats exactly as the reference formatter, cut off after \<open>buffer_len - 1\<close>
  characters and terminated; it never stores outside its buffer and its 24-byte scratch buffer is
  always large enough, whatever the arguments.\<close>
theorem mini_vsnprintf_correct:
  assumes "format_text cstr fmt va = Some t" "length bf = 24" "2 \<le> L" "L \<le> length buffer" "L < 2 ^ 32"
  shows "\<exists>b. mini_vsnprintf cstr bf buffer (of_nat L) fmt va = Some (min (L - 1) (length t), b) \<and> length b = length buffer \<and>
    take (min (L - 1) (length t)) b = take (L - 1) t \<and> drop L b = drop L buffer \<and> (t \<noteq> [] \<longrightarrow> b ! min (L - 1) (length t) = 0)"
  using assms by (rule mini_vsnprintf_law)

text \<open>The format \<open>d=%d %03x\<close> with -42 and 10.\<close>

definition demo_fmt :: bytes where
  "demo_fmt = [0x64, 0x3D, 0x25, 0x64, 0x20, 0x25, 0x30, 0x33, 0x78, 0]"

lemma demo_text: "format_text (\<lambda>_. None) demo_fmt [0xFFFFFFD6, 10] = Some [0x64, 0x3D, 0x2D, 0x34, 0x32, 0x20, 0x30, 0x30, 0x61]"
  by code_simp

theorem mini_vsnprintf_correct_witness:
  "\<exists>b. mini_vsnprintf (\<lambda>_. None) (replicate 24 7) (replicate 12 7) (of_nat 6) demo_fmt [0xFFFFFFD6, 10] = Some (5, b) \<and>
    take 5 b = [0x64, 0x3D, 0x2D, 0x34, 0x32] \<and> b ! 5 = 0 \<and> drop 6 b = replicate 6 7"
  using mini_vsnprintf_correct [OF demo_text, of "replicate 24 7" 6 "replicate 12 7"] by (simp add: min_def) blast

text \<open>
  \<open>printf\<close> sends the first 98 characters of the formatted text and returns their number. When a format
  produces no character at all, nothing is stored and the uninitialised buffer is sent instead.\<close>
theorem mini_printf_correct:
  assumes "format_text cstr fmt va = Some t" "length bf = 24" "length buffer = 99" "t \<noteq> []" "0 \<notin> set t"
  shows "mini_printf cstr bf buffer fmt va = Some (min 98 (length t), take 98 t) \<and>
    mini_printf cstr bf buffer [0] va = (if 0 \<in> set buffer then Some (0, takeWhile (\<lambda>c. c \<noteq> 0) buffer) else None)"
proof
  define p where "p = min 98 (length t)"
  obtain b where m: "mini_vsnprintf cstr bf buffer (of_nat 99) fmt va = Some (p, b)"
    and b: "length b = 99" "take p b = take 98 t" "b ! p = 0"
    using mini_vsnprintf_law [of cstr fmt va t bf 99 buffer] assms by (auto simp: p_def)
  have p: "p < length b" using b(1) by (simp add: p_def)
  have "b = take p b @ b ! p # drop (Suc p) b" using p by (rule id_take_nth_drop)
  then have e: "b = take 98 t @ 0 # drop (Suc p) b" using b(2,3) by metis
  have "takeWhile (\<lambda>c. c \<noteq> 0) (take 98 t @ 0 # r) = take 98 t \<and> 0 \<in> set (take 98 t @ 0 # r)" for r
    using assms(5) by (subst takeWhile_append2) (auto dest: in_set_takeD)
  from this [of "drop (Suc p) b"] have "0 \<in> set b" "takeWhile (\<lambda>c. c \<noteq> 0) b = take 98 t"
    unfolding e [symmetric] by blast+
  then show "mini_printf cstr bf buffer fmt va = Some (min 98 (length t), take 98 t)"
    using m by (simp add: mini_printf_def p_def)
  show "mini_printf cstr bf buffer [0] va = (if 0 \<in> set buffer then Some (0, takeWhile (\<lambda>c. c \<noteq> 0) buffer) else None)"
    by (simp add: mini_printf_def mini_vsnprintf_def mini_loop.simps)
qed

theorem mini_printf_correct_witness:
  "mini_printf (\<lambda>_. None) (replicate 24 7) (replicate 99 7) demo_fmt [0xFFFFFFD6, 10] =
    Some (9, [0x64, 0x3D, 0x2D, 0x34, 0x32, 0x20, 0x30, 0x30, 0x61])"
  using mini_printf_correct [OF demo_text, of "replicate 24 7" "replicate 99 7"] by simp

end
