(* ===== verification/Shell.thy ===== *)
theory Shell
  imports Fat_Api Text Md5 Printf
begin

text \<open>
  The commands of \<open>selftest.c\<close> on files and directories: mounting, showing a file or a directory,
  loading a boot image and checking its digest.  The functions are over the drives of FatFs and the
  terminal; what they print is appended to \<open>sh_out\<close>.  The \<open>printf\<close> here is that of the host library.
\<close>

section \<open>State\<close>

text \<open>\<open>sh_mounted\<close>, \<open>sh_kernel\<close> (32 characters) and \<open>sh_line\<close> (80 characters) are the static variables.\<close>

record ('d, 'k) shell =
  sh_fat :: "'d fat_sys"
  sh_tty :: 'k
  sh_out :: bytes
  sh_mounted :: bool
  sh_kernel :: bytes
  sh_line :: bytes

text \<open>The uninitialised objects on the stack: a name buffer of FatFs, a file, a directory and a copy buffer.\<close>

record stack =
  st_fn :: bytes
  st_fil :: fil
  st_dir :: fdir
  st_buffer :: bytes

definition say :: "bytes \<Rightarrow> ('d, 'k) shell \<Rightarrow> ('d, 'k) shell" where
  "say b st = st\<lparr>sh_out := sh_out st @ b\<rparr>"

definition on_fat :: "('d fat_sys \<Rightarrow> ('a \<times> 'd fat_sys) option) \<Rightarrow> ('d, 'k) shell \<Rightarrow> ('a \<times> ('d, 'k) shell) option" where
  "on_fat f st = do { (r, g) \<leftarrow> f (sh_fat st); Some (r, st\<lparr>sh_fat := g\<rparr>) }"

text \<open>The address of \<open>MyFatFs\<close>, and the texts of numbers in a host \<open>printf\<close>.\<close>

definition MyFatFs :: nat where "MyFatFs = 0"

definition dec :: "u32 \<Rightarrow> bytes" where
  "dec v = int_text 0 (sint v)"

definition cstring :: "string \<Rightarrow> bytes" where
  "cstring s = chars s @ [0]"

section \<open>Volumes, files and directories\<close>

definition mount :: "'d disk_ops \<Rightarrow> u8 \<Rightarrow> ('d, 'k) shell \<Rightarrow> (bool \<times> ('d, 'k) shell) option" where
  "mount ops now st =
     (if \<not> sh_mounted st then do {
        (fr, st) \<leftarrow> on_fat (f_mount ops (Some MyFatFs) (Some [0]) now) st;
        if fr \<noteq> FR_OK then Some (True, say (chars ''Fail to mount SD driver!'' @ [0x0A]) st)
        else Some (False, st\<lparr>sh_mounted := True\<rparr>) }
      else Some (False, st\<lparr>sh_mounted := True\<rparr>))"

definition open_report :: "bytes \<Rightarrow> fresult \<Rightarrow> ('d, 'k) shell \<Rightarrow> ('d, 'k) shell" where
  "open_report path fr =
     say (if fr \<noteq> FR_OK then chars ''failed to open '' @ myputs path @ chars ''!'' @ [0x0A]
          else myputs path @ chars '' opened'' @ [0x0A])"

definition sh_open :: "'d disk_ops \<Rightarrow> bytes \<Rightarrow> fil \<Rightarrow> bytes \<Rightarrow> ('d, 'k) shell \<Rightarrow> ((fresult \<times> fil) \<times> ('d, 'k) shell) option" where
  "sh_open ops fn filp path st = do {
     ((fr, fp), st) \<leftarrow> on_fat (f_open ops fn (Some filp) (Some path) FA_READ) st;
     fp \<leftarrow> fp;
     Some ((fr, fp), open_report path fr st) }"

definition sh_opendir :: "'d disk_ops \<Rightarrow> bytes \<Rightarrow> fdir \<Rightarrow> bytes \<Rightarrow> ('d, 'k) shell \<Rightarrow> ((fresult \<times> fdir) \<times> ('d, 'k) shell) option" where
  "sh_opendir ops fn dirp path st = do {
     ((fr, dp), st) \<leftarrow> on_fat (f_opendir ops fn (Some dirp) (Some path)) st;
     dp \<leftarrow> dp;
     Some ((fr, dp), open_report path fr st) }"

definition no_info :: filinfo where
  "no_info = \<lparr>fi_fsize = 0, fi_fdate = 0, fi_ftime = 0, fi_fattrib = 0, fi_fname = replicate 13 0\<rparr>"

partial_function (option) displaydir :: "'d disk_ops \<Rightarrow> bytes \<Rightarrow> fdir \<Rightarrow> ('d, 'k) shell \<Rightarrow> (fdir \<times> ('d, 'k) shell) option" where
  "displaydir ops fn dirp st = do {
     let idx = dj_index dirp;
     ((fr, dirp, fno), st) \<leftarrow> on_fat (f_readdir ops fn dirp (Some no_info)) st;
     fno \<leftarrow> fno;
     let st = say (chars ''Number '' @ dec (ucast (dj_index dirp)) @ chars '' Name '' @ myputs (fi_fname fno) @ [0x0A]) st;
     if dj_index dirp \<noteq> idx \<and> fr = FR_OK then displaydir ops fn dirp st else Some (dirp, st) }"

definition sh_closedir :: "'d disk_ops \<Rightarrow> fdir \<Rightarrow> ('d, 'k) shell \<Rightarrow> (bool \<times> fdir) \<times> ('d, 'k) shell" where
  "sh_closedir ops dirp st =
     (let (fr, dirp) = f_closedir ops dirp (sh_fat st) in
      if fr \<noteq> FR_OK then ((True, dirp), say (chars ''fail to close dir'') st) else ((False, dirp), st))"

text \<open>The reading loop of \<open>display\<close>: the object, the buffer and the number of bytes.\<close>

partial_function (option) display_loop ::
  "'d disk_ops \<Rightarrow> fil \<Rightarrow> bytes \<Rightarrow> u32 \<Rightarrow> ('d, 'k) shell \<Rightarrow> ((fil \<times> bytes \<times> u32) \<times> ('d, 'k) shell) option" where
  "display_loop ops filp buffer fsz st = do {
     ((fr, filp, buffer, br), st) \<leftarrow> on_fat (f_read ops filp buffer (64 - 1)) st;
     if fr \<noteq> FR_OK \<or> br = 0 then Some ((filp, buffer, fsz), st)
     else do {
       buffer \<leftarrow> put_at (unat br) 0 buffer;
       display_loop ops filp buffer (fsz + br) (say (myputs buffer) st) } }"

definition display :: "'d disk_ops \<Rightarrow> fil \<Rightarrow> bytes \<Rightarrow> ('d, 'k) shell \<Rightarrow> (fil \<times> ('d, 'k) shell) option" where
  "display ops filp buffer st = do {
     ((filp, _, fsz), st) \<leftarrow> display_loop ops filp buffer 0 st;
     Some (filp, say (chars ''file size '' @ dec fsz @ [0x0A]) st) }"

definition sh_close :: "'d disk_ops \<Rightarrow> fil \<Rightarrow> string \<Rightarrow> ('d, 'k) shell \<Rightarrow> ((bool \<times> fil) \<times> ('d, 'k) shell) option" where
  "sh_close ops filp msg st = do {
     ((fr, filp), st) \<leftarrow> on_fat (f_close ops filp) st;
     Some (if fr \<noteq> FR_OK then ((True, filp), say (chars msg) st) else ((False, filp), st)) }"

text \<open>The value returned; falling off the end of the function gives none.\<close>

definition unmount :: "'d disk_ops \<Rightarrow> ('d, 'k) shell \<Rightarrow> (u32 option \<times> ('d, 'k) shell) option" where
  "unmount ops st =
     (if sh_mounted st then do {
        (fr, st) \<leftarrow> on_fat (f_mount ops None (Some [0]) 1) st;
        if fr \<noteq> FR_OK then Some (Some 1, say (chars ''fail to umount disk!'') st)
        else Some (None, st\<lparr>sh_mounted := False\<rparr>) }
      else Some (None, st\<lparr>sh_mounted := False\<rparr>))"

definition sdcard_test :: "'d disk_ops \<Rightarrow> stack \<Rightarrow> bytes \<Rightarrow> ('d, 'k) shell \<Rightarrow> (bool \<times> ('d, 'k) shell) option" where
  "sdcard_test ops sk nam st = do {
     (bad, st) \<leftarrow> (if sh_mounted st then Some (False, st) else mount ops 1 st);
     if bad then Some (True, st)
     else do {
       ((fr, fil), st) \<leftarrow> sh_open ops (st_fn sk) (st_fil sk) nam st;
       if fr \<noteq> FR_OK then Some (True, st)
       else do {
         (fil, st) \<leftarrow> display ops fil (st_buffer sk) st;
         ((bad, fil), st) \<leftarrow> sh_close ops fil ''fail to close file!'' st;
         if bad then Some (True, st)
         else Some (False, say (myputs nam @ chars '' closed.'' @ [0x0A]) st) } } }"

definition show_dir :: "'d disk_ops \<Rightarrow> stack \<Rightarrow> bytes \<Rightarrow> ('d, 'k) shell \<Rightarrow> (bool \<times> ('d, 'k) shell) option" where
  "show_dir ops sk nam st = do {
     (bad, st) \<leftarrow> (if sh_mounted st then Some (False, st) else mount ops 1 st);
     if bad then Some (True, st)
     else do {
       ((fr, dir), st) \<leftarrow> sh_opendir ops (st_fn sk) (st_dir sk) nam st;
       if fr \<noteq> FR_OK then Some (True, st)
       else do {
         (dir, st) \<leftarrow> displaydir ops (st_fn sk) dir st;
         let ((bad, dir), st) = sh_closedir ops dir st;
         if bad then Some (True, st)
         else Some (False, say (myputs nam @ chars '' closed.'' @ [0x0A]) st) } } }"

section \<open>Loading a boot image\<close>

definition MAX_FILE_SIZE :: nat where "MAX_FILE_SIZE = 0x1000000"
definition SD_READ_SIZE :: u32 where "SD_READ_SIZE = 4096"

text \<open>The loop that reads the image into \<open>boot_file_buf\<close>: the last result, the object, the memory and the size.\<close>

partial_function (option) image_loop ::
  "'d disk_ops \<Rightarrow> fil \<Rightarrow> bytes \<Rightarrow> u32 \<Rightarrow> ('d, 'k) shell \<Rightarrow> ((fresult \<times> fil \<times> bytes \<times> u32) \<times> ('d, 'k) shell) option" where
  "image_loop ops fil mem fsz st =
     (if unat fsz > length mem then None
      else do {
        ((fr, fil, buf, br), st) \<leftarrow> on_fat (f_read ops fil (drop (unat fsz) mem) SD_READ_SIZE) st;
        let mem = take (unat fsz) mem @ buf;
        if fr = FR_OK then do {
          c \<leftarrow> get_at (unat (fsz div SD_READ_SIZE AND 3)) (chars ''|/-'' @ [0x5C]);
          let st = say [c, 0x08] st;
          let fsz = fsz + br;
          if br = 0 then Some ((fr, fil, mem, fsz), st) else image_loop ops fil mem fsz st }
        else Some ((fr, fil, mem, fsz), st) })"

text \<open>The expected sum: the characters of \<open>boot.md5\<close>, blanks turned into zeros.\<close>

definition expected_sum :: "'d disk_ops \<Rightarrow> stack \<Rightarrow> ('d, 'k) shell \<Rightarrow> ((bool \<times> bytes) \<times> ('d, 'k) shell) option" where
  "expected_sum ops sk st = do {
     let buffer = replicate 64 0;
     ((fr, fil), st) \<leftarrow> sh_open ops (st_fn sk) (st_fil sk) (cstring ''boot.md5'') st;
     if fr \<noteq> FR_OK then Some ((False, buffer), st)
     else do {
       ((fr, fil, buffer, br), st) \<leftarrow> on_fat (f_read ops fil buffer (64 - 1)) st;
       let buffer = map (\<lambda>c. if c = 0x20 then 0 else c) (take (unat br) buffer) @ drop (unat br) buffer;
       let st = say (chars ''Expected md5sum (from boot.md5) = '' @ myputs buffer @ [0x0A]) st;
       ((bad, fil), st) \<leftarrow> sh_close ops fil ''fail to close md5sum file!'' st;
       Some ((bad, buffer), st) } }"

text \<open>The digest of the image compared with the expected text; \<open>ctx\<close> is the uninitialised context.\<close>

definition check_sum :: "md5_ctx \<Rightarrow> bytes \<Rightarrow> bytes \<Rightarrow> u32 \<Rightarrow> ('d, 'k) shell \<Rightarrow> (unit \<times> ('d, 'k) shell) option" where
  "check_sum ctx buffer mem fsz st = do {
     ctx \<leftarrow> md5_hash (md5_begin ctx) mem (ucast fsz);
     ctx \<leftarrow> md5_end ctx;
     let hash_value = hash_bin_to_hex ctx;
     d \<leftarrow> strcmp hash_value buffer;
     Some ((), say (if d \<noteq> 0 then chars ''Expected sum '' @ myputs buffer @ chars '', actual '' @ myputs hash_value @ [0x0A]
        else chars ''MD5 checksum '' @ myputs hash_value @ chars '' OK'' @ [0x0A]) st) }"

definition kernel_name :: "bytes \<Rightarrow> bytes \<Rightarrow> bytes option" where
  "kernel_name cmdline kname = do {
     c \<leftarrow> get_at 1 cmdline;
     let name = (if c \<noteq> 0 then tl cmdline else cstring ''boot.bin'');
     if 0 \<in> set name then put_range 0 (myputs name @ [0]) kname else None }"

text \<open>The result of \<open>prepare\<close>: the size, an error of FatFs as its number, or one.\<close>

definition fr_code :: "fresult \<Rightarrow> u32" where
  "fr_code fr = (case fr of FR_OK \<Rightarrow> 0 | FR_DISK_ERR \<Rightarrow> 1 | FR_INT_ERR \<Rightarrow> 2 | FR_NOT_READY \<Rightarrow> 3 | FR_NO_FILE \<Rightarrow> 4 | FR_NO_PATH \<Rightarrow> 5
     | FR_INVALID_NAME \<Rightarrow> 6 | FR_DENIED \<Rightarrow> 7 | FR_EXIST \<Rightarrow> 8 | FR_INVALID_OBJECT \<Rightarrow> 9 | FR_WRITE_PROTECTED \<Rightarrow> 10 | FR_INVALID_DRIVE \<Rightarrow> 11
     | FR_NOT_ENABLED \<Rightarrow> 12 | FR_NO_FILESYSTEM \<Rightarrow> 13 | FR_MKFS_ABORTED \<Rightarrow> 14 | FR_TIMEOUT \<Rightarrow> 15 | FR_LOCKED \<Rightarrow> 16
     | FR_NOT_ENOUGH_CORE \<Rightarrow> 17 | FR_TOO_MANY_OPEN_FILES \<Rightarrow> 18 | FR_INVALID_PARAMETER \<Rightarrow> 19)"

definition load_image :: "'d disk_ops \<Rightarrow> stack \<Rightarrow> md5_ctx \<Rightarrow> bytes \<Rightarrow> bytes \<Rightarrow> bytes \<Rightarrow> ('d, 'k) shell \<Rightarrow> ((u32 \<times> bytes) \<times> ('d, 'k) shell) option" where
  "load_image ops sk ctx ptr buffer mem st = do {
     let st = say (chars ''Load '' @ myputs (sh_kernel st) @ chars '' into memory'' @ [0x0A]) st;
     ((fr, fil), st) \<leftarrow> on_fat (f_open ops (st_fn sk) (Some (st_fil sk)) (Some (sh_kernel st)) FA_READ) st;
     fil \<leftarrow> fil;
     if fr \<noteq> FR_OK then Some ((fr_code fr, mem), say (chars ''Failed to open '' @ myputs (sh_kernel st) @ [0x0A]) st)
     else do {
       ((fr, fil, mem, fsz), st) \<leftarrow> image_loop ops fil mem 0 st;
       ((fr, fil), st) \<leftarrow> on_fat (f_close ops fil) st;
       if fr \<noteq> FR_OK then Some ((1, mem), say (chars ''fail to close '' @ myputs (sh_kernel st) @ chars ''!'' @ [0x0A]) st)
       else do {
         let st = say (chars ''Load '' @ dec fsz @ chars '' chunks bytes to memory address '' @ ptr @ chars '' from '' @
             myputs (sh_kernel st) @ chars '' of '' @ dec fsz @ chars '' bytes.'' @ [0x0A]) st;
         (_, st) \<leftarrow> check_sum ctx buffer mem fsz st;
         Some ((fsz, mem), st) } } }"

text \<open>\<open>mem\<close> is the memory \<open>sbrk\<close> gives and \<open>ptr\<close> the text of its address.\<close>

definition prepare :: "'d disk_ops \<Rightarrow> stack \<Rightarrow> md5_ctx \<Rightarrow> bytes \<Rightarrow> bytes \<Rightarrow> bytes \<Rightarrow> ('d, 'k) shell \<Rightarrow> ((u32 \<times> bytes) \<times> ('d, 'k) shell) option" where
  "prepare ops sk ctx ptr mem cmdline st = do {
     let st = say (chars ''lowRISC boot program'' @ [0x0A] @ replicate 37 0x3D @ [0x0A]) st;
     kname \<leftarrow> kernel_name cmdline (sh_kernel st);
     let st = st\<lparr>sh_kernel := kname\<rparr>;
     (bad, st) \<leftarrow> (if sh_mounted st then Some (False, st) else mount ops 1 st);
     if bad then Some ((1, mem), st)
     else do {
       ((bad, buffer), st) \<leftarrow> expected_sum ops sk st;
       if bad then Some ((1, mem), st)
       else load_image ops sk ctx ptr buffer mem st } }"

section \<open>The command line\<close>

text \<open>Reading a line into \<open>linbuf\<close>: \<open>False\<close> is the call of \<open>abort\<close>.\<close>

partial_function (option) gets_loop ::
  "(('d, 'k) shell \<Rightarrow> (u8 \<times> ('d, 'k) shell) option) \<Rightarrow> nat \<Rightarrow> ('d, 'k) shell \<Rightarrow> (bool \<times> ('d, 'k) shell) option" where
  "gets_loop recv p st = do {
     (ch, st) \<leftarrow> recv st;
     let st = say [ch] st;
     if p < 80 then do {
       line \<leftarrow> put_at p ch (sh_line st);
       let st = st\<lparr>sh_line := line\<rparr>;
       if ch \<noteq> 0x0A then gets_loop recv (p + 1) st
       else do { line \<leftarrow> put_at p 0 (sh_line st); Some (True, st\<lparr>sh_line := line\<rparr>) } }
     else Some (False, st) }"

definition mygets :: "(('d, 'k) shell \<Rightarrow> (u8 \<times> ('d, 'k) shell) option) \<Rightarrow> ('d, 'k) shell \<Rightarrow> (bool \<times> ('d, 'k) shell) option" where
  "mygets recv st = gets_loop recv 0 st"

end
