(* ===== verification/Shell_Laws.thy ===== *)
theory Shell_Laws
  imports Shell Fat_Transfer
begin

text \<open>
  What the commands on files do: reading a file piece by piece delivers its contents in order, so
  \<open>display\<close> prints the file, the boot loader loads it, and the digest it compares is that of the file.
\<close>

section \<open>An open file\<close>

text \<open>A block device that stays initialised.\<close>

locale ready_device = block_device ops dno ok img for ops :: "'d disk_ops" and dno and ok and img +
  assumes status_law: "ok d \<Longrightarrow> drv_status ops dno d AND STA_NOINIT = 0"

text \<open>The object \<open>fp\<close> is open for reading on the file with the contents \<open>D\<close> on the volume at \<open>a\<close>.\<close>

definition reading :: "u8 \<Rightarrow> ('d \<Rightarrow> bool) \<Rightarrow> ('d \<Rightarrow> u32 \<Rightarrow> bytes) \<Rightarrow> nat \<Rightarrow> bytes \<Rightarrow> fil \<Rightarrow> 'd fat_sys \<Rightarrow> bool" where
  "reading dno ok img a D fp g \<longleftrightarrow>
     fp_fs fp = Some a \<and> fs_type (fs_at g a) \<noteq> 0 \<and> fs_id (fs_at g a) = fp_id fp \<and>
     win_inv dno ok img (fs_at g a) \<and> vol_layout (fs_at g a) \<and> dir_layout (fs_at g a) \<and>
     fil_inv img (fs_at g a) fp \<and> fp_err fp = FR_OK \<and> fp_flag fp AND FA_READ \<noteq> 0 \<and> file_data img (fs_at g a) fp = D"

definition at_byte :: "fil \<Rightarrow> nat" where
  "at_byte fp = unat (fp_fptr fp)"

text \<open>What a read of up to \<open>n\<close> bytes delivers.\<close>

definition read_result :: "u8 \<Rightarrow> ('d \<Rightarrow> bool) \<Rightarrow> ('d \<Rightarrow> u32 \<Rightarrow> bytes) \<Rightarrow> nat \<Rightarrow> bytes \<Rightarrow> nat \<Rightarrow> nat \<Rightarrow> bytes \<Rightarrow>
    fresult \<times> fil \<times> bytes \<times> u32 \<Rightarrow> 'd fat_sys \<Rightarrow> bool" where
  "read_result dno ok img a D p n buff = (\<lambda>(res, fp', buff', br) g'.
     length buff' = length buff \<and> unat br \<le> min n (length D - p) \<and> take (unat br) buff' = take (unat br) (drop p D) \<and>
     (if res = FR_OK then unat br = min n (length D - p) \<and> drop (unat br) buff' = drop (unat br) buff \<and>
        at_byte fp' = p + unat br \<and> reading dno ok img a D fp' g'
      else res = FR_DISK_ERR \<and> fp_err fp' = FR_DISK_ERR))"

context ready_device
begin

lemma read_open:
  assumes r: "reading dno ok img a D fp g" and "unat n \<le> length buff"
  shows "returns (f_read ops fp buff n g) (read_result dno ok img a D (at_byte fp) (unat n) buff)"
proof -
  have inv: "win_inv dno ok img (fs_at g a)" using r by (simp add: reading_def)
  then have "drv (fs_at g a) = dno" "ok (dsk (fs_at g a))" by (simp_all add: win_inv_def)
  then have v: "valid_file ops fp g = FR_OK"
    using r status_law by (simp add: reading_def valid_file_def validate_def Let_def fs_at_def)
  have D: "length D = unat (fp_fsize fp)" using r by (auto simp: reading_def)
  from f_read_law [OF block_device_axioms v, of a n buff] r assms(2) obtain res fp' buff' br g' where
    f: "f_read ops fp buff n g = Some ((res, fp', buff', br), g')" and
    post: "length buff' = length buff" "unat br \<le> min (unat n) (length (drop (unat (fp_fptr fp)) D))"
      "take (unat br) buff' = take (unat br) (drop (unat (fp_fptr fp)) D)" "win_inv dno ok img (fs_at g' a)"
      "same_vol (fs_at g a) (fs_at g' a)"
      "if res = FR_OK then unat br = min (unat n) (length (drop (unat (fp_fptr fp)) D)) \<and>
          drop (min (unat n) (length (drop (unat (fp_fptr fp)) D))) buff' = drop (min (unat n) (length (drop (unat (fp_fptr fp)) D))) buff \<and>
          unat (fp_fptr fp') = unat (fp_fptr fp) + min (unat n) (length (drop (unat (fp_fptr fp)) D)) \<and>
          fil_inv img (fs_at g' a) fp' \<and> file_data img (fs_at g' a) fp' = D \<and> same_handle fp fp'
        else res = FR_DISK_ERR \<and> fp_err fp' = FR_DISK_ERR"
    by (auto simp: returns_iff reading_def Let_def)
  have "reading dno ok img a D fp' g'" if "res = FR_OK"
    using r post(4,6) that same_vol_sel [OF post(5)] layout_same_vol [OF post(5)] dir_layout_same_vol [OF post(5)]
    by (simp add: reading_def same_handle_def)
  then show ?thesis
    using f post by (auto simp: read_result_def at_byte_def)
qed

text \<open>Showing a file: the pieces shown, each up to its first zero.\<close>

lemma display_loop_law:
  assumes "reading dno ok img a D fp (sh_fat st)" and "length buffer = 64"
  shows "\<exists>fp' buffer' n st'. display_loop ops fp buffer fsz st = Some ((fp', buffer', fsz + of_nat n), st') \<and>
    at_byte fp + n \<le> length D \<and>
    (0 \<notin> set D \<longrightarrow> sh_out st' = sh_out st @ take n (drop (at_byte fp) D)) \<and>
    (if at_byte fp + n = length D \<and> fp_err fp' = FR_OK then reading dno ok img a D fp' (sh_fat st') else fp_err fp' = FR_DISK_ERR)"
  using assms
proof (induction "length D - at_byte fp" arbitrary: fp buffer fsz st rule: less_induct)
  case less
  let ?p = "at_byte fp" and ?rest = "drop (at_byte fp) D"
  have n: "unat (64 - 1 :: u32) = 63" by simp
  obtain res fp1 b1 br g1 where f: "f_read ops fp buffer (64 - 1) (sh_fat st) = Some ((res, fp1, b1, br), g1)"
      and post: "read_result dno ok img a D ?p 63 buffer (res, fp1, b1, br) g1"
    using read_open [OF less.prems(1), of "64 - 1" buffer] less.prems(2) unfolding n by (auto simp: returns_iff)
  have b1: "length b1 = 64" "unat br \<le> 63" "take (unat br) b1 = take (unat br) ?rest" "unat br \<le> length D - ?p"
    using post less.prems(2) by (auto simp: read_result_def)
  have ple: "?p \<le> length D" using less.prems(1) by (auto simp: reading_def fil_inv_def fil_at_def at_byte_def)
  show ?case
  proof (cases "res \<noteq> FR_OK \<or> br = 0")
    case stop: True
    then have d: "display_loop ops fp buffer fsz st = Some ((fp1, b1, fsz), st\<lparr>sh_fat := g1\<rparr>)"
      using f by (subst display_loop.simps) (simp add: on_fat_def)
    have "(if ?p + 0 = length D \<and> fp_err fp1 = FR_OK then reading dno ok img a D fp1 g1 else fp_err fp1 = FR_DISK_ERR)"
    proof (cases "res = FR_OK")
      case True
      then have "length D - ?p = 0" using post stop by (simp add: read_result_def min_def split: if_splits)
      then show ?thesis using True post ple by (auto simp: read_result_def reading_def)
    next
      case False
      then show ?thesis using post by (auto simp: read_result_def)
    qed
    then show ?thesis using d ple by (intro exI [of _ fp1] exI [of _ b1] exI [of _ "0 :: nat"] exI [of _ "st\<lparr>sh_fat := g1\<rparr>"]) simp
  next
    case go: False
    then have "0 < unat br" using unat_gt_0 [of br] by blast
    then have r1: "reading dno ok img a D fp1 g1" "at_byte fp1 = ?p + unat br" "unat br = min 63 (length D - ?p)" "0 < unat br"
      using post go by (simp_all add: read_result_def)
    let ?b = "b1[unat br := 0]" and ?st = "say (myputs (b1[unat br := 0])) (st\<lparr>sh_fat := g1\<rparr>)"
    have put: "put_at (unat br) 0 b1 = Some ?b" using b1(1,2) by (simp add: put_at_def)
    have "length D - at_byte fp1 < length D - ?p" using r1(2-4) by simp
    from less.hyps [OF this, of ?st ?b "fsz + br"] r1(1) b1(1)
    obtain fp2 b2 n st2 where d: "display_loop ops fp1 ?b (fsz + br) ?st = Some ((fp2, b2, fsz + br + of_nat n), st2)"
        and l: "at_byte fp1 + n \<le> length D" "0 \<notin> set D \<longrightarrow> sh_out st2 = sh_out ?st @ take n (drop (at_byte fp1) D)"
          "if at_byte fp1 + n = length D \<and> fp_err fp2 = FR_OK then reading dno ok img a D fp2 (sh_fat st2) else fp_err fp2 = FR_DISK_ERR"
      by (auto simp: say_def)
    have shown: "myputs ?b = take (unat br) ?rest" if "0 \<notin> set D"
    proof -
      have e: "?b = take (unat br) ?rest @ 0 # drop (Suc (unat br)) b1"
        using b1 by (simp add: upd_conv_take_nth_drop)
      have "0 \<notin> set (take (unat br) ?rest)" using that by (auto dest!: in_set_takeD in_set_dropD)
      then show ?thesis unfolding e myputs_def by (subst takeWhile_append2) auto
    qed
    have "display_loop ops fp buffer fsz st = Some ((fp2, b2, fsz + of_nat (unat br + n)), st2)"
      using f go put d by (subst display_loop.simps) (simp add: on_fat_def add.assoc)
    moreover have "take (unat br + n) ?rest = take (unat br) ?rest @ take n (drop (?p + unat br) D)"
      by (simp only: take_add drop_drop add.commute [of "unat br" ?p])
    then have "sh_out st2 = sh_out st @ take (unat br + n) ?rest" if "0 \<notin> set D"
      using l(2) that shown [OF that] r1(2) by (simp add: say_def)
    ultimately show ?thesis using l r1(2) by (intro exI [of _ fp2] exI [of _ b2] exI [of _ "unat br + n"] exI [of _ st2]) (simp add: add.assoc)
  qed
qed

text \<open>Loading an image: the memory holds the bytes of the file in front, and the size counts them.\<close>

lemma image_loop_law:
  assumes "reading dno ok img a D fp (sh_fat st)" and "at_byte fp = unat fsz" and "length D + 4096 \<le> length mem"
    and "unat fsz mod 4096 = 0 \<or> unat fsz = length D" and "take (unat fsz) mem = take (unat fsz) D"
  shows "\<exists>fr fp' mem' n st' out. image_loop ops fp mem fsz st = Some ((fr, fp', mem', of_nat n), st') \<and>
    unat fsz \<le> n \<and> n \<le> length D \<and> length mem' = length mem \<and> take n mem' = take n D \<and> st' = st\<lparr>sh_fat := sh_fat st', sh_out := out\<rparr> \<and>
    (if fr = FR_OK then n = length D \<and> drop n mem' = drop n mem \<and> reading dno ok img a D fp' (sh_fat st')
     else fr = FR_DISK_ERR \<and> fp_err fp' = FR_DISK_ERR)"
  using assms
proof (induction "length D - unat fsz" arbitrary: fp mem fsz st rule: less_induct)
  case less
  note prems = less.prems
  have n: "unat SD_READ_SIZE = 4096" by (simp add: SD_READ_SIZE_def)
  have ple: "unat fsz \<le> length D" using prems(1,2) by (auto simp: reading_def fil_inv_def fil_at_def at_byte_def)
  have lD: "length D < 2 ^ 32" using prems(1) u32_less [of "fp_fsize fp"] by (auto simp: reading_def)
  let ?buff = "drop (unat fsz) mem" and ?rest = "drop (unat fsz) D"
  have room: "4096 \<le> length ?buff" using ple prems(3) by simp
  obtain res fp1 b1 br g1 where f: "f_read ops fp ?buff SD_READ_SIZE (sh_fat st) = Some ((res, fp1, b1, br), g1)"
      and post: "read_result dno ok img a D (unat fsz) 4096 ?buff (res, fp1, b1, br) g1"
    using read_open [OF prems(1), of SD_READ_SIZE ?buff] room prems(2) unfolding n by (auto simp: returns_iff)
  let ?mem = "take (unat fsz) mem @ b1"
  have b1: "length b1 = length mem - unat fsz" "unat br \<le> length D - unat fsz" "take (unat br) b1 = take (unat br) ?rest"
    using post by (auto simp: read_result_def)
  have lm: "length ?mem = length mem" using b1(1) ple prems(3) by simp
  have tk: "take (unat fsz + k) ?mem = take (unat fsz + k) D" if "k \<le> unat br" for k
  proof -
    have "length (take (unat fsz) mem) = unat fsz" using prems(3) ple by simp
    then have "take (unat fsz + k) ?mem = take (unat fsz) mem @ take k b1" by (simp only: take_append) simp
    moreover have "take k (take (unat br) b1) = take k (take (unat br) ?rest)" using b1(3) by (rule arg_cong)
    then have "take k b1 = take k ?rest" using that by simp
    ultimately show ?thesis unfolding take_add prems(5) by simp
  qed
  show ?case
  proof (cases "res = FR_OK")
    case False
    then have "image_loop ops fp mem fsz st = Some ((res, fp1, ?mem, of_nat (unat fsz)), st\<lparr>sh_fat := g1\<rparr>)"
      using f ple prems(3) by (subst image_loop.simps) (simp add: on_fat_def)
    moreover have "res = FR_DISK_ERR \<and> fp_err fp1 = FR_DISK_ERR" using post False by (simp add: read_result_def)
    moreover have "take (unat fsz) ?mem = take (unat fsz) D" using tk [of 0] by simp
    moreover have "st\<lparr>sh_fat := g1\<rparr> = st\<lparr>sh_fat := sh_fat (st\<lparr>sh_fat := g1\<rparr>), sh_out := sh_out st\<rparr>" by simp
    ultimately show ?thesis
      using False lm ple by (intro exI [of _ res] exI [of _ fp1] exI [of _ ?mem] exI [of _ "unat fsz"] exI [of _ "st\<lparr>sh_fat := g1\<rparr>"] exI [of _ "sh_out st"]) simp
  next
    case True
    then have r1: "unat br = min 4096 (length D - unat fsz)" "drop (unat br) b1 = drop (unat br) ?buff"
        "at_byte fp1 = unat fsz + unat br" "reading dno ok img a D fp1 g1"
      using post True unfolding read_result_def by auto
    have spin: "unat (fsz div SD_READ_SIZE AND 3) < 4"
    proof -
      have "x AND 3 = take_bit 2 x" for x :: u32 by (simp add: take_bit_eq_mask mask_eq_exp_minus_1)
      then show ?thesis by (simp only: unsigned_take_bit_eq) (simp add: take_bit_eq_mod)
    qed
    then obtain c where c: "get_at (unat (fsz div SD_READ_SIZE AND 3)) (chars ''|/-'' @ [0x5C]) = Some c"
      by (simp add: get_at_def chars_def)
    let ?st = "say [c, 0x08] (st\<lparr>sh_fat := g1\<rparr>)"
    have dr: "drop (unat fsz + unat br) ?mem = drop (unat fsz + unat br) mem"
      using r1(2) ple prems(3) by (simp add: add.commute)
    have sum: "unat (fsz + br) = unat fsz + unat br" using b1(2) ple lD by (simp add: unat_word_ariths)
    have step: "image_loop ops fp mem fsz st =
        (if br = 0 then Some ((FR_OK, fp1, ?mem, fsz + br), ?st) else image_loop ops fp1 ?mem (fsz + br) ?st)"
      using f c True ple prems(3) by (subst image_loop.simps) (simp add: on_fat_def)
    show ?thesis
    proof (cases "br = 0")
      case b0: True
      then have "unat fsz = length D" using r1(1) ple by (simp add: min_def split: if_splits)
      moreover have "image_loop ops fp mem fsz st = Some ((FR_OK, fp1, ?mem, of_nat (unat fsz)), ?st)" using step b0 by simp
      moreover have "?st = st\<lparr>sh_fat := sh_fat ?st, sh_out := sh_out st @ [c, 0x08]\<rparr>" by (simp add: say_def)
      moreover have "take (unat fsz) ?mem = take (unat fsz) D" "drop (unat fsz) ?mem = drop (unat fsz) mem"
        using tk [of 0] dr b0 by simp_all
      moreover have "reading dno ok img a D fp1 (sh_fat ?st)" using r1(4) by (simp add: say_def)
      ultimately show ?thesis
        using lm by (intro exI [of _ FR_OK] exI [of _ fp1] exI [of _ ?mem] exI [of _ "unat fsz"] exI [of _ ?st] exI [of _ "sh_out st @ [c, 0x08]"]) simp
    next
      case False
      then have "0 < unat br" using unat_gt_0 [of br] by blast
      then have lt: "length D - unat (fsz + br) < length D - unat fsz" using b1(2) sum by simp
      have al: "unat (fsz + br) mod 4096 = 0 \<or> unat (fsz + br) = length D"
        using prems(4) r1(1) ple \<open>0 < unat br\<close> unfolding sum by (auto simp: min_def split: if_splits)
      obtain fr fp2 mem2 k st2 out where l: "image_loop ops fp1 ?mem (fsz + br) ?st = Some ((fr, fp2, mem2, of_nat k), st2)"
          "unat (fsz + br) \<le> k" "k \<le> length D" "length mem2 = length ?mem" "take k mem2 = take k D" "st2 = ?st\<lparr>sh_fat := sh_fat st2, sh_out := out\<rparr>"
          "if fr = FR_OK then k = length D \<and> drop k mem2 = drop k ?mem \<and> reading dno ok img a D fp2 (sh_fat st2)
           else fr = FR_DISK_ERR \<and> fp_err fp2 = FR_DISK_ERR"
        using less.hyps [OF lt, of fp1 ?st ?mem] r1(3,4) prems(3) al tk [of "unat br"] lm sum by (auto simp: say_def)
      have "drop k ?mem = drop k mem" if "k = length D"
      proof -
        have "k = (k - (unat fsz + unat br)) + (unat fsz + unat br)" using l(2) sum by simp
        then obtain m where m: "k = m + (unat fsz + unat br)" by blast
        have "drop m (drop (unat fsz + unat br) ?mem) = drop m (drop (unat fsz + unat br) mem)" unfolding dr ..
        then show ?thesis unfolding m drop_drop .
      qed
      note ends = this
      have st2: "st2 = st\<lparr>sh_fat := sh_fat st2, sh_out := out\<rparr>" using l(6) by (simp add: say_def)
      show ?thesis
        by (rule exI [of _ fr], rule exI [of _ fp2], rule exI [of _ mem2], rule exI [of _ k], rule exI [of _ st2], rule exI [of _ out])
          (use step False l lm sum ends st2 in auto)
    qed
  qed
qed

end

lemma diskio_ready: "block_device (diskio_ops co csd) 0 (card_ready rdy) img \<Longrightarrow> ready_device (diskio_ops co csd) 0 (card_ready rdy) img"
  unfolding ready_device_def ready_device_axioms_def
  by (auto simp: diskio_ops_def disk_status_def card_ready_def)

interpretation diskio_ready: ready_device "diskio_ops demo_card []" 0 "card_ready (\<lambda>c. True)" "\<lambda>d s. replicate 512 (ucast s)"
  by (rule diskio_ready) (rule diskio.block_device_axioms)

interpretation ram_ready: ready_device ram_ops dno ram_ok "\<lambda>d. d"
  by unfold_locales (simp add: ram_ops_def)

section \<open>The digest and the command line\<close>

lemma hex_char_nonzero: "unat d < 16 \<Longrightarrow> hex_char d \<noteq> 0"
proof -
  have "list_all (\<lambda>k. hex_char (of_nat k) \<noteq> 0) [0..<16]" by code_simp
  moreover assume "unat d < 16"
  ultimately show "hex_char d \<noteq> 0" using bspec [of "set [0..<16]" "\<lambda>k. hex_char (of_nat k) \<noteq> 0" "unat d"] by (simp add: list_all_iff)
qed

lemma bin2hex_nonzero: "0 \<notin> set (minion_bin2hex cs)"
proof -
  have "unat (drop_bit 4 c) < 16" "unat (c AND 0xF) < 16" for c :: u8
  proof -
    have "unat c < 2 ^ 8" using unsigned_less [of c] by simp
    then show "unat (drop_bit 4 c) < 16" by (simp add: drop_bit_eq_div unat_div div_less_iff_less_mult)
    have "c AND 0xF = take_bit 4 c" by (simp add: take_bit_eq_mask mask_eq_exp_minus_1)
    then show "unat (c AND 0xF) < 16" by (simp only: unsigned_take_bit_eq) (simp add: take_bit_eq_mod)
  qed
  then show ?thesis using hex_char_nonzero by (auto simp: minion_bin2hex_def)
qed

text \<open>The texts of the comparison.\<close>

definition sum_message :: "bytes \<Rightarrow> bytes \<Rightarrow> bytes" where
  "sum_message e h =
     (if e = h then chars ''MD5 checksum '' @ h @ chars '' OK'' @ [0x0A]
      else chars ''Expected sum '' @ e @ chars '', actual '' @ h @ [0x0A])"

lemma myputs_string: "0 \<notin> set s \<Longrightarrow> myputs (s @ 0 # r) = s"
  unfolding myputs_def by (subst takeWhile_append2) auto

lemma check_sum_law:
  assumes "length (md_wbuffer ctx) = 64" "length (md_hash ctx) = 8" "n \<le> length mem" "n < 2 ^ 32" "0 \<notin> set e"
  shows "check_sum ctx (e @ 0 # r) mem (of_nat n) st = Some ((), say (sum_message e (minion_bin2hex (rfc_md5 (take n mem)))) st)"
proof -
  let ?h = "minion_bin2hex (rfc_md5 (take n mem))"
  have n: "ucast (of_nat n :: u32) = (of_nat n :: u64)"
    using assms(4) by (metis of_nat_unat unat_small)
  obtain c1 where c1: "md5_hash (md5_begin ctx) mem (of_nat n) = Some c1" "md5_at c1 (take n mem)"
    using md5_hash_prefix [OF md5_begin_at [OF assms(1,2)], of n mem] assms(3,4) by auto
  obtain c2 where c2: "md5_end c1 = Some c2" "hash_bin_to_hex c2 = ?h @ [0]" using md5_end_text [OF c1(2)] by auto
  obtain d where d: "strcmp (?h @ 0 # []) (e @ 0 # r) = Some d" "d = 0 \<longleftrightarrow> ?h = e"
    using strcmp_law [OF bin2hex_nonzero assms(5)] by blast
  show ?thesis
    using c1(1) c2 d myputs_string [OF bin2hex_nonzero, of _ "[]"] myputs_string [OF assms(5)]
    by (auto simp: check_sum_def n sum_message_def)
qed

text \<open>A receiver that only moves the terminal on, and the characters it delivers.\<close>

definition tty_recv :: "('k \<Rightarrow> (u8 \<times> 'k) option) \<Rightarrow> ('d, 'k) shell \<Rightarrow> (u8 \<times> ('d, 'k) shell) option" where
  "tty_recv rx st = map_option (\<lambda>(c, k). (c, st\<lparr>sh_tty := k\<rparr>)) (rx (sh_tty st))"

primrec delivers :: "('k \<Rightarrow> (u8 \<times> 'k) option) \<Rightarrow> bytes \<Rightarrow> 'k \<Rightarrow> 'k option" where
  "delivers rx [] k = Some k"
| "delivers rx (c # cs) k = (case rx k of None \<Rightarrow> None | Some (c', k) \<Rightarrow> if c' = c then delivers rx cs k else None)"

lemma gets_loop_line:
  "delivers rx (line @ [0x0A]) (sh_tty st) = Some k \<Longrightarrow> 0x0A \<notin> set line \<Longrightarrow> p + length line < 80 \<Longrightarrow> length (sh_line st) = 80 \<Longrightarrow>
   gets_loop (tty_recv rx) p st = Some (True, st\<lparr>sh_tty := k, sh_out := sh_out st @ line @ [0x0A], sh_line := overlay p (line @ [0]) (sh_line st)\<rparr>)"
proof (induction line arbitrary: p st)
  case Nil
  then have "rx (sh_tty st) = Some (0x0A, k)" by (auto split: option.splits if_splits)
  moreover have "overlay p [0] (sh_line st) = (sh_line st)[p := 0]"
    using Nil by (intro nth_equalityI) (auto simp: nth_overlay nth_list_update)
  ultimately show ?case using Nil
    by (subst gets_loop.simps) (simp add: tty_recv_def say_def put_at_def)
next
  case (Cons c line)
  then obtain k1 where r: "rx (sh_tty st) = Some (c, k1)" "delivers rx (line @ [0x0A]) k1 = Some k" "c \<noteq> 0x0A"
    by (auto split: option.splits if_splits)
  let ?st = "st\<lparr>sh_tty := k1, sh_out := sh_out st @ [c], sh_line := (sh_line st)[p := c]\<rparr>"
  have IH: "gets_loop (tty_recv rx) (p + 1) ?st =
      Some (True, ?st\<lparr>sh_tty := k, sh_out := sh_out ?st @ line @ [0x0A], sh_line := overlay (p + 1) (line @ [0]) (sh_line ?st)\<rparr>)"
    using r Cons.prems by (intro Cons.IH) auto
  have "overlay (p + 1) (line @ [0]) ((sh_line st)[p := c]) = overlay p (c # line @ [0]) (sh_line st)"
    using Cons.prems by (intro nth_equalityI) (auto simp: nth_overlay nth_list_update nth_Cons')
  then show ?case using r Cons.prems IH
    by (subst gets_loop.simps) (simp add: tty_recv_def say_def put_at_def)
qed

lemma gets_loop_long:
  "delivers rx (line @ [c]) (sh_tty st) = Some k \<Longrightarrow> 0x0A \<notin> set line \<Longrightarrow> p + length line = 80 \<Longrightarrow> length (sh_line st) = 80 \<Longrightarrow>
   gets_loop (tty_recv rx) p st = Some (False, st\<lparr>sh_tty := k, sh_out := sh_out st @ line @ [c], sh_line := take p (sh_line st) @ line\<rparr>)"
proof (induction line arbitrary: p st)
  case Nil
  then have "rx (sh_tty st) = Some (c, k)" by (auto split: option.splits if_splits)
  then show ?case using Nil by (subst gets_loop.simps) (simp add: tty_recv_def say_def)
next
  case (Cons a line)
  then obtain k1 where r: "rx (sh_tty st) = Some (a, k1)" "delivers rx (line @ [c]) k1 = Some k" "a \<noteq> 0x0A"
    by (auto split: option.splits if_splits)
  let ?st = "st\<lparr>sh_tty := k1, sh_out := sh_out st @ [a], sh_line := (sh_line st)[p := a]\<rparr>"
  have IH: "gets_loop (tty_recv rx) (p + 1) ?st =
      Some (False, ?st\<lparr>sh_tty := k, sh_out := sh_out ?st @ line @ [c], sh_line := take (p + 1) (sh_line ?st) @ line\<rparr>)"
    using r Cons.prems by (intro Cons.IH) auto
  have "take (p + 1) ((sh_line st)[p := a]) @ line = take p (sh_line st) @ a # line"
    using Cons.prems by (simp add: take_Suc_conv_app_nth)
  then show ?case using r Cons.prems IH
    by (subst gets_loop.simps) (simp add: tty_recv_def say_def put_at_def)
qed

section \<open>Properties\<close>

text \<open>
  C25: Showing a file: on an object open for reading on a file without zero bytes, \<open>display\<close> returns and
  prints the bytes of the file from the file pointer on, in order and nothing else, and then their
  number; only a failure of the drive can cut the text short.\<close>
theorem display_shows_file:
  assumes "ready_device ops dno ok img" and "reading dno ok img a D fp (sh_fat st)" and "0 \<notin> set D" and "length buffer = 64"
  shows "\<exists>fp' n st'. display ops fp buffer st = Some (fp', st') \<and> at_byte fp + n \<le> length D \<and>
    sh_out st' = sh_out st @ take n (drop (at_byte fp) D) @ chars ''file size '' @ dec (of_nat n) @ [0x0A] \<and>
    (if at_byte fp + n = length D \<and> fp_err fp' = FR_OK then reading dno ok img a D fp' (sh_fat st') else fp_err fp' = FR_DISK_ERR)"
proof -
  obtain fp' b n st1 where d: "display_loop ops fp buffer 0 st = Some ((fp', b, of_nat n), st1)" "at_byte fp + n \<le> length D"
      "sh_out st1 = sh_out st @ take n (drop (at_byte fp) D)"
      "if at_byte fp + n = length D \<and> fp_err fp' = FR_OK then reading dno ok img a D fp' (sh_fat st1) else fp_err fp' = FR_DISK_ERR"
    using ready_device.display_loop_law [OF assms(1,2,4), of 0] assms(3) by auto
  let ?st = "say (chars ''file size '' @ dec (of_nat n) @ [0x0A]) st1"
  have "display ops fp buffer st = Some (fp', ?st)" using d(1) by (simp add: display_def)
  moreover have "sh_out ?st = sh_out st @ take n (drop (at_byte fp) D) @ chars ''file size '' @ dec (of_nat n) @ [0x0A]" "sh_fat ?st = sh_fat st1"
    using d(3) by (simp_all add: say_def)
  ultimately show ?thesis using d(2,4) by metis
qed

text \<open>The file of 1500 bytes of the reading theorem, open at byte 100 and at its start.\<close>

definition data_shell :: "(u32 \<Rightarrow> bytes, unit) shell" where
  "data_shell = \<lparr>sh_fat = data_sys, sh_tty = (), sh_out = [], sh_mounted = True, sh_kernel = replicate 32 0, sh_line = replicate 80 0\<rparr>"

definition data_contents :: bytes where
  "data_contents = file_data (\<lambda>d. d) data_vol data_file"

lemma data_reading: "reading 0 ram_ok (\<lambda>d. d) 3 data_contents data_file data_sys"
  using data_vol_ok data_fil_inv
  by (simp add: reading_def data_contents_def) (simp add: data_vol_def data_file_def FA_READ_def demo_fs_def FS_FAT16_def)

lemma data_reading_start: "reading 0 ram_ok (\<lambda>d. d) 3 data_contents (data_file\<lparr>fp_fptr := 0\<rparr>) data_sys"
  using data_reading by (simp add: reading_def fil_inv_def fil_at_def)

lemma data_length: "length data_contents = 1500"
  by (simp add: data_contents_def) (simp add: data_file_def)

lemma data_no_zero: "0 \<notin> set data_contents"
proof -
  have "data_contents ! i \<noteq> 0" if "i < 1500" for i using data_bytes [OF that] by (simp add: data_contents_def)
  then show ?thesis by (metis in_set_conv_nth data_length)
qed

theorem display_shows_file_witness:
  "\<exists>fp' n st'. display ram_ops data_file (replicate 64 0) data_shell = Some (fp', st') \<and>
    sh_out st' = take n (drop 100 data_contents) @ chars ''file size '' @ dec (of_nat n) @ [0x0A] \<and> (n = 1400 \<or> fp_err fp' = FR_DISK_ERR)"
proof -
  have a: "at_byte data_file = 100" by (simp add: at_byte_def data_file_def)
  have "reading 0 ram_ok (\<lambda>d. d) 3 data_contents data_file (sh_fat data_shell)" using data_reading by (simp add: data_shell_def)
  from display_shows_file [OF ram_ready.ready_device_axioms this data_no_zero, of "replicate 64 0"] obtain fp' n st' where
    d: "display ram_ops data_file (replicate 64 0) data_shell = Some (fp', st')" "100 + n \<le> 1500"
      "sh_out st' = sh_out data_shell @ take n (drop 100 data_contents) @ chars ''file size '' @ dec (of_nat n) @ [0x0A]"
      "if 100 + n = 1500 \<and> fp_err fp' = FR_OK then reading 0 ram_ok (\<lambda>d. d) 3 data_contents fp' (sh_fat st') else fp_err fp' = FR_DISK_ERR"
    by (auto simp: a data_length)
  have "n = 1400 \<or> fp_err fp' = FR_DISK_ERR" using d(4) by (auto split: if_splits)
  then show ?thesis using d(1,3) by (auto simp: data_shell_def)
qed

text \<open>
  C11: Booting: with a file open at its start, the image loop returns; unless the drive fails, the memory
  then holds the file, nothing behind it has changed, and the digest test that follows prints that the
  sum is right exactly when the expected text is the MD5 sum of the file in hexadecimal.\<close>
theorem boot_image_checked:
  assumes "ready_device ops dno ok img" and "reading dno ok img a D fp (sh_fat st)" and "at_byte fp = 0" and "length D + 4096 \<le> length mem"
    and "length (md_wbuffer ctx) = 64" and "length (md_hash ctx) = 8" and "0 \<notin> set e"
  shows "\<exists>fr fp' mem' m st'. image_loop ops fp mem 0 st = Some ((fr, fp', mem', m), st') \<and>
    (if fr = FR_OK then m = of_nat (length D) \<and> mem' = D @ drop (length D) mem \<and>
       check_sum ctx (e @ 0 # r) mem' m st' = Some ((), say (sum_message e (minion_bin2hex (rfc_md5 D))) st')
     else fr = FR_DISK_ERR \<and> fp_err fp' = FR_DISK_ERR)"
proof -
  obtain fr fp' mem' n st' where l: "image_loop ops fp mem 0 st = Some ((fr, fp', mem', of_nat n), st')"
      "length mem' = length mem" "take n mem' = take n D" "if fr = FR_OK then n = length D \<and> drop n mem' = drop n mem \<and>
        reading dno ok img a D fp' (sh_fat st') else fr = FR_DISK_ERR \<and> fp_err fp' = FR_DISK_ERR"
    using ready_device.image_loop_law [OF assms(1,2), of 0 mem] assms(3,4) by auto
  have lD: "length D < 2 ^ 32" using assms(2) u32_less [of "fp_fsize fp"] by (auto simp: reading_def)
  show ?thesis
  proof (cases "fr = FR_OK")
    case False
    then show ?thesis using l by auto
  next
    case True
    then have n: "n = length D" "drop n mem' = drop n mem" using l(4) by auto
    then have "mem' = D @ drop (length D) mem" using l(3) by (metis append_take_drop_id order_refl take_all)
    moreover have "check_sum ctx (e @ 0 # r) mem' (of_nat n) st' = Some ((), say (sum_message e (minion_bin2hex (rfc_md5 D))) st')"
      using check_sum_law [OF assms(5,6) _ _ assms(7), of n mem' r st'] l(2,3) assms(4) lD n(1) by simp
    ultimately show ?thesis using l(1) True n(1) by auto
  qed
qed

theorem boot_image_checked_witness:
  "\<exists>fr fp' mem' m st'. image_loop ram_ops (data_file\<lparr>fp_fptr := 0\<rparr>) (replicate 8192 0) 0 data_shell = Some ((fr, fp', mem', m), st') \<and>
    (fr = FR_OK \<longrightarrow> m = 1500 \<and> take 1500 mem' = data_contents \<and>
       check_sum fresh_ctx (minion_bin2hex (rfc_md5 data_contents) @ [0]) mem' m st' =
         Some ((), say (chars ''MD5 checksum '' @ minion_bin2hex (rfc_md5 data_contents) @ chars '' OK'' @ [0x0A]) st'))"
proof -
  let ?fp = "data_file\<lparr>fp_fptr := 0\<rparr>" and ?mem = "replicate 8192 0 :: bytes" and ?e = "minion_bin2hex (rfc_md5 data_contents)"
  have "reading 0 ram_ok (\<lambda>d. d) 3 data_contents ?fp (sh_fat data_shell)" using data_reading_start by (simp add: data_shell_def)
  from boot_image_checked [OF ram_ready.ready_device_axioms this, of ?mem fresh_ctx ?e "[]"] show ?thesis
    using bin2hex_nonzero data_length by (auto simp: at_byte_def fresh_ctx_def sum_message_def)
qed

text \<open>
  C40: Reading a command, for every input.  If the first new line comes after at most 79 characters the
  line is echoed and stored with its zero in place of the new line, and nothing behind it changes.  If the
  first 80 characters hold no new line, they fill the buffer and the program aborts on the next character,
  whatever it is: a line of exactly 80 characters with its new line is refused too.  Nothing is ever
  stored behind the 80 characters of the buffer.\<close>
theorem mygets_correct:
  assumes "0x0A \<notin> set line" and "length (sh_line st) = 80"
  shows "(length line < 80 \<and> delivers rx (line @ [0x0A]) (sh_tty st) = Some k \<longrightarrow>
      mygets (tty_recv rx) st = Some (True, st\<lparr>sh_tty := k, sh_out := sh_out st @ line @ [0x0A], sh_line := overlay 0 (line @ [0]) (sh_line st)\<rparr>)) \<and>
    (length line = 80 \<and> delivers rx (line @ [c]) (sh_tty st) = Some k \<longrightarrow>
      mygets (tty_recv rx) st = Some (False, st\<lparr>sh_tty := k, sh_out := sh_out st @ line @ [c], sh_line := line\<rparr>))"
  using gets_loop_line [of rx line st k 0] gets_loop_long [of rx line c st k 0] assms by (simp add: mygets_def)

text \<open>A terminal that is a list of characters.\<close>

definition list_rx :: "bytes \<Rightarrow> (u8 \<times> bytes) option" where
  "list_rx k = (case k of [] \<Rightarrow> None | c # k \<Rightarrow> Some (c, k))"

definition typed_shell :: "(u32 \<Rightarrow> bytes, bytes) shell" where
  "typed_shell = \<lparr>sh_fat = data_sys, sh_tty = [0x66, 0x61, 0x0A, 0x71],
     sh_out = [], sh_mounted = False, sh_kernel = replicate 32 0, sh_line = replicate 80 0\<rparr>"

theorem mygets_correct_witness:
  "mygets (tty_recv list_rx) typed_shell =
     Some (True, typed_shell\<lparr>sh_tty := [0x71], sh_out := [0x66, 0x61, 0x0A], sh_line := overlay 0 [0x66, 0x61, 0] (replicate 80 0)\<rparr>) \<and>
   mygets (tty_recv list_rx) (typed_shell\<lparr>sh_tty := replicate 80 0x66 @ [0x0A]\<rparr>) =
     Some (False, typed_shell\<lparr>sh_tty := [], sh_out := replicate 80 0x66 @ [0x0A], sh_line := replicate 80 0x66\<rparr>)"
proof -
  have d: "delivers list_rx cs (cs @ r) = Some r" for cs r by (induction cs) (simp_all add: list_rx_def)
  show ?thesis
    using mygets_correct [of "[0x66, 0x61]" typed_shell list_rx "[0x71]" 0]
      mygets_correct [of "replicate 80 0x66" "typed_shell\<lparr>sh_tty := replicate 80 0x66 @ [0x0A]\<rparr>" list_rx "[]" "0x0A"]
      d [of "[0x66, 0x61, 0x0A]" "[0x71]"] d [of "replicate 80 0x66 @ [0x0A]" "[]"]
    by (simp add: typed_shell_def)
qed

text \<open>
  The file name of \<open>prepare\<close>: a name of at most 31 characters is copied with its zero and everything behind
  it is kept, a longer one would be stored past \<open>kernel\<close>; and since the test looks at the second
  character only, a command without arguments takes what an earlier line left behind its zero.\<close>
theorem kernel_name_correct:
  assumes "length knl = 32" and "0 \<notin> set name" and "name \<noteq> []"
  shows "kernel_name (c # name @ 0 # r) knl = (if length name < 32 then Some (overlay 0 (name @ [0]) knl) else None) \<and>
    kernel_name (c # 0 # r) knl = Some (overlay 0 (cstring ''boot.bin'') knl) \<and>
    kernel_name (0 # name @ 0 # r) knl = kernel_name (c # name @ 0 # r) knl"
proof -
  have c: "get_at 1 (x # name @ 0 # r) = Some (hd name) \<and> hd name \<noteq> 0" for x
    using assms(2,3) by (cases name) (auto simp: get_at_def)
  have b: "0 \<in> set (cstring ''boot.bin'')" "myputs (cstring ''boot.bin'') @ [0] = cstring ''boot.bin''" "length (cstring ''boot.bin'') = 9"
    by code_simp+
  have n: "kernel_name (x # name @ 0 # r) knl = (if length name < 32 then Some (overlay 0 (name @ [0]) knl) else None)" for x
    using c [of x] myputs_string [OF assms(2), of r] assms(1) by (simp add: kernel_name_def put_range_def)
  have "kernel_name (c # 0 # r) knl = Some (overlay 0 (cstring ''boot.bin'') knl)"
    using b assms(1) by (simp add: kernel_name_def get_at_def put_range_def)
  then show ?thesis using n by simp
qed

theorem kernel_name_correct_witness:
  "kernel_name [0x20, 0x61, 0x62, 0] (replicate 32 7) = Some (overlay 0 [0x61, 0x62, 0] (replicate 32 7)) \<and>
   kernel_name [0, 0x61, 0x62, 0] (replicate 32 7) = Some (overlay 0 [0x61, 0x62, 0] (replicate 32 7))"
  using kernel_name_correct [of "replicate 32 7" "[0x61, 0x62]" "0x20" "[]"] by simp

end
