(* ===== verification/Fat_Session.thy ===== *)
theory Fat_Session
  imports Fat_Sync Shell_Laws
begin

text \<open>
  Calls on one open file in a row: what was written is what is read back, and an object that
  failed refuses all further work.
\<close>

section \<open>A file open for reading and writing\<close>

text \<open>The object \<open>fp\<close> is open for reading and writing on the file with the clusters \<open>cs\<close> and the contents \<open>D\<close>.\<close>

definition editing :: "u8 \<Rightarrow> ('d \<Rightarrow> bool) \<Rightarrow> ('d \<Rightarrow> u32 \<Rightarrow> bytes) \<Rightarrow> nat \<Rightarrow> u32 list \<Rightarrow> bytes \<Rightarrow> fil \<Rightarrow> 'd fat_sys \<Rightarrow> bool" where
  "editing dno ok img a cs D fp g \<longleftrightarrow> reading dno ok img a D fp g \<and> fp_flag fp AND FA_WRITE \<noteq> 0 \<and>
     file_chain img (fs_at g a) (fp_sclust fp) cs"

text \<open>The contents with \<open>new\<close> laid over them from \<open>p\<close> on.\<close>

definition written :: "nat \<Rightarrow> bytes \<Rightarrow> bytes \<Rightarrow> bytes" where
  "written p new D = take p D @ new @ drop (p + length new) D"

lemma mode_flags:
  assumes "y AND NOT FA__DIRTY = x AND NOT FA__DIRTY"
  shows "y AND FA_READ = x AND FA_READ" and "y AND FA_WRITE = x AND FA_WRITE"
proof -
  have r: "z AND FA_READ = (z AND NOT FA__DIRTY) AND FA_READ" for z :: u8 by (simp add: FA__DIRTY_def FA_READ_def and.assoc)
  have w: "z AND FA_WRITE = (z AND NOT FA__DIRTY) AND FA_WRITE" for z :: u8 by (simp add: FA__DIRTY_def FA_WRITE_def and.assoc)
  show "y AND FA_READ = x AND FA_READ" using r [of y] r [of x] assms by simp
  show "y AND FA_WRITE = x AND FA_WRITE" using w [of y] w [of x] assms by simp
qed

lemma mode_written: "(x OR FA__WRITTEN) AND FA_READ = x AND FA_READ" "(x OR FA__WRITTEN) AND FA_WRITE = x AND FA_WRITE" for x :: u8
  by (simp_all add: FA__WRITTEN_def FA_READ_def FA_WRITE_def bit.conj_disj_distrib2)

context ready_device
begin

lemma reading_valid: "reading dno ok img a D fp g \<Longrightarrow> valid_file ops fp g = FR_OK"
  using status_law by (auto simp: reading_def valid_file_def validate_def Let_def fs_at_def win_inv_def)

lemma write_open:
  assumes e: "editing dno ok img a cs D fp g" and n: "unat n \<le> length buff" and p: "at_byte fp + unat n < 2 ^ 32"
  shows "returns (f_write ops fp buff n g) (\<lambda>(res, fp', bw) g'. unat bw \<le> unat n \<and>
    (if res = FR_OK then at_byte fp' = at_byte fp + unat bw \<and> (\<exists>cs'. editing dno ok img a cs' (written (at_byte fp) (take (unat bw) buff) D) fp' g')
     else fp_err fp' = res))"
proof -
  have r: "reading dno ok img a D fp g" using e by (simp add: editing_def)
  have c: "write_count fp n = n" using write_count(3) p by (simp add: at_byte_def)
  obtain res fp' bw g' where f: "f_write ops fp buff n g = Some ((res, fp', bw), g')" and
    post: "win_inv dno ok img (fs_at g' a)" "kept img (fs_at g a) cs (fs_at g' a)" "unat bw \<le> unat n"
      "res \<noteq> FR_OK \<longrightarrow> fp_err fp' = res"
      "res = FR_OK \<longrightarrow> fil_inv img (fs_at g' a) fp' \<and> unat (fp_fptr fp') = at_byte fp + unat bw \<and>
        (\<exists>cs'. file_chain img (fs_at g' a) (fp_sclust fp') cs' \<and> grows img (fs_at g a) cs cs') \<and>
        file_data img (fs_at g' a) fp' = take (at_byte fp) D @ take (unat bw) buff @ drop (at_byte fp + unat bw) D \<and>
        fp_fs fp' = fp_fs fp \<and> fp_id fp' = fp_id fp \<and> fp_err fp' = FR_OK \<and>
        fp_flag fp' AND NOT FA__DIRTY = (fp_flag fp OR FA__WRITTEN) AND NOT FA__DIRTY"
    using f_write_law [OF block_device_axioms reading_valid [OF r], of a cs n buff] e n c
    by (auto simp: returns_iff editing_def reading_def Let_def at_byte_def split: if_split_asm) blast+
  have "\<exists>cs'. editing dno ok img a cs' (written (at_byte fp) (take (unat bw) buff) D) fp' g'" if ok: "res = FR_OK"
  proof -
    have g: "geom (fs_at g' a) = geom (fs_at g a)" using post(2) by (simp add: kept_def)
    have fl: "fp_flag fp' AND NOT FA__DIRTY = (fp_flag fp OR FA__WRITTEN) AND NOT FA__DIRTY" using post(5) ok by simp
    have "length (take (unat bw) buff) = unat bw" using post(3) n by simp
    then show ?thesis
      using e post(1) post(5) ok kept_layout [OF post(2)] geom_sel [OF g] mode_flags [OF fl] mode_written
      by (auto simp: editing_def reading_def written_def)
  qed
  then show ?thesis unfolding f using post by (auto simp: at_byte_def)
qed

lemma seek_open:
  assumes e: "editing dno ok img a cs D fp g" and t: "unat ofs \<le> length D"
  shows "returns (f_lseek ops fp ofs g) (\<lambda>(res, fp') g'.
    if res = FR_OK then editing dno ok img a cs D fp' g' \<and> at_byte fp' = unat ofs else fp_err fp' = res)"
proof -
  have r: "reading dno ok img a D fp g" using e by (simp add: editing_def)
  have st: "seek_target fp ofs = ofs" using e by (simp add: editing_def seek_target_def)
  have "ofs \<le> fp_fsize fp" using r t by (auto simp: reading_def word_le_nat_alt)
  then obtain res fp' g' where f: "f_lseek ops fp ofs g = Some ((res, fp'), g')" and
    post: "win_inv dno ok img (fs_at g' a)" "same_vol (fs_at g a) (fs_at g' a)" "res \<noteq> FR_OK \<longrightarrow> fp_err fp' = res"
      "res = FR_OK \<longrightarrow> fil_inv img (fs_at g' a) fp' \<and> fp_fptr fp' = ofs \<and> file_data img (fs_at g' a) fp' = D \<and>
        file_chain img (fs_at g' a) (fp_sclust fp') cs \<and> same_open fp (fp'\<lparr>fp_fptr := fp_fptr fp\<rparr>)"
    using f_lseek_law [OF block_device_axioms reading_valid [OF r], of a cs ofs] e st
    by (auto simp: returns_iff editing_def reading_def quiet_def split: if_split_asm)
  have "editing dno ok img a cs D fp' g'" if ok: "res = FR_OK"
  proof -
    have so: "same_open fp (fp'\<lparr>fp_fptr := fp_fptr fp\<rparr>)" using post(4) ok by simp
    then have fl: "fp_flag fp' AND NOT FA__DIRTY = fp_flag fp AND NOT FA__DIRTY" by (simp add: same_open_def)
    show ?thesis
      using e post(1,4) ok same_vol_sel [OF post(2)] layout_same_vol [OF post(2)] dir_layout_same_vol [OF post(2)] same_open_sel [OF so] mode_flags [OF fl]
      by (auto simp: editing_def reading_def)
  qed
  then show ?thesis unfolding f using post by (auto simp: at_byte_def)
qed

end

text \<open>An object that failed refuses the calls.\<close>

lemma failed_object:
  assumes "fp_err fp \<noteq> FR_OK"
  shows "\<exists>e. e \<noteq> FR_OK \<and> f_lseek ops fp ofs g = Some ((e, fp), g)" and "\<exists>e. e \<noteq> FR_OK \<and> f_read ops fp buff n g = Some ((e, fp, buff, 0), g)"
  using assms by (auto simp: f_lseek_def f_read_def Let_def)

section \<open>Properties\<close>

text \<open>
  C14: Write, seek back, read.  On a file open for reading and writing, the bytes \<open>f_write\<close>
  reports as written are the bytes \<open>f_read\<close> delivers after \<open>f_lseek\<close> has set the
  pointer back, whatever clusters the write has taken and whichever of the sectors are still in
  the cache of the object.  All three calls return; when one fails, so do those after it.
\<close>

theorem write_seek_read:
  assumes "ready_device ops dno ok img" and "editing dno ok img a cs D fp g"
    and "unat n \<le> length buff" and "unat (fp_fptr fp) + unat n < 2 ^ 32" and "unat n \<le> length out"
  shows "returns (do {
      ((r1, fp1, bw), g) \<leftarrow> f_write ops fp buff n g;
      ((r2, fp2), g) \<leftarrow> f_lseek ops fp1 (fp_fptr fp) g;
      ((r3, fp3, out', br), g) \<leftarrow> f_read ops fp2 out bw g;
      Some ((r1, r2, r3, bw, br, out'), g) })
    (\<lambda>(r1, r2, r3, bw, br, out') g'. unat bw \<le> unat n \<and> (r1 \<noteq> FR_OK \<longrightarrow> r2 \<noteq> FR_OK) \<and> (r2 \<noteq> FR_OK \<longrightarrow> r3 \<noteq> FR_OK) \<and>
       (r3 = FR_OK \<longrightarrow> br = bw \<and> take (unat bw) out' = take (unat bw) buff))"
proof -
  note dev = assms(1)
  obtain r1 fp1 bw g1 where w: "f_write ops fp buff n g = Some ((r1, fp1, bw), g1)" "unat bw \<le> unat n"
      "if r1 = FR_OK then at_byte fp1 = at_byte fp + unat bw \<and> (\<exists>cs'. editing dno ok img a cs' (written (at_byte fp) (take (unat bw) buff) D) fp1 g1)
       else fp_err fp1 = r1"
    using ready_device.write_open [OF dev assms(2,3)] assms(4) by (auto simp: returns_iff at_byte_def)
  show ?thesis
  proof (cases "r1 = FR_OK")
    case False
    then obtain e e' where "e \<noteq> FR_OK" "f_lseek ops fp1 (fp_fptr fp) g1 = Some ((e, fp1), g1)"
        "e' \<noteq> FR_OK" "f_read ops fp1 out bw g1 = Some ((e', fp1, out, 0), g1)"
      using failed_object [of fp1] w(3) by metis
    then show ?thesis using w(1,2) by simp
  next
    case True
    let ?new = "written (at_byte fp) (take (unat bw) buff) D"
    obtain cs' where e1: "editing dno ok img a cs' ?new fp1 g1" using w(3) True by auto
    have le: "at_byte fp \<le> length D"
      using assms(2) by (auto simp: editing_def reading_def fil_inv_def fil_at_def at_byte_def)
    have nw: "length (take (unat bw) buff) = unat bw" using w(2) assms(3) by simp
    have len: "at_byte fp + unat bw \<le> length ?new" "take (unat bw) (drop (at_byte fp) ?new) = take (unat bw) buff"
      using le nw by (simp_all add: written_def)
    then have bk: "unat (fp_fptr fp) \<le> length ?new" by (simp add: at_byte_def)
    obtain r2 fp2 g2 where s: "f_lseek ops fp1 (fp_fptr fp) g1 = Some ((r2, fp2), g2)"
        "if r2 = FR_OK then editing dno ok img a cs' ?new fp2 g2 \<and> at_byte fp2 = at_byte fp else fp_err fp2 = r2"
      using ready_device.seek_open [OF dev e1 bk] by (auto simp: returns_iff simp flip: at_byte_def)
    show ?thesis
    proof (cases "r2 = FR_OK")
      case False
      then obtain e' where "e' \<noteq> FR_OK" "f_read ops fp2 out bw g2 = Some ((e', fp2, out, 0), g2)"
        using failed_object(2) [of fp2] s(2) by metis
      then show ?thesis using w(1,2) s(1) True False by simp
    next
      case ok: True
      then have e2: "reading dno ok img a ?new fp2 g2" "at_byte fp2 = at_byte fp" using s(2) by (simp_all add: editing_def)
      have "unat bw \<le> length out" using w(2) assms(5) by simp
      then obtain r3 fp3 out' br g3 where r: "f_read ops fp2 out bw g2 = Some ((r3, fp3, out', br), g3)"
          "take (unat br) out' = take (unat br) (drop (at_byte fp) ?new)" "r3 = FR_OK \<longrightarrow> unat br = min (unat bw) (length ?new - at_byte fp)"
        using ready_device.read_open [OF dev e2(1), of bw out] e2(2) by (auto simp: returns_iff read_result_def)
      have "br = bw" if "r3 = FR_OK" using r(3) that len(1) by (simp add: word_unat_eq_iff)
      then show ?thesis using w(1,2) s(1) r(1,2) len(2) True ok by auto
    qed
  qed
qed

text \<open>The theorem on the file of 1500 bytes, with 2000 bytes written from byte 100 on.\<close>

lemma edit_file_open: "editing 0 ram_ok (\<lambda>d. d) 3 [5, 7] (file_data (\<lambda>d. d) data_vol data_file) edit_file data_sys"
proof -
  have "fs_type data_vol \<noteq> 0" "fs_id data_vol = 1" by (simp_all add: data_vol_def demo_fs_def FS_FAT16_def)
  moreover have "fp_fs edit_file = Some 3" "fp_err edit_file = FR_OK" "fp_flag edit_file AND FA_WRITE \<noteq> 0" "fp_flag edit_file AND FA_READ \<noteq> 0"
      "fp_id edit_file = 1"
    by (simp_all add: edit_file_def data_file_def FA_READ_def FA_WRITE_def)
  ultimately show ?thesis using data_vol_ok edit_file_ok by (simp add: editing_def reading_def)
qed

theorem write_seek_read_witness:
  "returns (do {
      ((r1, fp1, bw), g) \<leftarrow> f_write ram_ops edit_file (replicate 2000 171) 2000 data_sys;
      ((r2, fp2), g) \<leftarrow> f_lseek ram_ops fp1 100 g;
      ((r3, fp3, out', br), g) \<leftarrow> f_read ram_ops fp2 (replicate 2048 0) bw g;
      Some ((r1, r2, r3, bw, br, out'), g) })
    (\<lambda>(r1, r2, r3, bw, br, out') g'. r3 = FR_OK \<longrightarrow> bw = 2000 \<longrightarrow> br = 2000 \<and> take 2000 out' = replicate 2000 171)"
proof -
  have p: "fp_fptr edit_file = 100" by (simp add: edit_file_def data_file_def)
  show ?thesis
    using write_seek_read [OF ram_ready.ready_device_axioms edit_file_open, of 2000 "replicate 2000 171" "replicate 2048 0"] unfolding p
    by (rule returns_mono) auto
qed

end
