(* ===== verification/Elf.thy ===== *)
theory Elf
  imports Prelude
begin

text \<open>
  The ELF loader of \<open>elf.c\<close> on the flat physical memory of the machine: the headers are read where
  the image lies, segments are copied to their physical addresses and padded with zeros.  A copy
  between overlapping regions has no result, as \<open>memcpy\<close> does not define one.
\<close>

section \<open>Memory\<close>

type_synonym memory = "u64 \<Rightarrow> u8"

definition ram_bytes :: "memory \<Rightarrow> u64 \<Rightarrow> nat \<Rightarrow> bytes" where
  "ram_bytes m a n = map (\<lambda>i. m (a + of_nat i)) [0..<n]"

definition ram16 :: "memory \<Rightarrow> u64 \<Rightarrow> u16" where
  "ram16 m a = le16 (m a) (m (a + 1))"

definition ram32 :: "memory \<Rightarrow> u64 \<Rightarrow> u32" where
  "ram32 m a = le32 (m a) (m (a + 1)) (m (a + 2)) (m (a + 3))"

definition ram64 :: "memory \<Rightarrow> u64 \<Rightarrow> u64" where
  "ram64 m a = le64 (ram_bytes m a 8)"

definition ram_copy :: "u64 \<Rightarrow> u64 \<Rightarrow> u64 \<Rightarrow> memory \<Rightarrow> memory option" where
  "ram_copy dst src n m =
     (if n \<le> dst - src \<and> n \<le> src - dst then Some (\<lambda>a. if a - dst < n then m (src + (a - dst)) else m a) else None)"

definition ram_fill :: "u64 \<Rightarrow> u8 \<Rightarrow> u64 \<Rightarrow> memory \<Rightarrow> memory" where
  "ram_fill dst c n m = (\<lambda>a. if a - dst < n then c else m a)"

section \<open>Headers\<close>

record elf64_ehdr =
  e_ident :: bytes
  e_type :: u16
  e_machine :: u16
  e_version :: u32
  e_entry :: u64
  e_phoff :: u64
  e_shoff :: u64
  e_flags :: u32
  e_ehsize :: u16
  e_phentsize :: u16
  e_phnum :: u16
  e_shentsize :: u16
  e_shnum :: u16
  e_shstrndx :: u16

record elf64_phdr =
  p_type :: u32
  p_flags :: u32
  p_offset :: u64
  p_vaddr :: u64
  p_paddr :: u64
  p_filesz :: u64
  p_memsz :: u64
  p_align :: u64

definition ehdr_at :: "memory \<Rightarrow> u64 \<Rightarrow> elf64_ehdr" where
  "ehdr_at m a =
     \<lparr>e_ident = ram_bytes m a 16, e_type = ram16 m (a + 16), e_machine = ram16 m (a + 18), e_version = ram32 m (a + 20),
      e_entry = ram64 m (a + 24), e_phoff = ram64 m (a + 32), e_shoff = ram64 m (a + 40), e_flags = ram32 m (a + 48),
      e_ehsize = ram16 m (a + 52), e_phentsize = ram16 m (a + 54), e_phnum = ram16 m (a + 56),
      e_shentsize = ram16 m (a + 58), e_shnum = ram16 m (a + 60), e_shstrndx = ram16 m (a + 62)\<rparr>"

definition phdr_at :: "memory \<Rightarrow> u64 \<Rightarrow> elf64_phdr" where
  "phdr_at m a =
     \<lparr>p_type = ram32 m a, p_flags = ram32 m (a + 4), p_offset = ram64 m (a + 8), p_vaddr = ram64 m (a + 16),
      p_paddr = ram64 m (a + 24), p_filesz = ram64 m (a + 32), p_memsz = ram64 m (a + 40), p_align = ram64 m (a + 48)\<rparr>"

definition IS_ELF64 :: "elf64_ehdr \<Rightarrow> bool" where
  "IS_ELF64 h \<longleftrightarrow> take 5 (e_ident h) = [0x7F, 0x45, 0x4C, 0x46, 2]"

definition PT_LOAD :: u32 where "PT_LOAD = 1"

definition Ehdr_size :: u64 where "Ehdr_size = 64"
definition Phdr_size :: u64 where "Phdr_size = 56"

section \<open>The loader\<close>

text \<open>The headers are read again whenever the code goes through their pointers.\<close>

function load_loop :: "u64 \<Rightarrow> u32 \<Rightarrow> u64 \<Rightarrow> u32 \<Rightarrow> memory \<Rightarrow> (u32 \<times> memory) option" where
  "load_loop elf elf_size ph i m =
     (if \<not> i < ucast (e_phnum (ehdr_at m elf)) then Some (0, m)
      else
        let at = ph + ucast i * Phdr_size; p = phdr_at m at in
        if p_type p = PT_LOAD \<and> p_memsz p \<noteq> 0 then
          if p_filesz p \<noteq> 0 \<and> ucast elf_size < p_offset p + p_filesz p then Some (3, m)
          else do {
            m \<leftarrow> (if p_filesz p \<noteq> 0 then ram_copy (p_paddr p) (elf + p_offset p) (p_filesz p) m else Some m);
            let p = phdr_at m at;
            let m = (if p_memsz p > p_filesz p then ram_fill (p_paddr p + p_filesz p) 0 (p_memsz p - p_filesz p) m else m);
            load_loop elf elf_size ph (i + 1) m }
        else load_loop elf elf_size ph (i + 1) m)"
  by pat_completeness auto

lemma unat_widen: "LENGTH('a) \<le> LENGTH('b) \<Longrightarrow> unat (ucast (x :: 'a::len word) :: 'b::len word) = unat x"
proof -
  assume "LENGTH('a) \<le> LENGTH('b)"
  then have "(2 :: nat) ^ LENGTH('a) \<le> 2 ^ LENGTH('b)" by (intro power_increasing) simp_all
  with unsigned_less [of x] have "unat x < 2 ^ LENGTH('b)" by (rule order.strict_trans2)
  then show ?thesis by (simp add: unsigned_ucast_eq take_bit_nat_eq_self)
qed

lemma next_header: "i < (ucast (n :: u16) :: u32) \<Longrightarrow> 65536 - unat (i + 1) < 65536 - unat i"
proof -
  have n: "unat (ucast n :: u32) < 65536" using unsigned_less [of n] by (simp add: unat_widen)
  assume "i < ucast n"
  then have "unat i < 65535" using n by (simp add: word_less_nat_alt)
  then show ?thesis by (simp add: unat_word_ariths)
qed

termination load_loop
  by (relation "measure (\<lambda>(_, _, _, i, _). 65536 - unat i)") (auto dest: next_header)

declare load_loop.simps [simp del]

definition load_elf :: "u64 \<Rightarrow> u32 \<Rightarrow> memory \<Rightarrow> (u32 \<times> memory) option" where
  "load_elf elf elf_size m =
     (if ucast elf_size \<le> Ehdr_size then Some (1, m)
      else if \<not> IS_ELF64 (ehdr_at m elf) then Some (2, m)
      else
        let eh = ehdr_at m elf; ph = elf + e_phoff eh in
        if ucast elf_size < e_phoff eh + ucast (e_phnum eh) * Phdr_size then Some (3, m)
        else load_loop elf elf_size ph 0 m)"

section \<open>The specification\<close>

text \<open>The segments of an image, and the memory after loading them one after the other, in numbers without wrap-around.\<close>

definition segments :: "memory \<Rightarrow> u64 \<Rightarrow> elf64_phdr list" where
  "segments m elf = map (\<lambda>i. phdr_at m (elf + e_phoff (ehdr_at m elf) + of_nat i * Phdr_size)) [0..<unat (e_phnum (ehdr_at m elf))]"

definition loadable :: "elf64_phdr \<Rightarrow> bool" where
  "loadable p \<longleftrightarrow> p_type p = PT_LOAD \<and> p_memsz p \<noteq> 0"

definition load_segment :: "u64 \<Rightarrow> memory \<Rightarrow> elf64_phdr \<Rightarrow> memory \<Rightarrow> memory" where
  "load_segment elf img p m = (\<lambda>a.
     if a - p_paddr p < p_filesz p then img (elf + p_offset p + (a - p_paddr p))
     else if a - p_paddr p < p_memsz p then 0 else m a)"

fun load_all :: "u64 \<Rightarrow> nat \<Rightarrow> memory \<Rightarrow> elf64_phdr list \<Rightarrow> memory \<Rightarrow> u32 \<times> memory" where
  "load_all elf sz img [] m = (0, m)"
| "load_all elf sz img (p # ps) m =
     (if \<not> loadable p then load_all elf sz img ps m
      else if p_filesz p \<noteq> 0 \<and> sz < unat (p_offset p) + unat (p_filesz p) then (3, m)
      else load_all elf sz img ps (load_segment elf img p m))"

text \<open>A segment whose numbers do not wrap around and that is loaded beside the image.\<close>

definition sound_segment :: "u64 \<Rightarrow> nat \<Rightarrow> elf64_phdr \<Rightarrow> bool" where
  "sound_segment elf sz p \<longleftrightarrow>
     (let n = max (unat (p_filesz p)) (unat (p_memsz p)) in
      unat (p_offset p) + unat (p_filesz p) < 2 ^ 64 \<and> unat (p_paddr p) + n < 2 ^ 64 \<and>
      (unat (p_paddr p) + n \<le> unat elf \<or> unat elf + sz \<le> unat (p_paddr p)))"

section \<open>Proof of the loader\<close>

lemma ram_copy_apart:
  assumes "unat dst + unat n < 2 ^ 64" "unat src + unat n < 2 ^ 64"
    and "unat dst + unat n \<le> unat src \<or> unat src + unat n \<le> unat (dst :: u64)"
  shows "ram_copy dst src n m = Some (\<lambda>a. if a - dst < n then m (src + (a - dst)) else m a)"
proof -
  have "n \<le> dst - src" "n \<le> src - dst"
    using assms by (auto simp: word_le_nat_alt unat_sub_if_size word_size)
  then show ?thesis by (simp add: ram_copy_def)
qed

text \<open>Addresses of the image.\<close>

definition in_image :: "u64 \<Rightarrow> nat \<Rightarrow> u64 \<Rightarrow> bool" where
  "in_image elf sz a \<longleftrightarrow> unat elf \<le> unat a \<and> unat a < unat elf + sz"

lemma load_segment_image:
  assumes "sound_segment elf sz p" "in_image elf sz a"
  shows "load_segment elf img p m a = m a"
proof -
  have "unat (a - p_paddr p) \<ge> unat (p_filesz p)" "unat (a - p_paddr p) \<ge> unat (p_memsz p)"
    using assms by (auto simp: sound_segment_def in_image_def Let_def unat_sub_if_size word_size)
  then show ?thesis by (simp add: load_segment_def word_less_nat_alt)
qed

lemma pad_zone: "f < n \<Longrightarrow> d - f < n - f \<longleftrightarrow> f \<le> d \<and> d < (n :: u64)"
proof -
  have "unat n < 2 ^ 64" using unsigned_less [of n] by simp
  then show "f < n \<Longrightarrow> d - f < n - f \<longleftrightarrow> f \<le> d \<and> d < n"
    by (auto simp: word_less_nat_alt word_le_nat_alt unat_sub_if_size word_size)
qed

lemma load_step:
  assumes p: "sound_segment elf sz p" "p_filesz p \<noteq> 0 \<Longrightarrow> unat (p_offset p) + unat (p_filesz p) \<le> sz" and sz: "unat elf + sz < 2 ^ 64"
    and same: "\<And>a. in_image elf sz a \<Longrightarrow> m a = img a"
  shows "\<exists>m1. (if p_filesz p \<noteq> 0 then ram_copy (p_paddr p) (elf + p_offset p) (p_filesz p) m else Some m) = Some m1 \<and>
    (\<forall>a. in_image elf sz a \<longrightarrow> m1 a = m a) \<and>
    (if p_memsz p > p_filesz p then ram_fill (p_paddr p + p_filesz p) 0 (p_memsz p - p_filesz p) m1 else m1) = load_segment elf img p m"
proof -
  define m1 where "m1 = (\<lambda>a. if a - p_paddr p < p_filesz p then m (elf + p_offset p + (a - p_paddr p)) else m a)"
  have eo: "unat (elf + p_offset p) = unat elf + unat (p_offset p)" if "p_filesz p \<noteq> 0"
    using p(2) [OF that] sz by (simp add: unat_word_ariths)
  have c: "(if p_filesz p \<noteq> 0 then ram_copy (p_paddr p) (elf + p_offset p) (p_filesz p) m else Some m) = Some m1"
  proof (cases "p_filesz p = 0")
    case True then show ?thesis by (simp add: m1_def)
  next
    case False
    have "ram_copy (p_paddr p) (elf + p_offset p) (p_filesz p) m = Some m1"
      unfolding m1_def using p(1) p(2) [OF False] sz eo [OF False] by (intro ram_copy_apart) (auto simp: sound_segment_def Let_def)
    then show ?thesis using False by simp
  qed
  have k: "m1 a = m a" if "in_image elf sz a" for a
  proof -
    have "unat (a - p_paddr p) \<ge> unat (p_filesz p)"
      using p(1) that by (auto simp: sound_segment_def in_image_def Let_def unat_sub_if_size word_size)
    then show ?thesis by (simp add: m1_def word_less_nat_alt)
  qed
  have src: "m1 a = img (elf + p_offset p + (a - p_paddr p))" if a: "a - p_paddr p < p_filesz p" for a
  proof -
    have f: "p_filesz p \<noteq> 0" using a by auto
    have "unat (elf + p_offset p + (a - p_paddr p)) = unat elf + unat (p_offset p) + unat (a - p_paddr p)"
      using p(2) [OF f] sz a eo [OF f] by (simp add: unat_word_ariths word_less_nat_alt)
    then have "in_image elf sz (elf + p_offset p + (a - p_paddr p))" using a p(2) [OF f] by (simp add: in_image_def word_less_nat_alt)
    then show ?thesis using a same by (simp add: m1_def)
  qed
  have z: "(if p_memsz p > p_filesz p then ram_fill (p_paddr p + p_filesz p) 0 (p_memsz p - p_filesz p) m1 else m1) a = load_segment elf img p m a" for a
  proof (cases "a - p_paddr p < p_filesz p")
    case True
    then show ?thesis using src [OF True] by (auto simp: ram_fill_def load_segment_def diff_diff_eq [symmetric] pad_zone)
  next
    case False
    then show ?thesis by (auto simp: ram_fill_def load_segment_def m1_def diff_diff_eq [symmetric] pad_zone)
  qed
  show ?thesis using c k z by blast
qed

lemma ram_bytes_same: "(\<And>i. i < n \<Longrightarrow> m (a + of_nat i) = m' (a + of_nat i)) \<Longrightarrow> ram_bytes m a n = ram_bytes m' a n"
  by (simp add: ram_bytes_def)

text \<open>Headers that lie in the image are the same in two memories that agree on the image.\<close>

lemma fields_same:
  assumes "\<And>i. i < n \<Longrightarrow> m (a + of_nat i) = m' (a + of_nat i)"
  shows "k + l \<le> n \<Longrightarrow> ram_bytes m (a + of_nat k) l = ram_bytes m' (a + of_nat k) l"
    and "k + 1 < n \<Longrightarrow> ram16 m (a + of_nat k) = ram16 m' (a + of_nat k)"
    and "k + 3 < n \<Longrightarrow> ram32 m (a + of_nat k) = ram32 m' (a + of_nat k)"
    and "k + 8 \<le> n \<Longrightarrow> ram64 m (a + of_nat k) = ram64 m' (a + of_nat k)"
proof -
  have s: "m (a + of_nat k + of_nat j) = m' (a + of_nat k + of_nat j)" if "k + j < n" for k j
    using assms [of "k + j"] that by (simp add: ac_simps)
  show b: "k + l \<le> n \<Longrightarrow> ram_bytes m (a + of_nat k) l = ram_bytes m' (a + of_nat k) l" for k l
    using s by (intro ram_bytes_same) simp
  show "k + 1 < n \<Longrightarrow> ram16 m (a + of_nat k) = ram16 m' (a + of_nat k)"
    using s [of k 0] s [of k 1] by (simp add: ram16_def)
  show "k + 3 < n \<Longrightarrow> ram32 m (a + of_nat k) = ram32 m' (a + of_nat k)"
    using s [of k 0] s [of k 1] s [of k 2] s [of k 3] by (simp add: ram32_def)
  show "k + 8 \<le> n \<Longrightarrow> ram64 m (a + of_nat k) = ram64 m' (a + of_nat k)"
    using b [of k 8] by (simp add: ram64_def)
qed

lemma ehdr_same: "(\<And>i. i < 64 \<Longrightarrow> m (a + of_nat i) = m' (a + of_nat i)) \<Longrightarrow> ehdr_at m a = ehdr_at m' a"
  using fields_same(1) [of 64 m a m' 0 16] fields_same(2) [of 64 m a m' 16] fields_same(2) [of 64 m a m' 18] fields_same(3) [of 64 m a m' 20]
    fields_same(4) [of 64 m a m' 24] fields_same(4) [of 64 m a m' 32] fields_same(4) [of 64 m a m' 40] fields_same(3) [of 64 m a m' 48]
    fields_same(2) [of 64 m a m' 52] fields_same(2) [of 64 m a m' 54] fields_same(2) [of 64 m a m' 56] fields_same(2) [of 64 m a m' 58]
    fields_same(2) [of 64 m a m' 60] fields_same(2) [of 64 m a m' 62]
  by (simp add: ehdr_at_def)

lemma phdr_same: "(\<And>i. i < 56 \<Longrightarrow> m (a + of_nat i) = m' (a + of_nat i)) \<Longrightarrow> phdr_at m a = phdr_at m' a"
  using fields_same(3) [of 56 m a m' 0] fields_same(3) [of 56 m a m' 4] fields_same(4) [of 56 m a m' 8] fields_same(4) [of 56 m a m' 16]
    fields_same(4) [of 56 m a m' 24] fields_same(4) [of 56 m a m' 32] fields_same(4) [of 56 m a m' 40] fields_same(4) [of 56 m a m' 48]
  by (simp add: phdr_at_def)

lemma in_image_offset: "unat elf + sz < 2 ^ 64 \<Longrightarrow> k < sz \<Longrightarrow> in_image elf sz (elf + of_nat k)"
proof -
  assume a: "unat elf + sz < 2 ^ 64" "k < sz"
  then have "unat (of_nat k :: u64) = k" by (simp add: unat_of_nat take_bit_nat_eq_self)
  then show ?thesis using a by (simp add: in_image_def unat_word_ariths)
qed

lemma ehdr_image:
  assumes "unat elf + sz < 2 ^ 64" "64 \<le> sz" "\<And>a. in_image elf sz a \<Longrightarrow> m a = img a"
  shows "ehdr_at m elf = ehdr_at img elf"
  using assms by (intro ehdr_same assms(3) in_image_offset) auto

lemma phdr_image:
  assumes "unat elf + sz < 2 ^ 64" "off + 56 \<le> sz" "\<And>a. in_image elf sz a \<Longrightarrow> m a = img a"
  shows "phdr_at m (elf + of_nat off) = phdr_at img (elf + of_nat off)"
proof (rule phdr_same)
  fix i :: nat assume "i < 56"
  then have "in_image elf sz (elf + of_nat (off + i))" using assms(1,2) by (intro in_image_offset) simp_all
  then show "m (elf + of_nat off + of_nat i) = img (elf + of_nat off + of_nat i)" using assms(3) by (simp add: ac_simps)
qed

lemma load_loop_law:
  fixes elf :: u64 and n off :: nat and size :: u32
  defines "sz \<equiv> unat size"
  assumes "unat elf + sz < 2 ^ 64" "64 \<le> sz" "off + 56 * unat (e_phnum (ehdr_at img elf)) \<le> sz"
    and "\<And>k. k < unat (e_phnum (ehdr_at img elf)) \<Longrightarrow> loadable (phdr_at img (elf + of_nat (off + 56 * k))) \<Longrightarrow>
      sound_segment elf sz (phdr_at img (elf + of_nat (off + 56 * k)))"
    and "\<And>a. in_image elf sz a \<Longrightarrow> m a = img a" and "unat i + n = unat (e_phnum (ehdr_at img elf))"
  shows "load_loop elf size (elf + of_nat off) i m =
    Some (load_all elf sz img (map (\<lambda>k. phdr_at img (elf + of_nat (off + 56 * k))) [unat i..<unat i + n]) m)"
  using assms(2-)
proof (induction n arbitrary: i m)
  case 0
  have "ehdr_at m elf = ehdr_at img elf" by (rule ehdr_image [OF "0.prems"(1,2,5)])
  then show ?case using "0.prems"(6) by (subst load_loop.simps) (simp add: word_less_nat_alt unat_widen)
next
  case (Suc n)
  note prems = Suc.prems
  let ?N = "unat (e_phnum (ehdr_at img elf))" and ?at = "elf + of_nat off + ucast i * Phdr_size"
  define p where "p = phdr_at img (elf + of_nat (off + 56 * unat i))"
  have lt: "unat i < ?N" using prems(6) by simp
  have "?N < 2 ^ 16" using unsigned_less [of "e_phnum (ehdr_at img elf)"] by simp
  then have i1: "unat (i + 1) = unat i + 1" using lt by (simp add: unat_word_ariths)
  have eh: "ehdr_at m elf = ehdr_at img elf" by (rule ehdr_image [OF prems(1,2,5)])
  have "(ucast i :: u64) = of_nat (unat i)" by (simp only: of_nat_unat)
  then have at: "?at = elf + of_nat (off + 56 * unat i)" by (simp add: Phdr_size_def ac_simps)
  have pm: "phdr_at m' ?at = p" if "\<And>a. in_image elf sz a \<Longrightarrow> m' a = img a" for m'
    unfolding at p_def using prems(3) lt by (intro phdr_image [OF prems(1) _ that]) simp
  have IH: "load_loop elf size (elf + of_nat off) (i + 1) m' =
      Some (load_all elf sz img (map (\<lambda>k. phdr_at img (elf + of_nat (off + 56 * k))) [unat (i + 1)..<unat (i + 1) + n]) m')"
    if "\<And>a. in_image elf sz a \<Longrightarrow> m' a = img a" for m'
    using prems(6) by (intro Suc.IH prems(1-4) that) (simp_all add: i1)
  have pm0: "phdr_at m ?at = p" and lo0: "load_loop elf size (elf + of_nat off) (i + 1) m =
      Some (load_all elf sz img (map (\<lambda>k. phdr_at img (elf + of_nat (off + 56 * k))) [unat (i + 1)..<unat (i + 1) + n]) m)"
    by (rule pm IH, erule prems(5))+
  have list: "map (\<lambda>k. phdr_at img (elf + of_nat (off + 56 * k))) [unat i..<unat i + Suc n] =
      p # map (\<lambda>k. phdr_at img (elf + of_nat (off + 56 * k))) [unat (i + 1)..<unat (i + 1) + n]"
    unfolding i1 p_def by (subst upt_conv_Cons) simp_all
  have go: "i < ucast (e_phnum (ehdr_at m elf))" using lt by (simp add: eh word_less_nat_alt unat_widen)
  have step: "load_loop elf size (elf + of_nat off) i m =
      (if loadable p then
         if p_filesz p \<noteq> 0 \<and> ucast size < p_offset p + p_filesz p then Some (3, m)
         else do {
           m \<leftarrow> (if p_filesz p \<noteq> 0 then ram_copy (p_paddr p) (elf + p_offset p) (p_filesz p) m else Some m);
           let p = phdr_at m ?at;
           let m = (if p_memsz p > p_filesz p then ram_fill (p_paddr p + p_filesz p) 0 (p_memsz p - p_filesz p) m else m);
           load_loop elf size (elf + of_nat off) (i + 1) m }
       else load_loop elf size (elf + of_nat off) (i + 1) m)"
    unfolding load_loop.simps [of elf size "elf + of_nat off" i m] Let_def pm0 loadable_def using go by simp
  show ?case
  proof (cases "loadable p")
    case False
    then show ?thesis unfolding step list lo0 by simp
  next
    case True
    then have snd: "sound_segment elf sz p" using prems(4) [OF lt] by (simp add: p_def)
    then have sum: "unat (p_offset p + p_filesz p) = unat (p_offset p) + unat (p_filesz p)"
      by (simp add: sound_segment_def Let_def unat_word_ariths)
    show ?thesis
    proof (cases "p_filesz p \<noteq> 0 \<and> sz < unat (p_offset p) + unat (p_filesz p)")
      case bad: True
      then have "ucast size < p_offset p + p_filesz p" by (simp add: word_less_nat_alt unat_widen sum sz_def)
      then show ?thesis unfolding step list using True bad by simp
    next
      case ok: False
      then have le: "\<not> (p_filesz p \<noteq> 0 \<and> ucast size < p_offset p + p_filesz p)" by (simp add: word_less_nat_alt unat_widen sum sz_def)
      have fit: "p_filesz p \<noteq> 0 \<Longrightarrow> unat (p_offset p) + unat (p_filesz p) \<le> sz" using ok by simp
      obtain m1 where m1: "(if p_filesz p \<noteq> 0 then ram_copy (p_paddr p) (elf + p_offset p) (p_filesz p) m else Some m) = Some m1"
          "\<forall>a. in_image elf sz a \<longrightarrow> m1 a = m a"
          "(if p_memsz p > p_filesz p then ram_fill (p_paddr p + p_filesz p) 0 (p_memsz p - p_filesz p) m1 else m1) = load_segment elf img p m"
        using load_step [OF snd fit prems(1), where m = m and img = img] prems(5) by blast
      have "phdr_at m1 ?at = p" using m1(2) prems(5) by (intro pm) simp
      moreover have "load_loop elf size (elf + of_nat off) (i + 1) (load_segment elf img p m) = Some (load_all elf sz img
          (map (\<lambda>k. phdr_at img (elf + of_nat (off + 56 * k))) [unat (i + 1)..<unat (i + 1) + n]) (load_segment elf img p m))"
        using load_segment_image [OF snd] prems(5) by (intro IH) simp
      moreover have "load_all elf sz img (p # ps) m = load_all elf sz img ps (load_segment elf img p m)" for ps
        unfolding load_all.simps if_not_P [OF ok] using True by simp
      ultimately show ?thesis
        unfolding step list if_P [OF True] if_not_P [OF le] m1(1) by (simp only: bind.simps(2) Let_def m1(3))
    qed
  qed
qed

section \<open>Properties\<close>

text \<open>What \<open>load_elf\<close> has to return and to leave in memory.\<close>

definition elf_spec :: "u64 \<Rightarrow> nat \<Rightarrow> memory \<Rightarrow> u32 \<times> memory" where
  "elf_spec elf sz m =
     (let eh = ehdr_at m elf in
      if sz \<le> 64 then (1, m)
      else if \<not> IS_ELF64 eh then (2, m)
      else if sz < unat (e_phoff eh) + 56 * unat (e_phnum eh) then (3, m)
      else load_all elf sz m (segments m elf) m)"

text \<open>
  C20: On an image whose header numbers do not wrap around and whose loadable segments go beside the
  image, \<open>load_elf\<close> returns, with the result code and the memory of the specification: the
  loadable segments in order, file bytes first, zeros up to the size in memory, nothing else
  changed, and nothing read beyond the image.\<close>
theorem load_elf_correct:
  assumes "unat elf + unat elf_size < 2 ^ 64"
    and "unat (e_phoff (ehdr_at m elf)) + 56 * unat (e_phnum (ehdr_at m elf)) < 2 ^ 64"
    and "list_all (\<lambda>p. loadable p \<longrightarrow> sound_segment elf (unat elf_size) p) (segments m elf)"
  shows "load_elf elf elf_size m = Some (elf_spec elf (unat elf_size) m)"
proof -
  define off N where "off = unat (e_phoff (ehdr_at m elf))" and "N = unat (e_phnum (ehdr_at m elf))"
  have o: "of_nat off = e_phoff (ehdr_at m elf)" by (simp add: off_def)
  have table: "unat (e_phoff (ehdr_at m elf) + ucast (e_phnum (ehdr_at m elf)) * Phdr_size) = off + 56 * N"
    using assms(2) by (simp add: Phdr_size_def unat_word_ariths unat_widen off_def N_def)
  have segs: "segments m elf = map (\<lambda>k. phdr_at m (elf + of_nat (off + 56 * k))) [0..<N]"
    by (simp add: segments_def o N_def Phdr_size_def ac_simps)
  have small: "ucast elf_size \<le> Ehdr_size \<longleftrightarrow> unat elf_size \<le> 64"
    by (simp add: word_le_nat_alt unat_widen Ehdr_size_def)
  have ends: "ucast elf_size < e_phoff (ehdr_at m elf) + ucast (e_phnum (ehdr_at m elf)) * Phdr_size \<longleftrightarrow> unat elf_size < off + 56 * N"
    by (simp only: word_less_nat_alt table) (simp add: unat_widen)
  have loop: "load_loop elf elf_size (elf + e_phoff (ehdr_at m elf)) 0 m = Some (load_all elf (unat elf_size) m (segments m elf) m)"
    if "\<not> unat elf_size \<le> 64" "\<not> unat elf_size < off + 56 * N"
    using load_loop_law [of elf elf_size off m m 0 N] that assms(1,3) unfolding segs o by (simp add: N_def list_all_iff)
  show ?thesis
    unfolding load_elf_def elf_spec_def Let_def small ends
    using loop by (simp add: off_def N_def)
qed

text \<open>An image of one segment at \<open>0x1000\<close>: eight bytes for the address \<open>0x8000\<close>, twelve in memory.\<close>

definition demo_header :: bytes where
  "demo_header = [0x7F, 0x45, 0x4C, 0x46, 2] @ replicate 27 0 @ bytes_le64 64 @ replicate 16 0 @ [1, 0] @ replicate 6 0"

definition demo_phdr :: "u64 \<Rightarrow> u64 \<Rightarrow> u64 \<Rightarrow> bytes" where
  "demo_phdr offset filesz memsz = bytes_le32 1 @ replicate 4 0 @ bytes_le64 offset @ replicate 8 0 @ bytes_le64 0x8000 @
     bytes_le64 filesz @ bytes_le64 memsz @ replicate 8 0"

definition demo_memory :: "bytes \<Rightarrow> memory \<Rightarrow> memory" where
  "demo_memory b rest = (\<lambda>a. if a - 0x1000 < of_nat (length b) then b ! unat (a - 0x1000) else rest a)"

definition demo_elf :: memory where
  "demo_elf = demo_memory (demo_header @ demo_phdr 120 8 12 @ [1, 2, 3, 4, 5, 6, 7, 8]) (\<lambda>_. 0xEE)"

lemma demo_elf_headers:
  "ehdr_at demo_elf 0x1000 = \<lparr>e_ident = [0x7F, 0x45, 0x4C, 0x46, 2] @ replicate 11 0, e_type = 0, e_machine = 0, e_version = 0,
     e_entry = 0, e_phoff = 64, e_shoff = 0, e_flags = 0, e_ehsize = 0, e_phentsize = 0, e_phnum = 1, e_shentsize = 0, e_shnum = 0, e_shstrndx = 0\<rparr>"
  "phdr_at demo_elf 0x1040 = \<lparr>p_type = 1, p_flags = 0, p_offset = 120, p_vaddr = 0, p_paddr = 0x8000, p_filesz = 8, p_memsz = 12, p_align = 0\<rparr>"
  by code_simp+

theorem load_elf_correct_witness:
  "\<exists>m'. load_elf 0x1000 128 demo_elf = Some (0, m') \<and> ram_bytes m' 0x7FFF 14 = [0xEE, 1, 2, 3, 4, 5, 6, 7, 8, 0, 0, 0, 0, 0xEE]"
proof -
  have s: "segments demo_elf 0x1000 = [phdr_at demo_elf 0x1040]"
    by (simp add: segments_def demo_elf_headers Phdr_size_def)
  have sp: "elf_spec 0x1000 (unat (128 :: u32)) demo_elf = (0, load_segment 0x1000 demo_elf (phdr_at demo_elf 0x1040) demo_elf)"
    unfolding elf_spec_def Let_def s by (simp add: demo_elf_headers IS_ELF64_def loadable_def PT_LOAD_def)
  have "load_elf 0x1000 128 demo_elf = Some (elf_spec 0x1000 (unat (128 :: u32)) demo_elf)"
    by (rule load_elf_correct) (simp_all add: s demo_elf_headers sound_segment_def loadable_def)
  moreover have "ram_bytes (load_segment 0x1000 demo_elf (phdr_at demo_elf 0x1040) demo_elf) 0x7FFF 14 =
      [0xEE, 1, 2, 3, 4, 5, 6, 7, 8, 0, 0, 0, 0, 0xEE]"
    by code_simp
  ultimately show ?thesis unfolding sp by blast
qed

definition wrap_elf :: "memory \<Rightarrow> memory" where
  "wrap_elf rest = demo_memory (demo_header @ demo_phdr 0xFFFFFFFFFFFFFFF0 32 32) rest"

text \<open>
  The bounds checks of \<open>load_elf\<close> add in 64 bits: with an offset of \<open>2\<^sup>6\<^sup>4 - 16\<close> and 32 file bytes the sum
  is 16, the segment passes, and the sixteen bytes that lie before the image are loaded.\<close>
theorem load_elf_wraps:
  "\<exists>m'. load_elf 0x1000 120 (wrap_elf rest) = Some (0, m') \<and> ram_bytes m' 0x8000 16 = ram_bytes rest 0xFF0 16"
proof -
  have "map_option (\<lambda>(r, m'). (r, ram_bytes m' 0x8000 16)) (load_elf 0x1000 120 (wrap_elf rest)) = Some (0, ram_bytes rest 0xFF0 16)"
    by code_simp
  then show ?thesis by auto
qed

end
