(* ===== verification/Console.thy ===== *)
theory Console
  imports Sdhost
begin

text \<open>
  The console of \<open>uart.c\<close> (terminal, video memory and keyboard behind the command queue) and the
  SPI port of \<open>spi.c\<close>.  The terminal of the host and the SPI registers are parameters.
\<close>

section \<open>Video\<close>

definition video_base :: u64 where "video_base = push_bit 20 10"

function newline_loop :: "'q queue_ops \<Rightarrow> u32 \<Rightarrow> 'q \<Rightarrow> (u32 \<times> 'q) option" where
  "newline_loop qo addr_int q =
     (if addr_int AND 127 < 127 then do {
        (_, q) \<leftarrow> q_write qo (video_base + 4 * scast addr_int) 0x20 True q;
        newline_loop qo (addr_int + 1) q }
      else Some (addr_int, q))"
  by pat_completeness auto

lemma column_step: "a AND 127 < 127 \<Longrightarrow> unat (a + 1 AND 127) = Suc (unat (a AND 127 :: u32))"
proof -
  have m: "x AND 127 = take_bit 7 x" for x :: u32 by (simp add: take_bit_eq_mask mask_eq_exp_minus_1)
  have u: "unat (x AND 127) = unat x mod 128" for x :: u32 unfolding m by (simp add: unsigned_take_bit_eq) (simp add: take_bit_eq_mod)
  assume "a AND 127 < 127"
  then have lt: "unat a mod 128 < 127" by (simp add: word_less_nat_alt u)
  have "unat (a + 1) mod 128 = (unat a + 1) mod 128" by (simp add: unat_word_ariths mod_mod_cancel)
  then show ?thesis using lt by (simp add: u mod_Suc)
qed

termination newline_loop
  by (relation "measure (\<lambda>(_, a, _). 127 - unat (a AND 127))") (auto simp: column_step word_less_nat_alt)

declare newline_loop.simps [simp del]

text \<open>\<open>addr_int\<close> is the static cursor of the function.\<close>

definition minion_console_putchar :: "'q queue_ops \<Rightarrow> u8 \<Rightarrow> u32 \<Rightarrow> 'q \<Rightarrow> (u32 \<times> 'q) option" where
  "minion_console_putchar qo ch addr_int q = do {
     (addr_int, q) \<leftarrow>
       (if ch = 0x08 then Some (if addr_int AND 127 \<noteq> 0 then addr_int - 1 else addr_int, q)
        else if ch = 0x0D then Some (addr_int, q)
        else if ch = 0x0A then do { (addr_int, q) \<leftarrow> newline_loop qo addr_int q; Some (addr_int + 1, q) }
        else do { (_, q) \<leftarrow> q_write qo (video_base + 4 * scast addr_int) (ucast ch) False q; Some (addr_int + 1, q) });
     Some (addr_int AND 4095, q) }"

section \<open>Terminal and keyboard\<close>

text \<open>
  The terminal: the result of \<open>ioctl\<close> with the number of waiting characters, and of \<open>read\<close> with the
  byte read.  \<open>junk\<close> is the uninitialised integer that \<open>uart_getchar\<close> reads its byte into.
\<close>

record 'k tty_ops =
  tty_waiting :: "'k \<Rightarrow> (int \<times> int) \<times> 'k"
  tty_read :: "'k \<Rightarrow> (int \<times> u8) \<times> 'k"

definition uart_getchar :: "'k tty_ops \<Rightarrow> u32 \<Rightarrow> 'k \<Rightarrow> u32 \<times> 'k" where
  "uart_getchar tt junk k =
     (case tty_read tt k of ((cnt, b), k) \<Rightarrow>
        let ch = (if cnt > 0 then (junk AND NOT 0xFF) OR ucast b else junk) in
        (if cnt < 0 then 4 else if ch = 0x0D then 0x0A else ch, k))"

definition uart_tstchar :: "'k tty_ops \<Rightarrow> u32 \<Rightarrow> 'k \<Rightarrow> u32 \<times> 'k" where
  "uart_tstchar tt junk k =
     (case tty_waiting tt k of ((rslt, cnt), k) \<Rightarrow>
        if rslt < 0 \<or> cnt = 0 then (0, k) else uart_getchar tt junk k)"

definition keyb_base :: u64 where "keyb_base = push_bit 20 9"

text \<open>A turn of the waiting loop: the character for the next test.\<close>

definition recv_turn :: "'k tty_ops \<Rightarrow> u32 \<Rightarrow> 'q queue_ops \<Rightarrow> 'k \<times> 'q \<Rightarrow> (u32 \<times> 'k \<times> 'q) option" where
  "recv_turn tt junk qo = (\<lambda>(k, q). do {
     (key, q) \<leftarrow> q_read qo keyb_base q;
     if push_bit 28 1 AND NOT key \<noteq> 0 then do {
       (_, q) \<leftarrow> q_write qo (keyb_base + 4) 0 False q;
       (_, q) \<leftarrow> q_read qo (keyb_base + 4) q;
       Some (0, k, q) }
     else
       let (ch, k) = uart_tstchar tt junk k in Some (ch, k, q) })"

partial_function (option) recv_loop :: "'k tty_ops \<Rightarrow> u32 \<Rightarrow> 'q queue_ops \<Rightarrow> u32 \<Rightarrow> 'k \<times> 'q \<Rightarrow> (u32 \<times> 'k \<times> 'q) option" where
  "recv_loop tt junk qo ch s =
     (if ch \<noteq> 0 then Some (ch, s)
      else do { (ch, s) \<leftarrow> recv_turn tt junk qo s; recv_loop tt junk qo ch s })"

definition uart_recv :: "'k tty_ops \<Rightarrow> u32 \<Rightarrow> 'q queue_ops \<Rightarrow> 'k \<times> 'q \<Rightarrow> (u8 \<times> 'k \<times> 'q) option" where
  "uart_recv tt junk qo = (\<lambda>(k, q). do {
     let (ch, k) = uart_tstchar tt junk k;
     (ch, s) \<leftarrow> recv_loop tt junk qo ch (k, q);
     Some (ucast (if ch = 0x0D then 0x0A else ch), s) })"

section \<open>SPI\<close>

text \<open>The registers of the port by their word offset.\<close>

record 'r spi_ops =
  spi_rd :: "nat \<Rightarrow> 'r \<Rightarrow> u32 \<times> 'r"
  spi_wr :: "nat \<Rightarrow> u32 \<Rightarrow> 'r \<Rightarrow> 'r"

definition SPI_GIER :: nat where "SPI_GIER = 0x07"
definition SPI_SRR :: nat where "SPI_SRR = 0x10"
definition SPI_CR :: nat where "SPI_CR = 0x18"
definition SPI_SR :: nat where "SPI_SR = 0x19"
definition SPI_DTR :: nat where "SPI_DTR = 0x1A"
definition SPI_DRR :: nat where "SPI_DRR = 0x1B"
definition SPI_SSR :: nat where "SPI_SSR = 0x1C"

definition GetBit :: "u32 \<Rightarrow> nat \<Rightarrow> u32" where
  "GetBit r p = drop_bit p (r AND push_bit p 1)"

definition spi_init :: "'r spi_ops \<Rightarrow> 'r \<Rightarrow> 'r" where
  "spi_init sp r = fold (\<lambda>(a, v). spi_wr sp a v)
     [(0, 0x1), (SPI_SRR, 0xA), (SPI_CR, 0xE4), (SPI_GIER, 0x0), (SPI_CR, 0x86), (0, 0x0)] r"

definition spi_disable :: "'r spi_ops \<Rightarrow> 'r \<Rightarrow> 'r" where
  "spi_disable sp r = spi_wr sp SPI_CR 0xE4 (spi_wr sp 0 0x1 r)"

partial_function (option) spi_wait :: "'r spi_ops \<Rightarrow> 'r \<Rightarrow> 'r option" where
  "spi_wait sp r = (let (v, r) = spi_rd sp SPI_SR r in if GetBit v 2 = 0 then spi_wait sp r else Some r)"

definition spi_send :: "'r spi_ops \<Rightarrow> u8 \<Rightarrow> 'r \<Rightarrow> (u8 \<times> 'r) option" where
  "spi_send sp dat r = do {
     r \<leftarrow> spi_wait sp (spi_wr sp SPI_DTR (ucast dat) r);
     let (v, r) = spi_rd sp SPI_DRR r;
     Some (ucast v, r) }"

definition spi_send_multi :: "'r spi_ops \<Rightarrow> bytes \<Rightarrow> u8 \<Rightarrow> 'r \<Rightarrow> 'r option" where
  "spi_send_multi sp dat n r = do {
     b \<leftarrow> get_range 0 (unat n) dat;
     r \<leftarrow> spi_wait sp (fold (\<lambda>c. spi_wr sp SPI_DTR (ucast c)) b r);
     Some (spi_wr sp SPI_CR 0xC6 r) }"

primrec spi_receive :: "'r spi_ops \<Rightarrow> nat \<Rightarrow> 'r \<Rightarrow> bytes \<times> 'r" where
  "spi_receive sp 0 r = ([], r)"
| "spi_receive sp (Suc n) r =
     (let (v, r) = spi_rd sp SPI_DRR r; (b, r) = spi_receive sp n r in (ucast v # b, r))"

definition spi_recv_multi :: "'r spi_ops \<Rightarrow> bytes \<Rightarrow> u8 \<Rightarrow> 'r \<Rightarrow> (bytes \<times> 'r) option" where
  "spi_recv_multi sp dat n r = do {
     r \<leftarrow> spi_wait sp (((\<lambda>r. spi_wr sp SPI_DTR 0xFF r) ^^ unat n) r);
     let (b, r) = spi_receive sp (unat n) r;
     dat \<leftarrow> put_range 0 b dat;
     Some (dat, r) }"

definition spi_select_slave :: "'r spi_ops \<Rightarrow> 'r \<Rightarrow> 'r" where
  "spi_select_slave sp r = spi_wr sp SPI_SSR 0xFFFFFFFE r"

definition spi_deselect_slave :: "'r spi_ops \<Rightarrow> 'r \<Rightarrow> 'r" where
  "spi_deselect_slave sp r = spi_wr sp SPI_SSR 0xFFFFFFFF r"

section \<open>The screen as rows and columns\<close>

text \<open>The cells of the screen a character writes, with the value and the flush flag, and the next cursor.\<close>

definition screen_writes :: "u8 \<Rightarrow> nat \<Rightarrow> (nat \<times> u32 \<times> bool) list" where
  "screen_writes ch a =
     (if ch = 0x08 \<or> ch = 0x0D then []
      else if ch = 0x0A then map (\<lambda>k. (k, 0x20, True)) [a..<128 * (a div 128) + 127]
      else [(a, ucast ch, False)])"

definition screen_cursor :: "u8 \<Rightarrow> nat \<Rightarrow> nat" where
  "screen_cursor ch a =
     (if ch = 0x08 then (if a mod 128 = 0 then a else a - 1)
      else if ch = 0x0D then a
      else if ch = 0x0A then (if a div 128 = 31 then 0 else 128 * (a div 128 + 1))
      else if a = 4095 then 0 else a + 1)"

primrec put_cells :: "'q queue_ops \<Rightarrow> (nat \<times> u32 \<times> bool) list \<Rightarrow> 'q \<Rightarrow> (unit \<times> 'q) option" where
  "put_cells qo [] q = Some ((), q)"
| "put_cells qo (c # cs) q =
     (case c of (k, v, f) \<Rightarrow> do { (_, q) \<leftarrow> q_write qo (video_base + 4 * of_nat k) v f q; put_cells qo cs q })"

lemma unat_column: "unat (x AND 127 :: u32) = unat x mod 128"
proof -
  have m: "x AND 127 = take_bit 7 x" by (simp add: take_bit_eq_mask mask_eq_exp_minus_1)
  show ?thesis unfolding m by (simp add: unsigned_take_bit_eq) (simp add: take_bit_eq_mod)
qed

lemma unat_cell: "unat (x AND 4095 :: u32) = unat x mod 4096"
proof -
  have m: "x AND 4095 = take_bit 12 x" by (simp add: take_bit_eq_mask mask_eq_exp_minus_1)
  show ?thesis unfolding m by (simp add: unsigned_take_bit_eq) (simp add: take_bit_eq_mod)
qed

lemma cell_address: "a < 4096 \<Longrightarrow> (scast (of_nat a :: u32) :: u64) = of_nat a"
proof -
  assume a: "a < 4096"
  then have u: "unat (of_nat a :: u32) = a" by (simp add: unat_of_nat take_bit_nat_eq_self)
  then have "sint (of_nat a :: u32) = int a" using a sint_small_nat [of "of_nat a"] by simp
  then have "of_int (sint (of_nat a :: u32)) = (of_nat a :: u64)" by (simp only: of_int_of_nat_eq)
  then show ?thesis by (simp only: of_int_sint)
qed

lemma newline_loop_law:
  "a < 4096 \<Longrightarrow> newline_loop qo (of_nat a) q = do {
     (_, q) \<leftarrow> put_cells qo (map (\<lambda>k. (k, 0x20, True)) [a..<128 * (a div 128) + 127]) q;
     Some (of_nat (128 * (a div 128) + 127), q) }"
proof (induction "127 - a mod 128" arbitrary: a q)
  case 0
  have u: "unat (of_nat a :: u32) = a" using 0 by (simp add: unat_of_nat take_bit_nat_eq_self)
  have m: "a mod 128 = 127" using 0 by simp
  then have e: "128 * (a div 128) + 127 = a" by (metis div_mult_mod_eq mult.commute)
  moreover have "(of_nat a AND 127 < (127 :: u32)) = False" using m u by (simp only: word_less_nat_alt unat_column) simp
  ultimately show ?case by (subst newline_loop.simps) simp
next
  case (Suc n)
  have u: "unat (of_nat a :: u32) = a" using Suc.prems by (simp add: unat_of_nat take_bit_nat_eq_self)
  have lt: "a mod 128 < 127" using Suc.hyps(2) by simp
  then have s: "Suc a mod 128 = Suc (a mod 128)" "Suc a div 128 = a div 128" by (simp_all add: mod_Suc div_Suc)
  have dm: "a = 128 * (a div 128) + a mod 128" by simp
  have "a div 128 < 32" using Suc.prems by (simp add: div_less_iff_less_mult)
  then have "Suc a < 4096" using dm lt by linarith
  moreover have "n = 127 - Suc a mod 128" using Suc.hyps(2) s by simp
  ultimately have IH: "newline_loop qo (of_nat (Suc a)) q' = do {
     (_, q) \<leftarrow> put_cells qo (map (\<lambda>k. (k, 0x20, True)) [Suc a..<128 * (a div 128) + 127]) q';
     Some (of_nat (128 * (a div 128) + 127), q) }" for q' using Suc.hyps(1) s(2) by metis
  have "a < 128 * (a div 128) + 127" using lt dm by linarith
  then have l: "[a..<128 * (a div 128) + 127] = a # [Suc a..<128 * (a div 128) + 127]" by (rule upt_conv_Cons)
  have g: "(of_nat a AND 127 < (127 :: u32)) = True" using lt u by (simp only: word_less_nat_alt unat_column) simp
  have e: "of_nat (Suc a) = (of_nat a + 1 :: u32)" by simp
  show ?case
    unfolding newline_loop.simps [of qo "of_nat a"] g l list.map put_cells.simps prod.case cell_address [OF Suc.prems] if_True
    using IH [unfolded e] by (cases "q_write qo (video_base + 4 * of_nat a) 0x20 True q") auto
qed

lemma unat_cell_of_nat: "unat (of_nat a AND 4095 :: u32) = a mod 4096"
proof -
  have "unat (of_nat a :: u32) = a mod 2 ^ 32" by (simp add: unat_of_nat take_bit_eq_mod)
  then show ?thesis unfolding unat_cell by (simp add: mod_mod_cancel)
qed

lemma cell_of_nat: "of_nat a AND 4095 = (of_nat (a mod 4096) :: u32)"
proof (rule word_unat_eq_iff [THEN iffD2])
  show "unat (of_nat a AND 4095 :: u32) = unat (of_nat (a mod 4096) :: u32)"
    unfolding unat_cell_of_nat by (simp add: unat_of_nat take_bit_nat_eq_self)
qed

lemma screen_cursor_cell: "a < 4096 \<Longrightarrow> screen_cursor ch a < 4096"
  by (auto simp: screen_cursor_def)

lemma screen_writes_cells: "a < 4096 \<Longrightarrow> list_all (\<lambda>(k, _, _). k < 4096) (screen_writes ch a)"
proof -
  assume "a < 4096"
  then have "a div 128 < 32" by (simp add: div_less_iff_less_mult)
  then show ?thesis using \<open>a < 4096\<close> by (auto simp: screen_writes_def list_all_iff)
qed

text \<open>
  The keyboard behind the queue: bit 28 of its status word says that the FIFO is empty, and a write to the
  data register followed by a read takes one key out.  \<open>keys\<close> is the number of keys waiting.
\<close>

definition keyboard_fifo :: "'q queue_ops \<Rightarrow> ('q \<Rightarrow> bool) \<Rightarrow> ('q \<Rightarrow> nat) \<Rightarrow> bool" where
  "keyboard_fifo qo kok keys \<longleftrightarrow> (\<forall>q. kok q \<longrightarrow>
     (\<exists>key q1. q_read qo keyb_base q = Some (key, q1) \<and> kok q1 \<and> keys q1 = keys q \<and> (bit key 28 \<longleftrightarrow> keys q = 0)) \<and>
     (keys q \<noteq> 0 \<longrightarrow> (\<exists>q1 v q2. q_write qo (keyb_base + 4) 0 False q = Some ((), q1) \<and>
        q_read qo (keyb_base + 4) q1 = Some (v, q2) \<and> kok q2 \<and> Suc (keys q2) = keys q)))"

text \<open>The terminal after \<open>n\<close> polls in a row, none of which found a character; \<open>None\<close> if one did.\<close>

primrec quiet :: "'k tty_ops \<Rightarrow> nat \<Rightarrow> 'k \<Rightarrow> 'k option" where
  "quiet tt 0 k = Some k"
| "quiet tt (Suc n) k = (case tty_waiting tt k of ((r, c), k1) \<Rightarrow> if r < 0 \<or> c = 0 then quiet tt n k1 else None)"

lemma quiet_poll:
  assumes "quiet tt (Suc n) k = Some k0"
  obtains k1 where "uart_tstchar tt junk k = (0, k1)" "quiet tt n k1 = Some k0"
  using assms by (auto simp: uart_tstchar_def split: prod.splits if_splits)

lemma byte_in_int:
  fixes b c :: u8 and j :: u32
  shows "(j AND NOT 0xFF) OR ucast b = ucast c \<longleftrightarrow> j AND NOT 0xFF = 0 \<and> b = c" and "ucast ((j AND NOT 0xFF) OR ucast b) = b"
proof -
  have m: "(0xFF :: u32) = mask 8" by (simp add: mask_eq_exp_minus_1)
  show b: "ucast ((j AND NOT 0xFF) OR ucast b :: u32) = (b :: u8)" for b
    unfolding m by (rule bit_word_eqI) (simp add: bit_simps)
  have hi: "(ucast x :: u32) AND NOT 0xFF = 0" for x :: u8
    unfolding m by (rule bit_word_eqI) (auto simp: bit_simps dest: bit_imp_le_length)
  have "((j AND NOT 0xFF) OR ucast b) AND NOT 0xFF = j AND NOT (0xFF :: u32)"
    using hi [of b] by (simp add: bit.conj_disj_distrib2 and.assoc)
  then show "((j AND NOT 0xFF) OR ucast b = (ucast c :: u32)) \<longleftrightarrow> j AND NOT 0xFF = 0 \<and> b = c"
    using hi [of c] b [of b] b [of c] by (metis or.left_neutral)
qed

text \<open>What a read that got a byte, or failed, gives.\<close>

lemma uart_tstchar_heard:
  assumes "tty_waiting tt k = ((r, c), k1)" "0 \<le> r" "c \<noteq> 0" "tty_read tt k1 = ((m, b), k2)"
    and "m < 0 \<or> 0 < m \<and> (b \<noteq> 0 \<or> junk AND NOT 0xFF \<noteq> 0)"
  obtains ch where "uart_tstchar tt junk k = (ch, k2)" "ch \<noteq> 0"
    "ucast (if ch = 0x0D then 0x0A else ch) = (if m < 0 then 4 else if b = 0x0D \<and> junk AND NOT 0xFF = 0 then 0x0A else b)"
proof -
  have z: "((junk AND NOT 0xFF) OR ucast b = 0) \<longleftrightarrow> junk AND NOT 0xFF = 0 \<and> b = 0"
    using byte_in_int(1) [where j = junk and b = b and c = 0] by simp
  have cr: "((junk AND NOT 0xFF) OR ucast b = 0x0D) \<longleftrightarrow> junk AND NOT 0xFF = 0 \<and> b = 0x0D"
    using byte_in_int(1) [where j = junk and b = b and c = "0x0D"] by simp
  show ?thesis using assms z cr byte_in_int(2) [where j = junk and b = b]
    by (intro that [of "if m < 0 then 4 else if (junk AND NOT 0xFF) OR ucast b = 0x0D then 0x0A else (junk AND NOT 0xFF) OR ucast b"])
      (auto simp: uart_tstchar_def uart_getchar_def)
qed

lemma key_bit: "0x10000000 AND NOT key = 0 \<longleftrightarrow> bit (key :: u32) 28"
  using and_exp_eq_0_iff_not_bit [of "NOT key" 28] by (simp add: bit_not_iff and.commute)

text \<open>A turn with a key waiting leaves the terminal alone; a turn without one is a poll.\<close>

lemma key_turn:
  assumes "keyboard_fifo qo kok keys" "kok q" "keys q = Suc n"
  obtains q' where "recv_turn tt junk qo (k, q) = Some (0, k, q')" "kok q'" "keys q' = n"
proof -
  obtain key q1 where q1: "q_read qo keyb_base q = Some (key, q1)" "kok q1" "keys q1 = Suc n" "\<not> bit key 28"
    using assms unfolding keyboard_fifo_def by fastforce
  moreover from q1(2,3) assms(1) obtain q2 v q3 where "q_write qo (keyb_base + 4) 0 False q1 = Some ((), q2)"
      "q_read qo (keyb_base + 4) q2 = Some (v, q3)" "kok q3" "Suc (keys q3) = Suc n"
    unfolding keyboard_fifo_def by fastforce
  ultimately show ?thesis using that [of q3] by (simp add: recv_turn_def key_bit)
qed

lemma poll_turn:
  assumes "keyboard_fifo qo kok keys" "kok q" "keys q = 0" "uart_tstchar tt junk k = (ch, k1)"
  obtains q' where "recv_turn tt junk qo (k, q) = Some (ch, k1, q')" "kok q'" "keys q' = 0"
proof -
  obtain key q1 where "q_read qo keyb_base q = Some (key, q1)" "kok q1" "keys q1 = 0" "bit key 28"
    using assms unfolding keyboard_fifo_def by fastforce
  then show ?thesis using that [of q1] assms(4) by (simp add: recv_turn_def key_bit)
qed

lemma keys_discarded:
  assumes "keyboard_fifo qo kok keys" "kok q"
  shows "\<exists>q'. recv_loop tt junk qo 0 (k, q) = recv_loop tt junk qo 0 (k, q') \<and> kok q' \<and> keys q' = 0"
  using assms(2)
proof (induction "keys q" arbitrary: q)
  case (Suc n)
  then obtain q1 where t: "recv_turn tt junk qo (k, q) = Some (0, k, q1)" "kok q1" "keys q1 = n"
    using key_turn [OF assms(1), of q n tt junk k] by auto
  have "recv_loop tt junk qo 0 (k, q) = recv_loop tt junk qo 0 (k, q1)"
    by (subst recv_loop.simps) (simp add: t(1))
  then show ?case using Suc.hyps(1) [OF t(3) [symmetric] t(2)] by metis
qed metis

lemma polls_until_heard:
  assumes kb: "keyboard_fifo qo kok keys"
  shows "kok q \<Longrightarrow> keys q = 0 \<Longrightarrow> quiet tt n k = Some k0 \<Longrightarrow> uart_tstchar tt junk k0 = (ch, k2) \<Longrightarrow> ch \<noteq> 0 \<Longrightarrow>
    \<exists>q'. recv_loop tt junk qo 0 (k, q) = Some (ch, k2, q') \<and> kok q' \<and> keys q' = 0"
proof (induction n arbitrary: k q)
  case 0
  then have "uart_tstchar tt junk k = (ch, k2)" by simp
  from poll_turn [OF kb 0(1,2) this] obtain q1 where "recv_turn tt junk qo (k, q) = Some (ch, k2, q1)" "kok q1" "keys q1 = 0" .
  then show ?case using 0(5) by (auto simp: recv_loop.simps [of tt junk qo ch] recv_loop.simps [of tt junk qo 0 "(k, q)"])
next
  case (Suc n)
  obtain k1 where k1: "uart_tstchar tt junk k = (0, k1)" "quiet tt n k1 = Some k0" by (rule quiet_poll [OF Suc.prems(3)])
  from poll_turn [OF kb Suc.prems(1,2) k1(1)] obtain q1 where
    q1: "recv_turn tt junk qo (k, q) = Some (0, k1, q1)" "kok q1" "keys q1 = 0" .
  have "recv_loop tt junk qo 0 (k, q) = recv_loop tt junk qo 0 (k1, q1)"
    by (subst recv_loop.simps) (simp add: q1(1))
  then show ?case using Suc.IH [OF q1(2,3) k1(2) Suc.prems(4,5)] by simp
qed

text \<open>The wait ends only with a poll that finds something.\<close>

lemma recv_loop_heard:
  assumes "recv_loop tt junk qo c s = Some y"
  shows "c = 0 \<longrightarrow> (\<exists>n. quiet tt n (fst s) = None)"
proof (rule recv_loop.raw_induct [where P = "\<lambda>tt junk qo c s y. c = 0 \<longrightarrow> (\<exists>n. quiet tt n (fst s) = None)", OF _ assms])
  fix loop :: "'a tty_ops \<Rightarrow> u32 \<Rightarrow> 'b queue_ops \<Rightarrow> u32 \<Rightarrow> 'a \<times> 'b \<Rightarrow> (u32 \<times> 'a \<times> 'b) option" and tt junk qo c s y
  assume IH: "\<And>tt junk qo c s y. loop tt junk qo c s = Some y \<Longrightarrow> c = 0 \<longrightarrow> (\<exists>n. quiet tt n (fst s) = None)"
    and body: "(if c \<noteq> 0 then Some (c, s) else do { (c, s) \<leftarrow> recv_turn tt junk qo s; loop tt junk qo c s }) = Some y"
  show "c = 0 \<longrightarrow> (\<exists>n. quiet tt n (fst s) = None)"
  proof
    assume "c = 0"
    obtain k q where s: "s = (k, q)" by fastforce
    with body \<open>c = 0\<close> obtain c' k' q' where t: "recv_turn tt junk qo (k, q) = Some (c', k', q')" "loop tt junk qo c' (k', q') = Some y"
      by (auto simp: bind_eq_Some_conv)
    obtain r m k1 where w: "tty_waiting tt k = ((r, m), k1)" by (metis prod.collapse)
    consider "c' = 0" "k' = k" | "uart_tstchar tt junk k = (c', k')"
      using t(1) by (auto simp: recv_turn_def bind_eq_Some_conv split: if_splits prod.splits)
    then show "\<exists>n. quiet tt n (fst s) = None"
    proof cases
      case 1
      then show ?thesis using IH [OF t(2)] s by simp
    next
      case 2
      show ?thesis
      proof (cases "r < 0 \<or> m = 0")
        case True
        then have "c' = 0 \<and> k' = k1" using 2 w by (auto simp: uart_tstchar_def)
        then obtain n where "quiet tt n k1 = None" using IH [OF t(2)] by auto
        then have "quiet tt (Suc n) k = None" using w True by auto
        then show ?thesis using s by (metis fst_conv)
      next
        case False
        then have "quiet tt 1 k = None" using w by auto
        then show ?thesis using s by (metis fst_conv)
      qed
    qed
  qed
qed

lemma uart_recv_silent:
  assumes silent: "\<forall>n. quiet tt n k \<noteq> None"
  shows "uart_recv tt junk qo (k, q) = None"
proof -
  from silent have "quiet tt (Suc 0) k \<noteq> None" by blast
  then obtain k1 where k1: "uart_tstchar tt junk k = (0, k1)" "quiet tt (Suc 0) k = Some k1"
    using quiet_poll [of tt 0 k _ junk] by fastforce
  have "quiet tt n k1 \<noteq> None" for n using spec [OF silent, of "Suc n"] k1(2) by (auto split: prod.splits if_splits)
  then have "recv_loop tt junk qo 0 (k1, q) \<noteq> Some y" for y
    using recv_loop_heard [of tt junk qo 0 "(k1, q)" y] by (metis fst_conv)
  then have "recv_loop tt junk qo 0 (k1, q) = None" by (cases "recv_loop tt junk qo 0 (k1, q)") auto
  then show "uart_recv tt junk qo (k, q) = None" by (simp add: uart_recv_def k1(1))
qed

section \<open>Properties\<close>

text \<open>
  C31: The video console: every character writes exactly the cells of its reference screen of 32 rows and
  128 columns, in order and inside the video memory, and the cursor stays on the screen.  A new line
  blanks the rest of the row except its last cell.\<close>
theorem minion_console_putchar_correct:
  assumes "a < 4096"
  shows "minion_console_putchar qo ch (of_nat a) q = do {
      (_, q) \<leftarrow> put_cells qo (screen_writes ch a) q; Some (of_nat (screen_cursor ch a), q) } \<and>
    screen_cursor ch a < 4096 \<and> list_all (\<lambda>(k, _, _). k < 4096) (screen_writes ch a)"
proof -
  have u: "unat (of_nat a :: u32) = a" using assms by (simp add: unat_of_nat take_bit_nat_eq_self)
  have col: "(of_nat a AND 127 = (0 :: u32)) = (a mod 128 = 0)" using u by (simp add: word_unat_eq_iff unat_column)
  have keep: "of_nat b AND 4095 = (of_nat b :: u32)" if "b < 4096" for b using that by (simp add: cell_of_nat)
  have nxt: "of_nat (a + 1) AND 4095 = (of_nat (if a = 4095 then 0 else a + 1) :: u32)"
    unfolding cell_of_nat using assms by auto
  have nxt2: "a \<noteq> 4095 \<Longrightarrow> of_nat a + 1 AND 4095 = (1 + of_nat a :: u32)" "a = 4095 \<Longrightarrow> of_nat a + 1 AND 4095 = (0 :: u32)"
    using nxt by (simp_all add: add.commute)
  have row: "a div 128 < 32" using assms by (simp add: div_less_iff_less_mult)
  have line: "of_nat (128 * (a div 128) + 127 + 1) AND 4095 = (of_nat (if a div 128 = 31 then 0 else 128 * (a div 128 + 1)) :: u32)"
    unfolding cell_of_nat using row by auto
  have "minion_console_putchar qo ch (of_nat a) q = do {
      (_, q) \<leftarrow> put_cells qo (screen_writes ch a) q; Some (of_nat (screen_cursor ch a), q) }"
  proof -
    consider "ch = 0x08" | "ch = 0x0D" | "ch = 0x0A" | "ch \<noteq> 0x08 \<and> ch \<noteq> 0x0D \<and> ch \<noteq> 0x0A" by blast
    then show ?thesis
    proof cases
      case 1
      then show ?thesis using keep [of a] keep [of "a - 1"] assms
        by (auto simp: minion_console_putchar_def screen_writes_def screen_cursor_def col of_nat_diff)
    next
      case 2
      then show ?thesis using keep assms by (simp add: minion_console_putchar_def screen_writes_def screen_cursor_def)
    next
      case 3
      then show ?thesis
        unfolding minion_console_putchar_def newline_loop_law [OF assms] screen_writes_def screen_cursor_def
        using line by (cases "put_cells qo (map (\<lambda>k. (k, 0x20, True)) [a..<128 * (a div 128) + 127]) q") auto
    next
      case 4
      then show ?thesis
        unfolding minion_console_putchar_def screen_writes_def screen_cursor_def cell_address [OF assms]
        using nxt2 by (cases "q_write qo (video_base + 4 * of_nat a) (ucast ch) False q") auto
    qed
  qed
  then show ?thesis using screen_cursor_cell screen_writes_cells assms by blast
qed

text \<open>A queue that records its writes.\<close>

definition log_queue :: "(u64 \<times> u32) list queue_ops" where
  "log_queue = \<lparr>q_write = (\<lambda>p v f q. Some ((), q @ [(p, v)])), q_read = (\<lambda>p q. Some (0, q)),
     q_read_array = (\<lambda>p n b q. Some (b, q)), q_block_read1 = (\<lambda>b n q. Some ((0, b), q)), q_flush = (\<lambda>q. Some (0, q))\<rparr>"

theorem minion_console_putchar_correct_witness:
  "minion_console_putchar log_queue 0x41 4095 [] = Some (0, [(0xA03FFC, 0x41)])"
  using minion_console_putchar_correct [of 4095 log_queue "0x41" "[]"]
  by (simp add: screen_writes_def screen_cursor_def log_queue_def video_base_def)

text \<open>
  C35: Waiting for a character, with a keyboard FIFO behind the queue.  If the terminal has something to
  read after \<open>n\<close> polls that found nothing, \<open>uart_recv\<close> returns after exactly these polls and one
  read, with the byte read (a carriage return as a new line when the rest of the integer it is read into
  is zero) or with 4 if the read failed.  The keyboard never ends the wait: unless the first poll
  succeeds, all keys waiting are taken from the FIFO and lost.  If the terminal stays silent,
  \<open>uart_recv\<close> does not return.\<close>
theorem uart_recv_returns:
  assumes "keyboard_fifo qo kok keys" and "kok q"
  shows "(\<forall>n k0 k1 k2 r c m b. quiet tt n k = Some k0 \<and> tty_waiting tt k0 = ((r, c), k1) \<and> 0 \<le> r \<and> c \<noteq> 0 \<and>
      tty_read tt k1 = ((m, b), k2) \<and> (m < 0 \<or> 0 < m \<and> (b \<noteq> 0 \<or> junk AND NOT 0xFF \<noteq> 0)) \<longrightarrow>
      (\<exists>q'. uart_recv tt junk qo (k, q) =
          Some (if m < 0 then 4 else if b = 0x0D \<and> junk AND NOT 0xFF = 0 then 0x0A else b, k2, q') \<and>
        kok q' \<and> (if n = 0 then q' = q else keys q' = 0))) \<and>
    ((\<forall>n. quiet tt n k \<noteq> None) \<longrightarrow> uart_recv tt junk qo (k, q) = None)"
proof (intro conjI allI impI; (elim conjE)?)
  fix n k0 k1 k2 r c m b
  assume q: "quiet tt n k = Some k0" and w: "tty_waiting tt k0 = ((r, c), k1)" "0 \<le> r" "c \<noteq> 0" "tty_read tt k1 = ((m, b), k2)"
    and nz: "m < 0 \<or> 0 < m \<and> (b \<noteq> 0 \<or> junk AND NOT 0xFF \<noteq> 0)"
  obtain ch where ch: "uart_tstchar tt junk k0 = (ch, k2)" "ch \<noteq> 0"
    "ucast (if ch = 0x0D then 0x0A else ch) = (if m < 0 then 4 else if b = 0x0D \<and> junk AND NOT 0xFF = 0 then 0x0A else b)"
    by (rule uart_tstchar_heard [OF w nz])
  show "\<exists>q'. uart_recv tt junk qo (k, q) = Some (if m < 0 then 4 else if b = 0x0D \<and> junk AND NOT 0xFF = 0 then 0x0A else b, k2, q') \<and>
      kok q' \<and> (if n = 0 then q' = q else keys q' = 0)"
  proof (cases n)
    case 0
    then have "recv_loop tt junk qo ch (k2, q) = Some (ch, k2, q)" "uart_tstchar tt junk k = (ch, k2)"
      using q ch by (simp_all add: recv_loop.simps [of tt junk qo ch])
    then show ?thesis using 0 ch(3) assms(2) by (auto simp: uart_recv_def)
  next
    case (Suc n')
    obtain k' where k': "uart_tstchar tt junk k = (0, k')" "quiet tt n' k' = Some k0" using quiet_poll q Suc by metis
    obtain q1 where q1: "recv_loop tt junk qo 0 (k', q) = recv_loop tt junk qo 0 (k', q1)" "kok q1" "keys q1 = 0"
      using keys_discarded [OF assms] by metis
    obtain q2 where "recv_loop tt junk qo 0 (k', q1) = Some (ch, k2, q2)" "kok q2" "keys q2 = 0"
      using polls_until_heard [OF assms(1) q1(2,3) k'(2) ch(1,2)] by metis
    then show ?thesis using Suc k'(1) q1(1) ch(3) by (auto simp: uart_recv_def)
  qed
qed (rule uart_recv_silent)

text \<open>A terminal that has an a after two empty polls, and a queue with a number of keys in front of it.\<close>

definition late_tty :: "nat tty_ops" where
  "late_tty = \<lparr>tty_waiting = (\<lambda>k. ((0, if k < 2 then 0 else 1), k + 1)), tty_read = (\<lambda>k. ((1, 0x61), k))\<rparr>"

definition mute_tty :: "nat tty_ops" where
  "mute_tty = \<lparr>tty_waiting = (\<lambda>k. ((0, 0), k)), tty_read = (\<lambda>k. ((0, 0), k))\<rparr>"

definition key_queue :: "nat queue_ops" where
  "key_queue = \<lparr>q_write = (\<lambda>p v f q. Some ((), q - 1)), q_read = (\<lambda>p q. Some (if q = 0 then 0x10000000 else 0, q)),
     q_read_array = (\<lambda>p n b q. Some (b, q)), q_block_read1 = (\<lambda>b n q. Some ((0, b), q)), q_flush = (\<lambda>q. Some (0, q))\<rparr>"

theorem uart_recv_returns_witness:
  "uart_recv late_tty 0 key_queue (0, 3) = Some (0x61, 3, 0) \<and> uart_recv mute_tty 0 key_queue (0, 3) = None"
proof -
  have kb: "keyboard_fifo key_queue (\<lambda>q. True) (\<lambda>q. q)" by (simp add: keyboard_fifo_def key_queue_def bit_simps)
  note law = uart_recv_returns [OF kb TrueI]
  have "quiet late_tty 2 0 = Some 2" by (simp add: late_tty_def numeral_2_eq_2)
  moreover have "tty_waiting late_tty 2 = ((0, 1), 3)" "tty_read late_tty 3 = ((1, 0x61), 3)" by (simp_all add: late_tty_def)
  ultimately have "uart_recv late_tty 0 key_queue (0, 3) = Some (0x61, 3, 0)"
    using conjunct1 [OF law [of late_tty 0 0 3]] by fastforce
  moreover have "quiet mute_tty n 0 = Some 0" for n by (induction n) (simp_all add: mute_tty_def)
  ultimately show ?thesis using conjunct2 [OF law [of mute_tty 0 0 3]] by simp
qed

end
