(* ===== verification/Terminal.thy ===== *)
theory Terminal
  imports Console Text
begin

text \<open>
  The terminal behind the console: its modes and the senders of \<open>uart.c\<close>, and the traps and
  system calls of \<open>syscalls.c\<close> that print through them.  The calls of the host are a parameter.
\<close>

section \<open>Terminal modes\<close>

record termios =
  c_iflag :: u32
  c_lflag :: u32
  c_rest :: bytes

definition ICANON :: u32 where "ICANON = 0x2"
definition ECHO :: u32 where "ECHO = 0x8"
definition ICRNL :: u32 where "ICRNL = 0x100"

text \<open>
  \<open>open\<close> of \<open>/dev/tty\<close>, \<open>close\<close>, \<open>tcgetattr\<close> (with the structure it fills unless it fails),
  \<open>tcsetattr\<close>, \<open>write\<close> of one byte, and \<open>perror\<close>.
\<close>

record 'h host_ops =
  h_open :: "'h \<Rightarrow> int \<times> 'h"
  h_close :: "int \<Rightarrow> 'h \<Rightarrow> 'h"
  h_get :: "int \<Rightarrow> 'h \<Rightarrow> (int \<times> termios) \<times> 'h"
  h_set :: "int \<Rightarrow> termios \<Rightarrow> 'h \<Rightarrow> int \<times> 'h"
  h_write :: "int \<Rightarrow> u8 \<Rightarrow> 'h \<Rightarrow> 'h"
  h_perror :: "string \<Rightarrow> 'h \<Rightarrow> 'h"

text \<open>The variables \<open>fd\<close>, \<open>first\<close> and \<open>oldt\<close>, the handlers registered with \<open>atexit\<close>, and the host.\<close>

record 'h tty =
  t_fd :: int
  t_first :: bool
  oldt :: termios
  at_exit :: nat
  t_host :: 'h

definition normal :: "'h host_ops \<Rightarrow> 'h tty \<Rightarrow> 'h tty" where
  "normal ho t =
     (let ((r, a), h) = h_get ho (t_fd t) (t_host t);
          a = (if r = 0 then a else oldt t);
          a = a\<lparr>c_lflag := c_lflag a OR (ICANON OR ECHO), c_iflag := c_iflag a OR ICRNL\<rparr>;
          (_, h) = h_set ho (t_fd t) a h
      in t\<lparr>oldt := a, t_first := True, t_host := h_close ho (t_fd t) h\<rparr>)"

definition cbreak :: "'h host_ops \<Rightarrow> 'h tty \<Rightarrow> 'h tty" where
  "cbreak ho t =
     (let (fd, h) = h_open ho (t_host t);
          ((r, a), h) = h_get ho fd h;
          h = (if r \<noteq> 0 then h_perror ho ''tcgetattr'' h else h);
          a = (if r = 0 then a else oldt t);
          a = a\<lparr>c_lflag := c_lflag a AND NOT (ICANON OR ECHO), c_iflag := c_iflag a AND NOT ICRNL\<rparr>;
          (r, h) = h_set ho fd a h;
          h = (if r \<noteq> 0 then h_perror ho ''tcsetattr'' h else h)
      in t\<lparr>t_fd := fd, t_first := False, oldt := a, at_exit := at_exit t + 1, t_host := h\<rparr>)"

definition uart_sendchar :: "'h host_ops \<Rightarrow> u8 \<Rightarrow> 'h tty \<Rightarrow> 'h tty" where
  "uart_sendchar ho ch t =
     (let t = (if t_first t then cbreak ho t else t) in t\<lparr>t_host := h_write ho (t_fd t) ch (t_host t)\<rparr>)"

definition uart_send :: "'h host_ops \<Rightarrow> u8 \<Rightarrow> 'h tty \<Rightarrow> 'h tty" where
  "uart_send ho data t = uart_sendchar ho data t"

text \<open>A string without a terminator is read past its end.\<close>

fun uart_send_string :: "'h host_ops \<Rightarrow> bytes \<Rightarrow> 'h tty \<Rightarrow> 'h tty option" where
  "uart_send_string ho [] t = None"
| "uart_send_string ho (c # str) t = (if c = 0 then Some t else uart_send_string ho str (uart_send ho c t))"

definition uart_send_buf :: "'h host_ops \<Rightarrow> bytes \<Rightarrow> int \<Rightarrow> 'h tty \<Rightarrow> 'h tty option" where
  "uart_send_buf ho buf len t = (if len > int (length buf) then None else Some (fold (uart_send ho) (take (nat len) buf) t))"

text \<open>The handlers \<open>exit\<close> runs: \<open>normal\<close>, once for every time the mode was set.\<close>

definition run_exit :: "'h host_ops \<Rightarrow> 'h tty \<Rightarrow> 'h tty" where
  "run_exit ho t = (normal ho ^^ at_exit t) (t\<lparr>at_exit := 0\<rparr>)"

text \<open>The interrupt enables store to the fixed address of the UART.\<close>

definition UART_BASE :: u32 where "UART_BASE = 0x42000000 OR 0x1000"
definition UART_IER :: u32 where "UART_IER = 1"

definition uart_enable_read_irq :: "(u32 \<Rightarrow> u32) \<Rightarrow> u32 \<Rightarrow> u32" where
  "uart_enable_read_irq m = m(UART_BASE + 4 * UART_IER := 1)"

definition uart_disable_read_irq :: "(u32 \<Rightarrow> u32) \<Rightarrow> u32 \<Rightarrow> u32" where
  "uart_disable_read_irq m = m(UART_BASE + 4 * UART_IER := 0)"

definition uart_read_irq :: "'k tty_ops \<Rightarrow> u32 \<Rightarrow> 'k \<Rightarrow> u8 \<times> 'k" where
  "uart_read_irq tt junk k = (case uart_getchar tt junk k of (c, k) \<Rightarrow> (ucast c, k))"

section \<open>Traps\<close>

definition CAUSE_ILLEGAL_INSTRUCTION :: u64 where "CAUSE_ILLEGAL_INSTRUCTION = 0x2"
definition CAUSE_MACHINE_ECALL :: u64 where "CAUSE_MACHINE_ECALL = 0xB"
definition SYS_exit :: u64 where "SYS_exit = 93"
definition SYS_stats :: u64 where "SYS_stats = 1234"
definition CSR_MCYCLE :: u64 where "CSR_MCYCLE = 0xF00"
definition CSR_MINSTRET :: u64 where "CSR_MINSTRET = 0xF02"
definition CSR_MBADADDR :: u64 where "CSR_MBADADDR = 0x343"

text \<open>What a program prints up to its end: the bytes, and whether it has left with \<open>_exit(0)\<close>.\<close>

definition tohost_exit :: "u64 \<Rightarrow> bytes \<times> int" where
  "tohost_exit code = (tohost_message code, 0)"

text \<open>A negative length counts through the whole address space.\<close>

definition handle_frontend_syscall :: "(u64 \<Rightarrow> u8) \<Rightarrow> u64 \<Rightarrow> u64 \<Rightarrow> (bytes \<times> u64) option" where
  "handle_frontend_syscall m arg1 arg2 =
     (if sint arg2 < 0 then None else Some (map (\<lambda>i. m (arg1 + of_nat i)) [0..<unat arg2], 0))"

text \<open>
  The counters: \<open>read_csr_safe\<close> is a place-holder, so that the number of a register is read in its
  place.  A name is the text of the macro argument.
\<close>

definition csr_list :: "(u64 \<times> string) list" where
  "csr_list = [(CSR_MCYCLE, ''mcycle''), (CSR_MINSTRET, ''minstret''), (0xCC0, ''0xcc0''), (0xCC1, ''0xcc1''), (0xCC2, ''0xcc2''),
     (0xCC3, ''0xcc3''), (0xCC4, ''0xcc4''), (0xCC5, ''0xcc5''), (0xCC6, ''0xcc6''), (0xCC7, ''0xcc7''), (0xCC8, ''0xcc8''),
     (0xCC9, ''0xcc9''), (0xCCA, ''0xcca''), (0xCCB, ''0xccb''), (0xCCC, ''0xccc''), (0xCCD, ''0xccd''), (0xCCE, ''0xcce''), (0xCCF, ''0xccf'')]"

record stats =
  counters :: "u64 list"
  counter_names :: "string option list"

definition handle_stats :: "bool \<Rightarrow> stats \<Rightarrow> u64 \<times> stats" where
  "handle_stats enable s =
     (0, \<lparr>counters = map2 (\<lambda>(csr, _) c. if enable then csr else csr - c) csr_list (counters s),
          counter_names = (if enable then counter_names s else map (\<lambda>(_, name). Some name) csr_list)\<rparr>)"

text \<open>A line of the report: \<open>%0x\<close> of the low half of a long.\<close>

definition report_line :: "string \<Rightarrow> u64 \<Rightarrow> bytes" where
  "report_line name v = chars name @ [0x3D] @ hex_digits False (unat (ucast v :: u32)) @ [0x0A]"

definition load_insn :: "(u64 \<Rightarrow> u8) \<Rightarrow> u64 \<Rightarrow> u32" where
  "load_insn m a = le32 (m a) (m (a + 1)) (m (a + 2)) (m (a + 3))"

text \<open>
  The trap: the bytes printed, and the exit status, or the address to return to with the registers
  and the counters.  \<open>csr_insn\<close> is a pointer that is never set.
\<close>

definition handle_trap ::
  "u64 \<Rightarrow> (u64 \<Rightarrow> u8) \<Rightarrow> u64 \<Rightarrow> u64 \<Rightarrow> u64 list \<Rightarrow> stats \<Rightarrow> (bytes \<times> (int + u64 \<times> u64 list \<times> stats)) option" where
  "handle_trap csr_insn m cause epc regs s =
     (if length regs < 32 then None
      else if cause = CAUSE_ILLEGAL_INSTRUCTION \<and> load_insn m epc AND load_insn m csr_insn = load_insn m csr_insn
      then Some ([], Inr (epc + 4, regs[10 := 0], s))
      else if cause \<noteq> CAUSE_MACHINE_ECALL then
        (let (msg, status) = tohost_exit 1337 in
         Some (report_line ''mcause'' cause @ report_line ''mepc'' epc @ report_line ''mbadaddr'' CSR_MBADADDR @
           report_line ''einsn'' (scast (load_insn m epc)) @ report_line ''sp'' (regs ! 2) @ report_line ''tp'' (regs ! 4) @ msg, Inl status))
      else if regs ! 17 = SYS_exit then (let (msg, status) = tohost_exit (regs ! 10) in Some (msg, Inl status))
      else if regs ! 17 = SYS_stats then
        (let (r, s) = handle_stats (ucast (regs ! 10) \<noteq> (0 :: u32)) s in Some ([], Inr (epc + 4, regs[10 := r], s)))
      else do {
        (out, r) \<leftarrow> handle_frontend_syscall m (regs ! 11) (regs ! 12);
        Some (out, Inr (epc + 4, regs[10 := r], s)) })"

section \<open>The bases of the memories\<close>

definition get_bram_base :: u64 where "get_bram_base = 0x40000000"
definition get_ddr_base :: u64 where "get_ddr_base = 0x80000000"
definition get_flash_base :: u64 where "get_flash_base = 0x41000000"

section \<open>Properties\<close>

text \<open>
  What the code relies on: a host with one terminal, whose settings \<open>tcgetattr\<close> gives and
  \<open>tcsetattr\<close> replaces, and whose text is what was written to a descriptor of it.
\<close>

definition host_tty :: "'h host_ops \<Rightarrow> ('h \<Rightarrow> termios) \<Rightarrow> ('h \<Rightarrow> bytes) \<Rightarrow> bool" where
  "host_tty ho mode shown \<longleftrightarrow>
     (\<forall>h. mode (snd (h_open ho h)) = mode h \<and> shown (snd (h_open ho h)) = shown h) \<and>
     (\<forall>fd h. mode (h_close ho fd h) = mode h \<and> shown (h_close ho fd h) = shown h) \<and>
     (\<forall>fd h. h_get ho fd h = ((0, mode h), h)) \<and>
     (\<forall>fd a h. fst (h_set ho fd a h) = 0 \<and> mode (snd (h_set ho fd a h)) = a \<and> shown (snd (h_set ho fd a h)) = shown h) \<and>
     (\<forall>fd c h. mode (h_write ho fd c h) = mode h \<and> shown (h_write ho fd c h) = shown h @ [c])"

definition line_mode :: "termios \<Rightarrow> bool" where
  "line_mode a \<longleftrightarrow> c_lflag a AND (ICANON OR ECHO) = ICANON OR ECHO \<and> c_iflag a AND ICRNL = ICRNL"

definition raw_mode :: "termios \<Rightarrow> termios" where
  "raw_mode a = a\<lparr>c_lflag := c_lflag a AND NOT (ICANON OR ECHO), c_iflag := c_iflag a AND NOT ICRNL\<rparr>"

lemma cbreak_law:
  assumes "host_tty ho mode shown"
  shows "mode (t_host (cbreak ho t)) = raw_mode (mode (t_host t))" and "shown (t_host (cbreak ho t)) = shown (t_host t)"
    and "\<not> t_first (cbreak ho t)" and "at_exit (cbreak ho t) = Suc (at_exit t)"
  using assms by (simp_all add: cbreak_def host_tty_def raw_mode_def Let_def case_prod_beta)

lemma send_law:
  assumes "host_tty ho mode shown"
  shows "mode (t_host (uart_send ho c t)) = (if t_first t then raw_mode (mode (t_host t)) else mode (t_host t))"
    and "shown (t_host (uart_send ho c t)) = shown (t_host t) @ [c]"
    and "\<not> t_first (uart_send ho c t)" and "at_exit (uart_send ho c t) = (if t_first t then Suc (at_exit t) else at_exit t)"
  using assms cbreak_law [OF assms, of t] by (auto simp: uart_send_def uart_sendchar_def host_tty_def Let_def)

lemma raw_raw [simp]: "raw_mode (raw_mode a) = raw_mode a"
  by (simp add: raw_mode_def and.assoc)

lemma send_string_law:
  assumes "host_tty ho mode shown" and "0 \<notin> set str"
  shows "\<exists>t'. uart_send_string ho (str @ 0 # rest) t = Some t' \<and> shown (t_host t') = shown (t_host t) @ str \<and>
    (if str = [] \<or> \<not> t_first t then mode (t_host t') = mode (t_host t) \<and> at_exit t' = at_exit t \<and> t_first t' = t_first t
     else mode (t_host t') = raw_mode (mode (t_host t)) \<and> at_exit t' = Suc (at_exit t) \<and> \<not> t_first t')"
  using assms(2)
proof (induction str arbitrary: t)
  case (Cons c str)
  obtain t' where "uart_send_string ho (str @ 0 # rest) (uart_send ho c t) = Some t'"
      "shown (t_host t') = shown (t_host (uart_send ho c t)) @ str"
      "if str = [] \<or> \<not> t_first (uart_send ho c t)
       then mode (t_host t') = mode (t_host (uart_send ho c t)) \<and> at_exit t' = at_exit (uart_send ho c t) \<and> t_first t' = t_first (uart_send ho c t)
       else mode (t_host t') = raw_mode (mode (t_host (uart_send ho c t))) \<and> at_exit t' = Suc (at_exit (uart_send ho c t)) \<and> \<not> t_first t'"
    using Cons.IH [of "uart_send ho c t"] Cons.prems by auto
  then show ?case using Cons.prems send_law [OF assms(1), of c t] by auto
qed simp

lemma normal_law:
  assumes "host_tty ho mode shown"
  shows "mode (t_host (normal ho t)) = (mode (t_host t))\<lparr>c_lflag := c_lflag (mode (t_host t)) OR (ICANON OR ECHO),
      c_iflag := c_iflag (mode (t_host t)) OR ICRNL\<rparr>"
    and "shown (t_host (normal ho t)) = shown (t_host t)"
  using assms by (simp_all add: normal_def host_tty_def Let_def case_prod_beta)

lemma line_of_raw: "line_mode a \<Longrightarrow> (raw_mode a)\<lparr>c_lflag := c_lflag (raw_mode a) OR (ICANON OR ECHO), c_iflag := c_iflag (raw_mode a) OR ICRNL\<rparr> = a"
proof -
  have b: "(x AND NOT m) OR m = x" if e: "x AND m = m" for x m :: u32
  proof (rule bit_word_eqI)
    fix n assume "n < LENGTH(32)"
    have "bit (x AND m) n = bit m n" by (simp only: e)
    then have "bit m n \<longrightarrow> bit x n" by (auto simp: bit_and_iff)
    then show "bit ((x AND NOT m) OR m) n = bit x n" using \<open>n < LENGTH(32)\<close> by (auto simp: bit_simps)
  qed
  show "line_mode a \<Longrightarrow> ?thesis" by (simp add: line_mode_def raw_mode_def b del: bit.de_Morgan_disj)
qed

text \<open>
  The terminal is left as it was found.  A program that finds the terminal in line mode and prints
  any strings sets it to single characters once, however much it prints, shows exactly the bytes of
  the strings, and after the handlers of \<open>exit\<close> the settings of the terminal are the old ones.
\<close>

theorem terminal_restored:
  assumes "host_tty ho mode shown" and "t_first t" and "at_exit t = 0" and "line_mode (mode (t_host t))"
    and "0 \<notin> set s1" and "0 \<notin> set s2"
  shows "\<exists>t1 t2. uart_send_string ho (s1 @ [0]) t = Some t1 \<and> uart_send_string ho (s2 @ [0]) t1 = Some t2 \<and>
    at_exit t2 = (if s1 @ s2 = [] then 0 else 1) \<and> shown (t_host (run_exit ho t2)) = shown (t_host t) @ s1 @ s2 \<and>
    mode (t_host (run_exit ho t2)) = mode (t_host t)"
proof -
  obtain t1 where t1: "uart_send_string ho (s1 @ [0]) t = Some t1" "shown (t_host t1) = shown (t_host t) @ s1"
      "if s1 = [] then mode (t_host t1) = mode (t_host t) \<and> at_exit t1 = 0 \<and> t_first t1
       else mode (t_host t1) = raw_mode (mode (t_host t)) \<and> at_exit t1 = 1 \<and> \<not> t_first t1"
    using send_string_law [OF assms(1,5), of "[]" t] assms(2,3) by auto
  obtain t2 where t2: "uart_send_string ho (s2 @ [0]) t1 = Some t2" "shown (t_host t2) = shown (t_host t1) @ s2"
      "if s1 @ s2 = [] then mode (t_host t2) = mode (t_host t) \<and> at_exit t2 = 0
       else mode (t_host t2) = raw_mode (mode (t_host t)) \<and> at_exit t2 = 1"
    using send_string_law [OF assms(1,6), of "[]" t1] t1(3) by (auto split: if_split_asm)
  have n: "mode (t_host (normal ho u)) = mode (t_host t)" if "mode (t_host u) = raw_mode (mode (t_host t))" for u :: "'a tty"
    using normal_law(1) [OF assms(1), of u] line_of_raw [OF assms(4)] that by simp
  show ?thesis
    using t1(1,2) t2 normal_law(2) [OF assms(1)] n [of "t2\<lparr>at_exit := 0\<rparr>"]
    by (auto simp: run_exit_def split: if_split_asm)
qed

definition demo_host :: "(termios \<times> bytes) host_ops" where
  "demo_host = \<lparr>h_open = (\<lambda>h. (3, h)), h_close = (\<lambda>_ h. h), h_get = (\<lambda>_ h. ((0, fst h), h)),
     h_set = (\<lambda>_ a h. (0, (a, snd h))), h_write = (\<lambda>_ c h. (fst h, snd h @ [c])), h_perror = (\<lambda>_ h. h)\<rparr>"

theorem terminal_restored_witness:
  "\<exists>t1 t2. uart_send_string demo_host [72, 105, 0] \<lparr>t_fd = 0, t_first = True, oldt = \<lparr>c_iflag = 0, c_lflag = 0, c_rest = []\<rparr>, at_exit = 0,
      t_host = (\<lparr>c_iflag = 0x500, c_lflag = 0x8A3B, c_rest = [7]\<rparr>, [])\<rparr> = Some t1 \<and>
    uart_send_string demo_host [33, 0] t1 = Some t2 \<and>
    t_host (run_exit demo_host t2) = (\<lparr>c_iflag = 0x500, c_lflag = 0x8A3B, c_rest = [7]\<rparr>, [72, 105, 33])"
proof -
  have h: "host_tty demo_host fst snd" by (simp add: host_tty_def demo_host_def)
  have l: "line_mode \<lparr>c_iflag = 0x500, c_lflag = 0x8A3B, c_rest = [7]\<rparr>" by (simp add: line_mode_def ICANON_def ECHO_def ICRNL_def)
  show ?thesis
    using terminal_restored [OF h, of "\<lparr>t_fd = 0, t_first = True, oldt = \<lparr>c_iflag = 0, c_lflag = 0, c_rest = []\<rparr>, at_exit = 0,
      t_host = (\<lparr>c_iflag = 0x500, c_lflag = 0x8A3B, c_rest = [7]\<rparr>, [])\<rparr>" "[72, 105]" "[33]"] l
    by (auto simp: prod_eq_iff)
qed

end
