(* ===== verification/Monitor.thy ===== *)
theory Monitor
  imports Shell Console
begin

text \<open>
  The command interpreter of \<open>selftest.c\<close>: \<open>minion_dispatch\<close> with every command, the old
  initialisation, and \<open>main\<close>.  The drives of FatFs are the SD card behind the SD host, whose state the
  raw commands share.  The diagnostics that the driver itself prints are not part of the output.
\<close>

section \<open>State\<close>

text \<open>The environment: terminal, queue, uninitialised objects, memory for images and the texts of two addresses.\<close>

record ('q, 'k) rig =
  rg_tty :: "'k tty_ops"
  rg_junk :: u32
  rg_queue :: "'q queue_ops"
  rg_tmp :: "u32 list"
  rg_csd :: bytes
  rg_stack :: stack
  rg_md5 :: md5_ctx
  rg_heap :: bytes
  rg_heap_ptr :: bytes
  rg_iobuf_ptr :: bytes

type_synonym ('q, 'k) monitor = "('q sdhost disk, 'k) shell"

definition rig_ops :: "('q, 'k) rig \<Rightarrow> 'q sdhost disk disk_ops" where
  "rig_ops rg = diskio_ops (sd_card (rg_queue rg) (rg_tmp rg)) (rg_csd rg)"

definition host :: "('q, 'k) monitor \<Rightarrow> 'q sdhost" where
  "host st = card (drives (sh_fat st))"

definition put_host :: "'q sdhost \<Rightarrow> ('q, 'k) monitor \<Rightarrow> ('q, 'k) monitor" where
  "put_host h st = st\<lparr>sh_fat := (sh_fat st)\<lparr>drives := (drives (sh_fat st))\<lparr>card := h\<rparr>\<rparr>\<rparr>"

definition on_host :: "('q sdhost \<Rightarrow> ('a \<times> 'q sdhost) option) \<Rightarrow> ('q, 'k) monitor \<Rightarrow> ('a \<times> ('q, 'k) monitor) option" where
  "on_host f st = do { (r, h) \<leftarrow> f (host st); Some (r, put_host h st) }"

definition receive :: "('q, 'k) rig \<Rightarrow> ('q, 'k) monitor \<Rightarrow> (u8 \<times> ('q, 'k) monitor) option" where
  "receive rg st = do {
     (ch, k, q) \<leftarrow> uart_recv (rg_tty rg) (rg_junk rg) (rg_queue rg) (sh_tty st, sd_queue (host st));
     Some (ch, put_host ((host st)\<lparr>sd_queue := q\<rparr>) (st\<lparr>sh_tty := k\<rparr>)) }"

section \<open>The old initialisation\<close>

definition transaction :: "('q, 'k) rig \<Rightarrow> u32 \<Rightarrow> u32 \<Rightarrow> u32 \<Rightarrow> ('q, 'k) monitor \<Rightarrow> (u32 \<times> ('q, 'k) monitor) option" where
  "transaction rg sdcmd arg setting st = do {
     (r, st) \<leftarrow> on_host (sd_transaction_v (rg_queue rg) (rg_tmp rg) sdcmd arg setting) st;
     t \<leftarrow> sd_transaction_show (card_status (host st));
     Some (r, say t st) }"

function old_op_cond :: "('q, 'k) rig \<Rightarrow> nat \<Rightarrow> ('q, 'k) monitor \<Rightarrow> (unit \<times> ('q, 'k) monitor) option" where
  "old_op_cond rg timeout st = do {
     (_, st) \<leftarrow> transaction rg 55 0x00000000 0x1 st;
     (busy, st) \<leftarrow> transaction rg 41 0x40300000 0x1 st;
     if 0x80000000 AND NOT busy \<noteq> 0 \<and> timeout < 100 then old_op_cond rg (timeout + 1) st else Some ((), st) }"
  by pat_completeness auto
termination by (relation "measure (\<lambda>(_, t, _). 100 - t)") auto

declare old_op_cond.simps [simp del]

text \<open>Signed overflow of the counter is undefined.\<close>

partial_function (option) each_sector ::
  "(u32 \<Rightarrow> ('q, 'k) monitor \<Rightarrow> (u32 \<times> ('q, 'k) monitor) option) \<Rightarrow> u32 \<Rightarrow> u64 \<Rightarrow> ('q, 'k) monitor \<Rightarrow> (unit \<times> ('q, 'k) monitor) option" where
  "each_sector f i addr2 st =
     (if scast i \<le> addr2 then do {
        (_, st) \<leftarrow> f i st;
        if i = 0x7FFFFFFF then None else each_sector f (i + 1) addr2 st }
      else Some ((), st))"

primrec transactions :: "('q, 'k) rig \<Rightarrow> (u32 \<times> u32 \<times> u32) list \<Rightarrow> ('q, 'k) monitor \<Rightarrow> (unit \<times> ('q, 'k) monitor) option" where
  "transactions rg [] st = Some ((), st)"
| "transactions rg (t # ts) st =
     (case t of (c, a, s) \<Rightarrow> do { (_, st) \<leftarrow> transaction rg c a s st; transactions rg ts st })"

definition old_init2 :: "('q, 'k) rig \<Rightarrow> u64 \<Rightarrow> u64 \<Rightarrow> ('q, 'k) monitor \<Rightarrow> (unit \<times> ('q, 'k) monitor) option" where
  "old_init2 rg addr addr2 st = (let qo = rg_queue rg in do {
     (_, st) \<leftarrow> on_host (sd_cmd_start qo 0) st;
     (_, st) \<leftarrow> on_host (sd_reset qo 0 1 1 1) st;
     (_, st) \<leftarrow> on_host (sd_blkcnt qo 1) st;
     (_, st) \<leftarrow> on_host (sd_blksize qo 0x200) st;
     (_, st) \<leftarrow> on_host (get_card_status qo) st;
     det \<leftarrow> get_at 12 (card_status (host st));
     if det \<noteq> 0 then Some ((), say (chars ''card slot is empty'' @ [0x0A]) st)
     else do {
       (_, st) \<leftarrow> transactions rg [(0, 0, 0), (8, 0x000001AA, 1)] st;
       (_, st) \<leftarrow> old_op_cond rg 0 st;
       (_, st) \<leftarrow> transaction rg 2 0 3 st;
       (rca, st) \<leftarrow> transaction rg 3 0 1 st;
       let st = say (chars ''rca='' @ myputhex rca 8 @ [0x0A]) st;
       (_, st) \<leftarrow> transactions rg [(9, rca, 3), (13, rca, 1), (7, rca, 1), (55, rca, 1), (51, 0, 1), (55, rca, 1), (13, 0, 1), (16, 0x200, 1)] st;
       each_sector (\<lambda>i. transaction rg 17 i 0x15) (ucast addr) addr2 st } })"

section \<open>Commands\<close>

text \<open>The lines of the device map.\<close>

definition dev_map :: "(string \<times> u32) list" where
  "dev_map = [(''io_ext_bram__BASE'', 0x40000000), (''io_ext_bram__MASK'', 0x1FFFF), (''mem__BASE'', 0x80000000), (''mem__MASK'', 0x7FFFFFF),
     (''io_ext_flash__BASE'', 0x41000000), (''io_ext_flash__MASK'', 0xFFFFFF), (''io_int_prci0__BASE'', 0x3000), (''io_int_prci0__MASK'', 0xFFF),
     (''io_int_rtc__BASE'', 0x2000), (''io_int_rtc__MASK'', 0xFFF), (''io_ext_uart__BASE'', 0x42000000), (''io_ext_uart__MASK'', 0x1FFF),
     (''io_ext_spi__BASE'', 0x42002000), (''io_ext_spi__MASK'', 0x1FFF), (''io_int_bootrom__BASE'', 0x0), (''io_int_bootrom__MASK'', 0x1FFF)]"

definition dev_map_text :: bytes where
  "dev_map_text = concat (map (\<lambda>(n, v). chars ''DEV_MAP__'' @ chars n @ chars '' = '' @ num_text 16 False 0 (unat v) @ [0x0A]) dev_map)"

definition hash_line :: "('q, 'k) rig \<Rightarrow> bytes \<Rightarrow> bytes option" where
  "hash_line rg buf = do {
     h \<leftarrow> hash_buf (rg_md5 rg) buf 512;
     Some (chars ''md5('' @ rg_iobuf_ptr rg @ chars '',512) = '' @ myputs h @ [0x0A]) }"

partial_function (option) cmd_h :: "('q, 'k) rig \<Rightarrow> u64 \<Rightarrow> u64 \<Rightarrow> ('q, 'k) monitor \<Rightarrow> (unit \<times> ('q, 'k) monitor) option" where
  "cmd_h rg addr addr2 st = do {
     t \<leftarrow> (if addr2 = 0 then do {
            s \<leftarrow> show_sector (minion_iobuf (host st));
            Some ([0x68, 0x20] @ myputhex (ucast addr) 8 @ [0x3A] @ s) }
          else hash_line rg (minion_iobuf (host st)));
     let st = say t st;
     if addr + 1 \<le> addr2 \<and> addr2 \<noteq> 0 then cmd_h rg (addr + 1) addr2 st else Some ((), st) }"

partial_function (option) cmd_R :: "('q, 'k) rig \<Rightarrow> u64 \<Rightarrow> u64 \<Rightarrow> ('q, 'k) monitor \<Rightarrow> (unit \<times> ('q, 'k) monitor) option" where
  "cmd_R rg addr addr2 st =
     (if addr \<le> addr2 then do {
        let st = say ([0x52, 0x20] @ myputhex (ucast addr) 8 @ [0x3A]) st;
        (data, st) \<leftarrow> on_host (with_queue (q_read (rg_queue rg) addr)) st;
        cmd_R rg (addr + 4) addr2 (say (myputhex data 8 @ [0x0A]) st) }
      else Some ((), st))"

definition cmd_I :: "('q, 'k) rig \<Rightarrow> u64 \<Rightarrow> u64 \<Rightarrow> ('q, 'k) monitor \<Rightarrow> (unit \<times> ('q, 'k) monitor) option" where
  "cmd_I rg addr addr2 st = do {
     (_, st) \<leftarrow> on_host (init_sd (rg_queue rg) (rg_tmp rg)) st;
     (_, st) \<leftarrow> each_sector (\<lambda>i. on_host (sd_read_sector1 (rg_queue rg) (rg_tmp rg) i)) (ucast addr) addr2 st;
     (_, st) \<leftarrow> mount (rig_ops rg) 0 st;
     Some ((), st) }"

definition cmd_m :: "('q, 'k) rig \<Rightarrow> ('q, 'k) monitor \<Rightarrow> (unit \<times> ('q, 'k) monitor) option" where
  "cmd_m rg st =
     (if sh_mounted st then Some ((), say (chars ''already mounted'' @ [0x0A]) st)
      else do { (_, st) \<leftarrow> mount (rig_ops rg) 1 st; Some ((), st) })"

definition cmd_s :: "('q, 'k) rig \<Rightarrow> bytes \<Rightarrow> ('q, 'k) monitor \<Rightarrow> (unit \<times> ('q, 'k) monitor) option" where
  "cmd_s rg args st = do {
     (sdcmd, nxt) \<leftarrow> scan args 16;
     let st = say ([0x73, 0x20] @ myputhex (ucast sdcmd) 2) st;
     (arg, nxt) \<leftarrow> scan nxt 16;
     let st = say ([0x2C] @ myputhex (ucast arg) 8) st;
     (setting, nxt) \<leftarrow> scan nxt 16;
     let st = say ([0x2C] @ myputhex (ucast setting) 1 @ [0x0A]) st;
     (_, st) \<leftarrow> transaction rg (ucast sdcmd) (ucast arg) (ucast setting) st;
     Some ((), say [0x0A] st) }"

text \<open>Two arguments, the second replaced by the first when it is zero.\<close>

definition scan_range :: "bytes \<Rightarrow> (u64 \<times> u64) option" where
  "scan_range args = do {
     (addr, nxt) \<leftarrow> scan args 16;
     (addr2, nxt) \<leftarrow> scan nxt 16;
     Some (addr, if addr2 = 0 then addr else addr2) }"

definition minion_dispatch :: "('q, 'k) rig \<Rightarrow> bytes \<Rightarrow> ('q, 'k) monitor \<Rightarrow> (unit \<times> ('q, 'k) monitor) option" where
  "minion_dispatch rg ucmd st = (let qo = rg_queue rg; args = tl ucmd in do {
     c \<leftarrow> get_at 0 ucmd;
     if c = 4 \<or> c = 0x71 then Some ((), st)
     else if c = 0x63 then Some ((), say (card_response (card_status (host st))) st)
     else if c = 0x43 then do {
       (data, _) \<leftarrow> scan args 16;
       on_host (sd_clk_div qo (ucast data)) (say ([0x43, 0x20] @ myputhex (ucast data) 8 @ [0x0A]) st) }
     else if c = 0x64 then Some ((), say dev_map_text st)
     else if c = 0x44 then do { (_, st) \<leftarrow> show_dir (rig_ops rg) (rg_stack rg) args st; Some ((), st) }
     else if c = 0x66 then do { (_, st) \<leftarrow> sdcard_test (rig_ops rg) (rg_stack rg) args st; Some ((), st) }
     else if c = 0x68 then do {
       (addr, nxt) \<leftarrow> scan args 16;
       (addr2, _) \<leftarrow> scan nxt 16;
       cmd_h rg addr addr2 st }
     else if c = 0x69 then do { (addr, addr2) \<leftarrow> scan_range args; old_init2 rg addr addr2 st }
     else if c = 0x49 then do { (addr, addr2) \<leftarrow> scan_range args; cmd_I rg addr addr2 st }
     else if c = 0x6C then do {
       (data, _) \<leftarrow> scan args 16;
       (_, st) \<leftarrow> on_host (sd_write_led qo (ucast data)) (say ([0x6C, 0x20] @ myputhex (ucast data) 2 @ [0x0A]) st);
       cmd_m rg st }
     else if c = 0x6D then cmd_m rg st
     else if c = 0x50 then do {
       (_, st) \<leftarrow> prepare (rig_ops rg) (rg_stack rg) (rg_md5 rg) (rg_heap_ptr rg) (rg_heap rg) args st;
       Some ((), st) }
     else if c = 0x72 then do {
       (addr, _) \<leftarrow> scan args 16;
       (data, st) \<leftarrow> on_host (with_queue (q_read qo addr)) (say ([0x72, 0x20] @ myputhex (ucast addr) 8 @ [0x2C]) st);
       Some ((), say (myputhex data 2 @ [0x0A]) st) }
     else if c = 0x52 then do {
       (addr, nxt) \<leftarrow> scan args 16;
       (addr2, _) \<leftarrow> scan nxt 16;
       cmd_R rg (addr AND NOT 3) addr2 st }
     else if c = 0x73 then cmd_s rg args st
     else if c = 0x74 then do {
       (data, _) \<leftarrow> scan args 16;
       on_host (sd_timeout qo (ucast data)) (say ([0x74, 0x20] @ myputhex (ucast data) 8 @ [0x0A]) st) }
     else if c = 0x75 then do { (_, st) \<leftarrow> unmount (rig_ops rg) st; Some ((), st) }
     else if c = 0x57 then do {
       (addr, nxt) \<leftarrow> scan args 16;
       (data, _) \<leftarrow> scan nxt 16;
       on_host (with_queue (q_write qo addr (ucast data) False))
         (say ([0x57, 0x20] @ myputhex (ucast addr) 8 @ [0x2C] @ myputhex (ucast data) 8 @ [0x0A]) st) }
     else Some ((), say (c # chars '': unknown command'' @ [0x0A]) st) })"

section \<open>The program\<close>

text \<open>The command loop; \<open>False\<close> when it is left by \<open>abort\<close>.\<close>

partial_function (option) main_loop :: "('q, 'k) rig \<Rightarrow> ('q, 'k) monitor \<Rightarrow> (bool \<times> ('q, 'k) monitor) option" where
  "main_loop rg st = do {
     (ok, st) \<leftarrow> mygets (receive rg) (say (chars ''selftest> '') st);
     if \<not> ok then Some (False, st)
     else do {
       (_, st) \<leftarrow> minion_dispatch rg (sh_line st) st;
       c \<leftarrow> get_at 0 (sh_line st);
       if c \<noteq> 0x71 then main_loop rg st else Some (True, st) } }"

definition selftest_main :: "('q, 'k) rig \<Rightarrow> ('q, 'k) monitor \<Rightarrow> (bool \<times> ('q, 'k) monitor) option" where
  "selftest_main rg st = do {
     (_, st) \<leftarrow> on_host (board_mmc_power_init (rg_queue rg)) st;
     main_loop rg st }"

end
