(* ===== verification/Spec2Isabelle.thy ===== *)
theory Spec2Isabelle
  imports Server Diskio Fat_Api_Laws Fat_Session Md5 Printf Elf Terminal Monitor
begin

text \<open>
  Verification of the EDCL server and of the SD-card stack that runs over it.

  THE PROGRAM.  A board with a small helper processor (the minion) is driven over Ethernet.  At the
  bottom, \<open>edcl.cpp\<close> and \<open>udp.cpp\<close> read and write the memory of the board with EDCL packets.
  Bus accesses of the minion are collected in a queue, written to shared memory as one batch and
  started by a doorbell word (\<open>bare_metal/minion_lib.c\<close>, \<open>bare_metal/queue.c\<close>).  The
  queue runs either directly over the EDCL service (\<open>queue.c\<close>) or, by way of \<open>client.c\<close>,
  over the UDP server \<open>serve.c\<close> (\<open>minion_lib.c\<close>).  On top of the queue stand the SD host
  controller \<open>minion_helper.c\<close>, the disk interface \<open>diskio.c\<close>, the FAT file system
  \<open>ff.c\<close>, the console \<open>uart.c\<close>, and the test program \<open>selftest.c\<close> with its command
  line, its boot loader, the ELF loader \<open>elf.c\<close>, the MD5 digest
  \<open>sdhci-minion-hash-md5.c\<close> and the \<open>printf\<close> of \<open>mini-printf.c\<close>.

  CONVENTIONS.  C integers are words of their width, memory objects are byte lists with their
  extent.  Every operation that can loop or index memory has a result in \<open>('a \<times> 's) option\<close>:
  \<open>Some (r, s)\<close> is a return with value \<open>r\<close> in state \<open>s\<close>, \<open>None\<close> a loop that does
  not end or an access outside its object.  Loops whose end depends on the outside are
  \<open>partial_function (option)\<close>; no fuel is used.  \<open>returns m P\<close> says that \<open>m\<close>
  returns and \<open>P\<close> holds of its result, so that every statement about a call includes its
  termination and its memory safety.  Results of the FatFs functions are the datatype
  \<open>fresult\<close> with the constructors of the source; other errors are the codes of the source.

  THEORIES, from the bottom up.

    Prelude: the machine types, checked accesses to byte lists (\<open>get_at\<close>, \<open>put_range\<close>,
  \<open>overlay\<close>), byte orders, \<open>returns\<close> and the named theorem collections.

    Edcl (\<open>edcl.cpp\<close>, \<open>edcl.h\<close>, \<open>edcl_types.h\<close>, \<open>udp.cpp\<close>): record
  \<open>edcl\<close> of the globals, packet building, the loops of \<open>EdclService_read\<close> and
  \<open>EdclService_write\<close> with resynchronisation of the sequence number.  The network is the
  parameter \<open>netops\<close>; \<open>edcl_device\<close> is the contract of the board.  Shown: reads and writes
  return, stay in their buffers and move exactly the bytes asked for.

    Wire (\<open>client.c\<close>, \<open>serve.c\<close>, \<open>main.h\<close>): the request structure in memory, the calls
  of the client, one pass of the server and its loop, the text requests with \<open>sprintf\<close> and
  \<open>sscanf\<close> written out.  Port: the contract \<open>remote_memory\<close> of a transport, kept by the
  EDCL service, and by client plus server for every choice of the functions the server calls that
  keeps \<open>serve_backend\<close>; what is written through client and server is read back.

    Queue (\<open>minion_lib.c\<close>, \<open>queue.c\<close>): the array of entries, every operation of the queue,
  and the locale \<open>minion\<close>, the firmware's side of the protocol.  Shown: the queue refines direct
  bus accesses in program order, whenever it is flushed.

    Sockets and Server (\<open>client.c\<close>, \<open>serve.c\<close>, \<open>udp.cpp\<close>, \<open>queue.c\<close>): resolving,
  connecting and binding over a record of the system calls, no descriptor is lost; the server linked
  with its queue, where a text request of the client acts on the bus as a direct access.

    Sdhost (\<open>minion_helper.c\<close>, \<open>sdhci.h\<close>): the SDHCI register file, the transactions with
  their waits and retries, sector transfers, card initialisation, over the record \<open>queue_ops\<close> of
  the queue.  Diskio (\<open>diskio.c\<close>): the five disk functions.

    Fat_Window, Fat_Table, Fat_Dir, Fat_Name, Fat_Volume, Fat_File, Fat_Api (\<open>ff.c\<close>, \<open>ff.h\<close>,
  \<open>ffconf.h\<close>, in the configuration of the repository): the functions of FatFs from the sector
  window to the interface, over the record \<open>disk_ops\<close> of the drive.  The state is the record
  \<open>fatfs\<close> of a volume, \<open>fil\<close> of a file, \<open>dir\<close> of a directory, and \<open>fat_sys\<close> of
  the module's statics.  The locale \<open>block_device\<close> is the contract of a drive that may fail;
  \<open>view\<close> is what the volume holds as seen through the write-back window.  Shown: the window is
  a cache that loses nothing (\<open>move_window\<close>, \<open>sync_fs\<close>) and what becomes of the second table
  when it is written back (\<open>sync_window\<close>); \<open>get_fat\<close>, \<open>put_fat\<close>,
  \<open>create_chain\<close>, \<open>remove_chain\<close> against an abstract allocation table; directory search,
  path following and mounting against abstract definitions.

    Fat_Read, Fat_Transfer, Fat_Grow, Fat_Write, Fat_Seek, Fat_Sync, Fat_Session: the contents of an open file
  (\<open>file_data\<close>) as the bytes its chain holds, with the file's own sector cache in front of the
  drive, and the invariant \<open>fil_inv\<close> of a file object between two calls.  \<open>f_read\<close> delivers
  the contents from the pointer on; \<open>f_write\<close> lays the bytes over them and takes only free
  clusters; \<open>f_lseek\<close> moves the pointer; together they read back what was written; after
  \<open>f_sync\<close> the drive itself holds the file and its directory entry.
  Fat_Api_Laws: counting free clusters, the current directory.

    Md5, Printf, Elf, Text: pure routines against reference definitions (RFC 1321 on the whole
  message, an unbounded formatter, the memory image of the segments, round trips of the number
  printers with the scanner).

    Console, Terminal (\<open>uart.c\<close>, \<open>spi.c\<close>, \<open>syscalls.c\<close>, \<open>memory.c\<close>): the video
  screen, the wait for a character (after how many polls it ends, and that a silent terminal
  or the keyboard never ends it), the SPI port, terminal modes, senders, traps and system calls.

    Shell, Shell_Laws, Monitor (\<open>selftest.c\<close>): the commands on files, the boot loader with its
  digest, the command line, and \<open>minion_dispatch\<close> with every command.

  PARAMETERS.  The operating system and the C library below the sockets, the terminal and the heap;
  the firmware of the minion; the card; \<open>queue_flush_cond\<close>, \<open>log_edcl_read\<close> and
  \<open>log_edcl_write\<close>, which the repository declares but does not define; the contents of
  uninitialised objects (arguments named \<open>junk\<close>, \<open>stack\<close> and the like).  What a theorem
  needs of them is a locale or a predicate, interpreted or instantiated on a concrete device.

  BOUNDS.  A request carries at most 8192 bytes, a packet 32; the queue holds 256 entries and a
  terminator; sectors are 512 bytes.  The theorems on files assume a volume
  with the layout \<open>find_volume\<close> establishes (\<open>vol_layout\<close>, \<open>dir_layout\<close>) and the file's
  chain ending with an end mark; positions that would wrap beyond 4 GB are the guard of the source.

  NOT MODELLED.  The glibc string routines under \<open>bare_metal/string\<close> and the C library, busybox
  and Linux headers are third-party code that the programs do not link or only use for types.  Code
  that the configuration removes (long file names, locks, re-entrancy, \<open>f_mkfs\<close>,
  \<open>f_forward\<close>, string functions, verbose tracing) has no definitions.  \<open>stub_main.c\<close> is
  compiled by no Makefile.  The C++ helper headers declare functions of another project.  Time
  (\<open>usleep\<close>) and what error messages print of an address are left out.
\<close>

end
